(* ===== verification/Prelude.thy ===== *)
theory Prelude
  imports Main "HOL-Library.Word"
begin

unbundle bit_operations_syntax

text \<open>
  What every component shares: the collections of rewrite rules the component
  theories fill, generic facts on lists and bit masks, and the model of C
  strings.  A C string is the list of its characters without the terminating
  NUL; a pointer to it that may be NULL is a \<open>string option\<close>.  A memory block
  is a list of characters of the block's size.
\<close>

section \<open>Collections of rewrite rules\<close>

named_theorems cstr_simps \<open>facts on the C string functions\<close>

named_theorems table_simps \<open>facts on the fields of an object table\<close>

named_theorems step_simps \<open>unfolding rules of the stateful components\<close>

section \<open>Generic lemmas\<close>

lemma take_while_all_id [simp]: "(\<forall>x \<in> set xs. P x) \<Longrightarrow> takeWhile P xs = xs"
  by (induction xs) auto

lemma and_mask_nat: "x AND (2 ^ k - 1) = (x :: nat) mod 2 ^ k"
proof -
  have "x AND mask k = take_bit k x"
    by (simp add: take_bit_eq_mask)
  then show ?thesis
    by (simp only: mask_eq_exp_minus_1 take_bit_eq_mod)
qed

section \<open>Characters and C strings\<close>

abbreviation NUL :: char where
  "NUL \<equiv> CHR 0x00"

definition is_cstring :: "string \<Rightarrow> bool" where
  "is_cstring s \<longleftrightarrow> NUL \<notin> set s"

definition cstr :: "char list \<Rightarrow> string" where
  "cstr m = takeWhile (\<lambda>c. c \<noteq> NUL) m"

definition char_at :: "string \<Rightarrow> nat \<Rightarrow> char" where
  "char_at s i = (if i < length s then s ! i else NUL)"

definition isspace :: "char \<Rightarrow> bool" where
  "isspace c \<longleftrightarrow> (let n = of_char c :: nat in n = 32 \<or> (9 \<le> n \<and> n \<le> 13))"

definition isprint :: "char \<Rightarrow> bool" where
  "isprint c \<longleftrightarrow> (let n = of_char c :: nat in 32 \<le> n \<and> n \<le> 126)"

definition isdigit :: "char \<Rightarrow> bool" where
  "isdigit c \<longleftrightarrow> (let n = of_char c :: nat in 48 \<le> n \<and> n \<le> 57)"

definition strncmp_eq :: "string \<Rightarrow> string \<Rightarrow> nat \<Rightarrow> bool" where
  "strncmp_eq a b n \<longleftrightarrow> take n a = take n b"

definition strncpy :: "char list \<Rightarrow> string \<Rightarrow> nat \<Rightarrow> char list" where
  "strncpy dest src n = take n (src @ replicate n NUL) @ drop n dest"

definition strnlen :: "char list \<Rightarrow> nat \<Rightarrow> nat" where
  "strnlen m n = length (cstr (take n m))"

definition snprintf :: "char list \<Rightarrow> nat \<Rightarrow> string \<Rightarrow> char list" where
  "snprintf buf n text =
     (if n = 0 then buf
      else take (n - 1) text @ [NUL] @ drop (Suc (min (n - 1) (length text))) buf)"

lemma cstr_id [cstr_simps, simp]: "is_cstring s \<Longrightarrow> cstr s = s"
  unfolding is_cstring_def cstr_def by (rule take_while_all_id) auto

lemma cstr_append_NUL [cstr_simps, simp]: "cstr (s @ NUL # r) = cstr s"
  by (induction s) (auto simp: cstr_def)

lemma is_cstring_cstr [cstr_simps, simp]: "is_cstring (cstr m)"
  by (auto simp: is_cstring_def cstr_def dest: set_takeWhileD)

lemma is_cstring_simps [cstr_simps, simp]:
  "is_cstring []"
  "is_cstring (c # s) \<longleftrightarrow> c \<noteq> NUL \<and> is_cstring s"
  "is_cstring (s @ t) \<longleftrightarrow> is_cstring s \<and> is_cstring t"
  by (auto simp: is_cstring_def)

lemma is_cstring_take [cstr_simps]: "is_cstring s \<Longrightarrow> is_cstring (take n s)"
  by (auto simp: is_cstring_def dest: in_set_takeD)

lemma char_at_nil [cstr_simps, simp]: "char_at [] i = NUL"
  by (simp add: char_at_def)

lemma char_at_cons [cstr_simps, simp]:
  "char_at (c # s) 0 = c" "char_at (c # s) (Suc i) = char_at s i"
  by (simp_all add: char_at_def)

lemma char_at_NUL_iff: "is_cstring s \<Longrightarrow> char_at s i = NUL \<longleftrightarrow> length s \<le> i"
  by (auto simp: char_at_def is_cstring_def) (metis not_le nth_mem)

lemma cstr_snprintf:
  assumes "is_cstring text" and "0 < n"
  shows "cstr (snprintf buf n text) = take (n - 1) text"
  using assms by (simp add: snprintf_def is_cstring_take)

lemma cstr_strncpy:
  assumes "is_cstring src" and "length src < n"
  shows "cstr (strncpy dest src n) = src"
proof -
  obtain k where "n = length src + Suc k"
    using assms(2) less_imp_Suc_add by (metis add_Suc_right)
  then show ?thesis
    using assms(1) by (simp add: strncpy_def take_replicate)
qed

lemma length_strncpy: "n \<le> length dest \<Longrightarrow> length (strncpy dest src n) = length dest"
  by (simp add: strncpy_def)

section \<open>Loops that may fail\<close>

text \<open>A loop over a list that stops at the first step that fails; None is a crash where it is used.\<close>

fun for_each :: "('s \<Rightarrow> 'b \<Rightarrow> 's option) \<Rightarrow> 's \<Rightarrow> 'b list \<Rightarrow> 's option" where
  "for_each f s [] = Some s"
| "for_each f s (x # xs) = (case f s x of None \<Rightarrow> None | Some s' \<Rightarrow> for_each f s' xs)"

lemma for_each_ok:
  assumes "\<And>s x. Q s \<Longrightarrow> x \<in> set xs \<Longrightarrow> \<exists>s'. f s x = Some s' \<and> Q s'" "Q s"
  shows "\<exists>s'. for_each f s xs = Some s' \<and> Q s'"
  using assms
proof (induction xs arbitrary: s)
  case (Cons x xs)
  then obtain s1 where "f s x = Some s1" "Q s1" by fastforce
  then show ?case using Cons by simp
qed simp

end
