(* ===== verification/Key_Store.thy ===== *)
theory Key_Store
  imports Prelude
begin

text \<open>
  The contract between the object table of parson and the code that keeps named values in it: what a
  lookup returns after a write, a removal or a clear, for keys that are C strings.  The locale's
  lemma carries the contract from one operation to any sequence of them, so that a client sees a finite map.
\<close>

datatype 'v store_op = Put string 'v | Remove string | Clear

fun op_ok :: "'v store_op \<Rightarrow> bool" where
  "op_ok (Put k _) = is_cstring k"
| "op_ok _ = True"

fun map_op :: "(string \<Rightarrow> 'v option) \<Rightarrow> 'v store_op \<Rightarrow> string \<Rightarrow> 'v option" where
  "map_op m (Put k v) = m(k \<mapsto> v)"
| "map_op m (Remove k) = m(k := None)"
| "map_op m Clear = (\<lambda>_. None)"

text \<open>A failed operation leaves the store as it was; the callers go on.\<close>

fun store_step ::
  "('t \<Rightarrow> string \<Rightarrow> 'v \<Rightarrow> 'e + 't) \<Rightarrow> ('t \<Rightarrow> string \<Rightarrow> 'e + 't) \<Rightarrow> ('t \<Rightarrow> 't) \<Rightarrow> 't \<Rightarrow> 'v store_op \<Rightarrow> 't" where
  "store_step put remove clear t (Put k v) = (case put t k v of Inl _ \<Rightarrow> t | Inr t' \<Rightarrow> t')"
| "store_step put remove clear t (Remove k) = (case remove t k of Inl _ \<Rightarrow> t | Inr t' \<Rightarrow> t')"
| "store_step put remove clear t Clear = clear t"

locale key_store =
  fixes ok :: "'t \<Rightarrow> bool"
    and lookup :: "'t \<Rightarrow> string \<Rightarrow> 'v option"
    and put :: "'t \<Rightarrow> string \<Rightarrow> 'v \<Rightarrow> 'e + 't"
    and remove :: "'t \<Rightarrow> string \<Rightarrow> 'e + 't"
    and clear :: "'t \<Rightarrow> 't"
  assumes put_ok: "ok t \<Longrightarrow> is_cstring k \<Longrightarrow>
      \<exists>t'. put t k v = Inr t' \<and> ok t' \<and> lookup t' = (lookup t)(k \<mapsto> v)"
    and remove_present: "ok t \<Longrightarrow> lookup t k \<noteq> None \<Longrightarrow>
      \<exists>t'. remove t k = Inr t' \<and> ok t' \<and> lookup t' = (lookup t)(k := None)"
    and remove_absent: "ok t \<Longrightarrow> lookup t k = None \<Longrightarrow> \<exists>e. remove t k = Inl e"
    and clear_ok: "ok t \<Longrightarrow> ok (clear t) \<and> lookup (clear t) = (\<lambda>_. None)"
begin

lemma step_refines:
  assumes "ok t" "op_ok opn"
  shows "ok (store_step put remove clear t opn)"
    and "lookup (store_step put remove clear t opn) = map_op (lookup t) opn"
proof -
  have "ok (store_step put remove clear t opn) \<and>
    lookup (store_step put remove clear t opn) = map_op (lookup t) opn"
  proof (cases opn)
    case (Put k v)
    then show ?thesis using put_ok [of t k v] assms by auto
  next
    case (Remove k)
    show ?thesis
    proof (cases "lookup t k")
      case None
      then have "(lookup t)(k := None) = lookup t" by auto
      then show ?thesis using remove_absent [OF assms(1) None] Remove assms(1) by auto
    next
      case (Some v)
      then show ?thesis using remove_present [OF assms(1), of k] Remove by auto
    qed
  next
    case Clear
    then show ?thesis using clear_ok assms by simp
  qed
  then show "ok (store_step put remove clear t opn)"
    "lookup (store_step put remove clear t opn) = map_op (lookup t) opn" by auto
qed

lemma run_refines:
  assumes "ok t" "list_all op_ok ops"
  shows "ok (foldl (store_step put remove clear) t ops) \<and>
    lookup (foldl (store_step put remove clear) t ops) = foldl map_op (lookup t) ops"
  using assms
proof (induction ops arbitrary: t)
  case (Cons opn ops)
  then show ?case using step_refines [of t opn] by simp
qed simp

end

end
