(* ===== verification/Parson_Object.thy ===== *)
theory Parson_Object
  imports Key_Store "HOL-Library.AList"
begin

text \<open>
  The object table of src/src/parson.c: an open-addressing hash table from C
  strings to values, with linear probing, a parallel array of items in insertion
  order and backward-shift deletion.  The arrays \<open>names\<close>, \<open>values\<close>, \<open>hashes\<close> and
  \<open>cell_ixs\<close> are lists of their \<open>count\<close> live entries, so \<open>count\<close> is the length of
  \<open>names\<close>; \<open>cells\<close> has all its \<open>cell_capacity\<close> entries, with \<open>None\<close> for
  \<open>OBJECT_INVALID_IX\<close>.  Values are a type parameter.  Sizes are natural numbers:
  capacities stay below 2 to the 32 on any machine that can hold the arrays.  The
  argument \<open>mem\<close> says whether \<open>parson_malloc\<close> grants a request of that many bytes.
  The lemmas show that the operations keep the table's invariant and implement
  the operations of an association list.
\<close>

section \<open>The table\<close>

datatype 'v json_object = JSON_Object
  (cells: "nat option list")
  (hashes: "64 word list")
  (names: "string list")
  (obj_values: "'v list")
  (cell_ixs: "nat list")
  (item_capacity: nat)
  (cell_capacity: nat)

abbreviation obj_count :: "'v json_object \<Rightarrow> nat" where
  "obj_count obj \<equiv> length (names obj)"

text \<open>
  \<open>Out_Of_Bounds\<close> stands for a write through \<open>OBJECT_INVALID_IX\<close>, which C leaves
  undefined; \<open>JSONFailure\<close> is the status the code returns.
\<close>

datatype json_error = JSONFailure | Out_Of_Bounds

type_synonym 'v json_status = "json_error + 'v json_object"

abbreviation STARTING_CAPACITY :: nat where
  "STARTING_CAPACITY \<equiv> 16"

fun hash_loop :: "64 word \<Rightarrow> string \<Rightarrow> 64 word" where
  "hash_loop hash [] = hash"
| "hash_loop hash (c # cs) =
     (if c = NUL then hash
      else hash_loop ((push_bit 5 hash + hash) + of_char c) cs)"

definition hash_string :: "string \<Rightarrow> nat \<Rightarrow> 64 word" where
  "hash_string str n = hash_loop 5381 (take n str)"

definition home_cell :: "nat \<Rightarrow> 64 word \<Rightarrow> nat" where
  "home_cell capacity hash = unat hash AND (capacity - 1)"

definition json_object_init :: "(nat \<Rightarrow> bool) \<Rightarrow> nat \<Rightarrow> 'v json_object option" where
  "json_object_init mem capacity =
     (let items = capacity * 7 div 10 in
      if capacity = 0 then Some (JSON_Object [] [] [] [] [] items capacity)
      else if mem (capacity * 8) \<and> mem (items * 8)
      then Some (JSON_Object (replicate capacity None) [] [] [] [] items capacity)
      else None)"

function json_object_get_cell_loop ::
  "'v json_object \<Rightarrow> string \<Rightarrow> nat \<Rightarrow> 64 word \<Rightarrow> nat \<Rightarrow> nat \<Rightarrow> nat option \<times> bool" where
  "json_object_get_cell_loop obj key key_len hash cell_ix i =
     (if i < cell_capacity obj then
        let ix = (cell_ix + i) AND (cell_capacity obj - 1) in
        case cells obj ! ix of
          None \<Rightarrow> (Some ix, False)
        | Some cell \<Rightarrow>
            if hash \<noteq> hashes obj ! cell
            then json_object_get_cell_loop obj key key_len hash cell_ix (Suc i)
            else let key_to_check = names obj ! cell in
              if length key_to_check = key_len \<and> strncmp_eq key key_to_check key_len
              then (Some ix, True)
              else json_object_get_cell_loop obj key key_len hash cell_ix (Suc i)
      else (None, False))"
  by pat_completeness auto
termination
  by (relation "measure (\<lambda>(obj, key, key_len, hash, cell_ix, i). cell_capacity obj - i)") auto

declare json_object_get_cell_loop.simps [simp del]

definition json_object_get_cell_ix ::
  "'v json_object \<Rightarrow> string \<Rightarrow> nat \<Rightarrow> 64 word \<Rightarrow> nat option \<times> bool" where
  "json_object_get_cell_ix obj key key_len hash =
     json_object_get_cell_loop obj key key_len hash (home_cell (cell_capacity obj) hash) 0"

definition json_object_put ::
  "'v json_object \<Rightarrow> nat option \<Rightarrow> string \<Rightarrow> 64 word \<Rightarrow> 'v \<Rightarrow> 'v json_status" where
  "json_object_put obj cell_ix name hash val =
     (case cell_ix of
        None \<Rightarrow> Inl Out_Of_Bounds
      | Some ix \<Rightarrow>
          Inr (JSON_Object ((cells obj)[ix := Some (obj_count obj)]) (hashes obj @ [hash])
            (names obj @ [name]) (obj_values obj @ [val]) (cell_ixs obj @ [ix])
            (item_capacity obj) (cell_capacity obj)))"

text \<open>
  \<open>json_object_add\<close> and \<open>json_object_grow_and_rehash\<close> call each other; the call from
  the rehashing loop always finds room.  \<open>json_object_add_with\<close> is the body of
  \<open>json_object_add\<close> over the function it calls to grow, and the loop uses it with
  one that fails; \<open>json_object_rehash_any_grow\<close> below shows that nothing is lost.
\<close>

definition json_object_add_with ::
  "('v json_object \<Rightarrow> 'v json_status) \<Rightarrow> 'v json_object \<Rightarrow> string \<Rightarrow> 'v \<Rightarrow> 'v json_status" where
  "json_object_add_with grow obj name val =
     (let hash = hash_string name (length name);
          (cell_ix, found) = json_object_get_cell_ix obj name (length name) hash in
      if found then Inl JSONFailure
      else if obj_count obj \<ge> item_capacity obj then
        (case grow obj of
           Inl e \<Rightarrow> Inl e
         | Inr obj' \<Rightarrow>
             json_object_put obj' (fst (json_object_get_cell_ix obj' name (length name) hash))
               name hash val)
      else json_object_put obj cell_ix name hash val)"

fun json_object_rehash ::
  "('v json_object \<Rightarrow> string \<Rightarrow> 'v \<Rightarrow> 'v json_status) \<Rightarrow> 'v json_object \<Rightarrow>
   (string \<times> 'v) list \<Rightarrow> 'v json_status" where
  "json_object_rehash add obj [] = Inr obj"
| "json_object_rehash add obj ((key, val) # items) =
     (case add obj key val of
        Inl e \<Rightarrow> Inl e
      | Inr obj' \<Rightarrow> json_object_rehash add obj' items)"

definition json_object_grow_and_rehash ::
  "(nat \<Rightarrow> bool) \<Rightarrow> 'v json_object \<Rightarrow> 'v json_status" where
  "json_object_grow_and_rehash mem obj =
     (case json_object_init mem (max (cell_capacity obj * 2) STARTING_CAPACITY) of
        None \<Rightarrow> Inl JSONFailure
      | Some new_object \<Rightarrow>
          json_object_rehash (json_object_add_with (\<lambda>_. Inl JSONFailure)) new_object
            (zip (names obj) (obj_values obj)))"

definition json_object_add ::
  "(nat \<Rightarrow> bool) \<Rightarrow> 'v json_object \<Rightarrow> string \<Rightarrow> 'v \<Rightarrow> 'v json_status" where
  "json_object_add mem = json_object_add_with (json_object_grow_and_rehash mem)"

definition json_object_getn_value :: "'v json_object \<Rightarrow> string \<Rightarrow> nat \<Rightarrow> 'v option" where
  "json_object_getn_value obj name name_len =
     (let (cell_ix, found) =
        json_object_get_cell_ix obj name name_len (hash_string name name_len) in
      if found then
        (case cell_ix of
           None \<Rightarrow> None
         | Some ix \<Rightarrow> map_option (\<lambda>item_ix. obj_values obj ! item_ix) (cells obj ! ix))
      else None)"

definition json_object_set_value ::
  "(nat \<Rightarrow> bool) \<Rightarrow> 'v json_object \<Rightarrow> string \<Rightarrow> 'v \<Rightarrow> bool \<Rightarrow> 'v json_status" where
  "json_object_set_value mem obj name val has_parent =
     (if has_parent then Inl JSONFailure
      else
        let hash = hash_string name (length name);
            (cell_ix, found) = json_object_get_cell_ix obj name (length name) hash in
        if found then
          (case cell_ix of
             None \<Rightarrow> Inl Out_Of_Bounds
           | Some ix \<Rightarrow>
               (case cells obj ! ix of
                  None \<Rightarrow> Inl Out_Of_Bounds
                | Some item_ix \<Rightarrow>
                    Inr (JSON_Object (cells obj) (hashes obj) (names obj)
                      ((obj_values obj)[item_ix := val]) (cell_ixs obj)
                      (item_capacity obj) (cell_capacity obj))))
        else if obj_count obj \<ge> item_capacity obj then
          (case json_object_grow_and_rehash mem obj of
             Inl e \<Rightarrow> Inl e
           | Inr obj' \<Rightarrow>
               json_object_put obj' (fst (json_object_get_cell_ix obj' name (length name) hash))
                 name hash val)
        else json_object_put obj cell_ix name hash val)"

text \<open>
  The loop that closes the hole a removed entry leaves: \<open>x\<close> is the number of
  iterations left, \<open>i\<close> the hole and \<open>j\<close> the cell examined last.
\<close>

fun json_object_close_hole ::
  "nat \<Rightarrow> 64 word list \<Rightarrow> nat \<Rightarrow> nat option list \<Rightarrow> nat list \<Rightarrow> nat \<Rightarrow> nat \<Rightarrow>
   nat option list \<times> nat list" where
  "json_object_close_hole cap hs 0 cs ixs i j = (cs[i := None], ixs)"
| "json_object_close_hole cap hs (Suc x) cs ixs i j =
     (let j' = (j + 1) AND (cap - 1) in
      case cs ! j' of
        None \<Rightarrow> (cs[i := None], ixs)
      | Some item \<Rightarrow>
          let k = home_cell cap (hs ! item) in
          if (j' > i \<and> (k \<le> i \<or> k > j')) \<or> (j' < i \<and> (k \<le> i \<and> k > j'))
          then json_object_close_hole cap hs x (cs[i := Some item]) (ixs[item := i]) j' j'
          else json_object_close_hole cap hs x cs ixs i j')"

definition swap_remove :: "'a list \<Rightarrow> nat \<Rightarrow> 'a list" where
  "swap_remove xs i = butlast (if i < length xs - 1 then xs[i := last xs] else xs)"

definition json_object_remove_internal :: "'v json_object \<Rightarrow> string \<Rightarrow> 'v json_status" where
  "json_object_remove_internal obj name =
     (let hash = hash_string name (length name);
          (cell_ix, found) = json_object_get_cell_ix obj name (length name) hash in
      if \<not> found then Inl JSONFailure
      else
        (case cell_ix of
           None \<Rightarrow> Inl Out_Of_Bounds
         | Some cell \<Rightarrow>
             (case cells obj ! cell of
                None \<Rightarrow> Inl Out_Of_Bounds
              | Some item_ix \<Rightarrow>
                  let last_item_ix = obj_count obj - 1;
                      cs = (if item_ix < last_item_ix
                            then (cells obj)[cell_ixs obj ! last_item_ix := Some item_ix]
                            else cells obj);
                      hs = swap_remove (hashes obj) item_ix;
                      (cs', ixs') = json_object_close_hole (cell_capacity obj) hs
                        (cell_capacity obj - 1) cs (swap_remove (cell_ixs obj) item_ix)
                        cell cell
                  in Inr (JSON_Object cs' hs (swap_remove (names obj) item_ix)
                       (swap_remove (obj_values obj) item_ix) ixs'
                       (item_capacity obj) (cell_capacity obj)))))"

definition json_object_clear :: "'v json_object \<Rightarrow> 'v json_object" where
  "json_object_clear obj =
     JSON_Object (map (\<lambda>_. None) (cells obj)) [] [] [] []
       (item_capacity obj) (cell_capacity obj)"

definition json_object_get_count :: "'v json_object \<Rightarrow> nat" where
  "json_object_get_count obj = obj_count obj"

definition json_object_get_name :: "'v json_object \<Rightarrow> nat \<Rightarrow> string option" where
  "json_object_get_name obj index =
     (if index \<ge> json_object_get_count obj then None else Some (names obj ! index))"

definition json_object_get_value_at :: "'v json_object \<Rightarrow> nat \<Rightarrow> 'v option" where
  "json_object_get_value_at obj index =
     (if index \<ge> json_object_get_count obj then None else Some (obj_values obj ! index))"

section \<open>The invariant\<close>

text \<open>
  The distance from the home cell \<open>h\<close> to \<open>q\<close> along the probe sequence.
\<close>

definition probe_dist :: "nat \<Rightarrow> nat \<Rightarrow> nat \<Rightarrow> nat" where
  "probe_dist cap h q = (if h \<le> q then q - h else q + cap - h)"

text \<open>
  \<open>links_ok\<close>: the occupied cells and the items are in one-to-one correspondence.
  \<open>probe_ok\<close>: no cell on the way from an item's home cell to its cell is empty.
\<close>

definition links_ok :: "nat \<Rightarrow> nat option list \<Rightarrow> nat list \<Rightarrow> bool" where
  "links_ok cap cs ixs \<longleftrightarrow>
     (\<forall>i < length ixs. ixs ! i < cap \<and> cs ! (ixs ! i) = Some i) \<and>
     (\<forall>c < cap. \<forall>i. cs ! c = Some i \<longrightarrow> i < length ixs \<and> ixs ! i = c)"

definition probe_ok :: "nat \<Rightarrow> nat option list \<Rightarrow> nat list \<Rightarrow> 64 word list \<Rightarrow> bool" where
  "probe_ok cap cs ixs hs \<longleftrightarrow>
     (\<forall>i < length ixs. \<forall>q < cap.
        probe_dist cap (home_cell cap (hs ! i)) q
          < probe_dist cap (home_cell cap (hs ! i)) (ixs ! i) \<longrightarrow> cs ! q \<noteq> None)"

definition sizes_ok :: "'v json_object \<Rightarrow> bool" where
  "sizes_ok obj \<longleftrightarrow>
     length (cells obj) = cell_capacity obj \<and>
     (cell_capacity obj = 0 \<or> (\<exists>k \<ge> 4. cell_capacity obj = 2 ^ k)) \<and>
     item_capacity obj = cell_capacity obj * 7 div 10 \<and>
     obj_count obj \<le> item_capacity obj \<and>
     length (hashes obj) = obj_count obj \<and>
     length (obj_values obj) = obj_count obj \<and>
     length (cell_ixs obj) = obj_count obj"

definition keys_ok :: "'v json_object \<Rightarrow> bool" where
  "keys_ok obj \<longleftrightarrow>
     distinct (names obj) \<and>
     (\<forall>i < obj_count obj. is_cstring (names obj ! i) \<and>
        hashes obj ! i = hash_string (names obj ! i) (length (names obj ! i)))"

definition table_ok :: "'v json_object \<Rightarrow> bool" where
  "table_ok obj \<longleftrightarrow>
     sizes_ok obj \<and> keys_ok obj \<and>
     links_ok (cell_capacity obj) (cells obj) (cell_ixs obj) \<and>
     probe_ok (cell_capacity obj) (cells obj) (cell_ixs obj) (hashes obj)"

text \<open>The abstraction: the association list of the items in insertion order.\<close>

definition obj_items :: "'v json_object \<Rightarrow> (string \<times> 'v) list" where
  "obj_items obj = zip (names obj) (obj_values obj)"

definition obj_map :: "'v json_object \<Rightarrow> string \<Rightarrow> 'v option" where
  "obj_map obj = map_of (obj_items obj)"

section \<open>Probe sequences\<close>

lemma and_capacity: "\<exists>k \<ge> 4. cap = 2 ^ k \<Longrightarrow> (x :: nat) AND (cap - Suc 0) = x mod cap"
  using and_mask_nat by auto

lemma home_cell_less: "\<exists>k \<ge> 4. cap = 2 ^ k \<Longrightarrow> home_cell cap hash < cap"
  using and_capacity [of cap "unat hash"] by (auto simp: home_cell_def)

lemma probe_dist_less: "h < cap \<Longrightarrow> q < cap \<Longrightarrow> probe_dist cap h q < cap"
  by (auto simp: probe_dist_def)

lemma probe_dist_self [simp]: "probe_dist cap h h = 0"
  by (simp add: probe_dist_def)

lemma mod_once: "(a :: nat) < 2 * cap \<Longrightarrow> a mod cap = (if a < cap then a else a - cap)"
  by (auto simp: mod_if)

lemma probe_dist_mod: "h < cap \<Longrightarrow> i < cap \<Longrightarrow> probe_dist cap h ((h + i) mod cap) = i"
  by (auto simp: mod_once probe_dist_def)

lemma mod_probe_dist: "h < cap \<Longrightarrow> q < cap \<Longrightarrow> (h + probe_dist cap h q) mod cap = q"
  by (auto simp: mod_once probe_dist_def)

lemma probe_dist_inj:
  "h < cap \<Longrightarrow> p < cap \<Longrightarrow> q < cap \<Longrightarrow> probe_dist cap h p = probe_dist cap h q \<Longrightarrow> p = q"
  by (auto simp: probe_dist_def split: if_splits)

lemma links_ok_free_cell:
  assumes "links_ok cap cs ixs" and "length ixs < cap"
  shows "\<exists>q < cap. cs ! q = None"
proof (rule ccontr)
  assume "\<not> ?thesis"
  then have all: "\<forall>q < cap. \<exists>i. cs ! q = Some i" by auto
  let ?f = "\<lambda>q. the (cs ! q)"
  have "inj_on ?f {..<cap}"
    using assms(1) all unfolding links_ok_def inj_on_def by (metis lessThan_iff option.sel)
  moreover have "?f ` {..<cap} \<subseteq> {..<length ixs}"
    using assms(1) all unfolding links_ok_def by force
  ultimately have "cap \<le> length ixs"
    using card_inj_on_le [of ?f "{..<cap}" "{..<length ixs}"] by simp
  with assms(2) show False by simp
qed

section \<open>Fields of a table\<close>

lemma table_okD:
  assumes "table_ok obj"
  shows "length (cells obj) = cell_capacity obj"
    and "cell_capacity obj = 0 \<or> (\<exists>k \<ge> 4. cell_capacity obj = 2 ^ k)"
    and "item_capacity obj = cell_capacity obj * 7 div 10"
    and "obj_count obj \<le> item_capacity obj"
    and "length (hashes obj) = obj_count obj"
    and "length (obj_values obj) = obj_count obj"
    and "length (cell_ixs obj) = obj_count obj"
    and "distinct (names obj)"
    and "i < obj_count obj \<Longrightarrow> is_cstring (names obj ! i)"
    and "i < obj_count obj \<Longrightarrow> hashes obj ! i = hash_string (names obj ! i) (length (names obj ! i))"
    and "links_ok (cell_capacity obj) (cells obj) (cell_ixs obj)"
    and "probe_ok (cell_capacity obj) (cells obj) (cell_ixs obj) (hashes obj)"
  using assms by (auto simp: table_ok_def sizes_ok_def keys_ok_def)

lemma table_ok_capacity:
  assumes "table_ok obj" and "i < obj_count obj"
  shows "\<exists>k \<ge> 4. cell_capacity obj = 2 ^ k"
  using table_okD(2,3,4) [OF assms(1)] assms(2) by (cases "cell_capacity obj = 0") auto

lemma table_ok_link:
  assumes "table_ok obj" and "i < obj_count obj"
  shows "cell_ixs obj ! i < cell_capacity obj" and "cells obj ! (cell_ixs obj ! i) = Some i"
  using table_okD(7,11) [OF assms(1)] assms(2) by (auto simp: links_ok_def)

lemma table_ok_cell:
  assumes "table_ok obj" and "c < cell_capacity obj" and "cells obj ! c = Some i"
  shows "i < obj_count obj" and "cell_ixs obj ! i = c"
  using table_okD(7,11) [OF assms(1)] assms(2,3) by (auto simp: links_ok_def)

lemma set_names_iff: "k \<in> set (names obj) \<longleftrightarrow> (\<exists>i < obj_count obj. names obj ! i = k)"
  by (metis in_set_conv_nth)

lemma hash_string_take [simp]: "hash_string (take n s) (length (take n s)) = hash_string s n"
  by (simp add: hash_string_def min_def)

lemma table_ok_room:
  assumes "table_ok obj" and "\<exists>k \<ge> 4. cell_capacity obj = 2 ^ k"
  shows "item_capacity obj < cell_capacity obj" and "obj_count obj < cell_capacity obj"
proof -
  have "0 < cell_capacity obj" using assms(2) by auto
  then show "item_capacity obj < cell_capacity obj"
    using table_okD(3) [OF assms(1)] by linarith
  then show "obj_count obj < cell_capacity obj"
    using table_okD(4) [OF assms(1)] by linarith
qed

section \<open>The search loop\<close>

lemma get_cell_loop_found:
  assumes ok: "table_ok obj" and j: "j < obj_count obj"
    and key: "names obj ! j = take n key" "n \<le> length key"
    and hash: "hash = hash_string key n"
    and i: "i \<le> probe_dist (cell_capacity obj) (home_cell (cell_capacity obj) hash) (cell_ixs obj ! j)"
  shows "json_object_get_cell_loop obj key n hash (home_cell (cell_capacity obj) hash) i
    = (Some (cell_ixs obj ! j), True)"
  using i
proof (induction "probe_dist (cell_capacity obj) (home_cell (cell_capacity obj) hash) (cell_ixs obj ! j) - i"
    arbitrary: i rule: less_induct)
  case less
  let ?cap = "cell_capacity obj" and ?h = "home_cell (cell_capacity obj) hash"
  let ?c = "cell_ixs obj ! j"
  have cap: "\<exists>k \<ge> 4. ?cap = 2 ^ k" using table_ok_capacity [OF ok j] .
  have h: "?h < ?cap" using cap by (rule home_cell_less)
  have c: "?c < ?cap" "cells obj ! ?c = Some j" using table_ok_link [OF ok j] by auto
  have hj: "hashes obj ! j = hash"
    using table_okD(10) [OF ok j] key hash by (simp add: hash_string_def)
  have i: "i < ?cap" using less.prems probe_dist_less [OF h c(1)] by simp
  define q where "q = (?h + i) mod ?cap"
  have ix: "(?h + i) AND (?cap - 1) = q" using cap by (simp add: and_capacity q_def)
  have q: "q < ?cap" "probe_dist ?cap ?h q = i"
    using i h by (simp_all add: q_def probe_dist_mod)
  show ?case
  proof (cases "i = probe_dist ?cap ?h ?c")
    case True
    then have "q = ?c" using q c h probe_dist_inj by metis
    then show ?thesis
      using i ix c hj key by (simp add: json_object_get_cell_loop.simps strncmp_eq_def)
  next
    case False
    with less.prems have lt: "i < probe_dist ?cap ?h ?c" by simp
    have "cells obj ! q \<noteq> None"
      using table_okD(7,12) [OF ok] j q lt hj by (simp add: probe_ok_def)
    then obtain it where it: "cells obj ! q = Some it" by auto
    have itj: "it < obj_count obj" "it \<noteq> j"
      using table_ok_cell [OF ok q(1) it] lt q by auto
    have "\<not> (length (names obj ! it) = n \<and> strncmp_eq key (names obj ! it) n)"
    proof
      assume "length (names obj ! it) = n \<and> strncmp_eq key (names obj ! it) n"
      then have "names obj ! it = names obj ! j" using key by (auto simp: strncmp_eq_def)
      then show False using itj j table_okD(8) [OF ok] by (simp add: nth_eq_iff_index_eq)
    qed
    moreover have "json_object_get_cell_loop obj key n hash ?h (Suc i) = (Some ?c, True)"
      using less.hyps [of "Suc i"] lt by simp
    ultimately show ?thesis
      using i ix it by (auto simp: Let_def json_object_get_cell_loop.simps [of obj key n hash ?h i])
  qed
qed

lemma get_cell_loop_missing:
  assumes ok: "table_ok obj" and cap: "\<exists>k \<ge> 4. cell_capacity obj = 2 ^ k"
    and key: "take n key \<notin> set (names obj)" "n \<le> length key"
    and i: "i \<le> cell_capacity obj"
    and before: "\<forall>q < cell_capacity obj. probe_dist (cell_capacity obj)
       (home_cell (cell_capacity obj) hash) q < i \<longrightarrow> cells obj ! q \<noteq> None"
  shows "\<exists>ix < cell_capacity obj.
     json_object_get_cell_loop obj key n hash (home_cell (cell_capacity obj) hash) i
       = (Some ix, False) \<and> cells obj ! ix = None \<and>
     (\<forall>q < cell_capacity obj. probe_dist (cell_capacity obj) (home_cell (cell_capacity obj) hash) q
        < probe_dist (cell_capacity obj) (home_cell (cell_capacity obj) hash) ix \<longrightarrow> cells obj ! q \<noteq> None)"
  using i before
proof (induction "cell_capacity obj - i" arbitrary: i)
  case 0
  let ?cap = "cell_capacity obj" and ?h = "home_cell (cell_capacity obj) hash"
  have h: "?h < ?cap" using cap by (rule home_cell_less)
  have "obj_count obj < ?cap"
    by (rule table_ok_room(2) [OF ok cap])
  then obtain q where "q < ?cap" "cells obj ! q = None"
    using links_ok_free_cell [OF table_okD(11) [OF ok]] table_okD(7) [OF ok] by auto
  with 0 probe_dist_less [OF h] show ?case by fastforce
next
  case (Suc x)
  let ?cap = "cell_capacity obj" and ?h = "home_cell (cell_capacity obj) hash"
  have h: "?h < ?cap" using cap by (rule home_cell_less)
  have i: "i < ?cap" using Suc.hyps by simp
  define q where "q = (?h + i) mod ?cap"
  have ix: "(?h + i) AND (?cap - 1) = q" using cap by (simp add: and_capacity q_def)
  have q: "q < ?cap" "probe_dist ?cap ?h q = i"
    using i h by (simp_all add: q_def probe_dist_mod)
  show ?case
  proof (cases "cells obj ! q")
    case None
    then show ?thesis
      using i ix q Suc.prems by (auto simp: json_object_get_cell_loop.simps [of obj key n hash ?h i])
  next
    case (Some it)
    have "\<not> (length (names obj ! it) = n \<and> strncmp_eq key (names obj ! it) n)"
      using key table_ok_cell(1) [OF ok q(1) Some] by (auto simp: strncmp_eq_def set_names_iff)
    then have eq: "json_object_get_cell_loop obj key n hash ?h i
      = json_object_get_cell_loop obj key n hash ?h (Suc i)"
      using i ix Some by (auto simp: Let_def json_object_get_cell_loop.simps [of obj key n hash ?h i])
    have "\<forall>p < ?cap. probe_dist ?cap ?h p < Suc i \<longrightarrow> cells obj ! p \<noteq> None"
      using Suc.prems(2) q Some probe_dist_inj [OF h _ q(1)] by (metis less_antisym option.distinct(1))
    with Suc.hyps(1) [of "Suc i"] Suc.hyps(2) i eq show ?thesis by simp
  qed
qed

text \<open>
  \<open>free_cell obj hash ix\<close>: the cell \<open>ix\<close> is the first empty one of the probe
  sequence of \<open>hash\<close>.
\<close>

definition free_cell :: "'v json_object \<Rightarrow> 64 word \<Rightarrow> nat \<Rightarrow> bool" where
  "free_cell obj hash ix \<longleftrightarrow>
     ix < cell_capacity obj \<and> cells obj ! ix = None \<and>
     (\<forall>q < cell_capacity obj. probe_dist (cell_capacity obj) (home_cell (cell_capacity obj) hash) q
        < probe_dist (cell_capacity obj) (home_cell (cell_capacity obj) hash) ix \<longrightarrow> cells obj ! q \<noteq> None)"

lemma get_cell_ix_found:
  assumes "table_ok obj" and "j < obj_count obj"
    and "names obj ! j = take n key" and "n \<le> length key"
  shows "json_object_get_cell_ix obj key n (hash_string key n) = (Some (cell_ixs obj ! j), True)"
  unfolding json_object_get_cell_ix_def using assms by (intro get_cell_loop_found) auto

lemma get_cell_ix_missing:
  assumes "table_ok obj" and "take n key \<notin> set (names obj)" and "n \<le> length key"
    and "cell_capacity obj \<noteq> 0"
  obtains ix where "json_object_get_cell_ix obj key n hash = (Some ix, False)"
    and "free_cell obj hash ix"
proof -
  have cap: "\<exists>k \<ge> 4. cell_capacity obj = 2 ^ k"
    using table_okD(2) [OF assms(1)] assms(4) by simp
  show ?thesis
    using that get_cell_loop_missing [OF assms(1) cap assms(2,3), of 0 hash]
    unfolding json_object_get_cell_ix_def free_cell_def by auto
qed

lemma get_cell_ix_empty:
  "cell_capacity obj = 0 \<Longrightarrow> json_object_get_cell_ix obj key n hash = (None, False)"
  by (simp add: json_object_get_cell_ix_def json_object_get_cell_loop.simps)

lemma get_cell_ix_not_found:
  assumes "table_ok obj" and "take n key \<notin> set (names obj)" and "n \<le> length key"
  shows "snd (json_object_get_cell_ix obj key n hash) = False"
  by (cases "cell_capacity obj = 0")
    (auto simp: get_cell_ix_empty intro: get_cell_ix_missing [OF assms, of hash])

lemma hash_string_all: "names obj ! j = name \<Longrightarrow> names obj ! j = take (length name) name"
  by simp

section \<open>Adding an entry\<close>

lemma table_ok_init:
  assumes "json_object_init mem cap = Some obj" and "cap = 0 \<or> (\<exists>k \<ge> 4. cap = 2 ^ k)"
  shows "table_ok obj" and "obj_items obj = []" and "cell_capacity obj = cap"
    and "item_capacity obj = cap * 7 div 10" and "names obj = []"
  using assms
  by (auto simp: json_object_init_def Let_def table_ok_def sizes_ok_def keys_ok_def links_ok_def
      probe_ok_def obj_items_def split: if_splits)

lemma json_object_put_ok:
  assumes ok: "table_ok obj" and name: "is_cstring name" "name \<notin> set (names obj)"
    and room: "obj_count obj < item_capacity obj"
    and free: "free_cell obj (hash_string name (length name)) ix"
  shows "\<exists>obj'. json_object_put obj (Some ix) name (hash_string name (length name)) val = Inr obj' \<and>
     table_ok obj' \<and> obj_items obj' = obj_items obj @ [(name, val)] \<and>
     names obj' = names obj @ [name] \<and>
     item_capacity obj' = item_capacity obj \<and> cell_capacity obj' = cell_capacity obj"
proof -
  let ?hash = "hash_string name (length name)" and ?cap = "cell_capacity obj"
  let ?cs = "(cells obj)[ix := Some (obj_count obj)]" and ?ixs = "cell_ixs obj @ [ix]"
  let ?hs = "hashes obj @ [?hash]"
  note D = table_okD [OF ok]
  have ix: "ix < ?cap" "cells obj ! ix = None" using free by (auto simp: free_cell_def)
  have links: "links_ok ?cap ?cs ?ixs"
    using D(1,7,11) ix by (auto simp: links_ok_def nth_append nth_list_update)
  have probe: "probe_ok ?cap ?cs ?ixs ?hs"
    using D(1,5,7,12) free by (auto simp: probe_ok_def free_cell_def nth_append nth_list_update)
  have "sizes_ok (JSON_Object ?cs ?hs (names obj @ [name]) (obj_values obj @ [val]) ?ixs
      (item_capacity obj) ?cap)"
    using D(1-7) room by (simp add: sizes_ok_def)
  moreover have "keys_ok (JSON_Object ?cs ?hs (names obj @ [name]) (obj_values obj @ [val]) ?ixs
      (item_capacity obj) ?cap)"
    using D(5,8-10) name by (auto simp: keys_ok_def nth_append less_Suc_eq)
  ultimately show ?thesis
    using links probe D(6) by (auto simp: json_object_put_def table_ok_def obj_items_def)
qed

lemma json_object_add_with_room:
  assumes ok: "table_ok obj" and name: "is_cstring name" "name \<notin> set (names obj)"
    and room: "obj_count obj < item_capacity obj"
  shows "\<exists>obj'. json_object_add_with grow obj name val = Inr obj' \<and>
     table_ok obj' \<and> obj_items obj' = obj_items obj @ [(name, val)] \<and>
     names obj' = names obj @ [name] \<and>
     item_capacity obj' = item_capacity obj \<and> cell_capacity obj' = cell_capacity obj"
proof -
  let ?hash = "hash_string name (length name)"
  have "cell_capacity obj \<noteq> 0" using room table_okD(3) [OF ok] by auto
  then obtain ix where ix: "json_object_get_cell_ix obj name (length name) ?hash = (Some ix, False)"
      "free_cell obj ?hash ix"
    using get_cell_ix_missing [OF ok, of "length name" name] name by auto
  show ?thesis
    using json_object_put_ok [OF ok name room ix(2)] room ix(1)
    by (auto simp: json_object_add_with_def Let_def)
qed

lemma json_object_rehash_ok:
  assumes "table_ok obj" and "distinct (map fst items)"
    and "\<forall>k \<in> fst ` set items. is_cstring k \<and> k \<notin> set (names obj)"
    and "obj_count obj + length items \<le> item_capacity obj"
  shows "\<exists>obj'. json_object_rehash (json_object_add_with grow) obj items = Inr obj' \<and>
     table_ok obj' \<and> obj_items obj' = obj_items obj @ items \<and>
     names obj' = names obj @ map fst items \<and>
     item_capacity obj' = item_capacity obj \<and> cell_capacity obj' = cell_capacity obj"
  using assms
proof (induction items arbitrary: obj)
  case Nil
  then show ?case by simp
next
  case (Cons it items)
  obtain k v where it: "it = (k, v)" by (cases it)
  obtain obj1 where 1: "json_object_add_with grow obj k v = Inr obj1" "table_ok obj1"
      "obj_items obj1 = obj_items obj @ [(k, v)]" "names obj1 = names obj @ [k]"
      "item_capacity obj1 = item_capacity obj" "cell_capacity obj1 = cell_capacity obj"
    using json_object_add_with_room [of obj k grow v] Cons.prems it by auto
  have "distinct (map fst items)" and "obj_count obj1 + length items \<le> item_capacity obj1"
    and "\<forall>k \<in> fst ` set items. is_cstring k \<and> k \<notin> set (names obj1)"
    using Cons.prems it 1(4,5) by auto
  from Cons.IH [OF 1(2) this(1,3,2)] show ?case
    using it 1 by auto
qed

text \<open>The arrays the grown table needs are granted.\<close>

definition grow_granted :: "(nat \<Rightarrow> bool) \<Rightarrow> 'v json_object \<Rightarrow> bool" where
  "grow_granted mem obj \<longleftrightarrow>
     (let cap = max (cell_capacity obj * 2) STARTING_CAPACITY in
      mem (cap * 8) \<and> mem (cap * 7 div 10 * 8))"

lemma json_object_grow_and_rehash_ok:
  assumes ok: "table_ok obj" and mem: "grow_granted mem obj"
  shows "\<exists>obj'. json_object_grow_and_rehash mem obj = Inr obj' \<and> table_ok obj' \<and>
     obj_items obj' = obj_items obj \<and> names obj' = names obj \<and> obj_count obj < item_capacity obj'"
proof -
  let ?cap = "max (cell_capacity obj * 2) STARTING_CAPACITY"
  note D = table_okD [OF ok]
  have cap: "\<exists>k \<ge> 4. ?cap = 2 ^ k"
  proof (cases "cell_capacity obj = 0")
    case True
    then show ?thesis by (intro exI [of _ 4]) simp
  next
    case False
    with D(2) obtain k where "4 \<le> k" "cell_capacity obj = 2 ^ k" by auto
    moreover then have "(16 :: nat) \<le> 2 ^ Suc k"
      using power_increasing [of 4 "Suc k" "2 :: nat"] by simp
    ultimately show ?thesis by (intro exI [of _ "Suc k"]) (simp add: max_def)
  qed
  obtain new :: "'a json_object" where new: "json_object_init mem ?cap = Some new"
    using mem by (auto simp: json_object_init_def grow_granted_def Let_def)
  note N = table_ok_init [OF new disjI2 [OF cap]]
  have lt: "obj_count obj < ?cap * 7 div 10"
  proof -
    have "obj_count obj \<le> cell_capacity obj * 7 div 10" using D(3,4) by simp
    also have "\<dots> < ?cap * 7 div 10" by (cases "cell_capacity obj = 0") (auto simp: max_def)
    finally show ?thesis .
  qed
  have map_fst: "map fst (zip (names obj) (obj_values obj)) = names obj" using D(6) by simp
  then have "\<forall>k \<in> fst ` set (zip (names obj) (obj_values obj)). is_cstring k \<and> k \<notin> set (names new)"
    using D(9) N(5) by (metis empty_iff in_set_conv_nth list.set(1) list.set_map)
  then show ?thesis
    using json_object_rehash_ok [OF N(1), of "zip (names obj) (obj_values obj)" "\<lambda>_. Inl JSONFailure"]
      map_fst D(6,8) N new lt
    by (auto simp: json_object_grow_and_rehash_def obj_items_def)
qed

lemma json_object_grow_and_rehash_refused:
  "\<not> grow_granted mem obj \<Longrightarrow> json_object_grow_and_rehash mem obj = Inl JSONFailure"
  by (auto simp: json_object_grow_and_rehash_def json_object_init_def grow_granted_def Let_def max_def)

text \<open>
  The rehashing loop over \<open>json_object_add\<close> itself, as the code has it, is the one
  over the body with a failing grow: the new table always has room.
\<close>

lemma json_object_rehash_any_grow:
  assumes "table_ok obj" and "distinct (map fst items)"
    and "\<forall>k \<in> fst ` set items. is_cstring k \<and> k \<notin> set (names obj)"
    and "obj_count obj + length items \<le> item_capacity obj"
  shows "json_object_rehash (json_object_add_with grow) obj items
    = json_object_rehash (json_object_add_with grow') obj items"
  using assms
proof (induction items arbitrary: obj)
  case Nil
  then show ?case by simp
next
  case (Cons it items)
  obtain k v where it: "it = (k, v)" by (cases it)
  have room: "obj_count obj < item_capacity obj" using Cons.prems(4) by simp
  have k: "is_cstring k" "k \<notin> set (names obj)" using Cons.prems(3) it by auto
  have eq: "json_object_add_with grow obj k v = json_object_add_with grow' obj k v"
    using room by (simp add: json_object_add_with_def Let_def split_beta)
  obtain obj1 where 1: "json_object_add_with grow obj k v = Inr obj1" "table_ok obj1"
      "names obj1 = names obj @ [k]" "item_capacity obj1 = item_capacity obj"
    using json_object_add_with_room [OF Cons.prems(1) k room, of grow v] by auto
  have "distinct (map fst items)" and "obj_count obj1 + length items \<le> item_capacity obj1"
    and "\<forall>k \<in> fst ` set items. is_cstring k \<and> k \<notin> set (names obj1)"
    using Cons.prems it 1(3,4) by auto
  from Cons.IH [OF 1(2) this(1,3,2)] show ?case
    using 1(1) 1(1) [unfolded eq] by (simp add: it)
qed

lemma obj_items_lookup:
  assumes "table_ok obj" and "j < obj_count obj"
  shows "obj_map obj (names obj ! j) = Some (obj_values obj ! j)"
  using table_okD(6,8) [OF assms(1)] assms(2)
  by (simp add: obj_map_def obj_items_def map_of_zip_nth)

lemma map_fst_obj_items [simp]: "table_ok obj \<Longrightarrow> map fst (obj_items obj) = names obj"
  by (simp add: obj_items_def table_okD(6))

lemma obj_map_None_iff: "table_ok obj \<Longrightarrow> obj_map obj k = None \<longleftrightarrow> k \<notin> set (names obj)"
  by (metis map_fst_obj_items map_of_eq_None_iff obj_map_def set_map)

lemma length_obj_items [simp]: "table_ok obj \<Longrightarrow> length (obj_items obj) = obj_count obj"
  by (simp add: obj_items_def table_okD(6))

section \<open>What the operations do to the association list\<close>

lemma json_object_getn_value_eq:
  assumes ok: "table_ok obj" and n: "n \<le> length name"
  shows "json_object_getn_value obj name n = obj_map obj (take n name)"
proof (cases "take n name \<in> set (names obj)")
  case True
  then obtain j where j: "j < obj_count obj" "names obj ! j = take n name"
    by (auto simp: set_names_iff)
  then show ?thesis
    using get_cell_ix_found [OF ok j n] table_ok_link(2) [OF ok j(1)] obj_items_lookup [OF ok j(1)]
    by (simp add: json_object_getn_value_def)
next
  case False
  then show ?thesis
    using get_cell_ix_not_found [OF ok False n, of "hash_string name n"] obj_map_None_iff [OF ok, of "take n name"]
    by (auto simp: json_object_getn_value_def split_beta)
qed

lemma json_object_put_first_free:
  assumes ok: "table_ok obj" and name: "is_cstring name" "name \<notin> set (names obj)"
    and room: "obj_count obj < item_capacity obj"
  shows "\<exists>obj'. json_object_put obj (fst (json_object_get_cell_ix obj name (length name)
       (hash_string name (length name)))) name (hash_string name (length name)) val = Inr obj' \<and>
     table_ok obj' \<and> obj_items obj' = obj_items obj @ [(name, val)]"
proof -
  have "cell_capacity obj \<noteq> 0" using room table_okD(3) [OF ok] by auto
  then obtain ix where "json_object_get_cell_ix obj name (length name)
      (hash_string name (length name)) = (Some ix, False)"
      "free_cell obj (hash_string name (length name)) ix"
    using get_cell_ix_missing [OF ok, of "length name" name] name by auto
  then show ?thesis using json_object_put_ok [OF ok name room] by auto
qed

lemma json_object_add_fresh:
  assumes ok: "table_ok obj" and name: "is_cstring name" "name \<notin> set (names obj)"
    and mem: "obj_count obj < item_capacity obj \<or> grow_granted mem obj"
  shows "\<exists>obj'. json_object_add mem obj name val = Inr obj' \<and> table_ok obj' \<and>
     obj_items obj' = obj_items obj @ [(name, val)]"
proof (cases "obj_count obj < item_capacity obj")
  case True
  then show ?thesis
    using json_object_add_with_room [OF ok name True] by (auto simp: json_object_add_def)
next
  case False
  with mem have "grow_granted mem obj" by simp
  then obtain obj1 where 1: "json_object_grow_and_rehash mem obj = Inr obj1" "table_ok obj1"
      "obj_items obj1 = obj_items obj" "names obj1 = names obj" "obj_count obj < item_capacity obj1"
    using json_object_grow_and_rehash_ok [OF ok] by blast
  then show ?thesis
    using json_object_put_first_free [OF 1(2) name(1) _ ] 1 name(2) False
      get_cell_ix_not_found [OF ok, of "length name" name]
    by (simp add: json_object_add_def json_object_add_with_def Let_def split_beta)
qed

lemma json_object_add_present:
  assumes ok: "table_ok obj" and name: "name \<in> set (names obj)"
  shows "json_object_add mem obj name val = Inl JSONFailure"
proof -
  obtain j where "j < obj_count obj" "names obj ! j = name" using name by (auto simp: set_names_iff)
  then show ?thesis
    using get_cell_ix_found [OF ok, of j "length name" name]
    by (simp add: json_object_add_def json_object_add_with_def Let_def)
qed

lemma json_object_add_refused:
  assumes ok: "table_ok obj" and name: "name \<notin> set (names obj)"
    and "item_capacity obj \<le> obj_count obj" and "\<not> grow_granted mem obj"
  shows "json_object_add mem obj name val = Inl JSONFailure"
  using assms(3) get_cell_ix_not_found [OF ok, of "length name" name] name
    json_object_grow_and_rehash_refused [OF assms(4)]
  by (simp add: json_object_add_def json_object_add_with_def Let_def split_beta)

lemma alist_update_fresh: "k \<notin> set (map fst xs) \<Longrightarrow> AList.update k v xs = xs @ [(k, v)]"
  by (induction xs) auto

lemma alist_update_nth:
  "distinct ks \<Longrightarrow> length ks = length vs \<Longrightarrow> j < length ks \<Longrightarrow>
   AList.update (ks ! j) v (zip ks vs) = zip ks (vs[j := v])"
  by (induction ks vs arbitrary: j rule: list_induct2') (auto simp: nth_Cons' less_Suc_eq_0_disj)

lemma json_object_set_value_ok:
  assumes ok: "table_ok obj" and name: "is_cstring name"
    and mem: "name \<in> set (names obj) \<or> obj_count obj < item_capacity obj \<or> grow_granted mem obj"
  shows "\<exists>obj'. json_object_set_value mem obj name val False = Inr obj' \<and> table_ok obj' \<and>
     obj_items obj' = AList.update name val (obj_items obj)"
proof (cases "name \<in> set (names obj)")
  case True
  then obtain j where j: "j < obj_count obj" "names obj ! j = name" by (auto simp: set_names_iff)
  let ?obj = "JSON_Object (cells obj) (hashes obj) (names obj) ((obj_values obj)[j := val])
     (cell_ixs obj) (item_capacity obj) (cell_capacity obj)"
  have "json_object_set_value mem obj name val False = Inr ?obj"
    using get_cell_ix_found [OF ok j(1), of "length name" name] j table_ok_link(2) [OF ok j(1)]
    by (simp add: json_object_set_value_def Let_def)
  moreover have "table_ok ?obj"
    using ok by (simp add: table_ok_def sizes_ok_def keys_ok_def)
  moreover have "obj_items ?obj = AList.update name val (obj_items obj)"
    using alist_update_nth [OF table_okD(8) [OF ok], of "obj_values obj" j] j table_okD(6) [OF ok]
    by (simp add: obj_items_def)
  ultimately show ?thesis by blast
next
  case False
  have missing: "snd (json_object_get_cell_ix obj name (length name)
      (hash_string name (length name))) = False"
    using get_cell_ix_not_found [OF ok, of "length name" name] False by simp
  have upd: "AList.update name val (obj_items obj) = obj_items obj @ [(name, val)]"
    using alist_update_fresh map_fst_obj_items [OF ok] False by metis
  show ?thesis
  proof (cases "obj_count obj < item_capacity obj")
    case True
    then show ?thesis
      using json_object_put_first_free [OF ok name False True, of val] missing upd
      by (simp add: json_object_set_value_def Let_def split_beta)
  next
    case no_room: False
    with mem False have "grow_granted mem obj" by simp
    then obtain obj1 where 1: "json_object_grow_and_rehash mem obj = Inr obj1"
        "table_ok obj1" "obj_items obj1 = obj_items obj" "names obj1 = names obj"
        "obj_count obj < item_capacity obj1"
      using json_object_grow_and_rehash_ok [OF ok] by blast
    then show ?thesis
      using json_object_put_first_free [OF 1(2) name, of val] 1 missing upd no_room False
      by (simp add: json_object_set_value_def Let_def split_beta)
  qed
qed

lemma json_object_set_value_parented: "json_object_set_value mem obj name val True = Inl JSONFailure"
  by (simp add: json_object_set_value_def)

lemma json_object_clear_ok:
  assumes "table_ok obj"
  shows "table_ok (json_object_clear obj)" and "obj_items (json_object_clear obj) = []"
  using assms
  by (auto simp: json_object_clear_def table_ok_def sizes_ok_def keys_ok_def links_ok_def
      probe_ok_def obj_items_def)

section \<open>Removing an entry\<close>

lemma length_swap_remove [simp]: "length (swap_remove xs r) = length xs - 1"
  by (simp add: swap_remove_def)

lemma nth_swap_remove:
  "r < length xs \<Longrightarrow> i < length xs - 1 \<Longrightarrow>
   swap_remove xs r ! i = (if i = r then xs ! (length xs - 1) else xs ! i)"
  by (cases "xs = []") (auto simp: swap_remove_def nth_butlast nth_list_update last_conv_nth)

lemma swap_remove_zip:
  assumes "length xs = length ys" and "r < length xs"
  shows "swap_remove (zip xs ys) r = zip (swap_remove xs r) (swap_remove ys r)"
  using assms by (intro nth_equalityI) (auto simp: nth_swap_remove)

lemma set_swap_remove:
  assumes "distinct xs" and r: "r < length xs"
  shows "set (swap_remove xs r) = set xs - {xs ! r}"
proof (intro set_eqI iffI)
  fix y assume "y \<in> set (swap_remove xs r)"
  then obtain i where "i < length xs - 1" "y = swap_remove xs r ! i"
    by (auto simp: in_set_conv_nth)
  then show "y \<in> set xs - {xs ! r}"
    using assms by (auto simp: nth_swap_remove nth_eq_iff_index_eq)
next
  fix y assume "y \<in> set xs - {xs ! r}"
  then obtain i where i: "i < length xs" "y = xs ! i" "i \<noteq> r" by (auto simp: in_set_conv_nth)
  define i' where "i' = (if i = length xs - 1 then r else i)"
  have "i' < length xs - 1" "swap_remove xs r ! i' = y"
    using i r by (auto simp: i'_def nth_swap_remove)
  then show "y \<in> set (swap_remove xs r)" by (metis length_swap_remove nth_mem)
qed

lemma distinct_swap_remove: "distinct xs \<Longrightarrow> r < length xs \<Longrightarrow> distinct (swap_remove xs r)"
  by (auto simp: distinct_conv_nth nth_swap_remove)

lemma map_of_swap_remove:
  assumes "distinct (map fst xs)" and r: "r < length xs"
  shows "map_of (swap_remove xs r) = (map_of xs)(fst (xs ! r) := None)"
proof
  fix k
  have dist: "distinct xs" using assms(1) by (simp add: distinct_map)
  have d': "distinct (map fst (swap_remove xs r))"
  proof -
    have "map fst (swap_remove xs r) = swap_remove (map fst xs) r"
      using r by (intro nth_equalityI) (auto simp: nth_swap_remove)
    then show ?thesis using distinct_swap_remove [OF assms(1)] r by simp
  qed
  show "map_of (swap_remove xs r) k = ((map_of xs)(fst (xs ! r) := None)) k"
  proof (cases "map_of (swap_remove xs r) k")
    case None
    then have "k \<notin> fst ` (set xs - {xs ! r})"
      by (simp add: map_of_eq_None_iff set_swap_remove [OF dist r])
    then have "k = fst (xs ! r) \<or> map_of xs k = None"
      by (auto simp: map_of_eq_None_iff)
    with None show ?thesis by auto
  next
    case (Some v)
    then have kv: "(k, v) \<in> set xs" "(k, v) \<noteq> xs ! r"
      using map_of_SomeD [OF Some] set_swap_remove [OF dist r] by auto
    then have "k \<noteq> fst (xs ! r)"
      using assms(1) r by (metis eq_key_imp_eq_value nth_mem prod.collapse)
    then show ?thesis using Some kv assms(1) by (simp add: map_of_is_SomeI)
  qed
qed

text \<open>
  The loop invariant: \<open>i\<close> is the hole, \<open>j\<close> the last cell examined, \<open>c\<close> the cell where
  the removal started.  Only an entry past \<open>j\<close> may still have the hole on its way.
\<close>

definition hole_inv :: "nat \<Rightarrow> nat \<Rightarrow> 64 word list \<Rightarrow> nat option list \<Rightarrow> nat list \<Rightarrow> nat \<Rightarrow> nat \<Rightarrow> bool" where
  "hole_inv cap c hs cs ixs i j \<longleftrightarrow>
     length cs = cap \<and> c < cap \<and> i < cap \<and> j < cap \<and>
     probe_dist cap c i \<le> probe_dist cap c j \<and>
     links_ok cap (cs[i := None]) ixs \<and>
     (\<forall>m < length ixs. \<forall>q < cap.
        probe_dist cap (home_cell cap (hs ! m)) q < probe_dist cap (home_cell cap (hs ! m)) (ixs ! m) \<longrightarrow>
        cs[i := None] ! q \<noteq> None \<or> (q = i \<and> probe_dist cap c j < probe_dist cap c (ixs ! m))) \<and>
     (\<exists>e < cap. cs[i := None] ! e = None \<and> probe_dist cap c j < probe_dist cap c e)"

lemma probe_between:
  assumes "c < cap" "h < cap" "x < cap" "y < cap" "z < cap"
    and "probe_dist cap h x < probe_dist cap h y"
    and "probe_dist cap c x < probe_dist cap c z"
    and "probe_dist cap c z < probe_dist cap c y \<or> probe_dist cap c y < probe_dist cap c x"
  shows "probe_dist cap h z < probe_dist cap h y"
  using assms by (auto simp: probe_dist_def split: if_splits)

lemma hole_condition:
  "k < cap \<Longrightarrow> i < cap \<Longrightarrow> j < cap \<Longrightarrow> i \<noteq> j \<Longrightarrow>
   ((j > i \<and> (k \<le> i \<or> k > j)) \<or> (j < i \<and> (k \<le> i \<and> k > j)))
     \<longleftrightarrow> probe_dist cap k i < probe_dist cap k j"
  by (auto simp: probe_dist_def)

lemma close_hole_ok:
  assumes cap: "\<exists>k \<ge> 4. cap = 2 ^ k" and "hole_inv cap c hs cs ixs i j"
    and "x = cap - 1 - probe_dist cap c j"
  shows "\<exists>cs' ixs'. json_object_close_hole cap hs x cs ixs i j = (cs', ixs') \<and>
     length cs' = cap \<and> length ixs' = length ixs \<and>
     links_ok cap cs' ixs' \<and> probe_ok cap cs' ixs' hs"
  using assms(2,3)
proof (induction x arbitrary: cs ixs i j)
  case 0
  then show ?case using probe_dist_less [of c cap] unfolding hole_inv_def by fastforce
next
  case (Suc x)
  let ?T = "cs[i := None]" and ?off = "probe_dist cap c"
  let ?h = "\<lambda>m. home_cell cap (hs ! m)"
  define j' where "j' = (j + 1) mod cap"
  have I: "length cs = cap" "c < cap" "i < cap" "j < cap" "?off i \<le> ?off j" "links_ok cap ?T ixs"
    using Suc.prems(1) by (simp_all add: hole_inv_def)
  have B: "?T ! q \<noteq> None \<or> (q = i \<and> ?off j < ?off (ixs ! m))"
    if "m < length ixs" "q < cap" "probe_dist cap (?h m) q < probe_dist cap (?h m) (ixs ! m)" for m q
    using Suc.prems(1) that by (simp add: hole_inv_def)
  obtain e where e: "e < cap" "?T ! e = None" "?off j < ?off e"
    using Suc.prems(1) by (auto simp: hole_inv_def)
  have h: "?h m < cap" for m using home_cell_less [OF cap] .
  have step: "(j + 1) AND (cap - 1) = j'" using cap by (simp add: and_capacity j'_def)
  have j': "j' < cap" "?off j' = Suc (?off j)"
  proof -
    have lt: "Suc (?off j) < cap" using e probe_dist_less [OF I(2) e(1)] by simp
    show "j' < cap" using I(4) by (simp add: j'_def)
    show "?off j' = Suc (?off j)"
      using lt I(2,4) by (auto simp: j'_def mod_once probe_dist_def split: if_splits)
  qed
  have ij: "i \<noteq> j'" using I(5) j'(2) by auto
  have L: "ixs ! m < cap" "?T ! (ixs ! m) = Some m" if "m < length ixs" for m
    using I(6) that by (auto simp: links_ok_def)
  show ?case
  proof (cases "cs ! j'")
    case None
    have "probe_ok cap ?T ixs hs"
      unfolding probe_ok_def
    proof (intro allI impI)
      fix m q assume m: "m < length ixs" and q: "q < cap"
        and d: "probe_dist cap (?h m) q < probe_dist cap (?h m) (ixs ! m)"
      show "?T ! q \<noteq> None"
      proof (rule ccontr)
        assume "\<not> ?T ! q \<noteq> None"
        with B [OF m q d] have qi: "q = i" "?off j < ?off (ixs ! m)" by auto
        have "ixs ! m \<noteq> j'" using L [OF m] None ij by auto
        then have "?off j' < ?off (ixs ! m)"
          using qi(2) j'(2) probe_dist_inj [OF I(2) L(1) [OF m] j'(1)] by force
        then have "probe_dist cap (?h m) j' < probe_dist cap (?h m) (ixs ! m)"
          using probe_between [OF I(2) h I(3) L(1) [OF m] j'(1)] d qi(1) I(5) j'(2) by auto
        from B [OF m j'(1) this] show False using None ij by auto
      qed
    qed
    then show ?thesis using None step I(1,6) by (simp add: Let_def)
  next
    case (Some item)
    have item: "item < length ixs" "ixs ! item = j'"
      using I(1,6) j'(1) Some ij unfolding links_ok_def by (auto simp: nth_list_update)
    have ej: "?off j' < ?off e"
      using e j' probe_dist_inj [OF I(2) e(1) j'(1)] Some ij by force
    have x: "x = cap - 1 - ?off j'" using Suc.prems(2) j'(2) by simp
    show ?thesis
    proof (cases "probe_dist cap (?h item) i < probe_dist cap (?h item) j'")
      case False
      have "hole_inv cap c hs cs ixs i j'"
        unfolding hole_inv_def
      proof (intro conjI allI impI)
        fix m q assume m: "m < length ixs" and q: "q < cap"
          and d: "probe_dist cap (?h m) q < probe_dist cap (?h m) (ixs ! m)"
        show "?T ! q \<noteq> None \<or> (q = i \<and> ?off j' < ?off (ixs ! m))"
        proof (rule disjCI)
          assume "\<not> (q = i \<and> ?off j' < ?off (ixs ! m))"
          moreover have "\<not> (q = i \<and> ?off j < ?off (ixs ! m) \<and> \<not> ?off j' < ?off (ixs ! m))"
          proof
            assume a: "q = i \<and> ?off j < ?off (ixs ! m) \<and> \<not> ?off j' < ?off (ixs ! m)"
            then have "ixs ! m = j'"
              using j'(2) probe_dist_inj [OF I(2) L(1) [OF m] j'(1)] by simp
            then have "m = item" using L(2) [OF m] Some ij by simp
            then show False using False d a item by simp
          qed
          ultimately show "?T ! q \<noteq> None" using B [OF m q d] by blast
        qed
      qed (use I j' e ej in auto)
      from Suc.IH [OF this x]
      show ?thesis
        using False Some step hole_condition [OF h I(3) j'(1) ij] by (simp add: Let_def)
    next
      case True
      let ?cs = "cs[i := Some item]" and ?ixs = "ixs[item := i]"
      let ?T2 = "?cs[j' := None]"
      have T2: "?T2 ! q = (if q = j' then None else if q = i then Some item else ?T ! q)"
        if "q < cap" for q using that I(1) j'(1) by (auto simp: nth_list_update)
      have "links_ok cap ?T2 ?ixs"
        unfolding links_ok_def
      proof (intro conjI allI impI)
        fix m assume "m < length ?ixs"
        then have m: "m < length ixs" by simp
        show "?ixs ! m < cap" using L [OF m] I(3) by (cases "m = item") (auto simp: item)
        have "ixs ! m \<noteq> i" "m \<noteq> item \<Longrightarrow> ixs ! m \<noteq> j'"
          using L(2) [OF m] I(1,3) Some ij by auto
        then show "?T2 ! (?ixs ! m) = Some m"
          using L [OF m] I(1,3) ij item m by (cases "m = item") (auto simp: T2)
      next
        fix q m assume q: "q < cap" "?T2 ! q = Some m"
        then show "m < length ?ixs" "?ixs ! m = q"
          using I(6) item ij unfolding T2 [OF q(1)] links_ok_def
          by (auto split: if_splits simp: nth_list_update)
      qed
      moreover have "?T2 ! q \<noteq> None \<or> (q = j' \<and> ?off j' < ?off (?ixs ! m))"
        if m: "m < length ?ixs" and q: "q < cap"
          and d: "probe_dist cap (?h m) q < probe_dist cap (?h m) (?ixs ! m)" for m q
      proof (cases "m = item")
        case mi: True
        with d item have di: "probe_dist cap (?h item) q < probe_dist cap (?h item) i" by simp
        with True item have "?T ! q \<noteq> None" "q \<noteq> i" "q \<noteq> j'"
          using B [of item q] q by auto
        then show ?thesis using T2 [OF q] by simp
      next
        case mi: False
        have m': "m < length ixs" using m by simp
        have d': "probe_dist cap (?h m) q < probe_dist cap (?h m) (ixs ! m)" using d mi by simp
        have pj: "ixs ! m \<noteq> j'" using L(2) [OF m'] Some ij mi by auto
        show ?thesis
        proof (cases "q = j' \<and> \<not> ?off j' < ?off (ixs ! m)")
          case True
          then have "?off (ixs ! m) < ?off j'"
            using pj probe_dist_inj [OF I(2) L(1) [OF m'] j'(1)] by force
          then have "probe_dist cap (?h m) e < probe_dist cap (?h m) (ixs ! m)"
            using probe_between [OF I(2) h j'(1) L(1) [OF m'] e(1)] d' True ej by auto
          from B [OF m' e(1) this] show ?thesis using e(2,3) I(5) by auto
        next
          case False
          then show ?thesis using B [OF m' q d'] T2 [OF q] mi by auto
        qed
      qed
      moreover have "?T2 ! e = None" using T2 [OF e(1)] e(2,3) I(5) by auto
      ultimately have "hole_inv cap c hs ?cs ?ixs j' j'"
        unfolding hole_inv_def using I(1,2) j'(1) e(1) ej by auto
      from Suc.IH [OF this x]
      show ?thesis
        using True Some step hole_condition [OF h I(3) j'(1) ij] by (simp add: Let_def)
    qed
  qed
qed


lemma json_object_remove_internal_missing:
  assumes "table_ok obj" and "name \<notin> set (names obj)"
  shows "json_object_remove_internal obj name = Inl JSONFailure"
  using get_cell_ix_not_found [OF assms(1), of "length name" name] assms(2)
  by (simp add: json_object_remove_internal_def Let_def split_beta)

text \<open>The table after the last item moved into the removed one's slot.\<close>

lemma swap_links:
  assumes ok: "table_ok obj" and r: "r < obj_count obj"
  defines "n \<equiv> obj_count obj - 1" and "c \<equiv> cell_ixs obj ! r"
  defines "cs \<equiv> (if r < n then (cells obj)[cell_ixs obj ! n := Some r] else cells obj)"
  defines "ixs \<equiv> swap_remove (cell_ixs obj) r" and "hs \<equiv> swap_remove (hashes obj) r"
  shows "hole_inv (cell_capacity obj) c hs cs ixs c c"
proof -
  let ?cap = "cell_capacity obj"
  note D = table_okD [OF ok]
  have cap: "\<exists>k \<ge> 4. ?cap = 2 ^ k" using table_ok_capacity [OF ok r] .
  have n: "n < obj_count obj" "length ixs = n" using r D(7) by (auto simp: n_def ixs_def)
  have c: "c < ?cap" "cells obj ! c = Some r" using table_ok_link [OF ok r] by (auto simp: c_def)
  have inj: "cell_ixs obj ! a = cell_ixs obj ! b \<longleftrightarrow> a = b"
    if "a < obj_count obj" "b < obj_count obj" for a b
    using that table_ok_link(2) [OF ok] by (metis option.inject)
  have ixs: "ixs ! m = cell_ixs obj ! (if m = r then n else m)"
    and hs: "hs ! m = hashes obj ! (if m = r then n else m)" if "m < n" for m
    using that r D(5,7) by (auto simp: ixs_def hs_def n_def nth_swap_remove)
  have T: "cs[c := None] ! q = (if q = c then None
      else if cells obj ! q = Some n then Some r else cells obj ! q)" if q: "q < ?cap" for q
  proof -
    have "cells obj ! q = Some n \<longleftrightarrow> q = cell_ixs obj ! n"
      using table_ok_link(2) [OF ok n(1)] table_ok_cell(2) [OF ok q] by blast
    moreover have "r < n \<or> r = n" using r by (auto simp: n_def)
    ultimately show ?thesis
      using q D(1) by (auto simp: cs_def nth_list_update c_def)
  qed
  have idx: "(if m = r then n else m) < obj_count obj" "(if m = r then n else m) \<noteq> r" if "m < n" for m
    using that n by auto
  have "links_ok ?cap (cs[c := None]) ixs"
    unfolding links_ok_def
  proof (intro conjI allI impI)
    fix m assume "m < length ixs"
    then have m: "m < n" using n by simp
    note im = idx [OF m]
    show lt: "ixs ! m < ?cap" using table_ok_link(1) [OF ok im(1)] ixs [OF m] by simp
    have "ixs ! m \<noteq> c" using inj [OF im(1) r] im(2) ixs [OF m] by (simp add: c_def)
    then show "cs[c := None] ! (ixs ! m) = Some m"
      using T [OF lt] table_ok_link(2) [OF ok im(1)] ixs [OF m] m by auto
  next
    fix q m assume q: "q < ?cap" "cs[c := None] ! q = Some m"
    then have qc: "q \<noteq> c" "cells obj ! q = Some (if m = r then n else m)"
      using T [OF q(1)] table_ok_cell(2) [OF ok q(1)] by (auto simp: c_def split: if_splits)
    have lt: "(if m = r then n else m) < obj_count obj" "cell_ixs obj ! (if m = r then n else m) = q"
      using table_ok_cell [OF ok q(1) qc(2)] by auto
    have "m = r \<Longrightarrow> r \<noteq> n" using qc(1) lt(2) by (auto simp: c_def)
    moreover have "m \<noteq> r \<Longrightarrow> m \<noteq> n" using q(2) T [OF q(1)] qc by auto
    moreover have "k < n" if "k < obj_count obj" "k \<noteq> n" for k using that by (auto simp: n_def)
    ultimately show "m < length ixs" using lt(1) r n(2) by (cases "m = r") auto
    then show "ixs ! m = q" using ixs n lt by simp
  qed
  moreover have "cs[c := None] ! q \<noteq> None \<or> (q = c \<and> probe_dist ?cap c c < probe_dist ?cap c (ixs ! m))"
    if "m < length ixs" "q < ?cap"
      "probe_dist ?cap (home_cell ?cap (hs ! m)) q < probe_dist ?cap (home_cell ?cap (hs ! m)) (ixs ! m)"
    for m q
  proof -
    have m: "m < n" using that(1) n by simp
    note im = idx [OF m]
    have "cells obj ! q \<noteq> None"
      using D(7,12) im(1) that(2,3) ixs [OF m] hs [OF m] by (auto simp: probe_ok_def)
    moreover have "ixs ! m \<noteq> c" using inj [OF im(1) r] im(2) ixs [OF m] by (simp add: c_def)
    then have "0 < probe_dist ?cap c (ixs ! m)"
      using table_ok_link(1) [OF ok im(1)] ixs [OF m] c by (auto simp: probe_dist_def)
    ultimately show ?thesis using T [OF that(2)] by auto
  qed
  moreover have "\<exists>e < ?cap. cs[c := None] ! e = None \<and> probe_dist ?cap c c < probe_dist ?cap c e"
  proof -
    obtain e where e: "e < ?cap" "cells obj ! e = None"
      using links_ok_free_cell [OF D(11)] table_ok_room(2) [OF ok cap] D(7) by auto
    then have "e \<noteq> c" using c by auto
    then have "probe_dist ?cap c c < probe_dist ?cap c e"
      using c(1) e(1) by (auto simp: probe_dist_def)
    with e T [OF e(1)] show ?thesis by auto
  qed
  moreover have "length cs = ?cap" using D(1) by (simp add: cs_def)
  ultimately show ?thesis unfolding hole_inv_def using c(1) by auto
qed

lemma json_object_remove_internal_ok:
  assumes ok: "table_ok obj" and r: "r < obj_count obj" "names obj ! r = name"
  shows "\<exists>obj'. json_object_remove_internal obj name = Inr obj' \<and> table_ok obj' \<and>
     obj_items obj' = swap_remove (obj_items obj) r"
proof -
  let ?cap = "cell_capacity obj" and ?n = "obj_count obj - 1" and ?c = "cell_ixs obj ! r"
  let ?cs = "if r < ?n then (cells obj)[cell_ixs obj ! ?n := Some r] else cells obj"
  let ?ixs = "swap_remove (cell_ixs obj) r" and ?hs = "swap_remove (hashes obj) r"
  note D = table_okD [OF ok]
  have cap: "\<exists>k \<ge> 4. ?cap = 2 ^ k" using table_ok_capacity [OF ok r(1)] .
  obtain cs' ixs' where ch: "json_object_close_hole ?cap ?hs (?cap - 1) ?cs ?ixs ?c ?c = (cs', ixs')"
      "length cs' = ?cap" "length ixs' = length ?ixs" "links_ok ?cap cs' ixs'"
      "probe_ok ?cap cs' ixs' ?hs"
    using close_hole_ok [OF cap swap_links [OF ok r(1)], of "?cap - 1"] by auto
  let ?obj = "JSON_Object cs' ?hs (swap_remove (names obj) r) (swap_remove (obj_values obj) r) ixs'
     (item_capacity obj) ?cap"
  have "json_object_remove_internal obj name = Inr ?obj"
    using get_cell_ix_found [OF ok r(1), of "length name" name] r(2) table_ok_link(2) [OF ok r(1)] ch(1)
    by (cases "r < ?n") (simp_all add: json_object_remove_internal_def Let_def)
  moreover have "table_ok ?obj"
    using D(2-8) D(9,10) ch(2-5) r(1)
    by (auto simp: table_ok_def sizes_ok_def keys_ok_def nth_swap_remove distinct_swap_remove)
  moreover have "obj_items ?obj = swap_remove (obj_items obj) r"
    using D(6) r(1) by (simp add: obj_items_def swap_remove_zip)
  ultimately show ?thesis by blast
qed

lemma obj_map_swap_remove:
  assumes "table_ok obj" "table_ok obj'" "r < obj_count obj"
    and "obj_items obj' = swap_remove (obj_items obj) r"
  shows "obj_map obj' = (obj_map obj)(names obj ! r := None)"
  using assms map_of_swap_remove [of "obj_items obj" r] table_okD(6,8) [OF assms(1)]
  by (simp add: obj_map_def) (simp add: obj_items_def)

section \<open>The table as a key store\<close>

lemma obj_map_update:
  "obj_items obj' = AList.update k v (obj_items obj) \<Longrightarrow> obj_map obj' = (obj_map obj)(k \<mapsto> v)"
  by (simp add: obj_map_def update_conv')

interpretation object_store: key_store table_ok obj_map
  "\<lambda>obj k v. json_object_set_value (\<lambda>_. True) obj k v False" json_object_remove_internal json_object_clear
proof unfold_locales
  fix obj :: "'v json_object" and k v
  assume ok: "table_ok obj"
  show "\<exists>obj'. json_object_set_value (\<lambda>_. True) obj k v False = Inr obj' \<and> table_ok obj' \<and>
      obj_map obj' = (obj_map obj)(k \<mapsto> v)" if key: "is_cstring k"
  proof -
    have "grow_granted (\<lambda>_. True) obj" by (simp add: grow_granted_def Let_def)
    then obtain obj' where o: "json_object_set_value (\<lambda>_. True) obj k v False = Inr obj'" "table_ok obj'"
      "obj_items obj' = AList.update k v (obj_items obj)"
      using json_object_set_value_ok [OF ok key, of "\<lambda>_. True" v] by auto
    show ?thesis by (intro exI [of _ obj'] conjI o(1,2) obj_map_update [OF o(3)])
  qed
  show "\<exists>obj'. json_object_remove_internal obj k = Inr obj' \<and> table_ok obj' \<and>
      obj_map obj' = (obj_map obj)(k := None)" if present: "obj_map obj k \<noteq> None"
  proof -
    obtain r where r: "r < obj_count obj" "names obj ! r = k"
      using present obj_map_None_iff [OF ok] by (auto simp: set_names_iff)
    then obtain obj' where o: "json_object_remove_internal obj k = Inr obj'" "table_ok obj'"
      "obj_items obj' = swap_remove (obj_items obj) r"
      using json_object_remove_internal_ok [OF ok r] by blast
    with obj_map_swap_remove [OF ok o(2) r(1) o(3)] r(2) show ?thesis by blast
  qed
  show "\<exists>e. json_object_remove_internal obj k = Inl e" if "obj_map obj k = None"
    using that obj_map_None_iff [OF ok] json_object_remove_internal_missing [OF ok] by blast
  show "table_ok (json_object_clear obj) \<and> obj_map (json_object_clear obj) = (\<lambda>_. None)"
    using json_object_clear_ok [OF ok] by (auto simp: obj_map_def)
qed

end
