(* ===== verification/Parson_Text.thy ===== *)
theory Parson_Text
  imports Prelude
begin

text \<open>
  The text layer of src/src/parson.c: UTF-8 validation, \<open>\u\<close> escapes and surrogate
  pairs, quoted strings in both directions, the decimal check and the comment
  eraser.  A \<open>const char *\<close> that walks over a text is the list of the characters
  from the pointer to the terminating NUL; reading at or past its end gives NUL.
  Bytes are read as \<open>unsigned char\<close>, code points as natural numbers: all shifts
  stay below 2 to the 21, so \<open>unsigned int\<close> never wraps.  The lemmas show that the
  validator accepts exactly the UTF-8 encodings of Unicode scalar values, that an
  escape is decoded to such an encoding within the space the caller reserved, and
  that reading a written string gives it back.
\<close>

section \<open>UTF-8\<close>

abbreviation byte :: "char \<Rightarrow> nat" where
  "byte c \<equiv> of_char c"

definition is_cont :: "nat \<Rightarrow> bool" where
  "is_cont b \<longleftrightarrow> b AND 0xC0 = 0x80"

definition num_bytes_in_utf8_sequence :: "nat \<Rightarrow> nat" where
  "num_bytes_in_utf8_sequence c =
     (if c = 0xC0 \<or> c = 0xC1 \<or> c > 0xF4 \<or> is_cont c then 0
      else if c AND 0x80 = 0 then 1
      else if c AND 0xE0 = 0xC0 then 2
      else if c AND 0xF0 = 0xE0 then 3
      else if c AND 0xF8 = 0xF0 then 4
      else 0)"

text \<open>\<open>Some len\<close> is \<open>JSONSuccess\<close> with the length written through the pointer.\<close>

definition verify_utf8_sequence :: "string \<Rightarrow> nat option" where
  "verify_utf8_sequence s =
     (let b = (\<lambda>i. byte (char_at s i));
          len = num_bytes_in_utf8_sequence (b 0);
          cp = (if len = 1 then Some (b 0)
                else if len = 2 \<and> is_cont (b 1) then
                  Some (push_bit 6 (b 0 AND 0x1F) OR (b 1 AND 0x3F))
                else if len = 3 \<and> is_cont (b 1) \<and> is_cont (b 2) then
                  Some (push_bit 6 (push_bit 6 (b 0 AND 0xF) OR (b 1 AND 0x3F)) OR (b 2 AND 0x3F))
                else if len = 4 \<and> is_cont (b 1) \<and> is_cont (b 2) \<and> is_cont (b 3) then
                  Some (push_bit 6 (push_bit 6 (push_bit 6 (b 0 AND 0x7) OR (b 1 AND 0x3F))
                    OR (b 2 AND 0x3F)) OR (b 3 AND 0x3F))
                else None)
      in case cp of
           None \<Rightarrow> None
         | Some cp \<Rightarrow>
             if (cp < 0x80 \<and> len > 1) \<or> (cp < 0x800 \<and> len > 2) \<or> (cp < 0x10000 \<and> len > 3)
             then None
             else if cp > 0x10FFFF then None
             else if cp \<ge> 0xD800 \<and> cp \<le> 0xDFFF then None
             else Some len)"

lemma verify_utf8_sequence_pos: "verify_utf8_sequence s = Some len \<Longrightarrow> 0 < len"
  by (auto simp: verify_utf8_sequence_def Let_def split: if_splits option.splits)

text \<open>\<open>n\<close> is the distance to \<open>string_end\<close>, 0 when the pointer is at or past it.\<close>

function is_valid_utf8 :: "string \<Rightarrow> nat \<Rightarrow> bool" where
  "is_valid_utf8 s n =
     (if n = 0 then True
      else case verify_utf8_sequence s of
             None \<Rightarrow> False
           | Some len \<Rightarrow> is_valid_utf8 (drop len s) (n - len))"
  by pat_completeness auto
termination
  by (relation "measure snd") (auto dest: verify_utf8_sequence_pos)

declare is_valid_utf8.simps [simp del]

section \<open>Escapes\<close>

definition hex_char_to_int :: "char \<Rightarrow> int" where
  "hex_char_to_int c =
     (let n = byte c in
      if 48 \<le> n \<and> n \<le> 57 then int n - 48
      else if 97 \<le> n \<and> n \<le> 102 then int n - 97 + 10
      else if 65 \<le> n \<and> n \<le> 70 then int n - 65 + 10
      else -1)"

definition parse_utf16_hex :: "string \<Rightarrow> nat option" where
  "parse_utf16_hex s =
     (if char_at s 0 = NUL \<or> char_at s 1 = NUL \<or> char_at s 2 = NUL \<or> char_at s 3 = NUL then None
      else
        let x1 = hex_char_to_int (char_at s 0);
            x2 = hex_char_to_int (char_at s 1);
            x3 = hex_char_to_int (char_at s 2);
            x4 = hex_char_to_int (char_at s 3)
        in if x1 = -1 \<or> x2 = -1 \<or> x3 = -1 \<or> x4 = -1 then None
           else Some (push_bit 12 (nat x1) OR push_bit 8 (nat x2) OR push_bit 4 (nat x3) OR nat x4))"

text \<open>
  \<open>parse_utf16 s\<close> for \<open>s\<close> at the \<open>u\<close>: the bytes written, and how far the read pointer
  moves; it stops on the last hex digit, which the caller steps over.
\<close>

definition parse_utf16 :: "string \<Rightarrow> (string \<times> nat) option" where
  "parse_utf16 s =
     (case parse_utf16_hex (drop 1 s) of
        None \<Rightarrow> None
      | Some cp \<Rightarrow>
          if cp < 0x80 then Some ([char_of cp], 4)
          else if cp < 0x800 then
            Some ([char_of ((drop_bit 6 cp AND 0x1F) OR 0xC0),
                   char_of ((cp AND 0x3F) OR 0x80)], 4)
          else if cp < 0xD800 \<or> cp > 0xDFFF then
            Some ([char_of ((drop_bit 12 cp AND 0x0F) OR 0xE0),
                   char_of ((drop_bit 6 cp AND 0x3F) OR 0x80),
                   char_of ((cp AND 0x3F) OR 0x80)], 4)
          else if cp \<ge> 0xD800 \<and> cp \<le> 0xDBFF then
            (if char_at s 5 \<noteq> CHR 0x5C \<or> char_at s 6 \<noteq> CHR ''u'' then None
             else case parse_utf16_hex (drop 7 s) of
                    None \<Rightarrow> None
                  | Some trail \<Rightarrow>
                      if trail < 0xDC00 \<or> trail > 0xDFFF then None
                      else
                        let cp' = (push_bit 10 ((cp - 0xD800) AND 0x3FF)
                                     OR ((trail - 0xDC00) AND 0x3FF)) + 0x010000
                        in Some ([char_of ((drop_bit 18 cp' AND 0x07) OR 0xF0),
                                  char_of ((drop_bit 12 cp' AND 0x3F) OR 0x80),
                                  char_of ((drop_bit 6 cp' AND 0x3F) OR 0x80),
                                  char_of ((cp' AND 0x3F) OR 0x80)], 10))
          else None)"

definition simple_escape :: "char \<Rightarrow> char option" where
  "simple_escape c =
     (if c = CHR 0x22 then Some (CHR 0x22)
      else if c = CHR 0x5C then Some (CHR 0x5C)
      else if c = CHR ''/'' then Some (CHR ''/'')
      else if c = CHR ''b'' then Some (CHR 0x08)
      else if c = CHR ''f'' then Some (CHR 0x0C)
      else if c = CHR ''n'' then Some (CHR 0x0A)
      else if c = CHR ''r'' then Some (CHR 0x0D)
      else if c = CHR ''t'' then Some (CHR 0x09)
      else None)"

lemma parse_utf16_advance: "parse_utf16 s = Some (bs, adv) \<Longrightarrow> adv = 4 \<or> adv = 10"
  by (auto simp: parse_utf16_def Let_def split: option.splits if_splits)

text \<open>
  \<open>process_string input input_len\<close>: \<open>n\<close> is what is left of \<open>input_len\<close>, 0 when the read
  pointer has passed it.
\<close>

function process_string :: "string \<Rightarrow> nat \<Rightarrow> string option" where
  "process_string s n =
     (case s of
        [] \<Rightarrow> Some []
      | c # r \<Rightarrow>
          if n = 0 then Some []
          else if c = CHR 0x5C then
            (case simple_escape (char_at r 0) of
               Some c' \<Rightarrow> map_option (\<lambda>out. c' # out) (process_string (drop 2 s) (n - 2))
             | None \<Rightarrow>
                 if char_at r 0 = CHR ''u'' then
                   (case parse_utf16 r of
                      None \<Rightarrow> None
                    | Some (bs, adv) \<Rightarrow>
                        map_option (\<lambda>out. bs @ out)
                          (process_string (drop (Suc (Suc adv)) s) (n - Suc (Suc adv))))
                 else None)
          else if byte c < 0x20 then None
          else map_option (\<lambda>out. c # out) (process_string r (n - 1)))"
  by pat_completeness auto
termination
  by (relation "measure snd") auto

declare process_string.simps [simp del]

fun skip_quotes_loop :: "string \<Rightarrow> string option" where
  "skip_quotes_loop [] = None"
| "skip_quotes_loop (c # r) =
     (if c = CHR 0x22 then Some r
      else if c = CHR 0x5C then (case r of [] \<Rightarrow> None | _ # r' \<Rightarrow> skip_quotes_loop r')
      else skip_quotes_loop r)"

definition skip_quotes :: "string \<Rightarrow> string option" where
  "skip_quotes s =
     (if char_at s 0 \<noteq> CHR 0x22 then None else skip_quotes_loop (drop 1 s))"

text \<open>The string between the quotes, and the text after the closing quote.\<close>

definition get_quoted_string :: "string \<Rightarrow> (string \<times> string) option" where
  "get_quoted_string s =
     (case skip_quotes s of
        None \<Rightarrow> None
      | Some rest \<Rightarrow>
          (case process_string (drop 1 s) (length s - length rest - 2) of
             None \<Rightarrow> None
           | Some out \<Rightarrow> Some (out, rest)))"

definition is_decimal :: "string \<Rightarrow> nat \<Rightarrow> bool" where
  "is_decimal s n =
     (if n > 1 \<and> char_at s 0 = CHR ''0'' \<and> char_at s 1 \<noteq> CHR ''.'' then False
      else if n > 2 \<and> strncmp_eq s ''-0'' 2 \<and> char_at s 2 \<noteq> CHR ''.'' then False
      else list_all (\<lambda>c. c \<noteq> CHR ''x'' \<and> c \<noteq> CHR ''X'' \<and> c \<noteq> NUL) (take n s))"

section \<open>Writing strings\<close>

definition hex_digit :: "nat \<Rightarrow> char" where
  "hex_digit n = (if n < 10 then char_of (48 + n) else char_of (87 + n))"

definition escape_char :: "bool \<Rightarrow> char \<Rightarrow> string" where
  "escape_char escape_slashes c =
     (if c = CHR 0x22 then [CHR 0x5C, CHR 0x22]
      else if c = CHR 0x5C then [CHR 0x5C, CHR 0x5C]
      else if c = CHR 0x08 then [CHR 0x5C, CHR ''b'']
      else if c = CHR 0x0C then [CHR 0x5C, CHR ''f'']
      else if c = CHR 0x0A then [CHR 0x5C, CHR ''n'']
      else if c = CHR 0x0D then [CHR 0x5C, CHR ''r'']
      else if c = CHR 0x09 then [CHR 0x5C, CHR ''t'']
      else if byte c < 0x20 then
        [CHR 0x5C, CHR ''u'', CHR ''0'', CHR ''0'', hex_digit (byte c div 16), hex_digit (byte c mod 16)]
      else if c = CHR ''/'' then
        (if escape_slashes then [CHR 0x5C, CHR ''/''] else [CHR ''/''])
      else [c])"

definition json_serialize_string :: "bool \<Rightarrow> string \<Rightarrow> string" where
  "json_serialize_string escape_slashes s =
     [CHR 0x22] @ concat (map (escape_char escape_slashes) s) @ [CHR 0x22]"

section \<open>Comments\<close>

fun strstr :: "string \<Rightarrow> string \<Rightarrow> nat option" where
  "strstr [] token = (if token = [] then Some 0 else None)"
| "strstr (c # s) token =
     (if take (length token) (c # s) = token then Some 0 else map_option Suc (strstr s token))"

text \<open>
  The text of the same length with the comments blanked; \<open>in_string\<close> and \<open>escaped\<close> are
  the loop's flags.
\<close>

function remove_comments_loop :: "string \<Rightarrow> string \<Rightarrow> bool \<Rightarrow> bool \<Rightarrow> string \<Rightarrow> string" where
  "remove_comments_loop start_token end_token in_string escaped s =
     (if start_token = [] \<or> end_token = [] then s
      else case s of
        [] \<Rightarrow> []
      | c # r \<Rightarrow>
          if c = CHR 0x5C \<and> \<not> escaped then
            c # remove_comments_loop start_token end_token in_string True r
          else if c = CHR 0x22 \<and> \<not> escaped then
            c # remove_comments_loop start_token end_token (\<not> in_string) False r
          else if \<not> in_string \<and> strncmp_eq s start_token (length start_token) then
            (let s' = drop (length start_token) s in
             case strstr s' end_token of
               None \<Rightarrow> replicate (length start_token) CHR '' '' @ s'
             | Some k \<Rightarrow>
                 replicate (length start_token + (k + length end_token)) CHR '' '' @
                 remove_comments_loop start_token end_token in_string False
                   (drop (k + length end_token) s'))
          else c # remove_comments_loop start_token end_token in_string False r)"
  by pat_completeness auto
termination
  by (relation "measure (\<lambda>(_, _, _, _, s). length s)") auto

declare remove_comments_loop.simps [simp del]

definition remove_comments :: "string \<Rightarrow> string \<Rightarrow> string \<Rightarrow> string" where
  "remove_comments s start_token end_token =
     remove_comments_loop start_token end_token False False s"

section \<open>Bit operations as arithmetic\<close>

lemma or_add_nat: "(b :: nat) < 2 ^ n \<Longrightarrow> push_bit n a OR b = a * 2 ^ n + b"
proof -
  assume b: "b < 2 ^ n"
  have "push_bit n a AND b = 0"
  proof (rule bit_eqI)
    fix k
    show "bit (push_bit n a AND b) k \<longleftrightarrow> bit (0 :: nat) k"
      using b by (metis bit_0_eq bit_and_iff bit_push_bit_iff bit_take_bit_iff bot_apply bot_bool_def
          not_le take_bit_nat_eq_self)
  qed
  then show ?thesis using disjunctive_add_eq_or [of "push_bit n a" b] by (simp add: push_bit_eq_mult)
qed

lemma mult_or_nat: "(b :: nat) < 2 ^ n \<Longrightarrow> a * 2 ^ n OR b = a * 2 ^ n + b"
  using or_add_nat [of b n a] by (simp add: push_bit_eq_mult)

lemma and_low_bits:
  "(x :: nat) AND 0x07 = x mod 8" "x AND 0x0F = x mod 16" "x AND 0x1F = x mod 32"
  "x AND 0x3F = x mod 64" "x AND 0x3FF = x mod 1024"
  using and_mask_nat [of x 3] and_mask_nat [of x 4] and_mask_nat [of x 5] and_mask_nat [of x 6]
    and_mask_nat [of x 10] by simp_all

lemma or_high_bits:
  "(x :: nat) < 64 \<Longrightarrow> x OR 0x80 = 0x80 + x" "x < 32 \<Longrightarrow> x OR 0xC0 = 0xC0 + x"
  "x < 16 \<Longrightarrow> x OR 0xE0 = 0xE0 + x" "x < 8 \<Longrightarrow> x OR 0xF0 = 0xF0 + x"
  using mult_or_nat [of x 6 2] mult_or_nat [of x 5 6] mult_or_nat [of x 4 14] mult_or_nat [of x 3 30]
  by (simp_all add: or.commute)

lemma and_push_bit: "(x :: nat) AND push_bit n m = push_bit n (drop_bit n x AND m)"
  by (rule bit_eqI) (auto simp: bit_simps)

lemma and_high_bits:
  "x < 256 \<Longrightarrow> (x :: nat) AND 0xC0 = x div 64 * 64" "x < 256 \<Longrightarrow> x AND 0x80 = x div 128 * 128"
  "x < 256 \<Longrightarrow> x AND 0xE0 = x div 32 * 32" "x < 256 \<Longrightarrow> x AND 0xF0 = x div 16 * 16"
  "x < 256 \<Longrightarrow> x AND 0xF8 = x div 8 * 8"
  using and_push_bit [of x 6 3] and_push_bit [of x 7 1] and_push_bit [of x 5 7]
    and_push_bit [of x 4 15] and_push_bit [of x 3 31]
    and_mask_nat [of "x div 64" 2] and_mask_nat [of "x div 128" 1] and_mask_nat [of "x div 32" 3]
    and_mask_nat [of "x div 16" 4] and_mask_nat [of "x div 8" 5]
  by (simp_all add: drop_bit_eq_div push_bit_eq_mult less_mult_imp_div_less)

lemma high_bits_iff: "0 < k \<Longrightarrow> (x :: nat) div k * k = m * k \<longleftrightarrow> m * k \<le> x \<and> x < m * k + k"
proof -
  assume k: "0 < k"
  then have "x div k * k = m * k \<longleftrightarrow> x div k = m" by simp
  also have "\<dots> \<longleftrightarrow> m * k \<le> x \<and> x < m * k + k"
  proof
    assume "x div k = m"
    then show "m * k \<le> x \<and> x < m * k + k"
      using div_times_less_eq_dividend [of x k] dividend_less_div_times [OF k, of x] by (auto simp: algebra_simps)
  next
    assume "m * k \<le> x \<and> x < m * k + k"
    then show "x div k = m" by (intro div_nat_eqI) (simp_all add: algebra_simps)
  qed
  finally show ?thesis .
qed

lemma mod_offset: "m * k \<le> x \<Longrightarrow> x < m * k + k \<Longrightarrow> (x :: nat) mod k = x - m * k"
proof -
  assume "m * k \<le> x" and "x < m * k + k"
  moreover from this obtain d where "x = m * k + d" using le_Suc_ex by blast
  ultimately show ?thesis by simp
qed

lemma num_bytes_eq:
  assumes "c < 256"
  shows "num_bytes_in_utf8_sequence c =
     (if c < 0x80 then 1 else if c < 0xC2 then 0 else if c < 0xE0 then 2 else if c < 0xF0 then 3
      else if c < 0xF5 then 4 else 0)"
    and "is_cont c \<longleftrightarrow> 0x80 \<le> c \<and> c < 0xC0"
proof -
  have cont: "is_cont c \<longleftrightarrow> 0x80 \<le> c \<and> c < 0xC0"
    unfolding is_cont_def and_high_bits(1) [OF assms] using high_bits_iff [of 64 c 2] by simp
  then show "is_cont c \<longleftrightarrow> 0x80 \<le> c \<and> c < 0xC0" .
  have "c AND 0x80 = 0 \<longleftrightarrow> c < 0x80" "c AND 0xE0 = 0xC0 \<longleftrightarrow> 0xC0 \<le> c \<and> c < 0xE0"
    "c AND 0xF0 = 0xE0 \<longleftrightarrow> 0xE0 \<le> c \<and> c < 0xF0" "c AND 0xF8 = 0xF0 \<longleftrightarrow> 0xF0 \<le> c \<and> c < 0xF8"
    unfolding and_high_bits [OF assms]
    using high_bits_iff [of 128 c 0] high_bits_iff [of 32 c 6] high_bits_iff [of 16 c 14]
      high_bits_iff [of 8 c 30] by simp_all
  with cont show "num_bytes_in_utf8_sequence c =
     (if c < 0x80 then 1 else if c < 0xC2 then 0 else if c < 0xE0 then 2 else if c < 0xF0 then 3
      else if c < 0xF5 then 4 else 0)"
    by (auto simp: num_bytes_in_utf8_sequence_def)
qed

section \<open>The encoding of the standard\<close>

definition scalar_value :: "nat \<Rightarrow> bool" where
  "scalar_value cp \<longleftrightarrow> cp \<le> 0x10FFFF \<and> \<not> (0xD800 \<le> cp \<and> cp \<le> 0xDFFF)"

definition utf8_encode :: "nat \<Rightarrow> nat list" where
  "utf8_encode cp =
     (if cp < 0x80 then [cp]
      else if cp < 0x800 then [0xC0 + cp div 64, 0x80 + cp mod 64]
      else if cp < 0x10000 then
        [0xE0 + cp div 4096, 0x80 + cp div 64 mod 64, 0x80 + cp mod 64]
      else [0xF0 + cp div 262144, 0x80 + cp div 4096 mod 64, 0x80 + cp div 64 mod 64, 0x80 + cp mod 64])"

abbreviation utf8_chars :: "nat \<Rightarrow> string" where
  "utf8_chars cp \<equiv> map char_of (utf8_encode cp)"

lemma byte_less [simp]: "byte c < 256"
  using of_char_mod_256 [of c] mod_less_divisor [of 256 "byte c"] by simp

section \<open>The validator\<close>

text \<open>What the validator computes, with the bit operations as arithmetic.\<close>

definition utf8_shape :: "nat \<Rightarrow> nat \<Rightarrow> nat \<Rightarrow> nat \<Rightarrow> nat option" where
  "utf8_shape b0 b1 b2 b3 =
     (let cont = (\<lambda>b. 0x80 \<le> b \<and> b < 0xC0) in
      if b0 < 0x80 then Some 1
      else if 0xC2 \<le> b0 \<and> b0 < 0xE0 \<and> cont b1 then Some 2
      else if 0xE0 \<le> b0 \<and> b0 < 0xF0 \<and> cont b1 \<and> cont b2 then
        (let cp = (b0 - 0xE0) * 4096 + (b1 - 0x80) * 64 + (b2 - 0x80) in
         if 0x800 \<le> cp \<and> scalar_value cp then Some 3 else None)
      else if 0xF0 \<le> b0 \<and> b0 < 0xF5 \<and> cont b1 \<and> cont b2 \<and> cont b3 then
        (let cp = (b0 - 0xF0) * 262144 + (b1 - 0x80) * 4096 + (b2 - 0x80) * 64 + (b3 - 0x80) in
         if 0x10000 \<le> cp \<and> scalar_value cp then Some 4 else None)
      else None)"

lemma low_or: "(b :: nat) < 64 \<Longrightarrow> push_bit 6 a OR b = a * 64 + b"
  using or_add_nat [of b 6 a] by simp

lemma cont_mod: "0x80 \<le> b \<Longrightarrow> b < 0xC0 \<Longrightarrow> (b :: nat) mod 64 = b - 0x80"
  using mod_offset [of 2 64 b] by simp

lemma lead_mod:
  "0xC0 \<le> b \<Longrightarrow> b < 0xE0 \<Longrightarrow> (b :: nat) mod 32 = b - 0xC0"
  "0xE0 \<le> b \<Longrightarrow> b < 0xF0 \<Longrightarrow> b mod 16 = b - 0xE0"
  "0xF0 \<le> b \<Longrightarrow> b < 0xF8 \<Longrightarrow> b mod 8 = b - 0xF0"
  using mod_offset [of 6 32 b] mod_offset [of 14 16 b] mod_offset [of 30 8 b] by simp_all

lemma verify_utf8_sequence_eq:
  "verify_utf8_sequence s =
     utf8_shape (byte (char_at s 0)) (byte (char_at s 1)) (byte (char_at s 2)) (byte (char_at s 3))"
proof -
  define b0 where "b0 = byte (char_at s 0)"
  define b1 where "b1 = byte (char_at s 1)"
  define b2 where "b2 = byte (char_at s 2)"
  define b3 where "b3 = byte (char_at s 3)"
  have lt: "b0 < 256" "b1 < 256" "b2 < 256" "b3 < 256"
    by (simp_all add: b0_def b1_def b2_def b3_def)
  note eqs = num_bytes_eq [OF lt(1)] num_bytes_eq(2) [OF lt(2)] num_bytes_eq(2) [OF lt(3)]
    num_bytes_eq(2) [OF lt(4)]
  have len: "num_bytes_in_utf8_sequence b0 =
     (if b0 < 0x80 then 1 else if b0 < 0xC2 then 0 else if b0 < 0xE0 then 2 else if b0 < 0xF0 then 3
      else if b0 < 0xF5 then 4 else 0)"
    by (rule num_bytes_eq(1) [OF lt(1)])
  note unf = verify_utf8_sequence_def utf8_shape_def Let_def b0_def [symmetric] b1_def [symmetric]
    b2_def [symmetric] b3_def [symmetric] len eqs(2-)
  consider (one) "b0 < 0x80" | (bad) "0x80 \<le> b0 \<and> b0 < 0xC2 \<or> 0xF5 \<le> b0"
    | (two) "0xC2 \<le> b0" "b0 < 0xE0"
    | (three) "0xE0 \<le> b0" "b0 < 0xF0" | (four) "0xF0 \<le> b0" "b0 < 0xF5" by linarith
  then show ?thesis
  proof cases
    case one
    then show ?thesis unfolding unf by simp
  next
    case bad
    then have n: "\<not> b0 < 0x80" "\<not> (0xC2 \<le> b0 \<and> b0 < 0xE0)" "\<not> (0xE0 \<le> b0 \<and> b0 < 0xF0)"
      "\<not> (0xF0 \<le> b0 \<and> b0 < 0xF5)"
      by linarith+
    have "num_bytes_in_utf8_sequence b0 = 0"
      using bad unfolding len by (elim disjE) simp_all
    then have "verify_utf8_sequence s = None"
      by (simp add: verify_utf8_sequence_def b0_def [symmetric])
    moreover have "utf8_shape b0 b1 b2 b3 = None"
      unfolding utf8_shape_def Let_def using n by (simp only: if_False conj_assoc [symmetric] simp_thms)
    ultimately show ?thesis by (simp add: b0_def b1_def b2_def b3_def)
  next
    case two
    show ?thesis
    proof (cases "0x80 \<le> b1 \<and> b1 < 0xC0")
      case True
      then have b1: "0x80 \<le> b1" "b1 < 0xC0" by simp_all
      define cp where "cp = (b0 - 0xC0) * 64 + (b1 - 0x80)"
      have e: "push_bit 6 (b0 AND 0x1F) OR (b1 AND 0x3F) = cp"
        using two b1 by (simp add: and_low_bits low_or cont_mod lead_mod cp_def)
      have "0x80 \<le> cp" "cp < 0x800" using two b1 unfolding cp_def by linarith+
      then show ?thesis unfolding unf e using two b1 by simp
    qed (use two in \<open>unfold unf, simp\<close>)
  next
    case three
    show ?thesis
    proof (cases "(0x80 \<le> b1 \<and> b1 < 0xC0) \<and> (0x80 \<le> b2 \<and> b2 < 0xC0)")
      case True
      then have b: "0x80 \<le> b1" "b1 < 0xC0" "0x80 \<le> b2" "b2 < 0xC0" by simp_all
      define cp where "cp = (b0 - 0xE0) * 4096 + (b1 - 0x80) * 64 + (b2 - 0x80)"
      have e: "push_bit 6 (push_bit 6 (b0 AND 0xF) OR (b1 AND 0x3F)) OR (b2 AND 0x3F) = cp"
        using three b by (simp add: and_low_bits low_or cont_mod lead_mod cp_def)
      have "cp < 0x10000" using three b unfolding cp_def by linarith
      then show ?thesis unfolding unf e cp_def [symmetric] using three b
        by (simp add: scalar_value_def not_le not_less)
    qed (use three in \<open>unfold unf, auto\<close>)
  next
    case four
    show ?thesis
    proof (cases "(0x80 \<le> b1 \<and> b1 < 0xC0) \<and> (0x80 \<le> b2 \<and> b2 < 0xC0) \<and> (0x80 \<le> b3 \<and> b3 < 0xC0)")
      case True
      then have b: "0x80 \<le> b1" "b1 < 0xC0" "0x80 \<le> b2" "b2 < 0xC0" "0x80 \<le> b3" "b3 < 0xC0" by simp_all
      define cp where "cp = (b0 - 0xF0) * 262144 + (b1 - 0x80) * 4096 + (b2 - 0x80) * 64 + (b3 - 0x80)"
      have e: "push_bit 6 (push_bit 6 (push_bit 6 (b0 AND 0x7) OR (b1 AND 0x3F)) OR (b2 AND 0x3F)) OR (b3 AND 0x3F) = cp"
        using four b by (simp add: and_low_bits low_or cont_mod lead_mod cp_def)
      show ?thesis unfolding unf e cp_def [symmetric] using four b
        by (simp add: scalar_value_def not_le not_less)
    qed (use four in \<open>unfold unf, auto\<close>)
  qed
qed

lemma char_of_byte [simp]: "char_of (byte c) = c" by simp

lemma char_at_numeral [simp]:
  "char_at (c # s) (numeral k) = char_at s (pred_numeral k)" "char_at (c # s) 1 = char_at s 0"
  by (simp_all add: numeral_eq_Suc)

lemma char_at_byte_pos: "0 < byte (char_at s i) \<Longrightarrow> i < length s"
  by (cases "i < length s") (auto simp: char_at_def)

lemma utf8_encode_less: "scalar_value cp \<Longrightarrow> b \<in> set (utf8_encode cp) \<Longrightarrow> b < 256"
proof -
  assume "scalar_value cp"
  then have "cp < 0x110000" by (simp add: scalar_value_def)
  moreover have "x mod 64 < 64" for x :: nat by simp
  moreover have "cp div 64 < 32" if "cp < 0x800" using that by (simp add: less_mult_imp_div_less)
  moreover have "cp div 4096 < 16" if "cp < 0x10000" using that by (simp add: less_mult_imp_div_less)
  moreover have "cp div 262144 < 5" if "cp < 0x110000" using that by (simp add: less_mult_imp_div_less)
  ultimately show "b \<in> set (utf8_encode cp) \<Longrightarrow> b < 256"
    unfolding utf8_encode_def by (auto split: if_splits)
qed

lemma digits64:
  fixes cp :: nat
  shows "(cp div 64) * 64 + cp mod 64 = cp"
    and "(cp div 4096) * 4096 + cp div 64 mod 64 * 64 + cp mod 64 = cp"
    and "(cp div 262144) * 262144 + cp div 4096 mod 64 * 4096 + cp div 64 mod 64 * 64 + cp mod 64 = cp"
proof -
  have a: "(x div 64) * 64 + x mod 64 = x" for x :: nat by simp
  have b: "cp div 4096 = cp div 64 div 64" "cp div 262144 = cp div 64 div 64 div 64"
    by (simp_all add: div_mult2_eq [symmetric])
  show "(cp div 64) * 64 + cp mod 64 = cp" by (rule a)
  show "(cp div 4096) * 4096 + cp div 64 mod 64 * 64 + cp mod 64 = cp"
    using a [of cp] a [of "cp div 64"] unfolding b by linarith
  show "(cp div 262144) * 262144 + cp div 4096 mod 64 * 4096 + cp div 64 mod 64 * 64 + cp mod 64 = cp"
    using a [of cp] a [of "cp div 64"] a [of "cp div 64 div 64"] unfolding b by linarith
qed

lemma utf8_shape_encode:
  assumes "scalar_value cp"
  shows "verify_utf8_sequence (utf8_chars cp @ r) = Some (length (utf8_encode cp))"
proof -
  have byte: "byte (char_of b) = b" if "b < 256" for b :: nat using that by simp
  have m: "x mod 64 < 64" for x :: nat by simp
  have le: "cp \<le> 0x10FFFF" using assms by (simp add: scalar_value_def)
  consider (one) "cp < 0x80" | (two) "0x80 \<le> cp" "cp < 0x800" | (three) "0x800 \<le> cp" "cp < 0x10000"
    | (four) "0x10000 \<le> cp" by linarith
  then show ?thesis
  proof cases
    case one
    then show ?thesis by (simp add: utf8_encode_def verify_utf8_sequence_eq utf8_shape_def byte)
  next
    case two
    have q: "2 \<le> cp div 64" "cp div 64 < 32"
      using two by (simp_all add: less_mult_imp_div_less less_eq_div_iff_mult_less_eq)
    show ?thesis
      using two q m [of cp] by (simp add: utf8_encode_def verify_utf8_sequence_eq utf8_shape_def byte Let_def)
  next
    case three
    have q: "cp div 4096 < 16" using three by (simp add: less_mult_imp_div_less)
    show ?thesis
      using three q m [of cp] m [of "cp div 64"] assms digits64(2) [of cp]
      by (simp add: utf8_encode_def verify_utf8_sequence_eq utf8_shape_def byte Let_def)
  next
    case four
    have q: "cp div 262144 < 5" using le by (simp add: less_mult_imp_div_less)
    show ?thesis
      using four q m [of cp] m [of "cp div 64"] m [of "cp div 4096"] assms digits64(3) [of cp]
      by (simp add: utf8_encode_def verify_utf8_sequence_eq utf8_shape_def byte Let_def)
  qed
qed

lemma char_at_drop [simp]: "char_at (drop k s) i = char_at s (k + i)"
  by (auto simp: char_at_def)

lemma take_char_at: "k \<le> length s \<Longrightarrow> take k s = map (char_at s) [0..<k]"
  by (rule nth_equalityI) (auto simp: char_at_def)

lemma utf8_split:
  assumes "map byte (take k s) = utf8_encode cp" and "k \<le> length s" and "scalar_value cp"
    and "k = length (utf8_encode cp)"
  shows "\<exists>cp r. scalar_value cp \<and> s = utf8_chars cp @ r \<and> k = length (utf8_encode cp)"
proof -
  have "take k s = utf8_chars cp"
    unfolding assms(1) [symmetric] by (simp add: comp_def)
  then have "s = utf8_chars cp @ drop k s" by (metis append_take_drop_id)
  with assms(3,4) show ?thesis by blast
qed

lemma base64_digits:
  assumes "d < 64"
  shows "((e :: nat) * 64 + d) mod 64 = d" "(e * 64 + d) div 64 = e"
    "(e * 64 + d) div 4096 = e div 64" "(e * 64 + d) div 262144 = e div 64 div 64"
proof -
  show "(e * 64 + d) mod 64 = d" and q: "(e * 64 + d) div 64 = e" using assms by simp_all
  have "(e * 64 + d) div 4096 = (e * 64 + d) div 64 div 64"
    "(e * 64 + d) div 262144 = (e * 64 + d) div 64 div 64 div 64"
    by (simp_all only: div_mult2_eq [symmetric]) simp_all
  then show "(e * 64 + d) div 4096 = e div 64" "(e * 64 + d) div 262144 = e div 64 div 64"
    by (simp_all only: q)
qed

lemma utf8_shape_decode:
  assumes "verify_utf8_sequence s = Some k" and "s \<noteq> []"
  shows "\<exists>cp r. scalar_value cp \<and> s = utf8_chars cp @ r \<and> k = length (utf8_encode cp)"
proof -
  define b0 where "b0 = byte (char_at s 0)"
  define b1 where "b1 = byte (char_at s 1)"
  define b2 where "b2 = byte (char_at s 2)"
  define b3 where "b3 = byte (char_at s 3)"
  note defs = b0_def b1_def b2_def b3_def
  have shape: "utf8_shape b0 b1 b2 b3 = Some k"
    using assms(1) by (simp add: verify_utf8_sequence_eq defs)
  have pos: "0 < b1 \<Longrightarrow> 1 < length s" "0 < b2 \<Longrightarrow> 2 < length s" "0 < b3 \<Longrightarrow> 3 < length s"
    by (simp_all add: defs char_at_byte_pos)
  have t: "map byte (take 1 s) = [b0]" if "1 \<le> length s" using take_char_at [OF that] by (simp add: defs)
  have t2: "map byte (take 2 s) = [b0, b1]" if "2 \<le> length s"
    using take_char_at [OF that] by (simp add: defs numeral_eq_Suc)
  have t3: "map byte (take 3 s) = [b0, b1, b2]" if "3 \<le> length s"
    using take_char_at [OF that] by (simp add: defs numeral_eq_Suc)
  have t4: "map byte (take 4 s) = [b0, b1, b2, b3]" if "4 \<le> length s"
    using take_char_at [OF that] by (simp add: defs numeral_eq_Suc)
  have sub: "\<exists>d. x = c + d \<and> d < n" if "c \<le> x" "x < c + n" for x c n :: nat
    using that le_Suc_ex [of c x] by auto
  consider (one) "b0 < 0x80" "k = 1" | (two) "0xC2 \<le> b0" "b0 < 0xE0" "0x80 \<le> b1" "b1 < 0xC0" "k = 2"
    | (three) "0xE0 \<le> b0" "b0 < 0xF0" "0x80 \<le> b1" "b1 < 0xC0" "0x80 \<le> b2" "b2 < 0xC0" "k = 3"
       "0x800 \<le> (b0 - 0xE0) * 4096 + (b1 - 0x80) * 64 + (b2 - 0x80)"
       "scalar_value ((b0 - 0xE0) * 4096 + (b1 - 0x80) * 64 + (b2 - 0x80))"
    | (four) "0xF0 \<le> b0" "b0 < 0xF5" "0x80 \<le> b1" "b1 < 0xC0" "0x80 \<le> b2" "b2 < 0xC0"
       "0x80 \<le> b3" "b3 < 0xC0" "k = 4"
       "0x10000 \<le> (b0 - 0xF0) * 262144 + (b1 - 0x80) * 4096 + (b2 - 0x80) * 64 + (b3 - 0x80)"
       "scalar_value ((b0 - 0xF0) * 262144 + (b1 - 0x80) * 4096 + (b2 - 0x80) * 64 + (b3 - 0x80))"
    using shape by (simp only: utf8_shape_def Let_def option.inject option.distinct split: if_splits)
  then show ?thesis
  proof cases
    case one
    have "1 \<le> length s" using assms(2) by (cases s) auto
    with one t show ?thesis
      by (intro utf8_split [where cp = b0]) (simp_all add: utf8_encode_def scalar_value_def)
  next
    case two
    obtain d0 where d0: "b0 = 0xC0 + d0" "d0 < 32" using sub [of "0xC0" b0 32] two by auto
    obtain d1 where d1: "b1 = 0x80 + d1" "d1 < 64" using sub [of "0x80" b1 64] two by auto
    have "2 \<le> length s" using pos(1) two by simp
    moreover define cp where "cp = d0 * 64 + d1"
    moreover have "cp div 64 = d0" "cp mod 64 = d1" "0x80 \<le> cp" "cp < 0x800"
      using d0 d1(2) two(1) unfolding cp_def by simp_all
    ultimately show ?thesis using t2 two(5) d0 d1
      by (intro utf8_split [where cp = cp]) (simp_all add: utf8_encode_def scalar_value_def)
  next
    case three
    obtain d0 where d0: "b0 = 0xE0 + d0" "d0 < 16" using sub [of "0xE0" b0 16] three by auto
    obtain d1 where d1: "b1 = 0x80 + d1" "d1 < 64" using sub [of "0x80" b1 64] three by auto
    obtain d2 where d2: "b2 = 0x80 + d2" "d2 < 64" using sub [of "0x80" b2 64] three by auto
    define cp where "cp = (d0 * 64 + d1) * 64 + d2"
    have q: "cp mod 64 = d2" "cp div 64 mod 64 = d1" "cp div 4096 = d0"
      unfolding cp_def base64_digits [OF d2(2)] base64_digits [OF d1(2)] by (rule refl)+
    have "3 \<le> length s" using pos(2) three by simp
    moreover have "0x800 \<le> cp" "cp < 0x10000" "scalar_value cp"
      using three(8,9) d0(2) d1(2) d2(2) unfolding d0 d1 d2 cp_def by (simp_all add: algebra_simps)
    ultimately show ?thesis using t3 d0 d1 d2 three(7) q
      by (intro utf8_split [where cp = cp]) (simp_all add: utf8_encode_def)
  next
    case four
    obtain d0 where d0: "b0 = 0xF0 + d0" "d0 < 5" using sub [of "0xF0" b0 5] four by auto
    obtain d1 where d1: "b1 = 0x80 + d1" "d1 < 64" using sub [of "0x80" b1 64] four by auto
    obtain d2 where d2: "b2 = 0x80 + d2" "d2 < 64" using sub [of "0x80" b2 64] four by auto
    obtain d3 where d3: "b3 = 0x80 + d3" "d3 < 64" using sub [of "0x80" b3 64] four by auto
    define cp where "cp = ((d0 * 64 + d1) * 64 + d2) * 64 + d3"
    have q: "cp mod 64 = d3" "cp div 64 mod 64 = d2" "cp div 4096 mod 64 = d1" "cp div 262144 = d0"
      unfolding cp_def base64_digits [OF d3(2)] base64_digits [OF d2(2)] base64_digits [OF d1(2)]
      by (rule refl)+
    have "4 \<le> length s" using pos(3) four by simp
    moreover have "0x10000 \<le> cp" "scalar_value cp"
      using four(10,11) d0(2) d1(2) d2(2) d3(2) unfolding d0 d1 d2 d3 cp_def by (simp_all add: algebra_simps)
    ultimately show ?thesis using t4 d0 d1 d2 d3 four(9) q
      by (intro utf8_split [where cp = cp]) (simp_all add: utf8_encode_def)
  qed
qed

lemma utf8_encode_nonempty [simp]: "utf8_encode cp \<noteq> []" "0 < length (utf8_encode cp)"
  by (simp_all add: utf8_encode_def)

lemma is_valid_utf8_iff:
  "is_valid_utf8 s (length s) \<longleftrightarrow> (\<exists>cps. list_all scalar_value cps \<and> s = concat (map utf8_chars cps))"
proof
  show "is_valid_utf8 s (length s) \<Longrightarrow> \<exists>cps. list_all scalar_value cps \<and> s = concat (map utf8_chars cps)"
  proof (induction "length s" arbitrary: s rule: less_induct)
    case less
    show ?case
    proof (cases "s = []")
      case True
      then have "list_all scalar_value [] \<and> s = concat (map utf8_chars [])" by simp
      then show ?thesis by blast
    next
      case False
      with less.prems obtain k where k: "verify_utf8_sequence s = Some k" "is_valid_utf8 (drop k s) (length s - k)"
        by (subst (asm) is_valid_utf8.simps) (auto split: option.splits)
      from utf8_shape_decode [OF k(1) False] obtain cp r where cp: "scalar_value cp" "s = utf8_chars cp @ r"
        "k = length (utf8_encode cp)" by blast
      then have "is_valid_utf8 r (length r)" "length r < length s" using k(2) by simp_all
      from less.hyps [OF this(2,1)] obtain cps where "list_all scalar_value cps" "r = concat (map utf8_chars cps)"
        by blast
      with cp have "list_all scalar_value (cp # cps) \<and> s = concat (map utf8_chars (cp # cps))" by simp
      then show ?thesis by blast
    qed
  qed
next
  have "list_all scalar_value cps \<Longrightarrow> s = concat (map utf8_chars cps) \<Longrightarrow> is_valid_utf8 s (length s)" for cps
  proof (induction cps arbitrary: s)
    case Nil
    then show ?case by (simp add: is_valid_utf8.simps)
  next
    case (Cons cp cps)
    then have v: "verify_utf8_sequence s = Some (length (utf8_encode cp))"
      and r: "is_valid_utf8 (concat (map utf8_chars cps)) (length (concat (map utf8_chars cps)))"
      using utf8_shape_encode [of cp "concat (map utf8_chars cps)"] by simp_all
    have "drop (length (utf8_encode cp)) s = concat (map utf8_chars cps)"
      "length s - length (utf8_encode cp) = length (concat (map utf8_chars cps))" "length s \<noteq> 0"
      using Cons.prems by simp_all
    then show ?case by (subst is_valid_utf8.simps) (simp add: v r)
  qed
  then show "\<exists>cps. list_all scalar_value cps \<and> s = concat (map utf8_chars cps) \<Longrightarrow> is_valid_utf8 s (length s)"
    by blast
qed

section \<open>Escapes\<close>

lemma hex_char_to_int_range: "hex_char_to_int c = -1 \<or> (0 \<le> hex_char_to_int c \<and> hex_char_to_int c < 16)"
  by (auto simp: hex_char_to_int_def Let_def)

lemma hex_char_plain:
  assumes "hex_char_to_int c \<noteq> -1"
  shows "c \<noteq> CHR 0x22" "c \<noteq> CHR 0x5C" "c \<noteq> NUL"
  using assms by (auto simp: hex_char_to_int_def Let_def)

lemma hex_char_to_int_digit: "n < 16 \<Longrightarrow> hex_char_to_int (hex_digit n) = int n"
  by (auto simp: hex_digit_def hex_char_to_int_def Let_def)

lemma or_hex4:
  assumes "a < 16" "b < 16" "c < 16" "(d :: nat) < 16"
  shows "push_bit 12 a OR push_bit 8 b OR push_bit 4 c OR d = 4096 * a + 256 * b + 16 * c + d"
proof -
  have 1: "push_bit 12 a OR push_bit 8 b = push_bit 8 (16 * a + b)"
    using or_add_nat [of "push_bit 8 b" 12 a] assms by (simp add: push_bit_eq_mult)
  have 2: "push_bit 8 (16 * a + b) OR push_bit 4 c = push_bit 4 (256 * a + 16 * b + c)"
    using or_add_nat [of "push_bit 4 c" 8 "16 * a + b"] assms by (simp add: push_bit_eq_mult)
  have 3: "push_bit 4 (256 * a + 16 * b + c) OR d = 4096 * a + 256 * b + 16 * c + d"
    using or_add_nat [of d 4 "256 * a + 16 * b + c"] assms by simp
  show ?thesis by (simp only: or.assoc [symmetric] 1 2 3)
qed

text \<open>The value of four hexadecimal digits, most significant first.\<close>

definition hex4 :: "string \<Rightarrow> nat option" where
  "hex4 s =
     (let h = (\<lambda>i. hex_char_to_int (char_at s i)) in
      if h 0 = -1 \<or> h 1 = -1 \<or> h 2 = -1 \<or> h 3 = -1 then None
      else Some (4096 * nat (h 0) + 256 * nat (h 1) + 16 * nat (h 2) + nat (h 3)))"

lemma parse_utf16_hex_eq: "parse_utf16_hex s = hex4 s"
proof -
  have nul: "hex_char_to_int NUL = -1" by (simp add: hex_char_to_int_def)
  have "nat (hex_char_to_int c) < 16" if "hex_char_to_int c \<noteq> -1" for c
    using hex_char_to_int_range [of c] that by auto
  then show ?thesis
    by (auto simp: parse_utf16_hex_def hex4_def Let_def nul or_hex4)
qed

lemma hex4_less: "hex4 s = Some cp \<Longrightarrow> cp < 0x10000"
proof -
  have "nat (hex_char_to_int c) \<le> 15" for c
    using hex_char_to_int_range [of c] by auto
  from this [of "char_at s 0"] this [of "char_at s 1"] this [of "char_at s 2"] this [of "char_at s 3"]
  show "hex4 s = Some cp \<Longrightarrow> cp < 0x10000"
    by (auto simp: hex4_def Let_def split: if_splits)
qed

text \<open>What an escape means: a code unit that is a code point, or a surrogate pair.\<close>

definition utf16_escape :: "string \<Rightarrow> (nat \<times> nat) option" where
  "utf16_escape s =
     (case hex4 (drop 1 s) of
        None \<Rightarrow> None
      | Some u \<Rightarrow>
          if u < 0xD800 \<or> 0xDFFF < u then Some (u, 4)
          else if u < 0xDC00 \<and> char_at s 5 = CHR 0x5C \<and> char_at s 6 = CHR ''u'' then
            (case hex4 (drop 7 s) of
               None \<Rightarrow> None
             | Some t \<Rightarrow>
                 if 0xDC00 \<le> t \<and> t \<le> 0xDFFF
                 then Some (0x10000 + (u - 0xD800) * 0x400 + (t - 0xDC00), 10) else None)
          else None)"

lemma utf8_chars_bits:
  "cp < 0x80 \<Longrightarrow> utf8_chars cp = [char_of cp]"
  "0x80 \<le> cp \<Longrightarrow> cp < 0x800 \<Longrightarrow> utf8_chars cp =
     [char_of ((drop_bit 6 cp AND 0x1F) OR 0xC0), char_of ((cp AND 0x3F) OR 0x80)]"
  "0x800 \<le> cp \<Longrightarrow> cp < 0x10000 \<Longrightarrow> utf8_chars cp =
     [char_of ((drop_bit 12 cp AND 0x0F) OR 0xE0), char_of ((drop_bit 6 cp AND 0x3F) OR 0x80),
      char_of ((cp AND 0x3F) OR 0x80)]"
  "0x10000 \<le> cp \<Longrightarrow> cp < 0x110000 \<Longrightarrow> utf8_chars cp =
     [char_of ((drop_bit 18 cp AND 0x07) OR 0xF0), char_of ((drop_bit 12 cp AND 0x3F) OR 0x80),
      char_of ((drop_bit 6 cp AND 0x3F) OR 0x80), char_of ((cp AND 0x3F) OR 0x80)]"
proof -
  have m: "x mod 64 < 64" for x :: nat by simp
  show "cp < 0x80 \<Longrightarrow> utf8_chars cp = [char_of cp]" by (simp add: utf8_encode_def)
  show "utf8_chars cp =
     [char_of ((drop_bit 6 cp AND 0x1F) OR 0xC0), char_of ((cp AND 0x3F) OR 0x80)]"
    if "0x80 \<le> cp" "cp < 0x800"
  proof -
    have "cp div 64 < 32" using that by (simp add: less_mult_imp_div_less)
    then show ?thesis using that
      by (simp only: and_low_bits drop_bit_eq_div or_high_bits m utf8_encode_def) (simp add: or_high_bits)
  qed
  show "utf8_chars cp =
     [char_of ((drop_bit 12 cp AND 0x0F) OR 0xE0), char_of ((drop_bit 6 cp AND 0x3F) OR 0x80),
      char_of ((cp AND 0x3F) OR 0x80)]"
    if "0x800 \<le> cp" "cp < 0x10000"
  proof -
    have "cp div 4096 < 16" using that by (simp add: less_mult_imp_div_less)
    then show ?thesis using that
      by (simp only: and_low_bits drop_bit_eq_div or_high_bits m utf8_encode_def) (simp add: or_high_bits)
  qed
  show "utf8_chars cp =
     [char_of ((drop_bit 18 cp AND 0x07) OR 0xF0), char_of ((drop_bit 12 cp AND 0x3F) OR 0x80),
      char_of ((drop_bit 6 cp AND 0x3F) OR 0x80), char_of ((cp AND 0x3F) OR 0x80)]"
    if "0x10000 \<le> cp" "cp < 0x110000"
  proof -
    have "cp div 262144 < 8" using that by (simp add: less_mult_imp_div_less)
    then show ?thesis using that
      by (simp only: and_low_bits drop_bit_eq_div or_high_bits m utf8_encode_def) (simp add: or_high_bits)
  qed
qed

lemma surrogate_bits:
  assumes "u < 0x400" "t < 0x400"
  shows "(push_bit 10 (u AND 0x3FF) OR (t AND 0x3FF)) + 0x010000 = 0x10000 + u * 0x400 + (t :: nat)"
  using assms or_add_nat [of t 10 u] by (simp only: and_low_bits) simp

lemma parse_utf16_eq:
  "parse_utf16 s = map_option (\<lambda>(cp, adv). (utf8_chars cp, adv)) (utf16_escape s)"
proof (cases "hex4 (drop 1 s)")
  case None
  then show ?thesis by (simp add: parse_utf16_def utf16_escape_def parse_utf16_hex_eq del: One_nat_def)
next
  case (Some u)
  note u = hex4_less [OF Some]
  show ?thesis
  proof (cases "u < 0xD800 \<or> 0xDFFF < u")
    case True
    consider "u < 0x80" | "0x80 \<le> u" "u < 0x800" | "0x800 \<le> u" by linarith
    then show ?thesis
      using True u
      by cases (simp_all add: parse_utf16_def utf16_escape_def parse_utf16_hex_eq Some utf8_chars_bits
        del: list.map One_nat_def)
  next
    case False
    show ?thesis
    proof (cases "hex4 (drop 7 s)")
      case None
      with False show ?thesis
        by (simp add: parse_utf16_def utf16_escape_def parse_utf16_hex_eq Some del: One_nat_def)
    next
      case t: (Some t)
      show ?thesis
      proof (cases "u < 0xDC00 \<and> 0xDC00 \<le> t \<and> t \<le> 0xDFFF")
        case True
        define cp where "cp = 0x10000 + (u - 0xD800) * 0x400 + (t - 0xDC00)"
        have eq: "(push_bit 10 ((u - 0xD800) AND 0x3FF) OR ((t - 0xDC00) AND 0x3FF)) + 0x010000 = cp"
          unfolding cp_def using True False by (intro surrogate_bits) linarith+
        have cp: "0x10000 \<le> cp" "cp < 0x110000" unfolding cp_def using True False by linarith+
        show ?thesis
          unfolding parse_utf16_def utf16_escape_def parse_utf16_hex_eq Some t option.case Let_def eq
            utf8_chars_bits(4) [OF cp, symmetric] cp_def [symmetric]
          using True False by simp
      next
        case out: False
        with False show ?thesis
          by (auto simp: parse_utf16_def utf16_escape_def parse_utf16_hex_eq Some t simp del: One_nat_def)
      qed
    qed
  qed
qed

lemma utf16_escape_scalar: "utf16_escape s = Some (cp, adv) \<Longrightarrow> scalar_value cp"
  by (auto simp: utf16_escape_def scalar_value_def dest!: hex4_less split: option.splits if_splits)

lemma skip_quotes_plain [simp]:
  "c \<noteq> CHR 0x22 \<Longrightarrow> c \<noteq> CHR 0x5C \<Longrightarrow> skip_quotes_loop (c # s) = skip_quotes_loop s"
  by simp

lemma skip_quotes_escape [simp]: "skip_quotes_loop (CHR 0x5C # c # s) = skip_quotes_loop s"
  by simp

lemma hex4_Some_cons:
  assumes "hex4 s = Some u"
  obtains a b c d r where "s = a # b # c # d # r" "hex_char_to_int a \<noteq> -1" "hex_char_to_int b \<noteq> -1"
    "hex_char_to_int c \<noteq> -1" "hex_char_to_int d \<noteq> -1"
proof -
  have h: "hex_char_to_int (char_at s i) \<noteq> -1" if "i < 4" for i
    using assms that by (cases i rule: nat.exhaust) (auto simp: hex4_def Let_def numeral_eq_Suc less_Suc_eq split: if_splits)
  have "char_at s 3 \<noteq> NUL" using hex_char_plain(3) [OF h [of 3]] by simp
  then have "3 < length s" by (auto simp: char_at_def split: if_splits)
  then have "4 \<le> length s" by simp
  then obtain a b c d r where s: "s = a # b # c # d # r"
    by (auto simp: numeral_eq_Suc Suc_le_length_iff)
  show thesis by (rule that [OF s]) (use h [of 0] h [of 1] h [of 2] h [of 3] s in simp_all)
qed

lemma utf16_escape_skip:
  assumes "utf16_escape s = Some (cp, adv)"
  shows "adv < length s" and "s = c # r \<Longrightarrow> skip_quotes_loop r = skip_quotes_loop (drop adv r)"
    and "length (utf8_encode cp) \<le> adv - 1"
proof -
  obtain u where u: "hex4 (drop 1 s) = Some u" using assms by (auto simp: utf16_escape_def split: option.splits)
  then obtain a0 a1 a2 a3 r1 where r1: "drop 1 s = a0 # a1 # a2 # a3 # r1"
    and h: "hex_char_to_int a0 \<noteq> -1" "hex_char_to_int a1 \<noteq> -1" "hex_char_to_int a2 \<noteq> -1" "hex_char_to_int a3 \<noteq> -1"
    by (rule hex4_Some_cons)
  obtain c0 where s: "s = c0 # a0 # a1 # a2 # a3 # r1" using r1 by (cases s) auto
  consider (one) "adv = 4" "cp < 0x10000" | (two) t where "adv = 10" "char_at s 5 = CHR 0x5C" "char_at s 6 = CHR ''u''" "hex4 (drop 7 s) = Some t"
    using assms u hex4_less [OF u] by (auto simp: utf16_escape_def simp del: One_nat_def split: option.splits if_splits)
  then have "adv < length s \<and> (s = c # r \<longrightarrow> skip_quotes_loop r = skip_quotes_loop (drop adv r))
     \<and> length (utf8_encode cp) \<le> adv - 1"
  proof cases
    case one
    with s h show ?thesis
      by (auto simp: utf8_encode_def hex_char_plain simp del: skip_quotes_loop.simps)
  next
    case two
    obtain b0 b1 b2 b3 r2 where r2: "drop 7 s = b0 # b1 # b2 # b3 # r2"
      and k: "hex_char_to_int b0 \<noteq> -1" "hex_char_to_int b1 \<noteq> -1" "hex_char_to_int b2 \<noteq> -1" "hex_char_to_int b3 \<noteq> -1"
      using two(4) by (rule hex4_Some_cons)
    have "drop 2 r1 = b0 # b1 # b2 # b3 # r2" using r2 s by simp
    moreover have "char_at r1 0 = CHR 0x5C" "char_at r1 1 = CHR ''u''" using two(2,3) s by simp_all
    ultimately have "r1 = CHR 0x5C # CHR ''u'' # b0 # b1 # b2 # b3 # r2"
      by (cases r1; cases "tl r1") auto
    with s h k two(1) show ?thesis
      by (auto simp: utf8_encode_def hex_char_plain simp del: skip_quotes_loop.simps)
  qed
  then show "adv < length s" "s = c # r \<Longrightarrow> skip_quotes_loop r = skip_quotes_loop (drop adv r)"
    "length (utf8_encode cp) \<le> adv - 1" by auto
qed

lemma skip_quotes_loop_length: "skip_quotes_loop s = Some rest \<Longrightarrow> length rest < length s"
  by (induction s rule: skip_quotes_loop.induct) (auto split: if_splits list.splits)

lemma process_string_simps [simp]:
  "process_string [] n = Some []" "process_string s 0 = Some []"
  by (auto simp: process_string.simps split: list.splits)

lemma process_string_plain:
  "c \<noteq> CHR 0x5C \<Longrightarrow> 0 < n \<Longrightarrow> process_string (c # r) n =
     (if byte c < 0x20 then None else map_option ((#) c) (process_string r (n - 1)))"
  by (simp add: process_string.simps)

lemma process_string_simple:
  "simple_escape c = Some c' \<Longrightarrow> 0 < n \<Longrightarrow>
     process_string (CHR 0x5C # c # r) n = map_option ((#) c') (process_string r (n - 2))"
  by (simp add: process_string.simps [of "CHR 0x5C # c # r"])

lemma process_string_escape:
  assumes "0 < n"
  shows "process_string (CHR 0x5C # r) n =
     (case simple_escape (char_at r 0) of
        Some c' \<Rightarrow> map_option ((#) c') (process_string (drop 1 r) (n - 2))
      | None \<Rightarrow> if char_at r 0 = CHR ''u'' then
            (case utf16_escape r of None \<Rightarrow> None
             | Some (cp, adv) \<Rightarrow> map_option ((@) (utf8_chars cp)) (process_string (drop (Suc adv) r) (n - Suc (Suc adv))))
          else None)"
  using assms by (simp add: process_string.simps [of "CHR 0x5C # r"] parse_utf16_eq
    split: option.split prod.split)

lemma process_string_bound:
  assumes "skip_quotes_loop s = Some rest" "n = length s - length rest - 1" "process_string s n = Some out"
  shows "length out \<le> n"
  using assms
proof (induction n arbitrary: s out rule: less_induct)
  case (less n)
  note len = skip_quotes_loop_length [OF less.prems(1)]
  show ?case
  proof (cases "n = 0")
    case True
    with less.prems(3) show ?thesis by simp
  next
    case n: False
    obtain c r where s: "s = c # r" using len by (cases s) auto
    show ?thesis
    proof (cases "c = CHR 0x5C")
      case False
      have q: "c \<noteq> CHR 0x22" using n less.prems(1,2) s by auto
      obtain out' where o: "process_string r (n - 1) = Some out'" "out = c # out'"
        using less.prems(3) n False s by (auto simp: process_string_plain split: if_splits)
      have "length out' \<le> n - 1"
        by (rule less.IH [of _ r]) (use n less.prems(1,2) q False s o in auto)
      with n o show ?thesis by simp
    next
      case c: True
      obtain d r' where r: "r = d # r'" "skip_quotes_loop r' = Some rest"
        using less.prems(1) s c by (auto split: list.splits)
      note len' = skip_quotes_loop_length [OF r(2)]
      show ?thesis
      proof (cases "simple_escape d")
        case (Some d')
        obtain out' where o: "process_string r' (n - 2) = Some out'" "out = d' # out'"
          using less.prems(3) n s c r Some by (auto simp: process_string_escape)
        have "n = length r' - length rest + 1" using less.prems(2) s r len' by simp
        moreover from this have "length out' \<le> n - 2"
          by (intro less.IH [of _ r']) (use n r len' o in auto)
        ultimately show ?thesis using o len' by simp
      next
        case None
        then obtain cp adv out' where u: "d = CHR ''u''" "utf16_escape r = Some (cp, adv)"
          "process_string (drop (Suc adv) r) (n - Suc (Suc adv)) = Some out'" "out = utf8_chars cp @ out'"
          using less.prems(3) n s c r by (auto simp: process_string_escape split: option.splits if_splits)
        note skip = utf16_escape_skip [OF u(2)]
        define r2 where "r2 = drop adv r'"
        have r2: "skip_quotes_loop r2 = Some rest" using skip(2) r unfolding r2_def by simp
        note len2 = skip_quotes_loop_length [OF r2]
        have "length r = Suc (length r')" "length r' = length r2 + adv" using skip(1) r unfolding r2_def by auto
        then have n2: "n = length r2 - length rest - 1 + Suc (Suc adv)"
          using less.prems(2) s len2 by simp
        have "length out' \<le> n - Suc (Suc adv)"
          by (rule less.IH [of _ r2]) (use n2 r2 u(3) r in \<open>auto simp: r2_def\<close>)
        then show ?thesis using u(4) skip(3) n2 by simp
      qed
    qed
  qed
qed

text \<open>
  The buffer \<open>process_string\<close> allocates holds \<open>input_len + 1\<close> bytes.
\<close>

lemma get_quoted_string_bound:
  assumes "get_quoted_string s = Some (out, rest)"
  shows "length out + 2 \<le> length s - length rest" and "length rest < length s"
proof -
  obtain r where r: "skip_quotes_loop r = Some rest" "s = CHR 0x22 # r"
    "process_string r (length s - length rest - 2) = Some out"
    using assms by (cases s) (auto simp: get_quoted_string_def skip_quotes_def split: option.splits if_splits)
  note len = skip_quotes_loop_length [OF r(1)]
  have "length out \<le> length s - length rest - 2"
    by (rule process_string_bound [OF r(1)]) (use r in auto)
  then show "length out + 2 \<le> length s - length rest" "length rest < length s" using len r(2) by auto
qed

section \<open>Writing and reading back\<close>

lemma hex_digit_plain [simp]: "n < 16 \<Longrightarrow> hex_digit n \<noteq> CHR 0x22" "n < 16 \<Longrightarrow> hex_digit n \<noteq> CHR 0x5C"
  using hex_char_plain [of "hex_digit n"] hex_char_to_int_digit [of n] by auto

lemma utf16_escape_control:
  assumes "byte c < 0x20"
  shows "utf16_escape (CHR ''u'' # CHR ''0'' # CHR ''0'' # hex_digit (byte c div 16) # hex_digit (byte c mod 16) # r)
     = Some (byte c, 4)"
proof -
  have "byte c div 16 < 16" "byte c mod 16 < 16" using assms by simp_all
  then have "hex4 (CHR ''0'' # CHR ''0'' # hex_digit (byte c div 16) # hex_digit (byte c mod 16) # r) = Some (byte c)"
    by (simp add: hex4_def Let_def hex_char_to_int_digit) (simp add: hex_char_to_int_def)
  then show ?thesis using assms by (simp add: utf16_escape_def)
qed

lemma process_string_escape_char:
  "process_string (escape_char b c @ r) (length (escape_char b c) + k)
     = map_option ((#) c) (process_string r k)"
proof -
  have cons: "(@) [c] = (#) c" by (simp add: fun_eq_iff)
  have plain: "byte c < 0x20 \<Longrightarrow> process_string (CHR 0x5C # CHR ''u'' # CHR ''0'' # CHR ''0'' #
      hex_digit (byte c div 16) # hex_digit (byte c mod 16) # r) (Suc (Suc (Suc (Suc (Suc (Suc k)))))) = map_option ((#) c) (process_string r k)"
    by (simp add: process_string_escape utf16_escape_control utf8_encode_def simple_escape_def cons)
  show ?thesis
    using plain
    by (auto simp: escape_char_def process_string_plain process_string_simple simple_escape_def
       split: if_splits)
qed

lemma skip_quotes_escape_char: "skip_quotes_loop (escape_char b c @ r) = skip_quotes_loop r"
proof -
  have "byte c < 0x20 \<Longrightarrow> byte c div 16 < 16" by simp
  then show ?thesis by (auto simp: escape_char_def simp del: skip_quotes_loop.simps)
qed

lemma string_round_trip:
  "get_quoted_string (json_serialize_string b s @ rest) = Some (s, rest)"
proof -
  let ?e = "\<lambda>s. concat (map (escape_char b) s)"
  have skip: "skip_quotes_loop (?e s @ CHR 0x22 # rest) = Some rest" for s
    by (induction s) (simp_all add: skip_quotes_escape_char)
  have process: "process_string (?e s @ r) (length (?e s)) = Some s" for s r
  proof (induction s)
    case (Cons c s)
    then show ?case
      using process_string_escape_char [of b c "?e s @ r" "length (?e s)"] by (simp add: length_concat)
  qed simp
  show ?thesis
    using skip [of s] process [of s "CHR 0x22 # rest"]
    by (simp add: get_quoted_string_def skip_quotes_def json_serialize_string_def)
qed

section \<open>Comments\<close>

lemma strstr_bound: "strstr s t = Some k \<Longrightarrow> k + length t \<le> length s"
proof (induction s arbitrary: k)
  case (Cons c s)
  show ?case
  proof (cases "take (length t) (c # s) = t")
    case True
    then have "length t \<le> length (c # s)" by (metis length_take min.cobounded1)
    with True Cons.prems show ?thesis by simp
  qed (use Cons in auto)
qed (auto split: if_splits)

lemma length_remove_comments_loop:
  "length (remove_comments_loop st en i e s) = length s"
proof (induction "length s" arbitrary: i e s rule: less_induct)
  case less
  show ?case
  proof (cases s)
    case Nil
    then show ?thesis by (simp add: remove_comments_loop.simps)
  next
    case (Cons c r)
    then have IH: "length (remove_comments_loop st en i e r) = length r" for i e by (simp add: less.hyps)
    show ?thesis
    proof (cases "st \<noteq> [] \<and> en \<noteq> [] \<and> \<not> i \<and> strncmp_eq s st (length st)")
      case False
      then show ?thesis using IH Cons by (cases i) (auto simp: remove_comments_loop.simps [of st en _ e "c # r"])
    next
      case True
      then have "take (length st) s = st" by (simp add: strncmp_eq_def)
      then have le: "length st \<le> length s" by (metis length_take min.cobounded1)
      show ?thesis
      proof (cases "strstr (drop (length st) s) en")
        case None
        then show ?thesis using True Cons IH le
          by (auto simp: remove_comments_loop.simps [of st en False e "c # r"] Let_def)
      next
        case (Some k)
        note b = strstr_bound [OF Some]
        have "length (remove_comments_loop st en False False (drop (k + length en) (drop (length st) s)))
            = length (drop (k + length en) (drop (length st) s))"
          proof (rule less.hyps)
          have "0 < length st" "0 < length s" using True Cons by simp_all
          then show "length (drop (k + length en) (drop (length st) s)) < length s" by simp
        qed
        then show ?thesis using True Cons IH le Some b
          by (auto simp: remove_comments_loop.simps [of st en False e "c # r"] Let_def)
      qed
    qed
  qed
qed

end
