(* ===== verification/C_Double.thy ===== *)
theory C_Double
  imports Complex_Main Prelude
begin

text \<open>
  The \<open>double\<close> of the target (IEEE 754 binary64) as far as the program uses it: the
  values, \<open>strtod\<close>, the conversions of \<open>printf\<close> for \<open>%1.17g\<close> and \<open>%f\<close>, the
  cast to \<open>int\<close>, and the subtraction and comparison of \<open>json_value_equals\<close>.  A finite
  value is a sign, a mantissa and a power of two; rounding is to nearest, ties to even, on exact
  rationals.  The lemmas show that the seventeen digits parson writes determine the number:
  reading them back gives the same double.
\<close>

section \<open>Values\<close>

datatype double = Fin bool nat int | Infinite bool | NaN

definition canonical :: "nat \<Rightarrow> int \<Rightarrow> bool" where
  "canonical m e \<longleftrightarrow> m < 2 ^ 53 \<and> -1074 \<le> e \<and> e \<le> 971 \<and> (2 ^ 52 \<le> m \<or> e = -1074)"

fun is_double :: "double \<Rightarrow> bool" where
  "is_double (Fin _ m e) = canonical m e"
| "is_double _ = True"

fun is_finite :: "double \<Rightarrow> bool" where
  "is_finite (Fin _ _ _) = True"
| "is_finite _ = False"

text \<open>A power of two or ten with an integer exponent, as numerator and denominator.\<close>

definition num_den :: "nat \<Rightarrow> nat \<Rightarrow> int \<Rightarrow> nat \<times> nat" where
  "num_den b m e = (if 0 \<le> e then (m * b ^ nat e, 1) else (m, b ^ nat (- e)))"

section \<open>Rounding\<close>

definition round_div :: "nat \<Rightarrow> nat \<Rightarrow> nat" where
  "round_div n d =
     (let q = n div d; r = n mod d in
      if 2 * r < d then q else if d < 2 * r then Suc q else if even q then q else Suc q)"

fun bit_length :: "nat \<Rightarrow> nat" where
  "bit_length n = (if n = 0 then 0 else Suc (bit_length (n div 2)))"

declare bit_length.simps [simp del]

definition log2_floor :: "nat \<Rightarrow> nat \<Rightarrow> int" where
  "log2_floor n d =
     (let k = int (bit_length n) - int (bit_length d);
          (a, b) = (if 0 \<le> k then (n, d * 2 ^ nat k) else (n * 2 ^ nat (- k), d))
      in if b \<le> a then k else k - 1)"

definition round_scaled :: "nat \<Rightarrow> nat \<Rightarrow> nat \<Rightarrow> int \<Rightarrow> nat" where
  "round_scaled b n d e =
     (if 0 \<le> e then round_div n (d * b ^ nat e) else round_div (n * b ^ nat (- e)) d)"

definition to_double :: "bool \<Rightarrow> nat \<Rightarrow> nat \<Rightarrow> double" where
  "to_double neg n d =
     (if n = 0 then Fin neg 0 (-1074)
      else
        let e = max (-1074) (log2_floor n d - 52);
            m = round_scaled 2 n d e;
            (m', e') = (if m = 2 ^ 53 then (2 ^ 52, e + 1) else (m, e))
        in if 971 < e' then Infinite neg else Fin neg m' e')"

definition double_of_int :: "int \<Rightarrow> double" where
  "double_of_int i = to_double (i < 0) (nat \<bar>i\<bar>) 1"

text \<open>\<open>(int)x\<close>: defined when the truncated value fits.\<close>

fun int_of_double :: "double \<Rightarrow> int option" where
  "int_of_double (Fin neg m e) =
     (let (n, d) = num_den 2 m e;
          i = (if neg then - int (n div d) else int (n div d))
      in if - (2 ^ 31) \<le> i \<and> i < 2 ^ 31 then Some i else None)"
| "int_of_double _ = None"

text \<open>\<open>fabs(a - b) < 0.000001\<close>, the subtraction rounded; false when an operand is not finite.\<close>

fun diff_small :: "double \<Rightarrow> double \<Rightarrow> bool" where
  "diff_small (Fin s m e) (Fin t k f) =
     (let g = min e f;
          x = (if s then - 1 else 1) * int m * 2 ^ nat (e - g);
          y = (if t then - 1 else 1) * int k * 2 ^ nat (f - g);
          (n, d) = num_den 2 (nat \<bar>x - y\<bar>) g
      in case (to_double False n d, to_double False 1 1000000) of
           (Fin _ a p, Fin _ b q) \<Rightarrow>
             (let h = min p q in a * 2 ^ nat (p - h) < b * 2 ^ nat (q - h))
         | _ \<Rightarrow> False)"
| "diff_small _ _ = False"

section \<open>Digits\<close>

definition digit_char :: "nat \<Rightarrow> char" where
  "digit_char d = char_of (48 + d)"

definition digit_val :: "char \<Rightarrow> nat" where
  "digit_val c = of_char c - 48"

definition digits_val :: "string \<Rightarrow> nat" where
  "digits_val = foldl (\<lambda>a c. 10 * a + digit_val c) 0"

fun digits_n :: "nat \<Rightarrow> nat \<Rightarrow> string" where
  "digits_n 0 n = []"
| "digits_n (Suc k) n = digits_n k (n div 10) @ [digit_char (n mod 10)]"

fun show_nat :: "nat \<Rightarrow> string" where
  "show_nat n = (if n < 10 then [digit_char n] else show_nat (n div 10) @ [digit_char (n mod 10)])"

declare show_nat.simps [simp del]

definition show_int :: "int \<Rightarrow> string" where
  "show_int i = (if i < 0 then ''-'' else []) @ show_nat (nat \<bar>i\<bar>)"

section \<open>printf\<close>

text \<open>\<open>dec_lead n d\<close> is the least power of ten that lifts \<open>n / d\<close> to one.\<close>

function dec_lead :: "nat \<Rightarrow> nat \<Rightarrow> nat" where
  "dec_lead n d = (if n = 0 \<or> d \<le> n then 0 else Suc (dec_lead (10 * n) d))"
  by pat_completeness auto
termination
  by (relation "measure (\<lambda>(n, d). d - n)") auto

declare dec_lead.simps [simp del]

definition log10_floor :: "nat \<Rightarrow> nat \<Rightarrow> int" where
  "log10_floor n d =
     (if d \<le> n then int (length (show_nat (n div d))) - 1 else - int (dec_lead n d))"

text \<open>The seventeen significant digits and the decimal exponent of the first one.\<close>

definition sig_digits :: "nat \<Rightarrow> nat \<Rightarrow> nat \<times> int" where
  "sig_digits n d =
     (if n = 0 then (0, 0)
      else
        let x = log10_floor n d;
            r = round_scaled 10 n d (x - 16)
        in if r = 10 ^ 17 then (10 ^ 16, x + 1) else (r, x))"

fun strip_zeros :: "string \<Rightarrow> string" where
  "strip_zeros [] = []"
| "strip_zeros (c # s) =
     (let r = strip_zeros s in if r = [] \<and> c = CHR ''0'' then [] else c # r)"

definition with_fraction :: "string \<Rightarrow> string \<Rightarrow> string" where
  "with_fraction ip fp = (let f = strip_zeros fp in if f = [] then ip else ip @ CHR ''.'' # f)"

definition show_exponent :: "int \<Rightarrow> string" where
  "show_exponent x =
     CHR ''e'' # (if x < 0 then CHR ''-'' else CHR ''+'') #
       (let s = show_nat (nat \<bar>x\<bar>) in if length s < 2 then CHR ''0'' # s else s)"

definition sign_text :: "bool \<Rightarrow> string" where
  "sign_text neg = (if neg then ''-'' else [])"

text \<open>\<open>sprintf(buf, "%1.17g", x)\<close>.\<close>

fun printf_17g :: "double \<Rightarrow> string" where
  "printf_17g (Fin neg m e) =
     (let (n, d) = num_den 2 m e;
          (r, x) = sig_digits n d;
          s = digits_n 17 r
      in sign_text neg @
         (if -4 \<le> x \<and> x < 17 then
            (if 0 \<le> x then with_fraction (take (nat x + 1) s) (drop (nat x + 1) s)
             else with_fraction ''0'' (replicate (nat (- x) - 1) CHR ''0'' @ s))
          else with_fraction (take 1 s) (drop 1 s) @ show_exponent x))"
| "printf_17g (Infinite neg) = sign_text neg @ ''inf''"
| "printf_17g NaN = ''nan''"

text \<open>\<open>%f\<close>: six decimals.\<close>

fun printf_f :: "double \<Rightarrow> string" where
  "printf_f (Fin neg m e) =
     (let (n, d) = num_den 2 m e;
          r = round_div (n * 10 ^ 6) d
      in sign_text neg @ show_nat (r div 10 ^ 6) @ ''.'' @ digits_n 6 (r mod 10 ^ 6))"
| "printf_f (Infinite neg) = sign_text neg @ ''inf''"
| "printf_f NaN = ''nan''"

section \<open>strtod\<close>

definition to_lower :: "char \<Rightarrow> char" where
  "to_lower c = (let n = of_char c :: nat in if 65 \<le> n \<and> n \<le> 90 then char_of (n + 32) else c)"

definition has_prefix_ci :: "string \<Rightarrow> string \<Rightarrow> bool" where
  "has_prefix_ci p s \<longleftrightarrow> map to_lower (take (length p) s) = p"

definition is_hex_digit :: "char \<Rightarrow> bool" where
  "is_hex_digit c \<longleftrightarrow> isdigit c \<or> (let n = of_char (to_lower c) :: nat in 97 \<le> n \<and> n \<le> 102)"

definition hex_val :: "char \<Rightarrow> nat" where
  "hex_val c = (if isdigit c then digit_val c else of_char (to_lower c) - 87)"

text \<open>An exponent part after \<open>marker\<close>: its value and its length, \<open>(0, 0)\<close> when there is none.\<close>

definition read_exponent :: "char \<Rightarrow> string \<Rightarrow> int \<times> nat" where
  "read_exponent marker s =
     (if to_lower (char_at s 0) \<noteq> marker then (0, 0)
      else
        let sgn = (char_at s 1 = CHR ''+'' \<or> char_at s 1 = CHR ''-'');
            k = (if sgn then 2 else 1);
            ds = takeWhile isdigit (drop k s)
        in if ds = [] then (0, 0)
           else ((if char_at s 1 = CHR ''-'' then - int (digits_val ds) else int (digits_val ds)),
                 k + length ds))"

text \<open>The digits before and after the point, and the length of the two with the point.\<close>

definition read_mantissa :: "(char \<Rightarrow> bool) \<Rightarrow> string \<Rightarrow> string \<times> string \<times> nat" where
  "read_mantissa is_digit s =
     (let ip = takeWhile is_digit s;
          r = drop (length ip) s;
          fp = (if char_at r 0 = CHR ''.'' then takeWhile is_digit (drop 1 r) else [])
      in (ip, fp, if ip = [] \<and> fp = [] then 0
                  else length ip + (if char_at r 0 = CHR ''.'' then Suc (length fp) else 0)))"

definition read_decimal :: "bool \<Rightarrow> string \<Rightarrow> (double \<times> nat) option" where
  "read_decimal neg s =
     (let (ip, fp, k) = read_mantissa isdigit s in
      if k = 0 then None
      else
        let (x, j) = read_exponent CHR ''e'' (drop k s);
            (n, d) = num_den 10 (digits_val (ip @ fp)) (x - int (length fp))
        in Some (to_double neg n d, k + j))"

definition read_hex :: "bool \<Rightarrow> string \<Rightarrow> (double \<times> nat) option" where
  "read_hex neg s =
     (if \<not> has_prefix_ci ''0x'' s then None
      else
        let (ip, fp, k) = read_mantissa is_hex_digit (drop 2 s) in
        if k = 0 then None
        else
          let (x, j) = read_exponent CHR ''p'' (drop (2 + k) s);
              (n, d) = num_den 2 (foldl (\<lambda>a c. 16 * a + hex_val c) 0 (ip @ fp))
                         (x - 4 * int (length fp))
          in Some (to_double neg n d, 2 + k + j))"

definition read_special :: "bool \<Rightarrow> string \<Rightarrow> (double \<times> nat) option" where
  "read_special neg s =
     (if has_prefix_ci ''infinity'' s then Some (Infinite neg, 8)
      else if has_prefix_ci ''inf'' s then Some (Infinite neg, 3)
      else if has_prefix_ci ''nan'' s then
        (let w = takeWhile (\<lambda>c. isdigit c \<or> c = CHR ''_'' \<or>
                   (let n = of_char (to_lower c) :: nat in 97 \<le> n \<and> n \<le> 122)) (drop 4 s) in
         if char_at s 3 = CHR ''('' \<and> char_at s (4 + length w) = CHR '')''
         then Some (NaN, 5 + length w) else Some (NaN, 3))
      else None)"

text \<open>
  The value, the number of characters consumed, and whether the result overflowed
  (\<open>errno == ERANGE\<close> with plus or minus \<open>HUGE_VAL\<close>).  Without a number the value is 0 and
  nothing is consumed.
\<close>

definition strtod :: "string \<Rightarrow> double \<times> nat \<times> bool" where
  "strtod s =
     (let ws = length (takeWhile isspace s);
          c = char_at s ws;
          neg = (c = CHR ''-'');
          sg = (if neg \<or> c = CHR ''+'' then 1 else 0);
          t = drop (ws + sg) s
      in case read_special neg t of
           Some (x, k) \<Rightarrow> (x, ws + sg + k, False)
         | None \<Rightarrow>
             (case (case read_hex neg t of None \<Rightarrow> read_decimal neg t | Some r \<Rightarrow> Some r) of
                Some (x, k) \<Rightarrow> (x, ws + sg + k, \<not> is_finite x)
              | None \<Rightarrow> (Fin False 0 (-1074), 0, False)))"

section \<open>Rounding is exact arithmetic\<close>

lemma num_den_value:
  assumes "num_den b m e = (n, d)" and "0 < b"
  shows "0 < d" and "real n / real d = real m * real b powi e"
  using assms by (auto simp: num_den_def power_int_def field_simps split: if_splits)

lemma round_div_error:
  assumes "0 < d"
  shows "\<bar>real (round_div n d) - real n / real d\<bar> \<le> 1 / 2"
proof -
  define q where "q = n div d"
  define r where "r = n mod d"
  have "n = q * d + r" by (simp add: q_def r_def)
  then have nd: "real n / real d = real q + real r / real d"
    using assms by (simp add: field_simps)
  have r: "r < d" using assms by (simp add: r_def)
  have a: "\<bar>real q - (real q + real r / real d)\<bar> \<le> 1 / 2" if "2 * r \<le> d"
  proof -
    have "real (2 * r) \<le> real d" using that by (simp only: of_nat_le_iff)
    then show ?thesis using assms by (simp add: field_simps)
  qed
  have b: "\<bar>real (Suc q) - (real q + real r / real d)\<bar> \<le> 1 / 2" if "d \<le> 2 * r"
  proof -
    have "real d \<le> real (2 * r)" "real r \<le> real d" using that r by (simp_all only: of_nat_le_iff)
    then show ?thesis using assms by (simp add: field_simps)
  qed
  show ?thesis
    unfolding round_div_def Let_def q_def [symmetric] r_def [symmetric] nd
    using a b by (auto simp del: of_nat_Suc)
qed

lemma round_scaled_error:
  assumes "0 < d" and "0 < b"
  shows "\<bar>real (round_scaled b n d e) - real n / real d / real b powi e\<bar> \<le> 1 / 2"
proof (cases "0 \<le> e")
  case True
  then show ?thesis
    using round_div_error [of "d * b ^ nat e" n] assms by (simp add: round_scaled_def power_int_def)
next
  case False
  then show ?thesis
    using round_div_error [of d "n * b ^ nat (- e)"] assms
    by (simp add: round_scaled_def power_int_def field_simps)
qed

lemma round_scaled_unique:
  assumes "0 < d" and "0 < b" and "\<bar>real k - real n / real d / real b powi e\<bar> < 1 / 2"
  shows "round_scaled b n d e = k"
proof -
  have "\<bar>real (round_scaled b n d e) - real k\<bar> < 1"
    using round_scaled_error [OF assms(1,2), of n e] assms(3) by linarith
  then show ?thesis by linarith
qed

section \<open>Binary and decimal exponents\<close>

lemma bit_length_bounds: "0 < n \<Longrightarrow> 0 < bit_length n \<and> 2 ^ (bit_length n - 1) \<le> n \<and> n < 2 ^ bit_length n"
proof (induction n rule: bit_length.induct)
  case (1 n)
  show ?case
  proof (cases "n div 2 = 0")
    case True
    with "1.prems" have "n = 1" by (simp add: div_eq_0_iff)
    then show ?thesis by (simp add: bit_length.simps)
  next
    case False
    then have IH: "0 < bit_length (n div 2)" "2 ^ (bit_length (n div 2) - 1) \<le> n div 2"
      "n div 2 < 2 ^ bit_length (n div 2)" using "1.IH" "1.prems" by auto
    have "bit_length n = Suc (bit_length (n div 2))" using "1.prems" by (simp add: bit_length.simps)
    moreover obtain k where k: "bit_length (n div 2) = Suc k" using IH(1) by (cases "bit_length (n div 2)") auto
    ultimately show ?thesis using IH(2,3) by (simp add: k) linarith
  qed
qed

lemma log2_floor_bounds:
  assumes "0 < n" and "0 < d"
  shows "2 powi log2_floor n d \<le> real n / real d" and "real n / real d < 2 powi (log2_floor n d + 1)"
proof -
  define a where "a = bit_length n"
  define b where "b = bit_length d"
  define k where "k = int a - int b"
  have A: "0 < a" "2 ^ (a - 1) \<le> n" "n < 2 ^ a" using bit_length_bounds [OF assms(1)] by (auto simp: a_def)
  have B: "0 < b" "2 ^ (b - 1) \<le> d" "d < 2 ^ b" using bit_length_bounds [OF assms(2)] by (auto simp: b_def)
  have ra: "2 powi (int a - 1) \<le> real n" "real n < 2 powi (int a)"
    using A by (simp_all add: power_int_def nat_diff_distrib of_nat_less_iff [symmetric] of_nat_le_iff [symmetric]
       del: of_nat_less_iff of_nat_le_iff)
  have rb: "2 powi (int b - 1) \<le> real d" "real d < 2 powi (int b)"
    using B by (simp_all add: power_int_def nat_diff_distrib of_nat_less_iff [symmetric] of_nat_le_iff [symmetric]
       del: of_nat_less_iff of_nat_le_iff)
  have d: "0 < real d" using assms by simp
  have hi: "real n / real d < 2 powi (k + 1)"
  proof -
    have "real n < 2 powi (int a)" by (rule ra)
    also have "(2 :: real) powi (int a) = 2 powi (k + 1) * 2 powi (int b - 1)"
      by (simp add: power_int_add [symmetric] k_def)
    also have "\<dots> \<le> 2 powi (k + 1) * real d" by (rule mult_left_mono [OF rb(1)]) simp
    finally show ?thesis using d by (simp add: divide_less_eq)
  qed
  have lo: "2 powi (k - 1) < real n / real d"
  proof -
    have "(2 :: real) powi (k - 1) * real d < 2 powi (k - 1) * 2 powi (int b)"
      by (rule mult_strict_left_mono [OF rb(2)]) simp
    also have "\<dots> = 2 powi (k - 1 + int b)" by (rule power_int_add [symmetric]) simp
    also have "k - 1 + int b = int a - 1" by (simp add: k_def)
    also have "2 powi (int a - 1) \<le> real n" by (rule ra)
    finally show ?thesis using d by (simp add: less_divide_eq)
  qed
  define big where "big \<longleftrightarrow> 2 powi k * real d \<le> real n"
  have test: "log2_floor n d = (if big then k else k - 1)"
  proof (cases "0 \<le> k")
    case True
    then have "2 powi k * real d \<le> real n \<longleftrightarrow> d * 2 ^ nat k \<le> n"
      using of_nat_le_iff [where 'a = real, of "d * 2 ^ nat k" n]
      by (simp add: power_int_def mult.commute del: of_nat_le_iff)
    then show ?thesis using True by (simp add: log2_floor_def a_def [symmetric] b_def [symmetric] k_def [symmetric] big_def)
  next
    case False
    then have "2 powi k * real d \<le> real n \<longleftrightarrow> d \<le> n * 2 ^ nat (- k)"
      using of_nat_le_iff [where 'a = real, of d "n * 2 ^ nat (- k)"]
      by (simp add: power_int_def field_simps del: of_nat_le_iff)
    then show ?thesis using False by (simp add: log2_floor_def a_def [symmetric] b_def [symmetric] k_def [symmetric] big_def)
  qed
  show "2 powi log2_floor n d \<le> real n / real d"
    using lo d by (auto simp: test big_def le_divide_eq less_divide_eq)
  show "real n / real d < 2 powi (log2_floor n d + 1)"
    using hi d by (auto simp: test big_def not_le divide_less_eq)
qed

lemma show_nat_nonempty [simp]: "show_nat n \<noteq> []"
  by (subst show_nat.simps) simp

lemma show_nat_bounds: "n < 10 ^ length (show_nat n) \<and> (0 < n \<longrightarrow> 10 ^ (length (show_nat n) - 1) \<le> n)"
proof (induction n rule: show_nat.induct)
  case (1 n)
  show ?case
  proof (cases "n < 10")
    case True
    then show ?thesis by (simp add: show_nat.simps [of n])
  next
    case False
    then have IH: "n div 10 < 10 ^ length (show_nat (n div 10))"
      "10 ^ (length (show_nat (n div 10)) - 1) \<le> n div 10" using "1.IH" by auto
    obtain k where k: "length (show_nat (n div 10)) = Suc k"
      by (cases "show_nat (n div 10)") auto
    have "n < 10 ^ Suc k * 10" using IH(1) k by (simp only: div_less_iff_less_mult)
    moreover have "10 ^ k * 10 \<le> n" using IH(2) k by (simp add: less_eq_div_iff_mult_less_eq)
    ultimately show ?thesis using False by (simp add: show_nat.simps [of n] k)
  qed
qed

lemma dec_lead_bounds:
  "0 < n \<Longrightarrow> n < d \<Longrightarrow> 0 < dec_lead n d \<and> d \<le> n * 10 ^ dec_lead n d \<and> n * 10 ^ (dec_lead n d - 1) < d"
proof (induction n d rule: dec_lead.induct)
  case (1 n d)
  have u: "dec_lead n d = Suc (dec_lead (10 * n) d)" using "1.prems" by (simp add: dec_lead.simps [of n d])
  show ?case
  proof (cases "10 * n < d")
    case True
    then have IH: "0 < dec_lead (10 * n) d" "d \<le> 10 * n * 10 ^ dec_lead (10 * n) d"
      "10 * n * 10 ^ (dec_lead (10 * n) d - 1) < d" using "1.IH" "1.prems" by auto
    then obtain k where "dec_lead (10 * n) d = Suc k" by (cases "dec_lead (10 * n) d") auto
    with IH show ?thesis by (simp add: u)
  next
    case False
    then have "dec_lead (10 * n) d = 0" by (simp add: dec_lead.simps)
    with False "1.prems" show ?thesis by (simp add: u)
  qed
qed

lemma log10_floor_bounds:
  assumes "0 < n" and "0 < d"
  shows "10 powi log10_floor n d \<le> real n / real d" and "real n / real d < 10 powi (log10_floor n d + 1)"
proof -
  have d: "0 < real d" using assms by simp
  have "10 powi log10_floor n d \<le> real n / real d \<and> real n / real d < 10 powi (log10_floor n d + 1)"
  proof (cases "d \<le> n")
    case True
    define k where "k = length (show_nat (n div d))"
    have q: "0 < n div d" using True assms by (simp add: div_greater_zero_iff)
    have k: "0 < k" "10 ^ (k - 1) \<le> n div d" "n div d < 10 ^ k"
      using show_nat_bounds [of "n div d"] q by (auto simp: k_def)
    have "10 ^ (k - 1) * d \<le> n" using k(2) assms by (simp add: less_eq_div_iff_mult_less_eq)
    then have "real (10 ^ (k - 1) * d) \<le> real n" by (simp only: of_nat_le_iff)
    moreover have "n < 10 ^ k * d" using k(3) assms by (simp add: div_less_iff_less_mult)
    then have "real n < real (10 ^ k * d)" by (simp only: of_nat_less_iff)
    moreover have "nat (int k - 1) = k - 1" using k(1) by simp
    ultimately show ?thesis using True d k(1)
      by (simp add: log10_floor_def k_def [symmetric] power_int_def field_simps)
  next
    case False
    then have l: "0 < dec_lead n d" "d \<le> n * 10 ^ dec_lead n d" "n * 10 ^ (dec_lead n d - 1) < d"
      using dec_lead_bounds [of n d] assms by auto
    define k where "k = dec_lead n d - 1"
    have k: "dec_lead n d = Suc k" using l(1) by (simp add: k_def)
    have "real d \<le> real (n * 10 ^ Suc k)" "real (n * 10 ^ k) < real d"
      using l(2,3) unfolding k by (simp_all only: of_nat_le_iff of_nat_less_iff diff_Suc_1)
    then show ?thesis using False d
      by (auto simp: log10_floor_def k power_int_def field_simps nat_add_distrib)
  qed
  then show "10 powi log10_floor n d \<le> real n / real d" "real n / real d < 10 powi (log10_floor n d + 1)"
    by auto
qed

section \<open>Reading a decimal gives the nearest double\<close>

lemma log2_floor_unique:
  assumes "0 < n" "0 < d" "2 powi k \<le> real n / real d" "real n / real d < 2 powi (k + 1)"
  shows "log2_floor n d = k"
proof -
  note b = log2_floor_bounds [OF assms(1,2)]
  have "(2 :: real) powi k < 2 powi (log2_floor n d + 1)" "(2 :: real) powi log2_floor n d < 2 powi (k + 1)"
    using b assms(3,4) by linarith+
  then have "k < log2_floor n d + 1" "log2_floor n d < k + 1"
    by (metis not_le power_int_increasing one_le_numeral)+
  then show ?thesis by linarith
qed

lemma log2_floor_less:
  assumes "0 < n" "0 < d" "real n / real d < 2 powi k"
  shows "log2_floor n d < k"
proof (rule ccontr)
  assume "\<not> log2_floor n d < k"
  then have "(2 :: real) powi k \<le> 2 powi log2_floor n d" by (intro power_int_increasing) simp_all
  with log2_floor_bounds(1) [OF assms(1,2)] assms(3) show False by linarith
qed

lemma to_double_nearest:
  assumes can: "canonical m e" and m: "0 < m" and n: "0 < n" and d: "0 < d"
    and near: "\<bar>real n / real d - real m * 2 powi e\<bar> < 2 powi e / 2"
    and low: "m = 2 ^ 52 \<Longrightarrow> \<bar>real n / real d - real m * 2 powi e\<bar> < 2 powi e / 4"
  shows "to_double neg n d = Fin neg m e"
proof -
  define y where "y = real n / real d"
  define u where "u = (2 :: real) powi e"
  have u: "0 < u" by (simp add: u_def)
  have half: "(2 :: real) powi (e - 1) = u / 2" by (simp add: u_def power_int_diff)
  have p: "(2 :: real) powi (e + int k) = u * 2 ^ k" for k by (simp add: u_def power_int_add)
  have ylt: "y < 2 powi (e + 53)"
  proof -
    have "real m \<le> 2 ^ 53 - 1" using can unfolding canonical_def
      by (metis One_nat_def Suc_leI le_diff_conv2 of_nat_le_iff of_nat_Suc of_nat_numeral of_nat_power add.commute le_diff_eq)
    then have "real m * u \<le> (2 ^ 53 - 1) * u" using u by (intro mult_right_mono) simp_all
    also have "\<dots> = u * 2 ^ 53 - u" by (simp add: algebra_simps)
    finally have "real m * u \<le> u * 2 ^ 53 - u" .
    moreover have "y < real m * u + u / 2" using near unfolding y_def [symmetric] u_def [symmetric] by linarith
    ultimately have "y < u * 2 ^ 53" using u by linarith
    then show ?thesis using p [of 53] by simp
  qed
  show ?thesis
  proof (cases "e = -1074 \<or> 2 powi (e + 52) \<le> y")
    case True
    have E: "max (-1074) (log2_floor n d - 52) = e"
    proof (cases "2 powi (e + 52) \<le> y")
      case True
      then have "log2_floor n d = e + 52"
        using ylt n d by (intro log2_floor_unique) (simp_all add: y_def algebra_simps)
      then show ?thesis using can by (simp add: canonical_def)
    next
      case False
      then have "log2_floor n d < e + 52" using n d by (intro log2_floor_less) (simp_all add: y_def)
      then show ?thesis using True False by simp
    qed
    have "\<bar>real m - y / u\<bar> < 1 / 2"
    proof -
      have "real m - y / u = (real m * u - y) / u" using u by (simp add: field_simps)
      then have "\<bar>real m - y / u\<bar> = \<bar>y - real m * u\<bar> / u" using u by (simp add: abs_minus_commute)
      also have "\<dots> < 1 / 2" using near u by (simp add: y_def u_def divide_less_eq)
      finally show ?thesis .
    qed
    then have R: "round_scaled 2 n d e = m"
      using d by (intro round_scaled_unique) (simp_all add: y_def u_def)
    show ?thesis using n can by (simp add: to_double_def E R canonical_def)
  next
    case False
    then have lt: "y < u * 2 ^ 52" and ne: "e \<noteq> -1074" using p [of 52] by simp_all
    have m52: "m = 2 ^ 52"
    proof (rule ccontr)
      assume "m \<noteq> 2 ^ 52"
      then have "2 ^ 52 + 1 \<le> m" using can ne by (auto simp: canonical_def)
      then have "real (2 ^ 52 + 1) \<le> real m" by (simp only: of_nat_le_iff)
      then have "(2 ^ 52 + 1) * u \<le> real m * u" using u by (intro mult_right_mono) simp_all
      then have "u * 2 ^ 52 + u \<le> real m * u" by (simp only: algebra_simps mult_1)
      with near lt u show False unfolding y_def [symmetric] u_def [symmetric] by linarith
    qed
    have near': "\<bar>y - 2 ^ 52 * u\<bar> < u / 4" using low [OF m52] by (simp add: y_def u_def m52)
    have "log2_floor n d = e + 51"
    proof (rule log2_floor_unique [OF n d])
      show "2 powi (e + 51) \<le> real n / real d"
      proof -
        have "u * 2 ^ 51 \<le> 2 ^ 52 * u - u / 4" using u by simp
        moreover have "2 ^ 52 * u - u / 4 < y" using near' by linarith
        ultimately have "u * 2 ^ 51 \<le> y" by linarith
        then show ?thesis using p [of 51] unfolding y_def [symmetric] by simp
      qed
      show "real n / real d < 2 powi (e + 51 + 1)" using lt p [of 52] unfolding y_def [symmetric] by (simp add: add.commute)
    qed
    then have E: "max (-1074) (log2_floor n d - 52) = e - 1" using can ne by (simp add: canonical_def)
    have R: "round_scaled 2 n d (e - 1) = 2 ^ 53"
    proof (rule round_scaled_unique [OF d])
      have "\<bar>2 ^ 53 - y / (u / 2)\<bar> = \<bar>y - 2 ^ 52 * u\<bar> / (u / 2)" using u
        by (simp add: field_simps abs_if)
      also have "\<dots> < 1 / 2" using near' u by (simp add: divide_less_eq)
      finally show "\<bar>real (2 ^ 53) - real n / real d / real 2 powi (e - 1)\<bar> < 1 / 2"
        by (simp add: y_def half)
    qed simp
    show ?thesis using n can by (simp add: to_double_def E R canonical_def m52)
  qed
qed

section \<open>Seventeen digits\<close>

lemma sig_digits_bounds:
  assumes "0 < n" "0 < d" and "sig_digits n d = (r, x)"
  shows "10 ^ 16 \<le> r" and "r < 10 ^ 17"
    and "\<bar>real r * 10 powi (x - 16) - real n / real d\<bar> \<le> real n / real d / (2 * 10 ^ 16)"
proof -
  define v where "v = real n / real d"
  define X where "X = log10_floor n d"
  define q where "q = round_scaled 10 n d (X - 16)"
  define t where "t = (10 :: real) powi (X - 16)"
  have t: "0 < t" by (simp add: t_def)
  have X: "10 ^ 16 * t \<le> v" "v < 10 ^ 17 * t"
    using log10_floor_bounds [OF assms(1,2)] unfolding v_def X_def t_def
    by (simp_all add: power_int_diff power_int_add field_simps)
  have err: "\<bar>real q - v / t\<bar> \<le> 1 / 2"
    using round_scaled_error [OF assms(2), of 10 n "X - 16"] by (simp add: q_def v_def t_def)
  have vt: "10 ^ 16 \<le> v / t" "v / t < 10 ^ 17" using X t by (simp_all add: le_divide_eq divide_less_eq)
  have "10 ^ 16 - 1 / 2 \<le> real q" "real q \<le> 10 ^ 17 + 1 / 2" using err vt by linarith+
  then have "real (10 ^ 16) < real (q + 1)" "real q < real (10 ^ 17 + 1)"
    unfolding of_nat_add of_nat_power of_nat_numeral of_nat_1 by linarith+
  then have lo: "10 ^ 16 \<le> q" and hi: "q \<le> 10 ^ 17" by (simp_all only: of_nat_less_iff)
  have "\<bar>real q * t - v\<bar> = \<bar>real q - v / t\<bar> * t" using t by (simp add: abs_mult [symmetric] field_simps)
  also have "\<dots> \<le> 1 / 2 * t" using err t by (intro mult_right_mono) simp_all
  also have "\<dots> \<le> v / (2 * 10 ^ 16)" using X(1) by (simp add: field_simps)
  finally have e: "\<bar>real q * t - v\<bar> \<le> v / (2 * 10 ^ 16)" .
  have eq: "r = (if q = 10 ^ 17 then 10 ^ 16 else q)" "x = (if q = 10 ^ 17 then X + 1 else X)"
    using assms by (auto simp: sig_digits_def q_def X_def Let_def split: if_splits)
  have "real r * 10 powi (x - 16) = real q * t"
  proof (cases "q = 10 ^ 17")
    case True
    have "(10 :: real) powi (x - 16) = 10 * t"
      using True power_int_add [of "10 :: real" 1 "X - 16"] by (simp add: eq t_def algebra_simps)
    with True show ?thesis by (simp add: eq)
  qed (simp add: eq t_def)
  with e show "\<bar>real r * 10 powi (x - 16) - real n / real d\<bar> \<le> real n / real d / (2 * 10 ^ 16)"
    by (simp add: v_def)
  show "10 ^ 16 \<le> r" "r < 10 ^ 17" using lo hi by (auto simp: eq)
qed

lemma digits_determine:
  assumes can: "canonical m e" and m: "0 < m" and sig: "sig_digits n d = (r, x)" and nd: "num_den 2 m e = (n, d)"
    and val: "real n' / real d' = real r * 10 powi (x - 16)" and d': "0 < d'"
  shows "to_double neg n' d' = Fin neg m e"
proof -
  define u where "u = (2 :: real) powi e"
  have u: "0 < u" by (simp add: u_def)
  have v: "real n / real d = real m * u" and d: "0 < d" using num_den_value [OF nd] by (simp_all add: u_def)
  have n: "0 < n" using v m u d by (auto simp: zero_less_mult_iff dest: sym intro: gr0I)
  note b = sig_digits_bounds [OF n d sig]
  have mm: "real m < 2 ^ 53" using can unfolding canonical_def by (metis of_nat_less_iff of_nat_numeral of_nat_power)
  have err: "\<bar>real n' / real d' - real m * u\<bar> \<le> real m * u / (2 * 10 ^ 16)"
    using b(3) by (simp add: v val)
  have "0 < real r * 10 powi (x - 16)" using b(1) by simp
  then have n': "0 < n'" using val d' by (cases n') simp_all
  show ?thesis
  proof (rule to_double_nearest [OF can m n' d'])
    have "real m * u / (2 * 10 ^ 16) < 2 ^ 53 * u / (2 * 10 ^ 16)"
      using mm u by (intro divide_strict_right_mono mult_strict_right_mono) simp_all
    also have "\<dots> < u / 2" using u by (simp add: field_simps)
    finally show "\<bar>real n' / real d' - real m * 2 powi e\<bar> < 2 powi e / 2"
      using err unfolding u_def [symmetric] by linarith
    show "\<bar>real n' / real d' - real m * 2 powi e\<bar> < 2 powi e / 4" if "m = 2 ^ 52"
    proof -
      have "real m * u / (2 * 10 ^ 16) < u / 4" using u by (simp add: that field_simps)
      then show ?thesis using err unfolding u_def [symmetric] by linarith
    qed
  qed
qed

section \<open>Digit strings\<close>

lemma digit_char_isdigit [simp]: "d < 10 \<Longrightarrow> isdigit (digit_char d)"
  by (simp add: isdigit_def digit_char_def Let_def)

lemma digit_val_char [simp]: "d < 10 \<Longrightarrow> digit_val (digit_char d) = d"
  by (simp add: digit_val_def digit_char_def)

lemma digit_char_0_iff [simp]: "d < 10 \<Longrightarrow> digit_char d = CHR ''0'' \<longleftrightarrow> d = 0"
proof -
  assume d: "d < 10"
  have "digit_val CHR ''0'' = 0" by (simp add: digit_val_def)
  moreover have "digit_char 0 = CHR ''0''" by (simp add: digit_char_def char_of_eq_iff)
  ultimately show ?thesis using digit_val_char [OF d] by auto
qed

lemma digits_val_snoc [simp]: "digits_val [] = 0" "digits_val (s @ [c]) = 10 * digits_val s + digit_val c"
  by (simp_all add: digits_val_def)

lemma digits_val_append: "digits_val (s @ t) = digits_val s * 10 ^ length t + digits_val t"
  by (induction t rule: rev_induct) (simp_all add: append_assoc [symmetric] algebra_simps del: append_assoc)

lemma digits_val_zeros [simp]: "digits_val (replicate k CHR ''0'') = 0"
proof (induction k)
  case (Suc k)
  have "replicate (Suc k) CHR ''0'' = replicate k CHR ''0'' @ [CHR ''0'']" by (simp add: replicate_append_same)
  with Suc show ?case by (simp only: digits_val_snoc) (simp add: digit_val_def)
qed simp

lemma char_at_append: "s \<noteq> [] \<Longrightarrow> char_at (s @ t) 0 = char_at s 0"
  by (cases s) auto

lemma digits_n_facts [simp]:
  "length (digits_n k n) = k" "\<forall>c \<in> set (digits_n k n). isdigit c"
  by (induction k n rule: digits_n.induct) auto

lemma digits_n_val: "n < 10 ^ k \<Longrightarrow> digits_val (digits_n k n) = n"
  by (induction k n rule: digits_n.induct) (simp_all add: div_less_iff_less_mult)

lemma digits_n_first: "10 ^ k \<le> n \<Longrightarrow> n < 10 ^ Suc k \<Longrightarrow> char_at (digits_n (Suc k) n) 0 \<noteq> CHR ''0''"
proof (induction k arbitrary: n)
  case (Suc k)
  have "10 ^ k \<le> n div 10" "n div 10 < 10 ^ Suc k"
    using Suc.prems by (simp_all add: less_eq_div_iff_mult_less_eq div_less_iff_less_mult)
  from Suc.IH [OF this] have "char_at (digits_n (Suc k) (n div 10)) 0 \<noteq> CHR ''0''" .
  moreover have "digits_n (Suc k) (n div 10) \<noteq> []" by simp
  ultimately show ?case unfolding digits_n.simps(2) [of "Suc k"] by (subst char_at_append)
qed (simp add: char_at_def)

lemma show_nat_digits [simp]: "\<forall>c \<in> set (show_nat n). isdigit c"
  by (induction n rule: show_nat.induct) (subst show_nat.simps, auto)

lemma show_nat_val [simp]: "digits_val (show_nat n) = n"
  by (induction n rule: show_nat.induct) (subst show_nat.simps, auto simp: digits_val_def)

lemma strip_zeros_split: "\<exists>k. s = strip_zeros s @ replicate k CHR ''0''"
proof (induction s)
  case (Cons c s)
  then obtain k where k: "s = strip_zeros s @ replicate k CHR ''0''" by blast
  show ?case
  proof (cases "strip_zeros s = [] \<and> c = CHR ''0''")
    case True
    then have "c # s = replicate (Suc k) CHR ''0''" using k by simp
    with True show ?thesis by (auto intro!: exI [of _ "Suc k"])
  next
    case False
    with k show ?thesis by (auto simp: Let_def intro!: exI [of _ k])
  qed
qed simp

lemma strip_zeros_digits: "\<forall>c \<in> set s. P c \<Longrightarrow> \<forall>c \<in> set (strip_zeros s). P c"
  by (metis strip_zeros_split Un_iff set_append)

section \<open>Reading what printf wrote\<close>

text \<open>What may follow a number: nothing that would continue it.\<close>

definition number_stop :: "string \<Rightarrow> bool" where
  "number_stop s \<longleftrightarrow>
     (let c = char_at s 0 in \<not> isdigit c \<and> c \<noteq> CHR ''.'' \<and> to_lower c \<noteq> CHR ''e'' \<and> to_lower c \<noteq> CHR ''x'')"

lemma takeWhile_stop:
  "\<forall>c \<in> set s. P c \<Longrightarrow> \<not> P (char_at r 0) \<Longrightarrow> takeWhile P (s @ r) = s"
  by (cases r) (auto simp: takeWhile_append)

lemma isdigit_NUL [simp]: "\<not> isdigit NUL" by (simp add: isdigit_def)

lemma isdigit_dot [simp]: "\<not> isdigit CHR ''.''" "\<not> isdigit CHR ''e''" by (simp_all add: isdigit_def)

lemma read_mantissa_text:
  assumes "ip \<noteq> []" "\<forall>c \<in> set ip. isdigit c" "\<forall>c \<in> set f. isdigit c"
    and "\<not> isdigit (char_at r 0)" "char_at r 0 \<noteq> CHR ''.''"
  shows "read_mantissa isdigit ((if f = [] then ip else ip @ CHR ''.'' # f) @ r)
    = (ip, f, length (if f = [] then ip else ip @ CHR ''.'' # f))"
proof -
  have "takeWhile isdigit (ip @ r) = ip" "takeWhile isdigit (f @ r) = f"
    using takeWhile_stop [OF assms(2,4)] takeWhile_stop [OF assms(3,4)] by blast+
  moreover have "takeWhile isdigit (ip @ CHR ''.'' # f @ r) = ip"
    by (rule takeWhile_stop) (use assms in simp_all)
  ultimately show ?thesis using assms by (auto simp: read_mantissa_def Let_def)
qed

lemma read_exponent_text:
  assumes "\<not> isdigit (char_at r 0)"
  shows "read_exponent CHR ''e'' (show_exponent x @ r) = (x, length (show_exponent x))"
proof -
  define ds where "ds = (let s = show_nat (nat \<bar>x\<bar>) in if length s < 2 then CHR ''0'' # s else s)"
  have ds: "ds \<noteq> []" "\<forall>c \<in> set ds. isdigit c"
    by (auto simp: ds_def Let_def) (simp add: isdigit_def)
  have "digits_val (CHR ''0'' # s) = digits_val s" for s by (simp add: digits_val_def digit_val_def)
  then have val: "digits_val ds = nat \<bar>x\<bar>" by (simp add: ds_def Let_def)
  have tw: "takeWhile isdigit (ds @ r) = ds" using ds assms by (intro takeWhile_stop) auto
  have t: "show_exponent x = CHR ''e'' # (if x < 0 then CHR ''-'' else CHR ''+'') # ds"
    by (simp add: show_exponent_def ds_def)
  show ?thesis
    by (auto simp: read_exponent_def t to_lower_def tw ds val Let_def numeral_2_eq_2)
qed

lemma read_exponent_none: "to_lower (char_at r 0) \<noteq> CHR ''e'' \<Longrightarrow> read_exponent CHR ''e'' r = (0, 0)"
  by (simp add: read_exponent_def)

text \<open>The unsigned text of a number: digits, a fraction without trailing zeros, an exponent.\<close>

definition number_text :: "string \<Rightarrow> string \<Rightarrow> int option \<Rightarrow> string" where
  "number_text ip fp x = with_fraction ip fp @ (case x of None \<Rightarrow> [] | Some x \<Rightarrow> show_exponent x)"

definition number_value :: "string \<Rightarrow> string \<Rightarrow> int option \<Rightarrow> real" where
  "number_value ip fp x =
     real (digits_val (ip @ fp)) * 10 powi ((case x of None \<Rightarrow> 0 | Some x \<Rightarrow> x) - int (length fp))"

lemma number_value_strip: "number_value ip (strip_zeros fp) x = number_value ip fp x"
proof -
  obtain k where k: "fp = strip_zeros fp @ replicate k CHR ''0''" using strip_zeros_split by blast
  define f where "f = strip_zeros fp"
  have fp: "fp = f @ replicate k CHR ''0''" using k by (simp add: f_def)
  define e where "e = (case x of None \<Rightarrow> 0 | Some x \<Rightarrow> x)"
  have "digits_val (ip @ fp) = digits_val (ip @ f) * 10 ^ k"
    unfolding fp by (simp only: append_assoc [symmetric] digits_val_append [of "ip @ f"]) simp
  moreover have "(10 :: real) powi (e - int (length f)) = 10 ^ k * 10 powi (e - int (length fp))"
    using power_int_add [of "10 :: real" "int k" "e - int (length fp)"] by (simp add: fp)
  ultimately show ?thesis by (simp add: number_value_def f_def [symmetric] e_def [symmetric])
qed

lemma read_decimal_text:
  assumes "ip \<noteq> []" "\<forall>c \<in> set ip. isdigit c" "\<forall>c \<in> set fp. isdigit c" "number_stop r"
  shows "\<exists>n d. 0 < d \<and> real n / real d = number_value ip fp x \<and>
    read_decimal neg (number_text ip fp x @ r) = Some (to_double neg n d, length (number_text ip fp x))"
proof -
  define f where "f = strip_zeros fp"
  have f: "\<forall>c \<in> set f. isdigit c" unfolding f_def by (rule strip_zeros_digits [OF assms(3)])
  define e where "e = (case x of None \<Rightarrow> 0 | Some x \<Rightarrow> x)"
  define et where "et = (case x of None \<Rightarrow> [] | Some x \<Rightarrow> show_exponent x)"
  have stop: "\<not> isdigit (char_at r 0)" "char_at r 0 \<noteq> CHR ''.''" "to_lower (char_at r 0) \<noteq> CHR ''e''"
    using assms(4) by (simp_all add: number_stop_def Let_def)
  have ex: "read_exponent CHR ''e'' (et @ r) = (e, length et)"
    using stop by (cases x) (simp_all add: e_def et_def read_exponent_text read_exponent_none)
  have "\<not> isdigit (char_at (et @ r) 0)" "char_at (et @ r) 0 \<noteq> CHR ''.''"
    using stop by (auto simp: et_def show_exponent_def split: option.split)
  note read_mantissa_text [OF assms(1,2) f this]
  have nt: "number_text ip fp x = with_fraction ip fp @ et" by (simp add: number_text_def et_def)
  have man: "read_mantissa isdigit (with_fraction ip fp @ et @ r) = (ip, f, length (with_fraction ip fp))"
    using \<open>read_mantissa isdigit _ = _\<close> by (simp add: with_fraction_def f_def [symmetric] Let_def)
  have len: "length (with_fraction ip fp) \<noteq> 0" using assms(1) by (simp add: with_fraction_def Let_def)
  obtain n d where nd: "num_den 10 (digits_val (ip @ f)) (e - int (length f)) = (n, d)" by fastforce
  have "0 < d \<and> real n / real d = number_value ip fp x"
    using num_den_value [OF nd] number_value_strip [of ip fp x]
    by (simp add: number_value_def f_def [symmetric] e_def [symmetric])
  moreover have "read_decimal neg (number_text ip fp x @ r) = Some (to_double neg n d, length (number_text ip fp x))"
    using len by (simp add: read_decimal_def nt man ex nd)
  ultimately show ?thesis by blast
qed

lemma digits_n_zero: "digits_n k 0 = replicate k CHR ''0''"
proof (induction k)
  case (Suc k)
  have z: "digit_char 0 = CHR ''0''" by (simp add: digit_char_def char_of_eq_iff)
  have "digits_n (Suc k) 0 = replicate k CHR ''0'' @ [digit_char 0]" using Suc by simp
  then show ?case unfolding z by (simp add: replicate_append_same)
qed simp

text \<open>The shape of the text \<open>%1.17g\<close> writes: no leading zero except before the point.\<close>

lemma printf_17g_shape:
  assumes "num_den 2 m e = (n, d)" "sig_digits n d = (r, x)" "r < 10 ^ 17" "r = 0 \<and> x = 0 \<or> 10 ^ 16 \<le> r"
  shows "\<exists>ip fp xo. printf_17g (Fin neg m e) = sign_text neg @ number_text ip fp xo \<and>
     ip \<noteq> [] \<and> (\<forall>c \<in> set ip. isdigit c) \<and> (\<forall>c \<in> set fp. isdigit c) \<and>
     number_value ip fp xo = real r * 10 powi (x - 16) \<and>
     (ip = ''0'' \<and> xo = None \<or> char_at ip 0 \<noteq> CHR ''0'')"
proof -
  define s where "s = digits_n 17 r"
  have s: "length s = 17" "\<forall>c \<in> set s. isdigit c" "digits_val s = r"
    using assms(3) by (simp_all add: s_def digits_n_val)
  have z: "isdigit CHR ''0''" "digits_val ''0'' = 0" by (simp_all add: isdigit_def digits_val_def digit_val_def)
  have dig: "\<forall>c \<in> set (take k s). isdigit c" "\<forall>c \<in> set (drop k s). isdigit c" for k
    using s(2) by (auto dest: in_set_takeD in_set_dropD)
  have P: "printf_17g (Fin neg m e) = sign_text neg @
     (if -4 \<le> x \<and> x < 17 then
            (if 0 \<le> x then with_fraction (take (nat x + 1) s) (drop (nat x + 1) s)
             else with_fraction ''0'' (replicate (nat (- x) - 1) CHR ''0'' @ s))
          else with_fraction (take 1 s) (drop 1 s) @ show_exponent x)"
    using assms(1,2) by (simp add: s_def Let_def)
  have first: "char_at (take (Suc k) s) 0 = char_at s 0" for k
    using s(1) by (simp add: char_at_def)
  have lead: "10 ^ 16 \<le> r \<Longrightarrow> char_at s 0 \<noteq> CHR ''0''"
    using digits_n_first [of 16 r] assms(3) by (simp add: s_def del: digits_n.simps)
  consider (int) "0 \<le> x" "x < 17" | (small) "-4 \<le> x" "x < 0" | (exp) "x < -4 \<or> 17 \<le> x" by linarith
  then show ?thesis
  proof cases
    case int
    define k where "k = nat x"
    have k: "x = int k" "k < 17" using int by (simp_all add: k_def)
    have "take (Suc k) s = ''0''" if "r = 0"
    proof -
      have "s = replicate 17 CHR ''0''" unfolding s_def that by (rule digits_n_zero)
      moreover have "k = 0" using that assms(4) k by auto
      ultimately show ?thesis by simp
    qed
    then have "take (Suc k) s = ''0'' \<or> char_at (take (Suc k) s) 0 \<noteq> CHR ''0''"
      using assms(4) lead first by auto
    moreover have "number_value (take (Suc k) s) (drop (Suc k) s) None = real r * 10 powi (x - 16)"
      using s(1,3) k by (simp add: number_value_def of_nat_diff)
    ultimately show ?thesis
      using s(1) dig int unfolding P k(1)
      by (intro exI [of _ "take (Suc k) s"] exI [of _ "drop (Suc k) s"] exI [of _ None]) (auto simp: number_text_def)
  next
    case small
    define fp where "fp = replicate (nat (- x) - 1) CHR ''0'' @ s"
    have "digits_val (''0'' @ fp) = r"
      by (simp only: fp_def digits_val_append z digits_val_zeros s mult_0 add_0)
    moreover have "int (length fp) = 16 - x" using small s(1) by (simp add: fp_def)
    ultimately have "number_value ''0'' fp None = real r * 10 powi (x - 16)"
      by (simp add: number_value_def)
    moreover have "\<forall>c \<in> set fp. isdigit c" using s(2) z by (auto simp: fp_def)
    ultimately show ?thesis
      using small z unfolding P fp_def [symmetric]
      by (intro exI [of _ "''0''"] exI [of _ fp] exI [of _ None]) (auto simp: number_text_def)
  next
    case exp
    then have "10 ^ 16 \<le> r" using assms(4) by auto
    then have "char_at (take 1 s) 0 \<noteq> CHR ''0''" using lead first [of 0] by simp
    moreover have "number_value (take 1 s) (drop 1 s) (Some x) = real r * 10 powi (x - 16)"
      using s(1,3) by (simp add: number_value_def)
    ultimately show ?thesis
      using s(1) dig exp unfolding P
      by (intro exI [of _ "take 1 s"] exI [of _ "drop 1 s"] exI [of _ "Some x"]) (auto simp: number_text_def)
  qed
qed

lemma isdigit_not:
  assumes "isdigit c"
  shows "\<not> isspace c" "c \<noteq> CHR ''-''" "c \<noteq> CHR ''+''" "to_lower c \<noteq> CHR ''i''" "to_lower c \<noteq> CHR ''n''"
    "c \<noteq> CHR ''x''" "c \<noteq> CHR ''X''" "c \<noteq> NUL" "c \<noteq> CHR ''.''" "to_lower c \<noteq> CHR ''x''"
proof -
  show "\<not> isspace c" using assms by (auto simp: isdigit_def isspace_def Let_def)
  have tl: "to_lower c = c" using assms by (auto simp: isdigit_def to_lower_def Let_def)
  show "c \<noteq> CHR ''-''" "c \<noteq> CHR ''+''" "c \<noteq> CHR ''x''" "c \<noteq> CHR ''X''" "c \<noteq> NUL" "c \<noteq> CHR ''.''"
    using assms by (auto simp: isdigit_def)
  show "to_lower c \<noteq> CHR ''i''" "to_lower c \<noteq> CHR ''n''" "to_lower c \<noteq> CHR ''x''"
    unfolding tl using assms by (auto simp: isdigit_def)
qed

lemma number_text_cons:
  assumes "ip \<noteq> []" "\<forall>c \<in> set ip. isdigit c"
  obtains c s where "number_text ip fp xo = c # s" "isdigit c" "char_at ip 0 = c"
proof -
  obtain c s where ip: "ip = c # s" using assms(1) by (cases ip) auto
  have "\<exists>t. number_text ip fp xo = c # t"
    by (simp add: ip number_text_def with_fraction_def Let_def)
  then show thesis using that [of c] assms(2) by (auto simp: ip)
qed

lemma number_text_not_hex:
  assumes "ip \<noteq> []" "\<forall>c \<in> set ip. isdigit c" "number_stop r"
    and "ip = ''0'' \<and> xo = None \<or> char_at ip 0 \<noteq> CHR ''0''"
  shows "\<not> has_prefix_ci ''0x'' (number_text ip fp xo @ r)"
  using assms(4)
proof
  assume z: "ip = ''0'' \<and> xo = None"
  show ?thesis
  proof (cases "strip_zeros fp")
    case Nil
    with z assms(3) show ?thesis
      by (cases r) (auto simp: has_prefix_ci_def number_text_def with_fraction_def number_stop_def Let_def)
  next
    case (Cons c s)
    with z show ?thesis
      by (auto simp: has_prefix_ci_def number_text_def with_fraction_def Let_def to_lower_def)
  qed
next
  assume nz: "char_at ip 0 \<noteq> CHR ''0''"
  obtain c s where c: "number_text ip fp xo = c # s" "isdigit c" "char_at ip 0 = c"
    using number_text_cons [OF assms(1,2)] by blast
  have "to_lower c = c" using c(2) by (auto simp: isdigit_def to_lower_def Let_def)
  with c nz show ?thesis by (simp add: has_prefix_ci_def)
qed

lemma strtod_text:
  assumes "ip \<noteq> []" "\<forall>c \<in> set ip. isdigit c" "\<forall>c \<in> set fp. isdigit c" "number_stop r"
    and "ip = ''0'' \<and> xo = None \<or> char_at ip 0 \<noteq> CHR ''0''"
  shows "\<exists>n d. 0 < d \<and> real n / real d = number_value ip fp xo \<and>
    strtod ((sign_text neg @ number_text ip fp xo) @ r) =
      (to_double neg n d, length (sign_text neg @ number_text ip fp xo), \<not> is_finite (to_double neg n d))"
proof -
  obtain n d where nd: "0 < d" "real n / real d = number_value ip fp xo"
    "read_decimal neg (number_text ip fp xo @ r) = Some (to_double neg n d, length (number_text ip fp xo))"
    using read_decimal_text [OF assms(1-4)] by blast
  obtain c s where c: "number_text ip fp xo = c # s" "isdigit c"
    using number_text_cons [OF assms(1,2)] by blast
  have sp: "read_special neg (number_text ip fp xo @ r) = None"
    using isdigit_not [OF c(2)] by (simp add: c(1) read_special_def has_prefix_ci_def)
  have hx: "read_hex neg (number_text ip fp xo @ r) = None"
    using number_text_not_hex [OF assms(1,2,4,5)] by (simp add: read_hex_def)
  have ns: "\<not> isspace CHR ''-''" by (simp add: isspace_def)
  have "strtod ((sign_text neg @ number_text ip fp xo) @ r) =
      (to_double neg n d, length (sign_text neg @ number_text ip fp xo), \<not> is_finite (to_double neg n d))"
    using sp hx nd(3) isdigit_not [OF c(2)] ns unfolding c(1)
    by (cases neg) (simp_all add: strtod_def sign_text_def Let_def)
  with nd show ?thesis by blast
qed

lemma canonical_zero: "canonical 0 e \<Longrightarrow> e = -1074"
  by (simp add: canonical_def)

lemma sig_digits_zero: "sig_digits 0 d = (0, 0)"
  by (simp add: sig_digits_def)

lemma canonical_digits:
  assumes "num_den 2 m e = (n, d)" "sig_digits n d = (r, x)"
  shows "r < 10 ^ 17 \<and> (r = 0 \<and> x = 0 \<or> 10 ^ 16 \<le> r)"
proof (cases "n = 0")
  case True
  with assms show ?thesis by (simp add: sig_digits_zero)
next
  case False
  have "0 < d" using num_den_value(1) [OF assms(1)] by simp
  with False sig_digits_bounds [of n d r x] assms(2) show ?thesis by simp
qed

lemma strtod_printf:
  assumes can: "canonical m e" and "number_stop rest"
  shows "strtod (printf_17g (Fin neg m e) @ rest) = (Fin neg m e, length (printf_17g (Fin neg m e)), False)"
proof -
  obtain n d where nd: "num_den 2 m e = (n, d)" by fastforce
  obtain r x where rx: "sig_digits n d = (r, x)" by fastforce
  note r = canonical_digits [OF nd rx]
  obtain ip fp xo where t: "printf_17g (Fin neg m e) = sign_text neg @ number_text ip fp xo" "ip \<noteq> []"
     "\<forall>c \<in> set ip. isdigit c" "\<forall>c \<in> set fp. isdigit c"
     "number_value ip fp xo = real r * 10 powi (x - 16)"
     "ip = ''0'' \<and> xo = None \<or> char_at ip 0 \<noteq> CHR ''0''"
    using printf_17g_shape [OF nd rx] r by blast
  obtain n' d' where n': "0 < d'" "real n' / real d' = number_value ip fp xo"
    "strtod ((sign_text neg @ number_text ip fp xo) @ rest) =
      (to_double neg n' d', length (sign_text neg @ number_text ip fp xo), \<not> is_finite (to_double neg n' d'))"
    using strtod_text [OF t(2-4) assms(2) t(6)] by blast
  have "to_double neg n' d' = Fin neg m e"
  proof (cases "m = 0")
    case True
    then have "n = 0" using nd by (auto simp: num_den_def split: if_splits)
    then have "r = 0" using rx by (simp add: sig_digits_zero)
    then have "n' = 0" using n' t(5) by simp
    then show ?thesis using True canonical_zero can by (simp add: to_double_def)
  next
    case False
    then show ?thesis
      using n' t(5) by (intro digits_determine [OF can _ rx nd]) simp_all
  qed
  then show ?thesis using n'(3) unfolding t(1) by simp
qed

end
