(* ===== verification/Parson_Value.thy ===== *)
theory Parson_Value
  imports Parson_Object Parson_Text C_Double
begin

text \<open>
  The values of src/src/parson.c and the functions on them that need no recursion: the
  constructors, the type tests, the readers of objects and arrays, and the writers
  \<open>json_object_set_*\<close>, \<open>json_array_append_*\<close> and \<open>json_array_replace_*\<close>.  A pointer that
  may be NULL is an option.  A value is a tree; the \<open>parent\<close> pointer shows only as the test
  \<open>value->parent\<close>, an argument \<open>has_parent\<close> of the functions that make it, false for a value the
  caller has just created.  A function that changes an object or array returns it changed.
  \<open>mem\<close> grants the memory of tables and item arrays, the requests whose size depends on the data;
  the requests for a \<open>JSON_Value\<close> or the copy of a string are granted.
\<close>

section \<open>Values\<close>

datatype 'v json_array = JSON_Array (array_items: "'v list") (array_capacity: nat)

datatype json_value =
    JNull
  | JBoolean bool
  | JNumber double
  | JString string
  | JArray "json_value json_array"
  | JObject "json_value json_object"

datatype json_value_type =
    JSONError | JSONNull | JSONString | JSONNumber | JSONObject | JSONArray | JSONBoolean

type_synonym json_obj = "json_value json_object"
type_synonym json_arr = "json_value json_array"

fun json_value_get_type :: "json_value option \<Rightarrow> json_value_type" where
  "json_value_get_type None = JSONError"
| "json_value_get_type (Some JNull) = JSONNull"
| "json_value_get_type (Some (JBoolean _)) = JSONBoolean"
| "json_value_get_type (Some (JNumber _)) = JSONNumber"
| "json_value_get_type (Some (JString _)) = JSONString"
| "json_value_get_type (Some (JArray _)) = JSONArray"
| "json_value_get_type (Some (JObject _)) = JSONObject"

definition json_value_get_object :: "json_value option \<Rightarrow> json_obj option" where
  "json_value_get_object v = (case v of Some (JObject obj) \<Rightarrow> Some obj | _ \<Rightarrow> None)"

definition json_value_get_array :: "json_value option \<Rightarrow> json_arr option" where
  "json_value_get_array v = (case v of Some (JArray a) \<Rightarrow> Some a | _ \<Rightarrow> None)"

definition json_value_get_string_desc :: "json_value option \<Rightarrow> string option" where
  "json_value_get_string_desc v = (case v of Some (JString s) \<Rightarrow> Some s | _ \<Rightarrow> None)"

definition json_value_get_string :: "json_value option \<Rightarrow> string option" where
  "json_value_get_string v = map_option cstr (json_value_get_string_desc v)"

definition json_value_get_string_len :: "json_value option \<Rightarrow> nat" where
  "json_value_get_string_len v = (case json_value_get_string_desc v of Some s \<Rightarrow> length s | None \<Rightarrow> 0)"

abbreviation zero_double :: double where
  "zero_double \<equiv> Fin False 0 (-1074)"

definition json_value_get_number :: "json_value option \<Rightarrow> double" where
  "json_value_get_number v = (case v of Some (JNumber x) \<Rightarrow> x | _ \<Rightarrow> zero_double)"

definition json_value_get_boolean :: "json_value option \<Rightarrow> int" where
  "json_value_get_boolean v = (case v of Some (JBoolean b) \<Rightarrow> of_bool b | _ \<Rightarrow> -1)"

text \<open>The short names of the readers; those for objects and arrays clash with the types.\<close>

definition json_type :: "json_value option \<Rightarrow> json_value_type" where
  "json_type v = json_value_get_type v"

definition json_object_of :: "json_value option \<Rightarrow> json_obj option" where
  "json_object_of v = json_value_get_object v"

definition json_array_of :: "json_value option \<Rightarrow> json_arr option" where
  "json_array_of v = json_value_get_array v"

definition json_string :: "json_value option \<Rightarrow> string option" where
  "json_string v = json_value_get_string v"

definition json_string_len :: "json_value option \<Rightarrow> nat" where
  "json_string_len v = json_value_get_string_len v"

definition json_number :: "json_value option \<Rightarrow> double" where
  "json_number v = json_value_get_number v"

definition json_boolean :: "json_value option \<Rightarrow> int" where
  "json_boolean v = json_value_get_boolean v"

section \<open>Constructors\<close>

definition json_object_make :: json_obj where
  "json_object_make = JSON_Object [] [] [] [] [] 0 0"

definition json_value_init_object :: json_value where
  "json_value_init_object = JObject json_object_make"

definition json_array_make :: json_arr where
  "json_array_make = JSON_Array [] 0"

definition json_value_init_array :: json_value where
  "json_value_init_array = JArray json_array_make"

definition json_value_init_string_no_copy :: "string \<Rightarrow> json_value" where
  "json_value_init_string_no_copy s = JString s"

text \<open>
  \<open>string\<close> is the memory from the pointer on; the UTF-8 check and the copy end at
  \<open>length\<close> bytes, but the check may read up to three bytes further.
\<close>

definition json_value_init_string_with_len :: "string option \<Rightarrow> nat \<Rightarrow> json_value option" where
  "json_value_init_string_with_len str len =
     (case str of
        None \<Rightarrow> None
      | Some s \<Rightarrow>
          if \<not> is_valid_utf8 s len then None
          else Some (json_value_init_string_no_copy (take len s)))"

definition json_value_init_string :: "string option \<Rightarrow> json_value option" where
  "json_value_init_string str =
     (case str of None \<Rightarrow> None | Some s \<Rightarrow> json_value_init_string_with_len (Some s) (length s))"

definition json_value_init_number :: "double \<Rightarrow> json_value option" where
  "json_value_init_number x = (if \<not> is_finite x then None else Some (JNumber x))"

definition json_value_init_boolean :: "int \<Rightarrow> json_value" where
  "json_value_init_boolean b = JBoolean (b \<noteq> 0)"

definition json_value_init_null :: json_value where
  "json_value_init_null = JNull"

section \<open>Reading objects\<close>

definition json_object_get_value :: "json_obj option \<Rightarrow> string option \<Rightarrow> json_value option" where
  "json_object_get_value obj name =
     (case (obj, name) of
        (Some obj, Some name) \<Rightarrow> json_object_getn_value obj name (length name)
      | _ \<Rightarrow> None)"

definition json_object_get_string :: "json_obj option \<Rightarrow> string option \<Rightarrow> string option" where
  "json_object_get_string obj name = json_value_get_string (json_object_get_value obj name)"

definition json_object_get_string_len :: "json_obj option \<Rightarrow> string option \<Rightarrow> nat" where
  "json_object_get_string_len obj name = json_value_get_string_len (json_object_get_value obj name)"

definition json_object_get_number :: "json_obj option \<Rightarrow> string option \<Rightarrow> double" where
  "json_object_get_number obj name = json_value_get_number (json_object_get_value obj name)"

definition json_object_get_object :: "json_obj option \<Rightarrow> string option \<Rightarrow> json_obj option" where
  "json_object_get_object obj name = json_value_get_object (json_object_get_value obj name)"

definition json_object_get_array :: "json_obj option \<Rightarrow> string option \<Rightarrow> json_arr option" where
  "json_object_get_array obj name = json_value_get_array (json_object_get_value obj name)"

definition json_object_get_boolean :: "json_obj option \<Rightarrow> string option \<Rightarrow> int" where
  "json_object_get_boolean obj name = json_value_get_boolean (json_object_get_value obj name)"

definition json_object_has_value :: "json_obj option \<Rightarrow> string option \<Rightarrow> bool" where
  "json_object_has_value obj name \<longleftrightarrow> json_object_get_value obj name \<noteq> None"

definition json_object_has_value_of_type ::
  "json_obj option \<Rightarrow> string option \<Rightarrow> json_value_type \<Rightarrow> bool" where
  "json_object_has_value_of_type obj name type \<longleftrightarrow>
     (let val = json_object_get_value obj name in val \<noteq> None \<and> json_value_get_type val = type)"

section \<open>Arrays\<close>

definition json_array_get_count :: "json_arr option \<Rightarrow> nat" where
  "json_array_get_count a = (case a of Some a \<Rightarrow> length (array_items a) | None \<Rightarrow> 0)"

definition json_array_get_value :: "json_arr option \<Rightarrow> nat \<Rightarrow> json_value option" where
  "json_array_get_value a i =
     (case a of
        None \<Rightarrow> None
      | Some arr \<Rightarrow> if json_array_get_count a \<le> i then None else Some (array_items arr ! i))"

definition json_array_get_string :: "json_arr option \<Rightarrow> nat \<Rightarrow> string option" where
  "json_array_get_string a i = json_value_get_string (json_array_get_value a i)"

definition json_array_get_string_len :: "json_arr option \<Rightarrow> nat \<Rightarrow> nat" where
  "json_array_get_string_len a i = json_value_get_string_len (json_array_get_value a i)"

definition json_array_get_number :: "json_arr option \<Rightarrow> nat \<Rightarrow> double" where
  "json_array_get_number a i = json_value_get_number (json_array_get_value a i)"

definition json_array_get_object :: "json_arr option \<Rightarrow> nat \<Rightarrow> json_obj option" where
  "json_array_get_object a i = json_value_get_object (json_array_get_value a i)"

definition json_array_get_array :: "json_arr option \<Rightarrow> nat \<Rightarrow> json_arr option" where
  "json_array_get_array a i = json_value_get_array (json_array_get_value a i)"

definition json_array_get_boolean :: "json_arr option \<Rightarrow> nat \<Rightarrow> int" where
  "json_array_get_boolean a i = json_value_get_boolean (json_array_get_value a i)"

text \<open>
  The items array is a list of the \<open>count\<close> live entries; the capacity never falls below it.
\<close>

definition json_array_resize ::
  "(nat \<Rightarrow> bool) \<Rightarrow> 'v json_array \<Rightarrow> nat \<Rightarrow> json_error + 'v json_array" where
  "json_array_resize mem a new_capacity =
     (if new_capacity = 0 then Inl JSONFailure
      else if \<not> mem (new_capacity * 8) then Inl JSONFailure
      else Inr (JSON_Array (array_items a) new_capacity))"

definition json_array_add ::
  "(nat \<Rightarrow> bool) \<Rightarrow> 'v json_array \<Rightarrow> 'v \<Rightarrow> json_error + 'v json_array" where
  "json_array_add mem a v =
     (case (if length (array_items a) \<ge> array_capacity a
            then json_array_resize mem a (max (array_capacity a * 2) STARTING_CAPACITY)
            else Inr a) of
        Inl e \<Rightarrow> Inl e
      | Inr a' \<Rightarrow> Inr (JSON_Array (array_items a' @ [v]) (array_capacity a')))"

definition json_array_remove :: "json_arr option \<Rightarrow> nat \<Rightarrow> json_error + json_arr" where
  "json_array_remove a ix =
     (case a of
        None \<Rightarrow> Inl JSONFailure
      | Some arr \<Rightarrow>
          if json_array_get_count a \<le> ix then Inl JSONFailure
          else Inr (JSON_Array (take ix (array_items arr) @ drop (Suc ix) (array_items arr))
                 (array_capacity arr)))"

definition json_array_replace_value ::
  "json_arr option \<Rightarrow> nat \<Rightarrow> json_value option \<Rightarrow> bool \<Rightarrow> json_error + json_arr" where
  "json_array_replace_value a ix v has_parent =
     (case (a, v) of
        (Some arr, Some v) \<Rightarrow>
          if has_parent \<or> json_array_get_count a \<le> ix then Inl JSONFailure
          else Inr (JSON_Array ((array_items arr)[ix := v]) (array_capacity arr))
      | _ \<Rightarrow> Inl JSONFailure)"

definition json_array_replace_string :: "json_arr option \<Rightarrow> nat \<Rightarrow> string option \<Rightarrow> json_error + json_arr" where
  "json_array_replace_string a i str =
     (case json_value_init_string str of
        None \<Rightarrow> Inl JSONFailure
      | Some v \<Rightarrow> json_array_replace_value a i (Some v) False)"

definition json_array_replace_string_with_len ::
  "json_arr option \<Rightarrow> nat \<Rightarrow> string option \<Rightarrow> nat \<Rightarrow> json_error + json_arr" where
  "json_array_replace_string_with_len a i str len =
     (case json_value_init_string_with_len str len of
        None \<Rightarrow> Inl JSONFailure
      | Some v \<Rightarrow> json_array_replace_value a i (Some v) False)"

definition json_array_replace_number :: "json_arr option \<Rightarrow> nat \<Rightarrow> double \<Rightarrow> json_error + json_arr" where
  "json_array_replace_number a i x =
     (case json_value_init_number x of
        None \<Rightarrow> Inl JSONFailure
      | Some v \<Rightarrow> json_array_replace_value a i (Some v) False)"

definition json_array_replace_boolean :: "json_arr option \<Rightarrow> nat \<Rightarrow> int \<Rightarrow> json_error + json_arr" where
  "json_array_replace_boolean a i b =
     json_array_replace_value a i (Some (json_value_init_boolean b)) False"

definition json_array_replace_null :: "json_arr option \<Rightarrow> nat \<Rightarrow> json_error + json_arr" where
  "json_array_replace_null a i = json_array_replace_value a i (Some json_value_init_null) False"

definition json_array_clear :: "json_arr option \<Rightarrow> json_error + json_arr" where
  "json_array_clear a =
     (case a of None \<Rightarrow> Inl JSONFailure | Some arr \<Rightarrow> Inr (JSON_Array [] (array_capacity arr)))"

definition json_array_append_value ::
  "(nat \<Rightarrow> bool) \<Rightarrow> json_arr option \<Rightarrow> json_value option \<Rightarrow> bool \<Rightarrow> json_error + json_arr" where
  "json_array_append_value mem a v has_parent =
     (case (a, v) of
        (Some arr, Some v) \<Rightarrow> if has_parent then Inl JSONFailure else json_array_add mem arr v
      | _ \<Rightarrow> Inl JSONFailure)"

definition json_array_append_string ::
  "(nat \<Rightarrow> bool) \<Rightarrow> json_arr option \<Rightarrow> string option \<Rightarrow> json_error + json_arr" where
  "json_array_append_string mem a str =
     (case json_value_init_string str of
        None \<Rightarrow> Inl JSONFailure
      | Some v \<Rightarrow> json_array_append_value mem a (Some v) False)"

definition json_array_append_string_with_len ::
  "(nat \<Rightarrow> bool) \<Rightarrow> json_arr option \<Rightarrow> string option \<Rightarrow> nat \<Rightarrow> json_error + json_arr" where
  "json_array_append_string_with_len mem a str len =
     (case json_value_init_string_with_len str len of
        None \<Rightarrow> Inl JSONFailure
      | Some v \<Rightarrow> json_array_append_value mem a (Some v) False)"

definition json_array_append_number ::
  "(nat \<Rightarrow> bool) \<Rightarrow> json_arr option \<Rightarrow> double \<Rightarrow> json_error + json_arr" where
  "json_array_append_number mem a x =
     (case json_value_init_number x of
        None \<Rightarrow> Inl JSONFailure
      | Some v \<Rightarrow> json_array_append_value mem a (Some v) False)"

definition json_array_append_boolean ::
  "(nat \<Rightarrow> bool) \<Rightarrow> json_arr option \<Rightarrow> int \<Rightarrow> json_error + json_arr" where
  "json_array_append_boolean mem a b =
     json_array_append_value mem a (Some (json_value_init_boolean b)) False"

definition json_array_append_null :: "(nat \<Rightarrow> bool) \<Rightarrow> json_arr option \<Rightarrow> json_error + json_arr" where
  "json_array_append_null mem a = json_array_append_value mem a (Some json_value_init_null) False"

section \<open>Writing objects\<close>

text \<open>\<open>json_object_set_value\<close> with its NULL tests, on the table of the object theory.\<close>

definition object_set_value ::
  "(nat \<Rightarrow> bool) \<Rightarrow> json_obj option \<Rightarrow> string option \<Rightarrow> json_value option \<Rightarrow> bool \<Rightarrow> json_value json_status" where
  "object_set_value mem obj name v has_parent =
     (case (obj, name, v) of
        (Some obj, Some name, Some v) \<Rightarrow> json_object_set_value mem obj name v has_parent
      | _ \<Rightarrow> Inl JSONFailure)"

definition json_object_set_string ::
  "(nat \<Rightarrow> bool) \<Rightarrow> json_obj option \<Rightarrow> string option \<Rightarrow> string option \<Rightarrow> json_value json_status" where
  "json_object_set_string mem obj name str =
     object_set_value mem obj name (json_value_init_string str) False"

definition json_object_set_string_with_len ::
  "(nat \<Rightarrow> bool) \<Rightarrow> json_obj option \<Rightarrow> string option \<Rightarrow> string option \<Rightarrow> nat \<Rightarrow> json_value json_status" where
  "json_object_set_string_with_len mem obj name str len =
     object_set_value mem obj name (json_value_init_string_with_len str len) False"

definition json_object_set_number ::
  "(nat \<Rightarrow> bool) \<Rightarrow> json_obj option \<Rightarrow> string option \<Rightarrow> double \<Rightarrow> json_value json_status" where
  "json_object_set_number mem obj name x =
     object_set_value mem obj name (json_value_init_number x) False"

definition json_object_set_boolean ::
  "(nat \<Rightarrow> bool) \<Rightarrow> json_obj option \<Rightarrow> string option \<Rightarrow> int \<Rightarrow> json_value json_status" where
  "json_object_set_boolean mem obj name b =
     object_set_value mem obj name (Some (json_value_init_boolean b)) False"

definition json_object_set_null ::
  "(nat \<Rightarrow> bool) \<Rightarrow> json_obj option \<Rightarrow> string option \<Rightarrow> json_value json_status" where
  "json_object_set_null mem obj name =
     object_set_value mem obj name (Some json_value_init_null) False"

definition json_object_remove :: "json_obj \<Rightarrow> string \<Rightarrow> json_value json_status" where
  "json_object_remove obj name = json_object_remove_internal obj name"

end
