(* ===== verification/Parson_RoundTrip.thy ===== *)
theory Parson_RoundTrip
  imports Parson_Json
begin

text \<open>
  Reading back what the serializer of src/src/parson.c wrote.  The text of a number is a decimal the parser
  accepts; the loops over elements and members are followed through the commas, line breaks and
  indentation of both layouts; the induction on the size of the value closes the proof for every
  nesting the parser allows.
\<close>

section \<open>Parsing what was serialized\<close>

lemma number_text_chars:
  assumes "\<forall>c \<in> set ip. isdigit c" "\<forall>c \<in> set fp. isdigit c" "c \<in> set (number_text ip fp xo)"
  shows "c \<noteq> CHR ''x''" "c \<noteq> CHR ''X''" "c \<noteq> NUL"
proof -
  have f: "c \<in> set (strip_zeros fp) \<Longrightarrow> isdigit c" using strip_zeros_digits [OF assms(2)] by blast
  have sn: "c \<in> set (show_nat k) \<Longrightarrow> isdigit c" for k using show_nat_digits by blast
  have z: "isdigit CHR ''0''" by (simp add: isdigit_def)
  have "c \<in> set (with_fraction ip fp) \<Longrightarrow> isdigit c \<or> c = CHR ''.''"
    using assms(1) f by (auto simp: with_fraction_def Let_def split: if_splits)
  moreover have "c \<in> set (show_exponent x) \<Longrightarrow> isdigit c \<or> c = CHR ''e'' \<or> c = CHR ''+'' \<or> c = CHR ''-''" for x
    by (auto simp: show_exponent_def Let_def z dest: sn split: if_splits)
  ultimately have "isdigit c \<or> c = CHR ''.'' \<or> c = CHR ''e'' \<or> c = CHR ''+'' \<or> c = CHR ''-''"
    using assms(3) by (auto simp: number_text_def split: option.splits)
  then show "c \<noteq> CHR ''x''" "c \<noteq> CHR ''X''" "c \<noteq> NUL" by (auto simp: isdigit_def)
qed

lemma is_decimal_text:
  assumes "ip \<noteq> []" "\<forall>c \<in> set ip. isdigit c" "\<forall>c \<in> set fp. isdigit c"
    and lead: "ip = ''0'' \<and> xo = None \<or> char_at ip 0 \<noteq> CHR ''0''"
  shows "is_decimal ((sign_text neg @ number_text ip fp xo) @ rest) (length (sign_text neg @ number_text ip fp xo))"
proof -
  let ?t = "sign_text neg @ number_text ip fp xo"
  have "c \<noteq> CHR ''x'' \<and> c \<noteq> CHR ''X'' \<and> c \<noteq> NUL" if "c \<in> set ?t" for c
    using that number_text_chars [OF assms(2,3), of c xo] by (auto simp: sign_text_def split: if_splits)
  then have chars: "list_all (\<lambda>c. c \<noteq> CHR ''x'' \<and> c \<noteq> CHR ''X'' \<and> c \<noteq> NUL) (take (length ?t) (?t @ rest))"
    by (simp add: list_all_iff)
  obtain c s where t: "number_text ip fp xo = c # s" "isdigit c" "char_at ip 0 = c"
    using number_text_cons [OF assms(1,2)] by blast
  have dot: "s = [] \<or> char_at s 0 = CHR ''.''" if "c = CHR ''0''"
  proof -
    have "ip = ''0'' \<and> xo = None" using lead t(3) that by auto
    then show ?thesis using t(1) by (auto simp: number_text_def with_fraction_def Let_def split: if_splits)
  qed
  have nz: "s \<noteq> [] \<Longrightarrow> char_at (s @ rest) 0 = char_at s 0" by (rule char_at_append)
  have m: "c \<noteq> CHR ''-''" using isdigit_not(2) [OF t(2)] .
  show ?thesis
    using chars dot nz m unfolding is_decimal_def t(1) sign_text_def strncmp_eq_def
    by (cases neg) (auto simp: numeral_2_eq_2)
qed

lemma parse_printed_number:
  assumes "value_ok (JNumber x)" "number_stop rest"
  shows "parse_number_value (printf_17g x @ rest) = Some (JNumber x, rest)"
    and "\<exists>c s. printf_17g x = c # s \<and> (c = CHR ''-'' \<or> isdigit c)"
proof -
  obtain neg m e where x: "x = Fin neg m e" using assms(1) by (cases x) auto
  then have can: "canonical m e" using assms(1) by simp
  obtain n d where nd: "num_den 2 m e = (n, d)" by fastforce
  obtain r k where rk: "sig_digits n d = (r, k)" by fastforce
  note r = canonical_digits [OF nd rk]
  obtain ip fp xo where t: "printf_17g (Fin neg m e) = sign_text neg @ number_text ip fp xo" "ip \<noteq> []"
     "\<forall>c \<in> set ip. isdigit c" "\<forall>c \<in> set fp. isdigit c"
     "ip = ''0'' \<and> xo = None \<or> char_at ip 0 \<noteq> CHR ''0''"
    using printf_17g_shape [OF nd rk] r by blast
  have "is_decimal (printf_17g x @ rest) (length (printf_17g x))"
    unfolding x t(1) by (rule is_decimal_text [OF t(2-5)])
  then show "parse_number_value (printf_17g x @ rest) = Some (JNumber x, rest)"
    using strtod_printf [OF can assms(2), of neg]
    by (simp add: parse_number_value_def x json_value_init_number_def del: printf_17g.simps)
  obtain c s where "number_text ip fp xo = c # s" "isdigit c"
    using number_text_cons [OF t(2,3)] by blast
  then show "\<exists>c s. printf_17g x = c # s \<and> (c = CHR ''-'' \<or> isdigit c)"
    unfolding x t(1) by (auto simp: sign_text_def)
qed

text \<open>How the text of a value starts.\<close>

definition value_start :: "char \<Rightarrow> bool" where
  "value_start c \<longleftrightarrow> c \<in> {CHR ''{'', CHR ''['', CHR 0x22, CHR ''t'', CHR ''f'', CHR ''n'', CHR ''-''} \<or> isdigit c"

lemma value_startD:
  assumes "value_start c"
  shows "\<not> isspace c" "c \<noteq> NUL" "c \<noteq> CHR ''}''" "c \<noteq> CHR '']''" "c \<noteq> CHR '',''"
proof -
  show "\<not> isspace c" using assms isdigit_not(1) by (auto simp: value_start_def isspace_def)
  show "c \<noteq> NUL" "c \<noteq> CHR ''}''" "c \<noteq> CHR '']''" "c \<noteq> CHR '',''"
    using assms by (auto simp: value_start_def isdigit_def)
qed

lemma serialize_start:
  assumes "value_ok v"
  shows "\<exists>c s. json_serialize_to_buffer_r esc pretty level v = c # s \<and> value_start c"
proof (cases v)
  case (JNumber x)
  then show ?thesis using parse_printed_number(2) [of x "[]"] assms
    by (auto simp: value_start_def number_stop_def to_lower_def Let_def simp del: printf_17g.simps)
qed (auto simp: value_start_def json_container_def json_serialize_string_def)

lemma skip_whitespaces_simps [simp]:
  "\<not> isspace c \<Longrightarrow> skip_whitespaces (c # s) = c # s"
  "isspace c \<Longrightarrow> skip_whitespaces (c # s) = skip_whitespaces s"
  by (simp_all add: skip_whitespaces_def)

lemma isspace_literals [simp]: "isspace CHR '' ''" "isspace CHR 0x0A" "\<not> isspace CHR ''}''" "\<not> isspace CHR '']''"
  "\<not> isspace CHR '',''" "\<not> isspace CHR '':''" "\<not> isspace CHR 0x22" "\<not> isspace CHR ''{''" "\<not> isspace CHR ''[''"
  "\<not> isspace CHR ''t''" "\<not> isspace CHR ''f''" "\<not> isspace CHR ''n''" "\<not> isspace CHR ''-''"
  by (simp_all add: isspace_def)

lemma skip_indent [simp]: "skip_whitespaces (json_indent k @ s) = skip_whitespaces s"
  by (induction k) (simp_all add: json_indent_def)

definition gap :: "bool \<Rightarrow> nat \<Rightarrow> string" where
  "gap pretty k = (if pretty then json_indent k else [])"

lemma skip_gap [simp]: "skip_whitespaces (gap pretty k @ s) = skip_whitespaces s"
  by (simp add: gap_def)

lemma members_cons:
  "json_members pretty level (t # ts) = gap pretty (level + 1) @ t @
     (if ts \<noteq> [] then '','' else []) @ (if pretty then [CHR 0x0A] else []) @ json_members pretty level ts"
  by (simp add: gap_def)

lemma number_stop_literals [simp]: "number_stop (CHR '','' # s)" "number_stop (CHR ''}'' # s)"
  "number_stop (CHR '']'' # s)" "number_stop (CHR 0x0A # s)" "number_stop (CHR '' '' # s)" "number_stop []"
  by (simp_all add: number_stop_def isdigit_def to_lower_def Let_def)

lemma number_stop_gap [simp]: "number_stop (gap pretty k @ CHR '']'' # s)" "number_stop (gap pretty k @ CHR ''}'' # s)"
  by (cases k; simp add: gap_def json_indent_def)+

lemma json_array_add_mem: "\<forall>k. mem k \<Longrightarrow> \<exists>a'. json_array_add mem a v = Inr a' \<and> array_items a' = array_items a @ [v]"
  by (auto simp: json_array_add_def json_array_resize_def)

lemma grow_granted_all: "\<forall>k. mem k \<Longrightarrow> grow_granted mem obj"
  by (simp add: grow_granted_def Let_def)

text \<open>What the round trip says of one value, wherever it stands.\<close>

definition reads_back :: "(nat \<Rightarrow> bool) \<Rightarrow> nat \<Rightarrow> string \<Rightarrow> json_value \<Rightarrow> bool" where
  "reads_back mem n t v \<longleftrightarrow> (\<exists>c s. t = c # s \<and> value_start c) \<and>
     (\<forall>r. number_stop r \<longrightarrow> (\<exists>v'. parse_value mem n (t @ r) = Some (v', r) \<and> json_abs v' = json_abs v))"

lemma array_loop_reads_back:
  assumes "\<forall>k. mem k" "vs \<noteq> []" "\<forall>v \<in> set vs. reads_back mem n (f v) v"
  shows "\<exists>a'. parse_array_loop mem n a
      (skip_whitespaces (json_members pretty level (map f vs) @ gap pretty level @ CHR '']'' # rest)) = Some (a', CHR '']'' # rest) \<and>
      map json_abs (array_items a') = map json_abs (array_items a @ vs)"
  using assms(2,3)
proof (induction vs arbitrary: a)
  case (Cons v vs)
  define tail where "tail = (if vs \<noteq> [] then '','' else []) @ (if pretty then [CHR 0x0A] else []) @
    json_members pretty level (map f vs) @ gap pretty level @ CHR '']'' # rest"
  obtain c s where c: "f v = c # s" "value_start c" using Cons.prems(2) by (auto simp: reads_back_def)
  note cs = value_startD [OF c(2)]
  have start: "skip_whitespaces (json_members pretty level (map f (v # vs)) @ gap pretty level @ CHR '']'' # rest) = f v @ tail"
    by (simp only: list.map members_cons) (simp add: tail_def c(1) cs(1))
  have "number_stop tail"
    by (cases vs) (auto simp: tail_def)
  then obtain v' where v': "parse_value mem n (f v @ tail) = Some (v', tail)" "json_abs v' = json_abs v"
    using Cons.prems(2) by (auto simp: reads_back_def)
  obtain a1 where a1: "json_array_add mem a v' = Inr a1" "array_items a1 = array_items a @ [v']"
    using json_array_add_mem [OF assms(1), of a v'] by auto
  have nul: "char_at (f v @ tail) 0 \<noteq> NUL" using c(1) cs(2) by simp
  show ?case
  proof (cases "vs = []")
    case True
    then have "skip_whitespaces tail = CHR '']'' # rest" by (simp add: tail_def)
    then have "parse_array_loop mem n a (f v @ tail) = Some (a1, CHR '']'' # rest)"
      using nul v'(1) a1(1) by (simp add: parse_array_loop.simps [of mem n a "f v @ tail"])
    then show ?thesis unfolding start using True a1(2) v'(2) by auto
  next
    case False
    define nxt where "nxt = skip_whitespaces (json_members pretty level (map f vs) @ gap pretty level @ CHR '']'' # rest)"
    have t: "skip_whitespaces tail = tail" "char_at tail 0 = CHR '',''" "skip_whitespaces (drop 1 tail) = nxt"
      using False by (simp_all add: tail_def nxt_def)
    obtain w ws where ws: "vs = w # ws" using False by (cases vs) auto
    obtain d u where d: "f w = d # u" "value_start d" using Cons.prems(2) ws by (auto simp: reads_back_def)
    have "char_at nxt 0 = d"
      unfolding nxt_def ws list.map members_cons by (simp add: d(1) value_startD(1) [OF d(2)])
    then have "char_at nxt 0 \<noteq> CHR '']''" using value_startD(4) [OF d(2)] by simp
    then have "parse_array_loop mem n a (f v @ tail) = parse_array_loop mem n a1 nxt"
      using nul v'(1) a1(1) t by (simp add: parse_array_loop.simps [of mem n a "f v @ tail"] Let_def del: One_nat_def)
    moreover obtain a2 where "parse_array_loop mem n a1 nxt = Some (a2, CHR '']'' # rest)"
      "map json_abs (array_items a2) = map json_abs (array_items a1 @ vs)"
      using Cons.IH [of a1] False Cons.prems(2) unfolding nxt_def by auto
    ultimately show ?thesis unfolding start using a1(2) v'(2) by auto
  qed
qed simp

definition member_text :: "bool \<Rightarrow> bool \<Rightarrow> string \<Rightarrow> string \<Rightarrow> string" where
  "member_text esc pretty key t =
     json_serialize_string esc key @ '':'' @ (if pretty then '' '' else []) @ t"

lemma parse_value_space [simp]: "parse_value mem n (CHR '' '' # s) = parse_value mem n s"
  by (simp add: parse_value.simps [of mem n "CHR '' '' # s"] parse_value.simps [of mem n s])

lemma member_text_start: "\<exists>s. member_text esc pretty key t = CHR 0x22 # s"
  by (simp add: member_text_def json_serialize_string_def)

lemma object_loop_reads_back:
  assumes "\<forall>k. mem k" "kvs \<noteq> []" "\<forall>(k, v) \<in> set kvs. is_cstring k \<and> reads_back mem n (f v) v"
    "table_ok obj" "distinct (names obj @ map fst kvs)"
  shows "\<exists>obj'. parse_object_loop mem n obj
      (skip_whitespaces (json_members pretty level (map (\<lambda>(k, v). member_text esc pretty k (f v)) kvs) @
         gap pretty level @ CHR ''}'' # rest)) = Some (obj', CHR ''}'' # rest) \<and>
      table_ok obj' \<and> names obj' = names obj @ map fst kvs \<and>
      map json_abs (obj_values obj') = map json_abs (obj_values obj @ map snd kvs)"
  using assms(2-)
proof (induction kvs arbitrary: obj)
  case (Cons kv kvs)
  obtain k v where kv: "kv = (k, v)" by fastforce
  define g where "g = (\<lambda>(k, v). member_text esc pretty k (f v))"
  have k: "is_cstring k" "k \<notin> set (names obj)" and rb: "reads_back mem n (f v) v"
    using Cons.prems kv by auto
  define tail where "tail = (if kvs \<noteq> [] then '','' else []) @ (if pretty then [CHR 0x0A] else []) @
    json_members pretty level (map g kvs) @ gap pretty level @ CHR ''}'' # rest"
  define body where "body = (if pretty then '' '' else []) @ f v @ tail"
  have start: "skip_whitespaces (json_members pretty level (map g (kv # kvs)) @ gap pretty level @ CHR ''}'' # rest)
     = json_serialize_string esc k @ CHR '':'' # body"
    by (simp only: list.map members_cons)
       (simp add: tail_def body_def kv g_def member_text_def json_serialize_string_def)
  have "number_stop tail" by (cases kvs) (auto simp: tail_def)
  then obtain v' where v0: "parse_value mem n (f v @ tail) = Some (v', tail)" "json_abs v' = json_abs v"
    using rb by (auto simp: reads_back_def)
  then have v': "parse_value mem n body = Some (v', tail)" by (simp add: body_def)
  obtain obj1 where o1: "json_object_add mem obj k v' = Inr obj1" "table_ok obj1"
    "obj_items obj1 = obj_items obj @ [(k, v')]"
    using json_object_add_fresh [OF Cons.prems(3) k, of mem v'] grow_granted_all [OF assms(1)] by blast
  note t1 = table_values [OF Cons.prems(3) o1(2,3)]
  have nul: "char_at (json_serialize_string esc k @ CHR '':'' # body) 0 \<noteq> NUL"
    by (simp add: json_serialize_string_def)
  note step = parse_object_loop.simps [of mem n obj "json_serialize_string esc k @ CHR '':'' # body"]
  have ck: "length k = length (cstr k)" using k(1) by simp
  show ?case
  proof (cases "kvs = []")
    case True
    then have "skip_whitespaces tail = CHR ''}'' # rest" by (simp add: tail_def)
    then have "parse_object_loop mem n obj (json_serialize_string esc k @ CHR '':'' # body) = Some (obj1, CHR ''}'' # rest)"
      using nul v' o1(1) ck by (simp add: step string_round_trip)
    then show ?thesis unfolding g_def [symmetric] start
      using True o1(2) t1 v0(2) kv by auto
  next
    case False
    define nxt where "nxt = skip_whitespaces (json_members pretty level (map g kvs) @ gap pretty level @ CHR ''}'' # rest)"
    have t: "skip_whitespaces tail = tail" "char_at tail 0 = CHR '',''" "skip_whitespaces (drop 1 tail) = nxt"
      using False by (simp_all add: tail_def nxt_def)
    obtain w ws where ws: "kvs = w # ws" using False by (cases kvs) auto
    obtain u where u: "g w = CHR 0x22 # u" using member_text_start [of esc pretty "fst w" "f (snd w)"] by (auto simp: g_def split_beta)
    have "char_at nxt 0 = CHR 0x22"
      unfolding nxt_def ws list.map members_cons by (simp add: u)
    then have "char_at nxt 0 \<noteq> CHR ''}''" by simp
    then have "parse_object_loop mem n obj (json_serialize_string esc k @ CHR '':'' # body) = parse_object_loop mem n obj1 nxt"
      using nul v' o1(1) ck t by (simp add: step string_round_trip Let_def del: One_nat_def) simp
    moreover obtain obj2 where "parse_object_loop mem n obj1 nxt = Some (obj2, CHR ''}'' # rest)"
      "table_ok obj2" "names obj2 = names obj1 @ map fst kvs"
      "map json_abs (obj_values obj2) = map json_abs (obj_values obj1 @ map snd kvs)"
      using Cons.IH [of obj1] False Cons.prems(2,4) o1(2) t1 kv unfolding nxt_def g_def by auto
    ultimately show ?thesis unfolding g_def [symmetric] start using t1 v0(2) kv by auto
  qed
qed simp

lemma parse_value_nest:
  assumes "n \<le> MAX_NESTING"
  shows "parse_value mem n (CHR ''{'' # s) = parse_object_value mem (n + 1) (CHR ''{'' # s)"
    "parse_value mem n (CHR ''['' # s) = parse_array_value mem (n + 1) (CHR ''['' # s)"
    "parse_value mem n (CHR 0x22 # s) = parse_string_value (CHR 0x22 # s)"
    "parse_value mem n (CHR ''t'' # s) = parse_boolean_value (CHR ''t'' # s)"
    "parse_value mem n (CHR ''f'' # s) = parse_boolean_value (CHR ''f'' # s)"
    "parse_value mem n (CHR ''n'' # s) = parse_null_value (CHR ''n'' # s)"
  using assms by (simp_all add: parse_value.simps isdigit_def)

lemma parse_value_number:
  assumes "n \<le> MAX_NESTING" "c = CHR ''-'' \<or> isdigit c"
  shows "parse_value mem n (c # s) = parse_number_value (c # s)"
proof -
  have "c \<noteq> CHR ''{''" "c \<noteq> CHR ''[''" "c \<noteq> CHR 0x22" "c \<noteq> CHR ''f''" "c \<noteq> CHR ''t''" "\<not> isspace c"
    using assms(2) isdigit_not(1) [of c] by (auto simp: isdigit_def)
  then show ?thesis using assms by (simp add: parse_value.simps [of mem n "c # s"] Let_def)
qed

lemma members_depth:
  assumes "n + foldr max (map (\<lambda>v. Suc (json_depth v)) vs) 0 \<le> MAX_NESTING" "v \<in> set vs"
  shows "Suc n + json_depth v \<le> MAX_NESTING"
proof -
  have "foldr max (map (\<lambda>v. Suc (json_depth v)) vs) 0 \<le> MAX_NESTING - n" using assms(1) by linarith
  then have "json_depth v < MAX_NESTING - n" unfolding foldr_max_le using assms(2) by blast
  then show ?thesis by linarith
qed

lemma serialize_reads_back:
  assumes "\<forall>k. mem k"
  shows "value_ok v \<Longrightarrow> n + json_depth v \<le> MAX_NESTING \<Longrightarrow>
    reads_back mem n (json_serialize_to_buffer_r esc pretty level v) v"
proof (induction "size v" arbitrary: v n level rule: less_induct)
  case less
  have n: "n \<le> MAX_NESTING" using less.prems(2) by simp
  have start: "\<exists>c s. json_serialize_to_buffer_r esc pretty level v = c # s \<and> value_start c"
    by (rule serialize_start [OF less.prems(1)])
  have "\<exists>v'. parse_value mem n (json_serialize_to_buffer_r esc pretty level v @ r) = Some (v', r) \<and> json_abs v' = json_abs v"
    if r: "number_stop r" for r
  proof (cases v)
    case JNull
    then show ?thesis using n
      by (simp add: parse_value_nest parse_null_value_def strncmp_eq_def json_value_init_null_def)
  next
    case (JBoolean b)
    then show ?thesis using n
      by (simp add: parse_value_nest parse_boolean_value_def strncmp_eq_def json_value_init_boolean_def)
  next
    case (JNumber x)
    obtain c s where c: "printf_17g x = c # s" "c = CHR ''-'' \<or> isdigit c"
      using parse_printed_number(2) [OF less.prems(1) [unfolded JNumber] r] by blast
    have "parse_value mem n (printf_17g x @ r) = parse_number_value (printf_17g x @ r)"
      unfolding c(1) append_Cons by (rule parse_value_number [OF n c(2)])
    then show ?thesis
      using parse_printed_number(1) [OF less.prems(1) [unfolded JNumber] r] by (simp add: JNumber)
  next
    case (JString s)
    have "parse_value mem n (json_serialize_string esc s @ r) = parse_string_value (json_serialize_string esc s @ r)"
      using n by (simp add: json_serialize_string_def parse_value_nest)
    then show ?thesis by (simp add: JString parse_string_value_def string_round_trip json_value_init_string_no_copy_def)
  next
    case (JArray a)
    define f where "f = json_serialize_to_buffer_r esc pretty (level + 1)"
    define vs where "vs = array_items a"
    have txt_eq: "json_serialize_to_buffer_r esc pretty level v @ r = CHR ''['' #
        (if vs \<noteq> [] \<and> pretty then [CHR 0x0A] else []) @ json_members pretty level (map f vs) @
        (if vs \<noteq> [] \<and> pretty then json_indent level else []) @ CHR '']'' # r"
      by (simp add: JArray json_container_def vs_def f_def)
    show ?thesis
    proof (cases "vs = []")
      case True
      then show ?thesis unfolding txt_eq using n
        by (simp add: parse_value_nest parse_array_value.simps json_value_init_array_def JArray vs_def [symmetric])
    next
      case False
      have rb: "\<forall>w \<in> set vs. reads_back mem (n + 1) (f w) w"
      proof
        fix w assume w: "w \<in> set vs"
        have "size w < size v" using size_array_items [of w a] w by (simp add: vs_def JArray)
        moreover have "value_ok w" using less.prems(1) w by (auto simp: JArray vs_def list_all_iff)
        moreover have "Suc n + json_depth w \<le> MAX_NESTING"
          using less.prems(2) w by (intro members_depth [of n vs]) (simp_all add: JArray vs_def)
        ultimately show "reads_back mem (n + 1) (f w) w" unfolding f_def using less.hyps by simp
      qed
      from array_loop_reads_back [OF assms False rb]
      obtain a1 where a1: "parse_array_loop mem (n + 1) json_array_make (skip_whitespaces
          (json_members pretty level (map f vs) @ gap pretty level @ CHR '']'' # r)) = Some (a1, CHR '']'' # r)"
        "map json_abs (array_items a1) = map json_abs vs" by fastforce
      define inner where "inner = skip_whitespaces (json_members pretty level (map f vs) @ gap pretty level @ CHR '']'' # r)"
      obtain w ws where ws: "vs = w # ws" using False by (cases vs) auto
      obtain d u where d: "f w = d # u" "value_start d"
        using rb ws by (auto simp: reads_back_def)
      have "char_at inner 0 = d"
        unfolding inner_def ws list.map members_cons by (simp add: d(1) value_startD(1) [OF d(2)])
      then have nc: "char_at inner 0 \<noteq> CHR '']''" using value_startD(4) [OF d(2)] by simp
      have sk: "skip_whitespaces (drop 1 (CHR ''['' #
        (if vs \<noteq> [] \<and> pretty then [CHR 0x0A] else []) @ json_members pretty level (map f vs) @
        (if vs \<noteq> [] \<and> pretty then json_indent level else []) @ CHR '']'' # r)) = inner"
        using False by (simp add: inner_def gap_def)
      have "length (array_items a1) = length vs" using a1(2) by (metis length_map)
      then have ne: "length (array_items a1) \<noteq> 0" using False by simp
      then show ?thesis
        unfolding txt_eq parse_value_nest(2) [OF n] parse_array_value.simps sk Let_def
        using nc a1 assms False
        by (simp add: inner_def [symmetric] json_array_resize_def json_array_get_count_def JArray vs_def [symmetric])
    qed
  next
    case (JObject obj)
    define f where "f = json_serialize_to_buffer_r esc pretty (level + 1)"
    define kvs where "kvs = zip (names obj) (obj_values obj)"
    define g where "g = (\<lambda>(k, v). member_text esc pretty k (f v))"
    have ok: "table_ok obj" using less.prems(1) JObject by simp
    note D = table_okD [OF ok]
    have fst_snd: "map fst kvs = names obj" "map snd kvs = obj_values obj"
      using D(6) by (simp_all add: kvs_def)
    have txt_eq: "json_serialize_to_buffer_r esc pretty level v @ r = CHR ''{'' #
        (if kvs \<noteq> [] \<and> pretty then [CHR 0x0A] else []) @ json_members pretty level (map g kvs) @
        (if kvs \<noteq> [] \<and> pretty then json_indent level else []) @ CHR ''}'' # r"
      by (simp add: JObject json_container_def kvs_def f_def g_def member_text_def)
    show ?thesis
    proof (cases "kvs = []")
      case True
      then have "names obj = []" using fst_snd by simp
      then show ?thesis unfolding txt_eq using n True
        by (simp add: parse_value_nest parse_object_value.simps json_value_init_object_def JObject)
    next
      case False
      have rb: "\<forall>(k, w) \<in> set kvs. is_cstring k \<and> reads_back mem (n + 1) (f w) w"
      proof (clarify, intro conjI)
        fix k w assume kw: "(k, w) \<in> set kvs"
        have w: "w \<in> set (obj_values obj)" and k: "k \<in> set (names obj)"
          using kw by (auto simp: kvs_def dest: set_zip_leftD set_zip_rightD)
        show "is_cstring k" using k ok by (auto simp: table_ok_def keys_ok_def in_set_conv_nth)
        have "size w < size v" using size_obj_values [OF w] by (simp add: JObject)
        moreover have "value_ok w" using less.prems(1) w by (auto simp: JObject list_all_iff)
        moreover have "Suc n + json_depth w \<le> MAX_NESTING"
          using less.prems(2) w by (intro members_depth [of n "obj_values obj"]) (simp_all add: JObject)
        ultimately show "reads_back mem (n + 1) (f w) w" unfolding f_def using less.hyps by simp
      qed
      have dist: "distinct (names json_object_make @ map fst kvs)" using ok by (simp add: fst_snd table_ok_def keys_ok_def)
      obtain obj1 where o1: "parse_object_loop mem (n + 1) json_object_make
          (skip_whitespaces (json_members pretty level (map g kvs) @ gap pretty level @ CHR ''}'' # r)) = Some (obj1, CHR ''}'' # r)"
        "names obj1 = names obj" "map json_abs (obj_values obj1) = map json_abs (obj_values obj)"
        using object_loop_reads_back [OF assms False rb table_ok_make(1) dist, of pretty level esc r]
        unfolding g_def fst_snd by auto
      define inner where "inner = skip_whitespaces (json_members pretty level (map g kvs) @ gap pretty level @ CHR ''}'' # r)"
      obtain w ws where ws: "kvs = w # ws" using False by (cases kvs) auto
      obtain u where u: "g w = CHR 0x22 # u" using member_text_start [of esc pretty "fst w" "f (snd w)"] by (auto simp: g_def split_beta)
      have "char_at inner 0 = CHR 0x22"
        unfolding inner_def ws list.map members_cons by (simp add: u)
      then have nc: "char_at inner 0 \<noteq> CHR ''}''" by simp
      have sk: "skip_whitespaces (drop 1 (CHR ''{'' #
        (if kvs \<noteq> [] \<and> pretty then [CHR 0x0A] else []) @ json_members pretty level (map g kvs) @
        (if kvs \<noteq> [] \<and> pretty then json_indent level else []) @ CHR ''}'' # r)) = inner"
        using False by (simp add: inner_def gap_def)
      show ?thesis
        unfolding txt_eq parse_value_nest(1) [OF n] parse_object_value.simps sk Let_def
        using nc o1 by (simp add: inner_def [symmetric] JObject)
    qed
  qed
  with start show ?case by (auto simp: reads_back_def)
qed

end
