(* ===== verification/Parson_Api.thy ===== *)
theory Parson_Api
  imports Parson_RoundTrip
begin

text \<open>
  What the functions of src/src/parson.c on whole values do: a deep copy denotes what the original
  denotes, values that denote the same are equal for \<open>json_value_equals\<close>, and a value set under a
  dotted name is found under it.
\<close>

section \<open>Lookups\<close>

lemma getn_value_all:
  "table_ok obj \<Longrightarrow> json_object_getn_value obj key (length key) = obj_map obj key"
  using json_object_getn_value_eq [of obj "length key" key] by simp

lemma map_json_object_fields [simp]:
  "cells (map_json_object f obj) = cells obj" "hashes (map_json_object f obj) = hashes obj"
  "names (map_json_object f obj) = names obj" "obj_values (map_json_object f obj) = map f (obj_values obj)"
  "cell_ixs (map_json_object f obj) = cell_ixs obj" "item_capacity (map_json_object f obj) = item_capacity obj"
  "cell_capacity (map_json_object f obj) = cell_capacity obj"
  by (cases obj; simp)+

lemma table_ok_map [simp]: "table_ok (map_json_object f obj) \<longleftrightarrow> table_ok obj"
  by (simp add: table_ok_def sizes_ok_def keys_ok_def)

lemma obj_map_map: "obj_map (map_json_object f obj) key = map_option f (obj_map obj key)"
proof -
  have "obj_items (map_json_object f obj) = map (\<lambda>(k, v). (k, f v)) (obj_items obj)"
    by (simp add: obj_items_def zip_map2 case_prod_unfold)
  then show ?thesis by (simp add: obj_map_def map_of_map)
qed

lemma table_keys: "table_ok obj \<Longrightarrow> k \<in> set (names obj) \<Longrightarrow> is_cstring k" "table_ok obj \<Longrightarrow> distinct (names obj)"
  by (auto simp: table_ok_def keys_ok_def in_set_conv_nth)

lemma obj_map_value: "obj_map obj k = Some v \<Longrightarrow> v \<in> set (obj_values obj)"
  by (auto simp: obj_map_def obj_items_def dest!: map_of_SomeD set_zip_rightD)

lemma copy_object_items_ok:
  assumes "\<forall>k. mem k" "\<forall>k \<in> set ks. is_cstring k \<and> json_object_getn_value copies k (length k) = Some (Some (c k))"
    "table_ok acc" "distinct (names acc @ ks)"
  shows "\<exists>acc'. copy_object_items mem acc copies ks = Some acc' \<and> table_ok acc' \<and>
    names acc' = names acc @ ks \<and> obj_values acc' = obj_values acc @ map c ks"
  using assms(2-)
proof (induction ks arbitrary: acc)
  case (Cons k ks)
  obtain acc1 where 1: "json_object_add mem acc k (c k) = Inr acc1" "table_ok acc1"
    "obj_items acc1 = obj_items acc @ [(k, c k)]"
    using json_object_add_fresh [OF Cons.prems(2), of k mem "c k"] grow_granted_all [OF assms(1)] Cons.prems by auto
  note t1 = table_values [OF Cons.prems(2) 1(2,3)]
  show ?case using Cons.IH [of acc1] Cons.prems 1 t1 by auto
qed simp

lemma copy_array_items_ok:
  assumes "\<forall>k. mem k" "length (array_items acc) \<le> array_capacity acc"
  shows "\<exists>acc'. copy_array_items mem acc (map Some vs) = Some acc' \<and>
    array_items acc' = array_items acc @ vs \<and> length (array_items acc') \<le> array_capacity acc'"
  using assms(2)
proof (induction vs arbitrary: acc)
  case (Cons v vs)
  obtain a' where a: "json_array_add mem acc v = Inr a'" "array_items a' = array_items acc @ [v]"
    using json_array_add_mem [OF assms(1), of acc v] by auto
  have "length (array_items a') \<le> array_capacity a'" using json_array_add_Inr(2) [OF a(1)] Cons.prems by simp
  with Cons.IH [of a'] a show ?case by auto
qed simp

lemma list_choice: "\<forall>x \<in> set xs. \<exists>y. P x y \<Longrightarrow> \<exists>f. \<forall>x \<in> set xs. P x (f x)"
  by metis

lemma deep_copy_ok:
  assumes "\<forall>k. mem k"
  shows "value_ok v \<Longrightarrow> \<exists>v'. json_value_deep_copy mem v = Some v' \<and> value_ok v' \<and> json_abs v' = json_abs v"
proof (induction "size v" arbitrary: v rule: less_induct)
  case less
  show ?case
  proof (cases v)
    case (JArray a)
    have "\<forall>w \<in> set (array_items a). \<exists>w'. json_value_deep_copy mem w = Some w' \<and> value_ok w' \<and> json_abs w' = json_abs w"
      using less.hyps less.prems size_array_items [of _ a] by (auto simp: JArray list_all_iff)
    then obtain c where c: "\<forall>w \<in> set (array_items a). json_value_deep_copy mem w = Some (c w) \<and> value_ok (c w) \<and> json_abs (c w) = json_abs w"
      by (metis (no_types))
    then have e: "map (json_value_deep_copy mem) (array_items a) = map Some (map c (array_items a))" by simp
    have mk: "length (array_items json_array_make) \<le> array_capacity json_array_make" by simp
    show ?thesis
      using copy_array_items_ok [OF assms mk, of "map c (array_items a)"] c
      by (auto simp: JArray e list_all_iff)
  next
    case (JObject obj)
    have ok: "table_ok obj" using less.prems JObject by simp
    have "\<forall>w \<in> set (obj_values obj). \<exists>w'. json_value_deep_copy mem w = Some w' \<and> value_ok w' \<and> json_abs w' = json_abs w"
      using less.hyps less.prems size_obj_values [of _ obj] by (auto simp: JObject list_all_iff)
    then obtain c where c: "\<forall>w \<in> set (obj_values obj). json_value_deep_copy mem w = Some (c w) \<and> value_ok (c w) \<and> json_abs (c w) = json_abs w"
      by (metis (no_types))
    define d where "d = (\<lambda>k. c (the (obj_map obj k)))"
    have some: "\<exists>w. obj_map obj k = Some w \<and> w \<in> set (obj_values obj)" if "k \<in> set (names obj)" for k
      using obj_map_None_iff [OF ok, of k] that obj_map_value by fastforce
    have look: "\<forall>k \<in> set (names obj). is_cstring k \<and>
        json_object_getn_value (map_json_object (json_value_deep_copy mem) obj) k (length k) = Some (Some (d k))"
    proof
      fix k assume k: "k \<in> set (names obj)"
      obtain w where "obj_map obj k = Some w" "w \<in> set (obj_values obj)" using some [OF k] by blast
      then show "is_cstring k \<and> json_object_getn_value (map_json_object (json_value_deep_copy mem) obj) k (length k) = Some (Some (d k))"
        using ok c k table_keys(1) [OF ok k] by (simp add: getn_value_all obj_map_map d_def)
    qed
    have dist: "distinct (names json_object_make @ names obj)" using table_keys(2) [OF ok] by simp
    obtain acc where acc: "copy_object_items mem json_object_make (map_json_object (json_value_deep_copy mem) obj) (names obj) = Some acc"
      "table_ok acc" "names acc = names obj" "obj_values acc = map d (names obj)"
      using copy_object_items_ok [OF assms look table_ok_make(1) dist] by auto
    have "map json_abs (map d (names obj)) = map json_abs (obj_values obj)"
    proof (rule nth_equalityI)
      show "length (map json_abs (map d (names obj))) = length (map json_abs (obj_values obj))"
        using table_okD(6) [OF ok] by simp
      fix i assume "i < length (map json_abs (map d (names obj)))"
      then have i: "i < obj_count obj" by simp
      have "obj_map obj (names obj ! i) = Some (obj_values obj ! i)" by (rule obj_items_lookup [OF ok i])
      moreover have "obj_values obj ! i \<in> set (obj_values obj)" using i table_okD(6) [OF ok] by simp
      ultimately show "map json_abs (map d (names obj)) ! i = map json_abs (obj_values obj) ! i"
        using i c table_okD(6) [OF ok] by (simp add: d_def)
    qed
    moreover have "list_all value_ok (map d (names obj))"
      using some c by (fastforce simp: list_all_iff d_def)
    ultimately show ?thesis using acc by (simp add: JObject)
  qed (use less.prems in \<open>auto simp: json_value_init_boolean_def json_value_init_number_def
      json_value_init_string_no_copy_def json_value_init_null_def\<close>)
qed

lemma epsilon_double: "to_double False 1 1000000 = Fin False 4722366482869645 (-72)"
  by (simp add: to_double_def log2_floor_def bit_length.simps round_scaled_def round_div_def Let_def)

lemma diff_small_refl: "is_finite x \<Longrightarrow> diff_small x x"
proof -
  assume "is_finite x"
  then obtain s m e where x: "x = Fin s m e" by (cases x) auto
  obtain n d where nd: "num_den 2 0 e = (n, d)" by fastforce
  then have "n = 0" by (auto simp: num_den_def split: if_splits)
  then have "to_double False n d = Fin False 0 (-1074)" by (simp add: to_double_def)
  then show ?thesis by (simp add: x nd epsilon_double Let_def del: One_nat_def)
qed

lemma equals_of_abs:
  "value_ok a \<Longrightarrow> value_ok b \<Longrightarrow> json_abs a = json_abs b \<Longrightarrow> json_value_equals a (Some b)"
proof (induction "size a" arbitrary: a b rule: less_induct)
  case less
  show ?case
  proof (cases a)
    case JNull
    then show ?thesis using less.prems by (cases b) auto
  next
    case (JBoolean x)
    then show ?thesis using less.prems by (cases b) auto
  next
    case (JNumber x)
    then show ?thesis using less.prems by (cases b) (auto simp: diff_small_refl)
  next
    case (JString x)
    then show ?thesis using less.prems by (cases b) auto
  next
    case (JArray arr)
    then obtain arr' where b: "b = JArray arr'" and m: "map json_abs (array_items arr) = map json_abs (array_items arr')"
      using less.prems by (cases b) auto
    have len: "length (array_items arr) = length (array_items arr')" using m by (metis length_map)
    have "json_value_equals (array_items arr ! i) (Some (array_items arr' ! i))" if i: "i < length (array_items arr)" for i
    proof (rule less.hyps)
      show "size (array_items arr ! i) < size a" using size_array_items [of "array_items arr ! i" arr] i by (simp add: JArray)
      show "value_ok (array_items arr ! i)" "value_ok (array_items arr' ! i)"
        using less.prems i len by (simp_all add: JArray b list_all_length)
      show "json_abs (array_items arr ! i) = json_abs (array_items arr' ! i)"
        using m i len by (metis nth_map)
    qed
    then show ?thesis using len by (simp add: JArray b list_all_length)
  next
    case (JObject obj)
    then obtain obj' where b: "b = JObject obj'"
      and m: "zip (names obj) (map json_abs (obj_values obj)) = zip (names obj') (map json_abs (obj_values obj'))"
      using less.prems by (cases b) auto
    have ok: "table_ok obj" "table_ok obj'" using less.prems JObject b by simp_all
    note len = table_okD(6) [OF ok(1)] table_okD(6) [OF ok(2)]
    have "map fst (zip (names obj) (map json_abs (obj_values obj))) = names obj"
      "map fst (zip (names obj') (map json_abs (obj_values obj'))) = names obj'"
      "map snd (zip (names obj) (map json_abs (obj_values obj))) = map json_abs (obj_values obj)"
      "map snd (zip (names obj') (map json_abs (obj_values obj'))) = map json_abs (obj_values obj')"
      using len by simp_all
    then have nm: "names obj = names obj'" and vs: "map json_abs (obj_values obj) = map json_abs (obj_values obj')"
      using m by simp_all
    have "case json_object_getn_value (map_json_object json_value_equals obj) key (length key) of
              None \<Rightarrow> json_object_getn_value obj' key (length key) = None
            | Some eq \<Rightarrow> eq (json_object_getn_value obj' key (length key))" if key: "key \<in> set (names obj)" for key
    proof -
      obtain i where i: "i < obj_count obj" "names obj ! i = key" using key by (auto simp: set_names_iff)
      have l: "obj_map obj key = Some (obj_values obj ! i)" "obj_map obj' key = Some (obj_values obj' ! i)"
        using obj_items_lookup [OF ok(1) i(1)] obj_items_lookup [OF ok(2), of i] i nm by simp_all
      have "json_value_equals (obj_values obj ! i) (Some (obj_values obj' ! i))"
      proof (rule less.hyps)
        show "size (obj_values obj ! i) < size a" using size_obj_values [of "obj_values obj ! i" obj] i len by (simp add: JObject)
        show "value_ok (obj_values obj ! i)" "value_ok (obj_values obj' ! i)"
          using less.prems i len nm by (simp_all add: JObject b list_all_length)
        show "json_abs (obj_values obj ! i) = json_abs (obj_values obj' ! i)"
          using vs i len nm by (metis nth_map)
      qed
      then show ?thesis using ok l by (simp add: getn_value_all obj_map_map)
    qed
    then show ?thesis using nm by (simp add: JObject b list_all_iff)
  qed
qed

section \<open>Dotted names\<close>

lemma dot_position_prefix: "dot_position name = Some n \<Longrightarrow> is_cstring name \<Longrightarrow>
   is_cstring (take n name) \<and> is_cstring (drop (n + 1) name) \<and> length (take n name) = n"
  using dot_position_less [of name n] by (auto simp: is_cstring_def dest: in_set_takeD in_set_dropD)

lemma alist_update_map_of: "map_of (AList.update k v xs) = (map_of xs)(k \<mapsto> v)"
  by (rule update_conv')

lemma table_values_update:
  assumes "table_ok obj" "table_ok obj'" "obj_items obj' = AList.update key v (obj_items obj)"
    and "list_all value_ok (obj_values obj)" "value_ok v"
  shows "list_all value_ok (obj_values obj')" "obj_map obj' = (obj_map obj)(key \<mapsto> v)"
proof -
  have "set (map snd (AList.update key v xs)) \<subseteq> insert v (set (map snd xs))" for xs
    by (induction xs) auto
  from this [of "obj_items obj"]
  have "set (map snd (AList.update key v (obj_items obj))) \<subseteq> insert v (set (map snd (obj_items obj)))" .
  moreover have "map snd (obj_items obj') = obj_values obj'" "map snd (obj_items obj) = obj_values obj"
    using table_okD(6) [OF assms(1)] table_okD(6) [OF assms(2)] by (simp_all add: obj_items_def)
  ultimately have "set (obj_values obj') \<subseteq> insert v (set (obj_values obj))" using assms(3) by metis
  then show "list_all value_ok (obj_values obj')" using assms(4,5) by (auto simp: list_all_iff)
  show "obj_map obj' = (obj_map obj)(key \<mapsto> v)"
    by (simp add: obj_map_def assms(3) alist_update_map_of)
qed

lemma json_object_set_value_refused:
  assumes ok: "table_ok obj" and name: "name \<notin> set (names obj)"
    and "item_capacity obj \<le> obj_count obj" and "\<not> grow_granted mem obj"
  shows "json_object_set_value mem obj name val False = Inl JSONFailure"
  using assms(3) get_cell_ix_not_found [OF ok, of "length name" name] name
    json_object_grow_and_rehash_refused [OF assms(4)]
  by (simp add: json_object_set_value_def Let_def split_beta)

lemma json_object_set_value_Inr:
  assumes "json_object_set_value mem obj name v False = Inr obj'" "table_ok obj" "is_cstring name"
  shows "table_ok obj'" "obj_items obj' = AList.update name v (obj_items obj)"
proof -
  have "name \<in> set (names obj) \<or> obj_count obj < item_capacity obj \<or> grow_granted mem obj"
    using json_object_set_value_refused [OF assms(2), of name mem v] assms(1)
    by (cases "obj_count obj < item_capacity obj") auto
  from json_object_set_value_ok [OF assms(2,3) this, of v] assms(1)
  show "table_ok obj'" "obj_items obj' = AList.update name v (obj_items obj)" by auto
qed

lemma set_value_Inr:
  assumes "json_object_set_value mem obj name v False = Inr obj'" "value_ok (JObject obj)" "is_cstring name" "value_ok v"
  shows "value_ok (JObject obj')" "obj_map obj' = (obj_map obj)(name \<mapsto> v)"
proof -
  have ok: "table_ok obj" "list_all value_ok (obj_values obj)" using assms(2) by simp_all
  note r = json_object_set_value_Inr [OF assms(1) ok(1) assms(3)]
  note u = table_values_update [OF ok(1) r ok(2) assms(4)]
  show "value_ok (JObject obj')" using r u by simp
  show "obj_map obj' = (obj_map obj)(name \<mapsto> v)" by (rule u)
qed

lemma getn_value_take:
  "table_ok obj \<Longrightarrow> n \<le> length name \<Longrightarrow> json_object_getn_value obj name n = obj_map obj (take n name)"
  by (rule json_object_getn_value_eq)

lemma obj_map_value_ok: "value_ok (JObject obj) \<Longrightarrow> obj_map obj k = Some v \<Longrightarrow> value_ok v"
  using obj_map_value by (fastforce simp: list_all_iff)

lemma dotset_dotget:
  "json_object_dotset_value mem obj name v has_parent = Inr obj' \<Longrightarrow> value_ok (JObject obj) \<Longrightarrow> is_cstring name \<Longrightarrow>
     value_ok v \<Longrightarrow> value_ok (JObject obj') \<and> json_object_dotget_value (Some obj') name = Some v"
proof (induction mem obj name v has_parent arbitrary: obj' rule: json_object_dotset_value.induct)
  case (1 mem obj name v has_parent)
  note step = "1.prems"(1) [unfolded json_object_dotset_value.simps [of mem obj name]]
  have ok: "table_ok obj" using "1.prems"(2) by simp
  show ?case
  proof (cases "dot_position name")
    case None
    with step have s: "json_object_set_value mem obj name v has_parent = Inr obj'" by simp
    then have "\<not> has_parent" by (auto simp: json_object_set_value_def)
    with s have s: "json_object_set_value mem obj name v False = Inr obj'" by simp
    note r = set_value_Inr [OF s "1.prems"(2-4)]
    then show ?thesis
      by (simp add: json_object_dotget_value.simps [of _ name] None json_object_get_value_def getn_value_all)
  next
    case (Some n)
    note p = dot_position_prefix [OF Some "1.prems"(3)]
    have n: "n \<le> length name" using dot_position_less [OF Some] by simp
    have get: "json_object_dotget_value (Some o') name = json_object_dotget_value (Some sub) (drop (n + 1) name)"
      if "value_ok (JObject o')" "obj_map o' (take n name) = Some (JObject sub)" for o' sub
      using that by (simp add: json_object_dotget_value.simps [of _ name] Some getn_value_take n json_value_get_object_def)
    show ?thesis
    proof (cases "json_object_getn_value obj name n")
      case gn: None
      from step Some gn obtain new where new: "json_object_dotset_value mem json_object_make (drop (n + 1) name) v has_parent = Inr new"
        "json_object_add mem obj (take n name) (JObject new) = Inr obj'"
        by (auto split: sum.splits)
      have mk: "value_ok (JObject json_object_make)" by simp
      have IH: "value_ok (JObject new) \<and> json_object_dotget_value (Some new) (drop (n + 1) name) = Some v"
        using "1.IH"(1) [OF Some gn new(1) mk] p "1.prems"(4) by blast
      note add = json_object_add_Inr [OF new(2) ok]
      have key: "is_cstring (take n name)" using p by blast
      have ok': "value_ok (JObject obj')" using add [OF key] "1.prems"(2) IH by simp
      have items: "obj_items obj' = obj_items obj @ [(take n name, JObject new)]"
        using add [OF key] table_okD(6) [OF ok] by (simp add: obj_items_def)
      have "obj_map obj (take n name) = None" using obj_map_None_iff [OF ok] add(2) [OF key] by simp
      then have "obj_map obj' (take n name) = Some (JObject new)"
        by (simp add: obj_map_def items map_add_Some_iff)
      with get [OF ok' this] ok' IH show ?thesis by simp
    next
      case gn: (Some t)
      from step Some gn obtain sub nested where t: "t = JObject sub"
        "json_object_dotset_value mem sub (drop (n + 1) name) v has_parent = Inr nested"
        "store_nested obj (take n name) nested = Inr obj'"
        by (auto split: json_value.splits sum.splits)
      have "obj_map obj (take n name) = Some (JObject sub)" using gn getn_value_take [OF ok n] t(1) by simp
      then have sub: "value_ok (JObject sub)" by (rule obj_map_value_ok [OF "1.prems"(2)])
      have IH: "value_ok (JObject nested) \<and> json_object_dotget_value (Some nested) (drop (n + 1) name) = Some v"
        using "1.IH"(2) [OF Some gn t(1) t(2) sub] p "1.prems"(4) by blast
      then have nested: "value_ok (JObject nested)" by blast
      have key: "is_cstring (take n name)" using p by blast
      note r = set_value_Inr [OF t(3) [unfolded store_nested_def] "1.prems"(2) key nested]
      have "obj_map obj' (take n name) = Some (JObject nested)" by (simp add: r(2))
      with get [OF r(1) this] r(1) IH show ?thesis by simp
    qed
  qed
qed

end
