(* ===== verification/Parson_Properties.thy ===== *)
theory Parson_Properties
  imports Parson_Api
begin

text \<open>
  The properties of src/src/parson.c, each with the concrete input it is applied to.
\<close>

section \<open>Auxiliary facts\<close>

lemma remove_comments_pointwise:
  "length (remove_comments_loop st en i e s) = length s \<and>
   (\<forall>k < length s. remove_comments_loop st en i e s ! k = s ! k \<or> remove_comments_loop st en i e s ! k = CHR '' '')"
proof (induction "length s" arbitrary: i e s rule: less_induct)
  case less
  show ?case
  proof (cases s)
    case Nil
    then show ?thesis by (simp add: remove_comments_loop.simps)
  next
    case (Cons c r)
    then have IH: "length (remove_comments_loop st en i e r) = length r \<and>
      (\<forall>k < length r. remove_comments_loop st en i e r ! k = r ! k \<or> remove_comments_loop st en i e r ! k = CHR '' '')"
      for i e by (intro less.hyps) simp
    show ?thesis
    proof (cases "st \<noteq> [] \<and> en \<noteq> [] \<and> \<not> i \<and> strncmp_eq s st (length st)")
      case False
      then show ?thesis using IH Cons
        by (cases i) (auto simp: remove_comments_loop.simps [of st en _ e "c # r"] nth_Cons split: nat.splits)
    next
      case True
      then have "take (length st) s = st" by (simp add: strncmp_eq_def)
      then have le: "length st \<le> length s" by (metis length_take min.cobounded1)
      show ?thesis
      proof (cases "strstr (drop (length st) s) en")
        case None
        then show ?thesis using True Cons IH le
          by (auto simp: remove_comments_loop.simps [of st en False e "c # r"] Let_def nth_append nth_Cons split: nat.splits)
      next
        case (Some k)
        note b = strstr_bound [OF Some]
        let ?s = "drop (k + length en) (drop (length st) s)"
        have "length ?s < length s"
        proof -
          have "0 < length st" "0 < length s" using True Cons by simp_all
          then show ?thesis by simp
        qed
        from less.hyps [OF this, of False False]
        show ?thesis using True Cons IH le Some b
          by (auto simp: remove_comments_loop.simps [of st en False e "c # r"] Let_def nth_append nth_Cons split: nat.splits)
      qed
    qed
  qed
qed

lemma serialize_no_bom:
  assumes "value_ok v"
  shows "char_at (json_serialize_to_buffer_r esc pretty level v) 0 \<noteq> CHR 0xEF"
proof -
  obtain c s where "json_serialize_to_buffer_r esc pretty level v = c # s" "value_start c"
    using serialize_start [OF assms] by blast
  then show ?thesis by (auto simp: value_start_def isdigit_def)
qed

lemma parse_serialized:
  assumes "\<forall>k. mem k" "value_ok v" "json_depth v \<le> MAX_NESTING"
  shows "\<exists>v'. json_parse_string mem (Some (json_serialize_to_buffer_r esc pretty 0 v)) = Some v' \<and>
    json_abs v' = json_abs v \<and> json_value_equals v (Some v')"
proof -
  have "reads_back mem 0 (json_serialize_to_buffer_r esc pretty 0 v) v"
    using serialize_reads_back [OF assms(1,2), of 0] assms(3) by simp
  then obtain v' where v': "parse_value mem 0 (json_serialize_to_buffer_r esc pretty 0 v) = Some (v', [])"
    "json_abs v' = json_abs v"
    by (auto simp: reads_back_def dest!: spec [of _ "[]"])
  have "value_ok v'" using parse_ok(1) v'(1) by blast
  then have "json_value_equals v (Some v')" using equals_of_abs assms(2) v'(2) by simp
  with v' serialize_no_bom [OF assms(2), of esc pretty 0] show ?thesis
    by (simp add: json_parse_string_def)
qed

section \<open>Properties\<close>

text \<open>
  C1: whatever well-formed value the program holds, nested at most \<open>MAX_NESTING\<close> deep, serializing it
  (compact or pretty, slashes escaped or not) gives a text that \<open>json_parse_string\<close> reads back as a value with the same
  denotation, equal to the original for \<open>json_value_equals\<close>; numbers keep every bit.
\<close>

theorem json_round_trip:
  assumes "\<forall>k. mem k" "value_ok v" "json_depth v \<le> MAX_NESTING"
  shows "\<exists>v'. json_parse_string mem
      (if pretty then json_serialize_to_string_pretty esc (Some v) else json_serialize_to_string esc (Some v)) = Some v' \<and>
    json_abs v' = json_abs v \<and> json_value_equals v (Some v')"
proof -
  have "(if pretty then json_serialize_to_string_pretty esc (Some v) else json_serialize_to_string esc (Some v)) =
      Some (json_serialize_to_buffer_r esc pretty 0 v)"
    by (simp add: json_serialize_to_string_pretty_def json_serialize_to_buffer_pretty_def json_serialization_size_pretty_def
        json_serialize_to_string_def json_serialize_to_buffer_def json_serialization_size_def)
  with parse_serialized [OF assms, of esc pretty] show ?thesis by simp
qed

theorem json_round_trip_witness:
  "\<exists>v'. json_parse_string (\<lambda>_. True)
      (json_serialize_to_string True (Some (JArray (JSON_Array [JNull, JString ''a/b'', JNumber (Fin True 0 (-1074))] 16)))) = Some v' \<and>
    json_abs v' = Arr [Null, Str ''a/b'', Num (Fin True 0 (-1074))]"
  using json_round_trip [of "\<lambda>_. True" "JArray (JSON_Array [JNull, JString ''a/b'', JNumber (Fin True 0 (-1074))] 16)" False True]
  by (auto simp: canonical_def)

text \<open>
  C17: whatever text it is given and whatever memory it gets, the parser builds only well-formed
  values (hash tables with their invariant, finite numbers, arrays within their capacity), nested at most \<open>MAX_NESTING\<close> deep.
\<close>

theorem json_parse_string_well_formed:
  "json_parse_string mem (Some s) = Some v \<Longrightarrow> value_ok v \<and> json_depth v \<le> MAX_NESTING"
  using parse_ok(1) [of mem 0] by (fastforce simp: json_parse_string_def Let_def)

theorem json_parse_string_well_formed_witness:
  "value_ok (JBoolean True) \<and> json_depth (JBoolean True) \<le> MAX_NESTING"
  by (rule json_parse_string_well_formed [of "\<lambda>_. True" "'' true''"])
     (simp add: json_parse_string_def parse_value.simps skip_whitespaces_def parse_boolean_value_def
       strncmp_eq_def json_value_init_boolean_def isdigit_def)

text \<open>
  C5: any sequence of \<open>json_object_set_value\<close>, \<open>json_object_remove\<close> and \<open>json_object_clear\<close> on a new object,
  through any number of rehashes and backward shifts, keeps the hash table's invariant, and a lookup finds what a finite map would.
\<close>

theorem json_object_is_a_map:
  assumes "list_all op_ok ops"
  shows "let obj = foldl (store_step (\<lambda>obj k v. json_object_set_value (\<lambda>_. True) obj k v False)
        json_object_remove_internal json_object_clear) json_object_make ops
     in table_ok obj \<and> (\<forall>key. json_object_getn_value obj key (length key) = foldl map_op (\<lambda>_. None) ops key)"
proof -
  have "obj_map json_object_make = (\<lambda>_. None)" by (simp add: obj_map_def obj_items_def)
  with object_store.run_refines [OF table_ok_make(1) assms] show ?thesis
    by (simp add: getn_value_all Let_def)
qed

theorem json_object_is_a_map_witness:
  "let obj = foldl (store_step (\<lambda>obj k v. json_object_set_value (\<lambda>_. True) obj k v False)
        json_object_remove_internal json_object_clear) json_object_make
        [Put ''a'' JNull, Put ''b'' (JBoolean True), Remove ''a'']
   in json_object_getn_value obj ''b'' (length ''b'') = Some (JBoolean True)"
proof -
  have "list_all op_ok [Put ''a'' JNull, Put ''b'' (JBoolean True), Remove ''a'']" by simp
  note m = json_object_is_a_map [OF this, unfolded Let_def, THEN conjunct2, THEN spec, of "''b''"]
  show ?thesis unfolding Let_def m by simp
qed

text \<open>
  C35: \<open>json_object_add\<close> on a well-formed object either appends the new member and keeps the invariant, when the key is new and there is
  room or memory to grow, or fails and reports it; it never writes through an invalid cell index.
\<close>

theorem json_object_add_total:
  assumes "table_ok obj" "is_cstring key"
  shows "if key \<notin> set (names obj) \<and> (obj_count obj < item_capacity obj \<or> grow_granted mem obj)
    then \<exists>obj'. json_object_add mem obj key v = Inr obj' \<and> table_ok obj' \<and> obj_items obj' = obj_items obj @ [(key, v)]
    else json_object_add mem obj key v = Inl JSONFailure"
  using json_object_add_fresh [OF assms, of mem v] json_object_add_present [OF assms(1), of key mem v]
    json_object_add_refused [OF assms(1), of key mem v]
  by (auto simp: not_less)

theorem json_object_add_total_witness:
  "json_object_add (\<lambda>_. False) (json_object_make :: json_obj) ''k'' JNull = Inl JSONFailure"
proof -
  have "is_cstring ''k''" "item_capacity (json_object_make :: json_obj) = 0"
    "\<not> grow_granted (\<lambda>_. False) (json_object_make :: json_obj)"
    by (simp_all add: grow_granted_def json_object_make_def)
  then show ?thesis
    using json_object_add_total [OF table_ok_make(1), of "''k''" "\<lambda>_. False" JNull] by simp
qed

text \<open>
  C25: removing a member keeps the invariant of the table, the last member takes the place of the removed one, and every other
  lookup is unchanged.
\<close>

theorem json_object_remove_swaps:
  assumes "table_ok obj" "r < obj_count obj"
  shows "\<exists>obj'. json_object_remove obj (names obj ! r) = Inr obj' \<and> table_ok obj' \<and>
    obj_items obj' = swap_remove (obj_items obj) r \<and>
    (\<forall>key. json_object_getn_value obj' key (length key) =
       (if key = names obj ! r then None else json_object_getn_value obj key (length key)))"
proof -
  obtain obj' where o: "json_object_remove_internal obj (names obj ! r) = Inr obj'" "table_ok obj'"
    "obj_items obj' = swap_remove (obj_items obj) r"
    using json_object_remove_internal_ok [OF assms refl] by blast
  with obj_map_swap_remove [OF assms(1) o(2) assms(2) o(3)] assms(1) show ?thesis
    by (auto simp: json_object_remove_def getn_value_all)
qed

theorem json_object_remove_swaps_witness:
  "\<exists>obj obj'. json_object_add (\<lambda>_. True) json_object_make ''k'' JNull = Inr obj \<and>
     json_object_remove obj (names obj ! 0) = Inr obj' \<and> table_ok obj'"
proof -
  obtain obj where o: "json_object_add (\<lambda>_. True) json_object_make ''k'' JNull = Inr obj" "table_ok obj"
    "obj_items obj = obj_items json_object_make @ [(''k'', JNull)]"
    using json_object_add_fresh [OF table_ok_make(1), of "''k''" "\<lambda>_. True" JNull] by (auto simp: grow_granted_def Let_def)
  have "0 < obj_count obj" using table_values(2) [OF table_ok_make(1) o(2,3)] by simp
  with json_object_remove_swaps [OF o(2)] o show ?thesis by blast
qed

text \<open>
  C36: \<open>json_value_init_string\<close> accepts a string exactly when its bytes are the UTF-8 encodings of Unicode scalar values:
  no overlong form, no surrogate, nothing above 0x10FFFF, no truncated sequence.
\<close>

theorem json_value_init_string_utf8:
  "json_value_init_string (Some s) =
     (if \<exists>cps. list_all scalar_value cps \<and> s = concat (map utf8_chars cps) then Some (JString s) else None)"
  using is_valid_utf8_iff [of s]
  by (simp add: json_value_init_string_def json_value_init_string_with_len_def json_value_init_string_no_copy_def)

text \<open>
  C37: an escape \<open>\u\<close> is decoded to the UTF-8 encoding of the code point it names, a surrogate pair to that of the one code point it
  encodes, and a lone or reversed surrogate is refused.
\<close>

theorem parse_utf16_decodes:
  "parse_utf16 s = map_option (\<lambda>(cp, adv). (utf8_chars cp, adv)) (utf16_escape s) \<and>
   (case utf16_escape s of Some (cp, _) \<Rightarrow> scalar_value cp | None \<Rightarrow> True)"
  using parse_utf16_eq [of s] utf16_escape_scalar [of s] by (auto split: option.splits)

text \<open>
  C38: a quoted string never decodes to more bytes than lie between its quotes, so the decoder with its terminating NUL stays within the
  buffer of \<open>input_len + 1\<close> bytes it allocates.
\<close>

theorem quoted_string_fits:
  "get_quoted_string s = Some (out, rest) \<Longrightarrow> length out + 1 \<le> (length s - length rest - 2) + 1"
  using get_quoted_string_bound [of s out rest] by linarith

theorem quoted_string_fits_witness:
  "length ''a'' + 1 \<le> (length [CHR 0x22, CHR ''a'', CHR 0x22] - length ([] :: string) - 2) + 1"
  by (rule quoted_string_fits)
     (simp add: get_quoted_string_def skip_quotes_def process_string_plain)

text \<open>
  C33: \<open>json_value_deep_copy\<close> of a well-formed value succeeds and gives a well-formed value with the same denotation.
\<close>

theorem json_value_deep_copy_same:
  "\<forall>k. mem k \<Longrightarrow> value_ok v \<Longrightarrow>
     \<exists>v'. json_value_deep_copy mem v = Some v' \<and> value_ok v' \<and> json_abs v' = json_abs v \<and> json_value_equals v (Some v')"
  using deep_copy_ok [of mem v] equals_of_abs [of v] by fastforce

theorem json_value_deep_copy_same_witness:
  "\<exists>v'. json_value_deep_copy (\<lambda>_. True) (JArray (JSON_Array [JString ''x''] 16)) = Some v' \<and>
     json_abs v' = Arr [Str ''x'']"
  using json_value_deep_copy_same [of "\<lambda>_. True" "JArray (JSON_Array [JString ''x''] 16)"] by auto

text \<open>
  C38: after a successful \<open>json_object_dotset_value\<close> under a dotted name, whatever objects it had to create on the way, the tree is well formed and
  \<open>json_object_dotget_value\<close> finds the value under that name.
\<close>

theorem json_object_dotset_then_dotget:
  assumes "json_object_dotset_value mem obj name v has_parent = Inr obj'"
    and "value_ok (JObject obj)" "is_cstring name" "value_ok v"
  shows "value_ok (JObject obj') \<and> json_object_dotget_value (Some obj') name = Some v"
  by (rule dotset_dotget [OF assms])

theorem json_object_dotset_then_dotget_witness:
  "\<exists>obj'. json_object_dotset_value (\<lambda>_. True) json_object_make ''a'' JNull False = Inr obj' \<and>
     json_object_dotget_value (Some obj') ''a'' = Some JNull"
proof -
  have "json_object_dotset_value (\<lambda>_. True) json_object_make ''a'' JNull False =
      json_object_set_value (\<lambda>_. True) json_object_make ''a'' JNull False"
    by (simp add: json_object_dotset_value.simps dot_position_def)
  moreover obtain obj' where "json_object_set_value (\<lambda>_. True) json_object_make ''a'' JNull False = Inr obj'"
    using object_store.put_ok [OF table_ok_make(1), of "''a''" JNull] by auto
  ultimately show ?thesis using json_object_dotset_then_dotget [of "\<lambda>_. True" json_object_make "''a''" JNull False] by simp
qed

text \<open>
  Erasing comments keeps the length of the text, and every character of it either stays or becomes a space, so the positions of the
  tokens outside comments do not move.
\<close>

theorem remove_comments_in_place:
  "length (remove_comments s st en) = length s \<and>
   list_all2 (\<lambda>c' c. c' = c \<or> c' = CHR '' '') (remove_comments s st en) s"
  using remove_comments_pointwise [of st en False False s]
  by (simp add: remove_comments_def list_all2_conv_all_nth)

text \<open>
  C40: a lone minus sign, which is no JSON text, parses as the number 0: \<open>strtod\<close> consumes nothing and \<open>is_decimal\<close> accepts the
  empty number.
\<close>

theorem lone_minus_is_zero:
  "json_parse_string mem (Some ''-'') = Some (JNumber zero_double)"
  by (simp add: json_parse_string_def parse_value.simps parse_number_value_def strtod_def read_special_def
    read_hex_def read_decimal_def read_mantissa_def has_prefix_ci_def is_decimal_def json_value_init_number_def
    isspace_def skip_whitespaces_def Let_def)

end
