(* ===== verification/Dx_Runtime.thy ===== *)
theory Dx_Runtime
  imports Prelude
begin

text \<open>
  The runtime of the DevX library: termination (src/src/dx_terminate.c), timers
  (src/src/dx_timer.c) and asynchronous events (src/src/dx_async.c).  The event loop is libuv, code the
  repository does not hold: what the library does to it is the sequence of its calls, kept in the state
  with the exit code.  Results of libuv that the code tests are arguments.  A binding that is an object of its own is
  a record passed and returned.  The last section holds the contract that all sets of bindings share: opening
  stops at the first failure, closing goes through the whole set.
\<close>

section \<open>Exit codes and the event loop\<close>

abbreviation (input) DX_ExitCode_Success :: int where "DX_ExitCode_Success \<equiv> 0"
abbreviation (input) DX_ExitCode_TermHandler_SigTerm :: int where "DX_ExitCode_TermHandler_SigTerm \<equiv> 254"
abbreviation (input) DX_ExitCode_OpenDeviceTwin :: int where "DX_ExitCode_OpenDeviceTwin \<equiv> 250"
abbreviation (input) DX_ExitCode_Gpio_Read :: int where "DX_ExitCode_Gpio_Read \<equiv> 246"
abbreviation (input) DX_ExitCode_PnPModelJsonMemoryAllocationFailed :: int where
  "DX_ExitCode_PnPModelJsonMemoryAllocationFailed \<equiv> 244"
abbreviation (input) DX_ExitCode_PnPModelJsonFailed :: int where "DX_ExitCode_PnPModelJsonFailed \<equiv> 243"
abbreviation (input) DX_ExitCode_Validate_Connection_Type_Not_Defined :: int where
  "DX_ExitCode_Validate_Connection_Type_Not_Defined \<equiv> 236"
abbreviation (input) DX_ExitCode_Gpio_Not_Initialized :: int where "DX_ExitCode_Gpio_Not_Initialized \<equiv> 235"
abbreviation (input) DX_ExitCode_Gpio_Wrong_Direction :: int where "DX_ExitCode_Gpio_Wrong_Direction \<equiv> 234"
abbreviation (input) DX_ExitCode_Gpio_Open_Output_Failed :: int where "DX_ExitCode_Gpio_Open_Output_Failed \<equiv> 233"
abbreviation (input) DX_ExitCode_Gpio_Open_Input_Failed :: int where "DX_ExitCode_Gpio_Open_Input_Failed \<equiv> 232"
abbreviation (input) DX_ExitCode_Gpio_Open_Direction_Unknown :: int where "DX_ExitCode_Gpio_Open_Direction_Unknown \<equiv> 231"
abbreviation (input) DX_ExitCode_Add_List_Node_Malloc_Failed :: int where "DX_ExitCode_Add_List_Node_Malloc_Failed \<equiv> 211"
abbreviation (input) DX_ExitCode_Avnet_Add_Child_Failed :: int where "DX_ExitCode_Avnet_Add_Child_Failed \<equiv> 210"
abbreviation (input) DX_ExitCode_I2C_Open_Failed :: int where "DX_ExitCode_I2C_Open_Failed \<equiv> 209"
abbreviation (input) DX_ExitCode_I2C_SetBusSpeed_Failed :: int where "DX_ExitCode_I2C_SetBusSpeed_Failed \<equiv> 208"
abbreviation (input) DX_ExitCode_I2C_SetTimeout_Failed :: int where "DX_ExitCode_I2C_SetTimeout_Failed \<equiv> 207"
abbreviation (input) DX_ExitCode_Create_Timer_Failed :: int where "DX_ExitCode_Create_Timer_Failed \<equiv> 206"
abbreviation (input) DX_ExitCode_Init_IoT_Failed :: int where "DX_ExitCode_Init_IoT_Failed \<equiv> 205"
abbreviation (input) DX_ExitCode_Async_Init_Failed :: int where "DX_ExitCode_Async_Init_Failed \<equiv> 204"
abbreviation (input) DX_ExitCode_Async_Send_Failed :: int where "DX_ExitCode_Async_Send_Failed \<equiv> 203"

text \<open>Timer calls name the timer and give the first timeout and the repeat period in milliseconds.\<close>

datatype uv_call =
    Uv_Timer_Init string
  | Uv_Timer_Start string "64 word" "64 word"
  | Uv_Timer_Set_Repeat string "64 word"
  | Uv_Timer_Stop string
  | Uv_Update_Time
  | Uv_Loop_Close
  | Uv_Run
  | Uv_Stop
  | Uv_Async_Init string
  | Uv_Async_Send string

record runtime =
  exit_code :: int
  uv_calls :: "uv_call list"

definition uv_call :: "uv_call \<Rightarrow> 'r runtime_scheme \<Rightarrow> 'r runtime_scheme" where
  "uv_call c rt = rt\<lparr>uv_calls := uv_calls rt @ [c]\<rparr>"

definition dx_eventLoopRun :: "'r runtime_scheme \<Rightarrow> 'r runtime_scheme" where
  "dx_eventLoopRun rt = uv_call Uv_Run rt"

definition dx_eventLoopStop :: "'r runtime_scheme \<Rightarrow> 'r runtime_scheme" where
  "dx_eventLoopStop rt = uv_call Uv_Stop rt"

definition dx_timerEventLoopStop :: "'r runtime_scheme \<Rightarrow> 'r runtime_scheme" where
  "dx_timerEventLoopStop rt = uv_call Uv_Loop_Close rt"

definition dx_terminate :: "int \<Rightarrow> 'r runtime_scheme \<Rightarrow> 'r runtime_scheme" where
  "dx_terminate exitCode rt = dx_eventLoopStop (rt\<lparr>exit_code := exitCode\<rparr>)"

definition dx_terminationHandler :: "int \<Rightarrow> 'r runtime_scheme \<Rightarrow> 'r runtime_scheme" where
  "dx_terminationHandler signalNumber rt =
     dx_eventLoopStop (rt\<lparr>exit_code := DX_ExitCode_TermHandler_SigTerm\<rparr>)"

text \<open>The handlers of the process by signal; \<open>sigaction\<close> puts the library's in the place of the one for SIGTERM.\<close>

abbreviation (input) SIGTERM :: int where "SIGTERM \<equiv> 15"

definition dx_registerTerminationHandler ::
  "(int \<Rightarrow> ('r runtime_scheme \<Rightarrow> 'r runtime_scheme) option) \<Rightarrow> int \<Rightarrow> ('r runtime_scheme \<Rightarrow> 'r runtime_scheme) option" where
  "dx_registerTerminationHandler handlers = handlers(SIGTERM \<mapsto> dx_terminationHandler SIGTERM)"

definition dx_getTerminationExitCode :: "'r runtime_scheme \<Rightarrow> int" where
  "dx_getTerminationExitCode rt = exit_code rt"

section \<open>Timers\<close>

record timespec =
  tv_sec :: int
  tv_nsec :: int

record timer_binding =
  tm_delay :: "timespec option"
  tm_repeat :: "timespec option"
  tm_name :: string
  tm_initialized :: bool

text \<open>
  \<open>tv_sec * 1000\<close> and \<open>tv_nsec / 1000000\<close> are computed on \<open>long\<close>, the division towards zero, and
  stored as \<open>uint64_t\<close>.
\<close>

definition timespec_ms :: "timespec \<Rightarrow> 64 word" where
  "timespec_ms t =
     word_of_int (tv_sec t * 1000) + word_of_int (sgn (tv_nsec t) * (\<bar>tv_nsec t\<bar> div 1000000))"

definition dx_timerChange :: "timer_binding \<Rightarrow> timespec \<Rightarrow> 'r runtime_scheme \<Rightarrow> bool \<times> 'r runtime_scheme" where
  "dx_timerChange timer period rt =
     (if \<not> tm_initialized timer then (False, rt)
      else (True, uv_call (Uv_Timer_Set_Repeat (tm_name timer) (timespec_ms period)) rt))"

definition dx_timerStart :: "'r runtime_scheme \<Rightarrow> timer_binding \<Rightarrow> bool \<times> timer_binding \<times> 'r runtime_scheme" where
  "dx_timerStart rt timer =
     (if tm_initialized timer then (True, timer, rt)
      else
        case (tm_delay timer, tm_repeat timer) of
          (Some _, Some _) \<Rightarrow> (False, timer, dx_terminate DX_ExitCode_Create_Timer_Failed rt)
        | (Some delay, None) \<Rightarrow>
            (True, timer\<lparr>tm_initialized := True\<rparr>,
             uv_call (Uv_Timer_Start (tm_name timer) (timespec_ms delay) 0)
               (uv_call (Uv_Timer_Init (tm_name timer)) rt))
        | (None, Some period) \<Rightarrow>
            (True, timer\<lparr>tm_initialized := True\<rparr>,
             uv_call (Uv_Timer_Start (tm_name timer) (timespec_ms period) (timespec_ms period))
               (uv_call (Uv_Timer_Init (tm_name timer)) rt))
        | (None, None) \<Rightarrow>
            (True, timer\<lparr>tm_initialized := True\<rparr>, uv_call (Uv_Timer_Init (tm_name timer)) rt))"

definition dx_timerStop :: "'r runtime_scheme \<Rightarrow> timer_binding \<Rightarrow> timer_binding \<times> 'r runtime_scheme" where
  "dx_timerStop rt timer =
     (if tm_initialized timer
      then (timer\<lparr>tm_initialized := False\<rparr>, uv_call (Uv_Timer_Stop (tm_name timer)) rt)
      else (timer, rt))"

definition dx_timerStateSet :: "'r runtime_scheme \<Rightarrow> timer_binding \<Rightarrow> bool \<Rightarrow> bool \<times> timer_binding \<times> 'r runtime_scheme" where
  "dx_timerStateSet rt timer state =
     (if state then dx_timerStart rt timer
      else let (timer', rt') = dx_timerStop rt timer in (True, timer', rt'))"

definition dx_timerOneShotSet :: "timer_binding \<Rightarrow> timespec \<Rightarrow> 'r runtime_scheme \<Rightarrow> bool \<times> 'r runtime_scheme" where
  "dx_timerOneShotSet timer period rt =
     (if tm_initialized timer
      then (True, uv_call (Uv_Timer_Start (tm_name timer) (timespec_ms period) 0) (uv_call Uv_Update_Time rt))
      else (False, rt))"

section \<open>Asynchronous events\<close>

text \<open>\<open>init_result\<close> and \<open>send_result\<close> are what libuv answers.\<close>

record 'd async_binding =
  as_name :: string
  as_data :: "'d option"

definition dx_asyncInit :: "int \<Rightarrow> 'd async_binding \<Rightarrow> 'r runtime_scheme \<Rightarrow> 'r runtime_scheme" where
  "dx_asyncInit init_result binding rt =
     (let rt' = uv_call (Uv_Async_Init (as_name binding)) rt in
      if init_result < 0 then dx_terminate DX_ExitCode_Async_Init_Failed rt' else rt')"

definition dx_asyncSend :: "int \<Rightarrow> 'd async_binding \<Rightarrow> 'd option \<Rightarrow> 'r runtime_scheme \<Rightarrow> 'd async_binding \<times> 'r runtime_scheme" where
  "dx_asyncSend send_result binding data rt =
     (let binding' = binding\<lparr>as_data := data\<rparr>;
          rt' = uv_call (Uv_Async_Send (as_name binding)) rt
      in (binding', if send_result < 0 then dx_terminate DX_ExitCode_Async_Send_Failed rt' else rt'))"

fun dx_asyncSetInit :: "(string \<Rightarrow> int) \<Rightarrow> 'd async_binding list \<Rightarrow> 'r runtime_scheme \<Rightarrow> 'r runtime_scheme" where
  "dx_asyncSetInit init_result [] rt = rt"
| "dx_asyncSetInit init_result (b # bs) rt =
     dx_asyncSetInit init_result bs (dx_asyncInit (init_result (as_name b)) b rt)"

section \<open>Sets of bindings\<close>

text \<open>The loops over a set, for any kind of binding: \<open>set_open\<close> breaks at the first failure.\<close>

fun set_open :: "('s \<Rightarrow> 'b \<Rightarrow> bool \<times> 'b \<times> 's) \<Rightarrow> 's \<Rightarrow> 'b list \<Rightarrow> 'b list \<times> 's" where
  "set_open open1 s [] = ([], s)"
| "set_open open1 s (b # bs) =
     (case open1 s b of
        (ok, b', s') \<Rightarrow>
          if \<not> ok then (b' # bs, s')
          else (case set_open open1 s' bs of (bs', s'') \<Rightarrow> (b' # bs', s'')))"

fun set_close :: "('s \<Rightarrow> 'b \<Rightarrow> 'b \<times> 's) \<Rightarrow> 's \<Rightarrow> 'b list \<Rightarrow> 'b list \<times> 's" where
  "set_close close1 s [] = ([], s)"
| "set_close close1 s (b # bs) =
     (case close1 s b of
        (b', s') \<Rightarrow> (case set_close close1 s' bs of (bs', s'') \<Rightarrow> (b' # bs', s'')))"

locale binding_set =
  fixes open1 :: "'s \<Rightarrow> 'b \<Rightarrow> bool \<times> 'b \<times> 's"
    and close1 :: "'s \<Rightarrow> 'b \<Rightarrow> 'b \<times> 's"
    and is_open :: "'s \<Rightarrow> 'b \<Rightarrow> bool"
  assumes open1_opens: "open1 s b = (True, b', s') \<Longrightarrow> is_open s' b'"
    and open1_keeps: "open1 s b = (r, b', s') \<Longrightarrow> is_open s c \<Longrightarrow> is_open s' c"
    and close1_closes: "close1 s b = (b', s') \<Longrightarrow> \<not> is_open s' b'"
    and close1_keeps: "close1 s b = (b', s') \<Longrightarrow> \<not> is_open s c \<Longrightarrow> \<not> is_open s' c"
begin

lemma set_open_keeps: "set_open open1 s bs = (bs', s') \<Longrightarrow> is_open s c \<Longrightarrow> is_open s' c"
  by (induction bs arbitrary: s bs') (auto split: prod.splits if_splits intro: open1_keeps)

text \<open>The bindings before the first failure are open afterwards; the ones behind it are as they were.\<close>

lemma set_open_prefix:
  "set_open open1 s bs = (bs', s') \<Longrightarrow>
   \<exists>n \<le> length bs. length bs' = length bs \<and> (\<forall>b \<in> set (take n bs'). is_open s' b) \<and>
     drop (Suc n) bs' = drop (Suc n) bs"
proof (induction bs arbitrary: s bs')
  case (Cons b bs)
  obtain r b1 s1 where o: "open1 s b = (r, b1, s1)" by (cases "open1 s b") auto
  show ?case
  proof (cases r)
    case False
    with o Cons.prems show ?thesis by (intro exI [of _ 0]) auto
  next
    case True
    with o Cons.prems obtain bs1 where bs1: "set_open open1 s1 bs = (bs1, s')" "bs' = b1 # bs1"
      by (auto split: prod.splits)
    have "is_open s1 b1" using open1_opens [of s b b1 s1] o True by simp
    then have b1: "is_open s' b1" by (rule set_open_keeps [OF bs1(1)])
    obtain n where "n \<le> length bs" "length bs1 = length bs" "\<forall>b \<in> set (take n bs1). is_open s' b"
      "drop (Suc n) bs1 = drop (Suc n) bs" using Cons.IH [OF bs1(1)] by blast
    with b1 bs1(2) show ?thesis by (intro exI [of _ "Suc n"]) auto
  qed
qed simp

lemma set_close_keeps: "set_close close1 s bs = (bs', s') \<Longrightarrow> \<not> is_open s c \<Longrightarrow> \<not> is_open s' c"
proof (induction bs arbitrary: s bs')
  case (Cons b bs)
  obtain b1 s1 where c: "close1 s b = (b1, s1)" by (cases "close1 s b")
  then have "\<not> is_open s1 c" using close1_keeps Cons.prems(2) by blast
  with Cons.IH [of s1] Cons.prems(1) c show ?case by (auto split: prod.splits)
qed simp

lemma set_close_all:
  "set_close close1 s bs = (bs', s') \<Longrightarrow> length bs' = length bs \<and> (\<forall>b \<in> set bs'. \<not> is_open s' b)"
proof (induction bs arbitrary: s bs')
  case (Cons b bs)
  obtain b1 s1 where c: "close1 s b = (b1, s1)" by (cases "close1 s b")
  obtain bs1 where bs1: "set_close close1 s1 bs = (bs1, s')" "bs' = b1 # bs1"
    using Cons.prems c by (auto split: prod.splits)
  have "\<not> is_open s1 b1" by (rule close1_closes [OF c])
  then have "\<not> is_open s' b1" by (rule set_close_keeps [OF bs1(1)])
  with Cons.IH [OF bs1(1)] bs1(2) show ?case by simp
qed simp

end

text \<open>Sets whose failures end the program: the exit code tells them apart from success.\<close>

locale reporting_set = binding_set +
  fixes code :: "'a \<Rightarrow> int" and failures :: "int set"
  assumes open1_success: "open1 s b = (True, b', s') \<Longrightarrow> code s' = code s"
    and open1_failure: "open1 s b = (False, b', s') \<Longrightarrow> \<not> is_open s' b' \<and> code s' \<in> failures"
begin

definition stopped_at :: "nat \<Rightarrow> 'b list \<Rightarrow> 'b list \<Rightarrow> 'a \<Rightarrow> bool" where
  "stopped_at n bs bs' s' \<longleftrightarrow> n < length bs \<and> (\<forall>b \<in> set (take n bs'). is_open s' b) \<and>
     \<not> is_open s' (bs' ! n) \<and> drop (Suc n) bs' = drop (Suc n) bs \<and> code s' \<in> failures"

lemma set_open_stops:
  "set_open open1 s bs = (bs', s') \<Longrightarrow>
   length bs' = length bs \<and>
   ((\<forall>b \<in> set bs'. is_open s' b) \<and> code s' = code s \<or> (\<exists>n. stopped_at n bs bs' s'))"
proof (induction bs arbitrary: s bs')
  case (Cons b bs)
  obtain r b1 s1 where o: "open1 s b = (r, b1, s1)" by (cases "open1 s b") auto
  show ?case
  proof (cases r)
    case False
    with o Cons.prems have "bs' = b1 # bs" "s' = s1" by auto
    with open1_failure [of s b b1 s1] o False have "stopped_at 0 (b # bs) bs' s'" by (simp add: stopped_at_def)
    with \<open>bs' = b1 # bs\<close> show ?thesis by auto
  next
    case True
    with o Cons.prems obtain bs1 where bs1: "set_open open1 s1 bs = (bs1, s')" "bs' = b1 # bs1"
      by (auto split: prod.splits)
    have c: "code s1 = code s" using open1_success [of s b b1 s1] o True by simp
    have "is_open s1 b1" using open1_opens [of s b b1 s1] o True by simp
    then have b1: "is_open s' b1" by (rule set_open_keeps [OF bs1(1)])
    have later: "stopped_at n bs bs1 s' \<Longrightarrow> stopped_at (Suc n) (b # bs) bs' s'" for n
      using b1 bs1(2) by (simp add: stopped_at_def)
    from Cons.IH [OF bs1(1)] b1 c bs1(2) later show ?thesis by fastforce
  qed
qed simp

end

section \<open>Sets of timers\<close>

definition dx_timerSetStart :: "'r runtime_scheme \<Rightarrow> timer_binding list \<Rightarrow> timer_binding list \<times> 'r runtime_scheme" where
  "dx_timerSetStart rt timers = set_open dx_timerStart rt timers"

definition dx_timerSetStop :: "'r runtime_scheme \<Rightarrow> timer_binding list \<Rightarrow> timer_binding list \<times> 'r runtime_scheme" where
  "dx_timerSetStop rt timers = set_close dx_timerStop rt timers"

interpretation timers: binding_set dx_timerStart dx_timerStop "\<lambda>_. tm_initialized"
  by unfold_locales (auto simp: dx_timerStart_def dx_timerStop_def split: option.splits if_splits)

interpretation timer_reports: reporting_set dx_timerStart dx_timerStop "\<lambda>_. tm_initialized"
  exit_code "{DX_ExitCode_Create_Timer_Failed}"
  by unfold_locales
     (auto simp: dx_timerStart_def uv_call_def dx_terminate_def dx_eventLoopStop_def split: option.splits if_splits)

text \<open>
  Starting a set of timers stops at the first one that has both a delay and a period: the timers
  before it run, it does not and the program ends with the exit code for it, and the timers behind it
  are as they were.  Without such a timer all run and the exit code stays.
\<close>

theorem timer_set_stops_at_failure:
  assumes "dx_timerSetStart rt timers = (timers', rt')"
  shows "length timers' = length timers \<and>
    ((\<forall>t \<in> set timers'. tm_initialized t) \<and> exit_code rt' = exit_code rt \<or>
     (\<exists>n < length timers. (\<forall>t \<in> set (take n timers'). tm_initialized t) \<and> \<not> tm_initialized (timers' ! n) \<and>
       drop (Suc n) timers' = drop (Suc n) timers \<and> exit_code rt' = DX_ExitCode_Create_Timer_Failed))"
  using timer_reports.set_open_stops [OF assms [unfolded dx_timerSetStart_def]]
  by (auto simp: timer_reports.stopped_at_def)

lemma timer_set_stops_at_failure_witness:
  "let second = \<lparr>tv_sec = 1, tv_nsec = 0\<rparr>;
       good = \<lparr>tm_delay = None, tm_repeat = Some second, tm_name = ''t'', tm_initialized = False\<rparr>;
       bad = good\<lparr>tm_delay := Some second\<rparr>
   in exit_code (snd (dx_timerSetStart \<lparr>exit_code = 0, uv_calls = []\<rparr> [good, bad, good])) = DX_ExitCode_Create_Timer_Failed"
  using timer_set_stops_at_failure [OF prod.collapse [symmetric],
    of "\<lparr>exit_code = 0, uv_calls = []\<rparr>"
       "[\<lparr>tm_delay = None, tm_repeat = Some \<lparr>tv_sec = 1, tv_nsec = 0\<rparr>, tm_name = ''t'', tm_initialized = False\<rparr>,
         \<lparr>tm_delay = Some \<lparr>tv_sec = 1, tv_nsec = 0\<rparr>, tm_repeat = Some \<lparr>tv_sec = 1, tv_nsec = 0\<rparr>, tm_name = ''t'',
          tm_initialized = False\<rparr>,
         \<lparr>tm_delay = None, tm_repeat = Some \<lparr>tv_sec = 1, tv_nsec = 0\<rparr>, tm_name = ''t'', tm_initialized = False\<rparr>]"]
  by (auto simp: Let_def dx_timerSetStart_def dx_timerStart_def uv_call_def dx_terminate_def dx_eventLoopStop_def)

end
