(* ===== verification/Dx_Gpio.thy ===== *)
theory Dx_Gpio
  imports Dx_Runtime
begin

text \<open>
  GPIO lines through libgpiod (src/src/dx_gpio.c).  The chips are shared: each of the six has a handle
  and a count of the open bindings on it, and is closed when the count falls to zero.  What
  libgpiod answers is the record \<open>gpiod\<close>; what it is asked is kept as a list of calls.  Handles are
  numbers.  The lemmas show the reference count right as long as libgpiod grants the lines it
  hands out, and by how much it is wrong when it does not.
\<close>

section \<open>State\<close>

datatype gpio_direction = DX_GPIO_DIRECTION_UNKNOWN | DX_GPIO_INPUT | DX_GPIO_OUTPUT

datatype gpio_detect = DX_GPIO_DETECT_LOW | DX_GPIO_DETECT_HIGH | DX_GPIO_DETECT_BOTH

record gpio_binding =
  line_handle :: "nat option"
  chip_number :: int
  line_number :: int
  gp_name :: string
  gp_direction :: gpio_direction
  gp_detect :: gpio_detect
  initial_state :: bool

datatype gpiod_call =
    Chip_Open nat
  | Chip_Close "nat option"
  | Request_Input nat
  | Request_Output nat int
  | Line_Release nat
  | Line_Set nat int

text \<open>The answers: a chip's handle, a line's handle on a chip, the request of a line, setting and getting a line.\<close>

record gpiod =
  chip_open_by_number :: "nat \<Rightarrow> nat option"
  chip_get_line :: "nat \<Rightarrow> int \<Rightarrow> nat option"
  line_request :: "nat \<Rightarrow> int"
  line_set_value :: "nat \<Rightarrow> int \<Rightarrow> int"
  line_get_value :: "nat \<Rightarrow> int"

text \<open>The array \<open>gpio_chips\<close>: the count and the handle of each chip.\<close>

record gpio_state =
  chip_count :: "nat \<Rightarrow> int"
  chip_handle :: "nat \<Rightarrow> nat option"
  gpiod_calls :: "gpiod_call list"

abbreviation (input) MAX_CHIP_NUMBER :: int where
  "MAX_CHIP_NUMBER \<equiv> 6"

definition gpiod_call :: "gpiod_call \<Rightarrow> gpio_state \<Rightarrow> gpio_state" where
  "gpiod_call c st = st\<lparr>gpiod_calls := gpiod_calls st @ [c]\<rparr>"

section \<open>Operations\<close>

definition close_chip :: "nat \<Rightarrow> gpio_state \<Rightarrow> gpio_state" where
  "close_chip n st =
     (if chip_count st n = 0
      then gpiod_call (Chip_Close (chip_handle st n)) (st\<lparr>chip_handle := (chip_handle st)(n := None)\<rparr>)
      else st)"

text \<open>The chip's handle, opened when it is not yet.\<close>

definition ensure_chip :: "gpiod \<Rightarrow> nat \<Rightarrow> gpio_state \<Rightarrow> gpio_state" where
  "ensure_chip lib n st =
     (if chip_handle st n = None
      then gpiod_call (Chip_Open n) (st\<lparr>chip_handle := (chip_handle st)(n := chip_open_by_number lib n)\<rparr>)
      else st)"

definition dx_gpioOpen :: "gpiod \<Rightarrow> gpio_state \<Rightarrow> gpio_binding \<Rightarrow> bool \<times> gpio_binding \<times> gpio_state" where
  "dx_gpioOpen lib st b =
     (if line_handle b \<noteq> None then (True, b, st)
      else if gp_direction b = DX_GPIO_DIRECTION_UNKNOWN \<or> chip_number b < 0 \<or>
              chip_number b \<ge> MAX_CHIP_NUMBER \<or> line_number b < 0 then (False, b, st)
      else
        let n = nat (chip_number b);
            st1 = ensure_chip lib n st
        in case chip_handle st1 n of
             None \<Rightarrow> (False, b, st1)
           | Some chip \<Rightarrow>
               (case chip_get_line lib chip (line_number b) of
                  None \<Rightarrow> (False, b\<lparr>line_handle := None\<rparr>, close_chip n st1)
                | Some line \<Rightarrow>
                    let b' = b\<lparr>line_handle := Some line\<rparr>;
                        request = (if gp_direction b = DX_GPIO_INPUT then Request_Input line
                                   else Request_Output line (of_bool (initial_state b)));
                        st2 = gpiod_call request st1
                    in if line_request lib line = -1 then (False, b', close_chip n st2)
                       else (True, b', st2\<lparr>chip_count := (chip_count st2)(n := chip_count st2 n + 1)\<rparr>)))"

definition dx_gpioClose :: "gpio_state \<Rightarrow> gpio_binding \<Rightarrow> gpio_binding \<times> gpio_state" where
  "dx_gpioClose st b =
     (case line_handle b of
        None \<Rightarrow> (b, st)
      | Some line \<Rightarrow>
          let n = nat (chip_number b);
              st1 = gpiod_call (Line_Release line) st;
              st2 = st1\<lparr>chip_count := (chip_count st1)(n := chip_count st1 n - 1)\<rparr>
          in (b\<lparr>line_handle := None\<rparr>, close_chip n st2))"

definition dx_gpioStateSet :: "gpiod \<Rightarrow> gpio_state \<Rightarrow> gpio_binding \<Rightarrow> bool \<Rightarrow> bool \<times> gpio_state" where
  "dx_gpioStateSet lib st b state =
     (case line_handle b of
        None \<Rightarrow> (False, st)
      | Some line \<Rightarrow>
          (line_set_value lib line (of_bool state) = 0, gpiod_call (Line_Set line (of_bool state)) st))"

definition dx_gpioOn :: "gpiod \<Rightarrow> gpio_state \<Rightarrow> gpio_binding \<Rightarrow> bool \<times> gpio_state" where
  "dx_gpioOn lib st b = dx_gpioStateSet lib st b True"

definition dx_gpioOff :: "gpiod \<Rightarrow> gpio_state \<Rightarrow> gpio_binding \<Rightarrow> bool \<times> gpio_state" where
  "dx_gpioOff lib st b = dx_gpioStateSet lib st b False"

definition dx_gpioStateGet :: "gpiod \<Rightarrow> gpio_binding \<Rightarrow> int" where
  "dx_gpioStateGet lib b = (case line_handle b of None \<Rightarrow> 0 | Some line \<Rightarrow> line_get_value lib line)"

definition dx_gpioSetOpen :: "gpiod \<Rightarrow> gpio_state \<Rightarrow> gpio_binding list \<Rightarrow> gpio_binding list \<times> gpio_state" where
  "dx_gpioSetOpen lib st bs = set_open (dx_gpioOpen lib) st bs"

definition dx_gpioSetClose :: "gpio_state \<Rightarrow> gpio_binding list \<Rightarrow> gpio_binding list \<times> gpio_state" where
  "dx_gpioSetClose st bs = set_close dx_gpioClose st bs"

interpretation gpio_lines: binding_set "dx_gpioOpen lib" dx_gpioClose "\<lambda>_ b. line_handle b \<noteq> None" for lib
  by unfold_locales
     (auto simp: dx_gpioOpen_def dx_gpioClose_def Let_def split: option.splits if_splits)

section \<open>The reference count\<close>

text \<open>The open bindings of a set that sit on chip \<open>n\<close>.\<close>

definition open_on :: "gpio_binding list \<Rightarrow> nat \<Rightarrow> nat" where
  "open_on bs n = length (filter (\<lambda>b. line_handle b \<noteq> None \<and> chip_number b = int n) bs)"

text \<open>
  \<open>r n\<close> counts the lines of chip \<open>n\<close> that were refused: their bindings keep the handle of the line, so they look open without being counted.
\<close>

definition gpio_ok :: "(nat \<Rightarrow> nat) \<Rightarrow> gpio_state \<Rightarrow> gpio_binding list \<Rightarrow> bool" where
  "gpio_ok r st bs \<longleftrightarrow>
     (\<forall>b \<in> set bs. line_handle b \<noteq> None \<longrightarrow> 0 \<le> chip_number b \<and> chip_number b < MAX_CHIP_NUMBER) \<and>
     (\<forall>n. chip_count st n = int (open_on bs n) - int (r n) \<and> (0 < chip_count st n \<longrightarrow> chip_handle st n \<noteq> None) \<and>
        (r n = 0 \<longrightarrow> (chip_handle st n \<noteq> None \<longleftrightarrow> 0 < open_on bs n)))"

datatype gpio_op = Open gpiod nat | Close nat

text \<open>One operation on the bindings of the application, by index, with the answers libgpiod gives to it.\<close>

fun gpio_step :: "gpio_state \<times> gpio_binding list \<Rightarrow> gpio_op \<Rightarrow> gpio_state \<times> gpio_binding list" where
  "gpio_step (st, bs) (Open lib i) =
     (if i < length bs then (case dx_gpioOpen lib st (bs ! i) of (_, b, st') \<Rightarrow> (st', bs[i := b])) else (st, bs))"
| "gpio_step (st, bs) (Close i) =
     (if i < length bs then (case dx_gpioClose st (bs ! i) of (b, st') \<Rightarrow> (st', bs[i := b])) else (st, bs))"

text \<open>The lines of chip \<open>n\<close> that were handed out and then refused: the opening fails with a line in its hands.\<close>

fun refused_by :: "gpio_state \<times> gpio_binding list \<Rightarrow> gpio_op \<Rightarrow> nat \<Rightarrow> nat" where
  "refused_by (st, bs) (Open lib i) n =
     of_bool (i < length bs \<and> chip_number (bs ! i) = int n \<and>
       (case dx_gpioOpen lib st (bs ! i) of (ok, b, _) \<Rightarrow> \<not> ok \<and> line_handle b \<noteq> None))"
| "refused_by s (Close i) n = 0"

primrec refused :: "gpio_state \<times> gpio_binding list \<Rightarrow> gpio_op list \<Rightarrow> nat \<Rightarrow> nat" where
  "refused s [] n = 0"
| "refused s (op # ops) n = refused_by s op n + refused (gpio_step s op) ops n"

lemma open_on_update:
  assumes "i < length bs"
  shows "open_on (bs[i := b]) n + of_bool (line_handle (bs ! i) \<noteq> None \<and> chip_number (bs ! i) = int n)
    = open_on bs n + of_bool (line_handle b \<noteq> None \<and> chip_number b = int n)"
proof -
  have "bs = take i bs @ bs ! i # drop (Suc i) bs" using assms by (rule id_take_nth_drop)
  then have "open_on bs n = open_on (take i bs @ bs ! i # drop (Suc i) bs) n" by simp
  moreover have "bs[i := b] = take i bs @ b # drop (Suc i) bs" using assms by (rule upd_conv_take_nth_drop)
  ultimately show ?thesis by (simp add: open_on_def)
qed

lemma chip_fields [simp]:
  "chip_count (close_chip n st) = chip_count st"
  "chip_handle (close_chip n st) =
     (if chip_count st n = 0 then (chip_handle st)(n := None) else chip_handle st)"
  "chip_count (ensure_chip lib n st) = chip_count st"
  "chip_handle (ensure_chip lib n st) =
     (if chip_handle st n = None then (chip_handle st)(n := chip_open_by_number lib n) else chip_handle st)"
  "chip_count (gpiod_call c st) = chip_count st" "chip_handle (gpiod_call c st) = chip_handle st"
  by (simp_all add: close_chip_def ensure_chip_def gpiod_call_def)

text \<open>A set in which binding \<open>i\<close>, closed before and after, changes nothing but itself.\<close>

lemma gpio_ok_closed:
  assumes ok: "gpio_ok r st bs" and i: "i < length bs" "line_handle (bs ! i) = None" "line_handle b = None"
    and count: "chip_count st' = chip_count st" and handles: "\<And>n. r n = 0 \<Longrightarrow> chip_handle st' n \<noteq> None \<longleftrightarrow> chip_handle st n \<noteq> None"
    and held: "\<And>n. 0 < chip_count st n \<Longrightarrow> chip_handle st n \<noteq> None \<Longrightarrow> chip_handle st' n \<noteq> None"
  shows "gpio_ok r st' (bs[i := b])"
proof -
  have "open_on (bs[i := b]) n = open_on bs n" for n using open_on_update [OF i(1), of b n] i(2,3) by simp
  with ok count handles held i(3) show ?thesis
    unfolding gpio_ok_def by (auto dest!: set_update_subset_insert [THEN subsetD])
qed

text \<open>Binding \<open>i\<close> gets a line, which is granted and counted or refused.\<close>

lemma gpio_ok_opened:
  assumes ok: "gpio_ok r st bs" and i: "i < length bs" "line_handle (bs ! i) = None"
    and b: "line_handle b \<noteq> None" "0 \<le> chip_number b" "chip_number b < MAX_CHIP_NUMBER" "n = nat (chip_number b)"
    and count: "chip_count st' = (chip_count st)(n := chip_count st n + of_bool granted)"
    and handles: "\<And>k. k \<noteq> n \<Longrightarrow> chip_handle st' k = chip_handle st k" "0 < chip_count st' n \<or> granted \<Longrightarrow> chip_handle st' n \<noteq> None"
  shows "gpio_ok (r(n := r n + of_bool (\<not> granted))) st' (bs[i := b])"
proof -
  have n: "open_on (bs[i := b]) k = open_on bs k + of_bool (k = n)" for k
    using open_on_update [OF i(1), of b k] i(2) b by (auto split: if_splits)
  let ?r = "r(n := r n + of_bool (\<not> granted))"
  have "chip_count st' k = int (open_on (bs[i := b]) k) - int (?r k) \<and> (0 < chip_count st' k \<longrightarrow> chip_handle st' k \<noteq> None) \<and>
      (?r k = 0 \<longrightarrow> (chip_handle st' k \<noteq> None \<longleftrightarrow> 0 < open_on (bs[i := b]) k))" for k
    using ok [unfolded gpio_ok_def, THEN conjunct2, rule_format, of k] handles(1) [of k] handles(2) count n [of k]
    by (cases "k = n"; cases granted) simp_all
  moreover have "\<forall>c \<in> set (bs[i := b]). line_handle c \<noteq> None \<longrightarrow> 0 \<le> chip_number c \<and> chip_number c < MAX_CHIP_NUMBER"
    using ok b by (auto simp: gpio_ok_def dest!: set_update_subset_insert [THEN subsetD])
  ultimately show ?thesis unfolding gpio_ok_def by blast
qed

lemma gpio_ok_cong: "gpio_ok r st bs \<Longrightarrow> (\<And>n. r' n = r n) \<Longrightarrow> gpio_ok r' st bs"
  by (simp add: gpio_ok_def)

lemma dx_gpioOpen_ok:
  assumes ok: "gpio_ok r st bs" and i: "i < length bs"
    and opn: "dx_gpioOpen lib st (bs ! i) = (res, b, st')"
  shows "gpio_ok (\<lambda>n. r n + refused_by (st, bs) (Open lib i) n) st' (bs[i := b])"
proof (cases "line_handle (bs ! i) = None \<and> gp_direction (bs ! i) \<noteq> DX_GPIO_DIRECTION_UNKNOWN \<and>
    0 \<le> chip_number (bs ! i) \<and> chip_number (bs ! i) < MAX_CHIP_NUMBER \<and> 0 \<le> line_number (bs ! i)")
  case False
  then have b: "b = bs ! i" "st' = st" "\<not> res \<Longrightarrow> line_handle b = None" using opn by (auto simp: dx_gpioOpen_def split: if_splits)
  then have "refused_by (st, bs) (Open lib i) n = 0" for n using opn by (cases res) auto
  with ok b show ?thesis by (simp add: gpio_ok_def)
next
  case guards: True
  define n where "n = nat (chip_number (bs ! i))"
  define st1 where "st1 = ensure_chip lib n st"
  have cnt: "0 < chip_count st k \<Longrightarrow> chip_handle st k \<noteq> None" "r k = 0 \<Longrightarrow> chip_handle st k \<noteq> None \<longleftrightarrow> chip_count st k \<noteq> 0" for k
    using ok by (auto simp: gpio_ok_def)
  note opn' = opn [unfolded dx_gpioOpen_def Let_def n_def [symmetric] st1_def [symmetric]]
  show ?thesis
  proof (cases "chip_handle st1 n")
    case None
    then have b: "b = bs ! i" "st' = st1" using opn' guards by auto
    then have z: "refused_by (st, bs) (Open lib i) k = 0" for k using opn guards by simp
    have "chip_handle st1 k \<noteq> None \<longleftrightarrow> chip_handle st k \<noteq> None" for k
      using None by (auto simp: st1_def split: if_splits)
    then have "gpio_ok r st' (bs[i := b])"
      using gpio_ok_closed [OF ok i, of "bs ! i" st1] guards by (simp add: st1_def b)
    with z show ?thesis by (simp only: add_0_right)
  next
    case chip: (Some chip)
    show ?thesis
    proof (cases "chip_get_line lib chip (line_number (bs ! i))")
      case None
      then have b: "b = (bs ! i)\<lparr>line_handle := None\<rparr>" "st' = close_chip n st1" using opn' guards chip by auto
      then have z: "refused_by (st, bs) (Open lib i) k = 0" for k using opn guards by simp
      have handles: "r k = 0 \<Longrightarrow> chip_handle st' k \<noteq> None \<longleftrightarrow> chip_handle st k \<noteq> None" for k
        using cnt(2) [of k] chip by (auto simp: b st1_def split: if_splits)
      have held: "0 < chip_count st k \<Longrightarrow> chip_handle st k \<noteq> None \<Longrightarrow> chip_handle st' k \<noteq> None" for k
        by (auto simp: b st1_def)
      have "gpio_ok r st' (bs[i := b])"
        by (rule gpio_ok_closed [OF ok i]) (use guards b handles held in \<open>simp_all add: st1_def\<close>)
      with z show ?thesis by (simp only: add_0_right)
    next
      case (Some line)
      define granted where "granted \<longleftrightarrow> line_request lib line \<noteq> -1"
      then have b: "line_handle b \<noteq> None" "chip_number b = chip_number (bs ! i)" "res = granted"
        "chip_count st' = (chip_count st)(n := chip_count st n + of_bool granted)"
        "chip_handle st' = (if \<not> granted \<and> chip_count st n = 0 then (chip_handle st1)(n := None) else chip_handle st1)"
        using opn' guards chip Some by (auto simp: st1_def Let_def split: if_splits)
      have handles: "chip_handle st' k = chip_handle st k" if "k \<noteq> n" for k using that b(5) by (simp add: st1_def)
      have held: "0 < chip_count st' n \<or> granted \<Longrightarrow> chip_handle st' n \<noteq> None" using chip b(4,5) by (auto split: if_splits)
      have "gpio_ok (r(n := r n + of_bool (\<not> granted))) st' (bs[i := b])"
        by (rule gpio_ok_opened [OF ok i _ b(1) _ _ _ b(4) handles held]) (use guards b(2) in \<open>simp_all add: n_def\<close>)
      moreover have "refused_by (st, bs) (Open lib i) k = of_bool (k = n \<and> \<not> granted)" for k
        using opn b(1,3) guards i by (auto simp: n_def)
      then have "r k + refused_by (st, bs) (Open lib i) k = (r(n := r n + of_bool (\<not> granted))) k" for k
        by (cases "k = n") (simp_all del: refused_by.simps)
      ultimately show ?thesis by (rule gpio_ok_cong)
    qed
  qed
qed

lemma dx_gpioClose_ok:
  assumes ok: "gpio_ok r st bs" and i: "i < length bs" and cls: "dx_gpioClose st (bs ! i) = (b, st')"
  shows "gpio_ok r st' (bs[i := b])"
proof (cases "line_handle (bs ! i)")
  case None
  then have "b = bs ! i" "st' = st" using cls by (simp_all add: dx_gpioClose_def)
  with ok show ?thesis by simp
next
  case (Some line)
  define n where "n = nat (chip_number (bs ! i))"
  have bi: "bs ! i \<in> set bs" using i by simp
  then have chip: "chip_number (bs ! i) = int n" using ok Some by (auto simp: gpio_ok_def n_def)
  have b: "b = (bs ! i)\<lparr>line_handle := None\<rparr>"
    "chip_count st' = (chip_count st)(n := chip_count st n - 1)"
    "chip_handle st' = (if chip_count st n - 1 = 0 then (chip_handle st)(n := None) else chip_handle st)"
    using cls Some by (auto simp: dx_gpioClose_def Let_def n_def)
  have on: "open_on (bs[i := b]) k + of_bool (k = n) = open_on bs k" for k
    using open_on_update [OF i, of b k] Some b(1) chip by (auto split: if_splits)
  have "chip_count st' k = int (open_on (bs[i := b]) k) - int (r k) \<and> (0 < chip_count st' k \<longrightarrow> chip_handle st' k \<noteq> None) \<and>
      (r k = 0 \<longrightarrow> (chip_handle st' k \<noteq> None \<longleftrightarrow> 0 < open_on (bs[i := b]) k))" for k
    using on [of k] ok [unfolded gpio_ok_def, THEN conjunct2, rule_format, of k] b(2,3) by (auto split: if_splits)
  moreover have "\<forall>c \<in> set (bs[i := b]). line_handle c \<noteq> None \<longrightarrow> 0 \<le> chip_number c \<and> chip_number c < MAX_CHIP_NUMBER"
    using ok b(1) by (auto simp: gpio_ok_def dest!: set_update_subset_insert [THEN subsetD])
  ultimately show ?thesis unfolding gpio_ok_def by blast
qed

lemma gpio_run_ok:
  assumes "gpio_ok r st bs"
  shows "case foldl gpio_step (st, bs) ops of (st', bs') \<Rightarrow> gpio_ok (\<lambda>n. r n + refused (st, bs) ops n) st' bs'"
  using assms
proof (induction ops arbitrary: r st bs)
  case (Cons op ops)
  obtain st1 bs1 where s: "gpio_step (st, bs) op = (st1, bs1)" by fastforce
  have "gpio_ok (\<lambda>n. r n + refused_by (st, bs) op n) st1 bs1"
  proof (cases op)
    case (Open lib i)
    show ?thesis
    proof (cases "i < length bs")
      case True
      then show ?thesis using s dx_gpioOpen_ok [OF Cons.prems True, of lib] by (auto simp: Open split: prod.splits)
    qed (use s Cons.prems in \<open>simp add: Open\<close>)
  next
    case (Close i)
    then show ?thesis using s Cons.prems dx_gpioClose_ok [OF Cons.prems] by (auto split: if_splits prod.splits)
  qed
  from Cons.IH [OF this] s show ?case by (simp add: add.assoc)
qed simp

section \<open>Properties\<close>

definition gpio_boot :: gpio_state where
  "gpio_boot = \<lparr>chip_count = \<lambda>_. 0, chip_handle = \<lambda>_. None, gpiod_calls = []\<rparr>"

lemma gpio_boot_ok: "\<forall>b \<in> set bs. line_handle b = None \<Longrightarrow> gpio_ok (\<lambda>_. 0) gpio_boot bs"
  by (simp add: gpio_ok_def gpio_boot_def open_on_def filter_False)

text \<open>
  C22: after any sequence of opening and closing the application's bindings, whatever libgpiod answers and refuses, the count of a
  chip is the number of bindings that look open on it, less the number of lines of that chip that libgpiod handed out and then
  refused; a chip with a positive count is held open.  So while no line of a chip has been refused, its count is the number of its
  open bindings and the chip is held open exactly when there is one.
\<close>

theorem gpio_chips_are_counted:
  assumes "\<forall>b \<in> set bs. line_handle b = None"
  shows "case foldl gpio_step (gpio_boot, bs) ops of (st, bs') \<Rightarrow>
    length bs' = length bs \<and>
    (\<forall>n. chip_count st n = int (open_on bs' n) - int (refused (gpio_boot, bs) ops n) \<and>
       (0 < chip_count st n \<longrightarrow> chip_handle st n \<noteq> None) \<and>
       (refused (gpio_boot, bs) ops n = 0 \<longrightarrow> (chip_handle st n \<noteq> None \<longleftrightarrow> 0 < open_on bs' n)))"
proof -
  have "length (snd (foldl gpio_step p ops)) = length (snd p)" for p
  proof (induction ops arbitrary: p)
    case (Cons op ops)
    have "length (snd (gpio_step p op)) = length (snd p)"
      by (cases p; cases op) (auto split: prod.splits)
    with Cons show ?case by simp
  qed simp
  from this [of "(gpio_boot, bs)"] gpio_run_ok [OF gpio_boot_ok [OF assms], of ops]
  show ?thesis by (simp add: gpio_ok_def split_beta)
qed

definition sample_gpiod :: gpiod where
  "sample_gpiod = \<lparr>chip_open_by_number = Some, chip_get_line = \<lambda>chip line. Some (10 * chip + nat line),
     line_request = \<lambda>_. 0, line_set_value = \<lambda>_ _. 0, line_get_value = \<lambda>_. 1\<rparr>"

definition sample_led :: gpio_binding where
  "sample_led = \<lparr>line_handle = None, chip_number = 2, line_number = 7, gp_name = ''led'',
     gp_direction = DX_GPIO_OUTPUT, gp_detect = DX_GPIO_DETECT_BOTH, initial_state = True\<rparr>"

text \<open>Two bindings are opened, one of them is closed again, and a third one is refused: the count is right by one refusal.\<close>

lemma gpio_chips_are_counted_witness:
  "case foldl gpio_step (gpio_boot, [sample_led, sample_led\<lparr>line_number := 8\<rparr>, sample_led\<lparr>line_number := 9\<rparr>])
     [Open sample_gpiod 0, Open sample_gpiod 1, Close 0, Open (sample_gpiod\<lparr>line_request := \<lambda>_. -1\<rparr>) 2] of
     (st, bs) \<Rightarrow> chip_count st 2 = int (open_on bs 2) - 1"
proof -
  let ?bs = "[sample_led, sample_led\<lparr>line_number := 8\<rparr>, sample_led\<lparr>line_number := 9\<rparr>]"
  let ?ops = "[Open sample_gpiod 0, Open sample_gpiod 1, Close 0, Open (sample_gpiod\<lparr>line_request := \<lambda>_. -1\<rparr>) 2]"
  have r: "refused (gpio_boot, ?bs) ?ops 2 = 1"
    by (simp add: dx_gpioOpen_def dx_gpioClose_def sample_gpiod_def sample_led_def gpio_boot_def Let_def numeral_2_eq_2)
  have closed: "\<forall>b \<in> set ?bs. line_handle b = None" by (simp add: sample_led_def)
  obtain st bs' where f: "foldl gpio_step (gpio_boot, ?bs) ?ops = (st, bs')" by fastforce
  have "chip_count st 2 = int (open_on bs' 2) - int (refused (gpio_boot, ?bs) ?ops 2)"
    using gpio_chips_are_counted [OF closed, of ?ops] unfolding f prod.case by blast
  then show ?thesis unfolding f prod.case r by simp
qed

text \<open>
  A line whose request is refused is reported as a failure, but its handle stays in the binding:
  opening it again reports success without a request, and closing it then drives the count of its
  chip below zero, here on a chip no other binding uses.
\<close>

theorem gpio_refused_line_looks_open:
  assumes "line_handle b = None" "gp_direction b \<noteq> DX_GPIO_DIRECTION_UNKNOWN" "0 \<le> chip_number b"
    "chip_number b < MAX_CHIP_NUMBER" "0 \<le> line_number b"
    and "chip_open_by_number lib (nat (chip_number b)) = Some chip" "chip_get_line lib chip (line_number b) = Some line"
    and "line_request lib line = -1"
  shows "case dx_gpioOpen lib gpio_boot b of
    (ok, b', st) \<Rightarrow> \<not> ok \<and> line_handle b' = Some line \<and> dx_gpioOpen lib st b' = (True, b', st) \<and>
      (case dx_gpioClose st b' of (_, st') \<Rightarrow> chip_count st' (nat (chip_number b)) = -1)"
  using assms
  by (auto simp: dx_gpioOpen_def dx_gpioClose_def gpio_boot_def ensure_chip_def close_chip_def gpiod_call_def Let_def)

lemma gpio_refused_line_looks_open_witness:
  "let lib = \<lparr>chip_open_by_number = Some, chip_get_line = \<lambda>chip line. Some 5,
               line_request = \<lambda>_. -1, line_set_value = \<lambda>_ _. 0, line_get_value = \<lambda>_. 1\<rparr>;
       led = \<lparr>line_handle = None, chip_number = 2, line_number = 7, gp_name = ''led'',
               gp_direction = DX_GPIO_OUTPUT, gp_detect = DX_GPIO_DETECT_BOTH, initial_state = True\<rparr>
   in case dx_gpioOpen lib gpio_boot led of (ok, b', st) \<Rightarrow> \<not> ok \<and> line_handle b' = Some 5"
  using gpio_refused_line_looks_open
    [of "\<lparr>line_handle = None, chip_number = 2, line_number = 7, gp_name = ''led'',
         gp_direction = DX_GPIO_OUTPUT, gp_detect = DX_GPIO_DETECT_BOTH, initial_state = True\<rparr>"
      "\<lparr>chip_open_by_number = Some, chip_get_line = \<lambda>chip line. Some 5,
         line_request = \<lambda>_. -1, line_set_value = \<lambda>_ _. 0, line_get_value = \<lambda>_. 1\<rparr>" 2 5]
  by (simp add: Let_def split: prod.splits)

end
