(* ===== verification/Dx_Peripherals.thy ===== *)
theory Dx_Peripherals
  imports Dx_Gpio
begin

text \<open>
  The other peripherals: the GPIO pins of the RemoteX variant (src/src/rx_gpio.c, which defines the same
  C names as dx_gpio.c and is linked instead of it, here with the prefix \<open>rx\<close>), the I2C masters
  (src/src/dx_i2c.c) and the PWM channels (src/src/dx_pwm.c).  The drivers below them (GPIO_Open...,
  I2CMaster_..., PWM_..., close) are not in the repository: what they answer is the record \<open>drivers\<close>,
  what they are asked is kept in the state in order.
\<close>

section \<open>Drivers\<close>

text \<open>The level of a pin: \<open>GPIO_Value_High\<close> is \<open>True\<close>.\<close>

datatype driver_call =
    Gpio_Open_Output int bool
  | Gpio_Open_Input int
  | Gpio_Set int bool
  | I2c_Open int
  | I2c_Set_Speed int "32 word"
  | I2c_Set_Timeout int "32 word"
  | Pwm_Open int
  | Pwm_Apply int int "32 word" "32 word" bool bool
  | Fd_Close int

record drivers =
  gpio_open_as_output :: "int \<Rightarrow> bool \<Rightarrow> int"
  gpio_open_as_input :: "int \<Rightarrow> int"
  gpio_get_value :: "int \<Rightarrow> bool option"
  i2c_open :: "int \<Rightarrow> int"
  i2c_set_speed :: "int \<Rightarrow> 32 word \<Rightarrow> int"
  i2c_set_timeout :: "int \<Rightarrow> 32 word \<Rightarrow> int"
  pwm_open :: "int \<Rightarrow> int"
  pwm_apply :: "int \<Rightarrow> int \<Rightarrow> int"
  close_fd :: "int \<Rightarrow> int"

record io = runtime +
  driver_calls :: "driver_call list"

definition driver :: "driver_call \<Rightarrow> 'a io_scheme \<Rightarrow> 'a io_scheme" where
  "driver c st = st\<lparr>driver_calls := driver_calls st @ [c]\<rparr>"

section \<open>GPIO pins of the RemoteX variant\<close>

datatype rx_direction = DX_DIRECTION_UNKNOWN | DX_INPUT | DX_OUTPUT

record rx_binding =
  rx_fd :: int
  rx_pin :: int
  rx_initialState :: bool
  rx_invertPin :: bool
  rx_detect :: gpio_detect
  rx_name :: "string option"
  rx_direction :: rx_direction
  rx_opened :: bool

text \<open>Opening a binding that is there; the inversion rewrites the initial state.\<close>

definition rx_open_binding :: "drivers \<Rightarrow> io \<Rightarrow> rx_binding \<Rightarrow> bool \<times> rx_binding \<times> io" where
  "rx_open_binding lib st p =
     (if rx_pin p < 0 then (False, p, st)
      else if rx_opened p then (True, p, st)
      else
        let p1 = (if rx_invertPin p then p\<lparr>rx_initialState := \<not> rx_initialState p\<rparr> else p)
        in case rx_direction p1 of
             DX_OUTPUT \<Rightarrow>
               let fd = gpio_open_as_output lib (rx_pin p1) (rx_initialState p1);
                   p2 = p1\<lparr>rx_fd := fd\<rparr>;
                   st1 = driver (Gpio_Open_Output (rx_pin p1) (rx_initialState p1)) st
               in if fd < 0 then (False, p2, dx_terminate DX_ExitCode_Gpio_Open_Output_Failed st1)
                  else (True, p2\<lparr>rx_opened := True\<rparr>, st1)
           | DX_INPUT \<Rightarrow>
               let fd = gpio_open_as_input lib (rx_pin p1);
                   p2 = p1\<lparr>rx_fd := fd\<rparr>;
                   st1 = driver (Gpio_Open_Input (rx_pin p1)) st
               in if fd < 0 then (False, p2, dx_terminate DX_ExitCode_Gpio_Open_Input_Failed st1)
                  else (True, p2\<lparr>rx_opened := True\<rparr>, st1)
           | DX_DIRECTION_UNKNOWN \<Rightarrow>
               (False, p1, dx_terminate DX_ExitCode_Gpio_Open_Direction_Unknown st))"

definition rx_gpioOpen :: "drivers \<Rightarrow> io \<Rightarrow> rx_binding option \<Rightarrow> bool \<times> rx_binding option \<times> io" where
  "rx_gpioOpen lib st peripheral =
     (case peripheral of
        None \<Rightarrow> (False, None, st)
      | Some p \<Rightarrow> (case rx_open_binding lib st p of (r, p', st') \<Rightarrow> (r, Some p', st')))"

definition rx_gpioClose :: "io \<Rightarrow> rx_binding \<Rightarrow> rx_binding \<times> io" where
  "rx_gpioClose st p =
     (p\<lparr>rx_fd := -1, rx_opened := False\<rparr>,
      if rx_opened p \<and> rx_fd p \<ge> 0 then driver (Fd_Close (rx_fd p)) st else st)"

definition rx_gpioSetOpen :: "drivers \<Rightarrow> io \<Rightarrow> rx_binding list \<Rightarrow> rx_binding list \<times> io" where
  "rx_gpioSetOpen lib st ps = set_open (rx_open_binding lib) st ps"

definition rx_gpioSetClose :: "io \<Rightarrow> rx_binding list \<Rightarrow> rx_binding list \<times> io" where
  "rx_gpioSetClose st ps = set_close rx_gpioClose st ps"

definition rx_gpioOn :: "io \<Rightarrow> rx_binding option \<Rightarrow> io" where
  "rx_gpioOn st peripheral =
     (case peripheral of
        Some p \<Rightarrow> if rx_opened p then driver (Gpio_Set (rx_fd p) (\<not> rx_invertPin p)) st
                  else dx_terminate DX_ExitCode_Gpio_Not_Initialized st
      | None \<Rightarrow> dx_terminate DX_ExitCode_Gpio_Not_Initialized st)"

definition rx_gpioOff :: "io \<Rightarrow> rx_binding option \<Rightarrow> io" where
  "rx_gpioOff st peripheral =
     (case peripheral of
        Some p \<Rightarrow> if rx_opened p then driver (Gpio_Set (rx_fd p) (rx_invertPin p)) st
                  else dx_terminate DX_ExitCode_Gpio_Not_Initialized st
      | None \<Rightarrow> dx_terminate DX_ExitCode_Gpio_Not_Initialized st)"

definition rx_gpioStateSet :: "io \<Rightarrow> rx_binding option \<Rightarrow> bool \<Rightarrow> io" where
  "rx_gpioStateSet st peripheral state = (if state then rx_gpioOn st peripheral else rx_gpioOff st peripheral)"

text \<open>The answer, the new \<open>oldState\<close> and the state.\<close>

definition rx_gpioStateGet :: "drivers \<Rightarrow> io \<Rightarrow> rx_binding option \<Rightarrow> bool \<Rightarrow> bool \<times> bool \<times> io" where
  "rx_gpioStateGet lib st peripheral oldState =
     (case peripheral of
        None \<Rightarrow> (False, oldState, dx_terminate DX_ExitCode_Gpio_Not_Initialized st)
      | Some p \<Rightarrow>
          if \<not> rx_opened p then (False, oldState, dx_terminate DX_ExitCode_Gpio_Not_Initialized st)
          else if rx_direction p \<noteq> DX_INPUT then
            (False, oldState, dx_terminate DX_ExitCode_Gpio_Wrong_Direction st)
          else
            (case gpio_get_value lib (rx_fd p) of
               None \<Rightarrow> (False, oldState, dx_terminate DX_ExitCode_Gpio_Read st)
             | Some newState \<Rightarrow>
                 ((case rx_detect p of
                     DX_GPIO_DETECT_LOW \<Rightarrow> newState \<noteq> oldState \<and> \<not> newState
                   | DX_GPIO_DETECT_HIGH \<Rightarrow> newState \<noteq> oldState \<and> newState
                   | DX_GPIO_DETECT_BOTH \<Rightarrow> newState \<noteq> oldState), newState, st)))"

interpretation rx_pins: binding_set "rx_open_binding lib" rx_gpioClose "\<lambda>_. rx_opened" for lib
  by unfold_locales
     (auto simp: rx_open_binding_def rx_gpioClose_def Let_def split: rx_direction.splits if_splits)

section \<open>I2C masters\<close>

record i2c_binding =
  i2_fd :: int
  i2_interfaceId :: int
  i2_speedInHz :: "32 word"
  i2_name :: string
  i2_opened :: bool

definition dx_i2cOpen :: "drivers \<Rightarrow> io \<Rightarrow> i2c_binding \<Rightarrow> bool \<times> i2c_binding \<times> io" where
  "dx_i2cOpen lib st b =
     (if i2_opened b then (True, b, st)
      else
        let fd = i2c_open lib (i2_interfaceId b);
            b1 = b\<lparr>i2_fd := fd\<rparr>;
            st1 = driver (I2c_Open (i2_interfaceId b)) st
        in if fd < 0 then (False, b1, dx_terminate DX_ExitCode_I2C_Open_Failed st1)
           else
             let st2 = driver (I2c_Set_Speed fd (i2_speedInHz b)) st1
             in if i2c_set_speed lib fd (i2_speedInHz b) \<noteq> 0
                then (False, b1, dx_terminate DX_ExitCode_I2C_SetBusSpeed_Failed st2)
                else
                  let st3 = driver (I2c_Set_Timeout fd 100) st2
                  in if i2c_set_timeout lib fd 100 \<noteq> 0
                     then (False, b1, dx_terminate DX_ExitCode_I2C_SetTimeout_Failed st3)
                     else (True, b1\<lparr>i2_opened := True\<rparr>, st3))"

definition dx_i2cClose :: "drivers \<Rightarrow> io \<Rightarrow> i2c_binding \<Rightarrow> bool \<times> i2c_binding \<times> io" where
  "dx_i2cClose lib st b =
     (if i2_opened b
      then (close_fd lib (i2_fd b) = 0, b\<lparr>i2_opened := False\<rparr>, driver (Fd_Close (i2_fd b)) st)
      else (True, b, st))"

definition dx_i2cSetOpen :: "drivers \<Rightarrow> io \<Rightarrow> i2c_binding list \<Rightarrow> i2c_binding list \<times> io" where
  "dx_i2cSetOpen lib st bs = set_open (dx_i2cOpen lib) st bs"

definition dx_i2cSetClose :: "drivers \<Rightarrow> io \<Rightarrow> i2c_binding list \<Rightarrow> i2c_binding list \<times> io" where
  "dx_i2cSetClose lib st bs = set_close (\<lambda>s b. snd (dx_i2cClose lib s b)) st bs"

interpretation i2c_masters: binding_set "dx_i2cOpen lib" "\<lambda>s b. snd (dx_i2cClose lib s b)" "\<lambda>_. i2_opened" for lib
  by unfold_locales (auto simp: dx_i2cOpen_def dx_i2cClose_def Let_def split: if_splits)

section \<open>PWM channels\<close>

text \<open>
  Several bindings share a controller, so the controllers are in a store and a binding names its own.
  The fields of the driver's \<open>PwmState\<close> are \<open>unsigned int\<close>.
\<close>

record pwm_controller =
  pc_fd :: int
  pc_controllerId :: int
  pc_initialized :: bool

record pwm_binding =
  pw_controller :: nat
  pw_channelId :: int
  pw_polarity :: bool
  pw_name :: string

record pwm_state = io +
  controllers :: "nat \<Rightarrow> pwm_controller"

definition in_range :: "32 word \<Rightarrow> 32 word \<Rightarrow> 32 word \<Rightarrow> bool" where
  "in_range number low high \<longleftrightarrow> low \<le> number \<and> high \<ge> number"

text \<open>None is the trap of a division by zero.\<close>

definition dx_pwmSetDutyCycle ::
    "drivers \<Rightarrow> pwm_state \<Rightarrow> pwm_binding \<Rightarrow> 32 word \<Rightarrow> 32 word \<Rightarrow> (bool \<times> pwm_state) option" where
  "dx_pwmSetDutyCycle lib st b hertz dutyCyclePercentage =
     (let c = controllers st (pw_controller b) in
      if pc_initialized c \<and> in_range dutyCyclePercentage 0 100 \<and> in_range hertz 0 100000 then
        if hertz = 0 then None
        else
          let period = 1000000000 div hertz;
              duty = period * dutyCyclePercentage div 100;
              st' = driver (Pwm_Apply (pc_fd c) (pw_channelId b) period duty (pw_polarity b) True) st
          in Some (pwm_apply lib (pc_fd c) (pw_channelId b) \<noteq> -1, st')
      else Some (False, st))"

definition dx_pwmStop :: "drivers \<Rightarrow> pwm_state \<Rightarrow> pwm_binding \<Rightarrow> bool \<times> pwm_state" where
  "dx_pwmStop lib st b =
     (let c = controllers st (pw_controller b) in
      if pc_initialized c
      then (pwm_apply lib (pc_fd c) (pw_channelId b) \<noteq> -1,
            driver (Pwm_Apply (pc_fd c) (pw_channelId b) 100000 100 (pw_polarity b) False) st)
      else (False, st))"

definition set_controller :: "nat \<Rightarrow> pwm_controller \<Rightarrow> pwm_state \<Rightarrow> pwm_state" where
  "set_controller i c st = st\<lparr>controllers := (controllers st)(i := c)\<rparr>"

definition dx_pwmOpen :: "drivers \<Rightarrow> pwm_state \<Rightarrow> pwm_binding \<Rightarrow> bool \<times> pwm_binding \<times> pwm_state" where
  "dx_pwmOpen lib st b =
     (let c = controllers st (pw_controller b) in
      if pc_initialized c then (True, b, st)
      else
        let fd = pwm_open lib (pc_controllerId c);
            st1 = driver (Pwm_Open (pc_controllerId c)) st
        in if fd = -1 then (False, b, set_controller (pw_controller b) (c\<lparr>pc_fd := fd\<rparr>) st1)
           else (True, b, set_controller (pw_controller b) (c\<lparr>pc_fd := fd, pc_initialized := True\<rparr>) st1))"

definition dx_pwmClose :: "drivers \<Rightarrow> pwm_state \<Rightarrow> pwm_binding \<Rightarrow> bool \<times> pwm_binding \<times> pwm_state" where
  "dx_pwmClose lib st b =
     (let c = controllers st (pw_controller b) in
      if pc_initialized c
      then (close_fd lib (pc_fd c) = 0, b,
            driver (Fd_Close (pc_fd c)) (set_controller (pw_controller b) (c\<lparr>pc_initialized := False\<rparr>) st))
      else (True, b, st))"

definition dx_pwmSetOpen :: "drivers \<Rightarrow> pwm_state \<Rightarrow> pwm_binding list \<Rightarrow> pwm_binding list \<times> pwm_state" where
  "dx_pwmSetOpen lib st bs = set_open (dx_pwmOpen lib) st bs"

definition dx_pwmSetClose :: "drivers \<Rightarrow> pwm_state \<Rightarrow> pwm_binding list \<Rightarrow> pwm_binding list \<times> pwm_state" where
  "dx_pwmSetClose lib st bs = set_close (\<lambda>s b. snd (dx_pwmClose lib s b)) st bs"

interpretation pwm_channels: binding_set "dx_pwmOpen lib" "\<lambda>s b. snd (dx_pwmClose lib s b)"
  "\<lambda>st b. pc_initialized (controllers st (pw_controller b))" for lib
  by unfold_locales
     (auto simp: dx_pwmOpen_def dx_pwmClose_def set_controller_def driver_def Let_def split: if_splits)

section \<open>Properties\<close>

lemma driver_sel [step_simps, simp]:
  "driver_calls (driver c st) = driver_calls st @ [c]" "exit_code (driver c st) = exit_code st"
  "uv_calls (driver c st) = uv_calls st" "driver_calls (dx_terminate code st) = driver_calls st"
  "exit_code (dx_terminate code st) = code" "uv_calls (dx_terminate code st) = uv_calls st @ [Uv_Stop]"
  by (simp_all add: driver_def dx_terminate_def dx_eventLoopStop_def uv_call_def)

interpretation i2c_reports: reporting_set "dx_i2cOpen lib" "\<lambda>s b. snd (dx_i2cClose lib s b)" "\<lambda>_. i2_opened"
  exit_code "{DX_ExitCode_I2C_Open_Failed, DX_ExitCode_I2C_SetBusSpeed_Failed, DX_ExitCode_I2C_SetTimeout_Failed}" for lib
  by unfold_locales (auto simp: dx_i2cOpen_def Let_def split: if_splits)

text \<open>
  Opening a set of I2C bindings stops at the first failure: what precedes it is open, the failing
  binding is not and has ended the program with one of the three I2C exit codes, and what follows has
  not been touched.
\<close>

theorem i2c_set_stops_at_failure:
  assumes "dx_i2cSetOpen lib st bs = (bs', st')"
  shows "length bs' = length bs \<and>
    ((\<forall>b \<in> set bs'. i2_opened b) \<and> exit_code st' = exit_code st \<or>
     (\<exists>n < length bs. (\<forall>b \<in> set (take n bs'). i2_opened b) \<and> \<not> i2_opened (bs' ! n) \<and>
       drop (Suc n) bs' = drop (Suc n) bs \<and>
       exit_code st' \<in> {DX_ExitCode_I2C_Open_Failed, DX_ExitCode_I2C_SetBusSpeed_Failed, DX_ExitCode_I2C_SetTimeout_Failed}))"
  using i2c_reports.set_open_stops [OF assms [unfolded dx_i2cSetOpen_def]]
  by (auto simp: i2c_reports.stopped_at_def)

definition io_boot :: io where
  "io_boot = \<lparr>exit_code = 0, uv_calls = [], driver_calls = []\<rparr>"

text \<open>Drivers that grant everything: descriptor 3, and 0 for success.\<close>

definition granting :: drivers where
  "granting = \<lparr>gpio_open_as_output = \<lambda>_ _. 3, gpio_open_as_input = \<lambda>_. 3, gpio_get_value = \<lambda>_. Some True,
     i2c_open = \<lambda>_. 3, i2c_set_speed = \<lambda>_ _. 0, i2c_set_timeout = \<lambda>_ _. 0, pwm_open = \<lambda>_. 3,
     pwm_apply = \<lambda>_ _. 0, close_fd = \<lambda>_. 0\<rparr>"

lemma i2c_set_stops_at_failure_witness:
  "let slow = \<lparr>i2_fd = -1, i2_interfaceId = 1, i2_speedInHz = 100000, i2_name = ''a'', i2_opened = False\<rparr>
   in exit_code (snd (dx_i2cSetOpen (granting\<lparr>i2c_set_speed := \<lambda>_ _. -1\<rparr>) io_boot [slow, slow])) \<noteq> 0"
  using i2c_set_stops_at_failure [OF prod.collapse [symmetric], of "granting\<lparr>i2c_set_speed := \<lambda>_ _. -1\<rparr>" io_boot
    "[\<lparr>i2_fd = -1, i2_interfaceId = 1, i2_speedInHz = 100000, i2_name = ''a'', i2_opened = False\<rparr>,
      \<lparr>i2_fd = -1, i2_interfaceId = 1, i2_speedInHz = 100000, i2_name = ''a'', i2_opened = False\<rparr>]"]
  by (auto simp: dx_i2cSetOpen_def dx_i2cOpen_def granting_def)

text \<open>
  An I2C master whose bus speed is refused keeps its descriptor open for good: closing the
  binding closes nothing, and a second open takes a second descriptor.
\<close>

theorem i2c_refused_speed_leaks:
  assumes "\<not> i2_opened b" "0 \<le> i2c_open lib (i2_interfaceId b)"
    "i2c_set_speed lib (i2c_open lib (i2_interfaceId b)) (i2_speedInHz b) \<noteq> 0"
  shows "case dx_i2cOpen lib st b of (ok, b1, st1) \<Rightarrow>
    \<not> ok \<and> dx_i2cClose lib st1 b1 = (True, b1, st1) \<and>
    filter (\<lambda>c. c = I2c_Open (i2_interfaceId b) \<or> c = Fd_Close (i2_fd b1)) (driver_calls (snd (snd (dx_i2cOpen lib st1 b1)))) =
    filter (\<lambda>c. c = I2c_Open (i2_interfaceId b) \<or> c = Fd_Close (i2_fd b1)) (driver_calls st)
      @ [I2c_Open (i2_interfaceId b), I2c_Open (i2_interfaceId b)]"
  using assms by (auto simp: dx_i2cOpen_def dx_i2cClose_def Let_def)

lemma i2c_refused_speed_leaks_witness:
  "let lib = granting\<lparr>i2c_set_speed := \<lambda>_ _. -1\<rparr>;
       slow = \<lparr>i2_fd = -1, i2_interfaceId = 1, i2_speedInHz = 100000, i2_name = ''a'', i2_opened = False\<rparr>
   in \<not> fst (dx_i2cOpen lib io_boot slow)"
  using i2c_refused_speed_leaks
    [of "\<lparr>i2_fd = -1, i2_interfaceId = 1, i2_speedInHz = 100000, i2_name = ''a'', i2_opened = False\<rparr>"
       "granting\<lparr>i2c_set_speed := \<lambda>_ _. -1\<rparr>" io_boot]
  by (auto simp: granting_def split: prod.splits)

text \<open>The answers to a sequence of samples of an input pin.\<close>

fun rx_poll :: "drivers \<Rightarrow> io \<Rightarrow> rx_binding \<Rightarrow> bool \<Rightarrow> bool list \<Rightarrow> bool list" where
  "rx_poll lib st p oldState [] = []"
| "rx_poll lib st p oldState (level # levels) =
     (case rx_gpioStateGet (lib\<lparr>gpio_get_value := \<lambda>_. Some level\<rparr>) st (Some p) oldState of
        (r, oldState', st') \<Rightarrow> r # rx_poll lib st' p oldState' levels)"

text \<open>
  C37: polling an open input pin reports an edge exactly when a sample differs from the sample
  before it, the first one from the initial \<open>oldState\<close>, in the direction the binding detects.
\<close>

theorem rx_poll_detects_edges:
  assumes "rx_opened p" "rx_direction p = DX_INPUT"
  shows "rx_poll lib st p oldState levels =
    map2 (\<lambda>previous level. previous \<noteq> level \<and>
            (rx_detect p = DX_GPIO_DETECT_LOW \<longrightarrow> previous) \<and> (rx_detect p = DX_GPIO_DETECT_HIGH \<longrightarrow> level))
         (oldState # levels) levels"
  using assms
  by (induction levels arbitrary: oldState)
     (auto simp: rx_gpioStateGet_def split: gpio_detect.splits)

definition rx_button :: rx_binding where
  "rx_button = \<lparr>rx_fd = 3, rx_pin = 5, rx_initialState = False, rx_invertPin = True, rx_detect = DX_GPIO_DETECT_LOW,
     rx_name = Some ''b'', rx_direction = DX_INPUT, rx_opened = True\<rparr>"

lemma rx_poll_detects_edges_witness:
  "rx_poll granting io_boot rx_button True [True, False, False, True, False] = [False, True, False, False, True]"
  using rx_poll_detects_edges [of rx_button granting io_boot True "[True, False, False, True, False]"]
  by (simp add: rx_button_def)

text \<open>
  Opening an inverted output drives the pin to the inverse of its initial state, but also
  stores the inverse, so that closing the binding and opening it again drives the pin to the other level.
\<close>

theorem rx_reopen_flips_level:
  assumes "\<not> rx_opened p" "0 \<le> rx_pin p" "rx_direction p = DX_OUTPUT" "rx_invertPin p"
    and "\<forall>pin level. 0 \<le> gpio_open_as_output lib pin level"
  shows "case rx_open_binding lib st p of (ok, p1, st1) \<Rightarrow> ok \<and>
    (case rx_gpioClose st1 p1 of (p2, st2) \<Rightarrow>
     case rx_open_binding lib st2 p2 of (ok', _, st3) \<Rightarrow> ok' \<and>
       driver_calls st3 = driver_calls st @
         [Gpio_Open_Output (rx_pin p) (\<not> rx_initialState p), Fd_Close (rx_fd p1),
          Gpio_Open_Output (rx_pin p) (rx_initialState p)])"
  using assms by (auto simp: rx_open_binding_def rx_gpioClose_def Let_def not_less)

lemma rx_reopen_flips_level_witness:
  "let led = rx_button\<lparr>rx_opened := False, rx_direction := DX_OUTPUT\<rparr>
   in fst (rx_open_binding granting io_boot led)"
  using rx_reopen_flips_level [of "rx_button\<lparr>rx_opened := False, rx_direction := DX_OUTPUT\<rparr>" granting io_boot]
  by (auto simp: rx_button_def granting_def split: prod.splits)

lemma pwm_words:
  fixes hertz duty :: "32 word"
  assumes "24 \<le> unat hertz" "unat duty \<le> 100"
  shows "unat (1000000000 div hertz) = 1000000000 div unat hertz"
    "unat (1000000000 div hertz * duty div 100) = 1000000000 div unat hertz * unat duty div 100"
proof -
  let ?p = "1000000000 div unat hertz"
  show p: "unat (1000000000 div hertz) = ?p" by (simp add: unat_div)
  have "?p \<le> 1000000000 div 24" using assms(1) by (intro div_le_mono2) auto
  then have "?p \<le> 41666666" by simp
  then have "?p * unat duty \<le> 41666666 * 100" using assms(2) by (rule mult_le_mono)
  then have "?p * unat duty < 2 ^ 32" by simp
  then have "unat (1000000000 div hertz * duty) = ?p * unat duty"
    using p by (simp add: unat_word_ariths(2))
  then show "unat (1000000000 div hertz * duty div 100) = ?p * unat duty div 100" by (simp add: unat_div)
qed

text \<open>
  On an initialized controller, a frequency of 24 to 100000 hertz and a duty of at most 100
  percent are applied with the period and the pulse that the exact quotients give: nothing wraps, and
  the pulse is no longer than the period.
\<close>

theorem pwm_duty_cycle_exact:
  assumes "pc_initialized (controllers st (pw_controller b))" "24 \<le> unat hertz" "unat hertz \<le> 100000" "unat duty \<le> 100"
  shows "\<exists>ok st' period pulse.
    dx_pwmSetDutyCycle lib st b hertz duty = Some (ok, st') \<and>
    driver_calls st' = driver_calls st @
      [Pwm_Apply (pc_fd (controllers st (pw_controller b))) (pw_channelId b) period pulse (pw_polarity b) True] \<and>
    unat period = 1000000000 div unat hertz \<and> unat pulse = unat period * unat duty div 100 \<and> pulse \<le> period"
proof -
  let ?p = "1000000000 div unat hertz"
  have "in_range duty 0 100" "in_range hertz 0 100000" "hertz \<noteq> 0"
    using assms(2-4) by (auto simp: in_range_def word_le_nat_alt)
  moreover have "?p * unat duty div 100 \<le> ?p * 100 div 100"
    by (intro div_le_mono mult_le_mono2 assms(4))
  ultimately show ?thesis
    using assms(1) pwm_words [OF assms(2,4)]
    by (simp add: dx_pwmSetDutyCycle_def Let_def word_le_nat_alt)
qed

definition pwm_boot :: pwm_state where
  "pwm_boot = \<lparr>exit_code = 0, uv_calls = [], driver_calls = [],
     controllers = \<lambda>_. \<lparr>pc_fd = 3, pc_controllerId = 0, pc_initialized = True\<rparr>\<rparr>"

definition pwm_led :: pwm_binding where
  "pwm_led = \<lparr>pw_controller = 0, pw_channelId = 1, pw_polarity = True, pw_name = ''led''\<rparr>"

lemma pwm_duty_cycle_exact_witness:
  "\<exists>ok st'. dx_pwmSetDutyCycle granting pwm_boot pwm_led 1000 25 = Some (ok, st')"
  using pwm_duty_cycle_exact [of pwm_boot pwm_led 1000 25 granting] by (auto simp: pwm_boot_def)

text \<open>
  Below 24 hertz the product wraps at 32 bits, so that one hertz with a duty of 50 percent is
  applied as a pulse of 27.6 instead of 500 milliseconds, and a frequency of 0, which passes the range
  check, divides by zero.
\<close>

theorem pwm_low_frequency_wraps:
  assumes "pc_initialized (controllers st (pw_controller b))"
  shows "dx_pwmSetDutyCycle lib st b 0 duty = (if unat duty \<le> 100 then None else Some (False, st)) \<and>
    (\<exists>ok st'. dx_pwmSetDutyCycle lib st b 1 50 = Some (ok, st') \<and>
      driver_calls st' = driver_calls st @
       [Pwm_Apply (pc_fd (controllers st (pw_controller b))) (pw_channelId b) 1000000000 27553597 (pw_polarity b) True])"
  using assms by (simp add: dx_pwmSetDutyCycle_def in_range_def word_le_nat_alt Let_def)

lemma pwm_low_frequency_wraps_witness: "dx_pwmSetDutyCycle granting pwm_boot pwm_led 0 50 = None"
  using pwm_low_frequency_wraps [of pwm_boot pwm_led granting 50] by (simp add: pwm_boot_def)

end
