(* ===== verification/Dx_Utilities.thy ===== *)
theory Dx_Utilities
  imports Dx_Runtime
begin

text \<open>
  The utilities of the library (src/src/dx_utilities.c): string tests, the growing buffer an HTTP body is
  received in, and the two network tests with their cache.  getifaddrs, curl and malloc belong to
  the system: the list of interfaces, the chunks curl delivers with its result, and the requests
  malloc grants are arguments.
\<close>

section \<open>Strings\<close>

definition dx_isStringNullOrEmpty :: "string option \<Rightarrow> bool" where
  "dx_isStringNullOrEmpty str \<longleftrightarrow> (case str of None \<Rightarrow> True | Some s \<Rightarrow> length s = 0)"

text \<open>The loop over the characters; the string's terminator is the end of the list.\<close>

fun dx_isStringPrintable :: "string \<Rightarrow> bool" where
  "dx_isStringPrintable [] = True"
| "dx_isStringPrintable (c # s) = (if isprint c then dx_isStringPrintable s else c = NUL)"

definition dx_stringEndsWith :: "string option \<Rightarrow> string option \<Rightarrow> int" where
  "dx_stringEndsWith str suffix =
     (case (str, suffix) of
        (Some s, Some e) \<Rightarrow>
          if length e > length s then 0
          else of_bool (strncmp_eq (drop (length s - length e) s) e (length e))
      | _ \<Rightarrow> 0)"

definition dx_getNowMilliseconds :: "timespec \<Rightarrow> int" where
  "dx_getNowMilliseconds now = tv_sec now * 1000 + sgn (tv_nsec now) * (\<bar>tv_nsec now\<bar> div 1000000)"

text \<open>The debug log: its buffer, and what goes to the console; the arguments are formatted already.\<close>

record debug_log =
  log_debug_buffer :: "char list option"
  log_debug_buffer_size :: nat
  console :: string

definition dx_Log_Debug_Init :: "char list \<Rightarrow> nat \<Rightarrow> debug_log \<Rightarrow> debug_log" where
  "dx_Log_Debug_Init buffer buffer_size lg =
     lg\<lparr>log_debug_buffer := Some buffer, log_debug_buffer_size := buffer_size\<rparr>"

definition dx_Log_Debug :: "string \<Rightarrow> string \<Rightarrow> debug_log \<Rightarrow> debug_log" where
  "dx_Log_Debug clock formatted lg =
     (case log_debug_buffer lg of
        None \<Rightarrow> lg\<lparr>console := console lg @ ''log_debug_buffer is NULL. Call Log_Debug_Time_Init first''\<rparr>
      | Some buf \<Rightarrow>
          let buf' = snprintf buf (log_debug_buffer_size lg) formatted
          in lg\<lparr>log_debug_buffer := Some buf', console := console lg @ clock @ '' - '' @ cstr buf'\<rparr>)"

text \<open>
  Starting a thread: \<open>created\<close> is the result of \<open>pthread_create\<close>, the threads are the functions with their arguments
  that run detached.
\<close>

definition dx_startThreadDetached ::
  "int \<Rightarrow> 'f \<Rightarrow> 'a \<Rightarrow> string \<Rightarrow> ('f \<times> 'a) list \<times> string \<Rightarrow> bool \<times> ('f \<times> 'a) list \<times> string" where
  "dx_startThreadDetached created daemon arg daemon_name st =
     (case st of
        (threads, out) \<Rightarrow>
          let out1 = out @ ''Starting thread '' @ daemon_name @ '' detached'' @ [CHR 0x0A]
          in if created \<noteq> 0
             then (False, threads, out1 @ ''ERROR: Failed to start '' @ daemon_name @ '' daemon.'' @ [CHR 0x0A])
             else (True, threads @ [(daemon, arg)], out1))"

section \<open>HTTP bodies\<close>

text \<open>
  The block \<open>mem_memory\<close> has \<open>mem_size + 1\<close> bytes; it is None when the first malloc failed.
  \<open>alloc n\<close> tells whether a request of \<open>n\<close> bytes is granted.
\<close>

record memory_struct =
  mem_memory :: "char list option"
  mem_size :: nat

definition WriteMemoryCallback :: "(nat \<Rightarrow> bool) \<Rightarrow> char list \<Rightarrow> memory_struct \<Rightarrow> nat \<times> memory_struct" where
  "WriteMemoryCallback alloc contents mem =
     (let realsize = length contents in
      if \<not> alloc (mem_size mem + realsize + 1) then (0, mem)
      else
        let old = take (mem_size mem) (case mem_memory mem of None \<Rightarrow> [] | Some m \<Rightarrow> m)
        in (realsize, \<lparr>mem_memory = Some (old @ contents @ [NUL]), mem_size = mem_size mem + realsize\<rparr>))"

text \<open>
  What curl does with the callback: a chunk after the other, and an error as soon as the callback
  takes less than it was given.
\<close>

fun curl_easy_perform :: "(nat \<Rightarrow> bool) \<Rightarrow> char list list \<Rightarrow> bool \<Rightarrow> memory_struct \<Rightarrow> bool \<times> memory_struct" where
  "curl_easy_perform alloc [] transfer_ok mem = (transfer_ok, mem)"
| "curl_easy_perform alloc (c # cs) transfer_ok mem =
     (case WriteMemoryCallback alloc c mem of
        (taken, mem') \<Rightarrow>
          if taken \<noteq> length c then (False, mem') else curl_easy_perform alloc cs transfer_ok mem')"

text \<open>\<open>junk\<close> is the byte malloc leaves in the first block.\<close>

definition dx_getHttpData :: "(nat \<Rightarrow> bool) \<Rightarrow> char \<Rightarrow> char list list \<Rightarrow> bool \<Rightarrow> char list option" where
  "dx_getHttpData alloc junk chunks transfer_ok =
     (let chunk = \<lparr>mem_memory = (if alloc 1 then Some [junk] else None), mem_size = 0\<rparr> in
      case curl_easy_perform alloc chunks transfer_ok chunk of
        (ok, mem) \<Rightarrow> if ok then mem_memory mem else None)"

section \<open>The network\<close>

datatype sa_family = AF_INET | AF_INET6 | AF_OTHER

record ifaddr =
  ifa_name :: string
  ifa_addr :: "sa_family option"

abbreviation (input) IFACE_IPv4 :: nat where "IFACE_IPv4 \<equiv> 1"
abbreviation (input) IFACE_IPv6 :: nat where "IFACE_IPv6 \<equiv> 2"

fun iface_bits :: "ifaddr list \<Rightarrow> nat \<Rightarrow> nat" where
  "iface_bits [] result = result"
| "iface_bits (ifa # rest) result =
     iface_bits rest
       (if \<not> strncmp_eq ''lo'' (ifa_name ifa) 2 then
          (case ifa_addr ifa of
             None \<Rightarrow> result
           | Some AF_INET \<Rightarrow> result OR IFACE_IPv4
           | Some AF_INET6 \<Rightarrow> result OR IFACE_IPv6
           | Some AF_OTHER \<Rightarrow> result)
        else result)"

definition dx_isNetworkReady :: "ifaddr list option \<Rightarrow> bool" where
  "dx_isNetworkReady interfaces =
     (case interfaces of None \<Rightarrow> False | Some list \<Rightarrow> iface_bits list 0 \<noteq> 0)"

text \<open>The state the network tests keep, added to the runtime.\<close>

record net = runtime +
  network_timer_initialised :: bool
  network_connected_cached :: bool
  tmr_network_connected :: timer_binding

definition network_connected_expired_handler :: "'r net_scheme \<Rightarrow> 'r net_scheme" where
  "network_connected_expired_handler st = st\<lparr>network_connected_cached := False\<rparr>"

text \<open>\<open>page\<close> is what the request to the test address returns.\<close>

definition dx_isNetworkConnected ::
    "ifaddr list option \<Rightarrow> char list option \<Rightarrow> string option \<Rightarrow> 'r net_scheme \<Rightarrow> bool \<times> 'r net_scheme" where
  "dx_isNetworkConnected interfaces page networkInterface st =
     (let st1 =
        (if \<not> network_timer_initialised st then
           (case dx_timerStart (st\<lparr>network_timer_initialised := True\<rparr>) (tmr_network_connected st) of
              (_, timer, st') \<Rightarrow> st'\<lparr>tmr_network_connected := timer\<rparr>)
         else st)
      in if \<not> dx_isNetworkReady interfaces then (False, st1)
         else if dx_isStringNullOrEmpty networkInterface then (True, st1)
         else if network_connected_cached st1 then (True, st1)
         else
           (case page of
              None \<Rightarrow> (False, st1)
            | Some _ \<Rightarrow>
                (True, snd (dx_timerOneShotSet (tmr_network_connected st1) \<lparr>tv_sec = 3 * 60, tv_nsec = 0\<rparr>
                              (st1\<lparr>network_connected_cached := True\<rparr>)))))"

definition dx_isDeviceAuthReady :: bool where
  "dx_isDeviceAuthReady = True"

section \<open>Properties\<close>

lemma isprint_NUL [simp]: "\<not> isprint NUL"
  by (simp add: isprint_def)

lemma dx_isStringPrintable_iff: "is_cstring s \<Longrightarrow> dx_isStringPrintable s \<longleftrightarrow> (\<forall>c \<in> set s. isprint c)"
  by (induction s) auto

lemma curl_easy_perform_memory:
  assumes "curl_easy_perform alloc chunks transfer_ok mem = (True, mem')" "\<forall>c \<in> set chunks. c \<noteq> []" "chunks \<noteq> []"
    "mem_size mem \<le> length (case mem_memory mem of None \<Rightarrow> [] | Some m \<Rightarrow> m)"
  shows "transfer_ok \<and> mem_memory mem' =
    Some (take (mem_size mem) (case mem_memory mem of None \<Rightarrow> [] | Some m \<Rightarrow> m) @ concat chunks @ [NUL])"
  using assms
proof (induction chunks arbitrary: mem)
  case (Cons c cs)
  obtain taken mem1 where w: "WriteMemoryCallback alloc c mem = (taken, mem1)" by fastforce
  have "c \<noteq> []" using Cons.prems(2) by simp
  then have m1: "mem_memory mem1 = Some (take (mem_size mem) (case mem_memory mem of None \<Rightarrow> [] | Some m \<Rightarrow> m) @ c @ [NUL])"
    "mem_size mem1 = mem_size mem + length c" and p: "curl_easy_perform alloc cs transfer_ok mem1 = (True, mem')"
    using w Cons.prems(1) by (auto simp: WriteMemoryCallback_def Let_def split: if_splits)
  show ?case
  proof (cases "cs = []")
    case True
    then show ?thesis using p m1 by simp
  next
    case False
    then show ?thesis using Cons.IH [OF p] m1 Cons.prems(2,4) by simp
  qed
qed simp

lemma curl_easy_perform_grants:
  "transfer_ok \<Longrightarrow> (\<And>n. alloc n) \<Longrightarrow> fst (curl_easy_perform alloc chunks transfer_ok mem)"
  by (induction chunks arbitrary: mem) (auto simp: WriteMemoryCallback_def Let_def)

text \<open>
  What dx_getHttpData returns for a body of at least one chunk is the concatenation of the chunks and the
  terminating NUL, whatever way the body is split; it returns nothing only when the transfer failed or a
  request for memory was refused.
\<close>

theorem dx_getHttpData_body:
  assumes "chunks \<noteq> []" "\<forall>c \<in> set chunks. c \<noteq> []"
  shows "dx_getHttpData alloc junk chunks transfer_ok \<in> {None, Some (concat chunks @ [NUL])} \<and>
    (dx_getHttpData alloc junk chunks transfer_ok = None \<longrightarrow> \<not> transfer_ok \<or> (\<exists>n. \<not> alloc n))"
proof -
  let ?m = "\<lparr>mem_memory = (if alloc 1 then Some [junk] else None), mem_size = 0\<rparr>"
  obtain ok mem where p: "curl_easy_perform alloc chunks transfer_ok ?m = (ok, mem)" by fastforce
  have "ok \<Longrightarrow> mem_memory mem = Some (concat chunks @ [NUL])"
    using curl_easy_perform_memory [of alloc chunks transfer_ok ?m mem] p assms by simp
  moreover have "\<not> ok \<Longrightarrow> \<not> transfer_ok \<or> (\<exists>n. \<not> alloc n)"
    using curl_easy_perform_grants [of transfer_ok alloc chunks ?m] by (metis p fst_conv)
  ultimately show ?thesis using p by (cases ok) (auto simp: dx_getHttpData_def Let_def)
qed

lemma dx_getHttpData_body_witness:
  "dx_getHttpData (\<lambda>n. n < 3) NUL [''ab'', ''c''] True = None \<and> dx_getHttpData (\<lambda>n. True) NUL [''ab'', ''c''] True = Some (''abc'' @ [NUL])"
  using dx_getHttpData_body [of "[''ab'', ''c'']" "\<lambda>n. True" NUL True]
  by (auto simp: dx_getHttpData_def WriteMemoryCallback_def)

lemma iface_bits_nonzero:
  "iface_bits ifas r \<noteq> 0 \<longleftrightarrow>
   r \<noteq> 0 \<or> (\<exists>i \<in> set ifas. take 2 (ifa_name i) \<noteq> ''lo'' \<and> ifa_addr i \<in> {Some AF_INET, Some AF_INET6})"
proof (induction ifas arbitrary: r)
  case (Cons i ifas)
  have "r OR 1 \<noteq> 0" "r OR 2 \<noteq> 0" by (simp_all add: or_eq_0_iff)
  with Cons.IH show ?case by (auto simp: strncmp_eq_def split: option.splits sa_family.splits)
qed simp

text \<open>
  The network is ready when some interface whose name does not begin with lo has an IPv4 or IPv6
  address; it is connected when it is ready and, with a network interface given, the test page answered
  now or within the time of the cache, which an answer fills.
\<close>

theorem dx_isNetworkConnected_spec:
  "(dx_isNetworkReady interfaces \<longleftrightarrow>
     (\<exists>ifas. interfaces = Some ifas \<and>
        (\<exists>i \<in> set ifas. take 2 (ifa_name i) \<noteq> ''lo'' \<and> (ifa_addr i = Some AF_INET \<or> ifa_addr i = Some AF_INET6)))) \<and>
   (case dx_isNetworkConnected interfaces page interface st of (connected, st') \<Rightarrow>
     (connected \<longleftrightarrow> dx_isNetworkReady interfaces \<and>
        (dx_isStringNullOrEmpty interface \<or> network_connected_cached st \<or> page \<noteq> None)) \<and>
     (network_connected_cached st' \<longleftrightarrow> network_connected_cached st \<or>
        dx_isNetworkReady interfaces \<and> \<not> dx_isStringNullOrEmpty interface \<and> page \<noteq> None))"
proof -
  have "dx_isNetworkReady interfaces \<longleftrightarrow> (\<exists>ifas. interfaces = Some ifas \<and> iface_bits ifas 0 \<noteq> 0)"
    by (simp add: dx_isNetworkReady_def split: option.splits)
  then have ready: "dx_isNetworkReady interfaces \<longleftrightarrow>
     (\<exists>ifas. interfaces = Some ifas \<and>
        (\<exists>i \<in> set ifas. take 2 (ifa_name i) \<noteq> ''lo'' \<and> (ifa_addr i = Some AF_INET \<or> ifa_addr i = Some AF_INET6)))"
    unfolding iface_bits_nonzero by auto
  moreover have "case dx_isNetworkConnected interfaces page interface st of (connected, st') \<Rightarrow>
     (connected \<longleftrightarrow> dx_isNetworkReady interfaces \<and>
        (dx_isStringNullOrEmpty interface \<or> network_connected_cached st \<or> page \<noteq> None)) \<and>
     (network_connected_cached st' \<longleftrightarrow> network_connected_cached st \<or>
        dx_isNetworkReady interfaces \<and> \<not> dx_isStringNullOrEmpty interface \<and> page \<noteq> None)"
    by (auto simp: dx_isNetworkConnected_def Let_def dx_timerStart_def dx_terminate_def dx_eventLoopStop_def
        uv_call_def dx_timerOneShotSet_def split: option.splits)
  ultimately show ?thesis by blast
qed

lemma dx_isNetworkConnected_spec_witness:
  "\<forall>st :: net.
     fst (dx_isNetworkConnected (Some [\<lparr>ifa_name = ''wlan0'', ifa_addr = Some AF_INET\<rparr>]) (Some ''ok'') (Some ''wlan0'') st) \<and>
     \<not> fst (dx_isNetworkConnected (Some [\<lparr>ifa_name = ''lo'', ifa_addr = Some AF_INET\<rparr>]) (Some ''ok'') (Some ''wlan0'') st)"
proof
  fix st :: net
  let ?on = "\<lambda>name. Some [\<lparr>ifa_name = name, ifa_addr = Some AF_INET\<rparr>]"
  show "fst (dx_isNetworkConnected (?on ''wlan0'') (Some ''ok'') (Some ''wlan0'') st) \<and>
    \<not> fst (dx_isNetworkConnected (?on ''lo'') (Some ''ok'') (Some ''wlan0'') st)"
    using dx_isNetworkConnected_spec [where interfaces = "?on ''wlan0''" and page = "Some ''ok''" and interface = "Some ''wlan0''" and st = st]
      dx_isNetworkConnected_spec [where interfaces = "?on ''lo''" and page = "Some ''ok''" and interface = "Some ''wlan0''" and st = st]
    by (simp add: split_beta)
qed

text \<open>
  Dx_stringEndsWith is 1 exactly when both strings are there and the first ends with the second.
\<close>

theorem dx_stringEndsWith_suffix:
  "dx_stringEndsWith str suffix =
     (case (str, suffix) of (Some s, Some e) \<Rightarrow> of_bool (\<exists>p. s = p @ e) | _ \<Rightarrow> 0)"
proof (cases "str = None \<or> suffix = None")
  case True
  then show ?thesis by (auto simp: dx_stringEndsWith_def split: option.splits)
next
  case False
  then obtain s e where s: "str = Some s" "suffix = Some e" by auto
  have "(length e \<le> length s \<and> drop (length s - length e) s = e) \<longleftrightarrow> (\<exists>p. s = p @ e)"
    by (metis append_eq_conv_conj append_take_drop_id diff_add_inverse2 le_add2 length_append)
  then show ?thesis by (auto simp: s dx_stringEndsWith_def strncmp_eq_def)
qed

end
