(* ===== verification/Dx_Config.thy ===== *)
theory Dx_Config
  imports Dx_Utilities
begin

text \<open>
  The configuration from the command line (src/src/dx_config.c).  getopt_long belongs to the C library: what
  it returns, one option character with its argument after the other, is the input of the loop.
\<close>

datatype ConnectionType =
  DX_CONNECTION_TYPE_NOT_DEFINED | DX_CONNECTION_TYPE_DPS | DX_CONNECTION_TYPE_HOSTNAME | DX_CONNECTION_TYPE_STRING

record user_config =
  idScope :: "string option"
  device_id :: "string option"
  device_key :: "string option"
  hostname :: "string option"
  connection_string :: "string option"
  network_interface :: "string option"
  connectionType :: ConnectionType

definition is_missing :: "string option \<Rightarrow> bool" where
  "is_missing optarg \<longleftrightarrow> (case optarg of None \<Rightarrow> False | Some a \<Rightarrow> char_at a 0 = CHR ''-'')"

definition config_option :: "user_config \<Rightarrow> char \<times> string option \<Rightarrow> user_config" where
  "config_option c = (\<lambda>(option, optarg).
     if is_missing optarg then c
     else if option = CHR ''c'' then c\<lparr>connection_string := optarg, connectionType := DX_CONNECTION_TYPE_STRING\<rparr>
     else if option = CHR ''s'' then c\<lparr>idScope := optarg, connectionType := DX_CONNECTION_TYPE_DPS\<rparr>
     else if option = CHR ''k'' then c\<lparr>device_key := optarg\<rparr>
     else if option = CHR ''d'' then c\<lparr>device_id := optarg\<rparr>
     else if option = CHR ''n'' then c\<lparr>network_interface := optarg\<rparr>
     else if option = CHR ''h'' then c\<lparr>hostname := optarg, connectionType := DX_CONNECTION_TYPE_HOSTNAME\<rparr>
     else c)"

definition dx_configParseCmdLineArguments ::
    "(char \<times> string option) list \<Rightarrow> user_config \<Rightarrow> bool \<times> user_config" where
  "dx_configParseCmdLineArguments options userConfig =
     (let c = foldl config_option (userConfig\<lparr>connectionType := DX_CONNECTION_TYPE_NOT_DEFINED\<rparr>) options in
      (case connectionType c of
         DX_CONNECTION_TYPE_NOT_DEFINED \<Rightarrow> False
       | DX_CONNECTION_TYPE_DPS \<Rightarrow> \<not> dx_isStringNullOrEmpty (idScope c)
       | DX_CONNECTION_TYPE_STRING \<Rightarrow> \<not> dx_isStringNullOrEmpty (connection_string c)
       | DX_CONNECTION_TYPE_HOSTNAME \<Rightarrow> \<not> dx_isStringNullOrEmpty (hostname c), c))"

section \<open>Properties\<close>

text \<open>The last argument given to one of the options \<open>os\<close>, or the value from before.\<close>

definition last_of :: "(char \<times> string option) list \<Rightarrow> char \<Rightarrow> string option \<Rightarrow> string option" where
  "last_of options opt before =
     (case rev (filter (\<lambda>(k, a). k = opt \<and> \<not> is_missing a) options) of [] \<Rightarrow> before | (_, a) # _ \<Rightarrow> a)"

definition type_of :: "char \<Rightarrow> ConnectionType" where
  "type_of opt =
     (if opt = CHR ''c'' then DX_CONNECTION_TYPE_STRING
      else if opt = CHR ''s'' then DX_CONNECTION_TYPE_DPS else DX_CONNECTION_TYPE_HOSTNAME)"

definition deciding :: "(char \<times> string option) list \<Rightarrow> (char \<times> string option) list" where
  "deciding options = rev (filter (\<lambda>(k, a). k \<in> set ''csh'' \<and> \<not> is_missing a) options)"

lemma last_of_snoc:
  "last_of (options @ [(k, a)]) opt before = (if k = opt \<and> \<not> is_missing a then a else last_of options opt before)"
  by (simp add: last_of_def)

lemma deciding_snoc:
  "deciding (options @ [(k, a)]) =
     (if (k = CHR ''c'' \<or> k = CHR ''s'' \<or> k = CHR ''h'') \<and> \<not> is_missing a then (k, a) # deciding options
      else deciding options)"
  by (simp add: deciding_def)

lemma config_option_sel:
  "idScope (config_option c (k, a)) = (if k = CHR ''s'' \<and> \<not> is_missing a then a else idScope c)"
  "device_id (config_option c (k, a)) = (if k = CHR ''d'' \<and> \<not> is_missing a then a else device_id c)"
  "device_key (config_option c (k, a)) = (if k = CHR ''k'' \<and> \<not> is_missing a then a else device_key c)"
  "hostname (config_option c (k, a)) = (if k = CHR ''h'' \<and> \<not> is_missing a then a else hostname c)"
  "connection_string (config_option c (k, a)) = (if k = CHR ''c'' \<and> \<not> is_missing a then a else connection_string c)"
  "network_interface (config_option c (k, a)) = (if k = CHR ''n'' \<and> \<not> is_missing a then a else network_interface c)"
  "connectionType (config_option c (k, a)) =
     (if (k = CHR ''c'' \<or> k = CHR ''s'' \<or> k = CHR ''h'') \<and> \<not> is_missing a then type_of k else connectionType c)"
  by (simp_all add: config_option_def type_of_def)

lemma last_of_nil: "last_of [] opt before = before" "deciding [] = []"
  by (simp_all add: last_of_def deciding_def)

lemma config_fold_pair:
  "P [] \<Longrightarrow> (\<And>k a options. P options \<Longrightarrow> P (options @ [(k, a)])) \<Longrightarrow> P options"
  for P :: "(char \<times> string option) list \<Rightarrow> bool"
  by (induction options rule: rev_induct) auto

lemma config_fold:
  "idScope (foldl config_option c options) = last_of options (CHR ''s'') (idScope c)"
  "device_id (foldl config_option c options) = last_of options (CHR ''d'') (device_id c)"
  "device_key (foldl config_option c options) = last_of options (CHR ''k'') (device_key c)"
  "hostname (foldl config_option c options) = last_of options (CHR ''h'') (hostname c)"
  "connection_string (foldl config_option c options) = last_of options (CHR ''c'') (connection_string c)"
  "network_interface (foldl config_option c options) = last_of options (CHR ''n'') (network_interface c)"
  "connectionType (foldl config_option c options) =
     (case deciding options of [] \<Rightarrow> connectionType c | (k, _) # _ \<Rightarrow> type_of k)"
  by (induction options rule: config_fold_pair; simp add: last_of_nil last_of_snoc deciding_snoc config_option_sel)+

lemma last_of_deciding:
  "deciding options = (k, a) # rest \<Longrightarrow>
   last_of options k before = a \<and> (k = CHR ''c'' \<or> k = CHR ''s'' \<or> k = CHR ''h'')"
proof (induction options rule: rev_induct)
  case (snoc o1 options)
  then show ?case by (cases o1) (auto simp: last_of_snoc deciding_snoc split: if_splits)
qed (simp add: deciding_def)

text \<open>
  Every field holds the last argument its option was given, arguments that begin with a minus sign
  left out, or what it held before; the last of the options c, s and h decides the connection type, and the
  result is whether there was one and its argument is not empty.
\<close>

theorem dx_config_last_option_wins:
  "case dx_configParseCmdLineArguments options userConfig of (ok, c) \<Rightarrow>
     ok = (case deciding options of [] \<Rightarrow> False | (_, a) # _ \<Rightarrow> \<not> dx_isStringNullOrEmpty a) \<and>
     connectionType c = (case deciding options of [] \<Rightarrow> DX_CONNECTION_TYPE_NOT_DEFINED | (k, _) # _ \<Rightarrow> type_of k) \<and>
     idScope c = last_of options (CHR ''s'') (idScope userConfig) \<and>
     device_id c = last_of options (CHR ''d'') (device_id userConfig) \<and>
     device_key c = last_of options (CHR ''k'') (device_key userConfig) \<and>
     hostname c = last_of options (CHR ''h'') (hostname userConfig) \<and>
     connection_string c = last_of options (CHR ''c'') (connection_string userConfig) \<and>
     network_interface c = last_of options (CHR ''n'') (network_interface userConfig)"
proof (cases "deciding options")
  case Nil
  then show ?thesis by (simp add: dx_configParseCmdLineArguments_def Let_def config_fold)
next
  case (Cons d rest)
  obtain k a where d: "d = (k, a)" by (cases d)
  have "last_of options k before = a" for before using last_of_deciding Cons d by blast
  moreover have "k = CHR ''c'' \<or> k = CHR ''s'' \<or> k = CHR ''h''" using last_of_deciding [of options k a rest] Cons d by blast
  ultimately show ?thesis
    using Cons d by (auto simp: dx_configParseCmdLineArguments_def Let_def config_fold type_of_def)
qed

end
