(* ===== verification/Dx_Json.thy ===== *)
theory Dx_Json
  imports Parson_Properties Dx_Utilities
begin

text \<open>
  dx_jsonSerialize (src/src/dx_json_serializer.c): key and value pairs, the variable arguments of the C
  function, written to a caller's buffer as a JSON object.  The lemmas in front of the properties say
  that a serialized value is a C string and that an int has an exact double.
\<close>

section \<open>The function\<close>

text \<open>One group of variable arguments; a float arrives as a double, a bool as an int.\<close>

datatype json_arg =
    DX_JSON_BOOL int
  | DX_JSON_STRING "string option"
  | DX_JSON_INT int
  | DX_JSON_FLOAT double
  | DX_JSON_DOUBLE double

definition json_set_pair :: "(nat \<Rightarrow> bool) \<Rightarrow> json_obj \<Rightarrow> string option \<times> json_arg \<Rightarrow> json_obj" where
  "json_set_pair mem obj = (\<lambda>(key, arg).
     case (case arg of
             DX_JSON_INT i \<Rightarrow> json_object_set_number mem (Some obj) key (double_of_int i)
           | DX_JSON_FLOAT x \<Rightarrow> json_object_set_number mem (Some obj) key x
           | DX_JSON_DOUBLE x \<Rightarrow> json_object_set_number mem (Some obj) key x
           | DX_JSON_STRING s \<Rightarrow> json_object_set_string mem (Some obj) key s
           | DX_JSON_BOOL b \<Rightarrow> json_object_set_boolean mem (Some obj) key b) of
       Inl _ \<Rightarrow> obj
     | Inr obj' \<Rightarrow> obj')"

text \<open>The macro DX_SAFE_STRING_COPY.\<close>

definition safe_string_copy :: "char list \<Rightarrow> string \<Rightarrow> nat \<Rightarrow> char list" where
  "safe_string_copy dest source len = (strncpy dest source len)[len - 1 := NUL]"

text \<open>
  \<open>root_mem\<close> and \<open>text_mem\<close> say whether the memory for the root object and for its text is granted.  Without a root every
  pair is refused and there is no text either; the length of a missing text is taken nevertheless, which is the crash None.
\<close>

definition dx_jsonSerialize ::
    "(nat \<Rightarrow> bool) \<Rightarrow> bool \<Rightarrow> bool \<Rightarrow> bool \<Rightarrow> char list \<Rightarrow> nat \<Rightarrow> (string option \<times> json_arg) list
     \<Rightarrow> (bool \<times> char list) option" where
  "dx_jsonSerialize mem root_mem text_mem escape_slashes buffer buffer_size pairs =
     (let root = (if root_mem then Some (JObject (foldl (json_set_pair mem) json_object_make pairs)) else None) in
      case (if text_mem then json_serialize_to_string escape_slashes root else None) of
        None \<Rightarrow> None
      | Some json \<Rightarrow>
          Some (if length json < buffer_size then (True, safe_string_copy buffer json buffer_size)
                else (False, buffer)))"

section \<open>Numbers and texts\<close>

lemma to_double_finite:
  assumes "n < 2 ^ 63"
  shows "is_finite (to_double neg n 1)"
proof (cases "n = 0")
  case False
  then have n: "0 < n" by simp
  have "log2_floor n 1 \<le> 63"
  proof (rule ccontr)
    assume "\<not> log2_floor n 1 \<le> 63"
    then have "(2 :: real) powi 64 \<le> 2 powi (log2_floor n 1)" by (intro power_int_increasing) simp_all
    also have "\<dots> \<le> real n / real 1" using log2_floor_bounds(1) [OF n, of 1] by simp
    finally have "(2 :: real) ^ 64 \<le> real n" by simp
    moreover have "real n < real (2 ^ 63)" using assms by (simp only: of_nat_less_iff)
    ultimately show False by simp
  qed
  define e where "e = max (-1074) (log2_floor n 1 - 52)"
  have "e \<le> 970" using \<open>log2_floor n 1 \<le> 63\<close> by (simp add: e_def)
  then show ?thesis using n by (simp add: to_double_def e_def [symmetric] Let_def del: One_nat_def)
qed (simp add: to_double_def)

lemma number_of_int_ok: "- (2 ^ 63) < i \<Longrightarrow> i < 2 ^ 63 \<Longrightarrow> value_ok (JNumber (double_of_int i))"
  using to_double_finite [of "nat \<bar>i\<bar>" "i < 0"] to_double_canonical [of 1 "i < 0" "nat \<bar>i\<bar>"]
  by (simp add: double_of_int_def nat_less_iff)

lemma is_cstring_concat [cstr_simps]: "is_cstring (concat ts) \<longleftrightarrow> (\<forall>t \<in> set ts. is_cstring t)"
  by (auto simp: is_cstring_def)

lemma is_cstring_printf_17g:
  assumes "value_ok (JNumber x)"
  shows "is_cstring (printf_17g x)"
proof -
  obtain neg m e where x: "x = Fin neg m e" using assms by (cases x) auto
  obtain n d where nd: "num_den 2 m e = (n, d)" by fastforce
  obtain r k where rk: "sig_digits n d = (r, k)" by fastforce
  note r = canonical_digits [OF nd rk]
  have "canonical m e" using assms x by simp
  then obtain ip fp xo where "printf_17g (Fin neg m e) = sign_text neg @ number_text ip fp xo"
     "\<forall>c \<in> set ip. isdigit c" "\<forall>c \<in> set fp. isdigit c"
    using printf_17g_shape [OF nd rk] r by blast
  then show ?thesis using number_text_chars(3) [of ip fp] by (auto simp: x is_cstring_def sign_text_def simp del: printf_17g.simps)
qed

lemma escape_char_cstring: "is_cstring (escape_char esc c)"
proof (cases "byte c < 0x20")
  case True
  have "hex_digit k \<noteq> NUL" if "k < 16" for k using that by (auto simp: hex_digit_def char_of_eq_iff take_bit_eq_mod)
  then have "hex_digit (byte c div 16) \<noteq> NUL" "hex_digit (byte c mod 16) \<noteq> NUL" using True by simp_all
  then show ?thesis using True by (simp add: escape_char_def is_cstring_def)
next
  case False
  then have "c \<noteq> NUL" by auto
  then show ?thesis using False by (simp add: escape_char_def is_cstring_def)
qed

lemma is_cstring_escaped: "is_cstring (json_serialize_string esc s)"
  by (simp add: json_serialize_string_def is_cstring_concat escape_char_cstring)

lemma is_cstring_indent: "is_cstring (json_indent k)"
  by (simp add: json_indent_def is_cstring_concat)

lemma is_cstring_members: "is_cstring (json_members pretty level ts) \<longleftrightarrow> (\<forall>t \<in> set ts. is_cstring t)"
  by (induction ts) (auto simp: is_cstring_indent)

lemma is_cstring_serialized: "value_ok v \<Longrightarrow> is_cstring (json_serialize_to_buffer_r esc pretty level v)"
proof (induction "size v" arbitrary: v level rule: less_induct)
  case less
  show ?case
  proof (cases v)
    case (JNumber x)
    then show ?thesis using is_cstring_printf_17g less.prems by simp
  next
    case (JArray a)
    have "is_cstring (json_serialize_to_buffer_r esc pretty (level + 1) w)" if "w \<in> set (array_items a)" for w
      using less.hyps [of w "level + 1"] less.prems size_array_items [OF that] that by (auto simp: JArray list_all_iff)
    then show ?thesis by (auto simp: JArray json_container_def is_cstring_members is_cstring_indent)
  next
    case (JObject obj)
    have "is_cstring (json_serialize_to_buffer_r esc pretty (level + 1) w)" if "w \<in> set (obj_values obj)" for w
      using less.hyps [of w "level + 1"] less.prems size_obj_values [OF that] that by (auto simp: JObject list_all_iff)
    then show ?thesis
      by (auto simp: JObject json_container_def is_cstring_members is_cstring_indent is_cstring_escaped dest: set_zip_rightD)
  qed (simp_all add: is_cstring_escaped)
qed

section \<open>Properties\<close>

text \<open>The value of an argument, None when parson refuses it, and the object the pairs denote.\<close>

fun arg_value :: "json_arg \<Rightarrow> json_value option" where
  "arg_value (DX_JSON_BOOL b) = Some (JBoolean (b \<noteq> 0))"
| "arg_value (DX_JSON_STRING s) = json_value_init_string s"
| "arg_value (DX_JSON_INT i) = json_value_init_number (double_of_int i)"
| "arg_value (DX_JSON_FLOAT x) = json_value_init_number x"
| "arg_value (DX_JSON_DOUBLE x) = json_value_init_number x"

fun arg_ok :: "json_arg \<Rightarrow> bool" where
  "arg_ok (DX_JSON_INT i) \<longleftrightarrow> - (2 ^ 31) \<le> i \<and> i < 2 ^ 31"
| "arg_ok (DX_JSON_FLOAT x) \<longleftrightarrow> is_double x"
| "arg_ok (DX_JSON_DOUBLE x) \<longleftrightarrow> is_double x"
| "arg_ok _ \<longleftrightarrow> True"

definition pair_ok :: "string option \<times> json_arg \<Rightarrow> bool" where
  "pair_ok = (\<lambda>(key, arg). (case key of None \<Rightarrow> True | Some k \<Rightarrow> is_cstring k) \<and> arg_ok arg)"

definition add_pair :: "(string \<times> json) list \<Rightarrow> string option \<times> json_arg \<Rightarrow> (string \<times> json) list" where
  "add_pair members = (\<lambda>(key, arg).
     case (key, arg_value arg) of (Some k, Some v) \<Rightarrow> AList.update k (json_abs v) members | _ \<Rightarrow> members)"

lemma arg_value_ok: "arg_ok arg \<Longrightarrow> arg_value arg = Some v \<Longrightarrow> value_ok v \<and> json_depth v = 0"
  using number_of_int_ok
  by (cases arg) (auto simp: json_value_init_number_def json_value_init_string_def json_value_init_string_with_len_def
      json_value_init_string_no_copy_def split: if_splits option.splits)

lemma json_set_pair_alt:
  "json_set_pair mem obj (key, arg) =
     (case object_set_value mem (Some obj) key (arg_value arg) False of Inl _ \<Rightarrow> obj | Inr obj' \<Rightarrow> obj')"
  by (cases arg) (simp_all add: json_set_pair_def json_object_set_number_def json_object_set_string_def
      json_object_set_boolean_def json_value_init_boolean_def)

lemma alist_update_map: "map (\<lambda>(k, v). (k, f v)) (AList.update k v xs) = AList.update k (f v) (map (\<lambda>(k, v). (k, f v)) xs)"
  by (induction xs) auto

text \<open>The table of the pairs: well formed, of leaves, denoting the pairs.\<close>

definition members_of :: "json_obj \<Rightarrow> (string \<times> json) list" where
  "members_of obj = map (\<lambda>(k, v). (k, json_abs v)) (obj_items obj)"

lemma json_set_pair_ok:
  assumes mem: "\<forall>k. mem k" and ok: "table_ok obj" "list_all (\<lambda>v. value_ok v \<and> json_depth v = 0) (obj_values obj)" "pair_ok p"
  shows "table_ok (json_set_pair mem obj p) \<and> members_of (json_set_pair mem obj p) = add_pair (members_of obj) p \<and>
    list_all (\<lambda>v. value_ok v \<and> json_depth v = 0) (obj_values (json_set_pair mem obj p))"
proof -
  obtain key arg where p: "p = (key, arg)" by (cases p)
  show ?thesis
  proof (cases "key = None \<or> arg_value arg = None")
    case True
    then show ?thesis using ok by (auto simp: p json_set_pair_alt object_set_value_def add_pair_def split: option.splits)
  next
    case False
    then obtain k v where k: "key = Some k" "arg_value arg = Some v" by auto
    then have "is_cstring k" "value_ok v" "json_depth v = 0" using ok(3) arg_value_ok by (auto simp: p pair_ok_def)
    moreover obtain obj' where o: "json_object_set_value mem obj k v False = Inr obj'" "table_ok obj'"
      "obj_items obj' = AList.update k v (obj_items obj)"
      using json_object_set_value_ok [OF ok(1) \<open>is_cstring k\<close>, of mem v] grow_granted_all [OF mem, of obj] by auto
    moreover have "set (map snd (AList.update k v xs)) \<subseteq> insert v (set (map snd xs))" for xs :: "(string \<times> json_value) list"
      by (induction xs) auto
    then have "set (map snd (obj_items obj')) \<subseteq> insert v (set (map snd (obj_items obj)))" using o(3) by metis
    then have "set (obj_values obj') \<subseteq> insert v (set (obj_values obj))"
      using table_okD(6) [OF ok(1)] table_okD(6) [OF o(2)] by (simp add: obj_items_def)
    moreover have "json_set_pair mem obj p = obj'" using o(1) k by (simp add: p json_set_pair_alt object_set_value_def)
    moreover have "members_of obj' = add_pair (members_of obj) p"
      using o(3) k by (simp add: members_of_def add_pair_def p alist_update_map)
    ultimately show ?thesis using ok(2) by (auto simp: list_all_iff)
  qed
qed

lemma json_set_pairs_ok:
  assumes mem: "\<forall>k. mem k" and ok: "table_ok obj" "list_all (\<lambda>v. value_ok v \<and> json_depth v = 0) (obj_values obj)" "list_all pair_ok ps"
  shows "table_ok (foldl (json_set_pair mem) obj ps) \<and> members_of (foldl (json_set_pair mem) obj ps) = foldl add_pair (members_of obj) ps \<and>
    list_all (\<lambda>v. value_ok v \<and> json_depth v = 0) (obj_values (foldl (json_set_pair mem) obj ps))"
  using ok
proof (induction ps arbitrary: obj)
  case (Cons p ps)
  then show ?case using json_set_pair_ok [OF mem Cons.prems(1,2), of p] Cons.IH [of "json_set_pair mem obj p"] by simp
qed simp

text \<open>The object that is serialized, and what the buffer holds.\<close>

lemma dx_jsonSerialize_object:
  assumes "\<forall>k. mem k" "list_all pair_ok pairs" "buffer_size \<le> length buffer"
  obtains json obj where "obj = foldl (json_set_pair mem) json_object_make pairs" "value_ok (JObject obj)" "json_depth (JObject obj) \<le> 1" "json_abs (JObject obj) = Obj (foldl add_pair [] pairs)"
    "json_serialize_to_string esc (Some (JObject obj)) = Some json"
    "dx_jsonSerialize mem True True esc buffer buffer_size pairs =
       Some (length json < buffer_size, if length json < buffer_size then safe_string_copy buffer json buffer_size else buffer)"
    "length json < buffer_size \<Longrightarrow> cstr (safe_string_copy buffer json buffer_size) = json \<and>
       length (safe_string_copy buffer json buffer_size) = length buffer"
proof -
  define obj where "obj = foldl (json_set_pair mem) json_object_make pairs"
  have o: "table_ok obj" "members_of obj = foldl add_pair [] pairs"
      "list_all (\<lambda>v. value_ok v \<and> json_depth v = 0) (obj_values obj)"
    using json_set_pairs_ok [OF assms(1) table_ok_make(1) _ assms(2)] by (simp_all add: obj_def members_of_def obj_items_def)
  then have ok: "value_ok (JObject obj)" by (auto simp: list_all_iff)
  have depth: "json_depth (JObject obj) \<le> 1" using o(3) by (auto simp: foldr_max_le list_all_iff)
  define json where "json = json_serialize_to_buffer_r esc False 0 (JObject obj)"
  have text_eq: "json_serialize_to_string esc (Some (JObject obj)) = Some json"
    by (simp add: json_serialize_to_string_def json_serialize_to_buffer_def json_serialization_size_def json_def)
  have abs_eq: "json_abs (JObject obj) = Obj (foldl add_pair [] pairs)"
    by (simp add: o(2) [symmetric] members_of_def obj_items_def zip_map2 case_prod_unfold)
  have c: "is_cstring json" unfolding json_def by (rule is_cstring_serialized [OF ok])
  have "cstr (safe_string_copy buffer json buffer_size) = json \<and> length (safe_string_copy buffer json buffer_size) = length buffer"
    if l: "length json < buffer_size"
  proof -
    obtain k where k: "buffer_size = length json + Suc k" using l less_imp_Suc_add by (metis add_Suc_right)
    then have "strncpy buffer json buffer_size = json @ replicate (Suc k) NUL @ drop buffer_size buffer"
      by (simp add: strncpy_def take_replicate)
    then have "safe_string_copy buffer json buffer_size = json @ NUL # replicate k NUL @ drop buffer_size buffer"
      by (cases k) (simp_all add: safe_string_copy_def k list_update_append replicate_append_same [symmetric])
    then show ?thesis using c assms(3) k by simp
  qed
  note copied = this
  have r: "dx_jsonSerialize mem True True esc buffer buffer_size pairs =
       Some (length json < buffer_size, if length json < buffer_size then safe_string_copy buffer json buffer_size else buffer)"
    by (simp add: dx_jsonSerialize_def text_eq obj_def [symmetric])
  show thesis by (rule that [OF obj_def ok depth abs_eq text_eq r copied])
qed

lemma serialized_parses:
  assumes "\<forall>k. mem k" "value_ok v" "json_depth v \<le> MAX_NESTING" "json_serialize_to_string esc (Some v) = Some json"
  shows "\<exists>w. json_parse_string mem (Some json) = Some w \<and> json_abs w = json_abs v"
  using parse_serialized [OF assms(1-3), of esc False] assms(4)
  by (auto simp: json_serialize_to_string_def json_serialize_to_buffer_def json_serialization_size_def)

text \<open>
  C13: with memory granted, dx_jsonSerialize succeeds exactly when the text that parson serializes for the object of the
  pairs is shorter than the caller's buffer, so that its NUL fits, and then the buffer holds that text, which the JSON parser
  reads back as the object of the pairs: every key once, in the order of its first use, with the value given to it last; pairs
  that parson refuses (a NULL key, a string that is not UTF-8, a number that is not finite) are left out.  Otherwise the
  buffer is untouched.  When the root object or the text gets no memory, the function crashes.
\<close>

theorem dx_jsonSerialize_reads_back:
  assumes "\<forall>k. mem k" "list_all pair_ok pairs" "buffer_size \<le> length buffer"
  shows "\<exists>json v buffer'.
    json_serialize_to_string esc (Some (JObject (foldl (json_set_pair mem) json_object_make pairs))) = Some json \<and>
    json_parse_string mem (Some json) = Some v \<and> json_abs v = Obj (foldl add_pair [] pairs) \<and>
    dx_jsonSerialize mem root_mem text_mem esc buffer buffer_size pairs =
      (if root_mem \<and> text_mem then Some (length json < buffer_size, buffer') else None) \<and>
    length buffer' = length buffer \<and> (if length json < buffer_size then cstr buffer' = json else buffer' = buffer)"
proof (rule dx_jsonSerialize_object [OF assms, of esc])
  fix obj json
  assume obj: "obj = foldl (json_set_pair mem) json_object_make pairs"
    and o: "value_ok (JObject obj)" "json_depth (JObject obj) \<le> 1" "json_abs (JObject obj) = Obj (foldl add_pair [] pairs)"
    "json_serialize_to_string esc (Some (JObject obj)) = Some json"
    and r: "dx_jsonSerialize mem True True esc buffer buffer_size pairs =
       Some (length json < buffer_size, if length json < buffer_size then safe_string_copy buffer json buffer_size else buffer)"
    and c: "length json < buffer_size \<Longrightarrow> cstr (safe_string_copy buffer json buffer_size) = json \<and>
       length (safe_string_copy buffer json buffer_size) = length buffer"
  have "json_depth (JObject obj) \<le> MAX_NESTING" using o(2) by simp
  then obtain v where v: "json_parse_string mem (Some json) = Some v" "json_abs v = json_abs (JObject obj)"
    using serialized_parses [OF assms(1) o(1) _ o(4)] by blast
  define buffer' where "buffer' = (if length json < buffer_size then safe_string_copy buffer json buffer_size else buffer)"
  have "dx_jsonSerialize mem root_mem text_mem esc buffer buffer_size pairs =
      (if root_mem \<and> text_mem then Some (length json < buffer_size, buffer') else None)"
    using r by (auto simp: buffer'_def dx_jsonSerialize_def json_serialize_to_string_def json_serialization_size_def Let_def)
  moreover have "length buffer' = length buffer \<and> (if length json < buffer_size then cstr buffer' = json else buffer' = buffer)"
    using c by (simp add: buffer'_def)
  moreover have "json_abs v = Obj (foldl add_pair [] pairs)" using v(2) o(3) by simp
  ultimately show ?thesis using o(4) v(1) unfolding obj by blast
qed

lemma dx_jsonSerialize_reads_back_witness:
  "\<exists>json v buffer'.
     dx_jsonSerialize (\<lambda>_. True) True True True (replicate 64 NUL) 64
       [(Some ''a'', DX_JSON_BOOL 0), (Some ''b'', DX_JSON_STRING (Some ''x'')), (Some ''a'', DX_JSON_BOOL 7)]
       = Some (length json < 64, buffer') \<and>
     (length json < 64 \<longrightarrow> cstr buffer' = json) \<and>
     json_parse_string (\<lambda>_. True) (Some json) = Some v \<and>
     json_abs v = Obj [(''a'', Bool True), (''b'', Str ''x'')]"
proof -
  let ?ps = "[(Some ''a'', DX_JSON_BOOL 0), (Some ''b'', DX_JSON_STRING (Some ''x'')), (Some ''a'', DX_JSON_BOOL 7)]"
  have "is_valid_utf8 ''x'' (Suc 0)"
    by (simp add: is_valid_utf8.simps verify_utf8_sequence_def num_bytes_in_utf8_sequence_def is_cont_def Let_def)
  then have "foldl add_pair [] ?ps = [(''a'', Bool True), (''b'', Str ''x'')]"
    by (simp add: add_pair_def json_value_init_string_def json_value_init_string_with_len_def
        json_value_init_string_no_copy_def)
  moreover have "list_all pair_ok ?ps" by (simp add: pair_ok_def)
  ultimately show ?thesis
    using dx_jsonSerialize_reads_back [of "\<lambda>_. True" ?ps 64 "replicate 64 NUL" True True True]
    by (simp add: Let_def) metis
qed

end
