(* ===== verification/Json_Text.thy ===== *)
theory Json_Text
  imports Dx_Json
begin

text \<open>
  JSON texts that the program writes by hand, with printf formats instead of the serializer, and what the
  parser makes of them: strings without characters that need escaping, the numbers of the formats
  \<open>%d\<close> and \<open>%f\<close>, and objects member by member.
\<close>

section \<open>Strings that need no escape\<close>

definition plain :: "string \<Rightarrow> bool" where
  "plain s \<longleftrightarrow> list_all (\<lambda>c. 0x20 \<le> byte c \<and> c \<noteq> CHR 0x22 \<and> c \<noteq> CHR 0x5C) s"

lemma plain_simps [simp]:
  "plain []" "plain (c # s) \<longleftrightarrow> 0x20 \<le> byte c \<and> c \<noteq> CHR 0x22 \<and> c \<noteq> CHR 0x5C \<and> plain s"
  "plain (s @ t) \<longleftrightarrow> plain s \<and> plain t"
  by (simp_all add: plain_def)

lemma plain_escape: "0x20 \<le> byte c \<Longrightarrow> c \<noteq> CHR 0x22 \<Longrightarrow> c \<noteq> CHR 0x5C \<Longrightarrow> escape_char False c = [c]"
  by (auto simp: escape_char_def)

lemma plain_quoted: "plain s \<Longrightarrow> json_serialize_string False s = CHR 0x22 # s @ [CHR 0x22]"
proof -
  assume "plain s"
  then have "concat (List.map (escape_char False) s) = s" by (induction s) (simp_all add: plain_escape)
  then show ?thesis by (simp add: json_serialize_string_def)
qed

definition quoted :: "string \<Rightarrow> string" where
  "quoted s = [CHR 0x22] @ s @ [CHR 0x22]"

lemma plain_cstring: "plain s \<Longrightarrow> is_cstring s"
  by (induction s) auto

lemma string_reads_back:
  assumes "n \<le> MAX_NESTING" "plain s"
  shows "reads_back mem n (CHR 0x22 # s @ [CHR 0x22]) (JString s)"
proof -
  have "parse_value mem n ((CHR 0x22 # s @ [CHR 0x22]) @ r) = Some (JString s, r)" for r
    using string_round_trip [of False s r] assms
    by (simp add: plain_quoted parse_value_nest parse_string_value_def json_value_init_string_no_copy_def)
  then show ?thesis by (simp add: reads_back_def value_start_def)
qed

lemma boolean_reads_back:
  assumes "n \<le> MAX_NESTING"
  shows "reads_back mem n (if b then ''true'' else ''false'') (JBoolean b)"
  using assms by (simp add: reads_back_def value_start_def parse_value_nest parse_boolean_value_def strncmp_eq_def
      json_value_init_boolean_def)

section \<open>Decimal numbers\<close>

lemma show_nat_lead: "show_nat n = ''0'' \<or> char_at (show_nat n) 0 \<noteq> CHR ''0''"
proof (induction n rule: show_nat.induct)
  case (1 n)
  show ?case
  proof (cases "n < 10")
    case True
    then have "show_nat n = [digit_char n]" by (simp add: show_nat.simps [of n])
    then show ?thesis using digit_char_0_iff [of n] True by (cases "n = 0") auto
  next
    case False
    then have "0 < n div 10" by (simp add: div_greater_zero_iff)
    then have "show_nat (n div 10) \<noteq> ''0''" using show_nat_val [of "n div 10"] by (auto simp: digits_val_def digit_val_def)
    with 1 False have "char_at (show_nat (n div 10)) 0 \<noteq> CHR ''0''" by simp
    then show ?thesis using False by (simp add: show_nat.simps [of n] char_at_append)
  qed
qed

definition decimal_text :: "string \<Rightarrow> string \<Rightarrow> string" where
  "decimal_text ip fp = (if fp = [] then ip else ip @ CHR ''.'' # fp)"

lemma decimal_text_cons:
  assumes "ip \<noteq> []" "\<forall>c \<in> set ip. isdigit c"
  obtains c s where "decimal_text ip fp = c # s" "isdigit c" "char_at ip 0 = c" "ip = [c] \<longrightarrow> s = (if fp = [] then [] else CHR ''.'' # fp)"
proof -
  obtain c t where "ip = c # t" using assms(1) by (cases ip) auto
  moreover from this have "decimal_text ip fp = c # (if fp = [] then t else t @ CHR ''.'' # fp)" by (simp add: decimal_text_def)
  ultimately show thesis using that assms(2) by auto
qed

lemma strtod_decimal:
  assumes "ip \<noteq> []" "\<forall>c \<in> set ip. isdigit c" "ip = ''0'' \<or> char_at ip 0 \<noteq> CHR ''0''"
    "\<forall>c \<in> set fp. isdigit c" "number_stop r"
  shows "strtod ((sign_text neg @ decimal_text ip fp) @ r) =
    (let x = to_double neg (digits_val (ip @ fp)) (10 ^ length fp)
     in (x, length (sign_text neg @ decimal_text ip fp), \<not> is_finite x))"
proof -
  have stop: "\<not> isdigit (char_at r 0)" "char_at r 0 \<noteq> CHR ''.''" "to_lower (char_at r 0) \<noteq> CHR ''e''"
    "to_lower (char_at r 0) \<noteq> CHR ''x''"
    using assms(5) by (simp_all add: number_stop_def Let_def)
  obtain c s where c: "decimal_text ip fp = c # s" "isdigit c" "char_at ip 0 = c"
     "ip = [c] \<longrightarrow> s = (if fp = [] then [] else CHR ''.'' # fp)"
    using decimal_text_cons [OF assms(1,2)] by blast
  have tl: "to_lower c = c" using c(2) by (auto simp: isdigit_def to_lower_def Let_def)
  have dec: "read_decimal neg (decimal_text ip fp @ r) =
      Some (to_double neg (digits_val (ip @ fp)) (10 ^ length fp), length (decimal_text ip fp))"
    using read_mantissa_text [OF assms(1,2,4) stop(1,2)] assms(1)
    by (simp add: read_decimal_def decimal_text_def [symmetric] read_exponent_none [OF stop(3)] num_den_def)
       (auto simp: decimal_text_def)
  have hex: "\<not> has_prefix_ci ''0x'' (decimal_text ip fp @ r)"
  proof (cases "c = CHR ''0''")
    case True
    then have "s = (if fp = [] then [] else CHR ''.'' # fp)" using assms(3) c by auto
    then show ?thesis using stop(4) by (cases r) (auto simp: c(1) has_prefix_ci_def to_lower_def)
  qed (simp add: c(1) has_prefix_ci_def tl)
  have "read_special neg (decimal_text ip fp @ r) = None" "read_hex neg (decimal_text ip fp @ r) = None"
    using isdigit_not [OF c(2)] hex by (simp_all add: c(1) read_special_def has_prefix_ci_def read_hex_def)
  moreover have "\<not> isspace CHR ''-''" by (simp add: isspace_def)
  ultimately show ?thesis
    using dec isdigit_not [OF c(2)] unfolding c(1)
    by (cases neg) (simp_all add: strtod_def sign_text_def Let_def)
qed

lemma is_decimal_decimal:
  assumes "ip \<noteq> []" "\<forall>c \<in> set ip. isdigit c" "ip = ''0'' \<or> char_at ip 0 \<noteq> CHR ''0''" "\<forall>c \<in> set fp. isdigit c"
  shows "is_decimal ((sign_text neg @ decimal_text ip fp) @ rest) (length (sign_text neg @ decimal_text ip fp))"
proof -
  let ?t = "sign_text neg @ decimal_text ip fp"
  have "c \<noteq> CHR ''x'' \<and> c \<noteq> CHR ''X'' \<and> c \<noteq> NUL" if "c \<in> set ?t" for c
  proof -
    have "isdigit c \<or> c = CHR ''-'' \<or> c = CHR ''.''"
      using that assms(2,4) by (auto simp: sign_text_def decimal_text_def split: if_splits)
    then show ?thesis by (auto dest: isdigit_not(6-8))
  qed
  then have chars: "list_all (\<lambda>c. c \<noteq> CHR ''x'' \<and> c \<noteq> CHR ''X'' \<and> c \<noteq> NUL) (take (length ?t) (?t @ rest))"
    by (simp add: list_all_iff)
  obtain c s where t: "decimal_text ip fp = c # s" "isdigit c" "char_at ip 0 = c"
     "ip = [c] \<longrightarrow> s = (if fp = [] then [] else CHR ''.'' # fp)"
    using decimal_text_cons [OF assms(1,2)] by blast
  have dot: "s = [] \<or> char_at s 0 = CHR ''.''" if "c = CHR ''0''"
    using that assms(3) t by auto
  have nz: "s \<noteq> [] \<Longrightarrow> char_at (s @ rest) 0 = char_at s 0" by (rule char_at_append)
  have m: "c \<noteq> CHR ''-''" using isdigit_not(2) [OF t(2)] .
  show ?thesis
    using chars dot nz m unfolding is_decimal_def t(1) sign_text_def strncmp_eq_def
    by (cases neg) (auto simp: numeral_2_eq_2)
qed

lemma decimal_reads_back:
  assumes "ip \<noteq> []" "\<forall>c \<in> set ip. isdigit c" "ip = ''0'' \<or> char_at ip 0 \<noteq> CHR ''0''" "\<forall>c \<in> set fp. isdigit c"
    "is_finite (to_double neg (digits_val (ip @ fp)) (10 ^ length fp))" "n \<le> MAX_NESTING"
  shows "reads_back mem n (sign_text neg @ decimal_text ip fp)
    (JNumber (to_double neg (digits_val (ip @ fp)) (10 ^ length fp)))"
proof -
  let ?t = "sign_text neg @ decimal_text ip fp"
  have "\<exists>c s. ?t = c # s \<and> (c = CHR ''-'' \<or> isdigit c)"
  proof -
    obtain c s where "decimal_text ip fp = c # s" "isdigit c" by (rule decimal_text_cons [OF assms(1,2)])
    then show ?thesis by (auto simp: sign_text_def)
  qed
  then obtain c s where c: "?t = c # s" "c = CHR ''-'' \<or> isdigit c" by blast
  have "parse_value mem n (?t @ r) = parse_number_value (?t @ r)" for r
    unfolding c(1) append_Cons by (rule parse_value_number [OF assms(6) c(2)])
  moreover have "parse_number_value (?t @ r) = Some (JNumber (to_double neg (digits_val (ip @ fp)) (10 ^ length fp)), r)"
    if "number_stop r" for r
    using strtod_decimal [OF assms(1-4) that, of neg] is_decimal_decimal [OF assms(1-4), of neg r] assms(5)
    by (simp add: parse_number_value_def json_value_init_number_def)
  ultimately show ?thesis using c by (auto simp: reads_back_def value_start_def)
qed

text \<open>The formats \<open>%d\<close> and \<open>%f\<close>.\<close>

lemma int_reads_back:
  assumes "\<bar>i\<bar> < 2 ^ 63" "n \<le> MAX_NESTING"
  shows "reads_back mem n (show_int i) (JNumber (double_of_int i))"
proof -
  have "is_finite (to_double (i < 0) (nat \<bar>i\<bar>) 1)" using assms(1) by (intro to_double_finite) (simp add: nat_less_iff)
  then show ?thesis
    using decimal_reads_back [of "show_nat (nat \<bar>i\<bar>)" "[]" "i < 0" n mem] show_nat_lead assms(2)
    by (simp add: decimal_text_def show_int_def sign_text_def double_of_int_def)
qed

text \<open>The double that the six decimals of \<open>%f\<close> denote.\<close>

fun six_decimals :: "double \<Rightarrow> double" where
  "six_decimals (Fin neg m e) =
     (let (n, d) = num_den 2 m e in to_double neg (round_div (n * 10 ^ 6) d) (10 ^ 6))"
| "six_decimals x = x"

lemma float_reads_back:
  assumes "is_finite x" "is_finite (six_decimals x)" "n \<le> MAX_NESTING"
  shows "reads_back mem n (printf_f x) (JNumber (six_decimals x))"
proof -
  obtain neg m e where x: "x = Fin neg m e" using assms(1) by (cases x) auto
  obtain a d where nd: "num_den 2 m e = (a, d)" by fastforce
  define r where "r = round_div (a * 10 ^ 6) d"
  have "digits_val (show_nat (r div 10 ^ 6) @ digits_n 6 (r mod 10 ^ 6)) = r"
    using digits_n_val [of "r mod 10 ^ 6" 6] by (simp add: digits_val_append del: digits_n.simps)
  moreover have "digits_n 6 (r mod 10 ^ 6) \<noteq> []" by (metis digits_n_facts(1) list.size(3) zero_neq_numeral)
  then have "printf_f x = sign_text neg @ decimal_text (show_nat (r div 10 ^ 6)) (digits_n 6 (r mod 10 ^ 6))"
    by (simp add: x nd r_def decimal_text_def Let_def del: digits_n.simps)
  moreover have "six_decimals x = to_double neg r (10 ^ 6)" by (simp add: x nd r_def)
  ultimately show ?thesis
    using decimal_reads_back [of "show_nat (r div 10 ^ 6)" "digits_n 6 (r mod 10 ^ 6)" neg n mem]
      show_nat_lead assms by (simp del: digits_n.simps)
qed

section \<open>Objects\<close>

text \<open>A text denotes a JSON value when the parser reads it as such, wherever it stands.\<close>

definition denotes :: "(nat \<Rightarrow> bool) \<Rightarrow> nat \<Rightarrow> string \<Rightarrow> json \<Rightarrow> bool" where
  "denotes mem n t j \<longleftrightarrow> (\<exists>c s. t = c # s \<and> value_start c) \<and>
     (\<forall>r. number_stop r \<longrightarrow> (\<exists>v. parse_value mem n (t @ r) = Some (v, r) \<and> json_abs v = j))"

lemma reads_back_denotes: "reads_back mem n t v \<longleftrightarrow> denotes mem n t (json_abs v)"
  by (simp add: reads_back_def denotes_def)

lemma denotes_parse:
  assumes "denotes mem 0 t j"
  shows "\<exists>v. json_parse_string mem (Some t) = Some v \<and> json_abs v = j"
proof -
  obtain v where v: "parse_value mem 0 t = Some (v, [])" "json_abs v = j"
    using assms by (auto simp: denotes_def dest: spec [of _ "[]"])
  obtain c s where "t = c # s" "value_start c" using assms by (auto simp: denotes_def)
  then have "char_at t 0 \<noteq> CHR 0xEF" by (auto simp: value_start_def isdigit_def)
  with v show ?thesis by (simp add: json_parse_string_def)
qed

lemma object_step:
  assumes "\<forall>k. mem k" "table_ok obj" "plain k" "k \<notin> set (names obj)" "denotes mem n t j" "number_stop tail"
  shows "\<exists>obj'. table_ok obj' \<and> names obj' = names obj @ [k] \<and>
    map json_abs (obj_values obj') = map json_abs (obj_values obj) @ [j] \<and>
    parse_object_loop mem n obj (CHR 0x22 # k @ CHR 0x22 # CHR '':'' # t @ tail) =
      (let s4 = skip_whitespaces tail in
       if char_at s4 0 \<noteq> CHR '','' then Some (obj', s4)
       else let s5 = skip_whitespaces (drop 1 s4) in
         if char_at s5 0 = CHR ''}'' then Some (obj', s5) else parse_object_loop mem n obj' s5)"
proof -
  obtain v where v: "parse_value mem n (t @ tail) = Some (v, tail)" "json_abs v = j"
    using assms(5,6) by (auto simp: denotes_def)
  have k: "is_cstring k" using assms(3) by (rule plain_cstring)
  obtain obj' where o: "json_object_add mem obj k v = Inr obj'" "table_ok obj'"
    "obj_items obj' = obj_items obj @ [(k, v)]"
    using json_object_add_fresh [OF assms(2) k assms(4), of mem v] grow_granted_all [OF assms(1)] by blast
  have q: "get_quoted_string (CHR 0x22 # k @ CHR 0x22 # CHR '':'' # t @ tail) = Some (k, CHR '':'' # t @ tail)"
    using string_round_trip [of False k "CHR '':'' # t @ tail"] assms(3) by (simp add: plain_quoted)
  have "parse_object_loop mem n obj (CHR 0x22 # k @ CHR 0x22 # CHR '':'' # t @ tail) =
      (let s4 = skip_whitespaces tail in
       if char_at s4 0 \<noteq> CHR '','' then Some (obj', s4)
       else let s5 = skip_whitespaces (drop 1 s4) in
         if char_at s5 0 = CHR ''}'' then Some (obj', s5) else parse_object_loop mem n obj' s5)"
    by (subst parse_object_loop.simps) (simp add: q k v(1) o(1))
  then show ?thesis using table_values [OF assms(2) o(2,3)] o(2) v(2) by auto
qed

text \<open>Members written one after the other, with a comma and some spaces between them.\<close>

fun members_text :: "string \<Rightarrow> (string \<times> string) list \<Rightarrow> string" where
  "members_text sp [] = []"
| "members_text sp ((k, t) # ms) = CHR 0x22 # k @ CHR 0x22 # CHR '':'' # t @
     (if ms = [] then [] else CHR '','' # sp @ members_text sp ms)"

lemma members_loop:
  assumes "\<forall>k. mem k" "\<forall>c \<in> set sp. isspace c" "ms \<noteq> []" "table_ok obj"
    "\<forall>(k, t, j) \<in> set ms. plain k \<and> denotes mem n t j" "distinct (names obj @ map fst ms)"
  shows "\<exists>obj'. parse_object_loop mem n obj (members_text sp (map (\<lambda>(k, t, j). (k, t)) ms) @ CHR ''}'' # rest)
      = Some (obj', CHR ''}'' # rest) \<and> table_ok obj' \<and> names obj' = names obj @ map fst ms \<and>
    map json_abs (obj_values obj') = map json_abs (obj_values obj) @ map (snd \<circ> snd) ms"
  using assms(3-)
proof (induction ms arbitrary: obj)
  case (Cons m ms)
  obtain k t j where m: "m = (k, t, j)" by (cases m)
  define more where "more = members_text sp (map (\<lambda>(k, t, j). (k, t)) ms) @ CHR ''}'' # rest"
  define tail where "tail = (if ms = [] then CHR ''}'' # rest else CHR '','' # sp @ more)"
  have "plain k" "denotes mem n t j" "k \<notin> set (names obj)" using Cons.prems m by auto
  moreover have "number_stop tail" by (simp add: tail_def)
  ultimately obtain obj1 where o: "table_ok obj1" "names obj1 = names obj @ [k]"
     "map json_abs (obj_values obj1) = map json_abs (obj_values obj) @ [j]" and
    step: "parse_object_loop mem n obj (CHR 0x22 # k @ CHR 0x22 # CHR '':'' # t @ tail) =
      (let s4 = skip_whitespaces tail in
       if char_at s4 0 \<noteq> CHR '','' then Some (obj1, s4)
       else let s5 = skip_whitespaces (drop 1 s4) in
         if char_at s5 0 = CHR ''}'' then Some (obj1, s5) else parse_object_loop mem n obj1 s5)"
    using object_step [OF assms(1) Cons.prems(2), of k n t j tail] by blast
  have txt_eq: "members_text sp (map (\<lambda>(k, t, j). (k, t)) (m # ms)) @ CHR ''}'' # rest
      = CHR 0x22 # k @ CHR 0x22 # CHR '':'' # t @ tail"
    by (simp add: m tail_def more_def)
  show ?case
  proof (cases "ms = []")
    case True
    then show ?thesis unfolding txt_eq step using o by (auto simp: tail_def m)
  next
    case False
    then obtain s where "more = CHR 0x22 # s" by (cases ms) (auto simp: more_def)
    moreover have "skip_whitespaces (sp @ more) = skip_whitespaces more"
      using assms(2) unfolding skip_whitespaces_def by (simp add: dropWhile_append2)
    ultimately have "parse_object_loop mem n obj (CHR 0x22 # k @ CHR 0x22 # CHR '':'' # t @ tail) =
        parse_object_loop mem n obj1 more"
      unfolding step using False by (simp add: tail_def)
    moreover obtain obj' where "parse_object_loop mem n obj1 more = Some (obj', CHR ''}'' # rest)" "table_ok obj'"
      "names obj' = names obj1 @ map fst ms" "map json_abs (obj_values obj') = map json_abs (obj_values obj1) @ map (snd \<circ> snd) ms"
      using Cons.IH [OF False o(1)] Cons.prems(3,4) m o(2) by (auto simp: more_def)
    ultimately show ?thesis unfolding txt_eq using o by (auto simp: m)
  qed
qed simp

lemma object_denotes:
  assumes "\<forall>k. mem k" "\<forall>c \<in> set sp. isspace c" "n \<le> MAX_NESTING" "ms \<noteq> []"
    "\<forall>(k, t, j) \<in> set ms. plain k \<and> denotes mem (Suc n) t j" "distinct (map fst ms)"
  shows "denotes mem n (CHR ''{'' # members_text sp (map (\<lambda>(k, t, j). (k, t)) ms) @ ''}'')
    (Obj (map (\<lambda>(k, t, j). (k, j)) ms))"
proof -
  have "\<exists>v. parse_value mem n ((CHR ''{'' # members_text sp (map (\<lambda>(k, t, j). (k, t)) ms) @ ''}'') @ r) = Some (v, r) \<and>
    json_abs v = Obj (map (\<lambda>(k, t, j). (k, j)) ms)" for r
  proof -
    let ?body = "members_text sp (map (\<lambda>(k, t, j). (k, t)) ms) @ CHR ''}'' # r"
    obtain obj where o: "parse_object_loop mem (Suc n) json_object_make ?body = Some (obj, CHR ''}'' # r)" "names obj = map fst ms"
      "map json_abs (obj_values obj) = map (snd \<circ> snd) ms"
      using members_loop [OF assms(1,2,4), of json_object_make "Suc n" r] assms(5,6) by auto
    obtain s where s: "?body = CHR 0x22 # s" using assms(4) by (cases ms) auto
    have "parse_value mem n (CHR ''{'' # ?body) = Some (JObject obj, r)"
      using o(1) assms(3) unfolding s by (simp add: parse_value_nest parse_object_value.simps)
    moreover have "zip (map fst ms) (map (snd \<circ> snd) ms) = map (\<lambda>(k, t, j). (k, j)) ms" by (induction ms) auto
    ultimately show ?thesis using o(2,3) by simp
  qed
  then show ?thesis by (auto simp: denotes_def value_start_def)
qed

text \<open>An object with given members, for the examples.\<close>

lemma object_with:
  assumes "distinct (map fst kvs)" "list_all is_cstring (map fst kvs)"
  shows "\<exists>obj :: json_obj. \<forall>k. json_object_get_value (Some obj) (Some k) = map_of kvs k"
proof -
  have "\<exists>obj. table_ok obj \<and> obj_items obj = kvs"
    using assms
  proof (induction kvs rule: rev_induct)
    case Nil
    then show ?case using table_ok_make(1) by (auto simp: obj_items_def intro!: exI [of _ json_object_make])
  next
    case (snoc kv kvs)
    then obtain obj where obj: "table_ok obj" "obj_items obj = kvs" by auto
    obtain k v where kv: "kv = (k, v)" by (cases kv)
    have "k \<notin> set (map fst kvs)" using snoc.prems(1) by (simp add: kv)
    then have "k \<notin> set (names obj)" using map_fst_obj_items [OF obj(1)] obj(2) by metis
    then show ?case
      using json_object_add_fresh [OF obj(1), of k "\<lambda>_. True" v] grow_granted_all [of "\<lambda>_. True" obj] snoc.prems(2) obj(2)
      by (auto simp: kv)
  qed
  then obtain obj where "table_ok obj" "obj_items obj = kvs" by blast
  then show ?thesis by (intro exI [of _ obj]) (simp add: json_object_get_value_def getn_value_all obj_map_def)
qed

text \<open>An array of one element.\<close>

lemma singleton_denotes:
  assumes "\<forall>k. mem k" "n \<le> MAX_NESTING" "denotes mem (Suc n) t j"
  shows "denotes mem n (''['' @ t @ '']'') (Arr [j])"
proof -
  have "\<exists>v. parse_value mem n (CHR ''['' # t @ CHR '']'' # r) = Some (v, r) \<and> json_abs v = Arr [j]" for r
  proof -
    obtain v where v: "parse_value mem (Suc n) (t @ CHR '']'' # r) = Some (v, CHR '']'' # r)" "json_abs v = j"
      using assms(3) number_stop_literals(3) [of r] unfolding denotes_def by blast
    obtain c s where c: "t = c # s" "value_start c" using assms(3) by (auto simp: denotes_def)
    obtain a where a: "json_array_add mem json_array_make v = Inr a" "array_items a = [v]"
      using json_array_add_mem [OF assms(1), of json_array_make v] by auto
    have "parse_value mem n (CHR ''['' # t @ CHR '']'' # r) = Some (JArray (JSON_Array [v] 1), r)"
      using v(1) a value_startD [OF c(2)] assms(1,2)
      by (simp add: c(1) parse_value_nest parse_array_value.simps parse_array_loop.simps json_array_resize_def json_array_get_count_def)
    then show ?thesis using a(2) v(2) by simp
  qed
  then show ?thesis by (simp add: denotes_def value_start_def)
qed

section \<open>Objects built by setters\<close>

text \<open>The setters' results are not tested: an object whose setter fails stays as it is.\<close>

definition set_members :: "(json_obj \<Rightarrow> json_value json_status) list \<Rightarrow> json_obj \<Rightarrow> json_obj" where
  "set_members fs obj = foldl (\<lambda>o1 f. case f o1 of Inl _ \<Rightarrow> o1 | Inr o2 \<Rightarrow> o2) obj fs"

end
