(* ===== verification/Step_System.thy ===== *)
theory Step_System
  imports Prelude
begin

text \<open>
  Components whose steps depend on an environment: labelled step relations, their finite runs, and
  the contract that lets an invariant of the steps be used for whole runs.
\<close>

inductive run :: "('s \<Rightarrow> 'l \<Rightarrow> 's \<Rightarrow> bool) \<Rightarrow> 's \<Rightarrow> 'l list \<Rightarrow> 's \<Rightarrow> bool" for step where
  run_nil: "run step s [] s"
| run_cons: "step s l s1 \<Longrightarrow> run step s1 ls s2 \<Longrightarrow> run step s (l # ls) s2"

inductive_simps run_simps [step_simps]: "run step s [] s'" "run step s (l # ls) s'"

lemma run_append: "run step s ls s1 \<Longrightarrow> run step s1 ls' s2 \<Longrightarrow> run step s (ls @ ls') s2"
  by (induction rule: run.induct) (auto intro: run_cons)

text \<open>A step invariant \<open>inv\<close>, and a relation \<open>rel\<close> of the states around a step that composes.\<close>

locale stable =
  fixes step :: "'s \<Rightarrow> 'l \<Rightarrow> 's \<Rightarrow> bool" and inv :: "'s \<Rightarrow> bool"
  assumes step_inv: "step s l s' \<Longrightarrow> inv s \<Longrightarrow> inv s'"
begin

lemma run_inv: "run step s ls s' \<Longrightarrow> inv s \<Longrightarrow> inv s'"
  by (induction rule: run.induct) (auto intro: step_inv)

end

locale stable_rel = stable +
  fixes allowed :: "'b \<Rightarrow> bool" and rel :: "'a \<Rightarrow> 'a \<Rightarrow> bool"
  assumes rel_refl: "rel s s"
    and rel_trans: "rel s s1 \<Longrightarrow> rel s1 s2 \<Longrightarrow> rel s s2"
    and step_rel: "step s l s' \<Longrightarrow> inv s \<Longrightarrow> allowed l \<Longrightarrow> rel s s'"
begin

lemma run_rel: "run step s ls s' \<Longrightarrow> inv s \<Longrightarrow> \<forall>l \<in> set ls. allowed l \<Longrightarrow> rel s s'"
proof (induction rule: run.induct)
  case (run_cons s l s1 ls s2)
  then have "rel s s1" "inv s1" by (auto intro: step_rel step_inv)
  with run_cons show ?case by (auto intro: rel_trans)
qed (rule rel_refl)

end

end
