(* ===== verification/Dx_AzureIot.thy ===== *)
theory Dx_AzureIot
  imports Dx_Config Step_System
begin

text \<open>
  The connection to Azure IoT (src/src/dx_azure_iot.c).  The static variables of the file are the record
  \<open>azure\<close>, on top of the network state and the runtime.  The IoT Hub client and the provisioning client
  of the Azure SDK are not modelled: what they answer during one operation is the record \<open>azure_env\<close>,
  including the callbacks they make from within their DoWork functions, and what they are asked is
  the list \<open>sdk_calls\<close>, which also holds the calls of the application's own callbacks.  In this model
  these callbacks call no function of the file in their turn: a call of a callback is a record in the list and
  nothing else.  \<open>Dx_Azure_Reentry\<close> has the operations with callbacks that do call back.
\<close>

section \<open>State\<close>

datatype device_connection_state =
  DEVICE_NOT_CONNECTED | DEVICE_PROVISIONING_ERROR | DEVICE_PROVISIONING | DEVICE_PROVISION_IOT_CLIENT | DEVICE_CONNECTED

datatype authentication_state = NotAuthenticated | AuthenticationInitiated | Authenticated | Device_Disabled

datatype prov_device_result = PROV_DEVICE_RESULT_OK | PROV_DEVICE_RESULT_INVALID_STATE | PROV_DEVICE_RESULT_ERROR

datatype connection_reason =
    IOTHUB_CLIENT_CONNECTION_EXPIRED_SAS_TOKEN
  | IOTHUB_CLIENT_CONNECTION_DEVICE_DISABLED
  | IOTHUB_CLIENT_CONNECTION_BAD_CREDENTIAL
  | IOTHUB_CLIENT_CONNECTION_RETRY_EXPIRED
  | IOTHUB_CLIENT_CONNECTION_NO_NETWORK
  | IOTHUB_CLIENT_CONNECTION_COMMUNICATION_ERROR
  | IOTHUB_CLIENT_CONNECTION_OK
  | IOTHUB_CLIENT_CONNECTION_NO_PING_RESPONSE
  | IOTHUB_CLIENT_CONNECTION_QUOTA_EXCEEDED

text \<open>What the hub client calls back from its DoWork.\<close>

datatype hub_event =
    Connection_Status bool connection_reason
  | Message_Confirmed
  | Twin_Update bool string
  | Method_Invoked string string
  | Cloud_Message nat

datatype sdk_call =
    IoTHub_Init | IoTHub_Deinit
  | Hub_Create nat string | Hub_Destroy nat | Hub_Url_Encoding | Hub_Model_Id "string option" | Hub_Set_Callbacks | Hub_DoWork
  | Security_Init | Security_Key "string option" "string option" | Security_Deinit
  | Prov_Create nat "string option" | Prov_Payload string | Prov_Register | Prov_DoWork | Prov_Destroy nat
  | Message_Create "char list option" nat | Message_Encoding string | Message_Type string | Message_Property string string
  | Message_Send | Message_Destroy
  | Notify nat bool
  | Twin_Handler nat bool string | Method_Handler nat string string | Message_Handler nat nat

text \<open>
  The static variables.  Handles and the application's functions are numbers.  \<open>in_flight\<close> is the
  number of messages the hub client has accepted and not yet confirmed.
\<close>

record azure = net +
  network_ready_cached :: bool
  network_connection_state :: bool
  tmr_network_ready :: timer_binding
  azure_timer :: timer_binding
  iothubClientHandle :: "nat option"
  iotHubUri :: "string option"
  az_networkInterface :: "string option"
  userConfig :: user_config
  outstandingMessageCount :: int
  connection_initialized :: bool
  pnpModelIdJson :: "string option"
  pnpModelId :: "string option"
  messageReceivedCallback :: "nat option"
  deviceTwinCallbackHandler :: "nat option"
  directMethodCallbackHandler :: "nat option"
  connectionStatusCallback :: "nat option list"
  deviceConnectionState :: device_connection_state
  prov_handle :: "nat option"
  authenticationState :: authentication_state
  dpsRegisterStatus :: prov_device_result
  previous_connection_state :: bool
  security_init_called :: bool
  provisionCompletedMaxRetry :: int
  in_flight :: nat
  sdk_calls :: "sdk_call list"

record azure_env =
  interfaces :: "ifaddr list option"
  test_page :: "char list option"
  iothub_init :: int
  hub_create :: "nat option"
  url_option :: bool
  model_option :: bool
  security_init :: int
  prov_create :: "nat option"
  prov_payload :: bool
  prov_register :: bool
  prov_events :: "(prov_device_result \<times> string option) list"
  hub_events :: "hub_event list"
  grants_memory :: bool
  method_answer :: "nat \<Rightarrow> int"
  message_create :: bool
  content_encoding_set :: bool
  content_type_set :: bool
  property_set :: "string \<Rightarrow> string \<Rightarrow> bool"
  event_sent :: bool
  result_garbage :: bool

abbreviation (input) MAX_CONNECTION_STATUS_CALLBACKS :: nat where "MAX_CONNECTION_STATUS_CALLBACKS \<equiv> 5"

definition idle_timer :: "string \<Rightarrow> timespec option \<Rightarrow> timer_binding" where
  "idle_timer name delay = \<lparr>tm_delay = delay, tm_repeat = None, tm_name = name, tm_initialized = False\<rparr>"

definition no_config :: user_config where
  "no_config = \<lparr>idScope = None, device_id = None, device_key = None, hostname = None, connection_string = None,
     network_interface = None, connectionType = DX_CONNECTION_TYPE_NOT_DEFINED\<rparr>"

text \<open>The initial values; \<open>userConfig\<close> is read only after \<open>dx_azureConnect\<close> has set it.\<close>

definition azure_boot :: azure where
  "azure_boot = \<lparr>exit_code = 0, uv_calls = [],
     network_timer_initialised = False, network_connected_cached = False,
     tmr_network_connected = idle_timer ''tmr_network_connected_cached'' None,
     network_ready_cached = False, network_connection_state = False,
     tmr_network_ready = idle_timer ''tmr_network_ready_cached'' None,
     azure_timer = idle_timer ''azureConnectionTimer'' (Some \<lparr>tv_sec = 1, tv_nsec = 0\<rparr>),
     iothubClientHandle = None, iotHubUri = None, az_networkInterface = None, userConfig = no_config,
     outstandingMessageCount = 0, connection_initialized = False, pnpModelIdJson = None, pnpModelId = None,
     messageReceivedCallback = None, deviceTwinCallbackHandler = None, directMethodCallbackHandler = None,
     connectionStatusCallback = replicate MAX_CONNECTION_STATUS_CALLBACKS None,
     deviceConnectionState = DEVICE_NOT_CONNECTED, prov_handle = None, authenticationState = NotAuthenticated,
     dpsRegisterStatus = PROV_DEVICE_RESULT_INVALID_STATE, previous_connection_state = False,
     security_init_called = False, provisionCompletedMaxRetry = 0, in_flight = 0, sdk_calls = []\<rparr>"

definition sdk :: "sdk_call \<Rightarrow> azure \<Rightarrow> azure" where
  "sdk c st = st\<lparr>sdk_calls := sdk_calls st @ [c]\<rparr>"

section \<open>Registration\<close>

definition dx_azureRegisterDeviceTwinCallback :: "nat option \<Rightarrow> azure \<Rightarrow> azure" where
  "dx_azureRegisterDeviceTwinCallback handler st = st\<lparr>deviceTwinCallbackHandler := handler\<rparr>"

definition dx_azureRegisterDirectMethodCallback :: "nat option \<Rightarrow> azure \<Rightarrow> azure" where
  "dx_azureRegisterDirectMethodCallback handler st = st\<lparr>directMethodCallbackHandler := handler\<rparr>"

definition dx_azureRegisterMessageReceivedNotification :: "nat option \<Rightarrow> azure \<Rightarrow> azure" where
  "dx_azureRegisterMessageReceivedNotification handler st = st\<lparr>messageReceivedCallback := handler\<rparr>"

text \<open>The first free slot takes the callback.\<close>

fun register_slot :: "nat \<Rightarrow> nat option list \<Rightarrow> bool \<times> nat option list" where
  "register_slot cb [] = (False, [])"
| "register_slot cb (None # slots) = (True, Some cb # slots)"
| "register_slot cb (Some c # slots) = (case register_slot cb slots of (r, slots') \<Rightarrow> (r, Some c # slots'))"

definition dx_azureRegisterConnectionChangedNotification :: "nat \<Rightarrow> azure \<Rightarrow> bool \<times> azure" where
  "dx_azureRegisterConnectionChangedNotification cb st =
     (case register_slot cb (connectionStatusCallback st) of
        (r, slots) \<Rightarrow> (r, st\<lparr>connectionStatusCallback := slots\<rparr>))"

definition dx_azureUnregisterConnectionChangedNotification :: "nat \<Rightarrow> azure \<Rightarrow> azure" where
  "dx_azureUnregisterConnectionChangedNotification cb st =
     st\<lparr>connectionStatusCallback := List.map (\<lambda>slot. if slot = Some cb then None else slot) (connectionStatusCallback st)\<rparr>"

section \<open>Starting and stopping\<close>

definition dx_azureToDeviceStart :: "azure_env \<Rightarrow> azure \<Rightarrow> azure" where
  "dx_azureToDeviceStart env st =
     (if \<not> tm_initialized (azure_timer st) then
        let st1 = sdk IoTHub_Init st in
        if iothub_init env \<noteq> 0 then dx_terminate DX_ExitCode_Init_IoT_Failed st1
        else
          (case dx_timerStart st1 (azure_timer st1) of
             (_, t1, st2) \<Rightarrow>
               (case dx_timerStart (st2\<lparr>azure_timer := t1\<rparr>) (tmr_network_ready st2) of
                  (_, t2, st3) \<Rightarrow> st3\<lparr>tmr_network_ready := t2, connection_initialized := False\<rparr>))
      else st)"

definition dx_azureToDeviceStop :: "azure \<Rightarrow> azure" where
  "dx_azureToDeviceStop st =
     (if tm_initialized (azure_timer st) then
        (case dx_timerStop st (azure_timer st) of
           (t1, st1) \<Rightarrow>
             (case dx_timerStop (st1\<lparr>azure_timer := t1\<rparr>) (tmr_network_ready st1) of
                (t2, st2) \<Rightarrow> sdk IoTHub_Deinit (st2\<lparr>tmr_network_ready := t2\<rparr>)))
      else st)"

definition model_id_text :: "string \<Rightarrow> string" where
  "model_id_text model = [CHR ''{'', CHR 0x22] @ ''modelId'' @ [CHR 0x22, CHR '':'', CHR 0x22] @ model @ [CHR 0x22, CHR ''}'']"

text \<open>The text is printed into a zeroed buffer; its length is compared with the buffer's.\<close>

definition createPnpModelIdJson :: "azure_env \<Rightarrow> azure \<Rightarrow> bool \<times> azure" where
  "createPnpModelIdJson env st =
     (if \<not> dx_isStringNullOrEmpty (pnpModelId st) then
        let model = (case pnpModelId st of None \<Rightarrow> [] | Some m \<Rightarrow> m);
            modelIdLen = 15 + length model;
            st1 = st\<lparr>pnpModelIdJson := None\<rparr>
        in if \<not> grants_memory env then (False, dx_terminate DX_ExitCode_PnPModelJsonMemoryAllocationFailed st1)
           else
             let buf = snprintf (replicate modelIdLen NUL) modelIdLen (model_id_text model);
                 st2 = st1\<lparr>pnpModelIdJson := Some (cstr buf)\<rparr>
             in if length (model_id_text model) \<ge> modelIdLen
                then (False, dx_terminate DX_ExitCode_PnPModelJsonFailed st2) else (True, st2)
      else (True, st))"

definition dx_azureConnect :: "azure_env \<Rightarrow> user_config \<Rightarrow> string option \<Rightarrow> string option \<Rightarrow> azure \<Rightarrow> azure" where
  "dx_azureConnect env config interface modelId st =
     (if connection_initialized st then st
      else if connectionType config = DX_CONNECTION_TYPE_NOT_DEFINED
      then dx_terminate DX_ExitCode_Validate_Connection_Type_Not_Defined st
      else
        let st1 = st\<lparr>userConfig := config, az_networkInterface := interface, pnpModelId := modelId\<rparr>;
            (ok, st2) = (if connectionType config = DX_CONNECTION_TYPE_DPS then createPnpModelIdJson env st1 else (True, st1))
        in if \<not> ok then st2
           else (dx_azureToDeviceStart env st2)\<lparr>connection_initialized := True\<rparr>)"

section \<open>Connection status\<close>

text \<open>
  The loop over the five slots, for callbacks that call nothing in their turn; \<open>process_r\<close> in \<open>Dx_Azure_Reentry\<close> is
  the same function with any others.
\<close>

definition ProcessConnectionStatusCallbacks :: "bool \<Rightarrow> azure \<Rightarrow> azure" where
  "ProcessConnectionStatusCallbacks connected st =
     (if connected \<noteq> previous_connection_state st
      then st\<lparr>previous_connection_state := connected,
              sdk_calls := sdk_calls st @
                List.concat (List.map (\<lambda>slot. case slot of None \<Rightarrow> [] | Some cb \<Rightarrow> [Notify cb connected])
                  (connectionStatusCallback st))\<rparr>
      else st)"

definition network_ready_expired_handler :: "azure \<Rightarrow> azure" where
  "network_ready_expired_handler st = st\<lparr>network_ready_cached := False\<rparr>"

definition isNetworkReady :: "azure_env \<Rightarrow> azure \<Rightarrow> bool \<times> azure" where
  "isNetworkReady env st =
     (if network_ready_cached st then (network_connection_state st, st)
      else
        (case dx_isNetworkConnected (interfaces env) (test_page env) (az_networkInterface st) st of
           (connected, st1) \<Rightarrow>
             let st2 = st1\<lparr>network_connection_state := connected, network_ready_cached := True\<rparr>
             in (connected, snd (dx_timerOneShotSet (tmr_network_ready st2) \<lparr>tv_sec = 30, tv_nsec = 0\<rparr> st2))))"

definition dx_isAzureConnected :: "azure_env \<Rightarrow> azure \<Rightarrow> bool \<times> azure" where
  "dx_isAzureConnected env st =
     (case isNetworkReady env st of
        (ready, st1) \<Rightarrow>
          if \<not> ready \<and> authenticationState st1 = Authenticated then
            (False, ProcessConnectionStatusCallbacks False
               (st1\<lparr>authenticationState := NotAuthenticated, deviceConnectionState := DEVICE_NOT_CONNECTED\<rparr>))
          else if iothubClientHandle st1 \<noteq> None \<and> authenticationState st1 = Authenticated then
            (case isNetworkReady env st1 of
               (ready', st2) \<Rightarrow> (ready', ProcessConnectionStatusCallbacks ready' st2))
          else (False, ProcessConnectionStatusCallbacks False st1))"

section \<open>Callbacks of the hub client\<close>

definition SendMessageCallback :: "azure \<Rightarrow> azure" where
  "SendMessageCallback st = st\<lparr>outstandingMessageCount := outstandingMessageCount st - 1\<rparr>"

definition HubConnectionStatusCallback :: "azure_env \<Rightarrow> bool \<Rightarrow> connection_reason \<Rightarrow> azure \<Rightarrow> azure" where
  "HubConnectionStatusCallback env authenticated reason st =
     (let st1 =
        (if \<not> authenticated then
           st\<lparr>authenticationState :=
                (if reason = IOTHUB_CLIENT_CONNECTION_DEVICE_DISABLED \<or> reason = IOTHUB_CLIENT_CONNECTION_NO_NETWORK
                 then Device_Disabled else NotAuthenticated),
              deviceConnectionState := DEVICE_NOT_CONNECTED\<rparr>
         else st\<lparr>authenticationState := Authenticated\<rparr>)
      in snd (dx_isAzureConnected env st1))"

definition HubMessageReceivedCallback :: "nat \<Rightarrow> azure \<Rightarrow> azure" where
  "HubMessageReceivedCallback msg st =
     (case messageReceivedCallback st of None \<Rightarrow> st | Some h \<Rightarrow> sdk (Message_Handler h msg) st)"

definition HubDeviceTwinCallback :: "bool \<Rightarrow> string \<Rightarrow> azure \<Rightarrow> azure" where
  "HubDeviceTwinCallback complete payload st =
     (case deviceTwinCallbackHandler st of None \<Rightarrow> st | Some h \<Rightarrow> sdk (Twin_Handler h complete payload) st)"

definition HubDirectMethodCallback :: "azure_env \<Rightarrow> string \<Rightarrow> string \<Rightarrow> azure \<Rightarrow> int \<times> azure" where
  "HubDirectMethodCallback env method payload st =
     (case directMethodCallbackHandler st of
        None \<Rightarrow> (-1, st)
      | Some h \<Rightarrow> (method_answer env h, sdk (Method_Handler h method payload) st))"

text \<open>A message is confirmed only while one is in flight.\<close>

fun hub_callback :: "azure_env \<Rightarrow> azure \<Rightarrow> hub_event \<Rightarrow> azure" where
  "hub_callback env st (Connection_Status authenticated reason) = HubConnectionStatusCallback env authenticated reason st"
| "hub_callback env st Message_Confirmed =
     (if in_flight st = 0 then st else SendMessageCallback (st\<lparr>in_flight := in_flight st - 1\<rparr>))"
| "hub_callback env st (Twin_Update complete payload) = HubDeviceTwinCallback complete payload st"
| "hub_callback env st (Method_Invoked method payload) = snd (HubDirectMethodCallback env method payload st)"
| "hub_callback env st (Cloud_Message msg) = HubMessageReceivedCallback msg st"

text \<open>The client does nothing without a handle; destroying it confirms what is still in flight.\<close>

definition hub_DoWork :: "azure_env \<Rightarrow> azure \<Rightarrow> azure" where
  "hub_DoWork env st =
     (if iothubClientHandle st = None then sdk Hub_DoWork st
      else foldl (hub_callback env) (sdk Hub_DoWork st) (hub_events env))"

definition hub_destroy :: "nat \<Rightarrow> azure \<Rightarrow> azure" where
  "hub_destroy h st =
     (let st1 = (SendMessageCallback ^^ in_flight st) (sdk (Hub_Destroy h) st)
      in st1\<lparr>in_flight := 0, iothubClientHandle := None\<rparr>)"

section \<open>Setting up the client\<close>

text \<open>Nothing destroys the client before a new one is created but \<open>SetupAzureClient\<close> and a failing \<open>ConnectToIotHub\<close>.\<close>

definition hub_created :: "azure_env \<Rightarrow> string \<Rightarrow> azure \<Rightarrow> azure" where
  "hub_created env key st =
     (case hub_create env of
        None \<Rightarrow> st\<lparr>iothubClientHandle := None\<rparr>
      | Some h \<Rightarrow> sdk (Hub_Create h key) (st\<lparr>iothubClientHandle := Some h\<rparr>))"

definition SetUpAzureIoTHubClientWithConnectionString :: "azure_env \<Rightarrow> azure \<Rightarrow> bool \<times> azure" where
  "SetUpAzureIoTHubClientWithConnectionString env st =
     (case isNetworkReady env (st\<lparr>deviceConnectionState := DEVICE_NOT_CONNECTED\<rparr>) of
        (ready, st1) \<Rightarrow>
          (case connection_string (userConfig st1) of
             None \<Rightarrow> (False, st1)
           | Some key \<Rightarrow>
               if \<not> ready \<or> dx_isStringNullOrEmpty (Some key) then (False, st1)
               else
                 let st2 = hub_created env key st1
                 in if iothubClientHandle st2 = None then (False, st2)
                    else (True, (sdk Hub_Url_Encoding st2)\<lparr>deviceConnectionState := DEVICE_CONNECTED\<rparr>)))"

definition ConnectToIotHub :: "azure_env \<Rightarrow> string option \<Rightarrow> azure \<Rightarrow> bool \<times> azure" where
  "ConnectToIotHub env host st =
     (case host of
        None \<Rightarrow> (False, st)
      | Some name \<Rightarrow>
          if dx_isStringNullOrEmpty (Some name) then (False, st)
          else
            let st1 = hub_created env name st
            in if iothubClientHandle st1 = None then (False, st1)
               else
                 let st2 = sdk Hub_Url_Encoding st1
                 in if \<not> url_option env then (False, st2)
                    else if pnpModelIdJson st2 \<noteq> None then
                      (let st3 = sdk (Hub_Model_Id (pnpModelId st2)) st2
                       in (model_option env, st3))
                    else (True, st2))"

definition RegisterProvisioningDeviceCallback ::
    "azure_env \<Rightarrow> azure \<Rightarrow> prov_device_result \<times> string option \<Rightarrow> azure" where
  "RegisterProvisioningDeviceCallback env st = (\<lambda>(registerResult, callbackHubUri).
     let st1 = st\<lparr>dpsRegisterStatus := registerResult\<rparr>
     in if registerResult = PROV_DEVICE_RESULT_OK \<and> callbackHubUri \<noteq> None
        then st1\<lparr>iotHubUri := (if grants_memory env then callbackHubUri else None)\<rparr>
        else st1)"

definition prov_DoWork :: "azure_env \<Rightarrow> azure \<Rightarrow> azure" where
  "prov_DoWork env st =
     (if prov_handle st = None then sdk Prov_DoWork st
      else foldl (RegisterProvisioningDeviceCallback env) (sdk Prov_DoWork st) (prov_events env))"

text \<open>The three stages of provisioning; the jumps to the cleanup are the ends of the branches.\<close>

definition start_provisioning :: "azure_env \<Rightarrow> azure \<Rightarrow> azure" where
  "start_provisioning env st =
     (let st1 = sdk Security_Init
                  (st\<lparr>dpsRegisterStatus := PROV_DEVICE_RESULT_INVALID_STATE, provisionCompletedMaxRetry := 0\<rparr>)
      in if security_init env \<noteq> 0 then st1\<lparr>deviceConnectionState := DEVICE_PROVISIONING_ERROR\<rparr>
         else
           let st2 = (sdk (Security_Key (device_id (userConfig st1)) (device_key (userConfig st1))) st1)
                       \<lparr>security_init_called := True\<rparr>
           in case prov_create env of
                None \<Rightarrow> st2\<lparr>prov_handle := None, deviceConnectionState := DEVICE_PROVISIONING_ERROR\<rparr>
              | Some h \<Rightarrow>
                  let st3 = sdk (Prov_Create h (idScope (userConfig st2))) (st2\<lparr>prov_handle := Some h\<rparr>);
                      (ok, st4) = (case pnpModelIdJson st3 of
                                     None \<Rightarrow> (True, st3)
                                   | Some json \<Rightarrow> (prov_payload env, sdk (Prov_Payload json) st3))
                  in if \<not> ok then st4\<lparr>deviceConnectionState := DEVICE_PROVISIONING_ERROR\<rparr>
                     else
                       let st5 = sdk Prov_Register st4
                       in st5\<lparr>deviceConnectionState :=
                                (if \<not> prov_register env then DEVICE_PROVISIONING_ERROR else DEVICE_PROVISIONING)\<rparr>)"

definition poll_provisioning :: "azure_env \<Rightarrow> azure \<Rightarrow> azure" where
  "poll_provisioning env st =
     (let st1 = prov_DoWork env st;
          st2 = (if dpsRegisterStatus st1 = PROV_DEVICE_RESULT_OK
                 then st1\<lparr>deviceConnectionState := DEVICE_PROVISION_IOT_CLIENT\<rparr> else st1);
          retry = provisionCompletedMaxRetry st2;
          st3 = st2\<lparr>provisionCompletedMaxRetry := retry + 1\<rparr>
      in if retry > 60 then st3\<lparr>deviceConnectionState := DEVICE_PROVISIONING_ERROR\<rparr> else st3)"

definition provision_client :: "azure_env \<Rightarrow> azure \<Rightarrow> azure" where
  "provision_client env st =
     (case ConnectToIotHub env (iotHubUri st) st of
        (ok, st1) \<Rightarrow>
          if \<not> ok then
            (case iothubClientHandle st1 of None \<Rightarrow> st1 | Some h \<Rightarrow> hub_destroy h st1)
              \<lparr>deviceConnectionState := DEVICE_PROVISIONING_ERROR\<rparr>
          else st1\<lparr>deviceConnectionState := DEVICE_CONNECTED\<rparr>)"

definition provisioning_cleanup :: "azure \<Rightarrow> azure" where
  "provisioning_cleanup st =
     (if deviceConnectionState st = DEVICE_CONNECTED \<or> deviceConnectionState st = DEVICE_PROVISIONING_ERROR then
        let st1 = (case prov_handle st of None \<Rightarrow> st | Some h \<Rightarrow> (sdk (Prov_Destroy h) st)\<lparr>prov_handle := None\<rparr>)
        in if security_init_called st1 then (sdk Security_Deinit st1)\<lparr>security_init_called := False\<rparr> else st1
      else st)"

definition SetUpAzureIoTHubClientWithDpsPnP :: "azure_env \<Rightarrow> azure \<Rightarrow> bool \<times> azure" where
  "SetUpAzureIoTHubClientWithDpsPnP env st =
     (if \<not> dx_isDeviceAuthReady then (False, st)
      else
        (case isNetworkReady env st of
           (ready, st1) \<Rightarrow>
             if \<not> ready then (False, st1)
             else
               let st2 = (case deviceConnectionState st1 of
                            DEVICE_NOT_CONNECTED \<Rightarrow> start_provisioning env st1
                          | DEVICE_PROVISIONING_ERROR \<Rightarrow> start_provisioning env st1
                          | DEVICE_PROVISIONING \<Rightarrow> poll_provisioning env st1
                          | DEVICE_PROVISION_IOT_CLIENT \<Rightarrow> provision_client env st1
                          | DEVICE_CONNECTED \<Rightarrow> st1);
                   st3 = provisioning_cleanup st2
               in (deviceConnectionState st3 = DEVICE_CONNECTED, st3)))"

definition SetupAzureClient :: "azure_env \<Rightarrow> azure \<Rightarrow> bool \<times> azure" where
  "SetupAzureClient env st =
     (let st1 = (case iothubClientHandle st of None \<Rightarrow> st | Some h \<Rightarrow> hub_destroy h st);
          (ok, st2) = (case connectionType (userConfig st1) of
                         DX_CONNECTION_TYPE_HOSTNAME \<Rightarrow> (True, st1)
                       | DX_CONNECTION_TYPE_DPS \<Rightarrow> SetUpAzureIoTHubClientWithDpsPnP env st1
                       | DX_CONNECTION_TYPE_STRING \<Rightarrow> SetUpAzureIoTHubClientWithConnectionString env st1
                       | DX_CONNECTION_TYPE_NOT_DEFINED \<Rightarrow> (False, st1))
      in if \<not> ok \<or> deviceConnectionState st2 \<noteq> DEVICE_CONNECTED then (False, st2)
         else (True, hub_DoWork env (sdk Hub_Set_Callbacks (st2\<lparr>authenticationState := AuthenticationInitiated\<rparr>))))"

section \<open>The connection timer\<close>

abbreviation (input) IOT_HUB_POLL_TIME_SECONDS :: int where "IOT_HUB_POLL_TIME_SECONDS \<equiv> 0"
abbreviation (input) IOT_HUB_POLL_TIME_NANOSECONDS :: int where "IOT_HUB_POLL_TIME_NANOSECONDS \<equiv> 100000000"

definition azure_work :: "azure_env \<Rightarrow> azure \<Rightarrow> timespec \<times> azure" where
  "azure_work env st =
     (case authenticationState st of
        NotAuthenticated \<Rightarrow> (\<lparr>tv_sec = 1, tv_nsec = 0\<rparr>, snd (SetupAzureClient env st))
      | AuthenticationInitiated \<Rightarrow> (\<lparr>tv_sec = 1, tv_nsec = 0\<rparr>, hub_DoWork env st)
      | Authenticated \<Rightarrow>
          (\<lparr>tv_sec = IOT_HUB_POLL_TIME_SECONDS, tv_nsec = IOT_HUB_POLL_TIME_NANOSECONDS\<rparr>, hub_DoWork env st)
      | Device_Disabled \<Rightarrow>
          (\<lparr>tv_sec = 1, tv_nsec = 0\<rparr>,
           st\<lparr>authenticationState := NotAuthenticated, deviceConnectionState := DEVICE_NOT_CONNECTED\<rparr>))"

definition AzureConnectionHandler :: "azure_env \<Rightarrow> azure \<Rightarrow> azure" where
  "AzureConnectionHandler env st =
     (case isNetworkReady env st of
        (ready, st1) \<Rightarrow>
          let st2 = (if \<not> ready \<and> authenticationState st1 = Authenticated
                     then st1\<lparr>authenticationState := NotAuthenticated, deviceConnectionState := DEVICE_NOT_CONNECTED\<rparr>
                     else st1)
          in (case azure_work env st2 of
                (nextEventPeriod, st3) \<Rightarrow> snd (dx_timerOneShotSet (azure_timer st3) nextEventPeriod st3)))"

section \<open>Publishing\<close>

record message_content =
  contentEncoding :: "string option"
  contentType :: "string option"

text \<open>Properties whose key or value is NULL or empty are left out; the first refused one ends the loop.\<close>

fun set_properties :: "azure_env \<Rightarrow> (string option \<times> string option) list \<Rightarrow> azure \<Rightarrow> bool \<times> azure" where
  "set_properties env [] st = (True, st)"
| "set_properties env ((Some k, Some v) # ps) st =
     (if k \<noteq> [] \<and> v \<noteq> [] then
        let st1 = sdk (Message_Property k v) st
        in if property_set env k v then set_properties env ps st1 else (False, st1)
      else set_properties env ps st)"
| "set_properties env (p # ps) st = set_properties env ps st"

definition set_content :: "azure_env \<Rightarrow> message_content option \<Rightarrow> azure \<Rightarrow> bool \<times> azure" where
  "set_content env content st =
     (case content of
        None \<Rightarrow> (True, st)
      | Some c \<Rightarrow>
          (case (if dx_isStringNullOrEmpty (contentEncoding c) then (True, st)
                 else (content_encoding_set env, sdk (Message_Encoding (the (contentEncoding c))) st)) of
             (ok, st1) \<Rightarrow>
               if \<not> ok then (False, st1)
               else if dx_isStringNullOrEmpty (contentType c) then (True, st1)
               else (content_type_set env, sdk (Message_Type (the (contentType c))) st1)))"

text \<open>
  The bytes the pointer leads to are handed on with the length.  After a jump to the cleanup \<open>result\<close> has no value yet: \<open>result_garbage\<close> says whether what the
  variable happens to hold equals IOTHUB_CLIENT_OK.
\<close>

definition dx_azurePublish ::
    "azure_env \<Rightarrow> char list option \<Rightarrow> nat \<Rightarrow> (string option \<times> string option) list \<Rightarrow> message_content option \<Rightarrow> azure \<Rightarrow> bool \<times> azure" where
  "dx_azurePublish env message messageLength properties content st =
     (if messageLength = 0 then (True, st)
      else
        (case dx_isAzureConnected env st of
           (connected, st1) \<Rightarrow>
             if \<not> connected then (False, st1)
             else if \<not> message_create env then (False, st1)
             else
               (case set_content env content (sdk (Message_Create message messageLength) st1) of
                  (ok, st2) \<Rightarrow>
                    (case (if ok then set_properties env properties st2 else (False, st2)) of
                       (ok', st3) \<Rightarrow>
                         let (result, st4) =
                           (if \<not> ok' then (result_garbage env, st3)
                            else if \<not> event_sent env then (False, sdk Message_Send st3)
                            else (True, (sdk Message_Send st3)
                                    \<lparr>outstandingMessageCount := outstandingMessageCount st3 + 1,
                                     in_flight := in_flight st3 + 1\<rparr>))
                         in (result, hub_DoWork env (sdk Message_Destroy st4))))))"

section \<open>Runs\<close>

datatype azure_op =
    Connect azure_env user_config "string option" "string option"
  | Stop
  | Connection_Timer azure_env
  | Network_Ready_Expired
  | Network_Connected_Expired
  | Ask_Connected azure_env
  | Publish azure_env "char list option" nat "(string option \<times> string option) list" "message_content option"
  | Register_Status nat
  | Unregister_Status nat
  | Register_Twin "nat option"
  | Register_Method "nat option"
  | Register_Message "nat option"

text \<open>The application's calls at any time, and the timers' expiries while they are started.\<close>

inductive azure_step :: "azure \<Rightarrow> azure_op \<Rightarrow> azure \<Rightarrow> bool" where
  connect: "azure_step st (Connect env config interface modelId) (dx_azureConnect env config interface modelId st)"
| stop: "azure_step st Stop (dx_azureToDeviceStop st)"
| timer: "tm_initialized (azure_timer st) \<Longrightarrow> azure_step st (Connection_Timer env) (AzureConnectionHandler env st)"
| network_ready_expired:
    "tm_initialized (tmr_network_ready st) \<Longrightarrow> azure_step st Network_Ready_Expired (network_ready_expired_handler st)"
| network_connected_expired:
    "tm_initialized (tmr_network_connected st) \<Longrightarrow>
     azure_step st Network_Connected_Expired (network_connected_expired_handler st)"
| ask: "azure_step st (Ask_Connected env) (snd (dx_isAzureConnected env st))"
| publish: "azure_step st (Publish env message len properties content) (snd (dx_azurePublish env message len properties content st))"
| register_status: "azure_step st (Register_Status cb) (snd (dx_azureRegisterConnectionChangedNotification cb st))"
| unregister_status: "azure_step st (Unregister_Status cb) (dx_azureUnregisterConnectionChangedNotification cb st)"
| register_twin: "azure_step st (Register_Twin h) (dx_azureRegisterDeviceTwinCallback h st)"
| register_method: "azure_step st (Register_Method h) (dx_azureRegisterDirectMethodCallback h st)"
| register_message: "azure_step st (Register_Message h) (dx_azureRegisterMessageReceivedNotification h st)"

inductive_cases azure_stepE: "azure_step st op st'"

inductive_simps azure_step_simps [step_simps]:
  "azure_step st (Connect env config interface modelId) st'"
  "azure_step st Stop st'"
  "azure_step st (Connection_Timer env) st'"
  "azure_step st (Ask_Connected env) st'"
  "azure_step st (Publish env message len properties content) st'"

end
