(* ===== verification/Dx_Azure_Invariant.thy ===== *)
theory Dx_Azure_Invariant
  imports Dx_AzureIot
begin

text \<open>
  The invariant of the connection: \<open>azure_ok\<close> holds initially and every step of
  \<open>Dx_AzureIot\<close> keeps it, whatever the SDK answers and calls back.  First the frames (which operation
  leaves which variable alone), then the clients alive according to the calls, then a lemma per
  operation, and at the end the interpretation of the contract of runs.
\<close>

section \<open>Frames\<close>

text \<open>The network tests change nothing of the connection but the cached answer.\<close>

lemma net_more [step_simps, simp]:
  "net.more (uv_call c st) = net.more st"
  "net.more (dx_terminate code st) = net.more st"
  "net.more (snd (snd (dx_timerStart st timer))) = net.more st"
  "net.more (snd (dx_timerStop st timer)) = net.more st"
  "net.more (snd (dx_timerOneShotSet timer period st)) = net.more st"
  by (simp_all add: uv_call_def dx_terminate_def dx_eventLoopStop_def dx_timerStart_def dx_timerStop_def dx_timerOneShotSet_def
      split: option.splits)

lemma net_more_connected [step_simps, simp]:
  "net.more (snd (dx_isNetworkConnected ifas page ni st)) = net.more st"
  by (simp add: dx_isNetworkConnected_def Let_def split_beta split: option.splits)

lemma isNetworkReady_more:
  "net.more (snd (isNetworkReady env st)) =
     net.more (st\<lparr>network_connection_state := fst (isNetworkReady env st), network_ready_cached := True\<rparr>)"
proof (cases "network_ready_cached st")
  case True
  then show ?thesis by (cases st) (simp add: isNetworkReady_def)
next
  case False
  obtain c st1 where c: "dx_isNetworkConnected (interfaces env) (test_page env) (az_networkInterface st) st = (c, st1)" by fastforce
  have "net.more st1 = net.more st" using net_more_connected [of "interfaces env" "test_page env" "az_networkInterface st" st] c by simp
  then have "net.more (st1\<lparr>network_connection_state := c, network_ready_cached := True\<rparr>)
     = net.more (st\<lparr>network_connection_state := c, network_ready_cached := True\<rparr>)" by (cases st; cases st1; simp)
  then show ?thesis using False c by (simp add: isNetworkReady_def Let_def)
qed

lemma azure_fields_of_more:
  assumes "net.more st' = net.more st"
  shows "iothubClientHandle st' = iothubClientHandle st" "iotHubUri st' = iotHubUri st" "userConfig st' = userConfig st"
    "outstandingMessageCount st' = outstandingMessageCount st" "connection_initialized st' = connection_initialized st"
    "pnpModelIdJson st' = pnpModelIdJson st" "pnpModelId st' = pnpModelId st"
    "connectionStatusCallback st' = connectionStatusCallback st" "deviceConnectionState st' = deviceConnectionState st"
    "prov_handle st' = prov_handle st" "authenticationState st' = authenticationState st"
    "dpsRegisterStatus st' = dpsRegisterStatus st" "previous_connection_state st' = previous_connection_state st"
    "security_init_called st' = security_init_called st" "provisionCompletedMaxRetry st' = provisionCompletedMaxRetry st"
    "in_flight st' = in_flight st" "sdk_calls st' = sdk_calls st" "azure_timer st' = azure_timer st"
    "tmr_network_ready st' = tmr_network_ready st"
    "network_ready_cached st' = network_ready_cached st" "network_connection_state st' = network_connection_state st"
  using assms by (cases st; cases st'; simp)+

lemmas one_shot_frame = azure_fields_of_more [OF net_more(5)]

lemmas network_frame = azure_fields_of_more [OF isNetworkReady_more, simplified]

declare one_shot_frame [step_simps, simp] network_frame [step_simps, simp]

text \<open>Within one operation the network is asked once: the second test answers from the cache.\<close>

lemma isNetworkReady_again [step_simps, simp]:
  "isNetworkReady env' (snd (isNetworkReady env st)) = (fst (isNetworkReady env st), snd (isNetworkReady env st))"
  unfolding isNetworkReady_def [of env' "snd (isNetworkReady env st)"] by simp

section \<open>Handles\<close>

text \<open>The clients alive after a sequence of calls.\<close>

fun hub_alive :: "nat list \<Rightarrow> sdk_call \<Rightarrow> nat list" where
  "hub_alive hs (Hub_Create h key) = h # hs"
| "hub_alive hs (Hub_Destroy h) = remove1 h hs"
| "hub_alive hs _ = hs"

fun prov_alive :: "nat list \<Rightarrow> sdk_call \<Rightarrow> nat list" where
  "prov_alive hs (Prov_Create h scope) = h # hs"
| "prov_alive hs (Prov_Destroy h) = remove1 h hs"
| "prov_alive hs _ = hs"

definition hubs :: "azure \<Rightarrow> nat list" where
  "hubs st = foldl hub_alive [] (sdk_calls st)"

definition provs :: "azure \<Rightarrow> nat list" where
  "provs st = foldl prov_alive [] (sdk_calls st)"

lemma alive_sdk [step_simps, simp]:
  "hubs (sdk c st) = hub_alive (hubs st) c" "provs (sdk c st) = prov_alive (provs st) c"
  by (simp_all add: hubs_def provs_def sdk_def)

lemma alive_cong: "sdk_calls st' = sdk_calls st \<Longrightarrow> hubs st' = hubs st \<and> provs st' = provs st"
  by (simp add: hubs_def provs_def)

lemma sdk_fields [step_simps, simp]:
  "iothubClientHandle (sdk c st) = iothubClientHandle st" "iotHubUri (sdk c st) = iotHubUri st"
  "userConfig (sdk c st) = userConfig st" "outstandingMessageCount (sdk c st) = outstandingMessageCount st"
  "connection_initialized (sdk c st) = connection_initialized st" "pnpModelIdJson (sdk c st) = pnpModelIdJson st"
  "pnpModelId (sdk c st) = pnpModelId st" "connectionStatusCallback (sdk c st) = connectionStatusCallback st"
  "deviceConnectionState (sdk c st) = deviceConnectionState st" "prov_handle (sdk c st) = prov_handle st"
  "authenticationState (sdk c st) = authenticationState st" "dpsRegisterStatus (sdk c st) = dpsRegisterStatus st"
  "previous_connection_state (sdk c st) = previous_connection_state st"
  "security_init_called (sdk c st) = security_init_called st"
  "provisionCompletedMaxRetry (sdk c st) = provisionCompletedMaxRetry st"
  "in_flight (sdk c st) = in_flight st" "azure_timer (sdk c st) = azure_timer st"
  "sdk_calls (sdk c st) = sdk_calls st @ [c]" "tmr_network_ready (sdk c st) = tmr_network_ready st"
  "network_ready_cached (sdk c st) = network_ready_cached st"
  "network_connection_state (sdk c st) = network_connection_state st"
  by (simp_all add: sdk_def)

text \<open>
  What holds between the operations.  One client of each kind is alive at most, the one its handle names; a
  provisioning client is alive exactly during provisioning, with the security module on, and never
  together with a hub client.
\<close>

definition azure_ok :: "azure \<Rightarrow> bool" where
  "azure_ok st \<longleftrightarrow>
     hubs st = (case iothubClientHandle st of None \<Rightarrow> [] | Some h \<Rightarrow> [h]) \<and>
     provs st = (case prov_handle st of None \<Rightarrow> [] | Some h \<Rightarrow> [h]) \<and>
     (prov_handle st \<noteq> None \<longleftrightarrow> deviceConnectionState st \<in> {DEVICE_PROVISIONING, DEVICE_PROVISION_IOT_CLIENT}) \<and>
     (security_init_called st \<longleftrightarrow> prov_handle st \<noteq> None) \<and>
     (prov_handle st \<noteq> None \<longrightarrow> authenticationState st = NotAuthenticated \<and> iothubClientHandle st = None \<and>
        connectionType (userConfig st) = DX_CONNECTION_TYPE_DPS \<and> connection_initialized st) \<and>
     (authenticationState st \<in> {AuthenticationInitiated, Authenticated} \<longrightarrow> iothubClientHandle st \<noteq> None) \<and>
     (deviceConnectionState st = DEVICE_CONNECTED \<longrightarrow> authenticationState st \<in> {AuthenticationInitiated, Authenticated}) \<and>
     (deviceConnectionState st = DEVICE_PROVISIONING \<longrightarrow>
        0 \<le> provisionCompletedMaxRetry st \<and> provisionCompletedMaxRetry st \<le> 61) \<and>
     outstandingMessageCount st = int (in_flight st) \<and>
     length (connectionStatusCallback st) = MAX_CONNECTION_STATUS_CALLBACKS \<and>
     (tm_initialized (azure_timer st) \<longrightarrow> connection_initialized st)"

lemma azure_ok_boot: "azure_ok azure_boot"
  by (simp add: azure_ok_def azure_boot_def hubs_def provs_def idle_timer_def)

lemma azure_ok_cong:
  assumes "hubs st' = hubs st" "provs st' = provs st" "iothubClientHandle st' = iothubClientHandle st"
    "prov_handle st' = prov_handle st" "deviceConnectionState st' = deviceConnectionState st"
    "security_init_called st' = security_init_called st" "authenticationState st' = authenticationState st"
    "userConfig st' = userConfig st" "connection_initialized st' = connection_initialized st"
    "provisionCompletedMaxRetry st' = provisionCompletedMaxRetry st" "in_flight st' = in_flight st"
    "outstandingMessageCount st' = outstandingMessageCount st"
    "length (connectionStatusCallback st') = length (connectionStatusCallback st)" "azure_timer st' = azure_timer st"
  shows "azure_ok st' = azure_ok st"
  by (simp add: azure_ok_def assms)

lemma azure_ok_more:
  assumes "net.more st' = net.more st"
  shows "azure_ok st' = azure_ok st"
  using azure_fields_of_more [OF assms] alive_cong [of st' st] by (intro azure_ok_cong) simp_all

lemma azure_ok_network [step_simps, simp]: "azure_ok (snd (isNetworkReady env st)) = azure_ok st"
  using network_frame [of env st] alive_cong [of "snd (isNetworkReady env st)" st] by (intro azure_ok_cong) simp_all

lemma alive_notify:
  "foldl hub_alive hs (List.concat (List.map (\<lambda>slot. case slot of None \<Rightarrow> [] | Some cb \<Rightarrow> [Notify cb b]) slots)) = hs"
  "foldl prov_alive hs (List.concat (List.map (\<lambda>slot. case slot of None \<Rightarrow> [] | Some cb \<Rightarrow> [Notify cb b]) slots)) = hs"
  by (induction slots) (auto split: option.splits)

lemma azure_ok_process [step_simps, simp]: "azure_ok (ProcessConnectionStatusCallbacks b st) = azure_ok st"
  by (rule azure_ok_cong) (simp_all add: ProcessConnectionStatusCallbacks_def hubs_def provs_def alive_notify)

lemma process_fields [step_simps, simp]:
  "iothubClientHandle (ProcessConnectionStatusCallbacks b st) = iothubClientHandle st"
  "authenticationState (ProcessConnectionStatusCallbacks b st) = authenticationState st"
  "deviceConnectionState (ProcessConnectionStatusCallbacks b st) = deviceConnectionState st"
  "in_flight (ProcessConnectionStatusCallbacks b st) = in_flight st"
  "previous_connection_state (ProcessConnectionStatusCallbacks b st) = b"
  "azure_timer (ProcessConnectionStatusCallbacks b st) = azure_timer st"
  "tmr_network_ready (ProcessConnectionStatusCallbacks b st) = tmr_network_ready st"
  "connection_initialized (ProcessConnectionStatusCallbacks b st) = connection_initialized st"
  "connectionStatusCallback (ProcessConnectionStatusCallbacks b st) = connectionStatusCallback st"
  "network_ready_cached (ProcessConnectionStatusCallbacks b st) = network_ready_cached st"
  "network_connection_state (ProcessConnectionStatusCallbacks b st) = network_connection_state st"
  by (simp_all add: ProcessConnectionStatusCallbacks_def)

text \<open>Dropping the connection of an authenticated client.\<close>

lemma azure_ok_drop:
  assumes "azure_ok st" "prov_handle st = None" "a = NotAuthenticated \<or> a = Device_Disabled"
  shows "azure_ok (st\<lparr>authenticationState := a, deviceConnectionState := DEVICE_NOT_CONNECTED\<rparr>)"
  using assms by (auto simp: azure_ok_def hubs_def provs_def)

lemma azure_ok_live: "azure_ok st \<Longrightarrow> iothubClientHandle st \<noteq> None \<Longrightarrow> prov_handle st = None"
  "azure_ok st \<Longrightarrow> authenticationState st \<noteq> NotAuthenticated \<Longrightarrow> prov_handle st = None"
  by (auto simp: azure_ok_def)

lemma dx_isAzureConnected_alt:
  "dx_isAzureConnected env st =
     (let (ready, st1) = isNetworkReady env st in
      if authenticationState st1 = Authenticated \<and> \<not> ready then
        (False, ProcessConnectionStatusCallbacks False
           (st1\<lparr>authenticationState := NotAuthenticated, deviceConnectionState := DEVICE_NOT_CONNECTED\<rparr>))
      else let connected = (authenticationState st1 = Authenticated \<and> iothubClientHandle st1 \<noteq> None)
        in (connected, ProcessConnectionStatusCallbacks connected st1))"
proof (cases "isNetworkReady env st")
  case (Pair ready st1)
  then have "isNetworkReady env st1 = (ready, st1)" using isNetworkReady_again [of env env st] by simp
  with Pair show ?thesis by (auto simp: dx_isAzureConnected_def Let_def)
qed

lemma azure_ok_isAzureConnected: "azure_ok st \<Longrightarrow> azure_ok (snd (dx_isAzureConnected env st))"
  using azure_ok_network [of env st] azure_ok_live(2) [of "snd (isNetworkReady env st)"]
  by (auto simp: dx_isAzureConnected_alt Let_def split_beta intro!: azure_ok_drop)

lemma isAzureConnected_fields [step_simps, simp]:
  "iothubClientHandle (snd (dx_isAzureConnected env st)) = iothubClientHandle st"
  "in_flight (snd (dx_isAzureConnected env st)) = in_flight st"
  "azure_timer (snd (dx_isAzureConnected env st)) = azure_timer st"
  "connectionStatusCallback (snd (dx_isAzureConnected env st)) = connectionStatusCallback st"
  by (simp_all add: dx_isAzureConnected_alt Let_def split_beta)

lemma isAzureConnected_true:
  "fst (dx_isAzureConnected env st) \<longleftrightarrow>
     authenticationState (snd (dx_isAzureConnected env st)) = Authenticated \<and> iothubClientHandle st \<noteq> None"
  by (auto simp: dx_isAzureConnected_alt Let_def split_beta)

section \<open>The callbacks and the steps keep it\<close>

lemma azure_ok_sdk:
  "hub_alive (hubs st) c = hubs st \<Longrightarrow> prov_alive (provs st) c = provs st \<Longrightarrow> azure_ok (sdk c st) = azure_ok st"
  by (rule azure_ok_cong) simp_all

lemma hub_callback_ok:
  assumes "azure_ok st" "iothubClientHandle st \<noteq> None"
  shows "azure_ok (hub_callback env st e)" "iothubClientHandle (hub_callback env st e) = iothubClientHandle st"
proof -
  have "azure_ok (st\<lparr>authenticationState := Authenticated\<rparr>)"
    using assms by (auto simp: azure_ok_def hubs_def provs_def)
  moreover have "azure_ok (SendMessageCallback (st\<lparr>in_flight := in_flight st - 1\<rparr>))" if "in_flight st \<noteq> 0"
    using assms that by (auto simp: azure_ok_def hubs_def provs_def SendMessageCallback_def)
  ultimately show "azure_ok (hub_callback env st e)"
    using assms azure_ok_live(1) [OF assms]
    by (cases e) (auto simp: HubConnectionStatusCallback_def Let_def HubDeviceTwinCallback_def HubDirectMethodCallback_def
        HubMessageReceivedCallback_def azure_ok_sdk intro!: azure_ok_isAzureConnected azure_ok_drop split: option.splits)
  show "iothubClientHandle (hub_callback env st e) = iothubClientHandle st"
    by (cases e) (auto simp: HubConnectionStatusCallback_def HubDeviceTwinCallback_def HubDirectMethodCallback_def
        HubMessageReceivedCallback_def SendMessageCallback_def Let_def split: option.splits)
qed

lemma hub_callbacks_ok:
  "azure_ok st \<Longrightarrow> iothubClientHandle st \<noteq> None \<Longrightarrow>
   azure_ok (foldl (hub_callback env) st es) \<and> iothubClientHandle (foldl (hub_callback env) st es) = iothubClientHandle st"
  by (induction es arbitrary: st) (simp_all add: hub_callback_ok)

lemma hub_DoWork_ok: "azure_ok st \<Longrightarrow> azure_ok (hub_DoWork env st)"
  by (simp add: hub_DoWork_def azure_ok_sdk hub_callbacks_ok)

lemma send_funpow:
  "(SendMessageCallback ^^ n) st = st\<lparr>outstandingMessageCount := outstandingMessageCount st - int n\<rparr>"
  by (induction n) (simp_all add: SendMessageCallback_def)

lemma hub_destroy_alt:
  "hub_destroy h st = (sdk (Hub_Destroy h) st)
     \<lparr>outstandingMessageCount := outstandingMessageCount st - int (in_flight st), in_flight := 0, iothubClientHandle := None\<rparr>"
  by (simp add: hub_destroy_def send_funpow Let_def sdk_def)

lemma hub_destroy_ok:
  assumes "azure_ok st" "iothubClientHandle st = Some h" "authenticationState st = NotAuthenticated"
  shows "azure_ok (hub_destroy h st)"
  using assms by (auto simp: azure_ok_def hub_destroy_alt hubs_def provs_def)

lemma azure_ok_initiated:
  assumes "azure_ok st" "iothubClientHandle st = Some h" "deviceConnectionState st = DEVICE_CONNECTED"
  shows "azure_ok (st\<lparr>authenticationState := AuthenticationInitiated\<rparr>)"
  using assms by (auto simp: azure_ok_def hubs_def provs_def)

text \<open>What the two ways of setting up establish: a state that is in order once authentication is initiated.\<close>

definition setup_ok :: "bool \<Rightarrow> azure \<Rightarrow> bool" where
  "setup_ok ok st \<longleftrightarrow>
     (if ok then iothubClientHandle st \<noteq> None \<and> deviceConnectionState st = DEVICE_CONNECTED \<and>
        azure_ok (st\<lparr>authenticationState := AuthenticationInitiated\<rparr>)
      else azure_ok st)"

lemma hub_created_fields [step_simps, simp]:
  "prov_handle (hub_created env key st) = prov_handle st"
  "iothubClientHandle (hub_created env key st) = hub_create env"
  "pnpModelIdJson (hub_created env key st) = pnpModelIdJson st" "pnpModelId (hub_created env key st) = pnpModelId st"
  "deviceConnectionState (hub_created env key st) = deviceConnectionState st"
  "security_init_called (hub_created env key st) = security_init_called st"
  "authenticationState (hub_created env key st) = authenticationState st"
  "userConfig (hub_created env key st) = userConfig st"
  "connection_initialized (hub_created env key st) = connection_initialized st"
  "provisionCompletedMaxRetry (hub_created env key st) = provisionCompletedMaxRetry st"
  "outstandingMessageCount (hub_created env key st) = outstandingMessageCount st"
  "in_flight (hub_created env key st) = in_flight st"
  "connectionStatusCallback (hub_created env key st) = connectionStatusCallback st"
  "azure_timer (hub_created env key st) = azure_timer st"
  "hubs (hub_created env key st) = (case hub_create env of None \<Rightarrow> hubs st | Some h \<Rightarrow> h # hubs st)"
  "provs (hub_created env key st) = provs st"
  by (auto simp: hub_created_def hubs_def provs_def split: option.splits)

lemma alive_updates [step_simps, simp]:
  "hubs (st\<lparr>deviceConnectionState := d\<rparr>) = hubs st" "provs (st\<lparr>deviceConnectionState := d\<rparr>) = provs st"
  "hubs (st\<lparr>authenticationState := a\<rparr>) = hubs st" "provs (st\<lparr>authenticationState := a\<rparr>) = provs st"
  "hubs (st\<lparr>prov_handle := p\<rparr>) = hubs st" "provs (st\<lparr>prov_handle := p\<rparr>) = provs st"
  "hubs (st\<lparr>security_init_called := s\<rparr>) = hubs st" "provs (st\<lparr>security_init_called := s\<rparr>) = provs st"
  "hubs (st\<lparr>dpsRegisterStatus := r\<rparr>) = hubs st" "provs (st\<lparr>dpsRegisterStatus := r\<rparr>) = provs st"
  "hubs (st\<lparr>provisionCompletedMaxRetry := n\<rparr>) = hubs st" "provs (st\<lparr>provisionCompletedMaxRetry := n\<rparr>) = provs st"
  "hubs (st\<lparr>iotHubUri := u\<rparr>) = hubs st" "provs (st\<lparr>iotHubUri := u\<rparr>) = provs st"
  "hubs (st\<lparr>outstandingMessageCount := i\<rparr>) = hubs st" "provs (st\<lparr>outstandingMessageCount := i\<rparr>) = provs st"
  "hubs (st\<lparr>in_flight := k\<rparr>) = hubs st" "provs (st\<lparr>in_flight := k\<rparr>) = provs st"
  "hubs (st\<lparr>iothubClientHandle := h\<rparr>) = hubs st" "provs (st\<lparr>iothubClientHandle := h\<rparr>) = provs st"
  "hubs (st\<lparr>connection_initialized := c\<rparr>) = hubs st" "provs (st\<lparr>connection_initialized := c\<rparr>) = provs st"
  by (simp_all add: hubs_def provs_def)

lemma connection_string_ok:
  assumes ok: "azure_ok st" and none: "iothubClientHandle st = None" "prov_handle st = None"
    and s: "SetUpAzureIoTHubClientWithConnectionString env st = (r, st')"
  shows "setup_ok r st'"
proof -
  let ?s = "st\<lparr>deviceConnectionState := DEVICE_NOT_CONNECTED\<rparr>"
  obtain ready st1 where n: "isNetworkReady env ?s = (ready, st1)" by fastforce
  have "azure_ok ?s" using ok none by (auto simp: azure_ok_def hubs_def provs_def)
  then have st1: "azure_ok st1" "iothubClientHandle st1 = None" "prov_handle st1 = None"
    using azure_ok_network [of env ?s] network_frame [of env ?s] n none by simp_all
  have "setup_ok False (hub_created env key st1)" if "hub_create env = None" for key
    using st1 that by (auto simp: setup_ok_def azure_ok_def)
  moreover have "setup_ok True ((sdk Hub_Url_Encoding (hub_created env key st1))\<lparr>deviceConnectionState := DEVICE_CONNECTED\<rparr>)"
    if "hub_create env = Some h" for key h
    using st1 that by (auto simp: setup_ok_def azure_ok_def)
  moreover have "setup_ok False st1" using st1 by (simp add: setup_ok_def)
  ultimately show ?thesis
    using s n unfolding SetUpAzureIoTHubClientWithConnectionString_def
    by (auto simp: Let_def split: option.splits if_splits)
qed

lemma start_provisioning_ok:
  assumes ok: "azure_ok st" and none: "iothubClientHandle st = None" "authenticationState st = NotAuthenticated"
    and dev: "deviceConnectionState st \<in> {DEVICE_NOT_CONNECTED, DEVICE_PROVISIONING_ERROR}"
    and dps: "connectionType (userConfig st) = DX_CONNECTION_TYPE_DPS" "connection_initialized st"
  shows "azure_ok (provisioning_cleanup (start_provisioning env st))"
    "deviceConnectionState (provisioning_cleanup (start_provisioning env st)) \<noteq> DEVICE_CONNECTED"
proof -
  have "prov_handle st = None" "hubs st = []" "provs st = []" "\<not> security_init_called st"
    "outstandingMessageCount st = int (in_flight st)" "length (connectionStatusCallback st) = MAX_CONNECTION_STATUS_CALLBACKS"
    using ok none dev by (auto simp: azure_ok_def)
  note f = this none dps
  show "azure_ok (provisioning_cleanup (start_provisioning env st))"
    "deviceConnectionState (provisioning_cleanup (start_provisioning env st)) \<noteq> DEVICE_CONNECTED"
    by (cases "prov_create env"; cases "pnpModelIdJson st"; cases "security_init env = 0"; cases "prov_payload env";
        cases "prov_register env"; simp add: provisioning_cleanup_def start_provisioning_def Let_def azure_ok_def f)+
qed

lemma prov_callback_frame:
  "iothubClientHandle (RegisterProvisioningDeviceCallback env st e) = iothubClientHandle st"
  "prov_handle (RegisterProvisioningDeviceCallback env st e) = prov_handle st"
  "deviceConnectionState (RegisterProvisioningDeviceCallback env st e) = deviceConnectionState st"
  "security_init_called (RegisterProvisioningDeviceCallback env st e) = security_init_called st"
  "authenticationState (RegisterProvisioningDeviceCallback env st e) = authenticationState st"
  "userConfig (RegisterProvisioningDeviceCallback env st e) = userConfig st"
  "connection_initialized (RegisterProvisioningDeviceCallback env st e) = connection_initialized st"
  "provisionCompletedMaxRetry (RegisterProvisioningDeviceCallback env st e) = provisionCompletedMaxRetry st"
  "outstandingMessageCount (RegisterProvisioningDeviceCallback env st e) = outstandingMessageCount st"
  "in_flight (RegisterProvisioningDeviceCallback env st e) = in_flight st"
  "connectionStatusCallback (RegisterProvisioningDeviceCallback env st e) = connectionStatusCallback st"
  "azure_timer (RegisterProvisioningDeviceCallback env st e) = azure_timer st"
  "sdk_calls (RegisterProvisioningDeviceCallback env st e) = sdk_calls st"
  "network_ready_cached (RegisterProvisioningDeviceCallback env st e) = network_ready_cached st"
  "network_connection_state (RegisterProvisioningDeviceCallback env st e) = network_connection_state st"
  by (auto simp: RegisterProvisioningDeviceCallback_def Let_def split: prod.splits)

lemma prov_callbacks_frame:
  "iothubClientHandle (foldl (RegisterProvisioningDeviceCallback env) st es) = iothubClientHandle st"
  "prov_handle (foldl (RegisterProvisioningDeviceCallback env) st es) = prov_handle st"
  "deviceConnectionState (foldl (RegisterProvisioningDeviceCallback env) st es) = deviceConnectionState st"
  "security_init_called (foldl (RegisterProvisioningDeviceCallback env) st es) = security_init_called st"
  "authenticationState (foldl (RegisterProvisioningDeviceCallback env) st es) = authenticationState st"
  "userConfig (foldl (RegisterProvisioningDeviceCallback env) st es) = userConfig st"
  "connection_initialized (foldl (RegisterProvisioningDeviceCallback env) st es) = connection_initialized st"
  "provisionCompletedMaxRetry (foldl (RegisterProvisioningDeviceCallback env) st es) = provisionCompletedMaxRetry st"
  "outstandingMessageCount (foldl (RegisterProvisioningDeviceCallback env) st es) = outstandingMessageCount st"
  "in_flight (foldl (RegisterProvisioningDeviceCallback env) st es) = in_flight st"
  "connectionStatusCallback (foldl (RegisterProvisioningDeviceCallback env) st es) = connectionStatusCallback st"
  "azure_timer (foldl (RegisterProvisioningDeviceCallback env) st es) = azure_timer st"
  "sdk_calls (foldl (RegisterProvisioningDeviceCallback env) st es) = sdk_calls st"
  "network_ready_cached (foldl (RegisterProvisioningDeviceCallback env) st es) = network_ready_cached st"
  "network_connection_state (foldl (RegisterProvisioningDeviceCallback env) st es) = network_connection_state st"
  by (induction es arbitrary: st; simp add: prov_callback_frame)+

lemma prov_DoWork_frame [step_simps, simp]:
  "iothubClientHandle (prov_DoWork env st) = iothubClientHandle st"
  "prov_handle (prov_DoWork env st) = prov_handle st"
  "deviceConnectionState (prov_DoWork env st) = deviceConnectionState st"
  "security_init_called (prov_DoWork env st) = security_init_called st"
  "authenticationState (prov_DoWork env st) = authenticationState st"
  "userConfig (prov_DoWork env st) = userConfig st"
  "connection_initialized (prov_DoWork env st) = connection_initialized st"
  "provisionCompletedMaxRetry (prov_DoWork env st) = provisionCompletedMaxRetry st"
  "outstandingMessageCount (prov_DoWork env st) = outstandingMessageCount st"
  "in_flight (prov_DoWork env st) = in_flight st"
  "connectionStatusCallback (prov_DoWork env st) = connectionStatusCallback st"
  "azure_timer (prov_DoWork env st) = azure_timer st"
  "sdk_calls (prov_DoWork env st) = sdk_calls st @ [Prov_DoWork]"
  "network_ready_cached (prov_DoWork env st) = network_ready_cached st"
  "network_connection_state (prov_DoWork env st) = network_connection_state st"
  "hubs (prov_DoWork env st) = hubs st" "provs (prov_DoWork env st) = provs st"
  by (simp_all add: prov_DoWork_def prov_callbacks_frame hubs_def provs_def)

lemma poll_provisioning_ok:
  assumes ok: "azure_ok st" and dev: "deviceConnectionState st = DEVICE_PROVISIONING"
  shows "azure_ok (provisioning_cleanup (poll_provisioning env st))"
    "deviceConnectionState (provisioning_cleanup (poll_provisioning env st)) \<noteq> DEVICE_CONNECTED"
proof -
  obtain h where "prov_handle st = Some h" using ok dev by (auto simp: azure_ok_def)
  then have f: "prov_handle st = Some h" "hubs st = []" "provs st = [h]" "security_init_called st" "iothubClientHandle st = None"
    "outstandingMessageCount st = int (in_flight st)" "length (connectionStatusCallback st) = MAX_CONNECTION_STATUS_CALLBACKS"
    "authenticationState st = NotAuthenticated" "connectionType (userConfig st) = DX_CONNECTION_TYPE_DPS" "connection_initialized st"
    "0 \<le> provisionCompletedMaxRetry st" "provisionCompletedMaxRetry st \<le> 61"
    using ok dev by (auto simp: azure_ok_def)
  show "azure_ok (provisioning_cleanup (poll_provisioning env st))"
    "deviceConnectionState (provisioning_cleanup (poll_provisioning env st)) \<noteq> DEVICE_CONNECTED"
    using f dev by (auto simp: provisioning_cleanup_def poll_provisioning_def Let_def azure_ok_def)
qed

lemma ConnectToIotHub_fields:
  assumes "ConnectToIotHub env host st = (r, st')"
  shows "r \<longrightarrow> (\<exists>h. iothubClientHandle st' = Some h)"
    "deviceConnectionState st' = deviceConnectionState st" "prov_handle st' = prov_handle st"
    "security_init_called st' = security_init_called st"
    "authenticationState st' = authenticationState st" "userConfig st' = userConfig st"
    "connection_initialized st' = connection_initialized st" "provisionCompletedMaxRetry st' = provisionCompletedMaxRetry st"
    "outstandingMessageCount st' = outstandingMessageCount st" "in_flight st' = in_flight st"
    "connectionStatusCallback st' = connectionStatusCallback st" "azure_timer st' = azure_timer st"
    "provs st' = provs st"
    "iothubClientHandle st = None \<Longrightarrow> hubs st = [] \<Longrightarrow>
       hubs st' = (case iothubClientHandle st' of None \<Rightarrow> [] | Some h \<Rightarrow> [h])"
  using assms by (auto simp: ConnectToIotHub_def Let_def split: option.splits if_splits)

lemma provision_client_ok:
  assumes ok: "azure_ok st" and dev: "deviceConnectionState st = DEVICE_PROVISION_IOT_CLIENT"
  shows "setup_ok (deviceConnectionState (provisioning_cleanup (provision_client env st)) = DEVICE_CONNECTED)
    (provisioning_cleanup (provision_client env st))"
proof -
  obtain h where "prov_handle st = Some h" using ok dev by (auto simp: azure_ok_def)
  then have f: "prov_handle st = Some h" "hubs st = []" "provs st = [h]" "security_init_called st" "iothubClientHandle st = None"
    "outstandingMessageCount st = int (in_flight st)" "length (connectionStatusCallback st) = MAX_CONNECTION_STATUS_CALLBACKS"
    "authenticationState st = NotAuthenticated" "connectionType (userConfig st) = DX_CONNECTION_TYPE_DPS" "connection_initialized st"
    using ok dev by (auto simp: azure_ok_def)
  obtain r st' where c: "ConnectToIotHub env (iotHubUri st) st = (r, st')" by fastforce
  show ?thesis
    using f ConnectToIotHub_fields [OF c]
    by (cases r; cases "iothubClientHandle st'")
       (simp_all add: provision_client_def c provisioning_cleanup_def setup_ok_def azure_ok_def hub_destroy_alt Let_def)
qed

lemma setup_ok_False [simp]: "setup_ok False st = azure_ok st"
  by (simp add: setup_ok_def)

lemma dps_ok:
  assumes ok: "azure_ok st" and none: "iothubClientHandle st = None" "authenticationState st = NotAuthenticated"
    and dps: "connectionType (userConfig st) = DX_CONNECTION_TYPE_DPS" "connection_initialized st"
    and s: "SetUpAzureIoTHubClientWithDpsPnP env st = (r, st')"
  shows "setup_ok r st'"
proof -
  obtain ready st1 where n: "isNetworkReady env st = (ready, st1)" by fastforce
  have st1: "azure_ok st1" "iothubClientHandle st1 = None" "authenticationState st1 = NotAuthenticated"
    "connectionType (userConfig st1) = DX_CONNECTION_TYPE_DPS" "connection_initialized st1"
    using ok none dps network_frame [of env st] azure_ok_network [of env st] n by simp_all
  have "deviceConnectionState st1 \<noteq> DEVICE_CONNECTED" using st1 by (auto simp: azure_ok_def)
  then show ?thesis
    using s st1 start_provisioning_ok [OF st1(1-3) _ st1(4,5)] poll_provisioning_ok [OF st1(1)] provision_client_ok [OF st1(1)]
    unfolding SetUpAzureIoTHubClientWithDpsPnP_def n prod.case
    by (cases "deviceConnectionState st1")
       (auto simp: dx_isDeviceAuthReady_def Let_def split: if_splits)
qed

lemma SetupAzureClient_ok:
  assumes ok: "azure_ok st" "authenticationState st = NotAuthenticated" "connection_initialized st"
  shows "azure_ok (snd (SetupAzureClient env st))"
proof -
  define st1 where "st1 = (case iothubClientHandle st of None \<Rightarrow> st | Some h \<Rightarrow> hub_destroy h st)"
  define chosen where "chosen = (case connectionType (userConfig st1) of
      DX_CONNECTION_TYPE_HOSTNAME \<Rightarrow> (True, st1)
    | DX_CONNECTION_TYPE_DPS \<Rightarrow> SetUpAzureIoTHubClientWithDpsPnP env st1
    | DX_CONNECTION_TYPE_STRING \<Rightarrow> SetUpAzureIoTHubClientWithConnectionString env st1
    | DX_CONNECTION_TYPE_NOT_DEFINED \<Rightarrow> (False, st1))"
  obtain r st2 where r: "chosen = (r, st2)" by fastforce
  have st1: "azure_ok st1" "iothubClientHandle st1 = None" "authenticationState st1 = NotAuthenticated" "connection_initialized st1"
    using ok hub_destroy_ok [OF ok(1)] by (auto simp: st1_def hub_destroy_alt split: option.splits)
  have "prov_handle st1 = None" if "connectionType (userConfig st1) \<noteq> DX_CONNECTION_TYPE_DPS"
    using st1(1) that by (auto simp: azure_ok_def)
  then have r_ok: "setup_ok (r \<and> connectionType (userConfig st1) \<noteq> DX_CONNECTION_TYPE_HOSTNAME) st2"
    using r st1 connection_string_ok [OF st1(1,2), of env r st2] dps_ok [OF st1(1-3) _ st1(4), of env r st2]
    by (cases "connectionType (userConfig st1)"; cases r) (auto simp: chosen_def)
  have "deviceConnectionState st2 \<noteq> DEVICE_CONNECTED" if "connectionType (userConfig st1) = DX_CONNECTION_TYPE_HOSTNAME"
    using st1 r that by (auto simp: chosen_def azure_ok_def)
  then have host: "r \<and> deviceConnectionState st2 = DEVICE_CONNECTED \<Longrightarrow> connectionType (userConfig st1) \<noteq> DX_CONNECTION_TYPE_HOSTNAME"
    by blast
  have alt: "snd (SetupAzureClient env st) =
      (if \<not> r \<or> deviceConnectionState st2 \<noteq> DEVICE_CONNECTED then st2
       else hub_DoWork env (sdk Hub_Set_Callbacks (st2\<lparr>authenticationState := AuthenticationInitiated\<rparr>)))"
    unfolding SetupAzureClient_def Let_def st1_def [symmetric] chosen_def [symmetric] r by simp
  show ?thesis
  proof (cases "r \<and> deviceConnectionState st2 = DEVICE_CONNECTED")
    case True
    then have "azure_ok (sdk Hub_Set_Callbacks (st2\<lparr>authenticationState := AuthenticationInitiated\<rparr>))"
      using r_ok host by (simp add: setup_ok_def azure_ok_sdk)
    then show ?thesis using True alt by (simp add: hub_DoWork_ok)
  next
    case False
    have "azure_ok st2"
    proof (cases "r \<and> connectionType (userConfig st1) \<noteq> DX_CONNECTION_TYPE_HOSTNAME")
      case True
      then show ?thesis using False r_ok by (simp add: setup_ok_def)
    next
      case no: False
      then have "(r \<and> connectionType (userConfig st1) \<noteq> DX_CONNECTION_TYPE_HOSTNAME) = False" by blast
      then have "setup_ok False st2" using r_ok by metis
      then show ?thesis by (simp add: setup_ok_def)
    qed
    then show ?thesis using alt False by auto
  qed
qed

lemma AzureConnectionHandler_ok:
  assumes ok: "azure_ok st" and armed: "tm_initialized (azure_timer st)"
  shows "azure_ok (AzureConnectionHandler env st)"
proof -
  obtain ready st1 where n: "isNetworkReady env st = (ready, st1)" by fastforce
  have st1: "azure_ok st1" "connection_initialized st1"
    using ok armed network_frame [of env st] azure_ok_network [of env st] n by (auto simp: azure_ok_def [of st])
  define st2 where "st2 = (if \<not> ready \<and> authenticationState st1 = Authenticated
     then st1\<lparr>authenticationState := NotAuthenticated, deviceConnectionState := DEVICE_NOT_CONNECTED\<rparr> else st1)"
  have st2: "azure_ok st2" "connection_initialized st2"
    using st1 azure_ok_drop [OF st1(1)] azure_ok_live(2) [OF st1(1)] by (auto simp: st2_def)
  obtain period st3 where w: "azure_work env st2 = (period, st3)" by fastforce
  have "azure_ok st3"
    using w st2 SetupAzureClient_ok [OF st2(1) _ st2(2)] hub_DoWork_ok [OF st2(1)] azure_ok_drop [OF st2(1)] azure_ok_live(2) [OF st2(1)]
    by (cases "authenticationState st2") (auto simp: azure_work_def)
  moreover have "AzureConnectionHandler env st = snd (dx_timerOneShotSet (azure_timer st3) period st3)"
    unfolding AzureConnectionHandler_def n prod.case Let_def st2_def [symmetric] w ..
  ultimately show ?thesis using azure_ok_more [OF net_more(5)] by simp
qed

text \<open>Fields written on two states that agree on the connection's part leave them in agreement.\<close>

lemma net_more_update:
  assumes "net.more st' = net.more st"
  shows "net.more (st'\<lparr>azure_timer := t\<rparr>) = net.more (st\<lparr>azure_timer := t\<rparr>)"
    "net.more (st'\<lparr>tmr_network_ready := t, connection_initialized := c\<rparr>) =
     net.more (st\<lparr>tmr_network_ready := t, connection_initialized := c\<rparr>)"
    "net.more (st'\<lparr>tmr_network_ready := t\<rparr>) = net.more (st\<lparr>tmr_network_ready := t\<rparr>)"
    "net.more (sdk call st') = net.more (sdk call st)"
  using assms by (cases st; cases st'; simp add: sdk_def)+

lemma dx_azureToDeviceStart_more:
  "\<exists>t1 t2. net.more (dx_azureToDeviceStart env st) \<in>
     {net.more st, net.more (sdk IoTHub_Init st),
      net.more ((sdk IoTHub_Init st)\<lparr>azure_timer := t1, tmr_network_ready := t2, connection_initialized := False\<rparr>)}"
proof (cases "tm_initialized (azure_timer st) \<or> iothub_init env \<noteq> 0")
  case True
  then show ?thesis by (auto simp: dx_azureToDeviceStart_def Let_def)
next
  case False
  define s1 where "s1 = sdk IoTHub_Init st"
  obtain r1 t1 s2 where a: "dx_timerStart s1 (azure_timer s1) = (r1, t1, s2)" by (metis prod_cases3)
  obtain r2 t2 s3 where b: "dx_timerStart (s2\<lparr>azure_timer := t1\<rparr>) (tmr_network_ready s2) = (r2, t2, s3)" by (metis prod_cases3)
  have "net.more s2 = net.more s1" using net_more(3) [of s1 "azure_timer s1"] a by simp
  then have "net.more (s2\<lparr>azure_timer := t1\<rparr>) = net.more (s1\<lparr>azure_timer := t1\<rparr>)" by (rule net_more_update)
  moreover have "net.more s3 = net.more (s2\<lparr>azure_timer := t1\<rparr>)"
    using net_more(3) [of "s2\<lparr>azure_timer := t1\<rparr>" "tmr_network_ready s2"] b by simp
  ultimately have "net.more s3 = net.more (s1\<lparr>azure_timer := t1\<rparr>)" by simp
  from net_more_update(2) [OF this, where t = t2 and c = False]
  show ?thesis using False a b by (auto simp: dx_azureToDeviceStart_def Let_def s1_def [symmetric])
qed

lemma dx_azureToDeviceStart_ok:
  assumes ok: "azure_ok st" and none: "prov_handle st = None"
  shows "azure_ok ((dx_azureToDeviceStart env st)\<lparr>connection_initialized := True\<rparr>)"
proof -
  have *: "azure_ok (st'\<lparr>connection_initialized := True\<rparr>)"
    if "net.more st' = net.more st0" "azure_ok (st0\<lparr>connection_initialized := True\<rparr>)" for st' st0
  proof -
    have "net.more (st'\<lparr>connection_initialized := True\<rparr>) = net.more (st0\<lparr>connection_initialized := True\<rparr>)"
      using that(1) by (cases st'; cases st0; simp)
    from azure_ok_more [OF this] that(2) show ?thesis by simp
  qed
  have "azure_ok (st\<lparr>connection_initialized := True\<rparr>)" "azure_ok ((sdk IoTHub_Init st)\<lparr>connection_initialized := True\<rparr>)"
    "azure_ok ((sdk IoTHub_Init st)\<lparr>azure_timer := t1, tmr_network_ready := t2, connection_initialized := True\<rparr>)" for t1 t2
    using ok none by (auto simp: azure_ok_def hubs_def provs_def)
  then show ?thesis using dx_azureToDeviceStart_more [of env st] by (auto dest: *)
qed

lemma dx_azureConnect_ok:
  assumes ok: "azure_ok st"
  shows "azure_ok (dx_azureConnect env config interface modelId st)"
proof (cases "connection_initialized st \<or> connectionType config = DX_CONNECTION_TYPE_NOT_DEFINED")
  case True
  then show ?thesis using ok azure_ok_more [OF net_more(2)] by (auto simp: dx_azureConnect_def)
next
  case False
  define st1 where "st1 = st\<lparr>userConfig := config, az_networkInterface := interface, pnpModelId := modelId\<rparr>"
  define r where "r = (if connectionType config = DX_CONNECTION_TYPE_DPS then createPnpModelIdJson env st1 else (True, st1))"
  have none: "prov_handle st = None" "\<not> tm_initialized (azure_timer st)" using ok False by (auto simp: azure_ok_def)
  have st1: "azure_ok st1" "prov_handle st1 = None" using ok none by (auto simp: st1_def azure_ok_def hubs_def provs_def)
  have upd: "azure_ok (st1\<lparr>pnpModelIdJson := j\<rparr>)" for j
    using st1 by (auto simp: azure_ok_def hubs_def provs_def)
  have r: "azure_ok (snd r)" "prov_handle (snd r) = None"
    using st1 upd
    by (simp_all add: r_def createPnpModelIdJson_def Let_def azure_ok_more [OF net_more(2)] azure_fields_of_more(10) [OF net_more(2)])
  have "dx_azureConnect env config interface modelId st =
      (if fst r then (dx_azureToDeviceStart env (snd r))\<lparr>connection_initialized := True\<rparr> else snd r)"
    using False by (simp add: dx_azureConnect_def st1_def [symmetric] r_def Let_def split_beta)
  then show ?thesis using r dx_azureToDeviceStart_ok by simp
qed

lemma dx_azureToDeviceStop_ok:
  assumes ok: "azure_ok st"
  shows "azure_ok (dx_azureToDeviceStop st)"
proof (cases "tm_initialized (azure_timer st)")
  case True
  obtain t1 s1 where a: "dx_timerStop st (azure_timer st) = (t1, s1)" by fastforce
  obtain t2 s2 where b: "dx_timerStop (s1\<lparr>azure_timer := t1\<rparr>) (tmr_network_ready s1) = (t2, s2)" by fastforce
  have t1: "\<not> tm_initialized t1" using a True by (auto simp: dx_timerStop_def)
  have "net.more s1 = net.more st" using net_more(4) [of st "azure_timer st"] a by simp
  then have "net.more (s1\<lparr>azure_timer := t1\<rparr>) = net.more (st\<lparr>azure_timer := t1\<rparr>)" by (rule net_more_update)
  moreover have "net.more s2 = net.more (s1\<lparr>azure_timer := t1\<rparr>)"
    using net_more(4) [of "s1\<lparr>azure_timer := t1\<rparr>" "tmr_network_ready s1"] b by simp
  ultimately have *: "net.more (sdk IoTHub_Deinit (s2\<lparr>tmr_network_ready := t2\<rparr>)) =
      net.more (sdk IoTHub_Deinit (st\<lparr>azure_timer := t1, tmr_network_ready := t2\<rparr>))"
    by (intro net_more_update) simp
  have "azure_ok (sdk IoTHub_Deinit (st\<lparr>azure_timer := t1, tmr_network_ready := t2\<rparr>))"
    using ok t1 by (auto simp: azure_ok_def hubs_def provs_def sdk_def)
  then have "azure_ok (sdk IoTHub_Deinit (s2\<lparr>tmr_network_ready := t2\<rparr>))" using azure_ok_more [OF *] by simp
  then show ?thesis using True a b by (simp add: dx_azureToDeviceStop_def)
next
  case False
  then show ?thesis using ok by (simp add: dx_azureToDeviceStop_def)
qed

lemma set_properties_ok:
  "azure_ok (snd (set_properties env ps st)) = azure_ok st"
  "iothubClientHandle (snd (set_properties env ps st)) = iothubClientHandle st"
  "in_flight (snd (set_properties env ps st)) = in_flight st"
  by (induction env ps st rule: set_properties.induct) (simp_all add: Let_def azure_ok_sdk)

lemma set_content_ok:
  "azure_ok (snd (set_content env content st)) = azure_ok st"
  "iothubClientHandle (snd (set_content env content st)) = iothubClientHandle st"
  "in_flight (snd (set_content env content st)) = in_flight st"
  by (simp_all add: set_content_def azure_ok_sdk split: option.splits)

lemma azure_ok_sent:
  "azure_ok st \<Longrightarrow> azure_ok (st\<lparr>outstandingMessageCount := outstandingMessageCount st + 1, in_flight := in_flight st + 1\<rparr>)"
  by (auto simp: azure_ok_def)

lemma dx_azurePublish_ok:
  assumes ok: "azure_ok st"
  shows "azure_ok (snd (dx_azurePublish env message len properties content st))"
proof -
  obtain connected st1 where a: "dx_isAzureConnected env st = (connected, st1)" by fastforce
  obtain r2 st2 where c: "set_content env content (sdk (Message_Create message len) st1) = (r2, st2)" by fastforce
  define p where "p = (if r2 then set_properties env properties st2 else (False, st2))"
  obtain r3 st3 where p: "p = (r3, st3)" by fastforce
  have st1: "azure_ok st1" using azure_ok_isAzureConnected [OF ok, of env] a by simp
  then have "azure_ok st2" using set_content_ok(1) [of env content "sdk (Message_Create message len) st1"] c by (simp add: azure_ok_sdk)
  then have st3: "azure_ok st3" using set_properties_ok(1) [of env properties st2] p by (auto simp: p_def split: if_splits)
  have "azure_ok (sdk Message_Send st3)" using st3 by (simp add: azure_ok_sdk)
  note sent = this azure_ok_sent [OF this]
  have "azure_ok (sdk Message_Destroy st3)" "azure_ok (sdk Message_Destroy (sdk Message_Send st3))"
    "azure_ok (sdk Message_Destroy ((sdk Message_Send st3)
       \<lparr>outstandingMessageCount := outstandingMessageCount st3 + 1, in_flight := in_flight st3 + 1\<rparr>))"
    using st3 sent by (simp_all add: azure_ok_sdk)
  note worked = this [THEN hub_DoWork_ok]
  show ?thesis
    unfolding dx_azurePublish_def a c prod.case p_def [symmetric] p
    using ok st1 worked by (cases connected; cases r3; cases "message_create env"; cases "event_sent env"; cases "len = 0") (simp_all add: Let_def)
qed

lemma length_register_slot: "length (snd (register_slot cb slots)) = length slots"
  by (induction cb slots rule: register_slot.induct) (auto split: prod.splits)

lemma azure_step_ok: "azure_step st op st' \<Longrightarrow> azure_ok st \<Longrightarrow> azure_ok st'"
proof (induction rule: azure_step.induct)
  case (network_connected_expired st)
  have "net.more (network_connected_expired_handler st) = net.more st" by (simp add: network_connected_expired_handler_def)
  with network_connected_expired show ?case using azure_ok_more by blast
next
  case (network_ready_expired st)
  then show ?case by (auto simp: azure_ok_def network_ready_expired_handler_def hubs_def provs_def)
next
  case (register_status st cb)
  then show ?case using length_register_slot [of cb "connectionStatusCallback st"]
    by (auto simp: azure_ok_def dx_azureRegisterConnectionChangedNotification_def hubs_def provs_def split: prod.splits)
next
  case (unregister_status st cb)
  then show ?case by (auto simp: azure_ok_def dx_azureUnregisterConnectionChangedNotification_def hubs_def provs_def)
next
  case (register_twin st h)
  then show ?case by (auto simp: azure_ok_def dx_azureRegisterDeviceTwinCallback_def hubs_def provs_def)
next
  case (register_method st h)
  then show ?case by (auto simp: azure_ok_def dx_azureRegisterDirectMethodCallback_def hubs_def provs_def)
next
  case (register_message st h)
  then show ?case by (auto simp: azure_ok_def dx_azureRegisterMessageReceivedNotification_def hubs_def provs_def)
qed (simp_all add: dx_azureConnect_ok dx_azureToDeviceStop_ok AzureConnectionHandler_ok azure_ok_isAzureConnected dx_azurePublish_ok)

section \<open>Runs\<close>

interpretation azure_runs: stable azure_step azure_ok
  by unfold_locales (rule azure_step_ok)

end
