(* ===== verification/Dx_Azure_Status.thy ===== *)
theory Dx_Azure_Status
  imports Dx_Azure_Invariant
begin

text \<open>
  Who is told what about the connection: the relation \<open>told cb\<close> between the states around an
  operation says that a callback registered once hears strictly alternating states.  The operations
  that cannot notify leave the \<open>view\<close> alone; the others go through
  \<open>ProcessConnectionStatusCallbacks\<close>.  Here the callbacks call no function of the file in their turn.
\<close>

section \<open>Notifications\<close>

fun is_notify :: "sdk_call \<Rightarrow> bool" where
  "is_notify (Notify cb b) = True"
| "is_notify _ = False"

fun note_of :: "nat \<Rightarrow> sdk_call \<Rightarrow> bool list" where
  "note_of cb (Notify k b) = (if k = cb then [b] else [])"
| "note_of cb _ = []"

text \<open>What callback \<open>cb\<close> has been told, in order.\<close>

definition heard :: "nat \<Rightarrow> azure \<Rightarrow> bool list" where
  "heard cb st = List.concat (List.map (note_of cb) (sdk_calls st))"

fun alternates :: "bool \<Rightarrow> bool list \<Rightarrow> bool" where
  "alternates before [] = True"
| "alternates before (b # bs) = (b \<noteq> before \<and> alternates b bs)"

lemma alternates_append:
  "alternates before (xs @ ys) \<longleftrightarrow> alternates before xs \<and> alternates (if xs = [] then before else last xs) ys"
  by (induction xs arbitrary: before) auto

text \<open>The part of the state the notifications depend on.\<close>

definition view :: "azure \<Rightarrow> nat option list \<times> bool \<times> sdk_call list" where
  "view st = (connectionStatusCallback st, previous_connection_state st, filter is_notify (sdk_calls st))"

lemma heard_view: "heard cb st = List.concat (List.map (note_of cb) (snd (snd (view st))))"
proof -
  have "List.concat (List.map (note_of cb) (filter is_notify cs)) = List.concat (List.map (note_of cb) cs)" for cs
  proof (induction cs)
    case (Cons c cs)
    then show ?case by (cases c) auto
  qed simp
  then show ?thesis by (simp add: heard_def view_def)
qed

lemma view_sdk [step_simps, simp]: "\<not> is_notify c \<Longrightarrow> view (sdk c st) = view st"
  by (simp add: view_def)

lemma view_updates [step_simps, simp]:
  "view (st\<lparr>deviceConnectionState := d\<rparr>) = view st" "view (st\<lparr>authenticationState := a\<rparr>) = view st"
  "view (st\<lparr>prov_handle := p\<rparr>) = view st" "view (st\<lparr>security_init_called := s\<rparr>) = view st"
  "view (st\<lparr>dpsRegisterStatus := r\<rparr>) = view st" "view (st\<lparr>provisionCompletedMaxRetry := n\<rparr>) = view st"
  "view (st\<lparr>iotHubUri := u\<rparr>) = view st" "view (st\<lparr>outstandingMessageCount := i\<rparr>) = view st"
  "view (st\<lparr>in_flight := k\<rparr>) = view st" "view (st\<lparr>iothubClientHandle := h\<rparr>) = view st"
  "view (st\<lparr>connection_initialized := c\<rparr>) = view st" "view (st\<lparr>azure_timer := t\<rparr>) = view st"
  "view (st\<lparr>tmr_network_ready := t\<rparr>) = view st" "view (st\<lparr>network_ready_cached := c\<rparr>) = view st"
  "view (st\<lparr>deviceTwinCallbackHandler := f\<rparr>) = view st" "view (st\<lparr>directMethodCallbackHandler := f\<rparr>) = view st"
  "view (st\<lparr>messageReceivedCallback := f\<rparr>) = view st" "view (st\<lparr>pnpModelIdJson := j\<rparr>) = view st"
  "view (st\<lparr>userConfig := g\<rparr>) = view st" "view (st\<lparr>az_networkInterface := j\<rparr>) = view st"
  "view (st\<lparr>pnpModelId := j\<rparr>) = view st"
  by (simp_all add: view_def)

lemma view_more:
  assumes "net.more st' = net.more st"
  shows "view st' = view st"
  using azure_fields_of_more(8,13,17) [OF assms] by (simp add: view_def)

lemmas view_runtime [step_simps, simp] = net_more [THEN view_more]

lemma view_network [step_simps, simp]: "view (snd (isNetworkReady env st)) = view st"
  by (simp add: view_def)

definition told :: "nat \<Rightarrow> azure \<Rightarrow> azure \<Rightarrow> bool" where
  "told cb st st' \<longleftrightarrow>
     (count_list (connectionStatusCallback st) (Some cb) = 1 \<longrightarrow>
      connectionStatusCallback st' = connectionStatusCallback st \<and>
      (\<exists>bs. heard cb st' = heard cb st @ bs \<and> alternates (previous_connection_state st) bs \<and>
         previous_connection_state st' = (if bs = [] then previous_connection_state st else last bs)))"

lemma told_view: "view st' = view st \<Longrightarrow> told cb st st'"
  using heard_view [of cb st] heard_view [of cb st'] by (auto simp: told_def view_def)

lemma told_refl: "told cb st st"
  by (rule told_view) simp

lemma told_trans: "told cb st st1 \<Longrightarrow> told cb st1 st2 \<Longrightarrow> told cb st st2"
  unfolding told_def
proof (intro impI)
  assume 1: "count_list (connectionStatusCallback st) (Some cb) = 1 \<longrightarrow>
      connectionStatusCallback st1 = connectionStatusCallback st \<and>
      (\<exists>bs. heard cb st1 = heard cb st @ bs \<and> alternates (previous_connection_state st) bs \<and>
         previous_connection_state st1 = (if bs = [] then previous_connection_state st else last bs))"
    and 2: "count_list (connectionStatusCallback st1) (Some cb) = 1 \<longrightarrow>
      connectionStatusCallback st2 = connectionStatusCallback st1 \<and>
      (\<exists>bs. heard cb st2 = heard cb st1 @ bs \<and> alternates (previous_connection_state st1) bs \<and>
         previous_connection_state st2 = (if bs = [] then previous_connection_state st1 else last bs))"
    and once: "count_list (connectionStatusCallback st) (Some cb) = 1"
  obtain bs where bs: "heard cb st1 = heard cb st @ bs" "alternates (previous_connection_state st) bs"
    "previous_connection_state st1 = (if bs = [] then previous_connection_state st else last bs)"
    using 1 once by blast
  obtain bs' where bs': "heard cb st2 = heard cb st1 @ bs'" "alternates (previous_connection_state st1) bs'"
    "previous_connection_state st2 = (if bs' = [] then previous_connection_state st1 else last bs')"
    using 1 2 once by auto
  have "heard cb st2 = heard cb st @ (bs @ bs')" "alternates (previous_connection_state st) (bs @ bs')"
    "previous_connection_state st2 = (if bs @ bs' = [] then previous_connection_state st else last (bs @ bs'))"
    using bs bs' by (simp_all add: alternates_append)
  then show "connectionStatusCallback st2 = connectionStatusCallback st \<and>
      (\<exists>bs. heard cb st2 = heard cb st @ bs \<and> alternates (previous_connection_state st) bs \<and>
         previous_connection_state st2 = (if bs = [] then previous_connection_state st else last bs))"
    using 1 2 once by auto
qed

lemma heard_process:
  "heard cb (ProcessConnectionStatusCallbacks b st) =
     heard cb st @ (if b \<noteq> previous_connection_state st
       then replicate (count_list (connectionStatusCallback st) (Some cb)) b else [])"
proof -
  have "List.concat (List.map (note_of cb)
      (List.concat (List.map (\<lambda>slot. case slot of None \<Rightarrow> [] | Some k \<Rightarrow> [Notify k b]) slots)))
    = replicate (count_list slots (Some cb)) b" for slots b
    by (induction slots) (auto split: option.splits if_splits)
  then show ?thesis by (simp add: heard_def ProcessConnectionStatusCallbacks_def)
qed

lemma told_process: "told cb st (ProcessConnectionStatusCallbacks b st)"
proof (cases "b = previous_connection_state st")
  case True
  then show ?thesis using told_refl by (simp add: ProcessConnectionStatusCallbacks_def)
next
  case False
  then show ?thesis by (auto simp: told_def heard_process)
qed

lemma told_after_view: "told cb st st1 \<Longrightarrow> view st2 = view st1 \<Longrightarrow> told cb st st2"
  using told_trans told_view by blast

lemma told_before_view: "view st1 = view st \<Longrightarrow> told cb st1 st2 \<Longrightarrow> told cb st st2"
  using told_trans told_view by blast

lemma told_asked: "told cb st (snd (dx_isAzureConnected env st))"
  by (auto simp: dx_isAzureConnected_alt Let_def split_beta intro!: told_before_view [OF _ told_process])

lemma told_callback: "told cb st (hub_callback env st e)"
proof (cases e)
  case (Connection_Status a r)
  then show ?thesis
    by (auto simp: HubConnectionStatusCallback_def Let_def intro: told_before_view [OF _ told_asked])
qed (auto simp: SendMessageCallback_def HubDeviceTwinCallback_def HubDirectMethodCallback_def HubMessageReceivedCallback_def
    intro!: told_view split: option.splits)

lemma told_DoWork: "told cb st (hub_DoWork env st)"
proof -
  have "told cb st (foldl (hub_callback env) st es)" for es st
    by (induction es arbitrary: st) (auto intro: told_refl told_trans told_callback)
  from told_before_view [OF _ this] show ?thesis by (simp add: hub_DoWork_def told_view)
qed

lemma view_destroy [step_simps, simp]: "view (hub_destroy h st) = view st"
  by (simp add: hub_destroy_alt)

lemma view_created [step_simps, simp]: "view (hub_created env key st) = view st"
  by (simp add: hub_created_def split: option.splits)

lemma view_ConnectToIotHub [step_simps, simp]: "view (snd (ConnectToIotHub env host st)) = view st"
  by (simp add: ConnectToIotHub_def Let_def split: option.splits)

lemma view_start [step_simps, simp]: "view (start_provisioning env st) = view st"
  by (simp add: start_provisioning_def Let_def split: option.splits)

lemma view_prov [step_simps, simp]: "view (prov_DoWork env st) = view st"
proof -
  have "view (foldl (RegisterProvisioningDeviceCallback env) st es) = view st" for es st
    by (induction es arbitrary: st) (auto simp: RegisterProvisioningDeviceCallback_def Let_def split: prod.splits)
  then show ?thesis by (simp add: prov_DoWork_def)
qed

lemma view_poll [step_simps, simp]: "view (poll_provisioning env st) = view st"
  by (simp add: poll_provisioning_def Let_def)

lemma view_client [step_simps, simp]: "view (provision_client env st) = view st"
  using view_ConnectToIotHub [of env "iotHubUri st" st]
  by (simp add: provision_client_def split_beta split: option.splits)

lemma view_cleanup [step_simps, simp]: "view (provisioning_cleanup st) = view st"
  by (simp add: provisioning_cleanup_def Let_def split: option.splits)

lemma view_setups [step_simps, simp]:
  "view (snd (SetUpAzureIoTHubClientWithDpsPnP env st)) = view st"
  "view (snd (SetUpAzureIoTHubClientWithConnectionString env st)) = view st"
  by (auto simp: SetUpAzureIoTHubClientWithDpsPnP_def SetUpAzureIoTHubClientWithConnectionString_def Let_def split_beta
      split: option.splits device_connection_state.splits)

lemma told_setup: "told cb st (snd (SetupAzureClient env st))"
proof -
  define st1 where "st1 = (case iothubClientHandle st of None \<Rightarrow> st | Some h \<Rightarrow> hub_destroy h st)"
  define chosen where "chosen = (case connectionType (userConfig st1) of
      DX_CONNECTION_TYPE_HOSTNAME \<Rightarrow> (True, st1)
    | DX_CONNECTION_TYPE_DPS \<Rightarrow> SetUpAzureIoTHubClientWithDpsPnP env st1
    | DX_CONNECTION_TYPE_STRING \<Rightarrow> SetUpAzureIoTHubClientWithConnectionString env st1
    | DX_CONNECTION_TYPE_NOT_DEFINED \<Rightarrow> (False, st1))"
  obtain r st2 where r: "chosen = (r, st2)" by fastforce
  have "view st1 = view st" by (simp add: st1_def split: option.splits)
  moreover have "view st2 = view st1"
    using arg_cong [OF r, of snd] view_setups [of env st1]
    by (cases "connectionType (userConfig st1)") (auto simp: chosen_def)
  ultimately have v: "view st2 = view st" by simp
  then have "told cb st (hub_DoWork env (sdk Hub_Set_Callbacks (st2\<lparr>authenticationState := AuthenticationInitiated\<rparr>)))"
    by (intro told_before_view [OF _ told_DoWork]) simp
  moreover have "told cb st st2" using v by (rule told_view)
  ultimately show ?thesis
    unfolding SetupAzureClient_def Let_def st1_def [symmetric] chosen_def [symmetric] r by simp
qed

lemma told_handler: "told cb st (AzureConnectionHandler env st)"
proof -
  have "told cb st (snd (azure_work env st))" for st
    by (auto simp: azure_work_def split: authentication_state.splits intro: told_setup told_DoWork told_view)
  from told_before_view [OF _ this] show ?thesis
    unfolding AzureConnectionHandler_def Let_def split_beta
    by (auto intro!: told_after_view [OF _ view_runtime(5)])
qed

lemma view_set [step_simps, simp]:
  "view (snd (set_properties env ps st)) = view st" "view (snd (set_content env content st)) = view st"
  by (induction env ps st rule: set_properties.induct) (auto simp: Let_def set_content_def split: option.splits)

lemma told_publish: "told cb st (snd (dx_azurePublish env message len properties content st))"
proof -
  obtain connected st1 where a: "dx_isAzureConnected env st = (connected, st1)" by fastforce
  obtain r2 st2 where c: "set_content env content (sdk (Message_Create message len) st1) = (r2, st2)" by fastforce
  define p where "p = (if r2 then set_properties env properties st2 else (False, st2))"
  obtain r3 st3 where p: "p = (r3, st3)" by fastforce
  have t1: "told cb st st1" using told_asked [of cb st env] a by simp
  have "view st2 = view st1" using view_set(2) [of env content "sdk (Message_Create message len) st1"] c by simp
  moreover have "view (snd p) = view st2" by (simp add: p_def)
  ultimately have v: "view st3 = view st1" using p by simp
  have "told cb st (hub_DoWork env st4)" if "view st4 = view st1" for st4
    using t1 told_trans told_before_view [OF that told_DoWork] by blast
  note worked = this [of "sdk Message_Destroy st3"] this [of "sdk Message_Destroy (sdk Message_Send st3)"]
    this [of "sdk Message_Destroy ((sdk Message_Send st3)
       \<lparr>outstandingMessageCount := outstandingMessageCount st3 + 1, in_flight := in_flight st3 + 1\<rparr>)"]
  show ?thesis
    unfolding dx_azurePublish_def a c prod.case p_def [symmetric] p
    using told_refl [of cb st] t1 worked v
    by (cases connected; cases r3; cases "message_create env"; cases "event_sent env"; cases "len = 0") (simp_all add: Let_def)
qed

lemma view_start_stop [step_simps, simp]:
  "view (dx_azureToDeviceStart env st) = view st" "view (dx_azureToDeviceStop st) = view st"
proof -
  obtain t1 t2 where "net.more (dx_azureToDeviceStart env st) \<in>
     {net.more st, net.more (sdk IoTHub_Init st),
      net.more ((sdk IoTHub_Init st)\<lparr>azure_timer := t1, tmr_network_ready := t2, connection_initialized := False\<rparr>)}"
    using dx_azureToDeviceStart_more [of env st] by blast
  then show "view (dx_azureToDeviceStart env st) = view st" by (auto dest!: view_more)
  show "view (dx_azureToDeviceStop st) = view st"
    using view_runtime(4) by (simp add: dx_azureToDeviceStop_def split_beta)
qed

lemma told_connect: "told cb st (dx_azureConnect env config interface modelId st)"
  by (rule told_view) (simp add: dx_azureConnect_def createPnpModelIdJson_def Let_def split_beta)

fun keeps_registrations :: "azure_op \<Rightarrow> bool" where
  "keeps_registrations (Register_Status cb) = False"
| "keeps_registrations (Unregister_Status cb) = False"
| "keeps_registrations _ = True"

lemma told_step: "azure_step st op st' \<Longrightarrow> keeps_registrations op \<Longrightarrow> told cb st st'"
proof (induction rule: azure_step.induct)
  case (network_connected_expired st)
  have "net.more (network_connected_expired_handler st) = net.more st" by (simp add: network_connected_expired_handler_def)
  from view_more [OF this] show ?case by (rule told_view)
qed (auto simp: dx_azureRegisterDeviceTwinCallback_def dx_azureRegisterDirectMethodCallback_def
    dx_azureRegisterMessageReceivedNotification_def network_ready_expired_handler_def
    intro: told_connect told_handler told_asked told_publish told_view)

interpretation azure_told: stable_rel azure_step azure_ok keeps_registrations "told cb" for cb
  by unfold_locales (rule told_refl, erule (1) told_trans, erule (1) told_step)

end
