(* ===== verification/Dx_Azure_Timer.thy ===== *)
theory Dx_Azure_Timer
  imports Dx_Azure_Status
begin

text \<open>
  What only starting and stopping change: the connection timer and the flag \<open>connection_initialized\<close>
  (\<open>keep\<close>).  A connection that has been stopped is in a state no step leaves.
\<close>

section \<open>The timer and the start flag\<close>

text \<open>Only starting and stopping touch the connection timer and the flag.\<close>

definition keep :: "azure \<Rightarrow> timer_binding \<times> bool" where
  "keep st = (azure_timer st, connection_initialized st)"

lemma keep_updates [step_simps, simp]:
  "keep (sdk c st) = keep st" "keep (ProcessConnectionStatusCallbacks b st) = keep st"
  "keep (st\<lparr>deviceConnectionState := d\<rparr>) = keep st" "keep (st\<lparr>authenticationState := a\<rparr>) = keep st"
  "keep (st\<lparr>prov_handle := p\<rparr>) = keep st" "keep (st\<lparr>security_init_called := s\<rparr>) = keep st"
  "keep (st\<lparr>dpsRegisterStatus := r\<rparr>) = keep st" "keep (st\<lparr>provisionCompletedMaxRetry := n\<rparr>) = keep st"
  "keep (st\<lparr>iotHubUri := u\<rparr>) = keep st" "keep (st\<lparr>outstandingMessageCount := i\<rparr>) = keep st"
  "keep (st\<lparr>in_flight := k\<rparr>) = keep st" "keep (st\<lparr>iothubClientHandle := h\<rparr>) = keep st"
  "keep (st\<lparr>connectionStatusCallback := cbs\<rparr>) = keep st" "keep (st\<lparr>network_ready_cached := q\<rparr>) = keep st"
  "keep (st\<lparr>deviceTwinCallbackHandler := f\<rparr>) = keep st" "keep (st\<lparr>directMethodCallbackHandler := f\<rparr>) = keep st"
  "keep (st\<lparr>messageReceivedCallback := f\<rparr>) = keep st"
  by (simp_all add: keep_def)

lemma keep_more:
  assumes "net.more st' = net.more st"
  shows "keep st' = keep st"
  using azure_fields_of_more(5,18) [OF assms] by (simp add: keep_def)

lemmas keep_runtime [step_simps, simp] = net_more [THEN keep_more]

lemma keep_network [step_simps, simp]: "keep (snd (isNetworkReady env st)) = keep st"
  by (simp add: keep_def)

lemma keep_asked [step_simps, simp]: "keep (snd (dx_isAzureConnected env st)) = keep st"
  by (simp add: dx_isAzureConnected_alt Let_def split_beta)

lemma keep_callback [step_simps, simp]: "keep (hub_callback env st e) = keep st"
  by (cases e) (auto simp: HubConnectionStatusCallback_def SendMessageCallback_def HubDeviceTwinCallback_def
      HubDirectMethodCallback_def HubMessageReceivedCallback_def Let_def split: option.splits)

lemma keep_DoWork [step_simps, simp]: "keep (hub_DoWork env st) = keep st"
proof -
  have "keep (foldl (hub_callback env) st es) = keep st" for es st by (induction es arbitrary: st) auto
  then show ?thesis by (simp add: hub_DoWork_def)
qed

lemma keep_setting [step_simps, simp]:
  "keep (hub_destroy h st) = keep st" "keep (hub_created env key st) = keep st"
  "keep (snd (ConnectToIotHub env host st)) = keep st" "keep (start_provisioning env st) = keep st"
  "keep (prov_DoWork env st) = keep st" "keep (provisioning_cleanup st) = keep st"
proof -
  show c: "keep (hub_created env key st) = keep st" for key st by (simp add: hub_created_def split: option.splits)
  show "keep (snd (ConnectToIotHub env host st)) = keep st"
    by (simp add: ConnectToIotHub_def Let_def c split: option.splits)
qed (simp_all add: hub_destroy_alt start_provisioning_def provisioning_cleanup_def Let_def keep_def split: option.splits)

lemma keep_stages [step_simps, simp]:
  "keep (poll_provisioning env st) = keep st" "keep (provision_client env st) = keep st"
  by (simp_all add: poll_provisioning_def provision_client_def Let_def split_beta split: option.splits)

lemma keep_setups [step_simps, simp]:
  "keep (snd (SetUpAzureIoTHubClientWithDpsPnP env st)) = keep st"
  "keep (snd (SetUpAzureIoTHubClientWithConnectionString env st)) = keep st"
  by (auto simp: SetUpAzureIoTHubClientWithDpsPnP_def SetUpAzureIoTHubClientWithConnectionString_def Let_def split_beta
      split: option.splits device_connection_state.splits)

lemma keep_setup [step_simps, simp]: "keep (snd (SetupAzureClient env st)) = keep st"
proof -
  define st1 where "st1 = (case iothubClientHandle st of None \<Rightarrow> st | Some h \<Rightarrow> hub_destroy h st)"
  have "keep st1 = keep st" by (simp add: st1_def split: option.splits)
  then show ?thesis
    unfolding SetupAzureClient_def Let_def split_beta st1_def [symmetric]
    by (cases "connectionType (userConfig st1)") simp_all
qed

lemma keep_work [step_simps, simp]: "keep (snd (azure_work env st)) = keep st"
  by (simp add: azure_work_def split: authentication_state.splits)

lemma keep_handler [step_simps, simp]: "keep (AzureConnectionHandler env st) = keep st"
  by (simp add: AzureConnectionHandler_def Let_def split_beta)

lemma keep_set [step_simps, simp]:
  "keep (snd (set_properties env ps st)) = keep st" "keep (snd (set_content env content st)) = keep st"
  by (induction env ps st rule: set_properties.induct) (auto simp: Let_def set_content_def split: option.splits)

lemma keep_publish [step_simps, simp]: "keep (snd (dx_azurePublish env message len properties content st)) = keep st"
  by (simp add: dx_azurePublish_def Let_def split_beta)

text \<open>Once stopped the connection stays stopped, for every step.\<close>

definition stopped :: "azure \<Rightarrow> bool" where
  "stopped st \<longleftrightarrow> connection_initialized st \<and> \<not> tm_initialized (azure_timer st)"

lemma stopped_keep: "stopped st \<longleftrightarrow> snd (keep st) \<and> \<not> tm_initialized (fst (keep st))"
  by (simp add: stopped_def keep_def)

lemma stopped_step: "azure_step st op st' \<Longrightarrow> stopped st \<Longrightarrow> stopped st'"
proof (induction rule: azure_step.induct)
  case (connect st env config interface modelId)
  then show ?case by (simp add: dx_azureConnect_def stopped_def)
next
  case (stop st)
  then show ?case by (simp add: dx_azureToDeviceStop_def stopped_def)
next
  case (network_connected_expired st)
  have "net.more (network_connected_expired_handler st) = net.more st" by (simp add: network_connected_expired_handler_def)
  from keep_more [OF this] network_connected_expired show ?case by (simp add: stopped_keep)
qed (simp_all add: stopped_keep dx_azureRegisterDeviceTwinCallback_def dx_azureRegisterDirectMethodCallback_def
    dx_azureRegisterMessageReceivedNotification_def network_ready_expired_handler_def
    dx_azureRegisterConnectionChangedNotification_def dx_azureUnregisterConnectionChangedNotification_def split_beta)

interpretation azure_stopped: stable azure_step stopped
  by unfold_locales (rule stopped_step)

end
