(* ===== verification/Dx_Azure_Provisioning.thy ===== *)
theory Dx_Azure_Provisioning
  imports Dx_Azure_Timer
begin

text \<open>
  Provisioning, tick by tick: what one run of the connection handler does in each stage while the
  network is up, and what follows for a sequence of them.
\<close>

text \<open>The handler while provisioning, with the network known to be up.\<close>

definition network_up :: "azure \<Rightarrow> bool" where
  "network_up st \<longleftrightarrow> network_ready_cached st \<and> network_connection_state st"

lemma network_up_ready: "network_up st \<Longrightarrow> isNetworkReady env st = (True, st)"
  by (simp add: network_up_def isNetworkReady_def)

definition stage :: "azure_env \<Rightarrow> azure \<Rightarrow> azure" where
  "stage env st = provisioning_cleanup (case deviceConnectionState st of
     DEVICE_NOT_CONNECTED \<Rightarrow> start_provisioning env st
   | DEVICE_PROVISIONING_ERROR \<Rightarrow> start_provisioning env st
   | DEVICE_PROVISIONING \<Rightarrow> poll_provisioning env st
   | DEVICE_PROVISION_IOT_CLIENT \<Rightarrow> provision_client env st
   | DEVICE_CONNECTED \<Rightarrow> st)"

lemma handler_dps:
  assumes "network_up st" "iothubClientHandle st = None" "authenticationState st = NotAuthenticated"
    "connectionType (userConfig st) = DX_CONNECTION_TYPE_DPS"
  shows "net.more (AzureConnectionHandler env st) =
    net.more (if deviceConnectionState (stage env st) = DEVICE_CONNECTED
      then hub_DoWork env (sdk Hub_Set_Callbacks ((stage env st)\<lparr>authenticationState := AuthenticationInitiated\<rparr>))
      else stage env st)"
proof -
  have "SetUpAzureIoTHubClientWithDpsPnP env st = (deviceConnectionState (stage env st) = DEVICE_CONNECTED, stage env st)"
    using assms(1) by (simp add: SetUpAzureIoTHubClientWithDpsPnP_def network_up_ready dx_isDeviceAuthReady_def stage_def Let_def)
  then show ?thesis
    using assms by (simp add: AzureConnectionHandler_def network_up_ready azure_work_def SetupAzureClient_def Let_def)
qed

lemma azure_ok_idle:
  assumes "azure_ok st" "deviceConnectionState st \<in> {DEVICE_PROVISIONING, DEVICE_PROVISION_IOT_CLIENT}"
  obtains h where "prov_handle st = Some h" "iothubClientHandle st = None" "authenticationState st = NotAuthenticated"
    "connectionType (userConfig st) = DX_CONNECTION_TYPE_DPS" "security_init_called st" "connection_initialized st"
    "hubs st = []" "provs st = [h]"
  using assms by (auto simp: azure_ok_def)

text \<open>The client polls the provisioning service for the \<open>n\<close>-th time without an answer so far.\<close>

definition polling :: "nat \<Rightarrow> azure \<Rightarrow> bool" where
  "polling n st \<longleftrightarrow> azure_ok st \<and> network_up st \<and> deviceConnectionState st = DEVICE_PROVISIONING \<and>
     provisionCompletedMaxRetry st = int n \<and> dpsRegisterStatus st \<noteq> PROV_DEVICE_RESULT_OK \<and>
     tm_initialized (azure_timer st)"

definition no_answer :: "azure_env \<Rightarrow> bool" where
  "no_answer env \<longleftrightarrow> PROV_DEVICE_RESULT_OK \<notin> fst ` set (prov_events env)"

lemma status_no_answer:
  "PROV_DEVICE_RESULT_OK \<notin> fst ` set es \<Longrightarrow> dpsRegisterStatus st \<noteq> PROV_DEVICE_RESULT_OK \<Longrightarrow>
   dpsRegisterStatus (foldl (RegisterProvisioningDeviceCallback env) st es) \<noteq> PROV_DEVICE_RESULT_OK"
proof (induction es arbitrary: st)
  case (Cons e es)
  have "dpsRegisterStatus (RegisterProvisioningDeviceCallback env st e) = fst e"
    by (cases e) (simp add: RegisterProvisioningDeviceCallback_def Let_def)
  with Cons show ?case by (auto simp: image_iff)
qed simp

lemma stage_poll:
  assumes "polling n st" "no_answer env"
  shows "deviceConnectionState (stage env st) = (if n > 60 then DEVICE_PROVISIONING_ERROR else DEVICE_PROVISIONING)"
    "provisionCompletedMaxRetry (stage env st) = int n + 1" "dpsRegisterStatus (stage env st) \<noteq> PROV_DEVICE_RESULT_OK"
    "network_up (stage env st)"
proof -
  obtain h where h: "prov_handle st = Some h" "security_init_called st"
    using assms(1) azure_ok_idle [of st] by (auto simp: polling_def)
  have "dpsRegisterStatus (prov_DoWork env st) \<noteq> PROV_DEVICE_RESULT_OK"
    using assms h status_no_answer by (simp add: prov_DoWork_def polling_def no_answer_def)
  then show "deviceConnectionState (stage env st) = (if n > 60 then DEVICE_PROVISIONING_ERROR else DEVICE_PROVISIONING)"
    "provisionCompletedMaxRetry (stage env st) = int n + 1" "dpsRegisterStatus (stage env st) \<noteq> PROV_DEVICE_RESULT_OK"
    "network_up (stage env st)"
    using assms(1) h by (auto simp: stage_def polling_def poll_provisioning_def provisioning_cleanup_def network_up_def Let_def)
qed

lemma polling_handler:
  assumes "polling n st" "no_answer env"
  shows "n \<le> 60 \<Longrightarrow> polling (Suc n) (AzureConnectionHandler env st)"
    "n > 60 \<Longrightarrow> deviceConnectionState (AzureConnectionHandler env st) = DEVICE_PROVISIONING_ERROR"
proof -
  have st: "azure_ok st" "deviceConnectionState st = DEVICE_PROVISIONING" "network_up st" "tm_initialized (azure_timer st)"
    using assms(1) by (simp_all add: polling_def)
  obtain k where "prov_handle st = Some k" and h: "iothubClientHandle st = None" "authenticationState st = NotAuthenticated"
    "connectionType (userConfig st) = DX_CONNECTION_TYPE_DPS"
    using azure_ok_idle [OF st(1)] st(2) by auto
  note sp = stage_poll [OF assms]
  have "net.more (AzureConnectionHandler env st) = net.more (stage env st)"
    using handler_dps [OF st(3) h, of env] sp(1) by (simp split: if_splits)
  note f = azure_fields_of_more [OF this]
  have "azure_ok (AzureConnectionHandler env st)" by (rule AzureConnectionHandler_ok [OF st(1,4)])
  moreover have "tm_initialized (azure_timer (AzureConnectionHandler env st))"
    using keep_handler [of env st] st(4) by (simp add: keep_def)
  ultimately show "n \<le> 60 \<Longrightarrow> polling (Suc n) (AzureConnectionHandler env st)"
    using sp f by (simp add: polling_def network_up_def)
  show "n > 60 \<Longrightarrow> deviceConnectionState (AzureConnectionHandler env st) = DEVICE_PROVISIONING_ERROR"
    using sp f by simp
qed

definition ticks :: "azure_env list \<Rightarrow> azure \<Rightarrow> azure" where
  "ticks envs st = foldl (\<lambda>s env. AzureConnectionHandler env s) st envs"

lemma ticks_simps [simp]: "ticks [] st = st" "ticks (env # envs) st = ticks envs (AzureConnectionHandler env st)"
  "ticks (envs @ envs') st = ticks envs' (ticks envs st)"
  by (simp_all add: ticks_def)

lemma ticks_polling:
  "polling n st \<Longrightarrow> \<forall>env \<in> set envs. no_answer env \<Longrightarrow> n + length envs \<le> 61 \<Longrightarrow> polling (n + length envs) (ticks envs st)"
proof (induction envs arbitrary: n st)
  case (Cons env envs)
  then have "polling (Suc n) (AzureConnectionHandler env st)" by (intro polling_handler) auto
  with Cons.IH [of "Suc n"] Cons.prems show ?case by simp
qed simp

text \<open>A state that will connect: stages one to three.\<close>

definition ready_to_provision :: "azure \<Rightarrow> bool" where
  "ready_to_provision st \<longleftrightarrow> azure_ok st \<and> network_up st \<and> iothubClientHandle st = None \<and> connection_initialized st \<and>
     deviceConnectionState st \<in> {DEVICE_NOT_CONNECTED, DEVICE_PROVISIONING_ERROR} \<and>
     authenticationState st = NotAuthenticated \<and> connectionType (userConfig st) = DX_CONNECTION_TYPE_DPS \<and>
     tm_initialized (azure_timer st)"

lemma start_handler:
  assumes st: "ready_to_provision st" and env: "security_init env = 0" "prov_create env \<noteq> None" "prov_payload env" "prov_register env"
  shows "polling 0 (AzureConnectionHandler env st)"
proof -
  have st': "azure_ok st" "network_up st" "iothubClientHandle st = None" "authenticationState st = NotAuthenticated"
    "connectionType (userConfig st) = DX_CONNECTION_TYPE_DPS" "tm_initialized (azure_timer st)"
    using st by (simp_all add: ready_to_provision_def)
  have s: "deviceConnectionState (stage env st) = DEVICE_PROVISIONING" "provisionCompletedMaxRetry (stage env st) = 0"
    "dpsRegisterStatus (stage env st) = PROV_DEVICE_RESULT_INVALID_STATE" "network_up (stage env st)"
    using st env by (auto simp: ready_to_provision_def stage_def start_provisioning_def provisioning_cleanup_def network_up_def Let_def
        split: option.splits)
  have "net.more (AzureConnectionHandler env st) = net.more (stage env st)"
    using handler_dps [OF st'(2-5), of env] s(1) by simp
  note f = azure_fields_of_more [OF this]
  have "azure_ok (AzureConnectionHandler env st)" by (rule AzureConnectionHandler_ok [OF st'(1,6)])
  moreover have "tm_initialized (azure_timer (AzureConnectionHandler env st))"
    using keep_handler [of env st] st'(6) by (simp add: keep_def)
  ultimately show ?thesis using s f by (simp add: polling_def network_up_def)
qed

lemma answer_handler:
  assumes p: "polling n st" "n \<le> 60" and env: "prov_events env = [(PROV_DEVICE_RESULT_OK, Some uri)]" "grants_memory env"
  shows "deviceConnectionState (AzureConnectionHandler env st) = DEVICE_PROVISION_IOT_CLIENT \<and>
    iotHubUri (AzureConnectionHandler env st) = Some uri \<and> azure_ok (AzureConnectionHandler env st) \<and>
    network_up (AzureConnectionHandler env st)"
proof -
  have st: "azure_ok st" "deviceConnectionState st = DEVICE_PROVISIONING" "network_up st" "tm_initialized (azure_timer st)"
    using p(1) by (simp_all add: polling_def)
  obtain h where h: "prov_handle st = Some h" "iothubClientHandle st = None" "authenticationState st = NotAuthenticated"
    "connectionType (userConfig st) = DX_CONNECTION_TYPE_DPS"
    using azure_ok_idle [OF st(1)] st(2) by auto
  have s: "deviceConnectionState (stage env st) = DEVICE_PROVISION_IOT_CLIENT" "iotHubUri (stage env st) = Some uri"
    "network_up (stage env st)"
    using p env st h by (auto simp: polling_def stage_def poll_provisioning_def prov_DoWork_def RegisterProvisioningDeviceCallback_def
        provisioning_cleanup_def network_up_def Let_def)
  have "net.more (AzureConnectionHandler env st) = net.more (stage env st)"
    using handler_dps [OF st(3) h(2-4), of env] s(1) by simp
  note f = azure_fields_of_more [OF this]
  show ?thesis using f s AzureConnectionHandler_ok [OF st(1,4), of env] by (simp add: network_up_def)
qed

lemma client_handler:
  assumes st: "azure_ok st" "network_up st" "deviceConnectionState st = DEVICE_PROVISION_IOT_CLIENT"
    "iotHubUri st = Some uri" "uri \<noteq> []"
    and env: "hub_create env = Some h" "url_option env" "model_option env" "hub_events env = [Connection_Status True r]"
  shows "fst (dx_isAzureConnected env' (AzureConnectionHandler env st))"
proof -
  obtain k where "prov_handle st = Some k" and h: "iothubClientHandle st = None" "authenticationState st = NotAuthenticated"
    "connectionType (userConfig st) = DX_CONNECTION_TYPE_DPS"
    using azure_ok_idle [OF st(1)] st(3) by auto
  have s: "deviceConnectionState (stage env st) = DEVICE_CONNECTED" "iothubClientHandle (stage env st) = Some h"
    "network_up (stage env st)"
    using st env by (auto simp: stage_def provision_client_def ConnectToIotHub_def hub_created_def dx_isStringNullOrEmpty_def
        provisioning_cleanup_def network_up_def Let_def split: option.splits)
  define s1 where "s1 = sdk Hub_Set_Callbacks ((stage env st)\<lparr>authenticationState := AuthenticationInitiated\<rparr>)"
  define s2 where "s2 = (sdk Hub_DoWork s1)\<lparr>authenticationState := Authenticated\<rparr>"
  have s2: "iothubClientHandle s2 = Some h" "network_up s2" "authenticationState s2 = Authenticated"
    using s by (simp_all add: s1_def s2_def network_up_def)
  have "hub_DoWork env s1 = snd (dx_isAzureConnected env s2)"
    using s env by (simp add: hub_DoWork_def HubConnectionStatusCallback_def s1_def s2_def)
  then have d: "hub_DoWork env s1 = ProcessConnectionStatusCallbacks True s2"
    using s2 by (simp add: dx_isAzureConnected_alt network_up_ready)
  have "net.more (AzureConnectionHandler env st) = net.more (ProcessConnectionStatusCallbacks True s2)"
    using handler_dps [OF st(2) h, of env] s(1) d by (simp add: s1_def)
  note f = azure_fields_of_more [OF this]
  have "network_up (AzureConnectionHandler env st)" "iothubClientHandle (AzureConnectionHandler env st) = Some h"
    "authenticationState (AzureConnectionHandler env st) = Authenticated"
    using f s2 by (simp_all add: network_up_def)
  then show ?thesis by (simp add: dx_isAzureConnected_alt network_up_ready)
qed

end
