(* ===== verification/Dx_Azure_Properties.thy ===== *)
theory Dx_Azure_Properties
  imports Dx_Azure_Provisioning
begin

text \<open>
  The properties of the connection to Azure IoT, with their witnesses: a connection by DPS with an
  environment that grants everything.
\<close>

section \<open>An environment and its first steps\<close>

definition granting_env :: azure_env where
  "granting_env = \<lparr>interfaces = Some [\<lparr>ifa_name = ''eth0'', ifa_addr = Some AF_INET\<rparr>], test_page = Some ''ok'',
     iothub_init = 0, hub_create = Some 7, url_option = True, model_option = True, security_init = 0,
     prov_create = Some 8, prov_payload = True, prov_register = True, prov_events = [], hub_events = [],
     grants_memory = True, method_answer = \<lambda>_. 200, message_create = True, content_encoding_set = True,
     content_type_set = True, property_set = \<lambda>_ _. True, event_sent = True, result_garbage = False\<rparr>"

definition dps_config :: user_config where
  "dps_config = \<lparr>idScope = Some ''0ne'', device_id = Some ''dev'', device_key = Some ''key'', hostname = None,
     connection_string = None, network_interface = None, connectionType = DX_CONNECTION_TYPE_DPS\<rparr>"

definition started :: azure where
  "started = dx_azureConnect granting_env dps_config None (Some ''dtmi'') azure_boot"

lemma run_one: "step s l s' \<Longrightarrow> run step s [l] s'"
  by (erule run_cons, rule run_nil)

lemma started_run: "run azure_step azure_boot [Connect granting_env dps_config None (Some ''dtmi'')] started"
  unfolding started_def by (rule run_one, rule azure_step.connect)

lemma started_fields:
  "tm_initialized (azure_timer started)" "iothubClientHandle started = None" "connection_initialized started"
  "deviceConnectionState started = DEVICE_NOT_CONNECTED" "authenticationState started = NotAuthenticated"
  "userConfig started = dps_config" "network_ready_cached started = False"
  by (simp_all add: started_def dx_azureConnect_def createPnpModelIdJson_def dx_azureToDeviceStart_def azure_boot_def granting_env_def
      dps_config_def dx_timerStart_def idle_timer_def uv_call_def sdk_def Let_def dx_isStringNullOrEmpty_def model_id_text_def)

text \<open>The first tick finds the network and starts provisioning.\<close>

definition online :: azure where
  "online = snd (isNetworkReady granting_env started)"

lemma online_ready: "ready_to_provision online"
proof -
  have "dx_isNetworkReady (interfaces granting_env)" by (simp add: granting_env_def dx_isNetworkReady_def strncmp_eq_def)
  moreover have "az_networkInterface started = None"
    by (simp add: started_def dx_azureConnect_def createPnpModelIdJson_def dx_azureToDeviceStart_def azure_boot_def granting_env_def
      dps_config_def dx_timerStart_def idle_timer_def uv_call_def sdk_def Let_def dx_isStringNullOrEmpty_def model_id_text_def)
  ultimately have "fst (isNetworkReady granting_env started)"
    using started_fields(7)
    by (simp add: isNetworkReady_def dx_isNetworkConnected_def dx_isStringNullOrEmpty_def Let_def split_beta)
  moreover have "azure_ok started" using azure_runs.run_inv [OF started_run azure_ok_boot] .
  ultimately show ?thesis
    using started_fields by (simp add: ready_to_provision_def online_def network_up_def dps_config_def)
qed

section \<open>Clients\<close>

text \<open>
  C3: in every state the program can reach, whatever the SDK answers and calls back and in whatever
  order the timers and the application's calls come, the hub client and the provisioning client that
  are alive are the ones the two handles name, at most one in all; none is leaked, and no handle
  names one that has been destroyed.
\<close>

theorem azure_clients_never_leak:
  assumes "run azure_step azure_boot ops st"
  shows "hubs st = (case iothubClientHandle st of None \<Rightarrow> [] | Some h \<Rightarrow> [h]) \<and>
    provs st = (case prov_handle st of None \<Rightarrow> [] | Some h \<Rightarrow> [h]) \<and> length (hubs st) + length (provs st) \<le> 1"
  using azure_runs.run_inv [OF assms azure_ok_boot] by (auto simp: azure_ok_def split: option.splits)

lemma azure_clients_never_leak_witness: "hubs started = [] \<and> provs started = []"
  using azure_clients_never_leak [OF started_run] started_fields(2) azure_runs.run_inv [OF started_run azure_ok_boot]
  by (auto simp: azure_ok_def started_fields)

text \<open>
  C11: the two state machines agree in every reachable state: connected means that authentication has
  been initiated, an initiated or completed authentication means that a hub client is alive, and the
  provisioning client and the security module are held exactly while the device provisions, before
  authentication and without a hub client.
\<close>

theorem azure_states_agree:
  assumes "run azure_step azure_boot ops st"
  shows "(deviceConnectionState st = DEVICE_CONNECTED \<longrightarrow> authenticationState st \<in> {AuthenticationInitiated, Authenticated}) \<and>
    (authenticationState st \<in> {AuthenticationInitiated, Authenticated} \<longrightarrow> hubs st \<noteq> []) \<and>
    (provs st \<noteq> [] \<longleftrightarrow> deviceConnectionState st \<in> {DEVICE_PROVISIONING, DEVICE_PROVISION_IOT_CLIENT}) \<and>
    (security_init_called st \<longleftrightarrow> provs st \<noteq> []) \<and>
    (provs st \<noteq> [] \<longrightarrow> authenticationState st = NotAuthenticated \<and> hubs st = [] \<and>
       connectionType (userConfig st) = DX_CONNECTION_TYPE_DPS)"
  using azure_runs.run_inv [OF assms azure_ok_boot] unfolding azure_ok_def by (auto split: option.splits)

lemma azure_states_agree_witness: "provs started = []"
  using azure_states_agree [OF started_run] started_fields(4) by auto

text \<open>
  C33: the count of outstanding messages is, in every reachable state, the number of messages the hub
  client has accepted and not yet confirmed, so it is never negative.
\<close>

theorem azure_outstanding_messages:
  assumes "run azure_step azure_boot ops st"
  shows "outstandingMessageCount st = int (in_flight st)"
  using azure_runs.run_inv [OF assms azure_ok_boot] by (simp add: azure_ok_def)

lemma azure_outstanding_messages_witness: "outstandingMessageCount started = int (in_flight started)"
  by (rule azure_outstanding_messages [OF started_run])

section \<open>Notifications\<close>

text \<open>
  Over any stretch of a run without a registration or a deregistration, a callback registered
  once is told of the connection in strict alternation, beginning with the opposite of the last
  state, and the state kept is what it heard last.  This is for callbacks that call no function of the file in their turn;
  \<open>Dx_Azure_Reentry\<close> has what remains for the others.
\<close>

lemma azure_quiet_notifications_alternate:
  assumes "run azure_step azure_boot ops st" "run azure_step st ops' st'" "\<forall>op \<in> set ops'. keeps_registrations op"
    and "count_list (connectionStatusCallback st) (Some cb) = 1"
  shows "\<exists>bs. heard cb st' = heard cb st @ bs \<and> alternates (previous_connection_state st) bs \<and>
    previous_connection_state st' = (if bs = [] then previous_connection_state st else last bs)"
  using azure_told.run_rel [OF assms(2) azure_runs.run_inv [OF assms(1) azure_ok_boot] assms(3)] assms(4)
  by (auto simp: told_def)

lemma azure_quiet_notifications_alternate_witness:
  "let st = snd (dx_azureRegisterConnectionChangedNotification 3 azure_boot);
       st' = snd (dx_isAzureConnected granting_env st)
   in \<exists>bs. heard 3 st' = heard 3 st @ bs \<and> alternates False bs"
  using azure_quiet_notifications_alternate
    [OF run_one [where step = azure_step, OF azure_step.register_status [of azure_boot 3]] run_one [where step = azure_step, OF azure_step.ask [of _ granting_env]], of 3]
  by (auto simp: dx_azureRegisterConnectionChangedNotification_def azure_boot_def numeral_eq_Suc Let_def)

text \<open>
  Registering a callback for the connection status succeeds as long as one of the five slots is
  free, and then it is told once more often than before; otherwise nothing changes.  Deregistering it
  frees all its slots and no other.
\<close>

theorem azure_registration_slots:
  assumes "run azure_step azure_boot ops st"
  shows "(case dx_azureRegisterConnectionChangedNotification cb st of (ok, st') \<Rightarrow>
      (ok \<longleftrightarrow> None \<in> set (connectionStatusCallback st)) \<and>
      (\<forall>c. count_list (connectionStatusCallback st') (Some c) =
         count_list (connectionStatusCallback st) (Some c) + of_bool (ok \<and> c = cb))) \<and>
    (\<forall>c. count_list (connectionStatusCallback (dx_azureUnregisterConnectionChangedNotification cb st)) (Some c) =
       (if c = cb then 0 else count_list (connectionStatusCallback st) (Some c))) \<and>
    length (connectionStatusCallback st) = MAX_CONNECTION_STATUS_CALLBACKS"
proof -
  have reg: "(fst (register_slot cb slots) \<longleftrightarrow> None \<in> set slots) \<and>
      count_list (snd (register_slot cb slots)) (Some c) = count_list slots (Some c) + of_bool (fst (register_slot cb slots) \<and> c = cb)"
    for slots c
    by (induction cb slots rule: register_slot.induct) (auto split: prod.splits)
  have unreg: "count_list (List.map (\<lambda>slot. if slot = Some cb then None else slot) slots) (Some c) =
      (if c = cb then 0 else count_list slots (Some c))" for slots c
    by (induction slots) auto
  have "length (connectionStatusCallback st) = MAX_CONNECTION_STATUS_CALLBACKS"
    using azure_runs.run_inv [OF assms azure_ok_boot] by (simp add: azure_ok_def)
  then show ?thesis
    using reg [of "connectionStatusCallback st"] unreg
    by (simp add: dx_azureRegisterConnectionChangedNotification_def dx_azureUnregisterConnectionChangedNotification_def split_beta)
qed

lemma azure_registration_slots_witness: "fst (dx_azureRegisterConnectionChangedNotification 3 azure_boot)"
  using azure_registration_slots [OF run_nil, of 3] by (simp add: azure_boot_def split_beta)

section \<open>Provisioning and the connection timer\<close>

text \<open>
  C19: an application that provisions through DPS is connected three ticks of the timer after the
  network is up, provided that the services answer at once: the first registers the device, the second
  takes the hub's name from the answer, the third creates the hub client, which authenticates.
\<close>

theorem azure_dps_connects:
  assumes "ready_to_provision st"
    and "security_init env1 = 0" "prov_create env1 \<noteq> None" "prov_payload env1" "prov_register env1"
    and "prov_events env2 = [(PROV_DEVICE_RESULT_OK, Some uri)]" "grants_memory env2" "uri \<noteq> []"
    and "hub_create env3 = Some h" "url_option env3" "model_option env3" "hub_events env3 = [Connection_Status True reason]"
  shows "fst (dx_isAzureConnected env4 (ticks [env1, env2, env3] st))"
proof -
  note p = start_handler [OF assms(1-5)]
  note a = answer_handler [OF p _ assms(6,7)]
  show ?thesis using a assms(8) client_handler [of "ticks [env1, env2] st" uri env3 h reason env4] assms(9-12) by simp
qed

lemma azure_dps_connects_witness:
  "fst (dx_isAzureConnected granting_env (ticks [granting_env,
     granting_env\<lparr>prov_events := [(PROV_DEVICE_RESULT_OK, Some ''hub'')]\<rparr>,
     granting_env\<lparr>hub_events := [Connection_Status True IOTHUB_CLIENT_CONNECTION_OK]\<rparr>] online))"
  by (rule azure_dps_connects [OF online_ready, where uri = "''hub''" and h = 7 and reason = IOTHUB_CLIENT_CONNECTION_OK])
    (simp_all add: granting_env_def)

text \<open>
  C18: a device whose registration is never answered is polled for on 62 ticks: after up to 61 of them it
  is still provisioning, with the client alive, and the next one ends the attempt in the error state
  with the client and the security module released; the tick after that starts a new attempt.
\<close>

theorem azure_provisioning_gives_up:
  assumes "ready_to_provision st"
    and "security_init env = 0" "prov_create env \<noteq> None" "prov_payload env" "prov_register env"
    and "\<forall>e \<in> set envs. no_answer e" "length envs \<le> 62"
  shows "let st' = ticks (env # envs) st in
    deviceConnectionState st' = (if length envs = 62 then DEVICE_PROVISIONING_ERROR else DEVICE_PROVISIONING) \<and>
    (provs st' = [] \<longleftrightarrow> length envs = 62) \<and> (security_init_called st' \<longleftrightarrow> length envs < 62)"
proof -
  note p = start_handler [OF assms(1-5)]
  have ok: "azure_ok (ticks es s)" if "azure_ok s" "tm_initialized (azure_timer s)" for es s
    using that
  proof (induction es arbitrary: s)
    case (Cons e es)
    then show ?case using AzureConnectionHandler_ok keep_handler [of e s] by (simp add: keep_def)
  qed simp
  have "azure_ok (ticks (env # envs) st)" using ok [of st "env # envs"] assms(1) by (simp add: ready_to_provision_def del: ticks_simps)
  moreover have "deviceConnectionState (ticks (env # envs) st) =
      (if length envs = 62 then DEVICE_PROVISIONING_ERROR else DEVICE_PROVISIONING)"
  proof (cases "length envs = 62")
    case True
    then have "envs \<noteq> []" by auto
    then obtain es e where "envs = es @ [e]" using rev_exhaust by blast
    then have e: "envs = es @ [e]" "length es = 61" using True by simp_all
    then have "polling 61 (ticks es (AzureConnectionHandler env st))" using ticks_polling [OF p, of es] assms(6) by simp
    with polling_handler(2) [OF this, of e] e assms(6) True show ?thesis by simp
  next
    case False
    then have "polling (length envs) (ticks envs (AzureConnectionHandler env st))" using ticks_polling [OF p, of envs] assms(6,7) by simp
    with False show ?thesis by (simp add: polling_def)
  qed
  ultimately show ?thesis using assms(7) by (auto simp: azure_ok_def Let_def split: option.splits)
qed

lemma azure_provisioning_gives_up_witness:
  "deviceConnectionState (ticks (granting_env # replicate 62 granting_env) online) = DEVICE_PROVISIONING_ERROR"
  using azure_provisioning_gives_up [OF online_ready, of granting_env "replicate 62 granting_env"]
  by (simp add: granting_env_def no_answer_def Let_def)

text \<open>
  The handler runs again: every run of it ends by arming its timer once more, after 100
  milliseconds when the client was authenticated at its start and the network up, after a second otherwise.
\<close>

theorem azure_handler_rearms:
  assumes "tm_initialized (azure_timer st)"
  shows "last (uv_calls (AzureConnectionHandler env st)) =
    Uv_Timer_Start (tm_name (azure_timer st))
      (if authenticationState st = Authenticated \<and> fst (isNetworkReady env st) then 100 else 1000) 0"
proof -
  obtain ready st1 where n: "isNetworkReady env st = (ready, st1)" by fastforce
  define st2 where "st2 = (if \<not> ready \<and> authenticationState st1 = Authenticated
     then st1\<lparr>authenticationState := NotAuthenticated, deviceConnectionState := DEVICE_NOT_CONNECTED\<rparr> else st1)"
  obtain period st3 where w: "azure_work env st2 = (period, st3)" by fastforce
  have auth: "authenticationState st1 = authenticationState st" using network_frame(11) [of env st] n by simp
  have "keep st3 = keep st2" using keep_work [of env st2] unfolding w by simp
  moreover have "keep st1 = keep st" using keep_network [of env st] unfolding n by simp
  ultimately have "keep st3 = keep st" by (simp add: st2_def split: if_splits)
  then have t: "azure_timer st3 = azure_timer st" by (simp add: keep_def)
  have "timespec_ms period = (if authenticationState st2 = Authenticated then 100 else 1000)"
    using w by (auto simp: azure_work_def timespec_ms_def split: authentication_state.splits)
  then have "timespec_ms period = (if authenticationState st = Authenticated \<and> ready then 100 else 1000)"
    using auth by (auto simp: st2_def)
  moreover have "AzureConnectionHandler env st = snd (dx_timerOneShotSet (azure_timer st3) period st3)"
    unfolding AzureConnectionHandler_def n prod.case Let_def st2_def [symmetric] w ..
  ultimately show ?thesis using assms t n by (simp add: dx_timerOneShotSet_def uv_call_def)
qed

lemma azure_handler_rearms_witness:
  "\<exists>ms. last (uv_calls (AzureConnectionHandler granting_env started)) = Uv_Timer_Start (tm_name (azure_timer started)) ms 0"
  using azure_handler_rearms [OF started_fields(1)] by blast

text \<open>
  C34: a connection that was started and stopped stays stopped: no later call, dx_azureConnect
  included, arms its timer again.
\<close>

theorem azure_stop_is_final:
  assumes "run azure_step azure_boot ops st" "tm_initialized (azure_timer st)"
    and "run azure_step (dx_azureToDeviceStop st) ops' st'"
  shows "\<not> tm_initialized (azure_timer st') \<and>
    dx_azureConnect env config interface modelId st' = st'"
proof -
  have "connection_initialized st"
    using azure_runs.run_inv [OF assms(1) azure_ok_boot] assms(2) by (simp add: azure_ok_def)
  then have "stopped (dx_azureToDeviceStop st)"
    using assms(2) by (simp add: stopped_def dx_azureToDeviceStop_def dx_timerStop_def uv_call_def)
  with azure_stopped.run_inv [OF assms(3)] show ?thesis by (simp add: stopped_def dx_azureConnect_def)
qed

lemma azure_stop_is_final_witness:
  "dx_azureConnect granting_env dps_config None None (dx_azureToDeviceStop started) = dx_azureToDeviceStop started"
  using azure_stop_is_final [OF started_run started_fields(1) run_nil] by blast

section \<open>Publishing\<close>

fun is_message :: "sdk_call \<Rightarrow> bool" where
  "is_message (Message_Create m n) = True"
| "is_message (Message_Encoding e) = True"
| "is_message (Message_Type t) = True"
| "is_message (Message_Property k v) = True"
| "is_message Message_Send = True"
| "is_message Message_Destroy = True"
| "is_message _ = False"

definition messages :: "azure \<Rightarrow> sdk_call list" where
  "messages st = filter is_message (sdk_calls st)"

lemma messages_updates [simp]:
  "messages (sdk c st) = messages st @ (if is_message c then [c] else [])"
  "messages (st\<lparr>deviceConnectionState := d\<rparr>) = messages st" "messages (st\<lparr>authenticationState := a\<rparr>) = messages st"
  "messages (st\<lparr>outstandingMessageCount := i\<rparr>) = messages st" "messages (st\<lparr>in_flight := k\<rparr>) = messages st"
  "messages (snd (isNetworkReady env st)) = messages st"
  by (simp_all add: messages_def)

lemma messages_asked [simp]: "messages (snd (dx_isAzureConnected env st)) = messages st"
proof -
  have "filter is_message (List.concat (List.map (\<lambda>slot. case slot of None \<Rightarrow> [] | Some cb \<Rightarrow> [Notify cb b]) slots)) = []"
    for b slots
    by (induction slots) (auto split: option.splits)
  then have "messages (ProcessConnectionStatusCallbacks b s) = messages s" for b s
    by (simp add: messages_def ProcessConnectionStatusCallbacks_def)
  then show ?thesis by (simp add: dx_isAzureConnected_alt Let_def split_beta)
qed

lemma messages_DoWork [simp]: "messages (hub_DoWork env st) = messages st"
proof -
  have "messages (hub_callback env s e) = messages s" for s e
    by (cases e) (auto simp: HubConnectionStatusCallback_def SendMessageCallback_def HubDeviceTwinCallback_def
      HubDirectMethodCallback_def HubMessageReceivedCallback_def Let_def split: option.splits)
  then have "messages (foldl (hub_callback env) s es) = messages s" for s es by (induction es arbitrary: s) auto
  then show ?thesis by (simp add: hub_DoWork_def)
qed

text \<open>The calls that put the content type and encoding and the properties on a message, empty ones left out.\<close>

definition content_calls :: "message_content option \<Rightarrow> sdk_call list" where
  "content_calls content =
     (case content of
        None \<Rightarrow> []
      | Some c \<Rightarrow>
          (case contentEncoding c of None \<Rightarrow> [] | Some e \<Rightarrow> if e = [] then [] else [Message_Encoding e]) @
          (case contentType c of None \<Rightarrow> [] | Some t \<Rightarrow> if t = [] then [] else [Message_Type t]))"

fun property_calls :: "(string option \<times> string option) list \<Rightarrow> sdk_call list" where
  "property_calls [] = []"
| "property_calls ((Some k, Some v) # ps) = (if k \<noteq> [] \<and> v \<noteq> [] then Message_Property k v # property_calls ps else property_calls ps)"
| "property_calls (p # ps) = property_calls ps"

lemma set_properties_accepted:
  assumes "\<forall>k v. property_set env k v"
  shows "set_properties env ps st = (True, snd (set_properties env ps st)) \<and>
    messages (snd (set_properties env ps st)) = messages st @ property_calls ps"
  using assms by (induction env ps st rule: set_properties.induct) (auto simp: Let_def)

lemma property_calls_messages: "filter is_message (property_calls ps) = property_calls ps"
  by (induction ps rule: property_calls.induct) auto

lemma set_content_accepted:
  assumes "content_encoding_set env" "content_type_set env"
  shows "set_content env content st = (True, snd (set_content env content st)) \<and>
    messages (snd (set_content env content st)) = messages st @ content_calls content"
  using assms by (auto simp: set_content_def content_calls_def dx_isStringNullOrEmpty_def split: option.splits)

text \<open>
  Publishing a message of some length, with the SDK accepting its properties, hands over one
  message with the given content and properties, destroys it, and reports whether the hub client took it;
  without a connection or a message nothing is handed over and the result is failure.  An empty
  message is reported as published without a look at the connection.
\<close>

theorem azure_publish_hands_over:
  assumes "content_encoding_set env" "content_type_set env" "\<forall>k v. property_set env k v"
  shows "case dx_azurePublish env message len properties content st of (published, st') \<Rightarrow>
    (published \<longleftrightarrow> len = 0 \<or> fst (dx_isAzureConnected env st) \<and> message_create env \<and> event_sent env) \<and>
    messages st' = messages st @
      (if len = 0 \<or> \<not> fst (dx_isAzureConnected env st) \<or> \<not> message_create env then []
       else Message_Create message len # content_calls content @ property_calls properties @ [Message_Send, Message_Destroy])"
proof -
  obtain connected st1 where a: "dx_isAzureConnected env st = (connected, st1)" by fastforce
  obtain st2 where c: "set_content env content (sdk (Message_Create message len) st1) = (True, st2)"
    "messages st2 = messages st1 @ Message_Create message len # content_calls content"
    using set_content_accepted [OF assms(1,2), of content "sdk (Message_Create message len) st1"] by auto
  obtain st3 where p: "set_properties env properties st2 = (True, st3)" "messages st3 = messages st2 @ property_calls properties"
    using set_properties_accepted [OF assms(3), of properties st2] by auto
  have "messages st1 = messages st" using messages_asked [of env st] unfolding a by simp
  then show ?thesis
    using a c p by (simp add: dx_azurePublish_def Let_def)
qed

lemma azure_publish_hands_over_witness:
  "\<not> fst (dx_azurePublish granting_env (Some ''data'') 4 [] None azure_boot)"
  using azure_publish_hands_over [where env = granting_env and len = 4 and properties = "[]" and content = None and st = azure_boot]
  by (auto simp: granting_env_def azure_boot_def dx_isAzureConnected_alt Let_def split_beta)

text \<open>
  When the SDK refuses a property the message is destroyed without being sent, but the result is
  whatever the uninitialised variable holds, so the caller may be told that it was published.
\<close>

theorem azure_publish_refused_property:
  assumes "fst (dx_isAzureConnected env st)" "message_create env" "0 < len" "\<not> property_set env k v" "k \<noteq> []" "v \<noteq> []"
  shows "case dx_azurePublish env message len [(Some k, Some v)] None st of (published, st') \<Rightarrow>
    published = result_garbage env \<and>
    messages st' = messages st @ [Message_Create message len, Message_Property k v, Message_Destroy]"
proof -
  obtain st1 where a: "dx_isAzureConnected env st = (True, st1)" using assms(1) by (cases "dx_isAzureConnected env st") auto
  have "messages st1 = messages st" using messages_asked [of env st] unfolding a by simp
  then show ?thesis using a assms by (simp add: dx_azurePublish_def set_content_def Let_def)
qed

definition connected_state :: azure where
  "connected_state = ticks [granting_env, granting_env\<lparr>prov_events := [(PROV_DEVICE_RESULT_OK, Some ''hub'')]\<rparr>,
     granting_env\<lparr>hub_events := [Connection_Status True IOTHUB_CLIENT_CONNECTION_OK]\<rparr>] online"

lemma connected_state_connected: "fst (dx_isAzureConnected env connected_state)"
proof -
  have p: "polling 0 (AzureConnectionHandler granting_env online)"
    by (rule start_handler [OF online_ready]) (simp_all add: granting_env_def)
  have a: "deviceConnectionState (ticks [granting_env, granting_env\<lparr>prov_events := [(PROV_DEVICE_RESULT_OK, Some ''hub'')]\<rparr>] online)
      = DEVICE_PROVISION_IOT_CLIENT \<and>
    iotHubUri (ticks [granting_env, granting_env\<lparr>prov_events := [(PROV_DEVICE_RESULT_OK, Some ''hub'')]\<rparr>] online) = Some ''hub'' \<and>
    azure_ok (ticks [granting_env, granting_env\<lparr>prov_events := [(PROV_DEVICE_RESULT_OK, Some ''hub'')]\<rparr>] online) \<and>
    network_up (ticks [granting_env, granting_env\<lparr>prov_events := [(PROV_DEVICE_RESULT_OK, Some ''hub'')]\<rparr>] online)"
    using answer_handler [OF p, of "granting_env\<lparr>prov_events := [(PROV_DEVICE_RESULT_OK, Some ''hub'')]\<rparr>" "''hub''"]
    by (simp add: granting_env_def)
  show ?thesis unfolding connected_state_def
    using a client_handler [of "ticks [granting_env, granting_env\<lparr>prov_events := [(PROV_DEVICE_RESULT_OK, Some ''hub'')]\<rparr>] online"
        "''hub''" "granting_env\<lparr>hub_events := [Connection_Status True IOTHUB_CLIENT_CONNECTION_OK]\<rparr>" 7
        IOTHUB_CLIENT_CONNECTION_OK env]
    by (simp add: granting_env_def)
qed

lemma azure_publish_refused_property_witness:
  "fst (dx_azurePublish (granting_env\<lparr>property_set := \<lambda>_ _. False, result_garbage := True\<rparr>) (Some ''data'') 4 [(Some ''a'', Some ''b'')] None
     connected_state)"
  using azure_publish_refused_property
    [where env = "granting_env\<lparr>property_set := \<lambda>_ _. False, result_garbage := True\<rparr>" and st = connected_state
      and len = 4 and k = "''a''" and v = "''b''"]
    connected_state_connected
  by (simp add: granting_env_def split_beta)

text \<open>
  The buffer allocated for the model id's JSON text is long enough: the text is stored whole, and
  the branch for a text that does not fit is never taken.
\<close>

theorem pnp_model_text_fits:
  assumes "pnpModelId st = Some model" "model \<noteq> []" "is_cstring model"
  shows "case createPnpModelIdJson env st of (ok, st') \<Rightarrow>
    (ok \<longleftrightarrow> grants_memory env) \<and>
    (ok \<longrightarrow> pnpModelIdJson st' = Some (model_id_text model) \<and> exit_code st' = exit_code st) \<and>
    (\<not> ok \<longrightarrow> exit_code st' = DX_ExitCode_PnPModelJsonMemoryAllocationFailed)"
proof -
  have "is_cstring (model_id_text model)" using assms(3) by (simp add: model_id_text_def)
  then have "cstr (snprintf buf (15 + length model) (model_id_text model)) = model_id_text model" for buf
    by (subst cstr_snprintf) (simp_all add: model_id_text_def)
  moreover have "length (model_id_text model) < 15 + length model" by (simp add: model_id_text_def)
  ultimately show ?thesis
    using assms by (simp add: createPnpModelIdJson_def Let_def dx_isStringNullOrEmpty_def dx_terminate_def dx_eventLoopStop_def uv_call_def)
qed

lemma pnp_model_text_fits_witness:
  "pnpModelIdJson (snd (createPnpModelIdJson granting_env (azure_boot\<lparr>pnpModelId := Some ''dtmi:x;1''\<rparr>))) = Some (model_id_text ''dtmi:x;1'')"
  using pnp_model_text_fits [of "azure_boot\<lparr>pnpModelId := Some ''dtmi:x;1''\<rparr>" "''dtmi:x;1''" granting_env]
  by (auto simp: granting_env_def split_beta)

end
