(* ===== verification/Dx_DirectMethods.thy ===== *)
theory Dx_DirectMethods
  imports Json_Text Dx_Azure_Properties
begin

text \<open>
  Direct methods (src/src/dx_direct_methods.c): the bindings subscribed to, and the answer to a method the
  hub invokes.  The handler of a binding is the application's: a function of the parsed payload and
  of the application's state that gives a response code and, perhaps, an allocated message.
\<close>

section \<open>State\<close>

record 'a method_binding =
  methodName :: string
  handler :: "(json_value \<Rightarrow> 'a \<Rightarrow> (int \<times> string option) \<times> 'a) option"

record 'a methods =
  methods_hub :: azure
  directMethods :: "'a method_binding list"
  methods_app :: 'a

abbreviation (input) DX_METHOD_SUCCEEDED :: int where "DX_METHOD_SUCCEEDED \<equiv> 200"
abbreviation (input) DX_METHOD_FAILED :: int where "DX_METHOD_FAILED \<equiv> 500"
abbreviation (input) DX_METHOD_NOT_FOUND :: int where "DX_METHOD_NOT_FOUND \<equiv> 404"

text \<open>The number that stands for the address of \<open>DirectMethodCallbackHandler\<close>.\<close>

abbreviation (input) METHOD_CALLBACK :: nat where "METHOD_CALLBACK \<equiv> 1"

definition dx_directMethodSubscribe :: "'a method_binding list \<Rightarrow> 'a methods \<Rightarrow> 'a methods" where
  "dx_directMethodSubscribe bindings st =
     st\<lparr>methods_hub := dx_azureRegisterDirectMethodCallback (Some METHOD_CALLBACK) (methods_hub st),
        directMethods := bindings\<rparr>"

definition dx_directMethodUnsubscribe :: "'a methods \<Rightarrow> 'a methods" where
  "dx_directMethodUnsubscribe st =
     st\<lparr>methods_hub := dx_azureRegisterDirectMethodCallback None (methods_hub st), directMethods := []\<rparr>"

section \<open>The callback\<close>

text \<open>The first binding of the name.\<close>

fun find_method :: "string \<Rightarrow> 'a method_binding list \<Rightarrow> 'a method_binding option" where
  "find_method name [] = None"
| "find_method name (b # bs) = (if name = methodName b then Some b else find_method name bs)"

text \<open>The message for a response code: the application's, unless it is missing or empty.\<close>

definition response_message :: "int \<Rightarrow> string option \<Rightarrow> string" where
  "response_message code msg =
     (if code = DX_METHOD_SUCCEEDED then
        (case msg of None \<Rightarrow> ''Method Succeeded'' | Some m \<Rightarrow> if length m = 0 then ''Method Succeeded'' else m)
      else if code = DX_METHOD_FAILED then
        (case msg of None \<Rightarrow> ''Method Error'' | Some m \<Rightarrow> if length m = 0 then ''Method Error'' else m)
      else ''Method not found'')"

text \<open>
  \<open>mem\<close> is the memory of the parser; the two flags grant the copy of the payload and the block of the
  response.
\<close>

definition DirectMethodCallbackHandler ::
    "(nat \<Rightarrow> bool) \<Rightarrow> bool \<Rightarrow> bool \<Rightarrow> string \<Rightarrow> char list \<Rightarrow> 'a methods \<Rightarrow> (int \<times> char list option \<times> nat) \<times> 'a methods" where
  "DirectMethodCallbackHandler mem copy_granted response_granted method_name payload st =
     (let ((result, responseMessage), st') =
        (if \<not> copy_granted then ((DX_METHOD_FAILED, ''Memory Allocation failed''), st)
         else
           (case json_parse_string mem (Some (cstr (payload @ [NUL]))) of
              None \<Rightarrow> ((DX_METHOD_FAILED, ''Invalid JSON''), st)
            | Some root_value \<Rightarrow>
                (case find_method method_name (directMethods st) of
                   None \<Rightarrow> ((DX_METHOD_NOT_FOUND, ''Method not found''), st)
                 | Some b \<Rightarrow>
                     (case handler b of
                        None \<Rightarrow> ((DX_METHOD_NOT_FOUND, ''Method not found''), st)
                      | Some h \<Rightarrow>
                          (case h root_value (methods_app st) of
                             ((responseCode, responseMsg), app) \<Rightarrow>
                               ((responseCode, response_message responseCode responseMsg),
                                st\<lparr>methods_app := app\<rparr>))))))
      in if response_granted
         then ((result, Some ([CHR 0x22] @ responseMessage @ [CHR 0x22]), length responseMessage + 2), st')
         else ((result, None, 0), st'))"

section \<open>Properties\<close>

lemma find_method_find: "find_method name bs = List.find (\<lambda>b. name = methodName b) bs"
  by (induction bs) simp_all

lemma find_method_mem: "find_method name bs = Some b \<Longrightarrow> b \<in> set bs"
  by (auto simp: find_method_find find_Some_iff)

lemma plain_messages [simp]:
  "plain ''Method Succeeded''" "plain ''Method Error''" "plain ''Method not found''" "plain ''Memory Allocation failed''"
  "plain ''Invalid JSON''"
  by (simp_all add: plain_def)

text \<open>What a call is answered, by the reason there is no handler to ask or by what the handler says.\<close>

definition handler_message :: "int \<Rightarrow> string option \<Rightarrow> string" where
  "handler_message code msg =
     (if code \<in> {200, 500} \<and> msg \<notin> {None, Some []} then the msg
      else if code = 200 then ''Method Succeeded'' else if code = 500 then ''Method Error'' else ''Method not found'')"

definition expected_answer ::
    "(nat \<Rightarrow> bool) \<Rightarrow> bool \<Rightarrow> string \<Rightarrow> char list \<Rightarrow> 'a methods \<Rightarrow> (int \<times> string) \<times> 'a" where
  "expected_answer mem copy_granted name payload st =
     (if \<not> copy_granted then ((500, ''Memory Allocation failed''), methods_app st)
      else case json_parse_string mem (Some (cstr (payload @ [NUL]))) of
        None \<Rightarrow> ((500, ''Invalid JSON''), methods_app st)
      | Some v \<Rightarrow>
          (case Option.bind (List.find (\<lambda>b. name = methodName b) (directMethods st)) handler of
             None \<Rightarrow> ((404, ''Method not found''), methods_app st)
           | Some h \<Rightarrow> (case h v (methods_app st) of ((code, msg), app) \<Rightarrow> ((code, handler_message code msg), app))))"

lemma response_message_alt: "response_message code msg = handler_message code msg"
  by (cases msg) (auto simp: response_message_def handler_message_def)

text \<open>
  C28: the answer to every method call, known or not, with a valid payload or not, whatever memory is refused: the code is that
  of the first binding of the name, 404 when there is none or it has no handler, and 500 when the payload is not JSON or
  cannot be copied; the text is the message between two quotes with its exact size, and no text when its block is refused.  The
  text is a JSON string of the message when the message needs no escaping, as the library's own messages do; a handler's
  message is not escaped.  The handler is called once, and the bindings stay as they are.
\<close>

theorem direct_method_answers_json:
  "case DirectMethodCallbackHandler mem copy_granted response_granted name payload st of ((code, response, response_size), st') \<Rightarrow>
     case expected_answer mem copy_granted name payload st of ((expected, msg), app) \<Rightarrow>
     code = expected \<and>
     response = (if response_granted then Some (CHR 0x22 # msg @ [CHR 0x22]) else None) \<and>
     response_size = (case response of None \<Rightarrow> 0 | Some text \<Rightarrow> length text) \<and>
     (plain msg \<longrightarrow> json_parse_string mem (Some (CHR 0x22 # msg @ [CHR 0x22])) = Some (JString msg)) \<and>
     (expected \<notin> {200, 500} \<or> Option.bind (List.find (\<lambda>b. name = methodName b) (directMethods st)) handler = None \<longrightarrow> plain msg) \<and>
     st' = st\<lparr>methods_app := app\<rparr>"
proof -
  have parse: "plain msg \<longrightarrow> json_parse_string mem (Some (CHR 0x22 # msg @ [CHR 0x22])) = Some (JString msg)" for msg
    using string_round_trip [of False msg "[]"]
    by (auto simp: json_parse_string_def parse_value_nest parse_string_value_def plain_quoted json_value_init_string_no_copy_def)
  then show ?thesis
    by (auto simp: DirectMethodCallbackHandler_def expected_answer_def find_method_find response_message_alt handler_message_def Let_def
        split: option.splits prod.splits)
qed

definition sample_methods :: "nat methods" where
  "sample_methods = \<lparr>methods_hub = azure_boot,
     directMethods = [\<lparr>methodName = ''LightOn'', handler = Some (\<lambda>v n. ((200, Some ''lit''), n + 1))\<rparr>,
                      \<lparr>methodName = ''LightOn'', handler = Some (\<lambda>v n. ((500, None), n))\<rparr>],
     methods_app = 0\<rparr>"

lemma direct_method_answers_json_witness:
  "fst (fst (DirectMethodCallbackHandler (\<lambda>_. True) True True ''LightOn'' ''true'' sample_methods)) = 200 \<and>
   fst (fst (DirectMethodCallbackHandler (\<lambda>_. True) True False ''Light'' ''true'' sample_methods)) = 404"
proof -
  have parse: "json_parse_string (\<lambda>_. True) (Some (cstr (''true'' @ [NUL]))) = Some (JBoolean True)"
    by (simp add: json_parse_string_def parse_value_nest parse_boolean_value_def strncmp_eq_def json_value_init_boolean_def cstr_def)
  have "fst (fst (DirectMethodCallbackHandler (\<lambda>_. True) True granted name ''true'' sample_methods)) =
      fst (fst (expected_answer (\<lambda>_. True) True name ''true'' sample_methods))" for granted name
    using direct_method_answers_json [where st = sample_methods and mem = "\<lambda>_. True" and copy_granted = True
        and response_granted = granted and name = name and payload = "''true''"]
    by (simp add: split_beta)
  then show ?thesis using parse by (simp add: expected_answer_def sample_methods_def)
qed

text \<open>
  A message with a quote is not escaped: the answer to a call whose handler says a"b is read as the string a by a
  parser that stops at the quote, with text left over behind it, and not as the message.
\<close>

lemma direct_method_message_not_escaped:
  assumes "copy_granted" "json_parse_string mem (Some (cstr (payload @ [NUL]))) = Some v"
    "find_method name (directMethods st) = Some b" "handler b = Some h" "fst (h v (methods_app st)) = (200, Some ([CHR ''a'', CHR 0x22] @ ''b''))"
  shows "\<exists>text. fst (DirectMethodCallbackHandler mem copy_granted True name payload st) = (200, Some text, length text) \<and>
    json_parse_string mem (Some text) = Some (JString ''a'')"
proof -
  obtain app where "h v (methods_app st) = ((200, Some ([CHR ''a'', CHR 0x22] @ ''b'')), app)" using assms(5) by (metis prod.collapse)
  moreover have "get_quoted_string ([CHR 0x22, CHR ''a'', CHR 0x22, CHR ''b'', CHR 0x22]) = Some (''a'', ''b'' @ [CHR 0x22])"
    using string_round_trip [of False "''a''" "[CHR ''b'', CHR 0x22]"] by (simp add: plain_quoted)
  moreover from this have "json_parse_string mem (Some [CHR 0x22, CHR ''a'', CHR 0x22, CHR ''b'', CHR 0x22]) = Some (JString ''a'')"
    by (simp add: json_parse_string_def parse_value_nest parse_string_value_def json_value_init_string_no_copy_def)
  ultimately show ?thesis using assms(1-4) by (simp add: DirectMethodCallbackHandler_def response_message_def)
qed

end
