(* ===== verification/Dx_ChildList.thy ===== *)
theory Dx_ChildList
  imports Prelude "HOL-Library.Monad_Syntax"
begin

text \<open>
  The list of the children of a gateway (the second half of src/src/dx_avnet_iot_connect.c): a doubly linked
  list of nodes on the heap.  An operation that dereferences NULL or a freed node, or that follows the pointers for
  ever, gives None.  The lemmas show that this never happens and that the list is what it stands
  for, a sequence of pairs of an id and a tag.
\<close>

section \<open>The heap\<close>

abbreviation (input) GW_FIELD_LEN :: nat where "GW_FIELD_LEN \<equiv> 192"

record child_node =
  next_node :: "nat option"
  prev_node :: "nat option"
  child_tg :: "char list"
  child_id :: "char list"

text \<open>The next free address is \<open>gw_brk\<close>; addresses are not used again, so that a stale pointer shows.\<close>

record children =
  gw_head :: "nat option"
  gw_heap :: "nat \<Rightarrow> child_node option"
  gw_brk :: nat

definition no_children :: children where
  "no_children = \<lparr>gw_head = None, gw_heap = (\<lambda>_. None), gw_brk = 0\<rparr>"

section \<open>Operations\<close>

text \<open>A refused malloc crashes in memset, before the test for NULL; strncpy crashes on a NULL id or tag.\<close>

definition IoTCListGetNewNode ::
    "(nat \<Rightarrow> bool) \<Rightarrow> string option \<Rightarrow> string option \<Rightarrow> 'r children_scheme \<Rightarrow> (nat \<times> 'r children_scheme) option" where
  "IoTCListGetNewNode mem ident tag st =
     (if \<not> mem (gw_brk st) then None
      else do {
        i \<leftarrow> ident;
        t \<leftarrow> tag;
        let a = gw_brk st;
        Some (a, st\<lparr>gw_brk := Suc a,
          gw_heap := (gw_heap st)(a \<mapsto> \<lparr>next_node = None, prev_node = None,
            child_tg = strncpy (replicate GW_FIELD_LEN NUL) t GW_FIELD_LEN,
            child_id = strncpy (replicate GW_FIELD_LEN NUL) i GW_FIELD_LEN\<rparr>)\<rparr>)
      })"

text \<open>The loop to the last node.\<close>

partial_function (option) last_node :: "(nat \<Rightarrow> child_node option) \<Rightarrow> nat \<Rightarrow> nat option" where
  "last_node h a = do {
     n \<leftarrow> h a;
     (case next_node n of None \<Rightarrow> Some a | Some b \<Rightarrow> last_node h b)
   }"

definition IoTCListInsertNode ::
    "(nat \<Rightarrow> bool) \<Rightarrow> string option \<Rightarrow> string option \<Rightarrow> 'r children_scheme \<Rightarrow> (nat \<times> 'r children_scheme) option" where
  "IoTCListInsertNode mem ident tag st = do {
     (new, st1) \<leftarrow> IoTCListGetNewNode mem ident tag st;
     (case gw_head st1 of
        None \<Rightarrow> Some (new, st1\<lparr>gw_head := Some new\<rparr>)
      | Some a \<Rightarrow> do {
          l \<leftarrow> last_node (gw_heap st1) a;
          n \<leftarrow> gw_heap st1 l;
          let h1 = (gw_heap st1)(l \<mapsto> n\<lparr>next_node := Some new\<rparr>);
          m \<leftarrow> h1 new;
          Some (new, st1\<lparr>gw_heap := h1(new \<mapsto> m\<lparr>prev_node := Some l\<rparr>)\<rparr>)
        })
   }"

text \<open>The result is always true: a node that could not be made has crashed before.\<close>

definition IoTCListAddChild ::
    "(nat \<Rightarrow> bool) \<Rightarrow> string option \<Rightarrow> string option \<Rightarrow> 'r children_scheme \<Rightarrow> (bool \<times> 'r children_scheme) option" where
  "IoTCListAddChild mem ident tag st = map_option (\<lambda>(new, st1). (True, st1)) (IoTCListInsertNode mem ident tag st)"

text \<open>The loop of the search; a NULL id crashes at the first comparison.\<close>

partial_function (option) find_node ::
    "(nat \<Rightarrow> child_node option) \<Rightarrow> string option \<Rightarrow> nat option \<Rightarrow> nat option option" where
  "find_node h ident p =
     (case p of
        None \<Rightarrow> Some None
      | Some a \<Rightarrow> do {
          n \<leftarrow> h a;
          i \<leftarrow> ident;
          (if strncmp_eq (cstr (child_id n)) i GW_FIELD_LEN then Some (Some a) else find_node h ident (next_node n))
        })"

definition IoTCListFindNodeById :: "string option \<Rightarrow> 'r children_scheme \<Rightarrow> nat option option" where
  "IoTCListFindNodeById ident st =
     (if gw_head st = None then Some None else find_node (gw_heap st) ident (gw_head st))"

definition IoTCListDeleteNode :: "nat option \<Rightarrow> 'r children_scheme \<Rightarrow> (bool \<times> 'r children_scheme) option" where
  "IoTCListDeleteNode node st =
     (case node of
        None \<Rightarrow> Some (False, st)
      | Some a \<Rightarrow> do {
          n \<leftarrow> gw_heap st a;
          (if gw_head st = Some a then
             (case next_node n of
                Some b \<Rightarrow> do {
                  m \<leftarrow> gw_heap st b;
                  Some (True, st\<lparr>gw_heap := (gw_heap st)(b \<mapsto> m\<lparr>prev_node := None\<rparr>, a := None), gw_head := Some b\<rparr>)
                }
              | None \<Rightarrow> Some (True, st\<lparr>gw_head := None, gw_heap := (gw_heap st)(a := None)\<rparr>))
           else
             (case next_node n of
                None \<Rightarrow> do {
                  p \<leftarrow> prev_node n;
                  m \<leftarrow> gw_heap st p;
                  Some (True, st\<lparr>gw_heap := (gw_heap st)(p \<mapsto> m\<lparr>next_node := None\<rparr>, a := None)\<rparr>)
                }
              | Some b \<Rightarrow> do {
                  p \<leftarrow> prev_node n;
                  m \<leftarrow> gw_heap st p;
                  let h1 = (gw_heap st)(p \<mapsto> m\<lparr>next_node := Some b\<rparr>);
                  m' \<leftarrow> h1 b;
                  Some (True, st\<lparr>gw_heap := h1(b \<mapsto> m'\<lparr>prev_node := Some p\<rparr>, a := None)\<rparr>)
                }))
        })"

definition IoTCListDeleteNodeById :: "string option \<Rightarrow> 'r children_scheme \<Rightarrow> (bool \<times> 'r children_scheme) option" where
  "IoTCListDeleteNodeById ident st = do { node \<leftarrow> IoTCListFindNodeById ident st; IoTCListDeleteNode node st }"

text \<open>The loop that frees the nodes.\<close>

partial_function (option) free_nodes ::
    "(nat \<Rightarrow> child_node option) \<Rightarrow> nat option \<Rightarrow> (nat \<Rightarrow> child_node option) option" where
  "free_nodes h p =
     (case p of
        None \<Rightarrow> Some h
      | Some a \<Rightarrow> do { n \<leftarrow> h a; free_nodes (h(a := None)) (next_node n) })"

definition IoTClistDelete :: "'r children_scheme \<Rightarrow> 'r children_scheme option" where
  "IoTClistDelete st = map_option (\<lambda>h. st\<lparr>gw_heap := h, gw_head := None\<rparr>) (free_nodes (gw_heap st) (gw_head st))"

definition dx_avnetFindChild :: "string option \<Rightarrow> 'r children_scheme \<Rightarrow> nat option option" where
  "dx_avnetFindChild ident st = IoTCListFindNodeById ident st"

definition dx_avnetGetFirstChild :: "'r children_scheme \<Rightarrow> nat option" where
  "dx_avnetGetFirstChild st = gw_head st"

definition dx_avnetGetNextChild :: "nat \<Rightarrow> 'r children_scheme \<Rightarrow> nat option option" where
  "dx_avnetGetNextChild node st = map_option next_node (gw_heap st node)"

section \<open>Segments\<close>

text \<open>
  \<open>segment h p q ns p' q'\<close>: the nodes \<open>ns\<close> are linked both ways, the pointer into them is \<open>q\<close>, the one out of them
  \<open>q'\<close>, the node before the first is \<open>p\<close> and the last one, or \<open>p\<close> when there is none, is \<open>p'\<close>.
\<close>

primrec segment :: "(nat \<Rightarrow> child_node option) \<Rightarrow> nat option \<Rightarrow> nat option \<Rightarrow> nat list \<Rightarrow> nat option \<Rightarrow> nat option \<Rightarrow> bool" where
  "segment h p q [] p' q' \<longleftrightarrow> p = p' \<and> q = q'"
| "segment h p q (a # ns) p' q' \<longleftrightarrow>
     q = Some a \<and> (\<exists>n. h a = Some n \<and> prev_node n = p \<and> segment h (Some a) (next_node n) ns p' q')"

lemma segment_append [simp]:
  "segment h p q (ms @ ns) p' q' \<longleftrightarrow> (\<exists>x y. segment h p q ms x y \<and> segment h x y ns p' q')"
  by (induction ms arbitrary: p q) auto

lemma segment_upd [simp]: "a \<notin> set ns \<Longrightarrow> segment (h(a := v)) p q ns p' q' \<longleftrightarrow> segment h p q ns p' q'"
  by (induction ns arbitrary: p q) auto

text \<open>The pairs the nodes hold.\<close>

definition entry :: "(nat \<Rightarrow> child_node option) \<Rightarrow> nat \<Rightarrow> string \<times> string" where
  "entry h a = (case h a of None \<Rightarrow> ([], []) | Some n \<Rightarrow> (cstr (child_id n), cstr (child_tg n)))"

lemma entry_upd [simp]: "a \<notin> set ns \<Longrightarrow> map (entry (h(a := v))) ns = map (entry h) ns"
  by (induction ns) (auto simp: entry_def)

text \<open>Every field is a block of its size.\<close>

definition fields_ok :: "(nat \<Rightarrow> child_node option) \<Rightarrow> bool" where
  "fields_ok h \<longleftrightarrow> (\<forall>a n. h a = Some n \<longrightarrow> length (child_id n) = GW_FIELD_LEN \<and> length (child_tg n) = GW_FIELD_LEN)"

lemma fields_ok_upd [simp]:
  "fields_ok h \<Longrightarrow> fields_ok (h(a := None))"
  "fields_ok h \<Longrightarrow> h b = Some m \<Longrightarrow> fields_ok (h(b \<mapsto> m\<lparr>prev_node := p\<rparr>))"
  "fields_ok h \<Longrightarrow> h b = Some m \<Longrightarrow> fields_ok (h(b \<mapsto> m\<lparr>next_node := p\<rparr>))"
  "fields_ok h \<Longrightarrow> length (child_id n) = GW_FIELD_LEN \<Longrightarrow> length (child_tg n) = GW_FIELD_LEN \<Longrightarrow> fields_ok (h(b \<mapsto> n))"
  unfolding fields_ok_def by simp_all

definition nodes_of :: "'r children_scheme \<Rightarrow> nat list \<Rightarrow> bool" where
  "nodes_of st ns \<longleftrightarrow> (\<exists>l. segment (gw_heap st) None (gw_head st) ns l None) \<and> distinct ns \<and> dom (gw_heap st) = set ns \<and>
     (\<forall>a \<in> set ns. a < gw_brk st) \<and> fields_ok (gw_heap st)"

text \<open>The list that a state represents; nothing else is on the heap.\<close>

definition represents :: "'r children_scheme \<Rightarrow> (string \<times> string) list \<Rightarrow> bool" where
  "represents st xs \<longleftrightarrow> (\<exists>ns. nodes_of st ns \<and> xs = map (entry (gw_heap st)) ns)"

lemma no_children_represents: "represents no_children []"
  by (simp add: represents_def nodes_of_def no_children_def fields_ok_def)

lemma field_text: "is_cstring s \<Longrightarrow> cstr (strncpy (replicate GW_FIELD_LEN NUL) s GW_FIELD_LEN) = take GW_FIELD_LEN s"
proof -
  assume s: "is_cstring s"
  obtain k where "strncpy (replicate GW_FIELD_LEN NUL) s GW_FIELD_LEN = take GW_FIELD_LEN s @ replicate k NUL"
    by (simp add: strncpy_def take_append take_replicate)
  then show ?thesis using s by (cases k) (simp_all add: is_cstring_take)
qed

lemma last_node_segment: "segment h p (Some a) ns l None \<Longrightarrow> last_node h a = l"
proof (induction ns arbitrary: p a)
  case (Cons b ns)
  then obtain n where n: "h a = Some n" "segment h (Some a) (next_node n) ns l None" by auto
  show ?case
  proof (cases "next_node n")
    case None
    then have "ns = []" using n(2) by (cases ns) auto
    then show ?thesis using n None by (simp add: last_node.simps [of h a])
  next
    case (Some c)
    then have "last_node h c = l" using Cons.IH n(2) by simp
    then show ?thesis using n Some by (simp add: last_node.simps [of h a])
  qed
qed simp

lemma find_node_segment:
  assumes "fields_ok h"
  shows "segment h p q ns l None \<Longrightarrow>
    find_node h (Some i) q = Some (List.find (\<lambda>a. fst (entry h a) = take GW_FIELD_LEN i) ns)"
proof (induction ns arbitrary: p q)
  case Nil
  then show ?case by (simp add: find_node.simps [of h "Some i" None])
next
  case (Cons a ns)
  then obtain n where n: "q = Some a" "h a = Some n" "segment h (Some a) (next_node n) ns l None" by auto
  have "length (cstr (child_id n)) \<le> GW_FIELD_LEN"
    using assms n(2) length_takeWhile_le [of "\<lambda>c. c \<noteq> NUL" "child_id n"] by (auto simp: fields_ok_def cstr_def)
  then have "strncmp_eq (cstr (child_id n)) i GW_FIELD_LEN \<longleftrightarrow> fst (entry h a) = take GW_FIELD_LEN i"
    by (simp add: strncmp_eq_def entry_def n(2))
  then show ?case using Cons.IH [OF n(3)] n(1,2) by (simp add: find_node.simps [of h "Some i" "Some a"])
qed

lemma free_nodes_segment:
  "segment h p q ns l None \<Longrightarrow> distinct ns \<Longrightarrow> free_nodes h q = Some (h |` (- set ns))"
proof (induction ns arbitrary: h p q)
  case Nil
  then show ?case by (simp add: free_nodes.simps [of h None])
next
  case (Cons a ns)
  then obtain n where n: "q = Some a" "h a = Some n" "segment h (Some a) (next_node n) ns l None" by auto
  have "a \<notin> set ns" "distinct ns" using Cons.prems(2) by simp_all
  moreover have "segment (h(a := None)) (Some a) (next_node n) ns l None"
    unfolding segment_upd [OF \<open>a \<notin> set ns\<close>] by (rule n(3))
  ultimately have "free_nodes (h(a := None)) (next_node n) = Some ((h(a := None)) |` (- set ns))"
    by (intro Cons.IH)
  moreover have "(h(a := None)) |` (- set ns) = h |` (- set (a # ns))"
    by (auto simp: restrict_map_def)
  ultimately show ?case using n by (simp add: free_nodes.simps [of h "Some a"])
qed

section \<open>The operations on what is represented\<close>

lemma new_node:
  assumes "nodes_of st ns" "is_cstring i" "is_cstring t" "mem (gw_brk st)"
  obtains st1 a n where "IoTCListGetNewNode mem (Some i) (Some t) st = Some (a, st1)" "a = gw_brk st" "a \<notin> set ns"
    "st1 = st\<lparr>gw_brk := Suc a, gw_heap := (gw_heap st)(a \<mapsto> n)\<rparr>" "next_node n = None" "prev_node n = None"
    "cstr (child_id n) = take GW_FIELD_LEN i" "cstr (child_tg n) = take GW_FIELD_LEN t"
    "length (child_id n) = GW_FIELD_LEN" "length (child_tg n) = GW_FIELD_LEN"
proof -
  have "gw_brk st \<notin> set ns" using assms(1) by (auto simp: nodes_of_def)
  then show thesis
    using that [of "gw_brk st" _ "\<lparr>next_node = None, prev_node = None,
        child_tg = strncpy (replicate GW_FIELD_LEN NUL) t GW_FIELD_LEN,
        child_id = strncpy (replicate GW_FIELD_LEN NUL) i GW_FIELD_LEN\<rparr>"]
      field_text [OF assms(2)] field_text [OF assms(3)] assms(4)
    by (simp add: IoTCListGetNewNode_def length_strncpy Let_def)
qed

lemma insert_represents:
  assumes "represents st xs" "is_cstring i" "is_cstring t" "mem (gw_brk st)"
  shows "\<exists>a st'. IoTCListInsertNode mem (Some i) (Some t) st = Some (a, st') \<and>
    represents st' (xs @ [(take GW_FIELD_LEN i, take GW_FIELD_LEN t)])"
proof -
  obtain ns where ns: "nodes_of st ns" "xs = map (entry (gw_heap st)) ns" using assms(1) by (auto simp: represents_def)
  obtain st1 a n where new: "IoTCListGetNewNode mem (Some i) (Some t) st = Some (a, st1)" "a = gw_brk st" "a \<notin> set ns"
    "st1 = st\<lparr>gw_brk := Suc a, gw_heap := (gw_heap st)(a \<mapsto> n)\<rparr>" "next_node n = None" "prev_node n = None"
    "cstr (child_id n) = take GW_FIELD_LEN i" "cstr (child_tg n) = take GW_FIELD_LEN t"
    "length (child_id n) = GW_FIELD_LEN" "length (child_tg n) = GW_FIELD_LEN"
    by (rule new_node [where mem = mem, OF ns(1) assms(2-4)])
  show ?thesis
  proof (cases ns rule: rev_cases)
    case Nil
    then show ?thesis using ns new
      by (auto simp: IoTCListInsertNode_def represents_def nodes_of_def entry_def intro!: exI [of _ "[a]"])
  next
    case (snoc ms l)
    obtain m x where m: "gw_heap st l = Some m" "segment (gw_heap st) None (gw_head st) ms x (Some l)" "prev_node m = x" "next_node m = None"
      using ns(1) snoc by (auto simp: nodes_of_def)
    obtain b where b: "gw_head st = Some b" using m(2) by (cases ms) auto
    have "l \<notin> set ms" "l \<noteq> a" "a \<notin> set ms" using ns(1) snoc new(3) by (auto simp: nodes_of_def)
    moreover have "segment ((gw_heap st)(a \<mapsto> n)) None (Some b) ns (Some l) None"
      using ns(1) snoc b new(3) m by (auto simp: nodes_of_def)
    then have "last_node ((gw_heap st)(a \<mapsto> n)) b = Some l" by (rule last_node_segment)
    moreover define h where "h = (gw_heap st)(a \<mapsto> n, l \<mapsto> m\<lparr>next_node := Some a\<rparr>, a \<mapsto> n\<lparr>prev_node := Some l\<rparr>)"
    ultimately have step: "IoTCListInsertNode mem (Some i) (Some t) st = Some (a, st1\<lparr>gw_heap := h\<rparr>)"
      using m(1) b new(4) by (simp add: IoTCListInsertNode_def new(1) h_def)
    have h: "h = (gw_heap st)(l \<mapsto> m\<lparr>next_node := Some a\<rparr>, a \<mapsto> n\<lparr>prev_node := Some l\<rparr>)"
      using \<open>l \<noteq> a\<close> by (auto simp: h_def fun_eq_iff)
    have "nodes_of (st1\<lparr>gw_heap := h\<rparr>) (ns @ [a])"
      using ns(1) m new \<open>l \<notin> set ms\<close> \<open>a \<notin> set ms\<close> \<open>l \<noteq> a\<close> unfolding nodes_of_def snoc
      by (auto simp: h less_Suc_eq)
    moreover have "map (entry h) (ns @ [a]) = xs @ [(take GW_FIELD_LEN i, take GW_FIELD_LEN t)]"
      using ns(2) m(1) new \<open>l \<notin> set ms\<close> \<open>a \<notin> set ms\<close> \<open>l \<noteq> a\<close> by (simp add: h snoc) (simp add: entry_def)
    ultimately show ?thesis using step by (force simp: represents_def)
  qed
qed

lemma entry_links [simp]:
  "h b = Some m \<Longrightarrow> entry (h(b \<mapsto> m\<lparr>prev_node := p\<rparr>)) = entry h"
  "h b = Some m \<Longrightarrow> entry (h(b \<mapsto> m\<lparr>next_node := p\<rparr>)) = entry h"
  by (auto simp: entry_def)

lemma delete_node:
  assumes "nodes_of st (ms @ a # zs)"
  shows "\<exists>h q. IoTCListDeleteNode (Some a) st = Some (True, st\<lparr>gw_heap := h, gw_head := q\<rparr>) \<and>
    nodes_of (st\<lparr>gw_heap := h, gw_head := q\<rparr>) (ms @ zs) \<and> map (entry h) (ms @ zs) = map (entry (gw_heap st)) (ms @ zs)"
proof -
  define h where "h = gw_heap st"
  obtain l x n where seg: "segment h None (gw_head st) ms x (Some a)" "h a = Some n" "prev_node n = x"
    "segment h (Some a) (next_node n) zs l None"
    using assms by (auto simp: nodes_of_def h_def)
  have dist: "a \<notin> set (ms @ zs)" "distinct (ms @ zs)" and dom: "dom h = insert a (set (ms @ zs))"
    and brk: "\<forall>b \<in> set (ms @ zs). b < gw_brk st" and ok: "fields_ok h"
    using assms by (auto simp: nodes_of_def h_def)
  have finish: ?thesis
    if step: "IoTCListDeleteNode (Some a) st = Some (True, st\<lparr>gw_heap := h'(a := None), gw_head := q\<rparr>)"
      and seg': "segment h' None q (ms @ zs) l' None" and keep: "entry h' = entry h" "dom h' = dom h" "fields_ok h'" for h' q l'
  proof -
    have "segment (h'(a := None)) None q (ms @ zs) l' None" unfolding segment_upd [OF dist(1)] by (rule seg')
    moreover have "dom (h'(a := None)) = set (ms @ zs)" using keep(2) dom dist(1) by auto
    ultimately have "nodes_of (st\<lparr>gw_heap := h'(a := None), gw_head := q\<rparr>) (ms @ zs)"
      using dist(2) brk fields_ok_upd(1) [OF keep(3), of a] unfolding nodes_of_def by simp blast
    moreover have "map (entry (h'(a := None))) (ms @ zs) = map (entry (gw_heap st)) (ms @ zs)"
      unfolding entry_upd [OF dist(1)] keep(1) h_def ..
    ultimately show ?thesis using step by blast
  qed
  show ?thesis
  proof (cases ms rule: rev_cases)
    case Nil
    then have head: "gw_head st = Some a" "x = None" using seg(1) by auto
    show ?thesis
    proof (cases zs)
      case (Cons b ys)
      obtain m where m: "next_node n = Some b" "h b = Some m" "segment h (Some b) (next_node m) ys l None"
        using seg(4) Cons by auto
      have "b \<notin> set ys" using dist Cons by simp
      show ?thesis
        by (rule finish [where h' = "h(b \<mapsto> m\<lparr>prev_node := None\<rparr>)" and q = "Some b" and l' = l])
           (use seg(2) head m dom ok Cons Nil \<open>b \<notin> set ys\<close> in \<open>auto simp: IoTCListDeleteNode_def h_def\<close>)
    next
      case Nil2: Nil
      then have "next_node n = None" using seg(4) by simp
      show ?thesis
        by (rule finish [where h' = h and q = None and l' = None]) (use \<open>next_node n = None\<close> seg(2) head ok Nil Nil2 in \<open>simp_all add: IoTCListDeleteNode_def h_def\<close>)
    qed
  next
    case (snoc ws p)
    obtain k y where k: "h p = Some k" "segment h None (gw_head st) ws y (Some p)" "prev_node k = y"
        "next_node k = Some a" and x: "x = Some p"
      using seg(1) snoc by auto
    have head: "gw_head st \<noteq> Some a" using k(2) snoc dist(1) by (cases ws) auto
    have p: "p \<notin> set ws" "p \<notin> set zs" "p \<noteq> a" using dist snoc by auto
    show ?thesis
    proof (cases zs)
      case (Cons c ys)
      obtain m where m: "next_node n = Some c" "h c = Some m" "segment h (Some c) (next_node m) ys l None"
        using seg(4) Cons by auto
      have c: "p \<noteq> c" "c \<notin> set ws" "c \<notin> set ys" "p \<notin> set ys" using dist snoc Cons by auto
      let ?h = "h(p \<mapsto> k\<lparr>next_node := Some c\<rparr>, c \<mapsto> m\<lparr>prev_node := Some p\<rparr>)"
      have hc: "(h(p \<mapsto> k\<lparr>next_node := Some c\<rparr>)) c = Some m" using m(2) c(1) by simp
      show ?thesis
      proof (rule finish [where h' = ?h and q = "gw_head st" and l' = l])
        show "IoTCListDeleteNode (Some a) st = Some (True, st\<lparr>gw_heap := ?h(a := None), gw_head := gw_head st\<rparr>)"
          using seg(2,3) head x k(1) m(1,2) hc by (simp add: IoTCListDeleteNode_def h_def Let_def)
        show "segment ?h None (gw_head st) (ms @ zs) l None"
          using k m c p(1) by (auto simp: snoc Cons)
        show "entry ?h = entry h" using entry_links(1) [of "h(p \<mapsto> k\<lparr>next_node := Some c\<rparr>)" c m "Some p"] hc
            entry_links(2) [of h p k "Some c"] k(1) by simp
        show "dom ?h = dom h" using k(1) m(2) by auto
        show "fields_ok ?h" using ok k(1) hc by simp
      qed
    next
      case Nil
      then have "next_node n = None" "l = Some a" using seg(4) by simp_all
      show ?thesis
        by (rule finish [where h' = "h(p \<mapsto> k\<lparr>next_node := None\<rparr>)" and q = "gw_head st" and l' = "Some p"])
           (use seg(2,3) x k head p ok Nil snoc \<open>next_node n = None\<close> in \<open>auto simp: IoTCListDeleteNode_def h_def\<close>)
    qed
  qed
qed

text \<open>What deleting an id does to the pairs: the first one with the id goes.\<close>

fun remove_key :: "'k \<Rightarrow> ('k \<times> 'v) list \<Rightarrow> ('k \<times> 'v) list" where
  "remove_key k [] = []"
| "remove_key k ((k', v) # xs) = (if k' = k then xs else (k', v) # remove_key k xs)"

lemma remove_key_fresh: "k \<notin> fst ` set xs \<Longrightarrow> remove_key k xs = xs"
  by (induction xs) auto

lemma remove_key_split: "k \<notin> fst ` set xs \<Longrightarrow> remove_key k (xs @ (k, v) # ys) = xs @ ys"
  by (induction xs) auto

lemma remove_key_keys: "set (map fst (remove_key k xs)) \<subseteq> set (map fst xs)"
proof (induction xs)
  case (Cons x xs)
  then show ?case by (cases x) (auto simp only: remove_key.simps list.map fst_conv list.set split: if_splits)
qed simp

lemma remove_key_distinct:
  "distinct (map fst xs) \<Longrightarrow> distinct (map fst (remove_key k xs)) \<and> k \<notin> set (map fst (remove_key k xs))"
proof (induction xs)
  case (Cons x xs)
  obtain k' v where x: "x = (k', v)" by (cases x)
  have "k' \<notin> set (map fst xs)" "distinct (map fst xs)" using Cons.prems by (simp_all add: x)
  moreover from this have "k' \<notin> set (map fst (remove_key k xs))" using remove_key_keys [of k xs] by blast
  ultimately show ?case using Cons.IH by (cases "k' = k") (simp_all add: x del: set_map list.set_map)
qed simp

lemma find_represents:
  assumes "represents st xs"
  shows "\<exists>p. IoTCListFindNodeById (Some i) st = Some p \<and> (p = None \<longleftrightarrow> take GW_FIELD_LEN i \<notin> fst ` set xs)"
proof -
  obtain ns l where ns: "segment (gw_heap st) None (gw_head st) ns l None" "xs = map (entry (gw_heap st)) ns" "fields_ok (gw_heap st)"
    using assms by (auto simp: represents_def nodes_of_def)
  have "IoTCListFindNodeById (Some i) st = Some (List.find (\<lambda>a. fst (entry (gw_heap st) a) = take GW_FIELD_LEN i) ns)"
  proof (cases "gw_head st")
    case None
    then have "ns = []" using ns(1) by (cases ns) auto
    then show ?thesis using None by (simp add: IoTCListFindNodeById_def)
  qed (use find_node_segment [OF ns(3,1)] in \<open>simp add: IoTCListFindNodeById_def\<close>)
  then show ?thesis using ns(2) by (auto simp: find_None_iff image_iff)
qed

lemma delete_represents:
  assumes "represents st xs"
  shows "\<exists>st'. IoTCListDeleteNodeById (Some i) st = Some (take GW_FIELD_LEN i \<in> fst ` set xs, st') \<and>
    represents st' (remove_key (take GW_FIELD_LEN i) xs) \<and> gw_brk st' = gw_brk st"
proof -
  let ?k = "take GW_FIELD_LEN i"
  let ?e = "entry (gw_heap st)"
  obtain ns l where ns: "segment (gw_heap st) None (gw_head st) ns l None" "xs = map ?e ns" "fields_ok (gw_heap st)"
     "nodes_of st ns"
    using assms by (auto simp: represents_def nodes_of_def)
  have find: "IoTCListFindNodeById (Some i) st = Some (List.find (\<lambda>a. fst (?e a) = ?k) ns)"
  proof (cases "gw_head st")
    case None
    then have "ns = []" using ns(1) by (cases ns) auto
    then show ?thesis using None by (simp add: IoTCListFindNodeById_def)
  qed (use find_node_segment [OF ns(3,1)] in \<open>simp add: IoTCListFindNodeById_def\<close>)
  show ?thesis
  proof (cases "List.find (\<lambda>a. fst (?e a) = ?k) ns")
    case None
    then have "?k \<notin> fst ` set xs" by (auto simp: ns(2) find_None_iff image_iff)
    then show ?thesis using find None assms
      by (simp add: IoTCListDeleteNodeById_def IoTCListDeleteNode_def remove_key_fresh)
  next
    case (Some a)
    then obtain j where j: "j < length ns" "fst (?e (ns ! j)) = ?k" "a = ns ! j" "\<forall>m < j. fst (?e (ns ! m)) \<noteq> ?k"
      by (auto simp: find_Some_iff)
    define ms zs where "ms = take j ns" and "zs = drop (Suc j) ns"
    have split: "ns = ms @ a # zs" using id_take_nth_drop [OF j(1)] by (simp add: ms_def zs_def j(3))
    have fresh: "?k \<notin> fst ` set (map ?e ms)"
      using j(4) j(1) by (auto simp: ms_def in_set_conv_nth image_iff) blast
    obtain h q where h: "IoTCListDeleteNode (Some a) st = Some (True, st\<lparr>gw_heap := h, gw_head := q\<rparr>)"
      "nodes_of (st\<lparr>gw_heap := h, gw_head := q\<rparr>) (ms @ zs)" "map (entry h) (ms @ zs) = map ?e (ms @ zs)"
      using delete_node [of st ms a zs] ns(4) split by blast
    obtain v where v: "?e a = (?k, v)" using j(2,3) by (metis prod.collapse)
    have "remove_key ?k xs = map ?e (ms @ zs)"
      using remove_key_split [OF fresh, of v "map ?e zs"] by (simp add: ns(2) split v)
    moreover have "?k \<in> fst ` set xs" using v by (force simp: ns(2) split)
    ultimately show ?thesis using find Some h
      by (auto simp: IoTCListDeleteNodeById_def represents_def intro!: exI [of _ "ms @ zs"])
  qed
qed

lemma clear_represents:
  assumes "represents st xs"
  shows "\<exists>st'. IoTClistDelete st = Some st' \<and> represents st' [] \<and> gw_brk st' = gw_brk st"
proof -
  obtain ns l where ns: "segment (gw_heap st) None (gw_head st) ns l None" "distinct ns" "dom (gw_heap st) = set ns"
    using assms by (auto simp: represents_def nodes_of_def)
  have "gw_heap st |` (- set ns) = (\<lambda>_. None)" using ns(3) by (auto simp: restrict_map_def fun_eq_iff)
  then have "IoTClistDelete st = Some (st\<lparr>gw_heap := (\<lambda>_. None), gw_head := None\<rparr>)"
    by (simp add: IoTClistDelete_def free_nodes_segment [OF ns(1,2)])
  then show ?thesis by (auto simp: represents_def nodes_of_def fields_ok_def)
qed

section \<open>The contract\<close>

text \<open>
  What the users of the list rely on: a list of pairs, with keys and values shortened to what a field holds,
  extended at its end and searched from its start.  \<open>room\<close> says when a pair can be added.
\<close>

locale keyed_list =
  fixes rep :: "'s \<Rightarrow> ('k \<times> 'v) list \<Rightarrow> bool"
    and found :: "'k \<Rightarrow> 's \<Rightarrow> bool option"
    and add :: "'k \<Rightarrow> 'v \<Rightarrow> 's \<Rightarrow> 's option"
    and del :: "'k \<Rightarrow> 's \<Rightarrow> 's option"
    and key :: "'k \<Rightarrow> 'k" and val :: "'v \<Rightarrow> 'v"
    and room :: "'k \<Rightarrow> 'v \<Rightarrow> 's \<Rightarrow> bool"
  assumes found_law: "rep s xs \<Longrightarrow> found k s = Some (key k \<in> fst ` set xs)"
    and add_law: "rep s xs \<Longrightarrow> room k v s \<Longrightarrow> \<exists>s'. add k v s = Some s' \<and> rep s' (xs @ [(key k, val v)])"
    and del_law: "rep s xs \<Longrightarrow>
      \<exists>s'. del k s = Some s' \<and> rep s' (remove_key (key k) xs) \<and> (\<forall>k v. room k v s' \<longleftrightarrow> room k v s)"
begin

text \<open>Replacing: an old pair of the key is deleted before the new one is added.\<close>

lemma replace:
  assumes "rep s xs" "room k v s"
  shows "\<exists>s'. Option.bind (found k s) (\<lambda>old. Option.bind (if old then del k s else Some s) (add k v)) = Some s' \<and>
    rep s' (remove_key (key k) xs @ [(key k, val v)])"
proof (cases "key k \<in> fst ` set xs")
  case True
  obtain s1 where "del k s = Some s1" "rep s1 (remove_key (key k) xs)" "room k v s1"
    using del_law [OF assms(1)] assms(2) by blast
  moreover from this obtain s2 where "add k v s1 = Some s2" "rep s2 (remove_key (key k) xs @ [(key k, val v)])"
    using add_law [of s1 "remove_key (key k) xs" k v] by blast
  ultimately show ?thesis using found_law [OF assms(1), of k] True by simp
next
  case False
  then show ?thesis using add_law [OF assms] found_law [OF assms(1)] by (simp add: remove_key_fresh)
qed

lemma replace_distinct:
  "distinct (map fst xs) \<Longrightarrow> distinct (map fst (remove_key (key k) xs @ [(key k, val v)]))"
  using remove_key_distinct [of xs "key k"] by simp

end

abbreviation add_child :: "(nat \<Rightarrow> bool) \<Rightarrow> string \<Rightarrow> string \<Rightarrow> 'r children_scheme \<Rightarrow> 'r children_scheme option" where
  "add_child mem i t st \<equiv> map_option snd (IoTCListAddChild mem (Some i) (Some t) st)"

abbreviation delete_child :: "string \<Rightarrow> 'r children_scheme \<Rightarrow> 'r children_scheme option" where
  "delete_child i st \<equiv> map_option snd (IoTCListDeleteNodeById (Some i) st)"

abbreviation child_found :: "string \<Rightarrow> 'r children_scheme \<Rightarrow> bool option" where
  "child_found i st \<equiv> map_option (\<lambda>p. p \<noteq> None) (IoTCListFindNodeById (Some i) st)"

interpretation child_list: keyed_list represents child_found "add_child mem" delete_child "take GW_FIELD_LEN" "take GW_FIELD_LEN"
  "\<lambda>i t st. is_cstring i \<and> is_cstring t \<and> mem (gw_brk st)" for mem
proof (unfold_locales, goal_cases)
  case (1 s xs k)
  then show ?case using find_represents [OF 1, of k] by auto
next
  case (2 s xs k v)
  then show ?case using insert_represents [of s xs k v mem] by (auto simp: IoTCListAddChild_def)
next
  case (3 s xs k)
  then show ?case using delete_represents [OF 3, of k] by auto
qed

section \<open>Properties\<close>

datatype child_op = Add_Child string string | Delete_Child string | Clear_Children

fun child_step :: "(nat \<Rightarrow> bool) \<Rightarrow> child_op \<Rightarrow> children \<Rightarrow> children option" where
  "child_step mem (Add_Child i t) st = add_child mem i t st"
| "child_step mem (Delete_Child i) st = delete_child i st"
| "child_step mem Clear_Children st = IoTClistDelete st"

fun child_run :: "(nat \<Rightarrow> bool) \<Rightarrow> child_op list \<Rightarrow> children \<Rightarrow> children option" where
  "child_run mem [] st = Some st"
| "child_run mem (op # ops) st = do { st1 \<leftarrow> child_step mem op st; child_run mem ops st1 }"

text \<open>The specification, on lists of pairs.\<close>

fun child_spec :: "(string \<times> string) list \<Rightarrow> child_op \<Rightarrow> (string \<times> string) list" where
  "child_spec xs (Add_Child i t) = xs @ [(take GW_FIELD_LEN i, take GW_FIELD_LEN t)]"
| "child_spec xs (Delete_Child i) = remove_key (take GW_FIELD_LEN i) xs"
| "child_spec xs Clear_Children = []"

fun child_op_ok :: "child_op \<Rightarrow> bool" where
  "child_op_ok (Add_Child i t) \<longleftrightarrow> is_cstring i \<and> is_cstring t"
| "child_op_ok _ \<longleftrightarrow> True"

lemma child_step_represents:
  assumes "represents st xs" "\<forall>n. mem n" "child_op_ok op"
  shows "\<exists>st'. child_step mem op st = Some st' \<and> represents st' (child_spec xs op)"
proof (cases op)
  case (Add_Child i t)
  then show ?thesis using child_list.add_law [OF assms(1), of i t mem] assms(2,3) by auto
next
  case (Delete_Child i)
  then show ?thesis using delete_represents [OF assms(1), of i] by auto
next
  case Clear_Children
  then show ?thesis using clear_represents [OF assms(1)] by auto
qed

lemma child_run_represents:
  "represents st xs \<Longrightarrow> \<forall>n. mem n \<Longrightarrow> list_all child_op_ok ops \<Longrightarrow>
   \<exists>st'. child_run mem ops st = Some st' \<and> represents st' (foldl child_spec xs ops)"
proof (induction ops arbitrary: st xs)
  case (Cons op ops)
  then obtain st1 where "child_step mem op st = Some st1" "represents st1 (child_spec xs op)"
    using child_step_represents [of st xs mem op] by auto
  moreover from this obtain st' where "child_run mem ops st1 = Some st'" "represents st' (foldl child_spec (child_spec xs op) ops)"
    using Cons.IH [OF _ Cons.prems(2)] Cons.prems(3) unfolding list.pred_inject(2) by blast
  ultimately show ?case by simp
qed simp

text \<open>
  C4: with memory for every node, the doubly linked list of the children refines a list of pairs: whatever children are added and deleted, in whatever
  order, no operation dereferences NULL or a freed node or runs for ever, every search ends and finds a child exactly
  when the list holds the id, its first 192 characters that is, and the heap holds the nodes of the list and no other.
\<close>

theorem child_list_refines:
  assumes "\<forall>n. mem n" "list_all child_op_ok ops"
  shows "\<exists>st. child_run mem ops no_children = Some st \<and> represents st (foldl child_spec [] ops) \<and>
    (\<forall>i. \<exists>p. dx_avnetFindChild (Some i) st = Some p \<and>
       (p \<noteq> None \<longleftrightarrow> take GW_FIELD_LEN i \<in> fst ` set (foldl child_spec [] ops)))"
proof -
  obtain st where st: "child_run mem ops no_children = Some st" "represents st (foldl child_spec [] ops)"
    using child_run_represents [OF no_children_represents assms] by blast
  have "\<exists>p. dx_avnetFindChild (Some i) st = Some p \<and> (p \<noteq> None \<longleftrightarrow> take GW_FIELD_LEN i \<in> fst ` set (foldl child_spec [] ops))" for i
    using find_represents [OF st(2), of i] by (auto simp: dx_avnetFindChild_def)
  with st show ?thesis by blast
qed

lemma child_list_refines_witness:
  "\<exists>st. child_run (\<lambda>_. True) [Add_Child ''1'' ''a'', Add_Child ''2'' ''b'', Add_Child ''3'' ''c'', Delete_Child ''2''] no_children = Some st \<and>
     represents st [(''1'', ''a''), (''3'', ''c'')]"
  using child_list_refines [of "\<lambda>_. True" "[Add_Child ''1'' ''a'', Add_Child ''2'' ''b'', Add_Child ''3'' ''c'', Delete_Child ''2'']"]
  by auto

end
