(* ===== verification/Dx_Azure_Clock.thy ===== *)
theory Dx_Azure_Clock
  imports Dx_Azure_Timer
begin

text \<open>
  Which timers the connection to Azure starts: its own three, whatever it is asked to do.
\<close>

definition azure_timer_names :: "string set" where
  "azure_timer_names = {''azureConnectionTimer'', ''tmr_network_ready_cached'', ''tmr_network_connected_cached''}"

definition starts_only :: "string set \<Rightarrow> uv_call list \<Rightarrow> bool" where
  "starts_only names calls \<longleftrightarrow> (\<forall>n a b. Uv_Timer_Start n a b \<in> set calls \<longrightarrow> n \<in> names)"

lemma starts_only_simps [simp]:
  "starts_only names []"
  "starts_only names (c # cs) \<longleftrightarrow> (\<forall>n a b. c = Uv_Timer_Start n a b \<longrightarrow> n \<in> names) \<and> starts_only names cs"
  "starts_only names (cs @ ds) \<longleftrightarrow> starts_only names cs \<and> starts_only names ds"
  unfolding starts_only_def list.set set_append by blast+

definition clock_ok :: "azure \<Rightarrow> bool" where
  "clock_ok st \<longleftrightarrow> tm_name (azure_timer st) \<in> azure_timer_names \<and> tm_name (tmr_network_ready st) \<in> azure_timer_names \<and>
     tm_name (tmr_network_connected st) \<in> azure_timer_names \<and> starts_only azure_timer_names (uv_calls st)"

lemma clock_boot: "clock_ok azure_boot"
  by (simp add: clock_ok_def azure_boot_def idle_timer_def azure_timer_names_def starts_only_def)

lemma clock_updates [step_simps, simp]:
  "clock_ok (sdk c st) = clock_ok st" "clock_ok (ProcessConnectionStatusCallbacks b st) = clock_ok st"
  "clock_ok (st\<lparr>deviceConnectionState := d\<rparr>) = clock_ok st" "clock_ok (st\<lparr>authenticationState := a\<rparr>) = clock_ok st"
  "clock_ok (st\<lparr>prov_handle := p\<rparr>) = clock_ok st" "clock_ok (st\<lparr>security_init_called := s\<rparr>) = clock_ok st"
  "clock_ok (st\<lparr>dpsRegisterStatus := r\<rparr>) = clock_ok st" "clock_ok (st\<lparr>provisionCompletedMaxRetry := n\<rparr>) = clock_ok st"
  "clock_ok (st\<lparr>iotHubUri := u\<rparr>) = clock_ok st" "clock_ok (st\<lparr>outstandingMessageCount := i\<rparr>) = clock_ok st"
  "clock_ok (st\<lparr>in_flight := k\<rparr>) = clock_ok st" "clock_ok (st\<lparr>iothubClientHandle := h\<rparr>) = clock_ok st"
  "clock_ok (st\<lparr>connectionStatusCallback := cbs\<rparr>) = clock_ok st" "clock_ok (st\<lparr>network_ready_cached := q\<rparr>) = clock_ok st"
  "clock_ok (st\<lparr>network_connected_cached := q\<rparr>) = clock_ok st" "clock_ok (st\<lparr>connection_initialized := q\<rparr>) = clock_ok st"
  "clock_ok (st\<lparr>network_connection_state := q\<rparr>) = clock_ok st" "clock_ok (st\<lparr>network_timer_initialised := q\<rparr>) = clock_ok st"
  "clock_ok (st\<lparr>pnpModelIdJson := x\<rparr>) = clock_ok st" "clock_ok (st\<lparr>pnpModelId := x\<rparr>) = clock_ok st"
  "clock_ok (st\<lparr>userConfig := uc\<rparr>) = clock_ok st" "clock_ok (st\<lparr>az_networkInterface := x\<rparr>) = clock_ok st"
  "clock_ok (st\<lparr>exit_code := e\<rparr>) = clock_ok st"
  "clock_ok (st\<lparr>deviceTwinCallbackHandler := f\<rparr>) = clock_ok st" "clock_ok (st\<lparr>directMethodCallbackHandler := f\<rparr>) = clock_ok st"
  "clock_ok (st\<lparr>messageReceivedCallback := f\<rparr>) = clock_ok st"
  by (simp_all add: clock_ok_def sdk_def ProcessConnectionStatusCallbacks_def)

lemma clock_runtime [step_simps, simp]:
  "clock_ok (dx_terminate code st) = clock_ok st"
  "clock_ok (snd (dx_timerChange t period st)) = clock_ok st"
  by (simp_all add: clock_ok_def dx_terminate_def dx_eventLoopStop_def uv_call_def dx_timerChange_def)

lemma clock_one_shot [step_simps, simp]:
  "clock_ok st \<Longrightarrow> tm_name t \<in> azure_timer_names \<Longrightarrow> clock_ok (snd (dx_timerOneShotSet t period st))"
  by (simp add: clock_ok_def dx_timerOneShotSet_def uv_call_def)

lemma clock_timers:
  "clock_ok st \<Longrightarrow> tm_name (azure_timer st) \<in> azure_timer_names"
  "clock_ok st \<Longrightarrow> tm_name (tmr_network_ready st) \<in> azure_timer_names"
  "clock_ok st \<Longrightarrow> tm_name (tmr_network_connected st) \<in> azure_timer_names"
  by (simp_all add: clock_ok_def)

text \<open>Starting a timer.\<close>

lemma clock_start:
  assumes "dx_timerStart st t = (r, t', st')" "clock_ok st" "tm_delay t = None \<and> tm_repeat t = None \<or> tm_name t \<in> azure_timer_names"
  shows "clock_ok st'" "tm_name t' = tm_name t"
  using assms
  by (auto simp: clock_ok_def dx_timerStart_def dx_terminate_def dx_eventLoopStop_def uv_call_def split: if_splits option.splits)

lemma clock_connected [simp]:
  assumes "clock_ok st"
  shows "clock_ok (snd (dx_isNetworkConnected ifs page interface st))"
proof -
  obtain r t st1 where s: "dx_timerStart (st\<lparr>network_timer_initialised := True\<rparr>) (tmr_network_connected st) = (r, t, st1)"
    by (metis prod.exhaust)
  have "clock_ok st1" "tm_name t \<in> azure_timer_names"
    using clock_start [OF s] assms clock_timers(3) [OF assms] by simp_all
  then have "clock_ok (st1\<lparr>tmr_network_connected := t\<rparr>)" by (simp add: clock_ok_def)
  moreover define st2 where "st2 = (if \<not> network_timer_initialised st then st1\<lparr>tmr_network_connected := t\<rparr> else st)"
  ultimately have "clock_ok st2" using assms by simp
  then show ?thesis
    using clock_timers(3) [of st2]
    unfolding dx_isNetworkConnected_def s prod.case Let_def st2_def [symmetric] by (simp split: option.splits)
qed

lemma clock_network [step_simps, simp]: "clock_ok st \<Longrightarrow> clock_ok (snd (isNetworkReady env st))"
  using clock_connected [of st "interfaces env" "test_page env" "az_networkInterface st"]
  by (simp add: isNetworkReady_def Let_def split_beta clock_timers)

lemma clock_asked [step_simps, simp]: "clock_ok st \<Longrightarrow> clock_ok (snd (dx_isAzureConnected env st))"
  by (simp add: dx_isAzureConnected_alt Let_def split_beta)

lemma clock_callback [step_simps, simp]: "clock_ok st \<Longrightarrow> clock_ok (hub_callback env st e)"
  by (cases e) (auto simp: HubConnectionStatusCallback_def SendMessageCallback_def HubDeviceTwinCallback_def
      HubDirectMethodCallback_def HubMessageReceivedCallback_def Let_def split: option.splits)

lemma clock_DoWork [step_simps, simp]: "clock_ok st \<Longrightarrow> clock_ok (hub_DoWork env st)"
proof -
  assume "clock_ok st"
  moreover have "clock_ok st \<Longrightarrow> clock_ok (foldl (hub_callback env) st es)" for es st by (induction es arbitrary: st) auto
  ultimately show ?thesis by (simp add: hub_DoWork_def)
qed

lemma clock_setting [step_simps, simp]:
  "clock_ok (hub_destroy h st) = clock_ok st" "clock_ok (hub_created env key st) = clock_ok st"
  "clock_ok (snd (ConnectToIotHub env host st)) = clock_ok st" "clock_ok (start_provisioning env st) = clock_ok st"
  "clock_ok (prov_DoWork env st) = clock_ok st" "clock_ok (provisioning_cleanup st) = clock_ok st"
proof -
  show c: "clock_ok (hub_created env key st) = clock_ok st" for key st by (simp add: hub_created_def split: option.splits)
  show "clock_ok (snd (ConnectToIotHub env host st)) = clock_ok st"
    by (simp add: ConnectToIotHub_def Let_def c split: option.splits)
  have "clock_ok (RegisterProvisioningDeviceCallback env st e) = clock_ok st" for st e
    by (cases e) (simp add: RegisterProvisioningDeviceCallback_def Let_def)
  then have "clock_ok (foldl (RegisterProvisioningDeviceCallback env) st es) = clock_ok st" for es st
    by (induction es arbitrary: st) simp_all
  then show "clock_ok (prov_DoWork env st) = clock_ok st" by (simp add: prov_DoWork_def)
  show "clock_ok (hub_destroy h st) = clock_ok st" by (simp add: hub_destroy_alt clock_ok_def sdk_def)
  show "clock_ok (provisioning_cleanup st) = clock_ok st"
    by (simp add: provisioning_cleanup_def Let_def split: option.splits)
  show "clock_ok (start_provisioning env st) = clock_ok st"
    by (cases "pnpModelIdJson st")
       (simp_all add: start_provisioning_def Let_def clock_ok_def sdk_def split: option.splits)
qed

lemma clock_stages [step_simps, simp]:
  "clock_ok (poll_provisioning env st) = clock_ok st" "clock_ok (provision_client env st) = clock_ok st"
  by (simp_all add: poll_provisioning_def provision_client_def Let_def split_beta split: option.splits)

lemma clock_setups [step_simps, simp]:
  assumes "clock_ok st"
  shows "clock_ok (snd (SetUpAzureIoTHubClientWithDpsPnP env st))"
    "clock_ok (snd (SetUpAzureIoTHubClientWithConnectionString env st))"
  using assms
  by (auto simp: SetUpAzureIoTHubClientWithDpsPnP_def SetUpAzureIoTHubClientWithConnectionString_def Let_def split_beta
      split: option.splits device_connection_state.splits)

lemma clock_setup [step_simps, simp]: "clock_ok st \<Longrightarrow> clock_ok (snd (SetupAzureClient env st))"
proof -
  assume ok: "clock_ok st"
  define st1 where "st1 = (case iothubClientHandle st of None \<Rightarrow> st | Some h \<Rightarrow> hub_destroy h st)"
  have "clock_ok st1" using ok by (simp add: st1_def split: option.splits)
  then show ?thesis
    unfolding SetupAzureClient_def Let_def split_beta st1_def [symmetric]
    by (cases "connectionType (userConfig st1)") simp_all
qed

lemma clock_work [step_simps, simp]: "clock_ok st \<Longrightarrow> clock_ok (snd (azure_work env st))"
  by (simp add: azure_work_def split: authentication_state.splits)

lemma clock_handler [step_simps, simp]: "clock_ok st \<Longrightarrow> clock_ok (AzureConnectionHandler env st)"
  by (simp add: AzureConnectionHandler_def Let_def split_beta clock_timers)

lemma clock_set [step_simps, simp]:
  "clock_ok (snd (set_properties env ps st)) = clock_ok st" "clock_ok (snd (set_content env content st)) = clock_ok st"
  by (induction env ps st rule: set_properties.induct) (auto simp: Let_def set_content_def split: option.splits)

lemma clock_publish [step_simps, simp]: "clock_ok st \<Longrightarrow> clock_ok (snd (dx_azurePublish env message len properties content st))"
  by (simp add: dx_azurePublish_def Let_def split_beta)

lemma clock_device_start [step_simps, simp]:
  assumes "clock_ok st"
  shows "clock_ok (dx_azureToDeviceStart env st)"
proof -
  obtain r t1 st2 where s1: "dx_timerStart (sdk IoTHub_Init st) (azure_timer (sdk IoTHub_Init st)) = (r, t1, st2)"
    by (metis prod.exhaust)
  obtain r' t2 st3 where s2: "dx_timerStart (st2\<lparr>azure_timer := t1\<rparr>) (tmr_network_ready st2) = (r', t2, st3)"
    by (metis prod.exhaust)
  have "clock_ok (sdk IoTHub_Init st)" using assms by simp
  then have "clock_ok (st2\<lparr>azure_timer := t1\<rparr>)"
    using clock_start [OF s1] clock_timers(1) [of "sdk IoTHub_Init st"] by (simp add: clock_ok_def)
  then have "clock_ok (st3\<lparr>tmr_network_ready := t2\<rparr>)"
    using clock_start [OF s2] clock_timers(2) [of "st2\<lparr>azure_timer := t1\<rparr>"] by (simp add: clock_ok_def)
  then show ?thesis using assms unfolding dx_azureToDeviceStart_def Let_def s1 prod.case s2 by simp
qed

lemma clock_connect [step_simps, simp]:
  "clock_ok st \<Longrightarrow> clock_ok (dx_azureConnect env config interface modelId st)"
  by (simp add: dx_azureConnect_def createPnpModelIdJson_def Let_def)

lemma clock_device_stop [step_simps, simp]: "clock_ok st \<Longrightarrow> clock_ok (dx_azureToDeviceStop st)"
  by (simp add: dx_azureToDeviceStop_def dx_timerStop_def uv_call_def clock_ok_def Let_def sdk_def)

text \<open>No step of the connection starts another timer.\<close>

lemma clock_step: "azure_step st op st' \<Longrightarrow> clock_ok st \<Longrightarrow> clock_ok st'"
  by (induction rule: azure_step.induct)
     (simp_all add: dx_azureRegisterDeviceTwinCallback_def dx_azureRegisterDirectMethodCallback_def
       dx_azureRegisterMessageReceivedNotification_def network_ready_expired_handler_def network_connected_expired_handler_def
       dx_azureRegisterConnectionChangedNotification_def dx_azureUnregisterConnectionChangedNotification_def split_beta)

interpretation azure_clock: stable azure_step clock_ok
  by unfold_locales (rule clock_step)

end
