(* ===== verification/Dx_Avnet.thy ===== *)
theory Dx_Avnet
  imports Dx_ChildList Json_Text Dx_Azure_Clock Dx_Azure_Properties
begin

text \<open>
  The connection to Avnet's IoTConnect (src/src/dx_avnet_iot_connect.c): the hello handshake and the other
  messages of the platform, and the telemetry it expects.  The state adds the connection to Azure IoT
  to the list of children.  None is a crash: a NULL pointer handed to a string function, or what
  crashes in the list.  The callbacks the file registers with the hub are steps of their own, which may come at any time,
  and not nested in the operation that calls them.
\<close>

section \<open>State\<close>

abbreviation (input) GUID_LEN :: nat where "GUID_LEN \<equiv> 36"
abbreviation (input) SID_LEN :: nat where "SID_LEN \<equiv> 64"
abbreviation (input) IOT_CONNECT_METADATA :: nat where "IOT_CONNECT_METADATA \<equiv> 256"
abbreviation (input) JSON_BUFFER_SIZE :: nat where "JSON_BUFFER_SIZE \<equiv> 512"
abbreviation (input) DX_ExitCode_Init_IoTCTimer :: int where "DX_ExitCode_Init_IoTCTimer \<equiv> 220"

text \<open>\<open>av_tx\<close> are the messages written to the log with the mark TX.\<close>

record avnet = children +
  av_hub :: azure
  av_timer :: timer_binding
  dtgGUID :: "char list"
  sidString :: "char list"
  deviceGUID :: "char list"
  entityGUID :: "char list"
  avnetConnected :: bool
  av_tx :: "string list"

definition monitor_name :: string where
  "monitor_name = ''monitorAvnetConnectionTimer''"

definition avnet_boot :: avnet where
  "avnet_boot = \<lparr>gw_head = None, gw_heap = (\<lambda>_. None), gw_brk = 0, av_hub = azure_boot,
     av_timer = idle_timer monitor_name None, dtgGUID = replicate (GUID_LEN + 1) NUL,
     sidString = replicate (SID_LEN + 1) NUL, deviceGUID = replicate (GUID_LEN + 1) NUL,
     entityGUID = replicate (GUID_LEN + 1) NUL, avnetConnected = False, av_tx = []\<rparr>"

text \<open>
  What the outside answers during one operation: the Azure SDK, the memory of parson's tables and of
  the list, the copy of a message, the time, and what a cast to int gives when the value does not fit.
\<close>

record avnet_env =
  hub_env :: azure_env
  json_mem :: "nat \<Rightarrow> bool"
  node_mem :: "nat \<Rightarrow> bool"
  copy_mem :: bool
  utc :: string
  cast_overflow :: int

definition to_int :: "avnet_env \<Rightarrow> double \<Rightarrow> int" where
  "to_int env x = (case int_of_double x of Some i \<Rightarrow> i | None \<Rightarrow> cast_overflow env)"

text \<open>The numbers that stand for the addresses of the callbacks.\<close>

abbreviation (input) AVNET_RECONNECT :: nat where "AVNET_RECONNECT \<equiv> 2"
abbreviation (input) AVNET_MESSAGE :: nat where "AVNET_MESSAGE \<equiv> 3"

section \<open>Sending\<close>

abbreviation (input) put_number :: "avnet_env \<Rightarrow> string \<Rightarrow> int \<Rightarrow> json_obj \<Rightarrow> json_value json_status" where
  "put_number env name i \<equiv> \<lambda>obj. json_object_dotset_number (json_mem env) (Some obj) name (double_of_int i)"

abbreviation (input) put_string :: "avnet_env \<Rightarrow> string \<Rightarrow> string option \<Rightarrow> json_obj \<Rightarrow> json_value json_status" where
  "put_string env name s \<equiv> \<lambda>obj. json_object_dotset_string (json_mem env) (Some obj) name s"

text \<open>\<open>strnlen(text, limit)\<close> bytes are published; strnlen of NULL crashes.\<close>

definition publish_object :: "avnet_env \<Rightarrow> nat \<Rightarrow> json_obj \<Rightarrow> avnet \<Rightarrow> avnet option" where
  "publish_object env limit obj st = do {
     t \<leftarrow> json_serialize_to_string True (Some (JObject obj));
     Some (st\<lparr>av_hub := snd (dx_azurePublish (hub_env env) (Some t) (strnlen t limit) [] None (av_hub st)), av_tx := av_tx st @ [t]\<rparr>)
   }"

definition IoTCSend200HelloMessage :: "avnet_env \<Rightarrow> avnet \<Rightarrow> avnet option" where
  "IoTCSend200HelloMessage env st =
     publish_object env 64 (set_members [put_number env ''mt'' 200, put_number env ''v'' 2] json_object_make) st"

definition IoTCrequestChildDeviceInfo :: "avnet_env \<Rightarrow> avnet \<Rightarrow> avnet option" where
  "IoTCrequestChildDeviceInfo env st =
     publish_object env 128
       (set_members [put_number env ''mt'' 204, put_string env ''sid'' (Some (cstr (sidString st)))] json_object_make) st"

definition IoTCSend221AddChildMessage ::
    "avnet_env \<Rightarrow> string option \<Rightarrow> string option \<Rightarrow> string option \<Rightarrow> avnet \<Rightarrow> avnet option" where
  "IoTCSend221AddChildMessage env ident tag displayName st =
     publish_object env 512
       (set_members
          [put_string env ''t'' (Some (utc env)), put_number env ''mt'' 221,
           put_string env ''sid'' (Some (cstr (sidString st))),
           put_string env ''d.g'' (Some (cstr (deviceGUID st))), put_string env ''d.dn'' displayName,
           put_string env ''d.id'' ident, put_string env ''d.eg'' (Some (cstr (entityGUID st))),
           put_string env ''d.dtg'' (Some (cstr (dtgGUID st))), put_string env ''d.tg'' tag] json_object_make) st"

text \<open>
  The strings of a node: a tag without a NUL in its field goes on in the id, which comes next in the
  node; what follows an id without a NUL is not known, and reading it is a crash here.
\<close>

definition child_tg_text :: "child_node \<Rightarrow> string option" where
  "child_tg_text n = (if NUL \<in> set (child_tg n @ child_id n) then Some (cstr (child_tg n @ child_id n)) else None)"

definition child_id_text :: "child_node \<Rightarrow> string option" where
  "child_id_text n = (if NUL \<in> set (child_id n) then Some (cstr (child_id n)) else None)"

definition IoTCSend222DeleteChildMessage :: "avnet_env \<Rightarrow> nat \<Rightarrow> avnet \<Rightarrow> avnet option" where
  "IoTCSend222DeleteChildMessage env node st = do {
     n \<leftarrow> gw_heap st node;
     ident \<leftarrow> child_id_text n;
     publish_object env 512
       (set_members
          [put_string env ''t'' (Some (utc env)), put_number env ''mt'' 222,
           put_string env ''sid'' (Some (cstr (sidString st))),
           put_string env ''d.g'' (Some (cstr (deviceGUID st))), put_string env ''d.id'' (Some ident)] json_object_make) st
   }"

definition dx_avnetCreateChildOnIoTConnect ::
    "avnet_env \<Rightarrow> string option \<Rightarrow> string option \<Rightarrow> string option \<Rightarrow> avnet \<Rightarrow> avnet option" where
  "dx_avnetCreateChildOnIoTConnect env ident tag dn st = IoTCSend221AddChildMessage env ident tag dn st"

definition dx_avnetDeleteChildOnIoTConnect :: "avnet_env \<Rightarrow> string option \<Rightarrow> avnet \<Rightarrow> avnet option" where
  "dx_avnetDeleteChildOnIoTConnect env ident st = do {
     node \<leftarrow> IoTCListFindNodeById ident st;
     (case node of None \<Rightarrow> Some st | Some a \<Rightarrow> IoTCSend222DeleteChildMessage env a st)
   }"

section \<open>Connecting\<close>

definition AvnetReconnectCallback :: "avnet_env \<Rightarrow> bool \<Rightarrow> avnet \<Rightarrow> avnet option" where
  "AvnetReconnectCallback env is_connected st = do {
     st1 \<leftarrow> IoTCSend200HelloMessage env (st\<lparr>avnetConnected := False\<rparr>);
     Some (st1\<lparr>av_hub := snd (dx_timerChange (av_timer st1) \<lparr>tv_sec = 15, tv_nsec = 0\<rparr> (av_hub st1))\<rparr>)
   }"

definition MonitorAvnetConnectionHandler :: "avnet_env \<Rightarrow> avnet \<Rightarrow> avnet option" where
  "MonitorAvnetConnectionHandler env st =
     (if \<not> avnetConnected st then
        (case dx_isAzureConnected (hub_env env) (av_hub st) of
           (is_connected, hub) \<Rightarrow>
             if is_connected then IoTCSend200HelloMessage env (st\<lparr>av_hub := hub\<rparr>) else Some (st\<lparr>av_hub := hub\<rparr>))
      else Some st)"

definition dx_avnetConnect :: "avnet_env \<Rightarrow> user_config \<Rightarrow> string option \<Rightarrow> avnet \<Rightarrow> avnet" where
  "dx_avnetConnect env config interface st =
     (case dx_timerStart (av_hub st) (av_timer st) of
        (ok, timer, hub) \<Rightarrow>
          let hub1 = (if \<not> ok then dx_terminate DX_ExitCode_Init_IoTCTimer hub else hub);
              hub2 = snd (dx_azureRegisterConnectionChangedNotification AVNET_RECONNECT hub1);
              hub3 = dx_azureRegisterMessageReceivedNotification (Some AVNET_MESSAGE) hub2
          in st\<lparr>av_timer := timer, av_hub := dx_azureConnect (hub_env env) config interface None hub3\<rparr>)"

definition dx_isAvnetConnected :: "avnet \<Rightarrow> bool" where
  "dx_isAvnetConnected st = avnetConnected st"

section \<open>Receiving\<close>

text \<open>A member that is there is copied as a string; one that is no string is NULL and crashes in strncpy.\<close>

definition copy_member :: "json_obj \<Rightarrow> string \<Rightarrow> char list \<Rightarrow> nat \<Rightarrow> char list option" where
  "copy_member obj name buf len =
     (if json_object_has_value (Some obj) (Some name) then
        (case json_object_get_string (Some obj) (Some name) of
           None \<Rightarrow> None
         | Some s \<Rightarrow> Some (strncpy buf s len))
      else Some buf)"

text \<open>The members of meta, and whether there was a dtg.\<close>

definition hello_meta :: "json_obj option \<Rightarrow> avnet \<Rightarrow> (avnet \<times> bool) option" where
  "hello_meta meta st =
     (case meta of
        None \<Rightarrow> Some (st, False)
      | Some metaProperties \<Rightarrow> do {
          g \<leftarrow> copy_member metaProperties ''g'' (deviceGUID st) GUID_LEN;
          eg \<leftarrow> copy_member metaProperties ''eg'' (entityGUID st) GUID_LEN;
          dtg \<leftarrow> copy_member metaProperties ''dtg'' (dtgGUID st) GUID_LEN;
          Some (st\<lparr>deviceGUID := g, entityGUID := eg, dtgGUID := dtg\<rparr>,
                json_object_has_value (Some metaProperties) (Some ''dtg''))
        })"

definition hello_decide :: "avnet_env \<Rightarrow> bool \<Rightarrow> bool \<Rightarrow> avnet \<Rightarrow> avnet option" where
  "hello_decide env dtgFlag hasDValue st =
     (if dtgFlag then
        (if strnlen (dtgGUID st) (GUID_LEN + 1) = GUID_LEN \<and> \<not> avnetConnected st then
           (if hasDValue then IoTCrequestChildDeviceInfo env st else Some (st\<lparr>avnetConnected := True\<rparr>))
         else Some st)
      else Some (st\<lparr>avnetConnected := False\<rparr>))"

text \<open>The test of the member ed, before ec is read, only writes to the log.\<close>

definition IoTCProcessHelloResponse :: "avnet_env \<Rightarrow> json_obj \<Rightarrow> avnet \<Rightarrow> (bool \<times> avnet) option" where
  "IoTCProcessHelloResponse env dProperties st =
     (case copy_member dProperties ''sid'' (sidString st) SID_LEN of
        None \<Rightarrow> None
      | Some sid \<Rightarrow>
          let hasProperties = json_object_dotget_object (Some dProperties) ''has'';
              hasDValue = (json_object_has_value hasProperties (Some ''d'') \<and>
                json_object_dotget_boolean hasProperties ''d'' \<noteq> 0)
          in case hello_meta (json_object_dotget_object (Some dProperties) ''meta'') (st\<lparr>sidString := sid\<rparr>) of
               None \<Rightarrow> None
             | Some (st1, dtgFlag) \<Rightarrow> map_option (Pair True) (hello_decide env dtgFlag hasDValue st1))"

text \<open>The loop over the children: one that is known already is deleted before it is added again.\<close>

fun process_children :: "avnet_env \<Rightarrow> json_value list \<Rightarrow> avnet \<Rightarrow> avnet option" where
  "process_children env [] st = Some st"
| "process_children env (v # vs) st =
     (let childEntry = json_value_get_object (Some v);
          ident = json_object_get_string childEntry (Some ''id'');
          tag = json_object_get_string childEntry (Some ''tg'')
      in do {
        known \<leftarrow> IoTCListFindNodeById ident st;
        st1 \<leftarrow> (if known \<noteq> None then map_option snd (IoTCListDeleteNodeById ident st) else Some st);
        (added, st2) \<leftarrow> IoTCListAddChild (node_mem env) ident tag st1;
        let st3 = (if \<not> added then st2\<lparr>av_hub := dx_terminate DX_ExitCode_Avnet_Add_Child_Failed (av_hub st2)\<rparr> else st2);
        process_children env vs st3
      })"

definition IoTCProcess204Response :: "avnet_env \<Rightarrow> json_obj \<Rightarrow> avnet \<Rightarrow> (bool \<times> avnet) option" where
  "IoTCProcess204Response env dProperties st =
     (if json_object_has_value (Some dProperties) (Some ''d'') then
        (case json_object_dotget_array (Some dProperties) ''d'' of
           None \<Rightarrow> Some (True, st)
         | Some gwArray \<Rightarrow>
             map_option (\<lambda>st1. (True, st1\<lparr>avnetConnected := True\<rparr>)) (process_children env (array_items gwArray) st))
      else Some (True, st))"

definition IoTCProcess221Response :: "avnet_env \<Rightarrow> json_obj \<Rightarrow> avnet \<Rightarrow> (bool \<times> avnet) option" where
  "IoTCProcess221Response env dProperties st =
     (let childProperties = json_object_dotget_object (Some dProperties) ''d'';
          code = to_int env (json_object_dotget_number childProperties ''s'')
      in if code = 0 then
           (case childProperties of
              None \<Rightarrow> Some (False, st)
            | Some child \<Rightarrow>
                if \<not> json_object_has_value (Some child) (Some ''tg'') then Some (False, st)
                else do {
                  tag \<leftarrow> copy_member child ''tg'' (replicate GW_FIELD_LEN NUL) GW_FIELD_LEN;
                  (if \<not> json_object_has_value (Some child) (Some ''id'') then Some (False, st)
                   else do {
                     ident \<leftarrow> copy_member child ''id'' (replicate GW_FIELD_LEN NUL) GW_FIELD_LEN;
                     (added, st1) \<leftarrow> IoTCListAddChild (node_mem env) (Some (cstr ident)) (Some (cstr tag)) st;
                     Some (True, st1)
                   })
                })
         else Some (True, st))"

definition IoTCProcess222Response :: "avnet_env \<Rightarrow> json_obj \<Rightarrow> avnet \<Rightarrow> (bool \<times> avnet) option" where
  "IoTCProcess222Response env dProperties st =
     (case json_object_dotget_object (Some dProperties) ''d'' of
        None \<Rightarrow> Some (False, st)
      | Some child \<Rightarrow>
          if to_int env (json_object_dotget_number (Some child) ''s'') = 0 then
            (if \<not> json_object_has_value (Some child) (Some ''tg'') then Some (False, st)
             else do {
               tag \<leftarrow> copy_member child ''tg'' (replicate GW_FIELD_LEN NUL) GW_FIELD_LEN;
               (if \<not> json_object_has_value (Some child) (Some ''id'') then Some (False, st)
                else do {
                  ident \<leftarrow> copy_member child ''id'' (replicate GW_FIELD_LEN NUL) GW_FIELD_LEN;
                  (deleted, st1) \<leftarrow> IoTCListDeleteNodeById (Some (cstr ident)) st;
                  Some (True, st1)
                })
             })
          else Some (True, st))"

datatype disposition = IOTHUBMESSAGE_ACCEPTED | IOTHUBMESSAGE_REJECTED

text \<open>The bytes of the message, None when the SDK does not give them.\<close>

definition ReceiveMessageCallback :: "avnet_env \<Rightarrow> char list option \<Rightarrow> avnet \<Rightarrow> (disposition \<times> avnet) option" where
  "ReceiveMessageCallback env message st =
     (case message of
        None \<Rightarrow> Some (IOTHUBMESSAGE_REJECTED, st)
      | Some bytes \<Rightarrow>
          if \<not> copy_mem env then None
          else
            (case json_parse_string (json_mem env) (Some (cstr (bytes @ [NUL]))) of
               None \<Rightarrow> Some (IOTHUBMESSAGE_ACCEPTED, st)
             | Some rootMessage \<Rightarrow>
                 (case json_object_dotget_object (json_value_get_object (Some rootMessage)) ''d'' of
                    None \<Rightarrow> Some (IOTHUBMESSAGE_ACCEPTED, st)
                  | Some dProperties \<Rightarrow>
                      let ctVal = (if json_object_has_value (Some dProperties) (Some ''ct'')
                                   then to_int env (json_object_get_number (Some dProperties) (Some ''ct'')) else -1)
                      in map_option (\<lambda>(_, st1). (IOTHUBMESSAGE_ACCEPTED, st1))
                           (if ctVal = 200 then IoTCProcessHelloResponse env dProperties st
                            else if ctVal = 204 then IoTCProcess204Response env dProperties st
                            else if ctVal = 221 then IoTCProcess221Response env dProperties st
                            else if ctVal = 222 then IoTCProcess222Response env dProperties st
                            else Some (True, st)))))"

section \<open>Telemetry\<close>

text \<open>The two formats.\<close>

definition telemetry_text :: "string \<Rightarrow> string \<Rightarrow> string \<Rightarrow> string" where
  "telemetry_text sid dtg body =
     ''{'' @ quoted ''sid'' @ '':'' @ quoted sid @ '','' @ quoted ''dtg'' @ '':'' @ quoted dtg @ '','' @ quoted ''mt'' @ '':0,'' @
     quoted ''d'' @ '':[{'' @ quoted ''d'' @ '':'' @ body @ ''}]}''"

definition gw_telemetry_text :: "string \<Rightarrow> string \<Rightarrow> string \<Rightarrow> string \<Rightarrow> string \<Rightarrow> string" where
  "gw_telemetry_text sid dtg ident tag body =
     ''{'' @ quoted ''sid'' @ '':'' @ quoted sid @ '','' @ quoted ''dtg'' @ '':'' @ quoted dtg @ '','' @ quoted ''mt'' @ '':0,'' @
     quoted ''d'' @ '':[{'' @ quoted ''id'' @ '':'' @ quoted ident @ '','' @ quoted ''tg'' @ '':'' @ quoted tag @ '','' @
     quoted ''d'' @ '':'' @ body @ ''}]}''"

definition dx_avnetJsonSerializePayload ::
    "avnet_env \<Rightarrow> string option \<Rightarrow> char list \<Rightarrow> nat \<Rightarrow> nat option \<Rightarrow> avnet \<Rightarrow> (bool \<times> char list) option" where
  "dx_avnetJsonSerializePayload env original buffer modifiedBufferSize childDevice st =
     (case json_parse_string (json_mem env) original of
        None \<Rightarrow> Some (False, buffer)
      | Some _ \<Rightarrow>
          let body = (case original of None \<Rightarrow> [] | Some s \<Rightarrow> s);
              maxModifiedMessageSize = length body + IOT_CONNECT_METADATA
          in if maxModifiedMessageSize > modifiedBufferSize then Some (False, buffer)
             else
               (case childDevice of
                  Some a \<Rightarrow> do {
                    n \<leftarrow> gw_heap st a;
                    ident \<leftarrow> child_id_text n;
                    tag \<leftarrow> child_tg_text n;
                    Some (True, snprintf buffer maxModifiedMessageSize
                      (gw_telemetry_text (cstr (sidString st)) (cstr (dtgGUID st)) ident tag body))
                  }
                | None \<Rightarrow>
                    Some (True, snprintf buffer maxModifiedMessageSize
                      (telemetry_text (cstr (sidString st)) (cstr (dtgGUID st)) body))))"

definition avnet_set_pair :: "avnet_env \<Rightarrow> string \<times> json_arg \<Rightarrow> json_obj \<Rightarrow> json_value json_status" where
  "avnet_set_pair env = (\<lambda>(key, arg) obj.
     let keyBuffer = cstr (snprintf (replicate JSON_BUFFER_SIZE NUL) JSON_BUFFER_SIZE (''d.'' @ key)) in
     case arg of
       DX_JSON_BOOL b \<Rightarrow> json_object_dotset_boolean (json_mem env) (Some obj) keyBuffer b
     | DX_JSON_FLOAT x \<Rightarrow> json_object_dotset_number (json_mem env) (Some obj) keyBuffer x
     | DX_JSON_DOUBLE x \<Rightarrow> json_object_dotset_number (json_mem env) (Some obj) keyBuffer x
     | DX_JSON_INT i \<Rightarrow> json_object_dotset_number (json_mem env) (Some obj) keyBuffer (double_of_int i)
     | DX_JSON_STRING s \<Rightarrow> json_object_dotset_string (json_mem env) (Some obj) keyBuffer s)"

text \<open>\<open>copy_mem\<close> grants the buffer for the keys.\<close>

definition dx_avnetJsonSerialize ::
    "avnet_env \<Rightarrow> char list \<Rightarrow> nat \<Rightarrow> nat option \<Rightarrow> (string \<times> json_arg) list \<Rightarrow> avnet \<Rightarrow> (bool \<times> char list) option" where
  "dx_avnetJsonSerialize env buffer bufferSize childDevice pairs st =
     (if \<not> copy_mem env then Some (False, buffer)
      else do {
        let root = set_members [put_string env ''sid'' (Some (cstr (sidString st))),
              put_string env ''dtg'' (Some (cstr (dtgGUID st))), put_number env ''mt'' 0] json_object_make;
        child \<leftarrow>
          (case childDevice of
             None \<Rightarrow> Some []
           | Some a \<Rightarrow> do {
               n \<leftarrow> gw_heap st a;
               ident \<leftarrow> child_id_text n;
               tag \<leftarrow> child_tg_text n;
               Some [put_string env ''id'' (Some ident), put_string env ''tg'' (Some tag)]
             });
        let item = set_members (child @ map (avnet_set_pair env) pairs) json_object_make;
        let items = (case json_array_append_value (json_mem env) (Some json_array_make) (Some (JObject item)) False of
                       Inl _ \<Rightarrow> json_array_make | Inr a \<Rightarrow> a);
        let root' = set_members [\<lambda>obj. object_dotset_value (json_mem env) (Some obj) ''d'' (Some (JArray items)) False] root;
        json \<leftarrow> json_serialize_to_string True (Some (JObject root'));
        (if length json < bufferSize then Some (True, strncpy buffer json bufferSize) else Some (False, buffer))
      })"

section \<open>Runs\<close>

text \<open>
  The steps of the connection below, the calls of the application, the callbacks, and the monitor, which the
  event loop runs once its timer has been started.  An operation that crashes has no step.
\<close>

datatype avnet_op =
    Hub_Op azure_op
  | Avnet_Connect avnet_env user_config "string option"
  | Reconnected avnet_env bool
  | Monitor avnet_env
  | C2D_Message avnet_env "char list option"
  | Create_Child avnet_env "string option" "string option" "string option"
  | Remove_Child avnet_env "string option"

inductive avnet_step :: "avnet \<Rightarrow> avnet_op \<Rightarrow> avnet \<Rightarrow> bool" where
  hub: "azure_step (av_hub st) op hub' \<Longrightarrow> avnet_step st (Hub_Op op) (st\<lparr>av_hub := hub'\<rparr>)"
| start: "avnet_step st (Avnet_Connect env config interface) (dx_avnetConnect env config interface st)"
| reconnected: "AvnetReconnectCallback env b st = Some st' \<Longrightarrow> avnet_step st (Reconnected env b) st'"
| monitor: "Uv_Timer_Start monitor_name t r \<in> set (uv_calls (av_hub st)) \<Longrightarrow>
    MonitorAvnetConnectionHandler env st = Some st' \<Longrightarrow> avnet_step st (Monitor env) st'"
| message: "ReceiveMessageCallback env msg st = Some (disp, st') \<Longrightarrow> avnet_step st (C2D_Message env msg) st'"
| create: "dx_avnetCreateChildOnIoTConnect env i t n st = Some st' \<Longrightarrow> avnet_step st (Create_Child env i t n) st'"
| remove: "dx_avnetDeleteChildOnIoTConnect env i st = Some st' \<Longrightarrow> avnet_step st (Remove_Child env i) st'"

inductive_cases avnet_monitorE: "avnet_step st (Monitor env) st'"

section \<open>The invariant\<close>

text \<open>A static buffer for a string of at most \<open>n\<close> characters ends with a NUL that is never overwritten.\<close>

definition field_ok :: "nat \<Rightarrow> char list \<Rightarrow> bool" where
  "field_ok n b \<longleftrightarrow> length b = Suc n \<and> b ! n = NUL"

lemma field_ok_strncpy [simp]: "field_ok n b \<Longrightarrow> field_ok n (strncpy b s n)"
proof -
  assume b: "field_ok n b"
  define t where "t = take n (s @ replicate n NUL)"
  have "length t = n" by (simp add: t_def)
  moreover have "strncpy b s n = t @ drop n b" by (simp only: strncpy_def t_def)
  ultimately show ?thesis using b by (simp add: field_ok_def nth_append)
qed

lemma field_ok_copy: "copy_member obj name b n = Some b' \<Longrightarrow> field_ok n b \<Longrightarrow> field_ok n b'"
  by (auto simp: copy_member_def split: if_splits option.splits)

lemma field_ok_text: "field_ok n b \<Longrightarrow> length (cstr b) \<le> n"
proof -
  assume b: "field_ok n b"
  then have "b = take n b @ [NUL]" by (metis field_ok_def lessI take_Suc_conv_app_nth take_all order_refl)
  then have "cstr b = cstr (take n b)" by (metis cstr_append_NUL)
  moreover have "length (cstr (take n b)) \<le> n" using length_takeWhile_le [of _ "take n b"] by (simp add: cstr_def le_trans)
  ultimately show ?thesis by simp
qed

text \<open>What does not concern the list, and the whole.\<close>

definition rest_ok :: "avnet \<Rightarrow> bool" where
  "rest_ok st \<longleftrightarrow> azure_ok (av_hub st) \<and> clock_ok (av_hub st) \<and>
     tm_name (av_timer st) = monitor_name \<and> tm_delay (av_timer st) = None \<and> tm_repeat (av_timer st) = None \<and>
     field_ok SID_LEN (sidString st) \<and> field_ok GUID_LEN (dtgGUID st) \<and> field_ok GUID_LEN (deviceGUID st) \<and>
     field_ok GUID_LEN (entityGUID st)"

definition avnet_ok :: "avnet \<Rightarrow> bool" where
  "avnet_ok st \<longleftrightarrow> rest_ok st \<and> (\<exists>xs. represents st xs)"

lemma rest_ok_more: "children.more st' = children.more st \<Longrightarrow> rest_ok st' = rest_ok st"
  by (cases st; cases st'; simp add: rest_ok_def)

lemma avnet_ok_boot: "avnet_ok avnet_boot"
  by (auto simp: avnet_ok_def rest_ok_def avnet_boot_def azure_ok_boot clock_boot idle_timer_def field_ok_def
      represents_def nodes_of_def fields_ok_def)

lemma represents_updates [simp]:
  "represents (st\<lparr>av_hub := h\<rparr>) xs = represents st xs" "represents (st\<lparr>av_timer := t\<rparr>) xs = represents st xs"
  "represents (st\<lparr>sidString := s\<rparr>) xs = represents st xs" "represents (st\<lparr>dtgGUID := s\<rparr>) xs = represents st xs"
  "represents (st\<lparr>deviceGUID := s\<rparr>) xs = represents st xs" "represents (st\<lparr>entityGUID := s\<rparr>) xs = represents st xs"
  "represents (st\<lparr>avnetConnected := b\<rparr>) xs = represents st xs" "represents (st\<lparr>av_tx := l\<rparr>) xs = represents st xs"
  by (simp_all add: represents_def nodes_of_def)

lemma avnet_ok_updates [simp]:
  "avnet_ok (st\<lparr>avnetConnected := b\<rparr>) = avnet_ok st" "avnet_ok (st\<lparr>av_tx := l\<rparr>) = avnet_ok st"
  by (simp_all add: avnet_ok_def rest_ok_def)

lemma avnet_ok_hub: "avnet_ok st \<Longrightarrow> azure_ok h \<Longrightarrow> clock_ok h \<Longrightarrow> avnet_ok (st\<lparr>av_hub := h\<rparr>)"
  by (simp add: avnet_ok_def rest_ok_def)

lemma avnet_ok_hubD: "avnet_ok st \<Longrightarrow> azure_ok (av_hub st) \<and> clock_ok (av_hub st)"
  by (simp add: avnet_ok_def rest_ok_def)

text \<open>The steps of the connection keep its two invariants.\<close>

lemma hub_step_ok: "azure_step h op h' \<Longrightarrow> azure_ok h \<and> clock_ok h \<Longrightarrow> azure_ok h' \<and> clock_ok h'"
  using azure_runs.step_inv azure_clock.step_inv by blast

lemmas hub_ok =
  hub_step_ok [OF azure_step.connect] hub_step_ok [OF azure_step.ask] hub_step_ok [OF azure_step.publish]
  hub_step_ok [OF azure_step.register_status] hub_step_ok [OF azure_step.register_message]

lemma publish_object_ok: "publish_object env limit obj st = Some st' \<Longrightarrow> avnet_ok st \<Longrightarrow> avnet_ok st'"
  using hub_ok(3) [of "av_hub st" "hub_env env" _ _ "[]" None] avnet_ok_hubD [of st]
  by (auto simp: publish_object_def bind_eq_Some_conv intro!: avnet_ok_hub)

lemma send_ok:
  "IoTCSend200HelloMessage env st = Some st' \<Longrightarrow> avnet_ok st \<Longrightarrow> avnet_ok st'"
  "IoTCrequestChildDeviceInfo env st = Some st' \<Longrightarrow> avnet_ok st \<Longrightarrow> avnet_ok st'"
  "dx_avnetCreateChildOnIoTConnect env i t n st = Some st' \<Longrightarrow> avnet_ok st \<Longrightarrow> avnet_ok st'"
  "dx_avnetDeleteChildOnIoTConnect env i st = Some st' \<Longrightarrow> avnet_ok st \<Longrightarrow> avnet_ok st'"
  unfolding IoTCSend200HelloMessage_def IoTCrequestChildDeviceInfo_def dx_avnetCreateChildOnIoTConnect_def
    IoTCSend221AddChildMessage_def dx_avnetDeleteChildOnIoTConnect_def IoTCSend222DeleteChildMessage_def
  by (auto simp: bind_eq_Some_conv split: option.splits intro: publish_object_ok)

text \<open>The list operations keep the rest of the state.\<close>

lemma more_new: "IoTCListGetNewNode mem i t st = Some (a, st') \<Longrightarrow> children.more st' = children.more st"
  by (auto simp: IoTCListGetNewNode_def bind_eq_Some_conv Let_def split: if_splits)

lemma more_insert: "IoTCListInsertNode mem i t st = Some (a, st') \<Longrightarrow> children.more st' = children.more st"
proof -
  assume *: "IoTCListInsertNode mem i t st = Some (a, st')"
  obtain new st1 where n: "IoTCListGetNewNode mem i t st = Some (new, st1)"
    using * by (auto simp: IoTCListInsertNode_def bind_eq_Some_conv)
  then show ?thesis using * more_new [OF n]
    by (cases "gw_head st1") (auto simp: IoTCListInsertNode_def bind_eq_Some_conv Let_def)
qed

lemma more_delete: "IoTCListDeleteNode p st = Some (b, st') \<Longrightarrow> children.more st' = children.more st"
proof -
  assume *: "IoTCListDeleteNode p st = Some (b, st')"
  show ?thesis
  proof (cases p)
    case (Some a)
    then obtain n where n: "gw_heap st a = Some n" using * by (auto simp: IoTCListDeleteNode_def bind_eq_Some_conv)
    show ?thesis using * Some n
      by (cases "next_node n"; cases "gw_head st = Some a") (auto simp: IoTCListDeleteNode_def bind_eq_Some_conv Let_def)
  qed (use * in \<open>simp add: IoTCListDeleteNode_def\<close>)
qed

lemma child_more:
  "IoTCListAddChild mem i t st = Some (b, st') \<Longrightarrow> children.more st' = children.more st"
  "IoTCListDeleteNodeById i st = Some (b, st') \<Longrightarrow> children.more st' = children.more st"
  by (auto simp: IoTCListAddChild_def IoTCListDeleteNodeById_def bind_eq_Some_conv dest: more_insert more_delete)

lemma add_child_ok:
  assumes "IoTCListAddChild mem i t st = Some (b, st')" "represents st xs" "i = Some i' \<longrightarrow> is_cstring i'" "t = Some t' \<longrightarrow> is_cstring t'"
    "i = Some i'" "t = Some t'"
  shows "represents st' (xs @ [(take GW_FIELD_LEN i', take GW_FIELD_LEN t')])"
proof -
  have "mem (gw_brk st)"
    using assms(1) by (auto simp: IoTCListAddChild_def IoTCListInsertNode_def IoTCListGetNewNode_def bind_eq_Some_conv split: if_splits)
  then show ?thesis using insert_represents [of st xs i' t' mem] assms by (auto simp: IoTCListAddChild_def)
qed

lemma get_string_cstring: "json_object_get_string obj name = Some s \<Longrightarrow> is_cstring s"
  by (auto simp: json_object_get_string_def json_value_get_string_def)

lemma add_child_crash: "IoTCListAddChild mem i t st = Some (b, st') \<Longrightarrow> i \<noteq> None \<and> t \<noteq> None"
  by (auto simp: IoTCListAddChild_def IoTCListInsertNode_def IoTCListGetNewNode_def bind_eq_Some_conv split: if_splits)

lemma add_child_avnet_ok:
  fixes st :: avnet
  assumes "IoTCListAddChild mem i t st = Some (b, st')" "avnet_ok st" "\<And>s. i = Some s \<Longrightarrow> is_cstring s" "\<And>s. t = Some s \<Longrightarrow> is_cstring s"
  shows "avnet_ok st'"
proof -
  obtain i' t' where it: "i = Some i'" "t = Some t'" using add_child_crash [OF assms(1)] by blast
  obtain xs where "represents st xs" using assms(2) by (auto simp: avnet_ok_def)
  then have "represents st' (xs @ [(take GW_FIELD_LEN i', take GW_FIELD_LEN t')])"
    using add_child_ok [OF assms(1), of xs i' t'] it assms(3,4) by blast
  then show ?thesis using rest_ok_more [OF child_more(1) [OF assms(1)]] assms(2) by (auto simp: avnet_ok_def)
qed

lemma delete_child_avnet_ok:
  fixes st :: avnet
  assumes "IoTCListDeleteNodeById i st = Some (b, st')" "avnet_ok st"
  shows "avnet_ok st'"
proof -
  obtain xs where xs: "represents st xs" using assms(2) by (auto simp: avnet_ok_def)
  have "\<exists>ys. represents st' ys"
  proof (cases i)
    case None
    then have "gw_head st = None"
      using assms(1) by (auto simp: IoTCListDeleteNodeById_def IoTCListFindNodeById_def find_node.simps bind_eq_Some_conv split: if_splits)
    then have "st' = st" using assms(1) by (simp add: IoTCListDeleteNodeById_def IoTCListFindNodeById_def IoTCListDeleteNode_def)
    then show ?thesis using xs by blast
  next
    case (Some i')
    then show ?thesis using delete_represents [OF xs, of i'] assms(1) by auto
  qed
  then show ?thesis using rest_ok_more [OF child_more(2) [OF assms(1)]] assms(2) by (auto simp: avnet_ok_def)
qed

lemma process_children_ok: "process_children env vs st = Some st' \<Longrightarrow> avnet_ok st \<Longrightarrow> avnet_ok st'"
proof (induction vs arbitrary: st)
  case (Cons v vs)
  let ?e = "json_value_get_object (Some v)"
  let ?i = "json_object_get_string ?e (Some ''id'')" and ?t = "json_object_get_string ?e (Some ''tg'')"
  obtain known st1 added st2 where k: "IoTCListFindNodeById ?i st = Some known"
    "(if known \<noteq> None then map_option snd (IoTCListDeleteNodeById ?i st) else Some st) = Some st1"
    "IoTCListAddChild (node_mem env) ?i ?t st1 = Some (added, st2)"
    and more: "process_children env vs
      (if \<not> added then st2\<lparr>av_hub := dx_terminate DX_ExitCode_Avnet_Add_Child_Failed (av_hub st2)\<rparr> else st2) = Some st'"
    using Cons.prems(1) by (auto simp: bind_eq_Some_conv Let_def simp del: not_None_eq)
  have "avnet_ok st1" using k(2) Cons.prems(2) by (auto intro: delete_child_avnet_ok split: if_splits)
  then have "avnet_ok st2" using add_child_avnet_ok [OF k(3)] get_string_cstring by blast
  moreover have "added" using k(3) by (auto simp: IoTCListAddChild_def)
  ultimately show ?case using Cons.IH more by simp
qed simp

lemma copied_cstring: "copy_member obj name b n = Some b' \<Longrightarrow> is_cstring (cstr b')"
  by simp

lemma hello_meta_ok: "hello_meta meta st = Some (st', flag) \<Longrightarrow> avnet_ok st \<Longrightarrow> avnet_ok st'"
  by (auto simp: hello_meta_def bind_eq_Some_conv avnet_ok_def rest_ok_def dest: field_ok_copy split: option.splits)

lemma hello_decide_ok: "hello_decide env flag has st = Some st' \<Longrightarrow> avnet_ok st \<Longrightarrow> avnet_ok st'"
  by (auto simp: hello_decide_def dest: send_ok(2) split: if_splits)

lemma hello_ok:
  assumes "IoTCProcessHelloResponse env d st = Some (b, st')" "avnet_ok st"
  shows "avnet_ok st'"
proof -
  obtain sid where sid: "copy_member d ''sid'' (sidString st) SID_LEN = Some sid"
    using assms(1) by (auto simp: IoTCProcessHelloResponse_def split: option.splits)
  then have "avnet_ok (st\<lparr>sidString := sid\<rparr>)" using field_ok_copy [OF sid] assms(2) by (simp add: avnet_ok_def rest_ok_def)
  then show ?thesis using assms(1) sid
    by (auto simp: IoTCProcessHelloResponse_def Let_def split: option.splits dest: hello_meta_ok hello_decide_ok)
qed

lemma response_ok:
  assumes "avnet_ok st"
  shows "IoTCProcess204Response env d st = Some (b, st') \<Longrightarrow> avnet_ok st'"
    and "IoTCProcess221Response env d st = Some (b, st') \<Longrightarrow> avnet_ok st'"
    and "IoTCProcess222Response env d st = Some (b, st') \<Longrightarrow> avnet_ok st'"
  using assms
  by (auto simp: IoTCProcess204Response_def IoTCProcess221Response_def IoTCProcess222Response_def Let_def bind_eq_Some_conv
      split: if_splits option.splits dest: process_children_ok intro: add_child_avnet_ok delete_child_avnet_ok)

lemma message_ok: "ReceiveMessageCallback env msg st = Some (disp, st') \<Longrightarrow> avnet_ok st \<Longrightarrow> avnet_ok st'"
  by (auto simp: ReceiveMessageCallback_def Let_def split: if_splits option.splits dest: hello_ok response_ok)

lemma connect_ok:
  assumes "avnet_ok st"
  shows "avnet_ok (dx_avnetConnect env config interface st)"
proof -
  obtain ok timer h where s: "dx_timerStart (av_hub st) (av_timer st) = (ok, timer, h)" by (metis prod.exhaust)
  have t: "tm_delay (av_timer st) = None" "tm_repeat (av_timer st) = None" "tm_name (av_timer st) = monitor_name"
    using assms by (simp_all add: avnet_ok_def rest_ok_def)
  have "clock_ok h" using clock_start(1) [OF s] t avnet_ok_hubD [OF assms] by blast
  moreover have "azure_ok h"
    using avnet_ok_hubD [OF assms] net_more s azure_ok_more by (metis fst_conv snd_conv)
  moreover have timer: "tm_name timer = monitor_name" "tm_delay timer = None" "tm_repeat timer = None"
    using s t by (auto simp: dx_timerStart_def split: if_splits)
  moreover have "azure_ok (dx_terminate code g) = azure_ok g" for code g by (intro azure_ok_more) simp
  ultimately have "azure_ok h2 \<and> clock_ok h2"
    if "h2 = dx_azureConnect (hub_env env) config interface None (dx_azureRegisterMessageReceivedNotification (Some AVNET_MESSAGE)
      (snd (dx_azureRegisterConnectionChangedNotification AVNET_RECONNECT
        (if \<not> ok then dx_terminate DX_ExitCode_Init_IoTCTimer h else h))))" for h2
    unfolding that by (intro hub_ok(1) hub_ok(4) hub_ok(5)) simp
  then show ?thesis
    using assms timer unfolding dx_avnetConnect_def s prod.case Let_def by (simp add: avnet_ok_def rest_ok_def)
qed

lemma avnet_step_ok: "avnet_step st op st' \<Longrightarrow> avnet_ok st \<Longrightarrow> avnet_ok st'"
proof (induction rule: avnet_step.induct)
  case (hub st op hub')
  then show ?case using hub_step_ok avnet_ok_hubD avnet_ok_hub by blast
next
  case (start st env config interface)
  then show ?case by (intro connect_ok)
next
  case (reconnected env b st st')
  then obtain st1 where st1: "IoTCSend200HelloMessage env (st\<lparr>avnetConnected := False\<rparr>) = Some st1"
    "st' = st1\<lparr>av_hub := snd (dx_timerChange (av_timer st1) \<lparr>tv_sec = 15, tv_nsec = 0\<rparr> (av_hub st1))\<rparr>"
    by (auto simp: AvnetReconnectCallback_def bind_eq_Some_conv)
  then have "avnet_ok st1" using send_ok(1) reconnected by simp
  moreover have "azure_ok (snd (dx_timerChange t p h)) = azure_ok h" for t p h by (intro azure_ok_more) (simp add: dx_timerChange_def)
  ultimately show ?case using avnet_ok_hubD [of st1] unfolding st1(2) by (intro avnet_ok_hub) simp_all
next
  case (monitor t r st env st')
  then show ?case using hub_ok(2) [of "av_hub st" "hub_env env"] avnet_ok_hubD [of st]
    by (auto simp: MonitorAvnetConnectionHandler_def split_beta split: if_splits intro: avnet_ok_hub dest!: send_ok(1))
next
  case (message env msg st disp st')
  then show ?case by (rule message_ok)
next
  case (create env i t n st st')
  then show ?case by (rule send_ok(3))
next
  case (remove env i st st')
  then show ?case by (rule send_ok(4))
qed

interpretation avnet_runs: stable avnet_step avnet_ok
  by unfold_locales (rule avnet_step_ok)

end
