(* ===== verification/Dx_Avnet_Properties.thy ===== *)
theory Dx_Avnet_Properties
  imports Dx_Avnet
begin

text \<open>
  The properties of the connection to IoTConnect: what holds in every state the program can reach, what the
  platform's responses do, and the telemetry.
\<close>

section \<open>Every reachable state\<close>

text \<open>
  C12: in every state that the application's calls, the platform's messages and the connection to Azure below can lead to,
  the identifiers received fit their buffers, the heap holds a well linked list of children and nothing else,
  and the clients of the Azure SDK that are alive are those of the two handles.
\<close>

theorem avnet_state_ok:
  assumes "run avnet_step avnet_boot ops st"
  shows "length (cstr (sidString st)) \<le> SID_LEN \<and> length (cstr (dtgGUID st)) \<le> GUID_LEN \<and>
    length (cstr (deviceGUID st)) \<le> GUID_LEN \<and> length (cstr (entityGUID st)) \<le> GUID_LEN \<and> (\<exists>xs. represents st xs) \<and>
    hubs (av_hub st) = (case iothubClientHandle (av_hub st) of None \<Rightarrow> [] | Some h \<Rightarrow> [h]) \<and>
    provs (av_hub st) = (case prov_handle (av_hub st) of None \<Rightarrow> [] | Some h \<Rightarrow> [h])"
  using avnet_runs.run_inv [OF assms avnet_ok_boot]
  by (auto simp: avnet_ok_def rest_ok_def azure_ok_def dest: field_ok_text split: option.splits)

definition plain_env :: avnet_env where
  "plain_env = \<lparr>hub_env = granting_env, json_mem = (\<lambda>_. True), node_mem = (\<lambda>_. True), copy_mem = True, utc = ''now'', cast_overflow = 0\<rparr>"

lemma avnet_state_ok_witness:
  "\<exists>xs. represents (dx_avnetConnect plain_env dps_config None avnet_boot) xs"
  using avnet_state_ok [of "[Avnet_Connect plain_env dps_config None]" "dx_avnetConnect plain_env dps_config None avnet_boot"]
  by (auto intro: run_one avnet_step.start)

text \<open>
  C32: the monitor that is to repeat the hello message every 15 seconds never runs: its timer is only
  initialised and given a period, and nothing starts it, whatever the program does.
\<close>

theorem avnet_monitor_never_runs:
  assumes "run avnet_step avnet_boot ops st"
  shows "Monitor env \<notin> set ops \<and> Uv_Timer_Start monitor_name t r \<notin> set (uv_calls (av_hub st))"
proof -
  have idle: "Uv_Timer_Start monitor_name t r \<notin> set (uv_calls (av_hub st))" if "avnet_ok st" for st t r
    using that by (auto simp: avnet_ok_def rest_ok_def clock_ok_def starts_only_def monitor_name_def azure_timer_names_def)
  have "run avnet_step st0 ops st \<Longrightarrow> avnet_ok st0 \<Longrightarrow> Monitor env \<notin> set ops" for st0
  proof (induction rule: run.induct)
    case (run_cons s l s1 ls s2)
    have "l \<noteq> Monitor env" using run_cons.hyps(1) idle [OF run_cons.prems] by (auto elim: avnet_monitorE)
    then show ?case using run_cons avnet_runs.step_inv by auto
  qed simp
  then show ?thesis using assms avnet_ok_boot idle avnet_runs.run_inv [OF assms avnet_ok_boot] by blast
qed

lemma avnet_monitor_never_runs_witness:
  "Uv_Timer_Start monitor_name 15000 15000 \<notin> set (uv_calls (av_hub (dx_avnetConnect plain_env dps_config None avnet_boot)))"
  using avnet_monitor_never_runs [OF run_one, OF avnet_step.start] by blast

section \<open>Responses\<close>

lemma publish_object_defined:
  "\<exists>st'. publish_object env limit obj st = Some st' \<and> av_tx st' \<noteq> av_tx st \<and> avnetConnected st' = avnetConnected st \<and>
     sidString st' = sidString st \<and> dtgGUID st' = dtgGUID st"
  by (simp add: publish_object_def json_serialize_to_string_def json_serialize_to_buffer_def json_serialization_size_def)

lemma copy_string:
  assumes "json_object_get_string (Some obj) (Some name) = Some s" "field_ok n b"
  shows "\<exists>b'. copy_member obj name b n = Some b' \<and> cstr b' = take n s"
proof -
  have "json_object_has_value (Some obj) (Some name)"
    using assms(1) by (auto simp: json_object_get_string_def json_value_get_string_def json_value_get_string_desc_def
        json_object_has_value_def split: option.splits)
  moreover have "cstr (strncpy b s n) = take n s"
  proof -
    have "is_cstring s" using assms(1) by (rule get_string_cstring)
    moreover have "drop n b = [NUL]" using assms(2) by (metis field_ok_def Cons_nth_drop_Suc drop_all lessI order_refl)
    moreover obtain k where "take n (s @ replicate n NUL) = take n s @ replicate k NUL" by (simp add: take_replicate)
    ultimately show ?thesis by (cases k) (simp_all add: strncpy_def is_cstring_take)
  qed
  ultimately show ?thesis using assms(1) by (simp add: copy_member_def)
qed

text \<open>
  A complete hello response stores the identifiers.  A device that is not connected is connected at once when
  the member d of has is missing or the boolean false; with any other value, the number 0 of the platform's
  example included, it asks for its children instead and stays unconnected until their list arrives.
\<close>

theorem avnet_hello_connects:
  assumes "rest_ok st" "\<not> avnetConnected st" "json_object_get_string (Some d) (Some ''sid'') = Some sid"
    "json_object_get_object (Some d) (Some ''meta'') = Some m" "json_object_get_string (Some m) (Some ''g'') = Some g"
    "json_object_get_string (Some m) (Some ''eg'') = Some eg" "json_object_get_string (Some m) (Some ''dtg'') = Some dtg"
    "length dtg = GUID_LEN"
  shows "\<exists>st'. IoTCProcessHelloResponse env d st = Some (True, st') \<and> cstr (sidString st') = take SID_LEN sid \<and> cstr (dtgGUID st') = dtg \<and>
    (let children = json_object_get_value (json_object_get_object (Some d) (Some ''has'')) (Some ''d'') in
     if children \<in> {None, Some (JBoolean False)} then avnetConnected st' \<and> av_tx st' = av_tx st
     else \<not> avnetConnected st' \<and> av_tx st' \<noteq> av_tx st)"
proof -
  obtain sid' where sid: "copy_member d ''sid'' (sidString st) SID_LEN = Some sid'" "cstr sid' = take SID_LEN sid"
    using copy_string [OF assms(3)] assms(1) by (auto simp: rest_ok_def)
  obtain g' where g: "copy_member m ''g'' (deviceGUID st) GUID_LEN = Some g'"
    using copy_string [OF assms(5)] assms(1) by (auto simp: rest_ok_def)
  obtain eg' where eg: "copy_member m ''eg'' (entityGUID st) GUID_LEN = Some eg'"
    using copy_string [OF assms(6)] assms(1) by (auto simp: rest_ok_def)
  obtain dtg' where dtg: "copy_member m ''dtg'' (dtgGUID st) GUID_LEN = Some dtg'" "cstr dtg' = take GUID_LEN dtg"
    using copy_string [OF assms(7)] assms(1) by (auto simp: rest_ok_def)
  have flag: "json_object_has_value (Some m) (Some ''dtg'')"
    using assms(7) by (auto simp: json_object_get_string_def json_value_get_string_def json_value_get_string_desc_def
        json_object_has_value_def split: option.splits)
  have dots: "dot_position ''meta'' = None" "dot_position ''has'' = None" "dot_position ''d'' = None"
    by (simp_all add: dot_position_def Let_def)
  define st2 where "st2 = st\<lparr>sidString := sid', deviceGUID := g', entityGUID := eg', dtgGUID := dtg'\<rparr>"
  have meta: "hello_meta (json_object_dotget_object (Some d) ''meta'') (st\<lparr>sidString := sid'\<rparr>) = Some (st2, True)"
    using assms(4) g eg dtg(1) flag
    by (simp add: hello_meta_def json_object_dotget_object_def json_object_dotget_value.simps dots st2_def json_object_get_object_def)
  have len: "strnlen (dtgGUID st2) (GUID_LEN + 1) = GUID_LEN"
  proof -
    have "field_ok GUID_LEN dtg'" using field_ok_copy [OF dtg(1)] assms(1) by (simp add: rest_ok_def)
    then have "take (GUID_LEN + 1) dtg' = dtg'" by (simp add: field_ok_def)
    then show ?thesis using dtg(2) assms(8) by (simp add: strnlen_def st2_def)
  qed
  let ?c = "json_object_get_value (json_object_get_object (Some d) (Some ''has'')) (Some ''d'')"
  let ?has = "json_object_has_value (json_object_get_object (Some d) (Some ''has'')) (Some ''d'') \<and>
    json_object_dotget_boolean (json_object_get_object (Some d) (Some ''has'')) ''d'' \<noteq> 0"
  have has: "?has \<longleftrightarrow> ?c \<notin> {None, Some (JBoolean False)}"
  proof (cases ?c)
    case (Some v)
    then show ?thesis
      by (cases v) (simp_all add: json_object_has_value_def json_object_dotget_boolean_def json_object_dotget_value.simps dots
          json_value_get_boolean_def)
  qed (simp add: json_object_has_value_def)
  have res: "IoTCProcessHelloResponse env d st = map_option (Pair True) (hello_decide env True ?has st2)"
    by (simp add: IoTCProcessHelloResponse_def sid(1) meta Let_def)
       (simp add: json_object_dotget_object_def json_object_dotget_value.simps dots json_object_get_object_def)
  have st2: "\<not> avnetConnected st2" "cstr (sidString st2) = take SID_LEN sid" "cstr (dtgGUID st2) = dtg" "av_tx st2 = av_tx st"
    using assms(2,8) sid(2) dtg(2) by (simp_all add: st2_def)
  define h where "h = ?has"
  note has = has [folded h_def] and res = res [folded h_def]
  show ?thesis
  proof (cases h)
    case True
    obtain st' where st': "IoTCrequestChildDeviceInfo env st2 = Some st'" "av_tx st' \<noteq> av_tx st2"
      "avnetConnected st' = avnetConnected st2" "sidString st' = sidString st2" "dtgGUID st' = dtgGUID st2"
      using publish_object_defined unfolding IoTCrequestChildDeviceInfo_def by blast
    then have "hello_decide env True h st2 = Some st'" using len st2(1) True by (simp add: hello_decide_def)
    then show ?thesis using res st' st2 True has by (auto simp: Let_def)
  next
    case False
    then have "hello_decide env True h st2 = Some (st2\<lparr>avnetConnected := True\<rparr>)"
      using len st2(1) by (simp add: hello_decide_def)
    then show ?thesis using res st2 False has by (auto simp: Let_def)
  qed
qed

lemma avnet_hello_connects_witness:
  "\<exists>d st'. IoTCProcessHelloResponse plain_env d avnet_boot = Some (True, st') \<and> \<not> avnetConnected st' \<and>
     json_object_get_value (json_object_get_object (Some d) (Some ''has'')) (Some ''d'') = Some (JNumber (double_of_int 0))"
proof -
  let ?dtg = "replicate 36 (CHR ''9'')"
  obtain has :: json_obj where has: "\<And>k. json_object_get_value (Some has) (Some k) = map_of [(''d'', JNumber (double_of_int 0))] k"
    using object_with [of "[(''d'', JNumber (double_of_int 0))]"] by auto
  obtain m :: json_obj where m: "\<And>k. json_object_get_value (Some m) (Some k) =
      map_of [(''g'', JString ''1''), (''eg'', JString ''2''), (''dtg'', JString ?dtg)] k"
    using object_with [of "[(''g'', JString ''1''), (''eg'', JString ''2''), (''dtg'', JString ?dtg)]"] by auto
  obtain d :: json_obj where d: "\<And>k. json_object_get_value (Some d) (Some k) =
      map_of [(''sid'', JString ''s''), (''meta'', JObject m), (''has'', JObject has)] k"
    using object_with [of "[(''sid'', JString ''s''), (''meta'', JObject m), (''has'', JObject has)]"] by auto
  have "is_cstring ?dtg" by (simp add: is_cstring_def)
  moreover have "rest_ok avnet_boot" using avnet_ok_boot by (simp add: avnet_ok_def)
  moreover have "\<not> avnetConnected avnet_boot" by (simp add: avnet_boot_def)
  ultimately show ?thesis
    using avnet_hello_connects [of avnet_boot d "''s''" m "''1''" "''2''" ?dtg plain_env]
    by (auto simp: json_object_get_string_def json_object_get_object_def d m has json_value_get_string_def
        json_value_get_string_desc_def json_value_get_object_def Let_def intro!: exI [of _ d])
qed

text \<open>
  C29: after the list of children has arrived the device is connected, and every child of the message is in the list
  exactly once, with its new tag, behind the children that the message does not name.
\<close>

theorem avnet_children_replaced:
  assumes "represents st xs" "distinct (map fst xs)" "\<forall>n. node_mem env n"
    "json_object_get_array (Some d) (Some ''d'') = Some arr"
    "map (\<lambda>v. (json_object_get_string (json_value_get_object (Some v)) (Some ''id''),
               json_object_get_string (json_value_get_object (Some v)) (Some ''tg''))) (array_items arr)
       = map (\<lambda>(i, t). (Some i, Some t)) children"
  shows "\<exists>st' ys. IoTCProcess204Response env d st = Some (True, st') \<and> avnetConnected st' \<and> represents st' ys \<and>
    ys = foldl (\<lambda>zs (i, t). remove_key (take GW_FIELD_LEN i) zs @ [(take GW_FIELD_LEN i, take GW_FIELD_LEN t)]) xs children \<and>
    distinct (map fst ys)"
proof -
  let ?put = "\<lambda>zs (i, t). remove_key (take GW_FIELD_LEN i) zs @ [(take GW_FIELD_LEN i, take GW_FIELD_LEN t)]"
  have "\<exists>st'. process_children env vs st = Some st' \<and> represents st' (foldl ?put xs cs) \<and> distinct (map fst (foldl ?put xs cs))"
    if "represents st xs" "distinct (map fst xs)"
      "map (\<lambda>v. (json_object_get_string (json_value_get_object (Some v)) (Some ''id''),
               json_object_get_string (json_value_get_object (Some v)) (Some ''tg''))) vs = map (\<lambda>(i, t). (Some i, Some t)) cs"
    for vs cs xs and st :: avnet
    using that
  proof (induction vs arbitrary: cs xs st)
    case (Cons v vs)
    let ?e = "json_value_get_object (Some v)"
    obtain i t cs' where cs: "cs = (i, t) # cs'" "json_object_get_string ?e (Some ''id'') = Some i"
      "json_object_get_string ?e (Some ''tg'') = Some t"
      using Cons.prems(3) by (cases cs) auto
    have "is_cstring i" "is_cstring t" using cs(2,3) get_string_cstring by blast+
    then obtain st1 where st1: "Option.bind (child_found i st) (\<lambda>old. Option.bind (if old then delete_child i st else Some st)
        (add_child (node_mem env) i t)) = Some st1" "represents st1 (?put xs (i, t))"
      using child_list.replace [OF Cons.prems(1), of i t "node_mem env"] assms(3) by auto
    have "process_children env (v # vs) st = process_children env vs st1"
      using st1(1) cs(2,3)
      by (auto simp: bind_eq_Some_conv Let_def IoTCListAddChild_def split: if_splits)
    moreover have "distinct (map fst (?put xs (i, t)))"
      using child_list.replace_distinct [OF Cons.prems(2), of i t] by simp
    moreover have "map (\<lambda>v. (json_object_get_string (json_value_get_object (Some v)) (Some ''id''),
               json_object_get_string (json_value_get_object (Some v)) (Some ''tg''))) vs = map (\<lambda>(i, t). (Some i, Some t)) cs'"
      using Cons.prems(3) cs(1) by simp
    ultimately show ?case using Cons.IH [OF st1(2)] cs(1) by simp
  qed simp
  from this [OF assms(1,2,5)] obtain st' where st': "process_children env (array_items arr) st = Some st'"
    "represents st' (foldl ?put xs children)" "distinct (map fst (foldl ?put xs children))" by blast
  have dots: "dot_position ''d'' = None" by (simp add: dot_position_def Let_def)
  have "json_object_has_value (Some d) (Some ''d'')"
    using assms(4) by (auto simp: json_object_get_array_def json_value_get_array_def json_object_has_value_def split: option.splits)
  then have "IoTCProcess204Response env d st = Some (True, st'\<lparr>avnetConnected := True\<rparr>)"
    using assms(4) st'(1)
    by (simp add: IoTCProcess204Response_def json_object_dotget_array_def json_object_dotget_value.simps dots json_object_get_array_def)
  then show ?thesis using st'(2,3) by auto
qed

lemma avnet_children_replaced_witness:
  "\<exists>d st'. IoTCProcess204Response plain_env d avnet_boot = Some (True, st') \<and> represents st' [(''7'', ''b'')]"
proof -
  obtain c1 :: json_obj where c1: "\<And>k. json_object_get_value (Some c1) (Some k) = map_of [(''id'', JString ''7''), (''tg'', JString ''a'')] k"
    using object_with [of "[(''id'', JString ''7''), (''tg'', JString ''a'')]"] by auto
  obtain c2 :: json_obj where c2: "\<And>k. json_object_get_value (Some c2) (Some k) = map_of [(''id'', JString ''7''), (''tg'', JString ''b'')] k"
    using object_with [of "[(''id'', JString ''7''), (''tg'', JString ''b'')]"] by auto
  obtain d :: json_obj where d: "\<And>k. json_object_get_value (Some d) (Some k) =
      map_of [(''d'', JArray (JSON_Array [JObject c1, JObject c2] 16))] k"
    using object_with [of "[(''d'', JArray (JSON_Array [JObject c1, JObject c2] 16))]"] by auto
  have "represents avnet_boot []" by (simp add: represents_def nodes_of_def avnet_boot_def fields_ok_def)
  then show ?thesis
    using avnet_children_replaced [of avnet_boot "[]" plain_env d "JSON_Array [JObject c1, JObject c2] 16" "[(''7'', ''a''), (''7'', ''b'')]"]
    by (auto simp: plain_env_def json_object_get_array_def json_value_get_array_def json_object_get_string_def json_value_get_string_def
        json_value_get_string_desc_def json_value_get_object_def d c1 c2)
qed

section \<open>Telemetry\<close>

lemma telemetry_members:
  "telemetry_text sid dtg body =
     CHR ''{'' # members_text [] (map (\<lambda>(k, t, j). (k, t))
       [(''sid'', quoted sid, Str sid), (''dtg'', quoted dtg, Str dtg), (''mt'', show_int 0, Num (double_of_int 0)),
        (''d'', ''['' @ (CHR ''{'' # members_text [] (map (\<lambda>(k, t, j). (k, t)) [(''d'', body, j)]) @ ''}'') @ '']'',
         Arr [Obj [(''d'', j)]])]) @ ''}''"
proof -
  have "show_nat 0 = ''0''" by (simp add: show_nat.simps)
  then show ?thesis by (simp add: telemetry_text_def quoted_def show_int_def)
qed

lemma plain_keys [simp]: "plain ''sid''" "plain ''dtg''" "plain ''mt''" "plain ''d''"
  by (simp_all add: plain_def)

lemma quoted_denotes: "n \<le> MAX_NESTING \<Longrightarrow> plain s \<Longrightarrow> denotes mem n (quoted s) (Str s)"
  using string_reads_back [of n s mem] by (simp add: reads_back_denotes quoted_def)

lemma telemetry_denotes:
  assumes mem: "\<forall>k. mem k" and p: "plain sid" "plain dtg" and body: "denotes mem 3 body j"
  shows "denotes mem 0 (telemetry_text sid dtg body)
    (Obj [(''sid'', Str sid), (''dtg'', Str dtg), (''mt'', Num (double_of_int 0)), (''d'', Arr [Obj [(''d'', j)]])])"
proof -
  have "denotes mem (Suc 0) (show_int 0) (Num (double_of_int 0))"
    using int_reads_back [of 0 "Suc 0" mem] by (simp add: reads_back_denotes)
  moreover have "denotes mem (Suc (Suc 0)) (CHR ''{'' # members_text [] (map (\<lambda>(k, t, j). (k, t)) [(''d'', body, j)]) @ ''}'')
      (Obj (map (\<lambda>(k, t, j). (k, j)) [(''d'', body, j)]))"
    by (rule object_denotes [OF mem]) (use body in \<open>simp_all add: numeral_3_eq_3\<close>)
  then have "denotes mem (Suc 0) (''['' @ (CHR ''{'' # members_text [] (map (\<lambda>(k, t, j). (k, t)) [(''d'', body, j)]) @ ''}'') @ '']'')
      (Arr [Obj [(''d'', j)]])"
    by (intro singleton_denotes [OF mem]) simp_all
  ultimately have "denotes mem 0 (telemetry_text sid dtg body) (Obj (map (\<lambda>(k, t, j). (k, j))
       [(''sid'', quoted sid, Str sid), (''dtg'', quoted dtg, Str dtg), (''mt'', show_int 0, Num (double_of_int 0)),
        (''d'', ''['' @ (CHR ''{'' # members_text [] (map (\<lambda>(k, t, j). (k, t)) [(''d'', body, j)]) @ ''}'') @ '']'',
         Arr [Obj [(''d'', j)]])]))"
    unfolding telemetry_members [of sid dtg body j]
    by (intro object_denotes [OF mem]) (use p quoted_denotes [of "Suc 0"] in simp_all)
  then show ?thesis by simp
qed

lemma payload_reads_back:
  assumes "\<forall>k. json_mem env k" "value_ok v" "json_depth v + 3 \<le> MAX_NESTING" "rest_ok st"
    "plain (cstr (sidString st))" "plain (cstr (dtgGUID st))" "json_serialize_to_string esc (Some v) = Some body"
    "length body + IOT_CONNECT_METADATA \<le> buffer_size"
  shows "\<exists>buf w. dx_avnetJsonSerializePayload env (Some body) buffer buffer_size None st = Some (True, buf) \<and>
    json_parse_string (json_mem env) (Some (cstr buf)) = Some w \<and>
    json_abs w = Obj [(''sid'', Str (cstr (sidString st))), (''dtg'', Str (cstr (dtgGUID st))), (''mt'', Num (double_of_int 0)),
      (''d'', Arr [Obj [(''d'', json_abs v)]])]"
proof -
  have body: "body = json_serialize_to_buffer_r esc False 0 v"
    using assms(7) by (simp add: json_serialize_to_string_def json_serialize_to_buffer_def json_serialization_size_def)
  have d: "denotes (json_mem env) 3 body (json_abs v)"
    using serialize_reads_back [OF assms(1,2), of 3 esc False 0] assms(3) by (simp add: body reads_back_denotes add.commute)
  let ?t = "telemetry_text (cstr (sidString st)) (cstr (dtgGUID st)) body"
  obtain w where w: "json_parse_string (json_mem env) (Some ?t) = Some w"
    "json_abs w = Obj [(''sid'', Str (cstr (sidString st))), (''dtg'', Str (cstr (dtgGUID st))), (''mt'', Num (double_of_int 0)),
      (''d'', Arr [Obj [(''d'', json_abs v)]])]"
    using denotes_parse [OF telemetry_denotes [OF assms(1,5,6) d]] by blast
  have "is_cstring body" unfolding body by (rule is_cstring_serialized [OF assms(2)])
  then have "is_cstring ?t" by (simp add: telemetry_text_def quoted_def)
  moreover have "length ?t \<le> length body + IOT_CONNECT_METADATA - 1"
    using field_ok_text [of SID_LEN "sidString st"] field_ok_text [of GUID_LEN "dtgGUID st"] assms(4)
    by (simp add: telemetry_text_def quoted_def rest_ok_def)
  ultimately have "cstr (snprintf buffer (length body + IOT_CONNECT_METADATA) ?t) = ?t"
    by (simp add: cstr_snprintf)
  moreover obtain v' where "json_parse_string (json_mem env) (Some body) = Some v'"
    using denotes_parse [of "json_mem env" body "json_abs v"] serialize_reads_back [OF assms(1,2), of 0 esc False 0] assms(3)
    by (auto simp: body reads_back_denotes)
  ultimately show ?thesis using w assms(8) by (simp add: dx_avnetJsonSerializePayload_def Let_def)
qed

text \<open>
  C31: the telemetry of a device is the application's JSON text in the platform's envelope, whole in the 256 bytes allowed for it:
  a text that parson serialized is read back inside the object with the identifiers of the hello response.  The identifiers
  are those the state holds: before the first hello response they are empty, and the function succeeds then too, though its
  comment and its header say that it returns false.
\<close>

theorem avnet_payload_reads_back:
  assumes "\<forall>k. json_mem env k" "value_ok v" "json_depth v + 3 \<le> MAX_NESTING" "rest_ok st"
    "plain (cstr (sidString st))" "plain (cstr (dtgGUID st))" "json_serialize_to_string esc (Some v) = Some body"
    "length body + IOT_CONNECT_METADATA \<le> buffer_size"
  shows "\<exists>buf w. dx_avnetJsonSerializePayload env (Some body) buffer buffer_size None st = Some (True, buf) \<and>
    json_parse_string (json_mem env) (Some (cstr buf)) = Some w \<and>
    json_abs w = Obj [(''sid'', Str (cstr (sidString st))), (''dtg'', Str (cstr (dtgGUID st))), (''mt'', Num (double_of_int 0)),
      (''d'', Arr [Obj [(''d'', json_abs v)]])]"
  using assms by (rule payload_reads_back)

lemma avnet_payload_reads_back_witness:
  "\<exists>buf w. dx_avnetJsonSerializePayload plain_env (Some ''true'') (replicate 300 NUL) 300 None avnet_boot = Some (True, buf) \<and>
     json_parse_string (\<lambda>_. True) (Some (cstr buf)) = Some w \<and>
     json_abs w = Obj [(''sid'', Str []), (''dtg'', Str []), (''mt'', Num (double_of_int 0)), (''d'', Arr [Obj [(''d'', Bool True)]])]"
proof -
  have "json_serialize_to_string True (Some (JBoolean True)) = Some ''true''"
    by (simp add: json_serialize_to_string_def json_serialize_to_buffer_def json_serialization_size_def)
  moreover have "rest_ok avnet_boot" using avnet_ok_boot by (simp add: avnet_ok_def)
  moreover have "cstr (sidString avnet_boot) = []" "cstr (dtgGUID avnet_boot) = []" by (simp_all add: avnet_boot_def cstr_def)
  ultimately show ?thesis
    using avnet_payload_reads_back [of plain_env "JBoolean True" avnet_boot True "''true''" 300 "replicate 300 NUL"]
    by (simp add: plain_env_def)
qed

text \<open>
  The telemetry of a child with a long id and tag does not fit the 256 bytes: it is cut off, and the result is true.
\<close>

lemma avnet_gateway_payload_cut:
  assumes "json_parse_string (json_mem env) (Some body) = Some v" "gw_heap st a = Some n" "child_id_text n = Some ident"
    "child_tg_text n = Some tag" "length ident + length tag \<ge> 256" "is_cstring body" "length body + IOT_CONNECT_METADATA \<le> buffer_size"
  shows "\<exists>buf. dx_avnetJsonSerializePayload env (Some body) buffer buffer_size (Some a) st = Some (True, buf) \<and>
    length (cstr buf) < length (gw_telemetry_text (cstr (sidString st)) (cstr (dtgGUID st)) ident tag body)"
proof -
  let ?t = "gw_telemetry_text (cstr (sidString st)) (cstr (dtgGUID st)) ident tag body"
  have "is_cstring ident" "is_cstring tag" using assms(3,4) by (auto simp: child_id_text_def child_tg_text_def split: if_splits)
  then have "is_cstring ?t" using assms(6) by (simp add: gw_telemetry_text_def quoted_def)
  then have "cstr (snprintf buffer (length body + IOT_CONNECT_METADATA) ?t) = take (length body + IOT_CONNECT_METADATA - 1) ?t"
    by (rule cstr_snprintf) simp
  moreover have "length body + IOT_CONNECT_METADATA \<le> length ?t" using assms(5) by (simp add: gw_telemetry_text_def quoted_def)
  ultimately show ?thesis using assms(1-4,7) by (simp add: dx_avnetJsonSerializePayload_def Let_def)
qed

end
