(* ===== verification/Dx_DeviceTwins.thy ===== *)
theory Dx_DeviceTwins
  imports Json_Text Dx_Azure_Properties "HOL-Library.Monad_Syntax"
begin

text \<open>
  Device twins (src/src/dx_device_twins.c): the bindings of twin properties, the desired values that arrive and the values
  that are reported.  The bindings are the application's; the library holds pointers to them, here numbers.  None
  is a crash: a NULL pointer is written through or read, or memory is freed that malloc did not give.
\<close>

section \<open>State\<close>

datatype twin_type =
    DX_TYPE_UNKNOWN | DX_DEVICE_TWIN_BOOL | DX_DEVICE_TWIN_FLOAT | DX_DEVICE_TWIN_DOUBLE | DX_DEVICE_TWIN_INT
  | DX_DEVICE_TWIN_STRING | DX_DEVICE_TWIN_JSON_OBJECT

text \<open>What a value pointer points to: a block for a number or a bool, or a part of the JSON tree being processed.\<close>

datatype twin_value =
    Bool_Value bool
  | Float_Value double
  | Double_Value double
  | Int_Value int
  | String_Value string
  | Object_Value json_obj

record twin_binding =
  propertyName :: string
  propertyValue :: "twin_value option"
  propertyVersion :: int
  propertyUpdated :: bool
  twinType :: twin_type
  twin_handler :: "nat option"

text \<open>
  \<open>client_pointer\<close>: whether the address of the hub client's handle has been stored; \<open>reported\<close> are the texts
  handed to the SDK.
\<close>

record 'a twins =
  tw_hub :: azure
  tw_bindings :: "twin_binding list"
  deviceTwins :: "nat list"
  client_pointer :: bool
  reported :: "string list"
  tw_app :: 'a

record twin_env =
  twin_hub_env :: azure_env
  twin_json_mem :: "nat \<Rightarrow> bool"
  block_mem :: bool
  payload_mem :: bool
  report_mem :: bool
  report_sent :: bool
  twin_cast_overflow :: int

text \<open>The number that stands for the address of \<open>DeviceTwinCallbackHandler\<close>.\<close>

abbreviation (input) TWIN_CALLBACK :: nat where "TWIN_CALLBACK \<equiv> 4"

definition set_binding :: "nat \<Rightarrow> (twin_binding \<Rightarrow> twin_binding) \<Rightarrow> 'a twins \<Rightarrow> 'a twins" where
  "set_binding i f st = st\<lparr>tw_bindings := (tw_bindings st)[i := f (tw_bindings st ! i)]\<rparr>"

section \<open>Conversions\<close>

text \<open>\<open>(float)x\<close>: to 24 bits, as the double with the same value.\<close>

fun float_of_double :: "double \<Rightarrow> double" where
  "float_of_double (Fin neg m e) =
     (if m = 0 then Fin neg 0 (-1074)
      else
        let (n, d) = num_den 2 m e;
            x = max (-149) (log2_floor n d - 23);
            k = round_scaled 2 n d x;
            (n', d') = num_den 2 k x
        in if k * 2 ^ nat (x + 149) \<ge> 2 ^ (128 + 149) then Infinite neg else to_double neg n' d')"
| "float_of_double x = x"

definition twin_int :: "twin_env \<Rightarrow> double \<Rightarrow> int" where
  "twin_int env x = (case int_of_double x of Some i \<Rightarrow> i | None \<Rightarrow> twin_cast_overflow env)"

section \<open>Subscribing\<close>

text \<open>The block a type needs, and its initial content.\<close>

fun initial_value :: "twin_type \<Rightarrow> twin_value option" where
  "initial_value DX_DEVICE_TWIN_INT = Some (Int_Value 0)"
| "initial_value DX_DEVICE_TWIN_FLOAT = Some (Float_Value (Fin False 0 (-1074)))"
| "initial_value DX_DEVICE_TWIN_DOUBLE = Some (Double_Value (Fin False 0 (-1074)))"
| "initial_value DX_DEVICE_TWIN_BOOL = Some (Bool_Value False)"
| "initial_value _ = None"

definition deviceTwinOpen :: "twin_env \<Rightarrow> 'a twins \<Rightarrow> nat \<Rightarrow> 'a twins option" where
  "deviceTwinOpen env st i =
     (let b = tw_bindings st ! i;
          st1 = (if twinType b = DX_TYPE_UNKNOWN
                 then st\<lparr>tw_hub := dx_terminate DX_ExitCode_OpenDeviceTwin (tw_hub st)\<rparr> else st)
      in case initial_value (twinType b) of
           None \<Rightarrow> Some st1
         | Some v \<Rightarrow>
             if \<not> block_mem env then None
             else Some (set_binding i (\<lambda>b. b\<lparr>propertyValue := Some v\<rparr>) st1))"

text \<open>Only the blocks come from malloc; a pointer into a JSON tree may not be freed.\<close>

fun is_block :: "twin_value \<Rightarrow> bool" where
  "is_block (String_Value _) \<longleftrightarrow> False"
| "is_block (Object_Value _) \<longleftrightarrow> False"
| "is_block _ \<longleftrightarrow> True"

definition deviceTwinClose :: "'a twins \<Rightarrow> nat \<Rightarrow> 'a twins option" where
  "deviceTwinClose st i =
     (case propertyValue (tw_bindings st ! i) of
        None \<Rightarrow> Some st
      | Some v \<Rightarrow> if is_block v then Some (set_binding i (\<lambda>b. b\<lparr>propertyValue := None\<rparr>) st) else None)"

definition dx_deviceTwinSubscribe :: "twin_env \<Rightarrow> nat list \<Rightarrow> 'a twins \<Rightarrow> 'a twins option" where
  "dx_deviceTwinSubscribe env twins st =
     for_each (deviceTwinOpen env)
       (st\<lparr>tw_hub := dx_azureRegisterDeviceTwinCallback (Some TWIN_CALLBACK) (tw_hub st), client_pointer := True, deviceTwins := twins\<rparr>)
       twins"

definition dx_deviceTwinUnsubscribe :: "'a twins \<Rightarrow> 'a twins option" where
  "dx_deviceTwinUnsubscribe st =
     for_each deviceTwinClose (st\<lparr>tw_hub := dx_azureRegisterDeviceTwinCallback None (tw_hub st)\<rparr>) (deviceTwins st)"

section \<open>Desired values\<close>

text \<open>
  The member that a type accepts, with the value it is stored as; a string or an object is stored only while
  the handler runs.  \<open>call h i\<close> is what the handler \<open>h\<close> of the application does for the binding \<open>i\<close>.
\<close>

definition desired_value :: "twin_env \<Rightarrow> json_obj \<Rightarrow> twin_binding \<Rightarrow> twin_value option" where
  "desired_value env obj b =
     (let name = Some (propertyName b); has = json_object_has_value_of_type (Some obj) name in
      case twinType b of
        DX_DEVICE_TWIN_INT \<Rightarrow> if has JSONNumber then Some (Int_Value (twin_int env (json_object_get_number (Some obj) name))) else None
      | DX_DEVICE_TWIN_FLOAT \<Rightarrow> if has JSONNumber then Some (Float_Value (float_of_double (json_object_get_number (Some obj) name))) else None
      | DX_DEVICE_TWIN_DOUBLE \<Rightarrow> if has JSONNumber then Some (Double_Value (json_object_get_number (Some obj) name)) else None
      | DX_DEVICE_TWIN_BOOL \<Rightarrow> if has JSONBoolean then Some (Bool_Value (json_object_get_boolean (Some obj) name \<noteq> 0)) else None
      | DX_DEVICE_TWIN_STRING \<Rightarrow> if has JSONString then map_option String_Value (json_object_get_string (Some obj) name) else None
      | DX_DEVICE_TWIN_JSON_OBJECT \<Rightarrow> if has JSONObject then map_option Object_Value (json_object_get_object (Some obj) name) else None
      | DX_TYPE_UNKNOWN \<Rightarrow> None)"

definition SetDesiredState ::
    "twin_env \<Rightarrow> (nat \<Rightarrow> nat \<Rightarrow> 'a twins \<Rightarrow> 'a twins option) \<Rightarrow> json_obj \<Rightarrow> nat \<Rightarrow> 'a twins \<Rightarrow> 'a twins option" where
  "SetDesiredState env call obj i st =
     (let st1 = (if json_object_has_value_of_type (Some obj) (Some ''$version'') JSONNumber
                 then set_binding i (\<lambda>b. b\<lparr>propertyVersion := twin_int env (json_object_get_number (Some obj) (Some ''$version''))\<rparr>) st
                 else st);
          b = tw_bindings st1 ! i;
          handled = (\<lambda>st2. case twin_handler b of None \<Rightarrow> Some st2 | Some h \<Rightarrow> call h i st2)
      in case desired_value env obj b of
           None \<Rightarrow> Some st1
         | Some v \<Rightarrow>
             if is_block v then
               (if propertyValue b = None then None
                else handled (set_binding i (\<lambda>b. b\<lparr>propertyValue := Some v, propertyUpdated := True\<rparr>) st1))
             else
               map_option (set_binding i (\<lambda>b. b\<lparr>propertyValue := None\<rparr>))
                 (handled (set_binding i (\<lambda>b. b\<lparr>propertyValue := Some v\<rparr>) st1)))"

definition DeviceTwinCallbackHandler ::
    "twin_env \<Rightarrow> (nat \<Rightarrow> nat \<Rightarrow> 'a twins \<Rightarrow> 'a twins option) \<Rightarrow> char list \<Rightarrow> 'a twins \<Rightarrow> 'a twins option" where
  "DeviceTwinCallbackHandler env call payload st =
     (if \<not> payload_mem env then Some st
      else
        (case json_parse_string (twin_json_mem env) (Some (cstr (payload @ [NUL]))) of
           None \<Rightarrow> Some st
         | Some root_value \<Rightarrow>
             (case json_value_get_object (Some root_value) of
                None \<Rightarrow> Some st
              | Some root_object \<Rightarrow>
                  let desiredProperties =
                    (case json_object_dotget_object (Some root_object) ''desired'' of None \<Rightarrow> root_object | Some d \<Rightarrow> d)
                  in for_each
                       (\<lambda>st1 i. if json_object_get_value (Some desiredProperties) (Some (propertyName (tw_bindings st1 ! i))) \<noteq> None
                                then SetDesiredState env call desiredProperties i st1 else Some st1)
                       st (deviceTwins st))))"

section \<open>Reported values\<close>

text \<open>The text of a value for \<open>%d\<close>, \<open>%f\<close> and \<open>%s\<close>; None when the state is not of the binding's type.\<close>

fun value_text :: "twin_type \<Rightarrow> twin_value \<Rightarrow> string option" where
  "value_text DX_DEVICE_TWIN_INT (Int_Value i) = Some (show_int i)"
| "value_text DX_DEVICE_TWIN_FLOAT (Float_Value x) = Some (printf_f x)"
| "value_text DX_DEVICE_TWIN_DOUBLE (Double_Value x) = Some (printf_f x)"
| "value_text DX_DEVICE_TWIN_BOOL (Bool_Value b) = Some (if b then ''true'' else ''false'')"
| "value_text DX_DEVICE_TWIN_STRING (String_Value s) = Some (quoted s)"
| "value_text DX_DEVICE_TWIN_JSON_OBJECT (String_Value s) = Some s"
| "value_text _ _ = None"

definition report_text :: "string \<Rightarrow> string \<Rightarrow> string" where
  "report_text name v = ''{'' @ quoted name @ '':'' @ v @ ''}''"

definition ack_text :: "string \<Rightarrow> string \<Rightarrow> int \<Rightarrow> int \<Rightarrow> string" where
  "ack_text name v statusCode version =
     ''{'' @ quoted name @ '':{'' @ quoted ''value'' @ '':'' @ v @ '', '' @ quoted ''ac'' @ '':'' @ show_int statusCode @ '', '' @
     quoted ''av'' @ '':'' @ show_int version @ ''}}''"

text \<open>The size of the buffer; \<open>strlen(state)\<close> for a string or an object.\<close>

definition report_size :: "twin_binding \<Rightarrow> twin_value \<Rightarrow> bool \<Rightarrow> nat" where
  "report_size b state ack =
     10 + length (propertyName b) +
     (case state of String_Value s \<Rightarrow> length s | _ \<Rightarrow> 40) + (if ack then 40 else 0)"

definition deviceTwinUpdateReportedState :: "twin_env \<Rightarrow> string \<Rightarrow> 'a twins \<Rightarrow> (bool \<times> 'a twins) option" where
  "deviceTwinUpdateReportedState env t st =
     (if \<not> client_pointer st then None
      else if iothubClientHandle (tw_hub st) = None then Some (False, st)
      else Some (report_sent env, st\<lparr>reported := reported st @ [t]\<rparr>))"

text \<open>A number or a bool is stored through the value pointer, the pointer of a string or an object is cleared.\<close>

definition deviceTwinReportState ::
    "twin_env \<Rightarrow> nat option \<Rightarrow> twin_value \<Rightarrow> bool \<Rightarrow> int \<Rightarrow> 'a twins \<Rightarrow> (bool \<times> 'a twins) option" where
  "deviceTwinReportState env binding state ack statusCode st =
     (case binding of
        None \<Rightarrow> Some (False, st)
      | Some i \<Rightarrow>
          (case dx_isAzureConnected (twin_hub_env env) (tw_hub st) of
             (is_connected, hub) \<Rightarrow>
               let st1 = st\<lparr>tw_hub := hub\<rparr>; b = tw_bindings st ! i in
               if \<not> is_connected then Some (False, st1)
               else if \<not> report_mem env then Some (False, st1)
               else if twinType b = DX_TYPE_UNKNOWN then Some (False, st1)
               else
                 (case value_text (twinType b) state of
                    None \<Rightarrow> None
                  | Some v \<Rightarrow>
                      if initial_value (twinType b) \<noteq> None \<and> propertyValue b = None then None
                      else
                        let st2 = set_binding i
                              (\<lambda>b. b\<lparr>propertyValue := (if initial_value (twinType b) \<noteq> None then Some state else None)\<rparr>) st1;
                            t = (if ack then ack_text (propertyName b) v statusCode (propertyVersion b)
                                 else report_text (propertyName b) v);
                            n = report_size b state ack
                        in deviceTwinUpdateReportedState env (cstr (snprintf (replicate n NUL) n t)) st2)))"

definition dx_deviceTwinAckDesiredValue ::
    "twin_env \<Rightarrow> nat option \<Rightarrow> twin_value \<Rightarrow> int \<Rightarrow> 'a twins \<Rightarrow> (bool \<times> 'a twins) option" where
  "dx_deviceTwinAckDesiredValue env binding state statusCode st = deviceTwinReportState env binding state True statusCode st"

definition dx_deviceTwinReportValue :: "twin_env \<Rightarrow> nat option \<Rightarrow> twin_value \<Rightarrow> 'a twins \<Rightarrow> (bool \<times> 'a twins) option" where
  "dx_deviceTwinReportValue env binding state st =
     (case deviceTwinReportState env binding state False 200 st of
        None \<Rightarrow> None
      | Some (result, st1) \<Rightarrow>
          if \<not> client_pointer st1 then None
          else Some (result, st1\<lparr>tw_hub := hub_DoWork (twin_hub_env env) (tw_hub st1)\<rparr>))"

section \<open>Values keep their type\<close>

fun has_type :: "twin_value \<Rightarrow> twin_type \<Rightarrow> bool" where
  "has_type (Bool_Value _) t \<longleftrightarrow> t = DX_DEVICE_TWIN_BOOL"
| "has_type (Float_Value _) t \<longleftrightarrow> t = DX_DEVICE_TWIN_FLOAT"
| "has_type (Double_Value _) t \<longleftrightarrow> t = DX_DEVICE_TWIN_DOUBLE"
| "has_type (Int_Value _) t \<longleftrightarrow> t = DX_DEVICE_TWIN_INT"
| "has_type (String_Value _) t \<longleftrightarrow> t = DX_DEVICE_TWIN_STRING"
| "has_type (Object_Value _) t \<longleftrightarrow> t = DX_DEVICE_TWIN_JSON_OBJECT"

text \<open>The value of a binding that is open: of its type, and there when the type has a block.\<close>

definition binding_ok :: "twin_binding \<Rightarrow> bool" where
  "binding_ok b \<longleftrightarrow> (case propertyValue b of None \<Rightarrow> initial_value (twinType b) = None | Some v \<Rightarrow> has_type v (twinType b))"

text \<open>
  A binding at rest: it holds no pointer into a JSON tree, which is freed after the message.  \<open>open_ok X\<close> is the
  state of open bindings, those not in \<open>X\<close> at rest.
\<close>

definition at_rest :: "twin_binding \<Rightarrow> bool" where
  "at_rest b \<longleftrightarrow> binding_ok b \<and> (case propertyValue b of None \<Rightarrow> True | Some v \<Rightarrow> is_block v)"

definition open_ok :: "nat set \<Rightarrow> 'a twins \<Rightarrow> bool" where
  "open_ok X st \<longleftrightarrow> client_pointer st \<and> (\<forall>i \<in> set (deviceTwins st). i < length (tw_bindings st) \<and>
     binding_ok (tw_bindings st ! i) \<and> (i \<notin> X \<longrightarrow> at_rest (tw_bindings st ! i)))"

definition types_of :: "'a twins \<Rightarrow> twin_type list" where
  "types_of st = map twinType (tw_bindings st)"

text \<open>What is asked of the application: a handler does not crash on open bindings, and keeps them open, of their types and, but for its own, at rest.\<close>

definition handlers_ok :: "(nat \<Rightarrow> nat \<Rightarrow> 'a twins \<Rightarrow> 'a twins option) \<Rightarrow> bool" where
  "handlers_ok call \<longleftrightarrow> (\<forall>h i st. open_ok {i} st \<longrightarrow> i \<in> set (deviceTwins st) \<longrightarrow>
     (\<exists>st'. call h i st = Some st' \<and> open_ok {i} st' \<and> deviceTwins st' = deviceTwins st \<and> types_of st' = types_of st))"

lemma set_binding_sel [simp]:
  "deviceTwins (set_binding i f st) = deviceTwins st" "client_pointer (set_binding i f st) = client_pointer st"
  "tw_hub (set_binding i f st) = tw_hub st" "reported (set_binding i f st) = reported st"
  "length (tw_bindings (set_binding i f st)) = length (tw_bindings st)"
  by (simp_all add: set_binding_def)

lemma set_binding_nth [simp]:
  "j < length (tw_bindings st) \<Longrightarrow> tw_bindings (set_binding i f st) ! j =
     (if i = j then f (tw_bindings st ! j) else tw_bindings st ! j)"
  by (simp add: set_binding_def)

lemma set_binding_types [simp]: "(\<And>b. twinType (f b) = twinType b) \<Longrightarrow> types_of (set_binding i f st) = types_of st"
  by (cases "i < length (tw_bindings st)") (simp_all add: types_of_def set_binding_def map_update list_update_same_conv list_update_beyond)

lemma set_binding_open:
  assumes "open_ok X st" "i \<in> set (deviceTwins st)" "binding_ok (f (tw_bindings st ! i))" "i \<notin> X \<Longrightarrow> at_rest (f (tw_bindings st ! i))"
  shows "open_ok X (set_binding i f st)"
  using assms by (auto simp: open_ok_def)

lemma open_ok_mono: "open_ok X st \<Longrightarrow> X \<subseteq> Y \<Longrightarrow> open_ok Y st"
  by (auto simp: open_ok_def)

lemma has_type_block: "has_type v t \<Longrightarrow> initial_value t \<noteq> None \<Longrightarrow> is_block v"
  by (cases v) auto

lemma at_rest_set [simp]:
  "at_rest (b\<lparr>propertyValue := None\<rparr>) \<longleftrightarrow> initial_value (twinType b) = None"
  "at_rest (b\<lparr>propertyValue := Some v\<rparr>) \<longleftrightarrow> has_type v (twinType b) \<and> is_block v"
  by (simp_all add: at_rest_def binding_ok_def)

lemma block_at_rest: "binding_ok b \<Longrightarrow> initial_value (twinType b) \<noteq> None \<Longrightarrow> at_rest b"
  using has_type_block by (cases "propertyValue b") (auto simp: at_rest_def binding_ok_def)

lemma open_ok_settle:
  assumes "open_ok {i} st" "i \<in> set (deviceTwins st)" "at_rest (tw_bindings st ! i)"
  shows "open_ok {} st"
  using assms by (auto simp: open_ok_def)

lemma open_binding: "open_ok X st \<Longrightarrow> i \<in> set (deviceTwins st) \<Longrightarrow> binding_ok (tw_bindings st ! i)"
  by (simp add: open_ok_def)

lemma rest_binding: "open_ok X st \<Longrightarrow> i \<in> set (deviceTwins st) \<Longrightarrow> i \<notin> X \<Longrightarrow> at_rest (tw_bindings st ! i)"
  by (simp add: open_ok_def)

lemma at_rest_version [simp]: "at_rest (b\<lparr>propertyVersion := n\<rparr>) = at_rest b"
  by (simp add: at_rest_def binding_ok_def split: option.split)

lemma binding_ok_version [simp]: "binding_ok (b\<lparr>propertyVersion := n\<rparr>) = binding_ok b"
  by (simp add: binding_ok_def split: option.split)

lemma desired_value_type: "desired_value env obj b = Some v \<Longrightarrow> has_type v (twinType b) \<and> (is_block v \<longleftrightarrow> initial_value (twinType b) \<noteq> None)"
  by (auto simp: desired_value_def Let_def split: twin_type.splits if_splits)

lemma handlers_okD:
  "handlers_ok call \<Longrightarrow> open_ok {i} st \<Longrightarrow> i \<in> set (deviceTwins st) \<Longrightarrow>
     \<exists>st'. call h i st = Some st' \<and> open_ok {i} st' \<and> deviceTwins st' = deviceTwins st \<and> types_of st' = types_of st"
  by (simp add: handlers_ok_def)

lemma set_desired_ok:
  assumes calls: "handlers_ok call" and st: "open_ok {} st" "i \<in> set (deviceTwins st)"
  shows "\<exists>st'. SetDesiredState env call obj i st = Some st' \<and> open_ok {} st' \<and> deviceTwins st' = deviceTwins st \<and> types_of st' = types_of st"
proof -
  define st1 where "st1 = (if json_object_has_value_of_type (Some obj) (Some ''$version'') JSONNumber
    then set_binding i (\<lambda>b. b\<lparr>propertyVersion := twin_int env (json_object_get_number (Some obj) (Some ''$version''))\<rparr>) st else st)"
  have st1: "open_ok {} st1" "deviceTwins st1 = deviceTwins st" "types_of st1 = types_of st"
    using st open_binding [OF st] rest_binding [OF st] by (auto simp: st1_def intro!: set_binding_open)
  define b where "b = tw_bindings st1 ! i"
  have i: "i < length (tw_bindings st1)" using st1 st(2) by (simp add: open_ok_def)
  have b: "binding_ok b" using open_binding [OF st1(1)] st1(2) st(2) by (simp add: b_def)
  have handled: "\<exists>st'. (case twin_handler b of None \<Rightarrow> Some st2 | Some h \<Rightarrow> call h i st2) = Some st' \<and>
      open_ok {i} st' \<and> deviceTwins st' = deviceTwins st2 \<and> types_of st' = types_of st2"
    if "open_ok {i} st2" "deviceTwins st2 = deviceTwins st1" for st2
    using that handlers_okD [OF calls that(1)] st1(2) st(2) by (cases "twin_handler b") simp_all
  have same_type: "twinType (tw_bindings st' ! i) = twinType b"
    if "open_ok {i} st'" "deviceTwins st' = deviceTwins (set_binding i f st1)" "types_of st' = types_of (set_binding i f st1)"
      and f: "\<And>b. twinType (f b) = twinType b" for st' f
  proof -
    have "i < length (tw_bindings st')" using that(1,2) st1(2) st(2) by (simp add: open_ok_def)
    then have "twinType (tw_bindings st' ! i) = types_of st' ! i" by (simp add: types_of_def)
    also have "\<dots> = types_of st1 ! i" using that(3) f by simp
    finally show ?thesis using i by (simp add: types_of_def b_def)
  qed
  note unfolded = SetDesiredState_def Let_def st1_def [symmetric] b_def [symmetric]
  show ?thesis
  proof (cases "desired_value env obj b")
    case None
    then show ?thesis using st1 unfolding unfolded by simp
  next
    case (Some v)
    note v = desired_value_type [OF Some]
    show ?thesis
    proof (cases "is_block v")
      case True
      let ?st2 = "set_binding i (\<lambda>b. b\<lparr>propertyValue := Some v, propertyUpdated := True\<rparr>) st1"
      have "open_ok {i} ?st2"
        using open_ok_mono [OF st1(1), of "{i}"] st1(2) st(2) v by (intro set_binding_open) (simp_all add: binding_ok_def b_def)
      then obtain st' where st': "(case twin_handler b of None \<Rightarrow> Some ?st2 | Some h \<Rightarrow> call h i ?st2) = Some st'"
        "open_ok {i} st'" "deviceTwins st' = deviceTwins ?st2" "types_of st' = types_of ?st2" using handled by fastforce
      have "at_rest (tw_bindings st' ! i)"
        using open_binding [OF st'(2), of i] same_type [OF st'(2-4), simplified] st'(3) st1(2) st(2) v True by (intro block_at_rest) simp_all
      then have "open_ok {} st'" using open_ok_settle [OF st'(2)] st'(3) st1(2) st(2) by simp
      moreover have "propertyValue b \<noteq> None" using b v True by (cases "propertyValue b") (auto simp: binding_ok_def)
      ultimately show ?thesis using Some True st1 st' unfolding unfolded by simp
    next
      case False
      let ?st2 = "set_binding i (\<lambda>b. b\<lparr>propertyValue := Some v\<rparr>) st1"
      have "open_ok {i} ?st2"
        using open_ok_mono [OF st1(1), of "{i}"] st1(2) st(2) v by (intro set_binding_open) (simp_all add: binding_ok_def b_def)
      then obtain st' where st': "(case twin_handler b of None \<Rightarrow> Some ?st2 | Some h \<Rightarrow> call h i ?st2) = Some st'"
        "open_ok {i} st'" "deviceTwins st' = deviceTwins ?st2" "types_of st' = types_of ?st2" using handled by fastforce
      have "open_ok {i} (set_binding i (\<lambda>b. b\<lparr>propertyValue := None\<rparr>) st')"
        using st'(2,3) st1(2) st(2) same_type [OF st'(2-4), simplified] v False by (intro set_binding_open) (simp_all add: binding_ok_def)
      moreover have "i < length (tw_bindings st')" using st'(2,3) st1(2) st(2) by (simp add: open_ok_def)
      ultimately have "open_ok {} (set_binding i (\<lambda>b. b\<lparr>propertyValue := None\<rparr>) st')"
        using st'(3) st1(2) st(2) same_type [OF st'(2-4), simplified] v False
        by (intro open_ok_settle [of i]) (simp_all add: at_rest_def binding_ok_def)
      then show ?thesis using Some False st' st1 unfolding unfolded by simp
    qed
  qed
qed

lemma twin_message_ok:
  fixes st :: "'a twins"
  assumes "handlers_ok call" "open_ok {} st"
  shows "\<exists>st'. DeviceTwinCallbackHandler env call payload st = Some st' \<and> open_ok {} st' \<and> deviceTwins st' = deviceTwins st \<and> types_of st' = types_of st"
proof -
  define Q where "Q = (\<lambda>s :: 'a twins. open_ok {} s \<and> deviceTwins s = deviceTwins st \<and> types_of s = types_of st)"
  have "\<exists>st'. for_each (\<lambda>st1 i. if json_object_get_value (Some d) (Some (propertyName (tw_bindings st1 ! i))) \<noteq> None
        then SetDesiredState env call d i st1 else Some st1) st (deviceTwins st) = Some st' \<and> Q st'" for d
  proof (rule for_each_ok)
    fix s i
    assume "Q s" "i \<in> set (deviceTwins st)"
    then show "\<exists>s'. (if json_object_get_value (Some d) (Some (propertyName (tw_bindings s ! i))) \<noteq> None
        then SetDesiredState env call d i s else Some s) = Some s' \<and> Q s'"
      using set_desired_ok [OF assms(1), of s i env d] by (auto simp: Q_def)
  qed (use assms(2) in \<open>simp add: Q_def\<close>)
  then show ?thesis using assms(2)
    by (auto simp: DeviceTwinCallbackHandler_def Let_def Q_def split: option.split)
qed

text \<open>Reports: the state has the binding's type when it has a text.\<close>

lemma value_text_type: "value_text t v = Some s \<Longrightarrow> initial_value t \<noteq> None \<Longrightarrow> has_type v t"
  by (cases "(t, v)" rule: value_text.cases) auto

lemma twin_update_ok:
  assumes "open_ok X st"
  shows "\<exists>r st'. deviceTwinUpdateReportedState env t st = Some (r, st') \<and> open_ok X st' \<and> deviceTwins st' = deviceTwins st \<and>
    types_of st' = types_of st"
  using assms by (auto simp: deviceTwinUpdateReportedState_def open_ok_def types_of_def)

lemma open_ok_hub [simp]: "open_ok X (tw_hub_update f st) = open_ok X st" "types_of (tw_hub_update f st) = types_of st"
  by (simp_all add: open_ok_def types_of_def)

definition reported_state :: "nat \<Rightarrow> twin_value \<Rightarrow> azure \<Rightarrow> 'a twins \<Rightarrow> 'a twins" where
  "reported_state i state hub st = set_binding i
     (\<lambda>b. b\<lparr>propertyValue := (if initial_value (twinType b) \<noteq> None then Some state else None)\<rparr>) (st\<lparr>tw_hub := hub\<rparr>)"

lemma report_step:
  assumes "dx_isAzureConnected (twin_hub_env env) (tw_hub st) = (conn, hub)"
    "value_text (twinType (tw_bindings st ! i)) state = Some v" "binding_ok (tw_bindings st ! i)"
  shows "deviceTwinReportState env (Some i) state ack code st =
    (if conn \<and> report_mem env then
       let b = tw_bindings st ! i; n = report_size b state ack in
       deviceTwinUpdateReportedState env
         (cstr (snprintf (replicate n NUL) n
            (if ack then ack_text (propertyName b) v code (propertyVersion b) else report_text (propertyName b) v)))
         (reported_state i state hub st)
     else Some (False, st\<lparr>tw_hub := hub\<rparr>))"
proof -
  define b where "b = tw_bindings st ! i"
  have "twinType b \<noteq> DX_TYPE_UNKNOWN" using assms(2) by (auto simp: b_def)
  moreover have "\<not> (initial_value (twinType b) \<noteq> None \<and> propertyValue b = None)"
    using assms(3) by (auto simp: binding_ok_def b_def)
  ultimately show ?thesis
    using assms(1,2) unfolding deviceTwinReportState_def Let_def reported_state_def b_def
    by (cases "initial_value (twinType (tw_bindings st ! i))"; cases "propertyValue (tw_bindings st ! i)"; simp)
qed

lemma reported_state_ok:
  assumes "open_ok X st" "i \<in> set (deviceTwins st)" "value_text (twinType (tw_bindings st ! i)) state = Some v"
  shows "open_ok X (reported_state i state hub st)" "types_of (reported_state i state hub st) = types_of st"
    "deviceTwins (reported_state i state hub st) = deviceTwins st"
  using assms(1,2) value_text_type [OF assms(3)] has_type_block
  by (auto simp: reported_state_def binding_ok_def intro!: set_binding_open)

lemma report_ok:
  assumes st: "open_ok X st" "i \<in> set (deviceTwins st)" and v: "value_text (twinType (tw_bindings st ! i)) state \<noteq> None"
  shows "\<exists>r st'. deviceTwinReportState env (Some i) state ack code st = Some (r, st') \<and> open_ok X st' \<and>
    deviceTwins st' = deviceTwins st \<and> types_of st' = types_of st"
proof -
  obtain conn hub where hub: "dx_isAzureConnected (twin_hub_env env) (tw_hub st) = (conn, hub)" by fastforce
  obtain s where s: "value_text (twinType (tw_bindings st ! i)) state = Some s" using v by auto
  note ok = reported_state_ok [OF st s, of hub]
  show ?thesis
    using twin_update_ok [OF ok(1)] ok st(1)
    by (simp only: report_step [OF hub s open_binding [OF st]] Let_def split: if_splits) auto
qed

lemma report_value_ok:
  assumes "open_ok X st" "i \<in> set (deviceTwins st)" "value_text (twinType (tw_bindings st ! i)) state \<noteq> None"
  shows "\<exists>r st'. dx_deviceTwinReportValue env (Some i) state st = Some (r, st') \<and> open_ok X st' \<and>
    deviceTwins st' = deviceTwins st \<and> types_of st' = types_of st"
proof -
  obtain r st' where r: "deviceTwinReportState env (Some i) state False 200 st = Some (r, st')" "open_ok X st'"
    "deviceTwins st' = deviceTwins st" "types_of st' = types_of st" using report_ok [OF assms] by blast
  moreover have "client_pointer st'" using r(2) by (simp add: open_ok_def)
  ultimately show ?thesis by (simp add: dx_deviceTwinReportValue_def)
qed

text \<open>Opening gives every binding of the list a value of its type.\<close>

lemma twin_open_ok:
  assumes "block_mem env" "i < length (tw_bindings st)" "propertyValue (tw_bindings st ! i) = None \<or> at_rest (tw_bindings st ! i)"
  obtains st' where "deviceTwinOpen env st i = Some st'" "length (tw_bindings st') = length (tw_bindings st)"
    "at_rest (tw_bindings st' ! i)" "\<And>j. j \<noteq> i \<Longrightarrow> tw_bindings st' ! j = tw_bindings st ! j"
    "deviceTwins st' = deviceTwins st" "client_pointer st' = client_pointer st" "types_of st' = types_of st"
proof -
  define b where "b = tw_bindings st ! i"
  have b: "propertyValue b = None \<or> at_rest b" using assms(3) by (simp add: b_def)
  show thesis
  proof (cases "initial_value (twinType b)")
    case None
    have "at_rest b" using b None by (auto simp: at_rest_def binding_ok_def)
    then show thesis using None that
      by (simp add: deviceTwinOpen_def Let_def b_def)
  next
    case (Some v)
    then have v: "has_type v (twinType b)" "twinType b \<noteq> DX_TYPE_UNKNOWN" by (cases "twinType b"; auto)+
    show thesis
    proof (rule that)
      show "deviceTwinOpen env st i = Some (set_binding i (\<lambda>b. b\<lparr>propertyValue := Some v\<rparr>) st)"
        using Some v(2) assms(1) by (simp add: deviceTwinOpen_def Let_def b_def)
      show "tw_bindings (set_binding i (\<lambda>b. b\<lparr>propertyValue := Some v\<rparr>) st) ! j = tw_bindings st ! j" if "j \<noteq> i" for j
        using that by (simp add: set_binding_def)
    qed (use v(1) assms(2) block_at_rest [of "b\<lparr>propertyValue := Some v\<rparr>"] Some in \<open>simp_all add: binding_ok_def b_def\<close>)
  qed
qed

definition closed_or_ok :: "twin_binding \<Rightarrow> bool" where
  "closed_or_ok b \<longleftrightarrow> propertyValue b = None \<or> at_rest b"

lemma twin_open_all:
  assumes "block_mem env" "\<forall>i \<in> A. i < length (tw_bindings st) \<and> closed_or_ok (tw_bindings st ! i)"
    "\<forall>i \<in> B. at_rest (tw_bindings st ! i)" "set xs \<subseteq> A" "B \<subseteq> A"
  shows "\<exists>st'. for_each (deviceTwinOpen env) st xs = Some st' \<and> deviceTwins st' = deviceTwins st \<and>
    client_pointer st' = client_pointer st \<and> types_of st' = types_of st \<and>
    (\<forall>i \<in> B \<union> set xs. i < length (tw_bindings st') \<and> at_rest (tw_bindings st' ! i))"
  using assms(2-)
proof (induction xs arbitrary: st B)
  case Nil
  then show ?case by auto
next
  case (Cons x xs)
  then have x: "x < length (tw_bindings st)" "closed_or_ok (tw_bindings st ! x)" by auto
  obtain st1 where st1: "deviceTwinOpen env st x = Some st1" "length (tw_bindings st1) = length (tw_bindings st)"
    "at_rest (tw_bindings st1 ! x)" "\<And>j. j \<noteq> x \<Longrightarrow> tw_bindings st1 ! j = tw_bindings st ! j"
    "deviceTwins st1 = deviceTwins st" "client_pointer st1 = client_pointer st" "types_of st1 = types_of st"
    using twin_open_ok [OF assms(1) x(1)] x(2) unfolding closed_or_ok_def by metis
  have "closed_or_ok (tw_bindings st1 ! i)" "i < length (tw_bindings st1)" if "i \<in> A" for i
    using that st1(2-4) Cons.prems(1) by (cases "i = x"; auto simp: closed_or_ok_def)+
  moreover have "at_rest (tw_bindings st1 ! i)" if "i \<in> insert x B" for i
    using that st1(3,4) Cons.prems(2) by (cases "i = x") auto
  ultimately show ?case using Cons.IH [of st1 "insert x B"] Cons.prems(3,4) st1 by auto
qed

lemma subscribe_ok:
  assumes "block_mem env" "\<forall>i \<in> set ix. i < length (tw_bindings st) \<and> propertyValue (tw_bindings st ! i) = None"
  shows "\<exists>st'. dx_deviceTwinSubscribe env ix st = Some st' \<and> open_ok {} st' \<and> deviceTwins st' = ix \<and> types_of st' = types_of st"
  using twin_open_all [OF assms(1), of "set ix"
      "st\<lparr>tw_hub := dx_azureRegisterDeviceTwinCallback (Some TWIN_CALLBACK) (tw_hub st), client_pointer := True, deviceTwins := ix\<rparr>" "{}" ix] assms(2)
  by (auto simp: dx_deviceTwinSubscribe_def open_ok_def closed_or_ok_def types_of_def at_rest_def)

end
