(* ===== verification/Dx_Twin_Properties.thy ===== *)
theory Dx_Twin_Properties
  imports Dx_DeviceTwins
begin

text \<open>
  The properties of the device twins: values keep their type, desired values are applied binding by binding, and
  what is reported is JSON that reads back.
\<close>

section \<open>Closing bindings\<close>

lemma twin_close_step:
  assumes "deviceTwinClose st x = Some st'" "x < length (tw_bindings st)"
  shows "propertyValue (tw_bindings st' ! x) = None" "\<And>j. j \<noteq> x \<Longrightarrow> tw_bindings st' ! j = tw_bindings st ! j"
    "length (tw_bindings st') = length (tw_bindings st)" "types_of st' = types_of st" "tw_hub st' = tw_hub st"
  using assms by (auto simp: deviceTwinClose_def set_binding_def types_of_def map_update list_update_same_conv split: option.splits if_splits)

lemma twin_close_all:
  assumes "for_each deviceTwinClose st xs = Some st'" "\<forall>i \<in> set xs. i < length (tw_bindings st)"
  shows "(\<forall>i < length (tw_bindings st). i \<in> set xs \<or> propertyValue (tw_bindings st ! i) = None \<longrightarrow> propertyValue (tw_bindings st' ! i) = None) \<and>
    length (tw_bindings st') = length (tw_bindings st) \<and> types_of st' = types_of st \<and> tw_hub st' = tw_hub st"
  using assms
proof (induction xs arbitrary: st)
  case (Cons x xs)
  then obtain st1 where st1: "deviceTwinClose st x = Some st1" "for_each deviceTwinClose st1 xs = Some st'"
    by (auto split: option.splits)
  note step = twin_close_step [OF st1(1)]
  have x: "x < length (tw_bindings st)" using Cons.prems(2) by simp
  have "propertyValue (tw_bindings st1 ! i) = None" if "i = x \<or> propertyValue (tw_bindings st ! i) = None" for i
    using that step(1,2) [OF x] by (cases "i = x") auto
  then show ?case using Cons.IH [OF st1(2)] Cons.prems(2) step(3-5) [OF x] by auto
qed auto

lemma twin_close_returns:
  assumes "\<forall>i \<in> set xs. i < length (tw_bindings st) \<and> closed_or_ok (tw_bindings st ! i)"
  shows "\<exists>st'. for_each deviceTwinClose st xs = Some st' \<and> deviceTwins st' = deviceTwins st \<and> client_pointer st' = client_pointer st"
  using assms
proof (induction xs arbitrary: st)
  case (Cons x xs)
  have x: "x < length (tw_bindings st)" "closed_or_ok (tw_bindings st ! x)" using Cons.prems by simp_all
  then obtain st1 where st1: "deviceTwinClose st x = Some st1" "deviceTwins st1 = deviceTwins st" "client_pointer st1 = client_pointer st"
    by (auto simp: deviceTwinClose_def closed_or_ok_def at_rest_def split: option.splits)
  note step = twin_close_step [OF st1(1) x(1)]
  have "closed_or_ok (tw_bindings st1 ! i)" if "i \<in> set xs" for i
    using that Cons.prems step(1,2) by (cases "i = x") (auto simp: closed_or_ok_def)
  then show ?case using Cons.IH [of st1] Cons.prems st1 step(3) by simp
qed simp

section \<open>What the application and the hub do with bindings\<close>

text \<open>
  The application subscribes and unsubscribes, reports and acknowledges values; the hub delivers desired values as
  long as the callback is registered.
\<close>

datatype twin_use = Subscribe "nat list" | Unsubscribe | Desired string | Report nat twin_value | Acknowledge nat twin_value int

fun twin_run :: "(nat \<Rightarrow> nat \<Rightarrow> 'a twins \<Rightarrow> 'a twins option) \<Rightarrow> 'a twins \<Rightarrow> twin_env \<times> twin_use \<Rightarrow> 'a twins option" where
  "twin_run call st (env, Subscribe ix) = dx_deviceTwinSubscribe env ix st"
| "twin_run call st (env, Unsubscribe) = dx_deviceTwinUnsubscribe st"
| "twin_run call st (env, Desired payload) =
     (if deviceTwinCallbackHandler (tw_hub st) = Some TWIN_CALLBACK then DeviceTwinCallbackHandler env call payload st else Some st)"
| "twin_run call st (env, Report i v) = map_option snd (dx_deviceTwinReportValue env (Some i) v st)"
| "twin_run call st (env, Acknowledge i v code) = map_option snd (dx_deviceTwinAckDesiredValue env (Some i) v code st)"

text \<open>
  What is asked of the application: it subscribes the same bindings again, with memory for their blocks; the void pointer passed for a
  state points to a value of the binding's type; and a number or a bool is reported only while its binding is subscribed.
\<close>

fun may_report :: "nat list \<Rightarrow> twin_type list \<Rightarrow> bool \<Rightarrow> nat \<Rightarrow> twin_value \<Rightarrow> bool" where
  "may_report ix types subscribed i v \<longleftrightarrow>
     i \<in> set ix \<and> value_text (types ! i) v \<noteq> None \<and> (subscribed \<or> initial_value (types ! i) = None)"

fun uses_ok :: "nat list \<Rightarrow> twin_type list \<Rightarrow> bool \<Rightarrow> (twin_env \<times> twin_use) list \<Rightarrow> bool" where
  "uses_ok ix types subscribed [] \<longleftrightarrow> True"
| "uses_ok ix types subscribed ((env, Subscribe ix') # us) \<longleftrightarrow> ix' = ix \<and> block_mem env \<and> uses_ok ix types True us"
| "uses_ok ix types subscribed ((env, Unsubscribe) # us) \<longleftrightarrow> uses_ok ix types False us"
| "uses_ok ix types subscribed ((env, Desired _) # us) \<longleftrightarrow> uses_ok ix types subscribed us"
| "uses_ok ix types subscribed ((env, Report i v) # us) \<longleftrightarrow> may_report ix types subscribed i v \<and> uses_ok ix types subscribed us"
| "uses_ok ix types subscribed ((env, Acknowledge i v _) # us) \<longleftrightarrow> may_report ix types subscribed i v \<and> uses_ok ix types subscribed us"

text \<open>Whether the bindings are subscribed after these uses.\<close>

fun subscribed_after :: "bool \<Rightarrow> (twin_env \<times> twin_use) list \<Rightarrow> bool" where
  "subscribed_after subscribed [] = subscribed"
| "subscribed_after subscribed ((env, Subscribe _) # us) = subscribed_after True us"
| "subscribed_after subscribed ((env, Unsubscribe) # us) = subscribed_after False us"
| "subscribed_after subscribed (_ # us) = subscribed_after subscribed us"

text \<open>The states in between: open bindings, or closed ones and no callback.\<close>

definition twins_ok :: "nat list \<Rightarrow> twin_type list \<Rightarrow> bool \<Rightarrow> 'a twins \<Rightarrow> bool" where
  "twins_ok ix types subscribed st \<longleftrightarrow> deviceTwins st = ix \<and> types_of st = types \<and>
     (if subscribed then open_ok {} st
      else client_pointer st \<and> deviceTwinCallbackHandler (tw_hub st) = None \<and>
        (\<forall>i \<in> set ix. i < length (tw_bindings st) \<and> propertyValue (tw_bindings st ! i) = None))"

lemma types_nth: "open_ok X st \<Longrightarrow> i \<in> set (deviceTwins st) \<Longrightarrow> types_of st ! i = twinType (tw_bindings st ! i)"
  by (simp add: open_ok_def types_of_def)

text \<open>Asking for the connection and working leave the registration alone.\<close>

lemma twin_callback_network [simp]: "deviceTwinCallbackHandler (snd (isNetworkReady env st)) = deviceTwinCallbackHandler st"
  using isNetworkReady_more [of env st] by (cases st; cases "snd (isNetworkReady env st)") auto

lemma twin_callback_asked [simp]: "deviceTwinCallbackHandler (snd (dx_isAzureConnected env st)) = deviceTwinCallbackHandler st"
  by (simp add: dx_isAzureConnected_alt ProcessConnectionStatusCallbacks_def Let_def split_beta)

lemma twin_callback_worked [simp]: "deviceTwinCallbackHandler (hub_DoWork env st) = deviceTwinCallbackHandler st"
proof -
  have one: "deviceTwinCallbackHandler (hub_callback env st e) = deviceTwinCallbackHandler st" for e st
    by (cases e) (auto simp: HubConnectionStatusCallback_def SendMessageCallback_def HubDeviceTwinCallback_def HubDirectMethodCallback_def
        HubMessageReceivedCallback_def sdk_def Let_def split: option.splits)
  have "deviceTwinCallbackHandler (foldl (hub_callback env) st es) = deviceTwinCallbackHandler st" for es st
    by (induction es arbitrary: st) (simp_all add: one)
  then show ?thesis by (simp add: hub_DoWork_def sdk_def)
qed

lemma closed_or_ok_twins:
  "twins_ok ix types subscribed st \<Longrightarrow> \<forall>i \<in> set ix. i < length (tw_bindings st) \<and> closed_or_ok (tw_bindings st ! i)"
  by (auto simp: twins_ok_def closed_or_ok_def open_ok_def split: if_splits)

lemma subscribe_again:
  assumes "block_mem env" "twins_ok ix types subscribed st"
  shows "\<exists>st'. dx_deviceTwinSubscribe env ix st = Some st' \<and> twins_ok ix types True st'"
  using twin_open_all [OF assms(1), of "set ix"
      "st\<lparr>tw_hub := dx_azureRegisterDeviceTwinCallback (Some TWIN_CALLBACK) (tw_hub st), client_pointer := True, deviceTwins := ix\<rparr>" "{}" ix]
    closed_or_ok_twins [OF assms(2)] assms(2)
  by (auto simp: dx_deviceTwinSubscribe_def twins_ok_def open_ok_def types_of_def at_rest_def)

lemma unsubscribe_returns:
  assumes "twins_ok ix types subscribed st"
  shows "\<exists>st'. dx_deviceTwinUnsubscribe st = Some st' \<and> twins_ok ix types False st'"
proof -
  let ?st = "st\<lparr>tw_hub := dx_azureRegisterDeviceTwinCallback None (tw_hub st)\<rparr>"
  have c: "\<forall>i \<in> set ix. i < length (tw_bindings ?st) \<and> closed_or_ok (tw_bindings ?st ! i)"
    using closed_or_ok_twins [OF assms] by simp
  obtain st' where st': "for_each deviceTwinClose ?st ix = Some st'" "deviceTwins st' = deviceTwins st" "client_pointer st' = client_pointer st"
    using twin_close_returns [OF c] by auto
  have "client_pointer st" "deviceTwins st = ix" using assms by (auto simp: twins_ok_def open_ok_def split: if_splits)
  then show ?thesis
    using twin_close_all [OF st'(1)] c st' assms
    by (auto simp: dx_deviceTwinUnsubscribe_def twins_ok_def dx_azureRegisterDeviceTwinCallback_def types_of_def)
qed

text \<open>Without a block there is nothing to write through while the binding is closed.\<close>

lemma closed_report:
  assumes st: "twins_ok ix types False st" and i: "may_report ix types False i v"
  shows "\<exists>r st'. deviceTwinReportState env (Some i) v ack code st = Some (r, st') \<and> twins_ok ix types False st'"
proof -
  obtain conn hub where hub: "dx_isAzureConnected (twin_hub_env env) (tw_hub st) = (conn, hub)" by fastforce
  have b: "i < length (tw_bindings st)" "propertyValue (tw_bindings st ! i) = None" "types ! i = twinType (tw_bindings st ! i)"
    "deviceTwinCallbackHandler hub = None"
    using st i twin_callback_asked [of "twin_hub_env env" "tw_hub st"] by (auto simp: twins_ok_def types_of_def hub)
  obtain s where s: "value_text (twinType (tw_bindings st ! i)) v = Some s" using i b(3) by auto
  have ok: "binding_ok (tw_bindings st ! i)" using i b(2,3) by (simp add: binding_ok_def)
  have r: "twins_ok ix types False (reported_state i v hub st)" "twins_ok ix types False (st\<lparr>tw_hub := hub\<rparr>)"
    using st i b by (auto simp: twins_ok_def reported_state_def)
  have upd: "\<exists>r st'. deviceTwinUpdateReportedState env t (reported_state i v hub st) = Some (r, st') \<and> twins_ok ix types False st'" for t
    using r(1) by (auto simp: deviceTwinUpdateReportedState_def twins_ok_def types_of_def)
  show ?thesis
    using upd r(2) by (simp only: report_step [OF hub s ok] Let_def split: if_splits) auto
qed

lemma twin_use_ok:
  assumes "handlers_ok call" "twins_ok ix types subscribed st" "uses_ok ix types subscribed ((env, u) # us)"
  shows "\<exists>st' subscribed'. twin_run call st (env, u) = Some st' \<and> twins_ok ix types subscribed' st' \<and> uses_ok ix types subscribed' us \<and>
    subscribed_after subscribed ((env, u) # us) = subscribed_after subscribed' us"
proof (cases u)
  case (Subscribe ix')
  then show ?thesis using subscribe_again [of env ix types subscribed st] assms(2,3) by auto
next
  case Unsubscribe
  then show ?thesis using unsubscribe_returns [OF assms(2)] assms(3) by auto
next
  case (Desired payload)
  then show ?thesis
    using twin_message_ok [OF assms(1), of st env payload] assms(2,3) by (cases subscribed) (auto simp: twins_ok_def)
next
  case (Report i v)
  then have i: "may_report ix types subscribed i v" using assms(3) by simp
  have "\<exists>st'. twin_run call st (env, u) = Some st' \<and> twins_ok ix types subscribed st'"
  proof (cases subscribed)
    case True
    then show ?thesis
      using report_value_ok [of "{}" st i v env] types_nth [of "{}" st i] i assms(2) by (auto simp: Report twins_ok_def)
  next
    case False
    then obtain r st' where r: "deviceTwinReportState env (Some i) v False 200 st = Some (r, st')" "twins_ok ix types False st'"
      using closed_report [of ix types st i v env False 200] assms(2) i by auto
    then have "client_pointer st'" by (simp add: twins_ok_def)
    then show ?thesis using r False
      by (auto simp: Report dx_deviceTwinReportValue_def twins_ok_def types_of_def)
  qed
  then show ?thesis using assms(3) by (auto simp: Report)
next
  case (Acknowledge i v code)
  then have i: "may_report ix types subscribed i v" using assms(3) by simp
  have "\<exists>st'. twin_run call st (env, u) = Some st' \<and> twins_ok ix types subscribed st'"
  proof (cases subscribed)
    case True
    then show ?thesis
      using report_ok [of "{}" st i v env True code] types_nth [of "{}" st i] i assms(2)
      by (auto simp: Acknowledge twins_ok_def dx_deviceTwinAckDesiredValue_def)
  next
    case False
    then show ?thesis
      using closed_report [of ix types st i v env True code] assms(2) i
      by (auto simp: Acknowledge dx_deviceTwinAckDesiredValue_def)
  qed
  then show ?thesis using assms(3) by (auto simp: Acknowledge)
qed

lemma twin_uses_ok:
  assumes "handlers_ok call" "twins_ok ix types subscribed st" "uses_ok ix types subscribed uses"
  shows "\<exists>st'. for_each (twin_run call) st uses = Some st' \<and> twins_ok ix types (subscribed_after subscribed uses) st'"
  using assms(2,3)
proof (induction uses arbitrary: st subscribed)
  case (Cons eu us)
  obtain env u where eu: "eu = (env, u)" by fastforce
  obtain st1 subscribed' where st1: "twin_run call st eu = Some st1" "twins_ok ix types subscribed' st1" "uses_ok ix types subscribed' us"
    "subscribed_after subscribed (eu # us) = subscribed_after subscribed' us"
    using twin_use_ok [OF assms(1) Cons.prems(1), of env u us] Cons.prems(2) unfolding eu by blast
  then show ?case using Cons.IH [OF st1(2,3)] by simp
qed simp

text \<open>
  C10: an application subscribes bindings whose value pointers are NULL, with memory for their blocks, and from then on reports,
  acknowledges, unsubscribes and subscribes again in any order, while the hub delivers whatever it likes.  As long as numbers and
  bools are reported only while subscribed (after unsubscribing such a report is written through NULL), values have the types of their
  bindings, and handlers return without closing bindings or leaving a wrong value, nothing crashes; while subscribed, the value pointer of
  every binding points to a block with a value of its type, or is NULL for a string or an object, so that no pointer into a JSON document
  stays behind when the document is freed; while unsubscribed it is NULL.
\<close>

theorem twin_values_keep_type:
  assumes "handlers_ok call" "block_mem env"
    "\<forall>i \<in> set ix. i < length (tw_bindings st) \<and> propertyValue (tw_bindings st ! i) = None"
    "uses_ok ix (types_of st) True uses"
  shows "\<exists>st1 st2. dx_deviceTwinSubscribe env ix st = Some st1 \<and> for_each (twin_run call) st1 uses = Some st2 \<and>
    (\<forall>i \<in> set ix. case propertyValue (tw_bindings st2 ! i) of
       None \<Rightarrow> subscribed_after True uses \<longrightarrow>
         twinType (tw_bindings st ! i) \<in> {DX_TYPE_UNKNOWN, DX_DEVICE_TWIN_STRING, DX_DEVICE_TWIN_JSON_OBJECT}
     | Some v \<Rightarrow> subscribed_after True uses \<and> has_type v (twinType (tw_bindings st ! i)) \<and> is_block v)"
proof -
  obtain st1 where st1: "dx_deviceTwinSubscribe env ix st = Some st1" "twins_ok ix (types_of st) True st1"
    using subscribe_ok [OF assms(2,3)] by (auto simp: twins_ok_def)
  obtain st2 where st2: "for_each (twin_run call) st1 uses = Some st2" "twins_ok ix (types_of st) (subscribed_after True uses) st2"
    using twin_uses_ok [OF assms(1) st1(2) assms(4)] by blast
  have "case propertyValue (tw_bindings st2 ! i) of
       None \<Rightarrow> subscribed_after True uses \<longrightarrow>
         twinType (tw_bindings st ! i) \<in> {DX_TYPE_UNKNOWN, DX_DEVICE_TWIN_STRING, DX_DEVICE_TWIN_JSON_OBJECT}
     | Some v \<Rightarrow> subscribed_after True uses \<and> has_type v (twinType (tw_bindings st ! i)) \<and> is_block v" if i: "i \<in> set ix" for i
  proof (cases "subscribed_after True uses")
    case True
    then have "at_rest (tw_bindings st2 ! i)" using st2(2) i by (simp add: twins_ok_def open_ok_def)
    moreover have "twinType (tw_bindings st2 ! i) = twinType (tw_bindings st ! i)"
      using True types_nth [of "{}" st2 i] st2(2) i assms(3) by (simp add: twins_ok_def types_of_def)
    ultimately show ?thesis using True
      by (cases "twinType (tw_bindings st ! i)") (auto simp: at_rest_def binding_ok_def split: option.splits)
  next
    case False
    then show ?thesis using st2(2) i by (simp add: twins_ok_def)
  qed
  then show ?thesis using st1(1) st2(1) by blast
qed

section \<open>The JSON text of a report\<close>






lemma report_denotes:
  assumes "\<forall>k. mem k" "plain name" "denotes mem 1 v j"
  shows "denotes mem 0 (report_text name v) (Obj [(name, j)])"
  using object_denotes [where mem = mem and sp = "[]" and n = 0 and ms = "[(name, v, j)]"] assms
  by (simp add: report_text_def quoted_def)


text \<open>Every text that is handed to the SDK fits its buffer.\<close>

lemma digits_cstring: "\<forall>c \<in> set s. isdigit c \<Longrightarrow> is_cstring s"
  by (auto simp: is_cstring_def dest: isdigit_not(8))

lemma show_int_cstring [simp]: "is_cstring (show_int i)"
  using digits_cstring [OF show_nat_digits] by (simp add: show_int_def)

lemma printf_f_cstring [simp]: "is_cstring (printf_f x)"
  using digits_cstring [OF show_nat_digits] digits_cstring [OF digits_n_facts(2)]
  by (cases x) (auto simp: sign_text_def Let_def split: prod.split simp del: digits_n.simps)



lemma connected_handle: "dx_isAzureConnected env st = (True, st') \<Longrightarrow> iothubClientHandle st' \<noteq> None"
  using isAzureConnected_true [of env st] isAzureConnected_fields(1) [of env st] by simp




definition twin_grants :: twin_env where
  "twin_grants = \<lparr>twin_hub_env = granting_env, twin_json_mem = (\<lambda>_. True), block_mem = True, payload_mem = True,
     report_mem = True, report_sent = True, twin_cast_overflow = 0\<rparr>"

definition int_binding :: twin_binding where
  "int_binding = \<lparr>propertyName = ''n'', propertyValue = None, propertyVersion = 3, propertyUpdated = False,
     twinType = DX_DEVICE_TWIN_INT, twin_handler = Some 1\<rparr>"

definition sample_twins :: "unit twins" where
  "sample_twins = \<lparr>tw_hub = connected_state, tw_bindings = [int_binding, int_binding\<lparr>propertyName := ''s'', twinType := DX_DEVICE_TWIN_STRING\<rparr>],
     deviceTwins = [], client_pointer = False, reported = [], tw_app = ()\<rparr>"


text \<open>A handler that acknowledges what it is told, for an example.\<close>

definition acknowledge :: "nat \<Rightarrow> nat \<Rightarrow> 'a twins \<Rightarrow> 'a twins option" where
  "acknowledge h i st =
     (case propertyValue (tw_bindings st ! i) of
        None \<Rightarrow> Some st
      | Some v \<Rightarrow> if value_text (twinType (tw_bindings st ! i)) v = None then Some st
                  else map_option snd (dx_deviceTwinAckDesiredValue twin_grants (Some i) v 200 st))"

lemma acknowledge_ok: "handlers_ok acknowledge"
proof -
  have "\<exists>st'. acknowledge h i st = Some st' \<and> open_ok {i} st' \<and> deviceTwins st' = deviceTwins st \<and> types_of st' = types_of st"
    if st: "open_ok {i} st" "i \<in> set (deviceTwins st)" for h i and st :: "'a twins"
  proof (cases "propertyValue (tw_bindings st ! i)")
    case (Some v)
    show ?thesis
    proof (cases "value_text (twinType (tw_bindings st ! i)) v")
      case (Some s)
      then obtain r st' where "dx_deviceTwinAckDesiredValue twin_grants (Some i) v 200 st = Some (r, st')" "open_ok {i} st'"
        "deviceTwins st' = deviceTwins st" "types_of st' = types_of st"
        using report_ok [OF st, of v twin_grants True 200] unfolding dx_deviceTwinAckDesiredValue_def by auto
      with Some \<open>propertyValue (tw_bindings st ! i) = Some v\<close> show ?thesis by (simp add: acknowledge_def)
    qed (use st Some in \<open>simp add: acknowledge_def\<close>)
  qed (use st in \<open>simp add: acknowledge_def\<close>)
  then show ?thesis by (simp add: handlers_ok_def)
qed

lemma twin_values_keep_type_witness:
  "\<exists>st1 st2. dx_deviceTwinSubscribe twin_grants [0, 1] sample_twins = Some st1 \<and>
     for_each (twin_run acknowledge) st1 [(twin_grants, Desired ''{}''), (twin_grants, Report 0 (Int_Value 7)), (twin_grants, Unsubscribe),
       (twin_grants, Acknowledge 1 (String_Value ''on'') 200), (twin_grants, Subscribe [0, 1]), (twin_grants, Report 0 (Int_Value 8))] = Some st2 \<and>
     (\<exists>v. propertyValue (tw_bindings st2 ! 0) = Some v \<and> has_type v DX_DEVICE_TWIN_INT)"
proof -
  define uses where "uses = [(twin_grants, Desired ''{}''), (twin_grants, Report 0 (Int_Value 7)), (twin_grants, Unsubscribe),
       (twin_grants, Acknowledge 1 (String_Value ''on'') 200), (twin_grants, Subscribe [0, 1]), (twin_grants, Report 0 (Int_Value 8))]"
  have types: "types_of sample_twins = [DX_DEVICE_TWIN_INT, DX_DEVICE_TWIN_STRING]"
      "twinType (tw_bindings sample_twins ! 0) = DX_DEVICE_TWIN_INT"
    by (simp_all add: sample_twins_def int_binding_def types_of_def)
  have mem: "block_mem twin_grants" by (simp add: twin_grants_def)
  have ix: "\<forall>i \<in> set [0, 1]. i < length (tw_bindings sample_twins) \<and> propertyValue (tw_bindings sample_twins ! i) = None"
    by (simp add: sample_twins_def int_binding_def)
  have "uses_ok [0, 1] (types_of sample_twins) True uses" by (simp add: uses_def types mem)
  note twin_values_keep_type [OF acknowledge_ok mem ix this]
  then obtain st1 st2 where st: "dx_deviceTwinSubscribe twin_grants [0, 1] sample_twins = Some st1"
    "for_each (twin_run acknowledge) st1 uses = Some st2"
    and v: "\<forall>i \<in> set [0, 1]. case propertyValue (tw_bindings st2 ! i) of
       None \<Rightarrow> subscribed_after True uses \<longrightarrow>
         twinType (tw_bindings sample_twins ! i) \<in> {DX_TYPE_UNKNOWN, DX_DEVICE_TWIN_STRING, DX_DEVICE_TWIN_JSON_OBJECT}
     | Some v \<Rightarrow> subscribed_after True uses \<and> has_type v (twinType (tw_bindings sample_twins ! i)) \<and> is_block v"
    by blast
  have "subscribed_after True uses" by (simp add: uses_def)
  then have "\<exists>v. propertyValue (tw_bindings st2 ! 0) = Some v \<and> has_type v DX_DEVICE_TWIN_INT"
    using v types(2) by (auto split: option.splits)
  then show ?thesis using st unfolding uses_def by blast
qed

text \<open>
  A number whose decimal notation is longer than the buffer is cut off, and the cut text is handed over as if it were whole.
\<close>

lemma twin_report_cut:
  assumes "open_ok X st" "i \<in> set (deviceTwins st)" "tw_bindings st ! i = b" "twinType b = DX_DEVICE_TWIN_DOUBLE"
    "fst (dx_isAzureConnected (twin_hub_env env) (tw_hub st))" "report_mem env" "is_cstring (propertyName b)" "45 \<le> length (printf_f x)"
  shows "\<exists>st' t. deviceTwinReportState env (Some i) (Double_Value x) False code st = Some (report_sent env, st') \<and>
    reported st' = reported st @ [t] \<and> length t < length (report_text (propertyName b) (printf_f x))"
proof -
  obtain hub where hub: "dx_isAzureConnected (twin_hub_env env) (tw_hub st) = (True, hub)" using assms(5) by (metis prod.collapse)
  let ?n = "report_size b (Double_Value x) False" and ?t = "report_text (propertyName b) (printf_f x)"
  have "is_cstring ?t" using assms(7) by (simp add: report_text_def quoted_def)
  moreover have "0 < ?n" "?n \<le> length ?t" using assms(8) by (simp_all add: report_size_def report_text_def quoted_def)
  ultimately have "length (cstr (snprintf (replicate ?n NUL) ?n ?t)) < length ?t" by (simp add: cstr_snprintf)
  moreover have "deviceTwinReportState env (Some i) (Double_Value x) False code st =
      deviceTwinUpdateReportedState env (cstr (snprintf (replicate ?n NUL) ?n ?t)) (reported_state i (Double_Value x) hub st)"
    using report_step [OF hub, of i "Double_Value x" "printf_f x" False code] assms(3,4,6) open_binding [OF assms(1,2)]
    by (simp add: Let_def)
  moreover have "client_pointer st" using assms(1) by (simp add: open_ok_def)
  ultimately show ?thesis using connected_handle [OF hub]
    by (auto simp: deviceTwinUpdateReportedState_def reported_state_def)
qed

section \<open>Desired values\<close>

text \<open>
  The JSON value that each type of binding accepts, and what it becomes: a number is cut to an int or rounded to a float, a string is a C
  string up to its first NUL, and every other kind of value is refused.
\<close>

fun accepted :: "twin_env \<Rightarrow> twin_type \<Rightarrow> json_value \<Rightarrow> twin_value option" where
  "accepted env DX_DEVICE_TWIN_INT (JNumber x) = Some (Int_Value (twin_int env x))"
| "accepted env DX_DEVICE_TWIN_FLOAT (JNumber x) = Some (Float_Value (float_of_double x))"
| "accepted env DX_DEVICE_TWIN_DOUBLE (JNumber x) = Some (Double_Value x)"
| "accepted env DX_DEVICE_TWIN_BOOL (JBoolean b) = Some (Bool_Value b)"
| "accepted env DX_DEVICE_TWIN_STRING (JString s) = Some (String_Value (cstr s))"
| "accepted env DX_DEVICE_TWIN_JSON_OBJECT (JObject obj) = Some (Object_Value obj)"
| "accepted env _ _ = None"

text \<open>The binding that its handler is called with, if it is called, and the binding afterwards.\<close>

definition desired_version :: "twin_env \<Rightarrow> json_obj \<Rightarrow> twin_binding \<Rightarrow> twin_binding" where
  "desired_version env obj b =
     (case json_object_get_value (Some obj) (Some ''$version'') of Some (JNumber x) \<Rightarrow> b\<lparr>propertyVersion := twin_int env x\<rparr> | _ \<Rightarrow> b)"

definition shown_binding :: "twin_env \<Rightarrow> json_obj \<Rightarrow> twin_binding \<Rightarrow> twin_binding option" where
  "shown_binding env obj b =
     map_option (\<lambda>v. if is_block v then (desired_version env obj b)\<lparr>propertyValue := Some v, propertyUpdated := True\<rparr>
                     else (desired_version env obj b)\<lparr>propertyValue := Some v\<rparr>)
       (Option.bind (json_object_get_value (Some obj) (Some (propertyName b))) (accepted env (twinType b)))"

definition desired_binding :: "twin_env \<Rightarrow> json_obj \<Rightarrow> twin_binding \<Rightarrow> twin_binding" where
  "desired_binding env obj b =
     (if json_object_get_value (Some obj) (Some (propertyName b)) = None then b
      else case shown_binding env obj b of
             None \<Rightarrow> desired_version env obj b
           | Some b' \<Rightarrow> (case propertyValue b' of Some v \<Rightarrow> if is_block v then b' else b'\<lparr>propertyValue := None\<rparr> | None \<Rightarrow> b'))"

text \<open>A handler that is only about the application's own data: \<open>act\<close> is what it makes of them, given its binding.\<close>

definition told_handler ::
    "(nat \<Rightarrow> nat \<Rightarrow> twin_binding \<Rightarrow> 'a \<Rightarrow> 'a) \<Rightarrow> twin_env \<Rightarrow> json_obj \<Rightarrow> twin_binding list \<Rightarrow> 'a \<Rightarrow> nat \<Rightarrow> 'a" where
  "told_handler act env obj bs app i =
     (case (twin_handler (bs ! i), shown_binding env obj (bs ! i)) of
        (Some h, Some b) \<Rightarrow> act h i b app
      | _ \<Rightarrow> app)"

lemma has_value_of_type_alt:
  "json_object_has_value_of_type (Some obj) (Some k) t \<longleftrightarrow>
     (\<exists>v. json_object_get_value (Some obj) (Some k) = Some v \<and> json_value_get_type (Some v) = t)"
  by (auto simp: json_object_has_value_of_type_def json_object_has_value_def Let_def split: option.splits)

lemma desired_value_alt:
  "desired_value env obj b = Option.bind (json_object_get_value (Some obj) (Some (propertyName b))) (accepted env (twinType b))"
proof (cases "json_object_get_value (Some obj) (Some (propertyName b))")
  case (Some v)
  then show ?thesis
    by (cases "twinType b"; cases v)
       (simp_all add: desired_value_def has_value_of_type_alt json_object_get_number_def json_object_get_boolean_def
          json_object_get_string_def json_object_get_object_def json_value_get_number_def json_value_get_boolean_def
          json_value_get_string_def json_value_get_string_desc_def json_value_get_object_def Let_def)
qed (cases "twinType b"; simp add: desired_value_def has_value_of_type_alt)

lemma desired_version_alt:
  "desired_version env obj b =
     (if json_object_has_value_of_type (Some obj) (Some ''$version'') JSONNumber
      then b\<lparr>propertyVersion := twin_int env (json_object_get_number (Some obj) (Some ''$version''))\<rparr> else b)"
  by (auto simp: desired_version_def has_value_of_type_alt json_object_get_number_def json_value_get_number_def
      split: option.split json_value.split)

lemma desired_version_sel [simp]:
  "propertyName (desired_version env obj b) = propertyName b" "twinType (desired_version env obj b) = twinType b"
  "twin_handler (desired_version env obj b) = twin_handler b" "propertyValue (desired_version env obj b) = propertyValue b"
  by (simp_all add: desired_version_alt)

lemma set_binding_twice: "set_binding i f (set_binding i g st) = set_binding i (f \<circ> g) st"
  by (cases "i < length (tw_bindings st)") (simp_all add: set_binding_def list_update_beyond)

lemma set_binding_app: "(set_binding i f st)\<lparr>tw_app := a\<rparr> = set_binding i f (st\<lparr>tw_app := a\<rparr>)"
  by (simp add: set_binding_def)

lemma set_desired_plain:
  assumes "i < length (tw_bindings st)" "binding_ok (tw_bindings st ! i)"
    "json_object_get_value (Some obj) (Some (propertyName (tw_bindings st ! i))) \<noteq> None"
    and calls: "\<And>h i s. call h i s = Some (s\<lparr>tw_app := act h i (tw_bindings s ! i) (tw_app s)\<rparr>)"
  shows "SetDesiredState env call obj i st =
    Some (set_binding i (desired_binding env obj) (st\<lparr>tw_app := told_handler act env obj (tw_bindings st) (tw_app st) i\<rparr>))"
proof -
  define b where "b = tw_bindings st ! i"
  define d where "d = desired_version env obj"
  have st1: "(if json_object_has_value_of_type (Some obj) (Some ''$version'') JSONNumber
        then set_binding i (\<lambda>b. b\<lparr>propertyVersion := twin_int env (json_object_get_number (Some obj) (Some ''$version''))\<rparr>) st
        else st) = set_binding i d st"
    by (simp add: d_def desired_version_alt set_binding_def)
  have nth: "tw_bindings (set_binding i f s) ! i = f (tw_bindings s ! i)" if "length (tw_bindings s) = length (tw_bindings st)"
    for f and s :: "'a twins" using assms(1) that by simp
  have eq: "set_binding i h s = set_binding i h' s" if "h (tw_bindings s ! i) = h' (tw_bindings s ! i)" for h h' and s :: "'a twins"
    using that by (simp add: set_binding_def)
  have value_eq: "desired_value env obj (d b) = desired_value env obj b" by (simp add: desired_value_alt d_def)
  have block: "propertyValue b \<noteq> None" if "desired_value env obj b = Some v" "is_block v" for v
    using desired_value_type [OF that(1)] that(2) assms(2) by (auto simp: binding_ok_def b_def split: option.splits)
  have shown: "shown_binding env obj b = map_option (\<lambda>v. if is_block v then (d b)\<lparr>propertyValue := Some v, propertyUpdated := True\<rparr>
      else (d b)\<lparr>propertyValue := Some v\<rparr>) (desired_value env obj b)"
    by (simp add: shown_binding_def desired_value_alt d_def cong: if_cong)
  have db: "desired_binding env obj b = (case desired_value env obj b of None \<Rightarrow> d b
      | Some v \<Rightarrow> if is_block v then (d b)\<lparr>propertyValue := Some v, propertyUpdated := True\<rparr> else (d b)\<lparr>propertyValue := None\<rparr>)"
    using assms(3) by (auto simp: desired_binding_def shown b_def [symmetric] d_def split: option.split)
  have b1: "tw_bindings (set_binding i d st) ! i = d b" using nth [of st d] by (simp add: b_def)
  have handler: "twin_handler (d b) = twin_handler b" "propertyValue (d b) = propertyValue b" by (simp_all add: d_def)
  show ?thesis
  proof (cases "desired_value env obj b")
    case None
    then have "told_handler act env obj (tw_bindings st) (tw_app st) i = tw_app st"
      by (simp add: told_handler_def b_def [symmetric] shown split: option.split)
    then show ?thesis
      unfolding SetDesiredState_def Let_def st1 b1 value_eq using None db
      by (auto simp: b_def intro!: eq)
  next
    case (Some v)
    define shown_b where "shown_b = (if is_block v then (d b)\<lparr>propertyValue := Some v, propertyUpdated := True\<rparr> else (d b)\<lparr>propertyValue := Some v\<rparr>)"
    have told: "told_handler act env obj (tw_bindings st) (tw_app st) i =
        (case twin_handler b of None \<Rightarrow> tw_app st | Some h \<Rightarrow> act h i shown_b (tw_app st))"
      by (simp add: told_handler_def b_def [symmetric] shown Some shown_b_def split: option.split)
    show ?thesis
    proof (cases "is_block v")
      case True
      have "set_binding i (\<lambda>b. b\<lparr>propertyValue := Some v, propertyUpdated := True\<rparr>) (set_binding i d st) =
          set_binding i (desired_binding env obj) st"
        unfolding set_binding_twice by (rule eq) (simp add: b_def [symmetric] db Some True)
      moreover have "tw_bindings (set_binding i (desired_binding env obj) st) ! i = shown_b"
        using nth [of st "desired_binding env obj"] by (simp add: b_def [symmetric] db Some True shown_b_def)
      ultimately show ?thesis
        unfolding SetDesiredState_def Let_def st1 b1 value_eq Some handler told
        using True block [OF Some True] by (auto simp: calls set_binding_app split: option.split) (simp add: set_binding_def)+
    next
      case False
      have "tw_bindings (set_binding i (\<lambda>b. b\<lparr>propertyValue := Some v\<rparr>) (set_binding i d st)) ! i = shown_b"
        using nth [of "set_binding i d st" "\<lambda>b. b\<lparr>propertyValue := Some v\<rparr>"] by (simp add: b1 shown_b_def False)
      moreover have "set_binding i (\<lambda>b. b\<lparr>propertyValue := None\<rparr>)
          (set_binding i (\<lambda>b. b\<lparr>propertyValue := Some v\<rparr>) (set_binding i d s)) = set_binding i (desired_binding env obj) s"
        if "tw_bindings s ! i = b" for s :: "'a twins"
        unfolding set_binding_twice by (rule eq) (simp add: that db Some False)
      ultimately show ?thesis
        unfolding SetDesiredState_def Let_def st1 b1 value_eq Some handler told
        using False by (auto simp: calls set_binding_app b_def split: option.split) (simp add: set_binding_def)+
    qed
  qed
qed

lemma for_each_bindings:
  assumes "distinct xs" "\<forall>i \<in> set xs. i < length (tw_bindings st) \<and> P (tw_bindings st ! i)"
    "\<And>s i. i < length (tw_bindings s) \<Longrightarrow> P (tw_bindings s ! i) \<Longrightarrow>
       f s i = Some (set_binding i g (s\<lparr>tw_app := k (tw_bindings s) (tw_app s) i\<rparr>))"
    "\<And>bs bs' i a. bs ! i = bs' ! i \<Longrightarrow> k bs a i = k bs' a i"
  shows "\<exists>st'. for_each f st xs = Some st' \<and> length (tw_bindings st') = length (tw_bindings st) \<and>
    tw_app st' = foldl (k (tw_bindings st)) (tw_app st) xs \<and>
    (\<forall>j < length (tw_bindings st). tw_bindings st' ! j = (if j \<in> set xs then g (tw_bindings st ! j) else tw_bindings st ! j))"
  using assms(1,2)
proof (induction xs arbitrary: st)
  case (Cons x xs)
  define st1 where "st1 = set_binding x g (st\<lparr>tw_app := k (tw_bindings st) (tw_app st) x\<rparr>)"
  have f: "f st x = Some st1" using Cons.prems assms(3) by (simp add: st1_def)
  have st1: "length (tw_bindings st1) = length (tw_bindings st)" "tw_app st1 = k (tw_bindings st) (tw_app st) x"
    "\<And>j. j < length (tw_bindings st) \<Longrightarrow> tw_bindings st1 ! j = (if j = x then g (tw_bindings st ! j) else tw_bindings st ! j)"
    by (auto simp: st1_def set_binding_def)
  have same: "tw_bindings st1 ! j = tw_bindings st ! j" if "j \<in> set xs" for j
    using that Cons.prems st1(3) by (metis distinct.simps(2) list.set_intros(2))
  have "\<forall>i \<in> set xs. i < length (tw_bindings st1) \<and> P (tw_bindings st1 ! i)"
    using Cons.prems(2) same st1(1) by simp
  then obtain st' where st': "for_each f st1 xs = Some st'" "length (tw_bindings st') = length (tw_bindings st1)"
    "tw_app st' = foldl (k (tw_bindings st1)) (tw_app st1) xs"
    "\<forall>j < length (tw_bindings st1). tw_bindings st' ! j = (if j \<in> set xs then g (tw_bindings st1 ! j) else tw_bindings st1 ! j)"
    using Cons.IH [of st1] Cons.prems(1) by auto
  have "foldl (k (tw_bindings st1)) a xs = foldl (k (tw_bindings st)) a xs" for a
    using same assms(4) [of "tw_bindings st1" _ "tw_bindings st"] by (intro foldl_cong) auto
  then show ?case using f st' st1 same Cons.prems by auto
qed simp

text \<open>
  C27: a message is applied to every subscribed binding on its own, whatever the order: a named value of the JSON type that the binding's type
  accepts is stored, numbers as the int, float or double of the binding, a bool, and a string or an object only while the handler
  runs; a value of another type is refused; the version is taken over in both cases, and every other binding stays as it is.  Every
  handler of a binding that accepts its value is called once, in the order of the bindings, and is shown the value; here the
  handlers work on the application's own data.  A document without an object "desired" is itself the object of the desired values.
\<close>

theorem twin_desired_values:
  assumes "payload_mem env" "json_parse_string (twin_json_mem env) (Some (cstr (payload @ [NUL]))) = Some (JObject whole)"
    "obj = (case json_object_dotget_object (Some whole) ''desired'' of None \<Rightarrow> whole | Some d \<Rightarrow> d)"
    "open_ok X st" "distinct (deviceTwins st)" "\<forall>h i s. call h i s = Some (s\<lparr>tw_app := act h i (tw_bindings s ! i) (tw_app s)\<rparr>)"
  shows "\<exists>st'. DeviceTwinCallbackHandler env call payload st = Some st' \<and> length (tw_bindings st') = length (tw_bindings st) \<and>
    tw_app st' = foldl (told_handler act env obj (tw_bindings st)) (tw_app st) (deviceTwins st) \<and>
    (\<forall>j < length (tw_bindings st). tw_bindings st' ! j =
       (if j \<in> set (deviceTwins st) then desired_binding env obj (tw_bindings st ! j) else tw_bindings st ! j))"
proof -
  let ?f = "\<lambda>s i. if json_object_get_value (Some obj) (Some (propertyName (tw_bindings s ! i))) \<noteq> None
    then SetDesiredState env call obj i s else Some s"
  have calls: "call h i s = Some (s\<lparr>tw_app := act h i (tw_bindings s ! i) (tw_app s)\<rparr>)" for h i s using assms(6) by blast
  have "?f s i = Some (set_binding i (desired_binding env obj) (s\<lparr>tw_app := told_handler act env obj (tw_bindings s) (tw_app s) i\<rparr>))"
    if i: "i < length (tw_bindings s)" "binding_ok (tw_bindings s ! i)" for s i
  proof (cases "json_object_get_value (Some obj) (Some (propertyName (tw_bindings s ! i))) = None")
    case True
    then have "desired_binding env obj (tw_bindings s ! i) = tw_bindings s ! i" "shown_binding env obj (tw_bindings s ! i) = None"
      by (simp_all add: desired_binding_def shown_binding_def)
    with True show ?thesis by (simp add: set_binding_def told_handler_def split: option.split)
  next
    case False
    then show ?thesis using set_desired_plain [OF i False calls] by simp
  qed
  from for_each_bindings [where P = binding_ok and f = ?f and k = "told_handler act env obj", OF assms(5) _ this]
  have "\<exists>st'. for_each ?f st (deviceTwins st) = Some st' \<and> length (tw_bindings st') = length (tw_bindings st) \<and>
    tw_app st' = foldl (told_handler act env obj (tw_bindings st)) (tw_app st) (deviceTwins st) \<and>
    (\<forall>j < length (tw_bindings st). tw_bindings st' ! j =
       (if j \<in> set (deviceTwins st) then desired_binding env obj (tw_bindings st ! j) else tw_bindings st ! j))"
    using assms(4) by (auto simp: open_ok_def told_handler_def)
  then show ?thesis
    using assms(1,2) by (simp add: DeviceTwinCallbackHandler_def Let_def json_value_get_object_def assms(3) [symmetric])
qed

lemma parsed_member:
  assumes "\<forall>k. mem k" "plain name" "denotes mem 1 s (Num x)"
  shows "\<exists>obj. json_parse_string mem (Some (report_text name s)) = Some (JObject obj) \<and>
    (\<forall>k. json_object_get_value (Some obj) (Some k) = (if k = name then Some (JNumber x) else None))"
proof -
  obtain v where v: "json_parse_string mem (Some (report_text name s)) = Some v" "json_abs v = Obj [(name, Num x)]"
    using denotes_parse [OF report_denotes [OF assms]] by blast
  obtain obj where obj: "v = JObject obj" using v(2) by (cases v) auto
  have "value_ok v" using v(1) parse_ok(1) by (auto simp: json_parse_string_def split: option.splits if_splits)
  then have ok: "table_ok obj" by (simp add: obj)
  have "zip (names obj) (map json_abs (obj_values obj)) = [(name, Num x)]" using v(2) by (simp add: obj)
  moreover from this have "obj_items obj = [(name, JNumber x)]"
    unfolding obj_items_def by (cases "names obj"; cases "obj_values obj") (auto elim: json_abs.elims)
  ultimately show ?thesis using v(1) ok
    by (intro exI [of _ obj]) (simp add: obj json_object_get_value_def getn_value_all obj_map_def)
qed

text \<open>The witness: a handler that notes the values it is shown.\<close>

definition note_value :: "nat \<Rightarrow> nat \<Rightarrow> twin_value option list twins \<Rightarrow> twin_value option list twins option" where
  "note_value h i s = Some (s\<lparr>tw_app := tw_app s @ [propertyValue (tw_bindings s ! i)]\<rparr>)"

lemma twin_desired_values_witness:
  "\<exists>st'. DeviceTwinCallbackHandler twin_grants note_value (report_text ''n'' ''5'')
      \<lparr>tw_hub = connected_state, tw_bindings = [int_binding\<lparr>propertyValue := Some (Int_Value 0)\<rparr>, int_binding\<lparr>propertyName := ''s'', twinType := DX_DEVICE_TWIN_STRING\<rparr>],
       deviceTwins = [0], client_pointer = True, reported = [], tw_app = []\<rparr> = Some st' \<and>
    propertyValue (tw_bindings st' ! 0) = Some (Int_Value 5) \<and> tw_app st' = [Some (Int_Value 5)]"
proof -
  let ?b = "int_binding\<lparr>propertyValue := Some (Int_Value 0)\<rparr>"
  let ?st = "\<lparr>tw_hub = connected_state, tw_bindings = [?b, int_binding\<lparr>propertyName := ''s'', twinType := DX_DEVICE_TWIN_STRING\<rparr>],
       deviceTwins = [0], client_pointer = True, reported = [], tw_app = []\<rparr> :: twin_value option list twins"
  have five: "show_int 5 = ''5''" by code_simp
  obtain obj where obj: "json_parse_string (\<lambda>_. True) (Some (report_text ''n'' ''5'')) = Some (JObject obj)"
    "\<And>k. json_object_get_value (Some obj) (Some k) = (if k = ''n'' then Some (JNumber (double_of_int 5)) else None)"
    using parsed_member [of "\<lambda>_. True" "''n''" "show_int 5" "double_of_int 5"] int_reads_back [of 5 1 "\<lambda>_. True"]
    by (auto simp: reads_back_denotes five)
  have "is_cstring (report_text ''n'' ''5'')" by (simp add: report_text_def quoted_def)
  then have "json_parse_string (twin_json_mem twin_grants) (Some (cstr (report_text ''n'' ''5'' @ [NUL]))) = Some (JObject obj)"
    using obj(1) by (simp add: twin_grants_def)
  moreover have "obj = (case json_object_dotget_object (Some obj) ''desired'' of None \<Rightarrow> obj | Some d \<Rightarrow> d)"
    by (simp add: json_object_dotget_object_def json_object_dotget_value.simps obj(2) dot_position_def json_value_get_object_def)
  moreover have "open_ok {} ?st" "distinct (deviceTwins ?st)"
    by (simp_all add: open_ok_def at_rest_def binding_ok_def int_binding_def)
  moreover have "payload_mem twin_grants" by (simp add: twin_grants_def)
  moreover define act where "act = (\<lambda>(h :: nat) (i :: nat) (b :: twin_binding) (l :: twin_value option list). l @ [propertyValue b])"
  moreover have "\<forall>h i s. note_value h i s = Some (s\<lparr>tw_app := act h i (tw_bindings s ! i) (tw_app s)\<rparr>)"
    by (simp add: note_value_def act_def)
  ultimately obtain st' where st': "DeviceTwinCallbackHandler twin_grants note_value (report_text ''n'' ''5'') ?st = Some st'"
    "tw_bindings st' ! 0 = desired_binding twin_grants obj ?b" "tw_app st' = told_handler act twin_grants obj (tw_bindings ?st) [] 0"
    using twin_desired_values [of twin_grants "report_text ''n'' ''5''" obj obj "{}" ?st note_value act] by auto
  have "log2_floor 5 1 = 2" by (rule log2_floor_unique) simp_all
  then have "int_of_double (double_of_int 5) = Some 5"
    by (simp add: double_of_int_def to_double_def round_scaled_def num_den_def round_div_def Let_def split_beta)
  then have "shown_binding twin_grants obj ?b = Some (?b\<lparr>propertyValue := Some (Int_Value 5), propertyUpdated := True\<rparr>)"
    by (simp add: shown_binding_def int_binding_def obj(2) twin_int_def desired_version_def)
  then have "desired_binding twin_grants obj ?b = ?b\<lparr>propertyValue := Some (Int_Value 5), propertyUpdated := True\<rparr>"
    "told_handler act twin_grants obj (tw_bindings ?st) [] 0 = [Some (Int_Value 5)]"
    by (simp_all add: desired_binding_def told_handler_def act_def int_binding_def obj(2))
  with st' show ?thesis by auto
qed

section \<open>After unsubscribing\<close>

text \<open>
  The header says that unsubscribing stops outbound updates; it does not, and a number that is reported afterwards while connected is
  written through the NULL pointer.
\<close>

lemma twin_report_after_unsubscribe:
  assumes "open_ok X st" "i \<in> set (deviceTwins st)" "dx_deviceTwinUnsubscribe st = Some st'"
    "twinType (tw_bindings st ! i) = DX_DEVICE_TWIN_INT" "report_mem env" "fst (dx_isAzureConnected (twin_hub_env env) (tw_hub st'))"
  shows "dx_deviceTwinReportValue env (Some i) (Int_Value n) st' = None"
proof -
  have i: "i < length (tw_bindings st)" using assms(1,2) by (simp add: open_ok_def)
  have all: "\<forall>i < length (tw_bindings st). i \<in> set (deviceTwins st) \<longrightarrow> propertyValue (tw_bindings st' ! i) = None"
    "length (tw_bindings st') = length (tw_bindings st)" "types_of st' = types_of st"
    using twin_close_all [of "st\<lparr>tw_hub := dx_azureRegisterDeviceTwinCallback None (tw_hub st)\<rparr>" "deviceTwins st" st'] assms(1,3)
    by (simp_all add: dx_deviceTwinUnsubscribe_def open_ok_def types_of_def)
  then have "twinType (tw_bindings st' ! i) = DX_DEVICE_TWIN_INT" "propertyValue (tw_bindings st' ! i) = None"
    using assms(2,4) i nth_map [of i "tw_bindings st'" twinType] nth_map [of i "tw_bindings st" twinType]
    by (simp_all add: types_of_def)
  moreover obtain hub where "dx_isAzureConnected (twin_hub_env env) (tw_hub st') = (True, hub)" using assms(6) by (metis prod.collapse)
  ultimately show ?thesis using assms(5) by (simp add: dx_deviceTwinReportValue_def deviceTwinReportState_def Let_def)
qed

text \<open>A report before any subscription reads the address of the hub client's handle from a NULL pointer, connected or not.\<close>

lemma twin_report_before_subscribe:
  assumes "\<not> client_pointer st" "\<not> fst (dx_isAzureConnected (twin_hub_env env) (tw_hub st))"
  shows "dx_deviceTwinReportValue env (Some i) v st = None"
proof -
  obtain hub where "dx_isAzureConnected (twin_hub_env env) (tw_hub st) = (False, hub)" using assms(2) by (metis (full_types) prod.collapse)
  then show ?thesis using assms(1) by (simp add: dx_deviceTwinReportValue_def deviceTwinReportState_def Let_def)
qed

end
