(* ===== verification/Dx_OpenAI.thy ===== *)
theory Dx_OpenAI
  imports Json_Text Dx_Utilities "HOL-Library.Monad_Syntax"
begin

text \<open>
  Function calls to OpenAI (src/src/dx_openai_functions.c): the context with the conversation, the request that is built
  from it and the answer handed to the application.  The transfer is curl's, as in the utilities; None is a
  read past the end of the block that the transfer left.
\<close>

section \<open>State\<close>

text \<open>
  The fields of the context; \<open>posted\<close> are the texts sent to OpenAI with their headers, \<open>answers\<close> the
  calls of \<open>openai_function_handler\<close> with content, finish reason, name and arguments of the function.
\<close>

type_synonym answer = "string option \<times> string option \<times> string option \<times> string option"

record openai =
  assistant_msg :: "string option"
  user_msg :: "string option"
  temperature :: double
  max_tokens :: int
  openai_function_handler :: bool
  json_root :: "json_value option"
  headers :: "string list option"
  posted :: "(string list \<times> string option) list"
  answers :: "answer list"

record openai_env =
  ai_mem :: "nat \<Rightarrow> bool"
  ai_alloc :: "nat \<Rightarrow> bool"
  ai_junk :: char
  ai_chunks :: "char list list"
  ai_transfer :: bool
  slist_mem :: bool

section \<open>The transfer\<close>

definition postHttpData :: "openai_env \<Rightarrow> char list option" where
  "postHttpData env =
     (let chunk = \<lparr>mem_memory = (if ai_alloc env 1 then Some [ai_junk env] else None), mem_size = 0\<rparr> in
      case curl_easy_perform (ai_alloc env) (ai_chunks env) (ai_transfer env) chunk of
        (ok, mem) \<Rightarrow> if ok then mem_memory mem else None)"

section \<open>The messages of the conversation\<close>

text \<open>The loop over the messages, up to the count at its start; the first message with the role is removed.\<close>

function del_loop :: "string \<Rightarrow> nat \<Rightarrow> json_arr \<Rightarrow> nat \<Rightarrow> json_arr" where
  "del_loop key array_size message_array i =
     (if i < array_size then
        (case json_array_get_object (Some message_array) i of
           None \<Rightarrow> del_loop key array_size message_array (Suc i)
         | Some message_object \<Rightarrow>
             (case json_object_get_string (Some message_object) (Some ''role'') of
                None \<Rightarrow> del_loop key array_size message_array (Suc i)
              | Some role \<Rightarrow>
                  if role = key then
                    (case json_array_remove (Some message_array) i of Inl _ \<Rightarrow> message_array | Inr a \<Rightarrow> a)
                  else del_loop key array_size message_array (Suc i)))
      else message_array)"
  by pat_completeness auto
termination by (relation "measure (\<lambda>(key, n, a, i). n - i)") auto

declare del_loop.simps [simp del]

definition del_existing_msgs :: "json_arr option \<Rightarrow> string \<Rightarrow> json_arr option" where
  "del_existing_msgs message_array key =
     (case message_array of
        None \<Rightarrow> None
      | Some a \<Rightarrow> Some (del_loop key (json_array_get_count message_array) a 0))"

definition append_message :: "openai_env \<Rightarrow> string \<Rightarrow> string \<Rightarrow> json_arr option \<Rightarrow> json_arr option" where
  "append_message env role content message_array =
     (let new_object = set_members
        [\<lambda>obj. json_object_set_string (ai_mem env) (Some obj) (Some ''role'') (Some role),
         \<lambda>obj. json_object_set_string (ai_mem env) (Some obj) (Some ''content'') (Some content)] json_object_make
      in case json_array_append_value (ai_mem env) message_array (Some (JObject new_object)) False of
           Inl _ \<Rightarrow> message_array
         | Inr a \<Rightarrow> Some a)"

section \<open>A request\<close>

definition parse_response :: "openai_env \<Rightarrow> string option \<Rightarrow> openai \<Rightarrow> openai" where
  "parse_response env response ctx =
     (let choice = do {
            root_value \<leftarrow> json_parse_string (ai_mem env) response;
            root_object \<leftarrow> json_value_get_object (Some root_value);
            choices \<leftarrow> json_object_get_array (Some root_object) (Some ''choices'');
            json_array_get_object (Some choices) 0
          };
          answer = (case choice of
            None \<Rightarrow> (None, None, None, None)
          | Some c \<Rightarrow> (json_object_dotget_string (Some c) ''message.content'',
                       json_object_get_string (Some c) (Some ''finish_reason''),
                       json_object_dotget_string (Some c) ''message.function_call.name'',
                       json_object_dotget_string (Some c) ''message.function_call.arguments''))
      in if openai_function_handler ctx then ctx\<lparr>answers := answers ctx @ [answer]\<rparr> else ctx)"

text \<open>The array of messages is a part of the root: what happens to it happens to the root.\<close>

definition update_messages :: "openai_env \<Rightarrow> openai \<Rightarrow> json_arr option \<Rightarrow> json_arr option" where
  "update_messages env ctx message_array =
     (let kept = del_existing_msgs (del_existing_msgs message_array ''user'') ''assistant'';
          asked = (case user_msg ctx of None \<Rightarrow> kept | Some m \<Rightarrow> append_message env ''user'' m kept)
      in case assistant_msg ctx of None \<Rightarrow> asked | Some m \<Rightarrow> append_message env ''assistant'' m asked)"

definition update_root :: "openai_env \<Rightarrow> openai \<Rightarrow> json_obj \<Rightarrow> json_obj" where
  "update_root env ctx root_object =
     (let obj = set_members
        [\<lambda>obj. json_object_set_number (ai_mem env) (Some obj) (Some ''temperature'') (temperature ctx),
         \<lambda>obj. json_object_set_number (ai_mem env) (Some obj) (Some ''max_tokens'') (double_of_int (max_tokens ctx))] root_object
      in case update_messages env ctx (json_object_get_array (Some obj) (Some ''messages'')) of
           None \<Rightarrow> obj
         | Some a \<Rightarrow> set_members [\<lambda>obj. json_object_set_value (ai_mem env) obj ''messages'' (JArray a) False] obj)"

definition dx_openai_function_post_request :: "openai_env \<Rightarrow> openai \<Rightarrow> openai option" where
  "dx_openai_function_post_request env ctx =
     (case (json_root ctx, headers ctx) of
        (Some root_value, Some hs) \<Rightarrow>
          let root1 = (case json_value_get_object (Some root_value) of
                         None \<Rightarrow> root_value | Some root_object \<Rightarrow> JObject (update_root env ctx root_object));
              json = json_serialize_to_string True (Some root1);
              ctx1 = ctx\<lparr>json_root := Some root1, posted := posted ctx @ [(hs, json)]\<rparr>
          in (case postHttpData env of
                None \<Rightarrow> Some (parse_response env None ctx1)
              | Some m \<Rightarrow> if NUL \<in> set m then Some (parse_response env (Some (cstr m)) ctx1) else None)
      | _ \<Rightarrow> Some ctx)"

section \<open>The life of a context\<close>

definition curl_slist_append :: "openai_env \<Rightarrow> string list option \<Rightarrow> string \<Rightarrow> string list option" where
  "curl_slist_append env hs h = (if slist_mem env then Some ((case hs of None \<Rightarrow> [] | Some l \<Rightarrow> l) @ [h]) else None)"

text \<open>\<open>file\<close> is what \<open>json_parse_file\<close> reads under the name, None when it cannot be read.\<close>

definition dx_openai_function_init :: "openai_env \<Rightarrow> string option \<Rightarrow> string option \<Rightarrow> openai \<Rightarrow> openai" where
  "dx_openai_function_init env file openai_api_key ctx =
     (let ctx1 = (if json_root ctx = None then ctx\<lparr>json_root := json_parse_string (ai_mem env) file\<rparr> else ctx)
      in case (headers ctx1, openai_api_key) of
           (None, Some key) \<Rightarrow>
             let auth = cstr (snprintf (replicate 128 (ai_junk env)) 128 (''Authorization: Bearer '' @ key))
             in ctx1\<lparr>headers := curl_slist_append env (curl_slist_append env None auth) ''Content-Type: application/json''\<rparr>
         | _ \<Rightarrow> ctx1)"

definition dx_openai_function_free :: "openai \<Rightarrow> openai" where
  "dx_openai_function_free ctx = ctx\<lparr>json_root := None, headers := None\<rparr>"

section \<open>The conversation does not grow\<close>

definition role_of :: "json_value \<Rightarrow> string option" where
  "role_of v = Option.bind (json_value_get_object (Some v)) (\<lambda>obj. json_object_get_string (Some obj) (Some ''role''))"

fun remove_first :: "('a \<Rightarrow> bool) \<Rightarrow> 'a list \<Rightarrow> 'a list" where
  "remove_first P [] = []"
| "remove_first P (x # xs) = (if P x then xs else x # remove_first P xs)"

lemma remove_first_filter: "(\<And>x. P x \<Longrightarrow> \<not> Q x) \<Longrightarrow> filter Q (remove_first P xs) = filter Q xs"
  by (induction xs) auto

lemma remove_first_count: "length (filter P (remove_first P xs)) = length (filter P xs) - 1"
  by (induction xs) auto

lemma remove_first_append: "\<forall>x \<in> set xs. \<not> P x \<Longrightarrow> remove_first P (xs @ ys) = xs @ remove_first P ys"
  by (induction xs) auto

lemma del_loop_items:
  assumes "i \<le> length (array_items a)" "\<forall>v \<in> set (take i (array_items a)). role_of v \<noteq> Some key"
  shows "array_items (del_loop key (length (array_items a)) a i) = remove_first (\<lambda>v. role_of v = Some key) (array_items a)"
  using assms
proof (induction "length (array_items a) - i" arbitrary: i)
  case 0
  then show ?case
    using remove_first_append [of "array_items a" "\<lambda>v. role_of v = Some key" "[]"] by (subst del_loop.simps) simp
next
  case (Suc n)
  then have i: "i < length (array_items a)" by linarith
  define v where "v = array_items a ! i"
  have v: "json_array_get_object (Some a) i = json_value_get_object (Some v)"
    using i by (simp add: json_array_get_object_def json_array_get_value_def json_array_get_count_def v_def)
  have split: "array_items a = take i (array_items a) @ v # drop (Suc i) (array_items a)"
    using i by (simp add: v_def id_take_nth_drop)
  show ?case
  proof (cases "role_of v = Some key")
    case True
    then have "array_items (del_loop key (length (array_items a)) a i) = take i (array_items a) @ drop (Suc i) (array_items a)"
      using i v by (subst del_loop.simps)
        (auto simp: role_of_def json_array_remove_def json_array_get_count_def split: Option.bind_splits)
    also have "\<dots> = remove_first (\<lambda>v. role_of v = Some key) (array_items a)"
      using remove_first_append [OF Suc.prems(2)] True by (subst (3) split) simp
    finally show ?thesis .
  next
    case False
    have "\<forall>v \<in> set (take (Suc i) (array_items a)). role_of v \<noteq> Some key"
      using Suc.prems(2) False i by (auto simp: take_Suc_conv_app_nth v_def)
    moreover have "n = length (array_items a) - Suc i" using Suc.hyps(2) by linarith
    ultimately have "array_items (del_loop key (length (array_items a)) a (Suc i)) =
        remove_first (\<lambda>v. role_of v = Some key) (array_items a)" using Suc.hyps(1) i by simp
    moreover have "del_loop key (length (array_items a)) a i = del_loop key (length (array_items a)) a (Suc i)"
      using i v False by (subst del_loop.simps) (auto simp: role_of_def split: option.splits Option.bind_splits)
    ultimately show ?thesis by simp
  qed
qed

lemma del_existing_items:
  "map_option array_items (del_existing_msgs a key) = map_option (remove_first (\<lambda>v. role_of v = Some key)) (map_option array_items a)"
  using del_loop_items [of 0 "the a" key]
  by (cases a) (simp_all add: del_existing_msgs_def json_array_get_count_def)

text \<open>One setter whose result is not tested, on the abstract object.\<close>

abbreviation (input) put :: "(nat \<Rightarrow> bool) \<Rightarrow> string \<Rightarrow> json_value option \<Rightarrow> json_obj \<Rightarrow> json_obj" where
  "put mem name v obj \<equiv> (case object_set_value mem (Some obj) (Some name) v False of Inl _ \<Rightarrow> obj | Inr o2 \<Rightarrow> o2)"

lemma put_ok:
  assumes "\<forall>k. mem k" "table_ok obj" "is_cstring name"
  shows "table_ok (put mem name v obj)"
    "obj_map (put mem name v obj) = (case v of None \<Rightarrow> obj_map obj | Some x \<Rightarrow> (obj_map obj)(name \<mapsto> x))"
proof -
  have "table_ok (put mem name v obj) \<and>
    obj_map (put mem name v obj) = (case v of None \<Rightarrow> obj_map obj | Some x \<Rightarrow> (obj_map obj)(name \<mapsto> x))"
  proof (cases v)
    case (Some x)
    obtain obj' where "json_object_set_value mem obj name x False = Inr obj'" "table_ok obj'"
      "obj_items obj' = AList.update name x (obj_items obj)"
      using json_object_set_value_ok [OF assms(2,3), of mem x] grow_granted_all [OF assms(1)] by blast
    then show ?thesis by (simp add: Some object_set_value_def obj_map_def update_conv')
  qed (use assms(2) in \<open>simp add: object_set_value_def\<close>)
  then show "table_ok (put mem name v obj)"
    "obj_map (put mem name v obj) = (case v of None \<Rightarrow> obj_map obj | Some x \<Rightarrow> (obj_map obj)(name \<mapsto> x))" by blast+
qed

lemma get_value_map: "table_ok obj \<Longrightarrow> json_object_get_value (Some obj) (Some k) = obj_map obj k"
  by (simp add: json_object_get_value_def getn_value_all)

lemma append_message_items:
  assumes "\<forall>k. ai_mem env k" "json_value_init_string (Some role) = Some (JString role)" "is_cstring role"
  obtains v where "map_option array_items (append_message env role content a) = map_option (\<lambda>xs. xs @ [v]) (map_option array_items a)"
    "role_of v = Some role"
proof -
  define obj where "obj = put (ai_mem env) ''content'' (json_value_init_string (Some content))
    (put (ai_mem env) ''role'' (json_value_init_string (Some role)) json_object_make)"
  have ok: "table_ok (json_object_make :: json_obj)" by (rule table_ok_make(1))
  note p1 = put_ok [OF assms(1) ok, of "''role''" "json_value_init_string (Some role)"]
  note p2 = put_ok [OF assms(1) p1(1), of "''content''" "json_value_init_string (Some content)"]
  have obj: "set_members
        [\<lambda>obj. json_object_set_string (ai_mem env) (Some obj) (Some ''role'') (Some role),
         \<lambda>obj. json_object_set_string (ai_mem env) (Some obj) (Some ''content'') (Some content)] json_object_make = obj"
    by (simp add: set_members_def json_object_set_string_def obj_def)
  have "table_ok obj" using p2(1) p1(1) by (simp add: obj_def)
  moreover have "obj_map obj ''role'' = Some (JString role)"
    using p2(2) p1(2) assms(2) by (simp add: obj_def split: option.splits)
  ultimately have "role_of (JObject obj) = Some role" using assms(3)
    by (simp add: role_of_def json_value_get_object_def json_object_get_string_def get_value_map json_value_get_string_def json_value_get_string_desc_def)
  moreover have "map_option array_items (append_message env role content a) = map_option (\<lambda>xs. xs @ [JObject obj]) (map_option array_items a)"
  proof (cases a)
    case (Some arr)
    then show ?thesis
      using json_array_add_mem [OF assms(1), of arr "JObject obj"] obj
      by (auto simp: append_message_def json_array_append_value_def Let_def)
  qed (use obj in \<open>simp add: append_message_def json_array_append_value_def Let_def\<close>)
  ultimately show thesis using that by blast
qed

lemma role_texts: "json_value_init_string (Some ''user'') = Some (JString ''user'')"
  "json_value_init_string (Some ''assistant'') = Some (JString ''assistant'')"
  by (simp_all add: json_value_init_string_def json_value_init_string_with_len_def is_valid_utf8.simps json_value_init_string_no_copy_def
      verify_utf8_sequence_def num_bytes_in_utf8_sequence_def is_cont_def)

text \<open>What a request makes of the messages.\<close>

definition is_talk :: "json_value \<Rightarrow> bool" where
  "is_talk v \<longleftrightarrow> role_of v = Some ''user'' \<or> role_of v = Some ''assistant''"

text \<open>At most \<open>u\<close> messages of the user and \<open>n\<close> of the assistant.\<close>

definition talk_bounded :: "nat \<Rightarrow> nat \<Rightarrow> json_value list \<Rightarrow> bool" where
  "talk_bounded u n vs \<longleftrightarrow> length (filter (\<lambda>v. role_of v = Some ''user'') vs) \<le> u \<and> length (filter (\<lambda>v. role_of v = Some ''assistant'') vs) \<le> n"

lemma talk_bounded_append: "talk_bounded u n vs \<Longrightarrow> talk_bounded u' n' us \<Longrightarrow> talk_bounded (u + u') (n + n') (vs @ us)"
  by (simp add: talk_bounded_def)

lemma update_messages_items:
  assumes "\<forall>k. ai_mem env k" "talk_bounded (Suc u) (Suc n) (array_items a)"
  shows "\<exists>a'. update_messages env ctx (Some a) = Some a' \<and> talk_bounded (Suc u) (Suc n) (array_items a') \<and>
    filter (\<lambda>v. \<not> is_talk v) (array_items a') = filter (\<lambda>v. \<not> is_talk v) (array_items a)"
proof -
  define kept where "kept = del_existing_msgs (del_existing_msgs (Some a) ''user'') ''assistant''"
  define xs where "xs = remove_first (\<lambda>v. role_of v = Some ''assistant'') (remove_first (\<lambda>v. role_of v = Some ''user'') (array_items a))"
  have kept: "map_option array_items kept = Some xs" by (simp add: kept_def xs_def del_existing_items)
  have cross: "filter (\<lambda>v. role_of v = Some r) (remove_first (\<lambda>v. role_of v = Some r') ys) = filter (\<lambda>v. role_of v = Some r) ys"
    if "r \<noteq> r'" for r r' ys using that by (intro remove_first_filter) auto
  have xs: "talk_bounded u n xs"
    using assms(2) remove_first_count [of "\<lambda>v. role_of v = Some ''user''" "array_items a"]
      remove_first_count [of "\<lambda>v. role_of v = Some ''assistant''" "remove_first (\<lambda>v. role_of v = Some ''user'') (array_items a)"]
    by (auto simp: xs_def cross talk_bounded_def)
  have others: "filter (\<lambda>v. \<not> is_talk v) xs = filter (\<lambda>v. \<not> is_talk v) (array_items a)"
    by (simp add: xs_def is_talk_def remove_first_filter)
  obtain us where us: "map_option array_items (case user_msg ctx of None \<Rightarrow> kept | Some m \<Rightarrow> append_message env ''user'' m kept) = Some (xs @ us)"
    "us = [] \<or> (\<exists>v. us = [v] \<and> role_of v = Some ''user'')"
  proof (cases "user_msg ctx")
    case (Some m)
    obtain v where "map_option array_items (append_message env ''user'' m kept) = map_option (\<lambda>xs. xs @ [v]) (map_option array_items kept)"
      "role_of v = Some ''user''" using append_message_items [OF assms(1) role_texts(1)] by auto
    then show thesis using that [of "[v]"] Some kept by simp
  qed (use that [of "[]"] kept in simp)
  obtain vs where vs: "map_option array_items (update_messages env ctx (Some a)) = Some (xs @ us @ vs)"
    "vs = [] \<or> (\<exists>v. vs = [v] \<and> role_of v = Some ''assistant'')"
  proof (cases "assistant_msg ctx")
    case (Some m)
    obtain v where "map_option array_items (append_message env ''assistant'' m c) = map_option (\<lambda>xs. xs @ [v]) (map_option array_items c)"
      "role_of v = Some ''assistant''" if "c = (case user_msg ctx of None \<Rightarrow> kept | Some m \<Rightarrow> append_message env ''user'' m kept)" for c
      using append_message_items [OF assms(1) role_texts(2)] by auto
    then show thesis using that [of "[v]"] Some us(1) by (simp add: update_messages_def Let_def kept_def [symmetric])
  qed (use that [of "[]"] us(1) in \<open>simp add: update_messages_def Let_def kept_def [symmetric]\<close>)
  have "talk_bounded 1 1 (us @ vs)" "filter (\<lambda>v. \<not> is_talk v) (us @ vs) = []"
    using us(2) vs(2) by (auto simp: talk_bounded_def is_talk_def)
  then show ?thesis
    using vs(1) talk_bounded_append [OF xs, of 1 1 "us @ vs"] others by (auto simp: filter_empty_conv)
qed

text \<open>What a request makes of the root object: the other members stay.\<close>

lemma update_root_ok:
  assumes "\<forall>k. ai_mem env k" "table_ok obj" "obj_map obj ''messages'' = Some (JArray a)" "talk_bounded (Suc u) (Suc n) (array_items a)"
  shows "\<exists>a'. table_ok (update_root env ctx obj) \<and> obj_map (update_root env ctx obj) ''messages'' = Some (JArray a') \<and>
    talk_bounded (Suc u) (Suc n) (array_items a') \<and> filter (\<lambda>v. \<not> is_talk v) (array_items a') = filter (\<lambda>v. \<not> is_talk v) (array_items a) \<and>
    (\<forall>k. k \<notin> {''messages'', ''temperature'', ''max_tokens''} \<longrightarrow> obj_map (update_root env ctx obj) k = obj_map obj k)"
proof -
  define o1 where "o1 = put (ai_mem env) ''temperature'' (json_value_init_number (temperature ctx)) obj"
  define o2 where "o2 = put (ai_mem env) ''max_tokens'' (json_value_init_number (double_of_int (max_tokens ctx))) o1"
  have o1: "table_ok o1" "\<And>k. k \<noteq> ''temperature'' \<Longrightarrow> obj_map o1 k = obj_map obj k"
    using put_ok [OF assms(1,2), of "''temperature''" "json_value_init_number (temperature ctx)"]
    by (auto simp: o1_def split: option.splits)
  have o2: "table_ok o2" "\<And>k. k \<noteq> ''temperature'' \<Longrightarrow> k \<noteq> ''max_tokens'' \<Longrightarrow> obj_map o2 k = obj_map obj k"
    using put_ok [OF assms(1) o1(1), of "''max_tokens''" "json_value_init_number (double_of_int (max_tokens ctx))"] o1(2)
    by (auto simp: o2_def split: option.splits)
  have "json_object_get_array (Some o2) (Some ''messages'') = Some a"
    using o2 assms(3) by (simp add: json_object_get_array_def get_value_map json_value_get_array_def)
  moreover obtain a' where a': "update_messages env ctx (Some a) = Some a'" "talk_bounded (Suc u) (Suc n) (array_items a')"
    "filter (\<lambda>v. \<not> is_talk v) (array_items a') = filter (\<lambda>v. \<not> is_talk v) (array_items a)"
    using update_messages_items [OF assms(1,4)] by blast
  moreover have "set_members
        [\<lambda>obj. json_object_set_number (ai_mem env) (Some obj) (Some ''temperature'') (temperature ctx),
         \<lambda>obj. json_object_set_number (ai_mem env) (Some obj) (Some ''max_tokens'') (double_of_int (max_tokens ctx))] obj = o2"
    unfolding o2_def o1_def by (simp add: set_members_def json_object_set_number_def)
  ultimately have "update_root env ctx obj = put (ai_mem env) ''messages'' (Some (JArray a')) o2"
    by (simp add: update_root_def set_members_def object_set_value_def)
  then have "table_ok (update_root env ctx obj)" "obj_map (update_root env ctx obj) = (obj_map o2)(''messages'' \<mapsto> JArray a')"
    using put_ok [OF assms(1) o2(1), of "''messages''" "Some (JArray a')"] by simp_all
  then show ?thesis using a'(2,3) o2(2) by auto
qed

text \<open>A request with the messages the application has set.\<close>

definition openai_ask :: "openai \<Rightarrow> openai_env \<times> string option \<times> string option \<Rightarrow> openai option" where
  "openai_ask ctx q = (case q of (env, um, am) \<Rightarrow>
     dx_openai_function_post_request env (ctx\<lparr>user_msg := um, assistant_msg := am\<rparr>))"

definition conversation :: "openai \<Rightarrow> json_value list option" where
  "conversation ctx = do {
     root_value \<leftarrow> json_root ctx;
     a \<leftarrow> json_object_get_array (json_value_get_object (Some root_value)) (Some ''messages'');
     Some (array_items a)
   }"

lemma parse_response_fields [simp]:
  "json_root (parse_response env r ctx) = json_root ctx" "posted (parse_response env r ctx) = posted ctx"
  "headers (parse_response env r ctx) = headers ctx" "openai_function_handler (parse_response env r ctx) = openai_function_handler ctx"
  "length (answers (parse_response env r ctx)) = length (answers ctx) + (if openai_function_handler ctx then 1 else 0)"
  by (simp_all add: parse_response_def Let_def)

text \<open>
  The block that the transfer leaves is parsed up to its NUL.  Curl's callback puts one behind every piece of the body;
  when a transfer succeeds without a body, the block is the byte that malloc gave.
\<close>

definition unterminated :: "openai_env \<Rightarrow> bool" where
  "unterminated env \<longleftrightarrow> (case postHttpData env of None \<Rightarrow> False | Some m \<Rightarrow> NUL \<notin> set m)"

abbreviation (input) ends_in_nul :: "memory_struct \<Rightarrow> bool" where
  "ends_in_nul mem \<equiv> (\<exists>m. mem_memory mem = Some m \<and> NUL \<in> set m)"

lemma transfer_terminates:
  "curl_easy_perform alloc chunks transfer_ok mem = (True, mem') \<Longrightarrow> ends_in_nul mem \<or> concat chunks \<noteq> [] \<Longrightarrow> ends_in_nul mem'"
proof (induction chunks arbitrary: mem)
  case (Cons c cs)
  obtain taken mem1 where w: "WriteMemoryCallback alloc c mem = (taken, mem1)" by fastforce
  have p: "curl_easy_perform alloc cs transfer_ok mem1 = (True, mem')" "taken = length c"
    using w Cons.prems(1) by (auto split: if_splits)
  have "ends_in_nul mem1 \<or> concat cs \<noteq> []"
    using w p(2) Cons.prems(2) by (auto simp: WriteMemoryCallback_def Let_def split: if_splits)
  then show ?case by (rule Cons.IH [OF p(1)])
qed simp

lemma unterminated_no_body:
  assumes "unterminated env"
  shows "concat (ai_chunks env) = [] \<and> ai_transfer env"
proof -
  let ?m = "\<lparr>mem_memory = (if ai_alloc env 1 then Some [ai_junk env] else None), mem_size = 0\<rparr>"
  obtain mem' m where p: "curl_easy_perform (ai_alloc env) (ai_chunks env) (ai_transfer env) ?m = (True, mem')"
    "mem_memory mem' = Some m" "NUL \<notin> set m"
    using assms by (auto simp: unterminated_def postHttpData_def Let_def split: option.splits prod.splits if_splits)
  have "ai_transfer env" if "curl_easy_perform (ai_alloc env) cs (ai_transfer env) mem = (True, mem'')" for cs mem mem''
    using that by (induction cs arbitrary: mem) (auto split: prod.splits if_splits)
  then show ?thesis using transfer_terminates [OF p(1)] p by auto
qed

text \<open>The root is an object with an array of messages that holds so many of the talk at most.\<close>

definition talk_ok :: "nat \<Rightarrow> nat \<Rightarrow> json_value list \<Rightarrow> openai \<Rightarrow> bool" where
  "talk_ok u n others ctx \<longleftrightarrow> headers ctx \<noteq> None \<and> openai_function_handler ctx \<and>
     (\<exists>obj a. json_root ctx = Some (JObject obj) \<and> table_ok obj \<and> obj_map obj ''messages'' = Some (JArray a) \<and>
       talk_bounded (Suc u) (Suc n) (array_items a) \<and> filter (\<lambda>v. \<not> is_talk v) (array_items a) = others)"

lemma openai_ask_ok:
  assumes "talk_ok u n others ctx" "\<forall>k. ai_mem env k"
  shows "if unterminated env then openai_ask ctx (env, um, am) = None
    else \<exists>ctx'. openai_ask ctx (env, um, am) = Some ctx' \<and> talk_ok u n others ctx' \<and>
    length (posted ctx') = Suc (length (posted ctx)) \<and> length (answers ctx') = Suc (length (answers ctx))"
proof -
  obtain hs obj a where ctx: "headers ctx = Some hs" "openai_function_handler ctx" "json_root ctx = Some (JObject obj)" "table_ok obj"
    "obj_map obj ''messages'' = Some (JArray a)" "talk_bounded (Suc u) (Suc n) (array_items a)"
    "filter (\<lambda>v. \<not> is_talk v) (array_items a) = others"
    using assms(1) by (auto simp: talk_ok_def)
  define ctx1 where "ctx1 = ctx\<lparr>user_msg := um, assistant_msg := am\<rparr>"
  define root1 where "root1 = JObject (update_root env ctx1 obj)"
  define ctx2 where "ctx2 = ctx1\<lparr>json_root := Some root1, posted := posted ctx1 @ [(hs, json_serialize_to_string True (Some root1))]\<rparr>"
  have "if unterminated env then openai_ask ctx (env, um, am) = None
      else \<exists>r. openai_ask ctx (env, um, am) = Some (parse_response env r ctx2)"
    using ctx(1,3)
    by (auto simp: openai_ask_def dx_openai_function_post_request_def ctx1_def ctx2_def root1_def Let_def unterminated_def
        json_value_get_object_def split: option.splits)
  moreover have "\<exists>a'. table_ok (update_root env ctx1 obj) \<and> obj_map (update_root env ctx1 obj) ''messages'' = Some (JArray a') \<and>
    talk_bounded (Suc u) (Suc n) (array_items a') \<and> filter (\<lambda>v. \<not> is_talk v) (array_items a') = others"
    using update_root_ok [OF assms(2) ctx(4-6), of ctx1] ctx(7) by auto
  then have "talk_ok u n others (parse_response env r ctx2)" for r
    using ctx(1,2) by (auto simp: talk_ok_def ctx2_def ctx1_def root1_def)
  ultimately show ?thesis using ctx(2) by (auto simp: ctx2_def ctx1_def)
qed

lemma talk_ok_conversation:
  assumes "talk_ok u n others ctx"
  shows "\<exists>ms. conversation ctx = Some ms \<and> talk_bounded (Suc u) (Suc n) ms \<and> filter (\<lambda>v. \<not> is_talk v) ms = others"
  using assms
  by (auto simp: talk_ok_def conversation_def json_object_get_array_def json_value_get_object_def json_value_get_array_def get_value_map)

lemma openai_asks_ok:
  assumes "talk_ok u n others ctx" "\<forall>(env, um, am) \<in> set questions. \<forall>k. ai_mem env k"
  shows "if \<exists>(env, um, am) \<in> set questions. unterminated env then for_each openai_ask ctx questions = None
    else \<exists>ctx'. for_each openai_ask ctx questions = Some ctx' \<and> talk_ok u n others ctx' \<and>
      length (posted ctx') = length (posted ctx) + length questions \<and> length (answers ctx') = length (answers ctx) + length questions"
  using assms
proof (induction questions arbitrary: ctx)
  case (Cons q qs)
  obtain env um am where q: "q = (env, um, am)" by (cases q) auto
  have mem: "\<forall>k. ai_mem env k" using Cons.prems(2) by (simp add: q)
  note ask = openai_ask_ok [OF Cons.prems(1) mem, of um am]
  show ?case
  proof (cases "unterminated env")
    case True
    then show ?thesis using ask by (auto simp: q)
  next
    case False
    then obtain ctx1 where ctx1: "openai_ask ctx q = Some ctx1" "talk_ok u n others ctx1"
      "length (posted ctx1) = Suc (length (posted ctx))" "length (answers ctx1) = Suc (length (answers ctx))"
      using ask by (auto simp: q)
    have "\<forall>(env, um, am) \<in> set qs. \<forall>k. ai_mem env k" using Cons.prems(2) by auto
    from Cons.IH [OF ctx1(2) this] show ?thesis using ctx1 False by (auto simp: q)
  qed
qed simp

abbreviation (input) said_by :: "string \<Rightarrow> json_value list \<Rightarrow> nat" where
  "said_by role ms \<equiv> length (filter (\<lambda>v. role_of v = Some role) ms)"

text \<open>
  C23: however many requests are made, with memory granted to parson, the conversation that is sent keeps the messages of the file
  other than the user's and the assistant's, in their order, and holds no more messages of the user than the file did, or one when it
  had none, and likewise of the assistant: it never grows by more than two messages.  Every request is sent and answered to the application
  once.  The exception is exactly a transfer that succeeds without a body: the unterminated byte it leaves is parsed, which crashes.
\<close>

theorem openai_conversation_bounded:
  assumes "headers ctx \<noteq> None" "openai_function_handler ctx" "json_root ctx = Some (JObject obj)" "table_ok obj"
    "conversation ctx = Some ms" "\<forall>(env, um, am) \<in> set questions. \<forall>k. ai_mem env k"
  shows "if \<exists>(env, um, am) \<in> set questions. unterminated env then for_each openai_ask ctx questions = None
    else \<exists>ctx' ms'. for_each openai_ask ctx questions = Some ctx' \<and> conversation ctx' = Some ms' \<and>
      (\<forall>role \<in> {''user'', ''assistant''}. said_by role ms' \<le> max 1 (said_by role ms)) \<and>
      filter (\<lambda>v. \<not> is_talk v) ms' = filter (\<lambda>v. \<not> is_talk v) ms \<and> length ms' \<le> length ms + 2 \<and>
      length (posted ctx') = length (posted ctx) + length questions \<and>
      length (answers ctx') = length (answers ctx) + length questions"
proof -
  let ?others = "filter (\<lambda>v. \<not> is_talk v) ms"
  define u where "u = said_by ''user'' ms - 1"
  define n where "n = said_by ''assistant'' ms - 1"
  obtain a where a: "obj_map obj ''messages'' = Some (JArray a)" "array_items a = ms"
    using assms(3-5)
    by (auto simp: conversation_def json_object_get_array_def json_value_get_object_def json_value_get_array_def get_value_map
        split: Option.bind_splits option.splits json_value.splits)
  have "talk_bounded (Suc u) (Suc n) ms" unfolding talk_bounded_def u_def n_def by linarith
  then have "talk_ok u n ?others ctx" using assms(1-4) a by (simp add: talk_ok_def)
  note asks = openai_asks_ok [OF this assms(6)]
  have talk: "length (filter is_talk vs) = said_by ''user'' vs + said_by ''assistant'' vs" for vs
    by (induction vs) (auto simp: is_talk_def)
  show ?thesis
  proof (cases "\<exists>(env, um, am) \<in> set questions. unterminated env")
    case False
    then obtain ctx' where ctx': "for_each openai_ask ctx questions = Some ctx'" "talk_ok u n ?others ctx'"
      "length (posted ctx') = length (posted ctx) + length questions" "length (answers ctx') = length (answers ctx) + length questions"
      using asks by (auto split: if_splits)
    obtain ms' where ms': "conversation ctx' = Some ms'" "talk_bounded (Suc u) (Suc n) ms'" "filter (\<lambda>v. \<not> is_talk v) ms' = ?others"
      using talk_ok_conversation [OF ctx'(2)] by blast
    have b: "said_by ''user'' ms' \<le> max 1 (said_by ''user'' ms)" "said_by ''assistant'' ms' \<le> max 1 (said_by ''assistant'' ms)"
      using ms'(2) by (auto simp: talk_bounded_def u_def n_def)
    have "length (filter is_talk ms') + length ?others = length ms'" "length (filter is_talk ms) + length ?others = length ms"
      using sum_length_filter_compl [of is_talk ms'] sum_length_filter_compl [of is_talk ms] ms'(3) by simp_all
    then have "length ms' \<le> length ms + 2" using b talk [of ms'] talk [of ms] by linarith
    then show ?thesis using False ctx' ms' b by auto
  qed (use asks in auto)
qed

definition ai_grants :: openai_env where
  "ai_grants = \<lparr>ai_mem = \<lambda>_. True, ai_alloc = \<lambda>_. True, ai_junk = NUL, ai_chunks = [''{}''], ai_transfer = True, slist_mem = True\<rparr>"

text \<open>The witness: a file with a system message, and two questions.\<close>

lemma openai_conversation_bounded_witness:
  "\<exists>obj msg ctx' ms'. for_each openai_ask
       \<lparr>assistant_msg = None, user_msg = None, temperature = Fin False 0 (-1074), max_tokens = 100, openai_function_handler = True,
        json_root = Some (JObject obj), headers = Some [], posted = [], answers = []\<rparr>
       [(ai_grants, Some ''hi'', None), (ai_grants, Some ''light on'', Some ''ok'')] = Some ctx' \<and>
     role_of msg = Some ''system'' \<and> conversation ctx' = Some ms' \<and> filter (\<lambda>v. \<not> is_talk v) ms' = [msg] \<and> length ms' \<le> 3 \<and>
     length (posted ctx') = 2"
proof -
  define sys where "sys = put (\<lambda>_. True) ''role'' (Some (JString ''system'')) json_object_make"
  define obj where "obj = put (\<lambda>_. True) ''messages'' (Some (JArray (JSON_Array [JObject sys] 1))) json_object_make"
  let ?ctx = "\<lparr>assistant_msg = None, user_msg = None, temperature = Fin False 0 (-1074), max_tokens = 100, openai_function_handler = True,
        json_root = Some (JObject obj), headers = Some [], posted = [], answers = []\<rparr>"
  have make: "table_ok (json_object_make :: json_obj)" "obj_map (json_object_make :: json_obj) = Map.empty"
    by (rule table_ok_make(1)) (simp add: obj_map_def obj_items_def)
  have sys: "table_ok sys" "obj_map sys = [''role'' \<mapsto> JString ''system'']"
    using put_ok [of "\<lambda>_. True" json_object_make "''role''" "Some (JString ''system'')"] make by (simp_all add: sys_def)
  have obj: "table_ok obj" "obj_map obj = [''messages'' \<mapsto> JArray (JSON_Array [JObject sys] 1)]"
    using put_ok [of "\<lambda>_. True" json_object_make "''messages''" "Some (JArray (JSON_Array [JObject sys] 1))"] make by (simp_all add: obj_def)
  have role: "role_of (JObject sys) = Some ''system''"
    using sys by (simp add: role_of_def json_value_get_object_def json_object_get_string_def get_value_map json_value_get_string_def
        json_value_get_string_desc_def)
  then have "filter (\<lambda>v. \<not> is_talk v) [JObject sys] = [JObject sys]" by (simp add: is_talk_def)
  moreover have "conversation ?ctx = Some [JObject sys]"
    using obj by (simp add: conversation_def json_object_get_array_def json_value_get_object_def json_value_get_array_def get_value_map)
  moreover have "\<not> unterminated ai_grants" "\<forall>k. ai_mem ai_grants k"
    using unterminated_no_body [of ai_grants] by (auto simp: ai_grants_def)
  ultimately show ?thesis
    using obj(1) openai_conversation_bounded [of ?ctx obj "[JObject sys]" "[(ai_grants, Some ''hi'', None), (ai_grants, Some ''light on'', Some ''ok'')]"] role
    by (intro exI [of _ obj] exI [of _ "JObject sys"]) (simp add: eval_nat_numeral, blast)
qed

text \<open>A key of more than 105 characters is cut off in the header, without a word.\<close>

lemma openai_key_cut:
  assumes "105 < length key" "is_cstring key" "headers ctx = None" "slist_mem env"
  shows "\<exists>h. headers (dx_openai_function_init env file (Some key) ctx) = Some [h, ''Content-Type: application/json''] \<and>
    h = ''Authorization: Bearer '' @ take 105 key"
  using assms by (simp add: dx_openai_function_init_def Let_def curl_slist_append_def cstr_snprintf)

text \<open>
  A transfer that succeeds without a body: what is parsed is the one byte that malloc gave, and what lies behind it.
\<close>

lemma openai_empty_body_not_terminated:
  assumes "json_root ctx = Some root_value" "headers ctx = Some hs" "ai_chunks env = []" "ai_transfer env" "ai_alloc env 1" "ai_junk env \<noteq> NUL"
  shows "dx_openai_function_post_request env ctx = None"
  using assms by (simp add: dx_openai_function_post_request_def postHttpData_def Let_def)

text \<open>Of several messages with a role, only the first is deleted.\<close>

lemma openai_deletes_one:
  "map_option (\<lambda>a. length (filter (\<lambda>v. role_of v = Some key) (array_items a))) (del_existing_msgs (Some a) key) =
     Some (length (filter (\<lambda>v. role_of v = Some key) (array_items a)) - 1)"
  using del_existing_items [of "Some a" key] by (cases "del_existing_msgs (Some a) key") (auto simp: remove_first_count)

end
