(* ===== verification/Parson_Heap.thy ===== *)
theory Parson_Heap
  imports Parson_Api "HOL-Library.Monad_Syntax"
begin

text \<open>
  The memory of src/src/parson.c: values as the linked blocks the code allocates, with the parent
  pointers, and the operations that allocate, link, unlink and free them.  A block is a
  \<open>JSON_Value\<close> together with the string, array or object it owns, since both are allocated and freed
  together; its address is the address of the value, and a \<open>JSON_Array\<close> or \<open>JSON_Object\<close> pointer is
  the address of its wrapping value.  Array items and object members are addresses, in the arrays
  and the hash table of the theories of values and objects.  Addresses are not used twice, so
  that the use of a freed block shows: an operation that reads or writes through an address that
  is not allocated, frees it twice, or does not return is \<open>None\<close>.  An operation that returns gives
  its result, with \<open>True\<close> for \<open>JSONSuccess\<close>, and the new memory.  \<open>mem i n\<close> says whether the \<open>i\<close>-th request for memory, of \<open>n\<close> bytes,
  is granted; the requests of one growing table count as one.
\<close>

section \<open>Blocks\<close>

datatype json_content =
    CNull
  | CBoolean bool
  | CNumber double
  | CString string
  | CArray "nat json_array"
  | CObject "nat json_object"

record json_node =
  node_parent :: "nat option"
  node_content :: json_content

type_synonym json_nodes = "nat \<Rightarrow> json_node option"

record json_mem =
  nodes :: json_nodes
  brk :: nat
  requests :: nat

type_synonym grants = "nat \<Rightarrow> nat \<Rightarrow> bool"
type_synonym 'a heap_op = "json_mem \<Rightarrow> ('a \<times> json_mem) option"

abbreviation SIZEOF_VALUE :: nat where "SIZEOF_VALUE \<equiv> 32"
abbreviation SIZEOF_ARRAY :: nat where "SIZEOF_ARRAY \<equiv> 32"
abbreviation SIZEOF_OBJECT :: nat where "SIZEOF_OBJECT \<equiv> 72"

fun links_of :: "json_content \<Rightarrow> nat list" where
  "links_of (CArray arr) = array_items arr"
| "links_of (CObject obj) = obj_values obj"
| "links_of _ = []"

abbreviation links :: "json_node \<Rightarrow> nat list" where
  "links n \<equiv> links_of (node_content n)"

definition array_at :: "json_mem \<Rightarrow> nat \<Rightarrow> nat json_array option" where
  "array_at st a =
     (case map_option node_content (nodes st a) of Some (CArray arr) \<Rightarrow> Some arr | _ \<Rightarrow> None)"

definition object_at :: "json_mem \<Rightarrow> nat \<Rightarrow> nat json_object option" where
  "object_at st a =
     (case map_option node_content (nodes st a) of Some (CObject obj) \<Rightarrow> Some obj | _ \<Rightarrow> None)"

definition set_content :: "nat \<Rightarrow> json_content \<Rightarrow> json_mem \<Rightarrow> json_mem" where
  "set_content a c st =
     st\<lparr>nodes := (nodes st)(a := map_option (\<lambda>n. n\<lparr>node_content := c\<rparr>) (nodes st a))\<rparr>"

definition set_parent :: "nat option \<Rightarrow> nat \<Rightarrow> json_mem \<Rightarrow> json_mem" where
  "set_parent p v st =
     st\<lparr>nodes := (nodes st)(v := map_option (\<lambda>n. n\<lparr>node_parent := p\<rparr>) (nodes st v))\<rparr>"

definition parson_malloc :: "grants \<Rightarrow> nat \<Rightarrow> json_mem \<Rightarrow> bool \<times> json_mem" where
  "parson_malloc mem bytes st = (mem (requests st) bytes, st\<lparr>requests := Suc (requests st)\<rparr>)"

section \<open>Making values\<close>

definition new_node :: "json_content \<Rightarrow> json_mem \<Rightarrow> nat option \<times> json_mem" where
  "new_node c st =
     (Some (brk st),
      st\<lparr>nodes := (nodes st)(brk st \<mapsto> \<lparr>node_parent = None, node_content = c\<rparr>), brk := Suc (brk st)\<rparr>)"

definition init_value :: "grants \<Rightarrow> json_content \<Rightarrow> json_mem \<Rightarrow> nat option \<times> json_mem" where
  "init_value mem c st =
     (let (granted, st1) = parson_malloc mem SIZEOF_VALUE st in
      if granted then new_node c st1 else (None, st1))"

text \<open>A value and then its array or object; if the second request is refused the value is freed again.\<close>

definition init_container :: "grants \<Rightarrow> nat \<Rightarrow> json_content \<Rightarrow> json_mem \<Rightarrow> nat option \<times> json_mem" where
  "init_container mem bytes c st =
     (let (granted, st1) = parson_malloc mem SIZEOF_VALUE st in
      if \<not> granted then (None, st1)
      else let (granted, st2) = parson_malloc mem bytes st1 in
           if granted then new_node c st2 else (None, st2))"

definition json_value_init_object_h :: "grants \<Rightarrow> json_mem \<Rightarrow> nat option \<times> json_mem" where
  "json_value_init_object_h mem = init_container mem SIZEOF_OBJECT (CObject (JSON_Object [] [] [] [] [] 0 0))"

definition json_value_init_array_h :: "grants \<Rightarrow> json_mem \<Rightarrow> nat option \<times> json_mem" where
  "json_value_init_array_h mem = init_container mem SIZEOF_ARRAY (CArray (JSON_Array [] 0))"

text \<open>The copy of the characters, and then the value; the copy is freed when the value is refused.\<close>

definition init_string_copy :: "grants \<Rightarrow> string \<Rightarrow> json_mem \<Rightarrow> nat option \<times> json_mem" where
  "init_string_copy mem s st =
     (let (granted, st1) = parson_malloc mem (length s + 1) st in
      if granted then init_value mem (CString s) st1 else (None, st1))"

definition json_value_init_string_with_len_h ::
  "grants \<Rightarrow> string option \<Rightarrow> nat \<Rightarrow> json_mem \<Rightarrow> nat option \<times> json_mem" where
  "json_value_init_string_with_len_h mem str len st =
     (case str of
        None \<Rightarrow> (None, st)
      | Some s \<Rightarrow>
          if \<not> is_valid_utf8 s len then (None, st) else init_string_copy mem (take len s) st)"

definition json_value_init_string_h :: "grants \<Rightarrow> string option \<Rightarrow> json_mem \<Rightarrow> nat option \<times> json_mem" where
  "json_value_init_string_h mem str st =
     (case str of
        None \<Rightarrow> (None, st)
      | Some s \<Rightarrow> json_value_init_string_with_len_h mem (Some s) (length s) st)"

definition json_value_init_number_h :: "grants \<Rightarrow> double \<Rightarrow> json_mem \<Rightarrow> nat option \<times> json_mem" where
  "json_value_init_number_h mem x st =
     (if \<not> is_finite x then (None, st) else init_value mem (CNumber x) st)"

definition json_value_init_boolean_h :: "grants \<Rightarrow> int \<Rightarrow> json_mem \<Rightarrow> nat option \<times> json_mem" where
  "json_value_init_boolean_h mem b = init_value mem (CBoolean (b \<noteq> 0))"

definition json_value_init_null_h :: "grants \<Rightarrow> json_mem \<Rightarrow> nat option \<times> json_mem" where
  "json_value_init_null_h mem = init_value mem CNull"

definition json_value_get_parent :: "json_mem \<Rightarrow> nat option \<Rightarrow> nat option option" where
  "json_value_get_parent st v =
     (case v of None \<Rightarrow> Some None | Some a \<Rightarrow> map_option node_parent (nodes st a))"

section \<open>Freeing values\<close>

text \<open>
  \<open>json_value_free\<close>, the loops of \<open>json_array_free\<close> and \<open>json_object_deinit\<close> over the values they
  own, and the block itself, which must still be allocated when its turn comes.
\<close>

partial_function (option) free_values :: "json_nodes \<Rightarrow> nat list \<Rightarrow> json_nodes option" where
  "free_values h vs =
     (case vs of
        [] \<Rightarrow> Some h
      | v # rest \<Rightarrow> do {
          n \<leftarrow> h v;
          h1 \<leftarrow> free_values h (links n);
          n1 \<leftarrow> h1 v;
          free_values (h1(v := None)) rest
        })"

definition free_all :: "nat list \<Rightarrow> json_mem \<Rightarrow> json_mem option" where
  "free_all vs st = do {
     h \<leftarrow> free_values (nodes st) vs;
     Some (st\<lparr>nodes := h\<rparr>)
   }"

definition json_value_free :: "nat option \<Rightarrow> json_mem \<Rightarrow> json_mem option" where
  "json_value_free v st = (case v of None \<Rightarrow> Some st | Some a \<Rightarrow> free_all [a] st)"

section \<open>Arrays\<close>

definition json_array_add_h :: "grants \<Rightarrow> nat \<Rightarrow> nat \<Rightarrow> bool heap_op" where
  "json_array_add_h mem a v st = do {
     arr \<leftarrow> array_at st a;
     n \<leftarrow> nodes st v;
     let st1 = st\<lparr>requests := Suc (requests st)\<rparr>;
     case json_array_add (mem (requests st)) arr v of
       Inl e \<Rightarrow> Some (False, st1)
     | Inr arr' \<Rightarrow> Some (True, set_content a (CArray arr') (set_parent (Some a) v st1))
   }"

definition json_array_append_value_h :: "grants \<Rightarrow> nat option \<Rightarrow> nat option \<Rightarrow> bool heap_op" where
  "json_array_append_value_h mem arr val st =
     (case (arr, val) of
        (Some a, Some v) \<Rightarrow> do {
          n \<leftarrow> nodes st v;
          if node_parent n \<noteq> None then Some (False, st) else json_array_add_h mem a v st
        }
      | _ \<Rightarrow> Some (False, st))"

definition json_array_remove_h :: "nat option \<Rightarrow> nat \<Rightarrow> bool heap_op" where
  "json_array_remove_h arr ix st =
     (case arr of
        None \<Rightarrow> Some (False, st)
      | Some a \<Rightarrow> do {
          ar \<leftarrow> array_at st a;
          if length (array_items ar) \<le> ix then Some (False, st)
          else do {
            st1 \<leftarrow> json_value_free (Some (array_items ar ! ix)) st;
            ar1 \<leftarrow> array_at st1 a;
            Some (True, set_content a (CArray (JSON_Array
              (take ix (array_items ar1) @ drop (Suc ix) (array_items ar1)) (array_capacity ar1))) st1)
          }
        })"

definition json_array_replace_value_h :: "nat option \<Rightarrow> nat \<Rightarrow> nat option \<Rightarrow> bool heap_op" where
  "json_array_replace_value_h arr ix val st =
     (case (arr, val) of
        (Some a, Some v) \<Rightarrow> do {
          n \<leftarrow> nodes st v;
          ar \<leftarrow> array_at st a;
          if node_parent n \<noteq> None \<or> length (array_items ar) \<le> ix then Some (False, st)
          else do {
            st1 \<leftarrow> json_value_free (Some (array_items ar ! ix)) st;
            n1 \<leftarrow> nodes st1 v;
            ar1 \<leftarrow> array_at st1 a;
            Some (True, set_content a (CArray (JSON_Array
              ((array_items ar1)[ix := v]) (array_capacity ar1))) (set_parent (Some a) v st1))
          }
        }
      | _ \<Rightarrow> Some (False, st))"

definition json_array_clear_h :: "nat option \<Rightarrow> bool heap_op" where
  "json_array_clear_h arr st =
     (case arr of
        None \<Rightarrow> Some (False, st)
      | Some a \<Rightarrow> do {
          ar \<leftarrow> array_at st a;
          st1 \<leftarrow> free_all (array_items ar) st;
          ar1 \<leftarrow> array_at st1 a;
          Some (True, set_content a (CArray (JSON_Array [] (array_capacity ar1))) st1)
        })"

section \<open>Objects\<close>

text \<open>
  Growing a table writes the parent pointer of every value it moves.
\<close>

definition adopt :: "nat \<Rightarrow> nat list \<Rightarrow> json_mem \<Rightarrow> json_mem" where
  "adopt p vs st = fold (set_parent (Some p)) vs st"

definition json_object_grow_and_rehash_h :: "grants \<Rightarrow> nat \<Rightarrow> bool heap_op" where
  "json_object_grow_and_rehash_h mem a st = do {
     obj \<leftarrow> object_at st a;
     let st1 = st\<lparr>requests := Suc (requests st)\<rparr>;
     case json_object_grow_and_rehash (mem (requests st)) obj of
       Inl e \<Rightarrow> Some (False, st1)
     | Inr obj' \<Rightarrow> Some (True, set_content a (CObject obj') (adopt a (obj_values obj) st1))
   }"

text \<open>Room for one more member: nothing to do, or a grown table.\<close>

definition make_room :: "grants \<Rightarrow> nat \<Rightarrow> bool heap_op" where
  "make_room mem a st = do {
     obj \<leftarrow> object_at st a;
     if obj_count obj \<ge> item_capacity obj then json_object_grow_and_rehash_h mem a st
     else Some (True, st)
   }"

text \<open>The tail of \<open>json_object_add\<close> and \<open>json_object_set_value\<close> that fills the slot.\<close>

definition put_member :: "nat \<Rightarrow> string \<Rightarrow> nat \<Rightarrow> bool heap_op" where
  "put_member a name v st = do {
     obj \<leftarrow> object_at st a;
     n \<leftarrow> nodes st v;
     let hash = hash_string name (length name);
     case json_object_put obj (fst (json_object_get_cell_ix obj name (length name) hash)) name hash v of
       Inl e \<Rightarrow> None
     | Inr obj' \<Rightarrow> Some (True, set_parent (Some a) v (set_content a (CObject obj') st))
   }"

definition json_object_add_h :: "grants \<Rightarrow> nat \<Rightarrow> string \<Rightarrow> nat \<Rightarrow> bool heap_op" where
  "json_object_add_h mem a name v st = do {
     obj \<leftarrow> object_at st a;
     if snd (json_object_get_cell_ix obj name (length name) (hash_string name (length name)))
     then Some (False, st)
     else do {
       (ok, st1) \<leftarrow> make_room mem a st;
       if \<not> ok then Some (False, st1) else put_member a name v st1
     }
   }"

definition json_object_set_value_h ::
  "grants \<Rightarrow> nat option \<Rightarrow> string option \<Rightarrow> nat option \<Rightarrow> bool heap_op" where
  "json_object_set_value_h mem object key val st =
     (case (object, key, val) of
        (Some a, Some name, Some v) \<Rightarrow> do {
          n \<leftarrow> nodes st v;
          if node_parent n \<noteq> None then Some (False, st)
          else do {
            obj \<leftarrow> object_at st a;
            case json_object_get_cell_ix obj name (length name) (hash_string name (length name)) of
              (cell_ix, True) \<Rightarrow> do {
                ix \<leftarrow> cell_ix;
                item_ix \<leftarrow> cells obj ! ix;
                st1 \<leftarrow> json_value_free (Some (obj_values obj ! item_ix)) st;
                n1 \<leftarrow> nodes st1 v;
                ob \<leftarrow> object_at st1 a;
                Some (True, set_parent (Some a) v (set_content a
                  (CObject (JSON_Object (cells ob) (hashes ob) (names ob) ((obj_values ob)[item_ix := v])
                     (cell_ixs ob) (item_capacity ob) (cell_capacity ob))) st1))
              }
            | (_, False) \<Rightarrow> do {
                (ok, st1) \<leftarrow> make_room mem a st;
                if \<not> ok then Some (False, st1)
                else let (granted, st2) = parson_malloc mem (length name + 1) st1 in
                     if \<not> granted then Some (False, st2) else put_member a name v st2
              }
          }
        }
      | _ \<Rightarrow> Some (False, st))"

definition json_object_remove_internal_h :: "nat \<Rightarrow> string \<Rightarrow> bool \<Rightarrow> bool heap_op" where
  "json_object_remove_internal_h a name free_value st = do {
     obj \<leftarrow> object_at st a;
     case json_object_getn_value obj name (length name) of
       None \<Rightarrow> Some (False, st)
     | Some val \<Rightarrow> do {
         st1 \<leftarrow> (if free_value then json_value_free (Some val) st else Some st);
         ob \<leftarrow> object_at st1 a;
         case json_object_remove_internal ob name of
           Inl e \<Rightarrow> None
         | Inr ob' \<Rightarrow> Some (True, set_content a (CObject ob') st1)
       }
   }"

definition json_object_clear_h :: "nat option \<Rightarrow> bool heap_op" where
  "json_object_clear_h object st =
     (case object of
        None \<Rightarrow> Some (False, st)
      | Some a \<Rightarrow> do {
          obj \<leftarrow> object_at st a;
          st1 \<leftarrow> free_all (obj_values obj) st;
          ob \<leftarrow> object_at st1 a;
          Some (True, set_content a (CObject (json_object_clear ob)) st1)
        })"

section \<open>Dotted names\<close>

function json_object_dotremove_internal_h :: "nat \<Rightarrow> string \<Rightarrow> bool \<Rightarrow> bool heap_op" where
  "json_object_dotremove_internal_h a name free_value st =
     (case dot_position name of
        None \<Rightarrow> json_object_remove_internal_h a name free_value st
      | Some dot \<Rightarrow> do {
          obj \<leftarrow> object_at st a;
          case json_object_getn_value obj name dot of
            None \<Rightarrow> Some (False, st)
          | Some temp_value \<Rightarrow> do {
              n \<leftarrow> nodes st temp_value;
              case node_content n of
                CObject _ \<Rightarrow> json_object_dotremove_internal_h temp_value (drop (dot + 1) name) free_value st
              | _ \<Rightarrow> Some (False, st)
            }
        })"
  by pat_completeness auto
termination
  by (relation "measure (\<lambda>(_, name, _, _). length name)") (auto dest: dot_position_less)

declare json_object_dotremove_internal_h.simps [simp del]

text \<open>
  The failure path once the new objects hold the value: it is unlinked again, by
  \<open>json_object_dotremove_internal\<close> without freeing it, and the new objects are freed.
\<close>

definition undo_dotset :: "nat \<Rightarrow> string \<Rightarrow> json_mem \<Rightarrow> (bool \<times> json_mem) option" where
  "undo_dotset new_value rest st = do {
     (removed, st1) \<leftarrow> json_object_dotremove_internal_h new_value rest False st;
     st2 \<leftarrow> json_value_free (Some new_value) st1;
     Some (False, st2)
   }"

function json_object_dotset_value_h ::
  "grants \<Rightarrow> nat option \<Rightarrow> string \<Rightarrow> nat option \<Rightarrow> bool heap_op" where
  "json_object_dotset_value_h mem object name val st =
     (case (object, val) of
        (Some a, Some v) \<Rightarrow>
          (case dot_position name of
             None \<Rightarrow> json_object_set_value_h mem (Some a) (Some name) (Some v) st
           | Some name_len \<Rightarrow> do {
               obj \<leftarrow> object_at st a;
               let rest = drop (name_len + 1) name;
               case json_object_getn_value obj name name_len of
                 Some temp_value \<Rightarrow> do {
                   n \<leftarrow> nodes st temp_value;
                   case node_content n of
                     CObject _ \<Rightarrow> json_object_dotset_value_h mem (Some temp_value) rest (Some v) st
                   | _ \<Rightarrow> Some (False, st)
                 }
               | None \<Rightarrow>
                   (case json_value_init_object_h mem st of
                      (None, st1) \<Rightarrow> Some (False, st1)
                    | (Some new_value, st1) \<Rightarrow> do {
                        (ok, st2) \<leftarrow> json_object_dotset_value_h mem (Some new_value) rest (Some v) st1;
                        if \<not> ok then do {
                          st3 \<leftarrow> json_value_free (Some new_value) st2;
                          Some (False, st3)
                        } else
                          let (granted, st3) = parson_malloc mem (name_len + 1) st2 in
                          if \<not> granted then undo_dotset new_value rest st3
                          else do {
                            (ok, st4) \<leftarrow> json_object_add_h mem a (take name_len name) new_value st3;
                            if ok then Some (True, st4) else undo_dotset new_value rest st4
                          }
                      })
             })
      | _ \<Rightarrow> Some (False, st))"
  by pat_completeness auto
termination
  by (relation "measure (\<lambda>(_, _, name, _, _). length name)") (auto dest: dot_position_less)

declare json_object_dotset_value_h.simps [simp del]

section \<open>Storing a new scalar\<close>

text \<open>The functions that create a value, store it, and free it again when storing fails.\<close>

datatype json_scalar =
    Scalar_String "string option"
  | Scalar_String_With_Len "string option" nat
  | Scalar_Number double
  | Scalar_Boolean int
  | Scalar_Null

fun init_scalar :: "grants \<Rightarrow> json_scalar \<Rightarrow> json_mem \<Rightarrow> nat option \<times> json_mem" where
  "init_scalar mem (Scalar_String s) st = json_value_init_string_h mem s st"
| "init_scalar mem (Scalar_String_With_Len s len) st = json_value_init_string_with_len_h mem s len st"
| "init_scalar mem (Scalar_Number x) st = json_value_init_number_h mem x st"
| "init_scalar mem (Scalar_Boolean b) st = json_value_init_boolean_h mem b st"
| "init_scalar mem Scalar_Null st = json_value_init_null_h mem st"

definition store_scalar :: "grants \<Rightarrow> json_scalar \<Rightarrow> (nat \<Rightarrow> bool heap_op) \<Rightarrow> bool heap_op" where
  "store_scalar mem sc store st =
     (case init_scalar mem sc st of
        (None, st1) \<Rightarrow> Some (False, st1)
      | (Some v, st1) \<Rightarrow> do {
          (ok, st2) \<leftarrow> store v st1;
          if ok then Some (True, st2)
          else do {
            st3 \<leftarrow> json_value_free (Some v) st2;
            Some (False, st3)
          }
        })"

definition json_array_append_scalar :: "grants \<Rightarrow> nat option \<Rightarrow> json_scalar \<Rightarrow> bool heap_op" where
  "json_array_append_scalar mem arr sc =
     store_scalar mem sc (\<lambda>v. json_array_append_value_h mem arr (Some v))"

definition json_array_replace_scalar :: "grants \<Rightarrow> nat option \<Rightarrow> nat \<Rightarrow> json_scalar \<Rightarrow> bool heap_op" where
  "json_array_replace_scalar mem arr ix sc =
     store_scalar mem sc (\<lambda>v. json_array_replace_value_h arr ix (Some v))"

definition json_object_set_scalar ::
  "grants \<Rightarrow> nat option \<Rightarrow> string option \<Rightarrow> json_scalar \<Rightarrow> bool heap_op" where
  "json_object_set_scalar mem object name sc st =
     (case init_scalar mem sc st of
        (val, st1) \<Rightarrow> do {
          (ok, st2) \<leftarrow> json_object_set_value_h mem object name val st1;
          if ok then Some (True, st2)
          else do {
            st3 \<leftarrow> json_value_free val st2;
            Some (False, st3)
          }
        })"

definition json_object_dotset_scalar ::
  "grants \<Rightarrow> nat option \<Rightarrow> string \<Rightarrow> json_scalar \<Rightarrow> bool heap_op" where
  "json_object_dotset_scalar mem object name sc =
     store_scalar mem sc (\<lambda>v. json_object_dotset_value_h mem object name (Some v))"

section \<open>Copying\<close>

text \<open>
  \<open>copy_members r items\<close> is the loop of \<open>json_value_deep_copy\<close> that copies the items of an array or
  the named members of an object and adds them to the copy at \<open>r\<close>, with the recursive call on each;
  \<open>new_copy\<close> makes the copy of a block, an array or object without its members.
\<close>

fun members_of :: "json_content \<Rightarrow> (string option \<times> nat option) list" where
  "members_of (CArray arr) = map (\<lambda>v. (None, Some v)) (array_items arr)"
| "members_of (CObject obj) =
     map (\<lambda>key. (Some key, json_object_getn_value obj key (length key))) (names obj)"
| "members_of _ = []"

fun new_copy :: "grants \<Rightarrow> json_content \<Rightarrow> json_mem \<Rightarrow> nat option \<times> json_mem" where
  "new_copy mem (CArray _) st = json_value_init_array_h mem st"
| "new_copy mem (CObject _) st = json_value_init_object_h mem st"
| "new_copy mem (CBoolean b) st = json_value_init_boolean_h mem (of_bool b) st"
| "new_copy mem (CNumber x) st = json_value_init_number_h mem x st"
| "new_copy mem (CString s) st = init_string_copy mem s st"
| "new_copy mem CNull st = json_value_init_null_h mem st"

definition add_copy :: "grants \<Rightarrow> nat \<Rightarrow> string option \<Rightarrow> nat \<Rightarrow> bool heap_op" where
  "add_copy mem r key c st =
     (case key of
        None \<Rightarrow> json_array_add_h mem r c st
      | Some name \<Rightarrow>
          (let (granted, st1) = parson_malloc mem (length name + 1) st in
           if granted then json_object_add_h mem r name c st1 else Some (False, st1)))"

partial_function (option) copy_members ::
  "grants \<Rightarrow> nat \<Rightarrow> (string option \<times> nat option) list \<Rightarrow> bool heap_op" where
  "copy_members mem r items st =
     (case items of
        [] \<Rightarrow> Some (True, st)
      | (key, None) # rest \<Rightarrow> Some (False, st)
      | (key, Some v) # rest \<Rightarrow> do {
          n \<leftarrow> nodes st v;
          case new_copy mem (node_content n) st of
            (None, st1) \<Rightarrow> Some (False, st1)
          | (Some c, st1) \<Rightarrow> do {
              (ok, st2) \<leftarrow> copy_members mem c (members_of (node_content n)) st1;
              if \<not> ok then do {
                st3 \<leftarrow> json_value_free (Some c) st2;
                Some (False, st3)
              } else do {
                (ok, st3) \<leftarrow> add_copy mem r key c st2;
                if \<not> ok then do {
                  st4 \<leftarrow> json_value_free (Some c) st3;
                  Some (False, st4)
                } else copy_members mem r rest st3
              }
            }
        })"

definition json_value_deep_copy_h :: "grants \<Rightarrow> nat option \<Rightarrow> nat option heap_op" where
  "json_value_deep_copy_h mem val st =
     (case val of
        None \<Rightarrow> Some (None, st)
      | Some v \<Rightarrow> do {
          n \<leftarrow> nodes st v;
          case new_copy mem (node_content n) st of
            (None, st1) \<Rightarrow> Some (None, st1)
          | (Some c, st1) \<Rightarrow> do {
              (ok, st2) \<leftarrow> copy_members mem c (members_of (node_content n)) st1;
              if ok then Some (Some c, st2)
              else do {
                st3 \<leftarrow> json_value_free (Some c) st2;
                Some (None, st3)
              }
            }
        })"

end
