(* ===== verification/Parson_Forest.thy ===== *)
theory Parson_Forest
  imports Parson_Heap
begin

text \<open>
  The shape of parson's memory: a forest.  Every value an array or object holds is allocated and
  points back to it, every parent pointer is met by such a link, and no block is linked twice.  The
  lemmas show what the changes the operations make do to a forest, and that freeing values of a
  forest returns and frees exactly the blocks below them.
\<close>

section \<open>Forests\<close>

definition child :: "json_nodes \<Rightarrow> (nat \<times> nat) set" where
  "child h = {(c, p). \<exists>n. h c = Some n \<and> node_parent n = Some p}"

fun content_ok :: "json_content \<Rightarrow> bool" where
  "content_ok (CObject obj) = table_ok obj"
| "content_ok (CNumber x) = is_finite x"
| "content_ok _ = True"

abbreviation node_ok :: "json_node \<Rightarrow> bool" where
  "node_ok n \<equiv> distinct (links n) \<and> content_ok (node_content n)"

definition forest :: "json_nodes \<Rightarrow> bool" where
  "forest h \<longleftrightarrow>
     finite (dom h) \<and> acyclic (child h) \<and>
     (\<forall>p n c. h p = Some n \<longrightarrow> c \<in> set (links n) \<longrightarrow> (c, p) \<in> child h) \<and>
     (\<forall>c p. (c, p) \<in> child h \<longrightarrow> (\<exists>n. h p = Some n \<and> c \<in> set (links n))) \<and>
     (\<forall>p n. h p = Some n \<longrightarrow> node_ok n)"

definition below :: "json_nodes \<Rightarrow> nat \<Rightarrow> nat set" where
  "below h a = {x. (x, a) \<in> (child h)\<^sup>*}"

definition is_root :: "json_nodes \<Rightarrow> nat \<Rightarrow> bool" where
  "is_root h a \<longleftrightarrow> (\<exists>n. h a = Some n \<and> node_parent n = None)"

lemma forestD:
  assumes "forest h"
  shows "finite (dom h)" and "acyclic (child h)"
    and "h p = Some n \<Longrightarrow> c \<in> set (links n) \<Longrightarrow> (c, p) \<in> child h"
    and "(c, p) \<in> child h \<Longrightarrow> \<exists>n. h p = Some n \<and> c \<in> set (links n)"
    and "h p = Some n \<Longrightarrow> node_ok n"
  using assms unfolding forest_def by blast+

lemma child_iff: "(c, p) \<in> child h \<longleftrightarrow> Option.bind (h c) node_parent = Some p"
  by (cases "h c") (auto simp: child_def)

lemma child_eqI: "(\<And>x. Option.bind (h' x) node_parent = Option.bind (h x) node_parent) \<Longrightarrow> child h' = child h"
  by (auto simp: child_iff)

lemma child_functional: "(c, p) \<in> child h \<Longrightarrow> (c, q) \<in> child h \<Longrightarrow> p = q"
  by (auto simp: child_def)

lemma child_dom: "(c, p) \<in> child h \<Longrightarrow> c \<in> dom h"
  by (auto simp: child_def)

lemma root_no_parent: "is_root h a \<Longrightarrow> (a, p) \<notin> child h"
  by (auto simp: is_root_def child_def)

lemma wf_child: "forest h \<Longrightarrow> wf (child h)"
proof (rule finite_acyclic_wf)
  assume f: "forest h"
  have "child h \<subseteq> dom h \<times> dom h" using forestD(4) [OF f] by (force dest: child_dom)
  then show "finite (child h)" using forestD(1) [OF f] by (meson finite_SigmaI finite_subset)
qed (rule forestD(2))

lemma below_self [simp]: "a \<in> below h a"
  by (simp add: below_def)

lemma below_parent: "x \<in> below h a \<Longrightarrow> x = a \<or> (\<exists>p. (x, p) \<in> child h \<and> p \<in> below h a)"
  by (auto simp: below_def elim: converse_rtranclE)

lemma below_child: "(x, p) \<in> child h \<Longrightarrow> p \<in> below h a \<Longrightarrow> x \<in> below h a"
  by (auto simp: below_def)

lemma below_trans: "x \<in> below h y \<Longrightarrow> y \<in> below h z \<Longrightarrow> x \<in> below h z"
  by (auto simp: below_def)

lemma below_linked:
  assumes "forest h" "h a = Some n"
  shows "below h a = insert a (\<Union>c \<in> set (links n). below h c)"
proof (intro equalityI subsetI)
  fix x
  assume "x \<in> below h a"
  then have "(x, a) \<in> (child h)\<^sup>*" by (simp add: below_def)
  then show "x \<in> insert a (\<Union>c \<in> set (links n). below h c)"
  proof (cases rule: rtranclE)
    case (step c)
    then have "c \<in> set (links n)" using forestD(4) [OF assms(1)] assms(2) by fastforce
    with step show ?thesis by (auto simp: below_def)
  qed simp
next
  fix x
  assume "x \<in> insert a (\<Union>c \<in> set (links n). below h c)"
  then show "x \<in> below h a" using forestD(3) [OF assms] by (auto simp: below_def intro: rtrancl_into_rtrancl)
qed

lemma below_leaf: "forest h \<Longrightarrow> h a = Some n \<Longrightarrow> links n = [] \<Longrightarrow> below h a = {a}"
  using below_linked by force

lemma below_dom: "forest h \<Longrightarrow> a \<in> dom h \<Longrightarrow> below h a \<subseteq> dom h"
  using below_parent child_dom by blast

lemma no_loop: "forest h \<Longrightarrow> (c, p) \<in> child h \<Longrightarrow> p \<notin> below h c"
  using forestD(2) unfolding acyclic_def below_def
  by (metis (no_types, lifting) mem_Collect_eq rtrancl_into_trancl2)

lemma below_comparable: "x \<in> below h a \<Longrightarrow> x \<in> below h b \<Longrightarrow> a \<in> below h b \<or> b \<in> below h a"
proof -
  assume "x \<in> below h a" "x \<in> below h b"
  moreover have "single_valued (child h)" by (auto simp: single_valued_def dest: child_functional)
  ultimately show ?thesis
    using single_valued_confluent [of "child h" x a b] unfolding below_def by blast
qed

text \<open>Blocks none of which lies below another: the roots, or the values of one container.\<close>

definition apart :: "json_nodes \<Rightarrow> nat list \<Rightarrow> bool" where
  "apart h vs \<longleftrightarrow> distinct vs \<and> set vs \<subseteq> dom h \<and>
     (\<forall>v \<in> set vs. \<forall>w \<in> set vs. v \<noteq> w \<longrightarrow> v \<notin> below h w)"

lemma apart_disjoint: "apart h vs \<Longrightarrow> v \<in> set vs \<Longrightarrow> w \<in> set vs \<Longrightarrow> v \<noteq> w \<Longrightarrow> below h v \<inter> below h w = {}"
proof -
  assume "apart h vs" "v \<in> set vs" "w \<in> set vs" "v \<noteq> w"
  then have "v \<notin> below h w" "w \<notin> below h v" by (auto simp: apart_def)
  then show ?thesis using below_comparable [of _ h v w] by blast
qed

lemma apart_single: "a \<in> dom h \<Longrightarrow> apart h [a]"
  by (auto simp: apart_def)

lemma apart_links:
  assumes f: "forest h" and n: "h p = Some n"
  shows "apart h (links n)"
proof -
  have "v \<notin> below h w" if "v \<in> set (links n)" "w \<in> set (links n)" "v \<noteq> w" for v w
  proof
    have vp: "(v, p) \<in> child h" and wp: "(w, p) \<in> child h" using forestD(3) [OF f n] that by auto
    assume "v \<in> below h w"
    with that(3) obtain q where "(v, q) \<in> child h" "q \<in> below h w" using below_parent by blast
    with vp wp show False using child_functional [OF vp] no_loop [OF f wp] by blast
  qed
  then show ?thesis
    using forestD(3,5) [OF f n] child_dom unfolding apart_def by blast
qed

section \<open>Freeing\<close>

lemma free_values_simps [simp]:
  "free_values h [] = Some h"
  "free_values h (v # rest) = do {
     n \<leftarrow> h v;
     h1 \<leftarrow> free_values h (links n);
     n1 \<leftarrow> h1 v;
     free_values (h1(v := None)) rest
   }"
  by (subst free_values.simps, simp)+

definition without :: "json_nodes \<Rightarrow> nat set \<Rightarrow> json_nodes" where
  "without h S = (\<lambda>x. if x \<in> S then None else h x)"

lemma without_apply [simp]: "x \<in> S \<Longrightarrow> without h S x = None" "x \<notin> S \<Longrightarrow> without h S x = h x"
  by (simp_all add: without_def)

lemma without_simps [simp]:
  "(without h S)(a := None) = without h (insert a S)"
  "without h {} = h"
  by (auto simp: without_def)

text \<open>
  Freeing, in a forest of which the blocks \<open>D\<close> are gone already: a walk over a list of values
  whose own blocks are freed as \<open>one\<close> says.
\<close>

lemma free_list:
  assumes one: "\<And>v D rest. v \<in> set vs \<Longrightarrow> D \<inter> below h v = {} \<Longrightarrow>
      free_values (without h D) (v # rest) = free_values (without h (D \<union> below h v)) rest"
    and a: "apart h vs" and "D \<inter> (\<Union>v \<in> set vs. below h v) = {}"
  shows "free_values (without h D) vs = Some (without h (D \<union> (\<Union>v \<in> set vs. below h v)))"
  using assms
proof (induction vs arbitrary: D)
  case (Cons v vs)
  have dis: "(D \<union> below h v) \<inter> (\<Union>w \<in> set vs. below h w) = {}"
    using Cons.prems(2,3) apart_disjoint [OF Cons.prems(2), of v] by (fastforce simp: apart_def)
  have "apart h vs" using Cons.prems(2) by (auto simp: apart_def)
  moreover have "D \<inter> below h v = {}" using Cons.prems(3) by auto
  ultimately show ?case
    using Cons.IH [OF Cons.prems(1) _ dis] Cons.prems(1) [of v D vs]
    by (simp add: Un_assoc del: free_values_simps)
qed simp

lemma free_one:
  assumes f: "forest h"
  shows "v \<in> dom h \<Longrightarrow> D \<inter> below h v = {} \<Longrightarrow>
    free_values (without h D) (v # rest) = free_values (without h (D \<union> below h v)) rest"
proof (induction v arbitrary: D rest rule: wf_induct_rule [OF wf_child [OF f]])
  case (1 v)
  then obtain n where n: "h v = Some n" by auto
  have split: "below h v = insert v (\<Union>c \<in> set (links n). below h c)" by (rule below_linked [OF f n])
  have v: "v \<notin> D" using 1(3) by auto
  have "free_values (without h D) (links n) = Some (without h (D \<union> (\<Union>c \<in> set (links n). below h c)))"
  proof (rule free_list [OF _ apart_links [OF f n]])
    fix c D rest
    assume "c \<in> set (links n)" "D \<inter> below h c = {}"
    then show "free_values (without h D) (c # rest) = free_values (without h (D \<union> below h c)) rest"
      using 1(1) forestD(3) [OF f n] child_dom by blast
  qed (use 1(3) split in auto)
  moreover have "v \<notin> (\<Union>c \<in> set (links n). below h c)"
    using forestD(3) [OF f n] no_loop [OF f] by blast
  ultimately show ?case using n v split by simp
qed

lemma free_values_below:
  assumes "forest h" "apart h vs"
  shows "free_values h vs = Some (without h (\<Union>v \<in> set vs. below h v))"
proof -
  have "v \<in> dom h" if "v \<in> set vs" for v using that assms(2) by (auto simp: apart_def)
  then have "free_values (without h {}) vs = Some (without h ({} \<union> (\<Union>v \<in> set vs. below h v)))"
    using free_one [OF assms(1)] by (intro free_list assms(2)) auto
  then show ?thesis by simp
qed

section \<open>Changes that keep a forest\<close>

lemma forestI:
  assumes "finite (dom h)" "acyclic (child h)"
    and "\<And>p n c. h p = Some n \<Longrightarrow> c \<in> set (links n) \<Longrightarrow> (c, p) \<in> child h"
    and "\<And>c p. (c, p) \<in> child h \<Longrightarrow> \<exists>n. h p = Some n \<and> c \<in> set (links n)"
    and "\<And>p n. h p = Some n \<Longrightarrow> node_ok n"
  shows "forest h"
  using assms unfolding forest_def by blast

lemma child_mono_below: "child h' \<subseteq> child h \<Longrightarrow> below h' a \<subseteq> below h a"
  unfolding below_def using rtrancl_mono by blast

text \<open>
  Blocks \<open>S\<close> that hold everything below them are freed, and the container \<open>p\<close> keeps the links that
  are left.
\<close>

definition closed_below :: "json_nodes \<Rightarrow> nat set \<Rightarrow> bool" where
  "closed_below h S \<longleftrightarrow> (\<forall>x p. (x, p) \<in> child h \<longrightarrow> p \<in> S \<longrightarrow> x \<in> S)"

lemma closed_below_Union: "closed_below h (\<Union>v \<in> C. below h v)"
  by (auto simp: closed_below_def intro: below_child)

lemma child_without: "child (without h S) = {(x, p) \<in> child h. x \<notin> S}"
  by (auto simp: child_def without_def split: if_splits)

lemma child_update: "h p = Some n \<Longrightarrow> node_parent n' = node_parent n \<Longrightarrow> child (h(p \<mapsto> n')) = child h"
  by (rule child_eqI) simp

lemma forest_free_roots:
  assumes f: "forest h" and cl: "closed_below h S"
    and up: "\<And>x p. (x, p) \<in> child h \<Longrightarrow> x \<in> S \<Longrightarrow> p \<in> S"
  shows "forest (without h S)"
proof (rule forestI)
  show "finite (dom (without h S))"
    using forestD(1) [OF f] by (rule rev_finite_subset) (auto simp: without_def split: if_splits)
  show "acyclic (child (without h S))"
    using forestD(2) [OF f] by (rule acyclic_subset) (auto simp: child_without)
  show "(c, q) \<in> child (without h S)" if "without h S q = Some m" "c \<in> set (links m)" for q m c
  proof -
    have q: "h q = Some m" "q \<notin> S" using that(1) by (auto simp: without_def split: if_splits)
    then have "(c, q) \<in> child h" using forestD(3) [OF f] that(2) by blast
    then show ?thesis using up q by (auto simp: child_without)
  qed
  show "\<exists>m. without h S q = Some m \<and> c \<in> set (links m)" if "(c, q) \<in> child (without h S)" for c q
  proof -
    have c: "(c, q) \<in> child h" "c \<notin> S" using that by (auto simp: child_without)
    then have "q \<notin> S" using cl by (auto simp: closed_below_def)
    then show ?thesis using forestD(4) [OF f c(1)] by simp
  qed
  show "node_ok m" if "without h S q = Some m" for q m
    using that forestD(5) [OF f] by (auto simp: without_def split: if_splits)
qed

lemma forest_detach:
  assumes f: "forest h" and n: "h p = Some n" and cl: "closed_below h S" and p: "p \<notin> S"
    and up: "\<And>x q. (x, q) \<in> child h \<Longrightarrow> x \<in> S \<Longrightarrow> q \<noteq> p \<Longrightarrow> q \<in> S"
    and n': "node_parent n' = node_parent n" "set (links n') = set (links n) - S" "node_ok n'"
  shows "forest ((without h S)(p \<mapsto> n'))"
proof (rule forestI)
  have ch: "child ((without h S)(p \<mapsto> n')) = {(x, q) \<in> child h. x \<notin> S}"
    using child_update [of "without h S" p n n'] n n'(1) p by (simp add: child_without)
  show "finite (dom ((without h S)(p \<mapsto> n')))"
    using forestD(1) [OF f] by (rule rev_finite_subset) (use n in \<open>auto simp: without_def split: if_splits\<close>)
  show "acyclic (child ((without h S)(p \<mapsto> n')))"
    using forestD(2) [OF f] by (rule acyclic_subset) (auto simp: ch)
  show "(c, q) \<in> child ((without h S)(p \<mapsto> n'))"
    if "((without h S)(p \<mapsto> n')) q = Some m" "c \<in> set (links m)" for q m c
  proof (cases "q = p")
    case True
    then have "c \<in> set (links n)" "c \<notin> S" using that n'(2) by auto
    then show ?thesis using True forestD(3) [OF f n] by (simp add: ch)
  next
    case False
    then have q: "h q = Some m" "q \<notin> S" using that by (auto simp: without_def split: if_splits)
    then have "(c, q) \<in> child h" using forestD(3) [OF f] that(2) by blast
    then show ?thesis using up q False by (auto simp: ch)
  qed
  show "\<exists>m. ((without h S)(p \<mapsto> n')) q = Some m \<and> c \<in> set (links m)"
    if "(c, q) \<in> child ((without h S)(p \<mapsto> n'))" for c q
  proof -
    have c: "(c, q) \<in> child h" "c \<notin> S" using that by (auto simp: ch)
    obtain m where m: "h q = Some m" "c \<in> set (links m)" using forestD(4) [OF f c(1)] by blast
    have "q \<notin> S" using cl c by (auto simp: closed_below_def)
    then show ?thesis using m n n'(2) c(2) by (cases "q = p") simp_all
  qed
  show "node_ok m" if "((without h S)(p \<mapsto> n')) q = Some m" for q m
    using that n'(3) forestD(5) [OF f] by (auto simp: without_def split: if_splits)
qed

text \<open>The root \<open>v\<close> becomes a value of \<open>p\<close>, which does not lie below it.\<close>

lemma forest_attach:
  assumes f: "forest h" and n: "h p = Some n" and v: "h v = Some m" "node_parent m = None"
    and p: "p \<notin> below h v"
    and n': "node_parent n' = node_parent n" "set (links n') = insert v (set (links n))" "node_ok n'"
  shows "forest (h(p \<mapsto> n', v \<mapsto> m\<lparr>node_parent := Some p\<rparr>))"
proof (rule forestI)
  let ?h = "h(p \<mapsto> n', v \<mapsto> m\<lparr>node_parent := Some p\<rparr>)"
  have pv: "p \<noteq> v" using p by auto
  have ch: "child ?h = insert (v, p) (child h)"
    using n v n'(1) pv by (auto simp: child_def split: if_splits)
  show "finite (dom ?h)" using forestD(1) [OF f] by simp
  show "acyclic (child ?h)"
    using forestD(2) [OF f] p by (simp add: ch acyclic_insert below_def)
  show "(c, q) \<in> child ?h" if "?h q = Some k" "c \<in> set (links k)" for q k c
    using that forestD(3) [OF f] n n'(2) v pv by (auto simp: ch split: if_splits)
  show "\<exists>k. ?h q = Some k \<and> c \<in> set (links k)" if c: "(c, q) \<in> child ?h" for c q
  proof (cases "(c, q) = (v, p)")
    case True
    then show ?thesis using pv n'(2) by auto
  next
    case False
    then have "(c, q) \<in> child h" using c ch by auto
    then obtain k where k: "h q = Some k" "c \<in> set (links k)" using forestD(4) [OF f] by blast
    then show ?thesis using n n'(2) v by (cases "q = v"; cases "q = p") auto
  qed
  show "node_ok k" if "?h q = Some k" for q k
    using that forestD(5) [OF f v(1)] forestD(5) [OF f] n'(3) by (auto split: if_splits)
qed

lemma forest_new:
  assumes f: "forest h" and a: "h a = None" and n: "node_parent n = None" "links n = []" "content_ok (node_content n)"
  shows "forest (h(a \<mapsto> n))"
proof (rule forestI)
  have ch: "child (h(a \<mapsto> n)) = child h" using a n(1) by (intro child_eqI) simp
  show "finite (dom (h(a \<mapsto> n)))" using forestD(1) [OF f] by simp
  show "acyclic (child (h(a \<mapsto> n)))" using forestD(2) [OF f] by (simp add: ch)
  show "(c, q) \<in> child (h(a \<mapsto> n))" if "(h(a \<mapsto> n)) q = Some k" "c \<in> set (links k)" for q k c
    using that forestD(3) [OF f] n(2) by (auto simp: ch split: if_splits)
  show "\<exists>k. (h(a \<mapsto> n)) q = Some k \<and> c \<in> set (links k)" if c: "(c, q) \<in> child (h(a \<mapsto> n))" for c q
    using forestD(4) [OF f, of c q] c a by (auto simp: ch)
  show "node_ok k" if "(h(a \<mapsto> n)) q = Some k" for q k
    using that forestD(5) [OF f] n(2,3) by (auto split: if_splits)
qed

lemma below_new:
  assumes "forest h" "h a = None" "node_parent n = None"
  shows "below (h(a \<mapsto> n)) x = below h x"
proof -
  have "child (h(a \<mapsto> n)) = child h" using assms(2,3) by (intro child_eqI) simp
  then show ?thesis by (simp add: below_def)
qed

end
