(* ===== verification/Parson_Memory.thy ===== *)
theory Parson_Memory
  imports Parson_Forest
begin

text \<open>
  What the operations on parson's memory do in a forest: they return, keep the forest, and change
  the blocks named here and no others, whatever requests for memory are refused.
\<close>

section \<open>The memory\<close>

definition mem_ok :: "json_mem \<Rightarrow> bool" where
  "mem_ok st \<longleftrightarrow> forest (nodes st) \<and> (\<forall>a \<in> dom (nodes st). a < brk st)"

lemma mem_okD: "mem_ok st \<Longrightarrow> forest (nodes st)"
  by (simp add: mem_ok_def)

lemma mem_ok_subset:
  assumes "mem_ok st" "forest h" "dom h \<subseteq> dom (nodes st)" "nodes st' = h" "brk st' = brk st"
  shows "mem_ok st'"
  using assms by (auto simp: mem_ok_def)

lemma mem_ok_requests [simp]: "mem_ok (st\<lparr>requests := k\<rparr>) = mem_ok st"
  by (simp add: mem_ok_def)

lemma array_at_iff: "array_at st a = Some arr \<longleftrightarrow> (\<exists>n. nodes st a = Some n \<and> node_content n = CArray arr)"
  by (auto simp: array_at_def split: option.splits json_content.splits)

lemma object_at_iff: "object_at st a = Some obj \<longleftrightarrow> (\<exists>n. nodes st a = Some n \<and> node_content n = CObject obj)"
  by (auto simp: object_at_def split: option.splits json_content.splits)

lemma nodes_set_content: "nodes st a = Some n \<Longrightarrow>
    nodes (set_content a c st) = (nodes st)(a \<mapsto> n\<lparr>node_content := c\<rparr>)"
  by (simp add: set_content_def)

lemma nodes_set_parent: "nodes st v = Some n \<Longrightarrow>
    nodes (set_parent p v st) = (nodes st)(v \<mapsto> n\<lparr>node_parent := p\<rparr>)"
  by (simp add: set_parent_def)

lemma mem_fields [simp]:
  "brk (set_content a c st) = brk st" "brk (set_parent p v st) = brk st"
  "requests (set_content a c st) = requests st" "requests (set_parent p v st) = requests st"
  by (simp_all add: set_content_def set_parent_def)

lemma container_distinct:
  assumes "mem_ok st"
  shows "array_at st a = Some arr \<Longrightarrow> distinct (array_items arr)"
    and "object_at st a = Some obj \<Longrightarrow> distinct (obj_values obj)"
    and "object_at st a = Some obj \<Longrightarrow> table_ok obj"
  using forestD(5) [OF mem_okD [OF assms], of a] by (auto simp: array_at_iff object_at_iff)

section \<open>New values\<close>

definition all_granted :: "grants \<Rightarrow> bool" where
  "all_granted mem \<longleftrightarrow> (\<forall>i k. mem i k)"

lemma all_grantedD: "all_granted mem \<Longrightarrow> mem i k"
  by (simp add: all_granted_def)

text \<open>A constructor gives a new block, a root with the content \<open>c\<close>, or NULL and no block.\<close>

definition made :: "json_content \<Rightarrow> json_mem \<Rightarrow> nat option \<times> json_mem \<Rightarrow> bool" where
  "made c st r \<longleftrightarrow>
     (case r of
        (None, st') \<Rightarrow> nodes st' = nodes st \<and> brk st' = brk st
      | (Some v, st') \<Rightarrow> v = brk st \<and> brk st' = Suc (brk st) \<and>
          nodes st' = (nodes st)(v \<mapsto> \<lparr>node_parent = None, node_content = c\<rparr>))"

lemma same_content: "node_content n = c \<Longrightarrow> n\<lparr>node_content := c\<rparr> = n"
  by (cases n) simp

lemma made_intros:
  "made c st (None, st\<lparr>requests := k\<rparr>)" "made c st (None, st)"
  "made c st (new_node c (st\<lparr>requests := k\<rparr>))"
  by (simp_all add: made_def new_node_def)

lemma made_init_value: "made c (st\<lparr>requests := k\<rparr>) r \<longleftrightarrow> made c st r"
  by (cases r; cases "fst r") (simp_all add: made_def)

lemma init_value_made: "made c st (init_value mem c st)"
  by (simp add: init_value_def parson_malloc_def made_intros)

lemma init_container_made: "made c st (init_container mem k c st)"
  by (simp add: init_container_def parson_malloc_def made_intros)

lemma init_string_copy_made: "made (CString s) st (init_string_copy mem s st)"
  using init_value_made [of "CString s" "st\<lparr>requests := Suc (requests st)\<rparr>" mem]
  by (simp add: init_string_copy_def parson_malloc_def made_intros made_init_value)

lemma init_scalar_made:
  "\<exists>c. links_of c = [] \<and> content_ok c \<and> (\<forall>obj. c \<noteq> CObject obj) \<and> made c st (init_scalar mem sc st)"
proof (cases sc)
  case (Scalar_String s)
  show ?thesis
  proof (cases s)
    case None
    then show ?thesis using Scalar_String
      by (intro exI [of _ CNull]) (simp add: json_value_init_string_h_def made_intros)
  next
    case (Some str)
    then show ?thesis using Scalar_String
      by (intro exI [of _ "CString (take (length str) str)"])
        (simp add: json_value_init_string_h_def json_value_init_string_with_len_h_def made_intros init_string_copy_made)
  qed
next
  case (Scalar_String_With_Len s n)
  then show ?thesis
    by (intro exI [of _ "CString (take n (the s))"])
      (simp add: json_value_init_string_with_len_h_def made_intros init_string_copy_made split: option.split)
next
  case (Scalar_Number x)
  show ?thesis
  proof (cases "is_finite x")
    case True
    then show ?thesis using Scalar_Number
      by (intro exI [of _ "CNumber x"]) (simp add: json_value_init_number_h_def init_value_made)
  next
    case False
    then show ?thesis using Scalar_Number
      by (intro exI [of _ CNull]) (simp add: json_value_init_number_h_def made_intros)
  qed
next
  case (Scalar_Boolean b)
  then show ?thesis
    by (intro exI [of _ "CBoolean (b \<noteq> 0)"]) (simp add: json_value_init_boolean_h_def init_value_made)
next
  case Scalar_Null
  then show ?thesis
    by (intro exI [of _ CNull]) (simp add: json_value_init_null_h_def init_value_made)
qed

lemma empty_table_ok: "table_ok (JSON_Object [] [] [] [] [] 0 0)"
  by (simp add: table_ok_def sizes_ok_def keys_ok_def links_ok_def probe_ok_def)

lemma made_ok:
  assumes ok: "mem_ok st" and m: "made c st (r, st')" and c: "links_of c = []" "content_ok c"
  shows "mem_ok st'"
    and "r = Some v \<Longrightarrow> is_root (nodes st') v \<and> v \<notin> dom (nodes st) \<and> v = brk st"
    and "r = Some v \<Longrightarrow> below (nodes st') x = below (nodes st) x"
    and "r = Some v \<Longrightarrow> a \<noteq> v \<Longrightarrow> a \<notin> below (nodes st') v"
proof -
  have "mem_ok st' \<and> (r = Some v \<longrightarrow> is_root (nodes st') v \<and> v \<notin> dom (nodes st) \<and> v = brk st \<and>
      below (nodes st') x = below (nodes st) x \<and> (a \<noteq> v \<longrightarrow> a \<notin> below (nodes st') v))"
  proof (cases r)
    case None
    then show ?thesis using m ok by (simp add: made_def mem_ok_def)
  next
    case (Some b)
    then have b: "b = brk st" "nodes st' = (nodes st)(b \<mapsto> \<lparr>node_parent = None, node_content = c\<rparr>)"
      "brk st' = Suc b" using m by (auto simp: made_def)
    then have fresh: "nodes st b = None" using ok by (cases "nodes st b") (auto simp: mem_ok_def)
    have f: "forest (nodes st')"
      using forest_new [OF mem_okD [OF ok] fresh, of "\<lparr>node_parent = None, node_content = c\<rparr>"] c b(2) by simp
    moreover have "\<forall>a \<in> dom (nodes st'). a < brk st'" using ok b by (auto simp: mem_ok_def dom_def less_Suc_eq)
    moreover have "below (nodes st') b = {b}"
      using below_leaf [OF f, of b "\<lparr>node_parent = None, node_content = c\<rparr>"] b(2) c(1) by simp
    ultimately show ?thesis
      using b fresh below_new [OF mem_okD [OF ok] fresh, of "\<lparr>node_parent = None, node_content = c\<rparr>" x] Some
      by (auto simp: mem_ok_def is_root_def)
  qed
  then show "mem_ok st'"
    and "r = Some v \<Longrightarrow> is_root (nodes st') v \<and> v \<notin> dom (nodes st) \<and> v = brk st"
    and "r = Some v \<Longrightarrow> below (nodes st') x = below (nodes st) x"
    and "r = Some v \<Longrightarrow> a \<noteq> v \<Longrightarrow> a \<notin> below (nodes st') v" by auto
qed

section \<open>Freeing\<close>

lemma free_all_ok:
  assumes "mem_ok st" "apart (nodes st) vs"
  shows "free_all vs st = Some (st\<lparr>nodes := without (nodes st) (\<Union>v \<in> set vs. below (nodes st) v)\<rparr>)"
  using free_values_below [OF mem_okD [OF assms(1)] assms(2)] by (simp add: free_all_def)

lemma json_value_free_root:
  assumes ok: "mem_ok st" and r: "is_root (nodes st) v"
  shows "\<exists>st'. json_value_free (Some v) st = Some st' \<and> mem_ok st' \<and>
     nodes st' = without (nodes st) (below (nodes st) v) \<and> brk st' = brk st \<and> requests st' = requests st"
proof -
  have "v \<in> dom (nodes st)" using r by (auto simp: is_root_def)
  then have e: "json_value_free (Some v) st = Some (st\<lparr>nodes := without (nodes st) (below (nodes st) v)\<rparr>)"
    using free_all_ok [OF ok apart_single] by (simp add: json_value_free_def)
  have "forest (without (nodes st) (below (nodes st) v))"
  proof (rule forest_free_roots [OF mem_okD [OF ok]])
    show "closed_below (nodes st) (below (nodes st) v)" using closed_below_Union [of _ "{v}"] by simp
    show "p \<in> below (nodes st) v" if "(x, p) \<in> child (nodes st)" "x \<in> below (nodes st) v" for x p
      using below_parent [OF that(2)] that(1) root_no_parent [OF r] child_functional by blast
  qed
  then have "mem_ok (st\<lparr>nodes := without (nodes st) (below (nodes st) v)\<rparr>)"
    by (rule mem_ok_subset [OF ok]) (auto simp: without_def split: if_splits)
  then show ?thesis using e by simp
qed

section \<open>Changing a container\<close>

text \<open>
  The values \<open>vs\<close> of the container at \<open>p\<close> are freed with everything below them, and \<open>p\<close> keeps the rest.
\<close>

lemma below_up:
  assumes "forest h" "h p = Some n" "C \<subseteq> set (links n)"
    and "(x, q) \<in> child h" "x \<in> (\<Union>v \<in> C. below h v)" "q \<noteq> p"
  shows "q \<in> (\<Union>v \<in> C. below h v)"
proof -
  obtain v where v: "v \<in> C" "x \<in> below h v" using assms(5) by auto
  have "(v, p) \<in> child h" using forestD(3) [OF assms(1,2)] v(1) assms(3) by blast
  then have "x \<noteq> v" using child_functional [OF assms(4)] assms(6) by blast
  then show ?thesis using below_parent [OF v(2)] child_functional [OF assms(4)] v(1) by blast
qed

lemma below_not_self:
  assumes "forest h" "h p = Some n" "C \<subseteq> set (links n)"
  shows "p \<notin> (\<Union>v \<in> C. below h v)"
  using forestD(3) [OF assms(1,2)] no_loop [OF assms(1)] assms(3) by blast

lemma links_below:
  assumes "forest h" "h p = Some n" "C \<subseteq> set (links n)"
  shows "set (links n) - (\<Union>v \<in> C. below h v) = set (links n) - C"
proof -
  have "x \<notin> below h v" if "x \<in> set (links n)" "x \<notin> C" "v \<in> C" for x v
  proof -
    have "v \<in> set (links n)" "x \<noteq> v" using that assms(3) by auto
    then show ?thesis using apart_links [OF assms(1,2)] that(1) by (simp add: apart_def)
  qed
  moreover have "x \<in> (\<Union>v \<in> C. below h v)" if "x \<in> C" for x
    using that below_self by (intro UN_I)
  ultimately show ?thesis by auto
qed

lemma forest_lose:
  assumes f: "forest h" and n: "h p = Some n" and C: "C \<subseteq> set (links n)"
    and n': "node_parent n' = node_parent n" "set (links n') = set (links n) - C" "node_ok n'"
  shows "forest ((without h (\<Union>v \<in> C. below h v))(p \<mapsto> n'))"
proof (rule forest_detach [OF f n closed_below_Union below_not_self [OF f n C]])
  show "q \<in> (\<Union>v \<in> C. below h v)"
    if "(x, q) \<in> child h" "x \<in> (\<Union>v \<in> C. below h v)" "q \<noteq> p" for x q
    using below_up [OF f n C that] .
  show "set (links n') = set (links n) - (\<Union>v \<in> C. below h v)"
    by (simp only: links_below [OF f n C] n'(2))
qed (rule n')+

text \<open>As well as losing values, the container gains the root \<open>v\<close>.\<close>

lemma forest_exchange:
  assumes f: "forest h" and n: "h p = Some n" and C: "C \<subseteq> set (links n)"
    and v: "h v = Some m" "node_parent m = None" "p \<notin> below h v"
    and n': "node_parent n' = node_parent n" "set (links n') = insert v (set (links n) - C)" "node_ok n'"
  shows "forest ((without h (\<Union>c \<in> C. below h c))(p \<mapsto> n', v \<mapsto> m\<lparr>node_parent := Some p\<rparr>))"
proof -
  let ?S = "\<Union>c \<in> C. below h c"
  define k where "k = n\<lparr>node_content := CArray (JSON_Array (filter (\<lambda>x. x \<notin> C) (links n)) 0)\<rparr>"
  have pv: "p \<noteq> v" using v(3) by auto
  have k: "node_parent k = node_parent n" "set (links k) = set (links n) - C" "node_ok k"
    using forestD(5) [OF f n] by (auto simp: k_def)
  let ?h = "(without h ?S)(p \<mapsto> k)"
  have f1: "forest ?h" by (rule forest_lose [OF f n C k])
  have "v \<notin> ?S"
  proof
    assume "v \<in> ?S"
    then obtain c where c: "c \<in> C" "v \<in> below h c" by auto
    have "(v, q) \<notin> child h" for q using v(1,2) by (simp add: child_iff)
    then have "v = c" using below_parent [OF c(2)] by blast
    then show False using forestD(3) [OF f n] C c(1) \<open>\<And>q. (v, q) \<notin> child h\<close> by blast
  qed
  then have "?h v = Some m" using v(1) pv by simp
  moreover have "child ?h \<subseteq> child h"
    using n k(1) below_not_self [OF f n C] by (auto simp: child_iff without_def split: if_splits)
  then have "p \<notin> below ?h v" using child_mono_below v(3) by blast
  ultimately have "forest (?h(p \<mapsto> n', v \<mapsto> m\<lparr>node_parent := Some p\<rparr>))"
    using n' k v(2) by (intro forest_attach [OF f1, of p k]) simp_all
  then show ?thesis by simp
qed

lemma mem_ok_exchange:
  assumes ok: "mem_ok st" and n: "nodes st p = Some n" and C: "C \<subseteq> set (links n)"
    and v: "nodes st v = Some m" "node_parent m = None" "p \<notin> below (nodes st) v"
    and n': "node_parent n' = node_parent n" "set (links n') = insert v (set (links n) - C)" "node_ok n'"
    and st': "nodes st' = (without (nodes st) (\<Union>c \<in> C. below (nodes st) c))
        (p \<mapsto> n', v \<mapsto> m\<lparr>node_parent := Some p\<rparr>)" "brk st' = brk st"
  shows "mem_ok st'"
  by (rule mem_ok_subset [OF ok forest_exchange [OF mem_okD [OF ok] n C v n'] _ st'])
    (use n v in \<open>auto simp: without_def split: if_splits\<close>)

lemma mem_ok_lose:
  assumes ok: "mem_ok st" and n: "nodes st p = Some n" and C: "C \<subseteq> set (links n)"
    and n': "node_parent n' = node_parent n" "set (links n') = set (links n) - C" "node_ok n'"
    and st': "nodes st' = (without (nodes st) (\<Union>c \<in> C. below (nodes st) c))(p \<mapsto> n')" "brk st' = brk st"
  shows "mem_ok st'"
  by (rule mem_ok_subset [OF ok forest_lose [OF mem_okD [OF ok] n C n'] _ st'])
    (use n in \<open>auto simp: without_def split: if_splits\<close>)

lemma free_links:
  assumes ok: "mem_ok st" and n: "nodes st p = Some n" and vs: "set vs \<subseteq> set (links n)" "distinct vs"
  shows "\<exists>st'. free_all vs st = Some st' \<and> brk st' = brk st \<and> requests st' = requests st \<and>
    nodes st' = without (nodes st) (\<Union>c \<in> set vs. below (nodes st) c) \<and> nodes st' p = Some n"
proof -
  have f: "forest (nodes st)" by (rule mem_okD [OF ok])
  have "apart (nodes st) vs"
    using apart_links [OF f n] vs unfolding apart_def by blast
  then show ?thesis
    using free_all_ok [OF ok] below_not_self [OF f n vs(1)] n by simp
qed

section \<open>Arrays\<close>

lemma array_at_node: "array_at st a = Some arr \<Longrightarrow> (\<And>n. nodes st a = Some n \<Longrightarrow> node_content n = CArray arr \<Longrightarrow> P) \<Longrightarrow> P"
  by (auto simp: array_at_iff)

lemma fresh_not_linked:
  assumes "forest h" "h p = Some n" "h v = Some m" "node_parent m = None"
  shows "v \<notin> set (links n)"
  using forestD(3) [OF assms(1,2), of v] assms(3,4) by (auto simp: child_iff)

lemma json_array_add_ok:
  assumes ok: "mem_ok st" and a: "nodes st a = Some n" "node_content n = CArray arr"
    and v: "nodes st v = Some m" "node_parent m = None" "a \<notin> below (nodes st) v"
  shows "\<exists>done st'. json_array_add_h mem a v st = Some (done, st') \<and> mem_ok st' \<and> brk st' = brk st \<and>
    (all_granted mem \<longrightarrow> done) \<and> (if done then \<exists>arr'. array_items arr' = array_items arr @ [v] \<and> nodes st' = (nodes st)
         (a \<mapsto> n\<lparr>node_content := CArray arr'\<rparr>, v \<mapsto> m\<lparr>node_parent := Some a\<rparr>)
     else nodes st' = nodes st)"
proof (cases "json_array_add (mem (requests st)) arr v")
  case (Inl e)
  then have "\<not> all_granted mem"
    by (auto simp: json_array_add_def json_array_resize_def max_def all_granted_def split: if_splits)
  then show ?thesis using Inl ok a v by (intro exI [of _ False]) (simp add: json_array_add_h_def array_at_def)
next
  case (Inr arr')
  have items: "array_items arr' = array_items arr @ [v]" by (rule json_array_add_Inr [OF Inr])
  have av: "a \<noteq> v" using v(3) by auto
  let ?st = "set_content a (CArray arr') (set_parent (Some a) v (st\<lparr>requests := Suc (requests st)\<rparr>))"
  have nodes': "nodes ?st = (nodes st)(a \<mapsto> n\<lparr>node_content := CArray arr'\<rparr>, v \<mapsto> m\<lparr>node_parent := Some a\<rparr>)"
    using a(1) v(1) av by (simp add: set_content_def set_parent_def fun_upd_twist)
  have "mem_ok ?st"
    using fresh_not_linked [OF mem_okD [OF ok] a(1) v(1,2)] forestD(5) [OF mem_okD [OF ok] a(1)] a(2)
    by (intro mem_ok_exchange [OF ok a(1) _ v, of "{}" "n\<lparr>node_content := CArray arr'\<rparr>"])
      (simp_all add: items nodes')
  moreover have "json_array_add_h mem a v st = Some (True, ?st)"
    using a v(1) Inr by (simp add: json_array_add_h_def array_at_def)
  ultimately show ?thesis using nodes' items by (intro exI [of _ True] exI [of _ ?st]) auto
qed

lemma distinct_drop_nth:
  assumes "distinct xs" "i < length xs"
  shows "distinct (take i xs @ drop (Suc i) xs)" "set (take i xs @ drop (Suc i) xs) = set xs - {xs ! i}"
proof -
  define ys zs where "ys = take i xs" and "zs = drop (Suc i) xs"
  have "xs = ys @ xs ! i # zs" using id_take_nth_drop [OF assms(2)] by (simp add: ys_def zs_def)
  moreover define y where "y = xs ! i"
  ultimately have xs: "xs = ys @ y # zs" by simp
  show "distinct (take i xs @ drop (Suc i) xs)" "set (take i xs @ drop (Suc i) xs) = set xs - {xs ! i}"
    using assms(1) unfolding ys_def [symmetric] zs_def [symmetric] y_def [symmetric] by (auto simp: xs)
qed

lemma json_array_remove_ok:
  assumes ok: "mem_ok st" and a: "nodes st a = Some n" "node_content n = CArray arr"
    and ix: "ix < length (array_items arr)"
  shows "\<exists>st'. json_array_remove_h (Some a) ix st = Some (True, st') \<and> mem_ok st' \<and> brk st' = brk st \<and>
    nodes st' = (without (nodes st) (below (nodes st) (array_items arr ! ix)))
      (a \<mapsto> n\<lparr>node_content := CArray (JSON_Array (take ix (array_items arr) @ drop (Suc ix) (array_items arr))
                (array_capacity arr))\<rparr>)"
proof -
  let ?v = "array_items arr ! ix" and ?items = "take ix (array_items arr) @ drop (Suc ix) (array_items arr)"
  let ?n = "n\<lparr>node_content := CArray (JSON_Array ?items (array_capacity arr))\<rparr>"
  have dist: "distinct (array_items arr)" using forestD(5) [OF mem_okD [OF ok] a(1)] a(2) by simp
  have items: "distinct ?items" "set ?items = set (array_items arr) - {?v}"
    using distinct_drop_nth [OF dist ix] by auto
  have v: "set [?v] \<subseteq> set (links n)" using ix a(2) by simp
  obtain st1 where 1: "free_all [?v] st = Some st1" "brk st1 = brk st"
      "nodes st1 = without (nodes st) (below (nodes st) ?v)" "nodes st1 a = Some n"
    using free_links [OF ok a(1) v] by auto
  let ?st = "set_content a (CArray (JSON_Array ?items (array_capacity arr))) st1"
  have nodes': "nodes ?st = (without (nodes st) (below (nodes st) ?v))(a \<mapsto> ?n)"
    using nodes_set_content [OF 1(4)] 1(3) by simp
  have "mem_ok ?st"
    using v items a(2) 1(2) nodes' by (intro mem_ok_lose [OF ok a(1), of "{?v}" ?n]) simp_all
  moreover have "json_array_remove_h (Some a) ix st = Some (True, ?st)"
    using a ix 1 by (simp add: json_array_remove_h_def json_value_free_def array_at_def)
  ultimately show ?thesis using nodes' 1(2) by auto
qed

lemma root_not_below:
  assumes f: "forest h" and n: "h p = Some n" "C \<subseteq> set (links n)" and v: "h v = Some m" "node_parent m = None"
  shows "v \<notin> (\<Union>c \<in> C. below h c)"
proof
  assume "v \<in> (\<Union>c \<in> C. below h c)"
  then obtain c where c: "c \<in> C" "v \<in> below h c" by auto
  have "(v, q) \<notin> child h" for q using v by (simp add: child_iff)
  then have "v = c" using below_parent [OF c(2)] by blast
  then show False using fresh_not_linked [OF f n(1) v] c(1) n(2) by blast
qed

lemma json_array_replace_value_ok:
  assumes ok: "mem_ok st" and a: "nodes st a = Some n" "node_content n = CArray arr"
    and ix: "ix < length (array_items arr)"
    and v: "nodes st v = Some m" "node_parent m = None" "a \<notin> below (nodes st) v"
  shows "\<exists>st'. json_array_replace_value_h (Some a) ix (Some v) st = Some (True, st') \<and> mem_ok st' \<and>
    brk st' = brk st \<and> nodes st' = (without (nodes st) (below (nodes st) (array_items arr ! ix)))
      (a \<mapsto> n\<lparr>node_content := CArray (JSON_Array ((array_items arr)[ix := v]) (array_capacity arr))\<rparr>,
       v \<mapsto> m\<lparr>node_parent := Some a\<rparr>)"
proof -
  let ?c = "array_items arr ! ix" and ?items = "(array_items arr)[ix := v]"
  let ?n = "n\<lparr>node_content := CArray (JSON_Array ?items (array_capacity arr))\<rparr>"
  have f: "forest (nodes st)" by (rule mem_okD [OF ok])
  have av: "a \<noteq> v" using v(3) by auto
  have dist: "distinct (array_items arr)" using forestD(5) [OF f a(1)] a(2) by simp
  have c: "set [?c] \<subseteq> set (links n)" using ix a(2) by simp
  obtain st1 where 1: "free_all [?c] st = Some st1" "brk st1 = brk st"
      "nodes st1 = without (nodes st) (below (nodes st) ?c)" "nodes st1 a = Some n"
    using free_links [OF ok a(1) c] by auto
  have nv: "nodes st1 v = Some m" using root_not_below [OF f a(1) c v(1,2)] 1(3) v(1) by simp
  let ?st = "set_content a (CArray (JSON_Array ?items (array_capacity arr))) (set_parent (Some a) v st1)"
  have nodes': "nodes ?st = (without (nodes st) (below (nodes st) ?c))(a \<mapsto> ?n, v \<mapsto> m\<lparr>node_parent := Some a\<rparr>)"
    using 1(3,4) nv av by (simp add: set_content_def set_parent_def fun_upd_twist)
  have "distinct ?items"
    using dist fresh_not_linked [OF f a(1) v(1,2)] a(2) by (simp add: distinct_list_update)
  then have "mem_ok ?st"
    using c a(2) 1(2) nodes' set_update_distinct [OF dist ix]
    by (intro mem_ok_exchange [OF ok a(1) _ v, of "{?c}" ?n]) simp_all
  moreover have "json_array_replace_value_h (Some a) ix (Some v) st = Some (True, ?st)"
    using a ix 1 v(1,2) nv by (simp add: json_array_replace_value_h_def json_value_free_def array_at_def)
  ultimately show ?thesis using nodes' 1(2) by auto
qed

lemma json_array_clear_ok:
  assumes ok: "mem_ok st" and a: "nodes st a = Some n" "node_content n = CArray arr"
  shows "\<exists>st'. json_array_clear_h (Some a) st = Some (True, st') \<and> mem_ok st' \<and> brk st' = brk st \<and>
    nodes st' = (without (nodes st) (\<Union>v \<in> set (array_items arr). below (nodes st) v))
      (a \<mapsto> n\<lparr>node_content := CArray (JSON_Array [] (array_capacity arr))\<rparr>)"
proof -
  let ?n = "n\<lparr>node_content := CArray (JSON_Array [] (array_capacity arr))\<rparr>"
  have links: "set (array_items arr) \<subseteq> set (links n)" "distinct (array_items arr)"
    using a(2) forestD(5) [OF mem_okD [OF ok] a(1)] by simp_all
  obtain st1 where 1: "free_all (array_items arr) st = Some st1" "brk st1 = brk st"
      "nodes st1 = without (nodes st) (\<Union>v \<in> set (array_items arr). below (nodes st) v)" "nodes st1 a = Some n"
    using free_links [OF ok a(1) links] by auto
  let ?st = "set_content a (CArray (JSON_Array [] (array_capacity arr))) st1"
  have nodes': "nodes ?st = (without (nodes st) (\<Union>v \<in> set (array_items arr). below (nodes st) v))(a \<mapsto> ?n)"
    using nodes_set_content [OF 1(4)] 1(3) by simp
  have "mem_ok ?st"
    using 1(2) nodes' a(2) by (intro mem_ok_lose [OF ok a(1) links(1), of ?n]) simp_all
  moreover have "json_array_clear_h (Some a) st = Some (True, ?st)"
    using a 1 by (simp add: json_array_clear_h_def array_at_def)
  ultimately show ?thesis using nodes' 1(2) by auto
qed

section \<open>Objects\<close>

lemma obj_values_items: "table_ok obj \<Longrightarrow> obj_values obj = map snd (obj_items obj)"
  by (simp add: obj_items_def table_okD(6))

lemma adopt_same:
  "\<forall>v \<in> set vs. \<exists>m. nodes st v = Some m \<and> node_parent m = Some p \<Longrightarrow> adopt p vs st = st"
proof (induction vs)
  case (Cons v vs)
  then obtain m where "nodes st v = Some m" "node_parent m = Some p" by auto
  then have "set_parent (Some p) v st = st" by (simp add: set_parent_def fun_upd_idem)
  then show ?case using Cons by (simp add: adopt_def)
qed (simp add: adopt_def)

text \<open>The object at \<open>a\<close> has room for one more member; it has gained the member \<open>name\<close>.\<close>

definition has_room :: "json_mem \<Rightarrow> nat \<Rightarrow> json_node \<Rightarrow> nat json_object \<Rightarrow> json_mem \<Rightarrow> bool" where
  "has_room st a n obj st' \<longleftrightarrow>
     (\<exists>obj'. nodes st' = (nodes st)(a \<mapsto> n\<lparr>node_content := CObject obj'\<rparr>) \<and> table_ok obj' \<and>
        obj_items obj' = obj_items obj \<and> names obj' = names obj \<and> obj_count obj' < item_capacity obj')"

definition gains_member ::
  "json_mem \<Rightarrow> nat \<Rightarrow> json_node \<Rightarrow> nat json_object \<Rightarrow> string \<Rightarrow> nat \<Rightarrow> json_node \<Rightarrow> json_mem \<Rightarrow> bool" where
  "gains_member st a n obj name v m st' \<longleftrightarrow>
     (\<exists>obj'. nodes st' = (nodes st)(a \<mapsto> n\<lparr>node_content := CObject obj'\<rparr>, v \<mapsto> m\<lparr>node_parent := Some a\<rparr>) \<and>
        table_ok obj' \<and> obj_items obj' = obj_items obj @ [(name, v)])"

lemma make_room_ok:
  assumes ok: "mem_ok st" and a: "nodes st a = Some n" "node_content n = CObject obj"
  shows "\<exists>done st'. make_room mem a st = Some (done, st') \<and> mem_ok st' \<and> brk st' = brk st \<and>
    (all_granted mem \<longrightarrow> done) \<and> (if done then has_room st a n obj st' else nodes st' = nodes st)"
proof -
  have f: "forest (nodes st)" by (rule mem_okD [OF ok])
  have t: "table_ok obj" using forestD(5) [OF f a(1)] a(2) by simp
  have at: "object_at st a = Some obj" using a by (simp add: object_at_iff)
  let ?st1 = "st\<lparr>requests := Suc (requests st)\<rparr>"
  consider (room) "obj_count obj < item_capacity obj" | (refused) "item_capacity obj \<le> obj_count obj" "\<not> grow_granted (mem (requests st)) obj"
    | (grow) "item_capacity obj \<le> obj_count obj" "grow_granted (mem (requests st)) obj" by linarith
  then show ?thesis
  proof cases
    case room
    have "nodes st = (nodes st)(a \<mapsto> n\<lparr>node_content := CObject obj\<rparr>)"
      using a by (simp add: fun_upd_idem same_content)
    then have "has_room st a n obj st" using t room unfolding has_room_def by blast
    then show ?thesis using ok at room by (intro exI [of _ True] exI [of _ st]) (simp add: make_room_def)
  next
    case refused
    then have "\<not> all_granted mem" by (auto simp: grow_granted_def all_granted_def Let_def)
    then show ?thesis using refused ok at json_object_grow_and_rehash_refused [OF refused(2)]
      by (intro exI [of _ False] exI [of _ ?st1]) (simp add: make_room_def json_object_grow_and_rehash_h_def)
  next
    case grow
    then obtain obj' where o: "json_object_grow_and_rehash (mem (requests st)) obj = Inr obj'" "table_ok obj'"
        "obj_items obj' = obj_items obj" "names obj' = names obj" "obj_count obj < item_capacity obj'"
      using json_object_grow_and_rehash_ok [OF t grow(2)] by blast
    let ?st = "set_content a (CObject obj') ?st1"
    have "adopt a (obj_values obj) ?st1 = ?st1"
      using forestD(3) [OF f a(1)] a(2) by (intro adopt_same) (auto simp: child_def)
    then have run: "make_room mem a st = Some (True, ?st)"
      using at grow(1) o(1) by (simp add: make_room_def json_object_grow_and_rehash_h_def)
    have nodes': "nodes ?st = (nodes st)(a \<mapsto> n\<lparr>node_content := CObject obj'\<rparr>)"
      using a(1) by (simp add: set_content_def)
    have "obj_values obj' = obj_values obj" using o(2,3) t by (simp add: obj_values_items)
    then have "mem_ok ?st"
      using forestD(5) [OF f a(1)] a(2) o(2) nodes'
      by (intro mem_ok_lose [OF ok a(1), of "{}" "n\<lparr>node_content := CObject obj'\<rparr>"]) simp_all
    moreover have "has_room st a n obj ?st" unfolding has_room_def using nodes' o by auto
    ultimately show ?thesis using run by (intro exI [of _ True] exI [of _ ?st]) simp
  qed
qed

lemma put_member_ok:
  assumes ok: "mem_ok st" and a: "nodes st a = Some n" "node_content n = CObject obj"
    and name: "is_cstring name" "name \<notin> set (names obj)" and room: "obj_count obj < item_capacity obj"
    and v: "nodes st v = Some m" "node_parent m = None" "a \<notin> below (nodes st) v"
  shows "\<exists>st'. put_member a name v st = Some (True, st') \<and> mem_ok st' \<and> brk st' = brk st \<and>
    gains_member st a n obj name v m st'"
proof -
  have f: "forest (nodes st)" by (rule mem_okD [OF ok])
  have t: "table_ok obj" "distinct (obj_values obj)" using forestD(5) [OF f a(1)] a(2) by simp_all
  have av: "a \<noteq> v" using v(3) by auto
  obtain obj' where o: "json_object_put obj (fst (json_object_get_cell_ix obj name (length name)
       (hash_string name (length name)))) name (hash_string name (length name)) v = Inr obj'"
      "table_ok obj'" "obj_items obj' = obj_items obj @ [(name, v)]"
    using json_object_put_first_free [OF t(1) name room, of v] by blast
  then have vals: "obj_values obj' = obj_values obj @ [v]" using t by (simp add: obj_values_items)
  let ?st = "set_parent (Some a) v (set_content a (CObject obj') st)"
  let ?n = "n\<lparr>node_content := CObject obj'\<rparr>"
  have nodes': "nodes ?st = (nodes st)(a \<mapsto> ?n, v \<mapsto> m\<lparr>node_parent := Some a\<rparr>)"
    using a(1) v(1) av by (simp add: set_content_def set_parent_def)
  have "mem_ok ?st"
    using fresh_not_linked [OF f a(1) v(1,2)] a(2) o(2) t(2) vals nodes'
    by (intro mem_ok_exchange [OF ok a(1) _ v, of "{}" ?n]) simp_all
  moreover have "put_member a name v st = Some (True, ?st)"
    using a v(1) o(1) by (simp add: put_member_def object_at_def Let_def)
  moreover have "gains_member st a n obj name v m ?st" unfolding gains_member_def using nodes' o by auto
  ultimately show ?thesis by (intro exI [of _ ?st]) simp
qed

lemma put_in_room:
  assumes ok: "mem_ok st1" "has_room st a n obj st1" "brk st1 = brk st"
    and name: "is_cstring name" "name \<notin> set (names obj)" and a: "nodes st a = Some n"
    and v: "nodes st v = Some m" "node_parent m = None" "a \<notin> below (nodes st) v"
  shows "\<exists>st'. put_member a name v st1 = Some (True, st') \<and> mem_ok st' \<and> brk st' = brk st \<and>
    gains_member st a n obj name v m st'"
proof -
  obtain obj1 where o: "nodes st1 = (nodes st)(a \<mapsto> n\<lparr>node_content := CObject obj1\<rparr>)" "table_ok obj1"
    "obj_items obj1 = obj_items obj" "names obj1 = names obj" "obj_count obj1 < item_capacity obj1"
    using ok(2) unfolding has_room_def by blast
  let ?n = "n\<lparr>node_content := CObject obj1\<rparr>"
  have av: "a \<noteq> v" using v(3) by auto
  have "child (nodes st1) = child (nodes st)" using child_update [of "nodes st" a n] a o(1) by simp
  then have v1: "nodes st1 v = Some m" "a \<notin> below (nodes st1) v"
    using o(1) v av by (auto simp: below_def)
  have a1: "nodes st1 a = Some ?n" "node_content ?n = CObject obj1" using o(1) by simp_all
  obtain st' where "put_member a name v st1 = Some (True, st')" "mem_ok st'" "brk st' = brk st1"
      "gains_member st1 a ?n obj1 name v m st'"
    using put_member_ok [OF ok(1) a1 name(1) _ o(5) v1(1) v(2) v1(2)] name(2) o(4) by auto
  moreover from this(4) have "gains_member st a n obj name v m st'"
    unfolding gains_member_def using o(1,3) by auto
  ultimately show ?thesis using ok(3) by auto
qed

lemma missing_member:
  "table_ok obj \<Longrightarrow> name \<notin> set (names obj) \<Longrightarrow>
   \<exists>ix. json_object_get_cell_ix obj name (length name) (hash_string name (length name)) = (ix, False)"
  using get_cell_ix_not_found [of obj "length name" name] by (metis order_refl prod.collapse take_all_iff)

lemma present_member:
  assumes "table_ok obj" "name \<in> set (names obj)"
  obtains j ix where "j < obj_count obj" "names obj ! j = name" "cells obj ! ix = Some j"
    "json_object_get_cell_ix obj name (length name) (hash_string name (length name)) = (Some ix, True)"
proof -
  obtain j where "j < obj_count obj" "names obj ! j = name" using assms(2) by (auto simp: set_names_iff)
  then show ?thesis
    using that get_cell_ix_found [OF assms(1), of j "length name" name] table_ok_link(2) [OF assms(1)] by auto
qed


lemma json_object_add_ok:
  assumes ok: "mem_ok st" and a: "nodes st a = Some n" "node_content n = CObject obj"
    and name: "is_cstring name"
    and v: "nodes st v = Some m" "node_parent m = None" "a \<notin> below (nodes st) v"
  shows "\<exists>done st'. json_object_add_h mem a name v st = Some (done, st') \<and> mem_ok st' \<and> brk st' = brk st \<and>
    (all_granted mem \<and> name \<notin> set (names obj) \<longrightarrow> done) \<and> (if done then gains_member st a n obj name v m st' \<and> name \<notin> set (names obj) else nodes st' = nodes st)"
proof -
  have t: "table_ok obj" using forestD(5) [OF mem_okD [OF ok] a(1)] a(2) by simp
  have at: "object_at st a = Some obj" using a by (simp add: object_at_iff)
  show ?thesis
  proof (cases "name \<in> set (names obj)")
    case True
    then have "json_object_add_h mem a name v st = Some (False, st)"
      using at by (auto simp: json_object_add_h_def elim: present_member [OF t])
    then show ?thesis using ok True by (intro exI [of _ False] exI [of _ st]) simp
  next
    case False
    obtain granted st1 where 1: "make_room mem a st = Some (granted, st1)" "mem_ok st1" "brk st1 = brk st"
        "all_granted mem \<longrightarrow> granted" "if granted then has_room st a n obj st1 else nodes st1 = nodes st"
      using make_room_ok [OF ok a] by blast
    then have run: "json_object_add_h mem a name v st
        = (if granted then put_member a name v st1 else Some (False, st1))"
      using at missing_member [OF t False] by (auto simp: json_object_add_h_def)
    show ?thesis
    proof (cases granted)
      case refused: False
      then show ?thesis using 1 run by (intro exI [of _ False] exI [of _ st1]) simp
    next
      case True
      with put_in_room [OF 1(2) _ 1(3) name False a(1) v] 1(5) obtain st' where
        "put_member a name v st1 = Some (True, st')" "mem_ok st'" "brk st' = brk st"
        "gains_member st a n obj name v m st'" by auto
      then show ?thesis using True run False by (intro exI [of _ True] exI [of _ st']) simp
    qed
  qed
qed

text \<open>
  \<open>json_object_set_value\<close>: a value with the name is freed and replaced in its slot; otherwise the member
  is added.  When it fails nothing changes but the size of the table.
\<close>

definition same_members :: "json_mem \<Rightarrow> nat \<Rightarrow> json_node \<Rightarrow> nat json_object \<Rightarrow> json_mem \<Rightarrow> bool" where
  "same_members st a n obj st' \<longleftrightarrow>
     (\<exists>obj'. nodes st' = (nodes st)(a \<mapsto> n\<lparr>node_content := CObject obj'\<rparr>) \<and> table_ok obj' \<and>
        obj_items obj' = obj_items obj)"

definition sets_member ::
  "json_mem \<Rightarrow> nat \<Rightarrow> json_node \<Rightarrow> nat json_object \<Rightarrow> string \<Rightarrow> nat \<Rightarrow> json_node \<Rightarrow> json_mem \<Rightarrow> bool" where
  "sets_member st a n obj name v m st' \<longleftrightarrow>
     (\<exists>obj'. nodes st' = (without (nodes st) (case obj_map obj name of None \<Rightarrow> {} | Some old \<Rightarrow> below (nodes st) old))
          (a \<mapsto> n\<lparr>node_content := CObject obj'\<rparr>, v \<mapsto> m\<lparr>node_parent := Some a\<rparr>) \<and>
        table_ok obj' \<and> obj_items obj' = AList.update name v (obj_items obj))"

lemma gains_sets_member:
  assumes "table_ok obj" "name \<notin> set (names obj)" "gains_member st a n obj name v m st'"
  shows "sets_member st a n obj name v m st'"
proof -
  have "obj_map obj name = None" using assms(1,2) by (simp add: obj_map_None_iff)
  moreover have "AList.update name v (obj_items obj) = obj_items obj @ [(name, v)]"
    using assms(1,2) by (intro alist_update_fresh) simp
  ultimately show ?thesis using assms(3) by (simp add: gains_member_def sets_member_def)
qed

lemma same_members_refl:
  assumes "nodes st a = Some n" "node_content n = CObject obj" "table_ok obj" "nodes st' = nodes st"
  shows "same_members st a n obj st'"
proof -
  have "nodes st = (nodes st)(a \<mapsto> n\<lparr>node_content := CObject obj\<rparr>)"
    using assms(1,2) by (simp add: fun_upd_idem same_content)
  then show ?thesis using assms(3,4) unfolding same_members_def by auto
qed

lemma set_slot_ok:
  assumes ok: "table_ok obj" and j: "j < obj_count obj"
    and o: "obj' = JSON_Object (cells obj) (hashes obj) (names obj) ((obj_values obj)[j := v])
      (cell_ixs obj) (item_capacity obj) (cell_capacity obj)"
  shows "table_ok obj'" "obj_items obj' = AList.update (names obj ! j) v (obj_items obj)"
    "obj_values obj' = (obj_values obj)[j := v]"
  using ok alist_update_nth [OF table_okD(8) [OF ok], of "obj_values obj" j v] j table_okD(6) [OF ok]
  by (simp_all add: o table_ok_def sizes_ok_def keys_ok_def obj_items_def)

lemma set_value_present:
  assumes ok: "mem_ok st" and a: "nodes st a = Some n" "node_content n = CObject obj"
    and name: "name \<in> set (names obj)"
    and v: "nodes st v = Some m" "node_parent m = None" "a \<notin> below (nodes st) v"
  shows "\<exists>st'. json_object_set_value_h mem (Some a) (Some name) (Some v) st = Some (True, st') \<and> mem_ok st' \<and>
    brk st' = brk st \<and> sets_member st a n obj name v m st'"
proof -
  have f: "forest (nodes st)" by (rule mem_okD [OF ok])
  have t: "table_ok obj" "distinct (obj_values obj)" using forestD(5) [OF f a(1)] a(2) by simp_all
  have at: "object_at st a = Some obj" using a by (simp add: object_at_iff)
  have av: "a \<noteq> v" using v(3) by auto
  obtain j ix where j: "j < obj_count obj" "names obj ! j = name" "cells obj ! ix = Some j"
    "json_object_get_cell_ix obj name (length name) (hash_string name (length name)) = (Some ix, True)"
    using present_member [OF t(1) name] .
  let ?old = "obj_values obj ! j"
  have jv: "j < length (obj_values obj)" using j(1) table_okD(6) [OF t(1)] by simp
  then have old: "set [?old] \<subseteq> set (links n)" using a(2) by simp
  obtain st1 where 1: "free_all [?old] st = Some st1" "brk st1 = brk st"
      "nodes st1 = without (nodes st) (below (nodes st) ?old)" "nodes st1 a = Some n"
    using free_links [OF ok a(1) old] by auto
  have nv: "nodes st1 v = Some m" using root_not_below [OF f a(1) old v(1,2)] 1(3) v(1) by simp
  define obj' where "obj' = JSON_Object (cells obj) (hashes obj) (names obj) ((obj_values obj)[j := v])
    (cell_ixs obj) (item_capacity obj) (cell_capacity obj)"
  note s = set_slot_ok [OF t(1) j(1) obj'_def]
  let ?n = "n\<lparr>node_content := CObject obj'\<rparr>" and ?st = "set_parent (Some a) v (set_content a (CObject obj') st1)"
  have nodes': "nodes ?st = (without (nodes st) (below (nodes st) ?old))(a \<mapsto> ?n, v \<mapsto> m\<lparr>node_parent := Some a\<rparr>)"
    using 1(3,4) nv av by (simp add: set_content_def set_parent_def)
  have "distinct ((obj_values obj)[j := v])"
    using t(2) fresh_not_linked [OF f a(1) v(1,2)] a(2) by (simp add: distinct_list_update)
  then have "mem_ok ?st"
    using old a(2) 1(2) nodes' set_update_distinct [OF t(2) jv, of v] s
    by (intro mem_ok_exchange [OF ok a(1) _ v, of "{?old}" ?n]) simp_all
  moreover have "json_object_set_value_h mem (Some a) (Some name) (Some v) st = Some (True, ?st)"
    using a at j 1 v(1,2) nv by (simp add: json_object_set_value_h_def json_value_free_def object_at_def obj'_def)
  moreover have "obj_map obj name = Some ?old" using obj_items_lookup [OF t(1) j(1)] j(2) by simp
  then have "sets_member st a n obj name v m ?st" unfolding sets_member_def using nodes' s j(2) by auto
  ultimately show ?thesis using 1(2) by (intro exI [of _ ?st]) simp
qed

lemma json_object_set_value_h_ok:
  assumes ok: "mem_ok st" and a: "nodes st a = Some n" "node_content n = CObject obj"
    and name: "is_cstring name"
    and v: "nodes st v = Some m" "node_parent m = None" "a \<notin> below (nodes st) v"
  shows "\<exists>done st'. json_object_set_value_h mem (Some a) (Some name) (Some v) st = Some (done, st') \<and> mem_ok st' \<and>
    brk st' = brk st \<and> (all_granted mem \<longrightarrow> done) \<and> (if done then sets_member st a n obj name v m st' else same_members st a n obj st')"
proof (cases "name \<in> set (names obj)")
  case True
  then show ?thesis using set_value_present [OF ok a True v, of mem] by (intro exI [of _ True]) simp
next
  case False
  have t: "table_ok obj" using forestD(5) [OF mem_okD [OF ok] a(1)] a(2) by simp
  have at: "object_at st a = Some obj" using a by (simp add: object_at_iff)
  obtain granted st1 where 1: "make_room mem a st = Some (granted, st1)" "mem_ok st1" "brk st1 = brk st"
      "all_granted mem \<longrightarrow> granted" "if granted then has_room st a n obj st1 else nodes st1 = nodes st"
    using make_room_ok [OF ok a] by blast
  let ?st2 = "st1\<lparr>requests := Suc (requests st1)\<rparr>"
  have run: "json_object_set_value_h mem (Some a) (Some name) (Some v) st
      = (if \<not> granted then Some (False, st1)
         else if \<not> mem (requests st1) (length name + 1) then Some (False, ?st2) else put_member a name v ?st2)"
    using at v(1,2) 1(1) missing_member [OF t False] by (auto simp: json_object_set_value_h_def parson_malloc_def)
  show ?thesis
  proof (cases granted)
    case refused: False
    then have "same_members st a n obj st1" using 1(5) same_members_refl [OF a t] by simp
    then show ?thesis using 1 run refused by (intro exI [of _ False] exI [of _ st1]) simp
  next
    case True
    then have room: "has_room st a n obj ?st2" using 1(5) by (simp add: has_room_def)
    show ?thesis
    proof (cases "mem (requests st1) (length name + 1)")
      case refused: False
      have "same_members st a n obj ?st2" using room unfolding has_room_def same_members_def by blast
      moreover have "\<not> all_granted mem" using refused by (auto simp: all_granted_def)
      ultimately show ?thesis using 1 run refused True by (intro exI [of _ False] exI [of _ ?st2]) simp
    next
      case key: True
      obtain st' where "put_member a name v ?st2 = Some (True, st')" "mem_ok st'" "brk st' = brk st"
        "gains_member st a n obj name v m st'"
        using put_in_room [OF _ room _ name False a(1) v] 1(2,3) by auto
      then show ?thesis using True run key gains_sets_member [OF t False]
        by (intro exI [of _ True] exI [of _ st']) simp
    qed
  qed
qed

lemma remove_table:
  assumes t: "table_ok obj" "distinct (obj_values obj)" and m: "obj_map obj name = Some old"
  obtains obj' where "json_object_remove_internal obj name = Inr obj'" "table_ok obj'"
    "obj_map obj' = (obj_map obj)(name := None)" "distinct (obj_values obj')"
    "set (obj_values obj') = set (obj_values obj) - {old}"
proof -
  have "name \<in> set (names obj)" using m obj_map_None_iff [OF t(1), of name] by auto
  then obtain j where j: "j < obj_count obj" "names obj ! j = name" by (auto simp: set_names_iff)
  then have old: "obj_values obj ! j = old" using obj_items_lookup [OF t(1) j(1)] m by simp
  obtain obj' where o: "json_object_remove_internal obj name = Inr obj'" "table_ok obj'"
      "obj_items obj' = swap_remove (obj_items obj) j"
    using json_object_remove_internal_ok [OF t(1) j] by blast
  have ji: "j < length (obj_items obj)" using j(1) t(1) by simp
  then have "obj_items obj \<noteq> []" by auto
  then have "obj_values obj' = swap_remove (map snd (obj_items obj)) j"
    using o(2,3) ji by (simp add: obj_values_items swap_remove_def map_butlast map_update last_map)
  then have vals: "obj_values obj' = swap_remove (obj_values obj) j" using t(1) by (simp add: obj_values_items)
  have jv: "j < length (obj_values obj)" using j(1) table_okD(6) [OF t(1)] by simp
  show ?thesis
    using that [OF o(1,2)] obj_map_swap_remove [OF t(1) o(2) j(1) o(3)] j(2) vals old
      distinct_swap_remove [OF t(2) jv] set_swap_remove [OF t(2) jv] by simp
qed

lemma getn_whole: "table_ok obj \<Longrightarrow> json_object_getn_value obj name (length name) = obj_map obj name"
  using json_object_getn_value_eq [of obj "length name" name] by simp

lemma json_object_remove_internal_h_ok:
  assumes ok: "mem_ok st" and a: "nodes st a = Some n" "node_content n = CObject obj"
  shows "\<exists>done st'. json_object_remove_internal_h a name True st = Some (done, st') \<and> mem_ok st' \<and> brk st' = brk st \<and>
    (case obj_map obj name of
       None \<Rightarrow> \<not> done \<and> st' = st
     | Some old \<Rightarrow> done \<and> (\<exists>obj'. table_ok obj' \<and> obj_map obj' = (obj_map obj)(name := None) \<and>
         nodes st' = (without (nodes st) (below (nodes st) old))(a \<mapsto> n\<lparr>node_content := CObject obj'\<rparr>)))"
proof (cases "obj_map obj name")
  case None
  have t: "table_ok obj" using forestD(5) [OF mem_okD [OF ok] a(1)] a(2) by simp
  have "object_at st a = Some obj" using a by (simp add: object_at_iff)
  then show ?thesis using ok None
    by (intro exI [of _ False] exI [of _ st]) (simp add: json_object_remove_internal_h_def getn_whole [OF t])
next
  case (Some old)
  have f: "forest (nodes st)" by (rule mem_okD [OF ok])
  have t: "table_ok obj" "distinct (obj_values obj)" using forestD(5) [OF f a(1)] a(2) by simp_all
  have old: "set [old] \<subseteq> set (links n)" using obj_map_value [OF Some] a(2) by simp
  obtain st1 where 1: "free_all [old] st = Some st1" "brk st1 = brk st"
      "nodes st1 = without (nodes st) (below (nodes st) old)" "nodes st1 a = Some n"
    using free_links [OF ok a(1) old] by auto
  obtain obj' where o: "json_object_remove_internal obj name = Inr obj'" "table_ok obj'"
      "obj_map obj' = (obj_map obj)(name := None)" "distinct (obj_values obj')"
      "set (obj_values obj') = set (obj_values obj) - {old}"
    using remove_table [OF t Some] .
  let ?n = "n\<lparr>node_content := CObject obj'\<rparr>" and ?st = "set_content a (CObject obj') st1"
  have nodes': "nodes ?st = (without (nodes st) (below (nodes st) old))(a \<mapsto> ?n)"
    using nodes_set_content [OF 1(4)] 1(3) by simp
  have "mem_ok ?st"
    using old a(2) 1(2) nodes' o by (intro mem_ok_lose [OF ok a(1), of "{old}" ?n]) simp_all
  moreover have "json_object_remove_internal_h a name True st = Some (True, ?st)"
    using a 1 o(1) Some by (simp add: json_object_remove_internal_h_def json_value_free_def object_at_def getn_whole [OF t(1)])
  ultimately show ?thesis using nodes' 1(2) Some o(2,3)
    by (intro exI [of _ True] exI [of _ ?st]) auto
qed

lemma json_object_clear_h_ok:
  assumes ok: "mem_ok st" and a: "nodes st a = Some n" "node_content n = CObject obj"
  shows "\<exists>st'. json_object_clear_h (Some a) st = Some (True, st') \<and> mem_ok st' \<and> brk st' = brk st \<and>
    nodes st' = (without (nodes st) (\<Union>v \<in> set (obj_values obj). below (nodes st) v))
      (a \<mapsto> n\<lparr>node_content := CObject (json_object_clear obj)\<rparr>)"
proof -
  let ?n = "n\<lparr>node_content := CObject (json_object_clear obj)\<rparr>"
  have t: "table_ok obj" using forestD(5) [OF mem_okD [OF ok] a(1)] a(2) by simp
  have links: "set (obj_values obj) \<subseteq> set (links n)" "distinct (obj_values obj)"
    using a(2) forestD(5) [OF mem_okD [OF ok] a(1)] by simp_all
  obtain st1 where 1: "free_all (obj_values obj) st = Some st1" "brk st1 = brk st"
      "nodes st1 = without (nodes st) (\<Union>v \<in> set (obj_values obj). below (nodes st) v)" "nodes st1 a = Some n"
    using free_links [OF ok a(1) links] by auto
  let ?st = "set_content a (CObject (json_object_clear obj)) st1"
  have nodes': "nodes ?st = (without (nodes st) (\<Union>v \<in> set (obj_values obj). below (nodes st) v))(a \<mapsto> ?n)"
    using nodes_set_content [OF 1(4)] 1(3) by simp
  have "obj_values (json_object_clear obj) = []" by (simp add: json_object_clear_def)
  then have "mem_ok ?st"
    using 1(2) nodes' a(2) json_object_clear_ok(1) [OF t]
    by (intro mem_ok_lose [OF ok a(1) links(1), of ?n]) simp_all
  moreover have "json_object_clear_h (Some a) st = Some (True, ?st)"
    using a 1 by (simp add: json_object_clear_h_def object_at_def)
  ultimately show ?thesis using nodes' 1(2) by auto
qed

end
