(* ===== verification/Parson_Copy.thy ===== *)
theory Parson_Copy
  imports Parson_Memory
begin

text \<open>
  What the blocks below an address denote, and the deep copy with its failure paths: it gives a new
  root that denotes the same, or leaves no block behind.
\<close>

section \<open>What a block denotes\<close>

inductive denotes :: "json_nodes \<Rightarrow> nat \<Rightarrow> json \<Rightarrow> bool" for h where
  denotes_null: "h a = Some n \<Longrightarrow> node_content n = CNull \<Longrightarrow> denotes h a Null"
| denotes_bool: "h a = Some n \<Longrightarrow> node_content n = CBoolean b \<Longrightarrow> denotes h a (Bool b)"
| denotes_num: "h a = Some n \<Longrightarrow> node_content n = CNumber x \<Longrightarrow> denotes h a (Num x)"
| denotes_str: "h a = Some n \<Longrightarrow> node_content n = CString s \<Longrightarrow> denotes h a (Str s)"
| denotes_arr: "h a = Some n \<Longrightarrow> node_content n = CArray arr \<Longrightarrow>
    list_all2 (denotes h) (array_items arr) js \<Longrightarrow> denotes h a (Arr js)"
| denotes_obj: "h a = Some n \<Longrightarrow> node_content n = CObject obj \<Longrightarrow>
    list_all2 (denotes h) (obj_values obj) js \<Longrightarrow> denotes h a (Obj (zip (names obj) js))"

inductive_simps denotes_simps: "denotes h a j"

lemma denotes_node:
  assumes "h a = Some n"
  shows "denotes h a j \<longleftrightarrow>
    (case node_content n of
       CNull \<Rightarrow> j = Null
     | CBoolean b \<Rightarrow> j = Bool b
     | CNumber x \<Rightarrow> j = Num x
     | CString s \<Rightarrow> j = Str s
     | CArray arr \<Rightarrow> \<exists>js. list_all2 (denotes h) (array_items arr) js \<and> j = Arr js
     | CObject obj \<Rightarrow> \<exists>js. list_all2 (denotes h) (obj_values obj) js \<and> j = Obj (zip (names obj) js))"
  using assms by (subst denotes_simps) (auto split: json_content.splits)

lemma list_all2_exists: "\<forall>x \<in> set xs. \<exists>y. P x y \<Longrightarrow> \<exists>ys. list_all2 P xs ys"
proof (induction xs)
  case (Cons x xs)
  then obtain y ys where "P x y" "list_all2 P xs ys" by auto
  then show ?case by (intro exI [of _ "y # ys"]) simp
qed (auto intro: exI [of _ "[]"])

lemma denotes_exists:
  assumes f: "forest h"
  shows "a \<in> dom h \<Longrightarrow> \<exists>j. denotes h a j"
proof (induction a rule: wf_induct_rule [OF wf_child [OF f]])
  case (1 a)
  then obtain n where n: "h a = Some n" by auto
  have "\<forall>c \<in> set (links n). \<exists>j. denotes h c j"
    using 1(1) forestD(3) [OF f n] child_dom by blast
  then obtain js where "list_all2 (denotes h) (links n) js" using list_all2_exists by metis
  then show ?case using denotes_node [of h a n] n by (cases "node_content n") auto
qed

lemma denotes_unique: "denotes h a j \<Longrightarrow> denotes h a k \<Longrightarrow> j = k"
proof (induction arbitrary: k rule: denotes.induct)
  case (denotes_arr a n arr js)
  from denotes_arr.prems denotes_arr.hyps obtain ks where ks: "k = Arr ks" "list_all2 (denotes h) (array_items arr) ks"
    by (auto simp: denotes_node)
  have "js = ks" using denotes_arr.IH ks(2)
    by (intro nth_equalityI) (auto simp: list_all2_conv_all_nth)
  then show ?case using ks by simp
next
  case (denotes_obj a n obj js)
  from denotes_obj.prems denotes_obj.hyps obtain ks where ks: "k = Obj (zip (names obj) ks)" "list_all2 (denotes h) (obj_values obj) ks"
    by (auto simp: denotes_node)
  have "js = ks" using denotes_obj.IH ks(2)
    by (intro nth_equalityI) (auto simp: list_all2_conv_all_nth)
  then show ?case using ks by simp
qed (auto simp: denotes_node)

text \<open>Only the contents of the blocks below count.\<close>

definition same_below :: "json_nodes \<Rightarrow> nat \<Rightarrow> json_nodes \<Rightarrow> bool" where
  "same_below h a h' \<longleftrightarrow> (\<forall>x \<in> below h a. map_option node_content (h' x) = map_option node_content (h x))"

lemma same_belowD:
  assumes "same_below h a h'" "h a = Some n"
  shows "\<exists>n'. h' a = Some n' \<and> node_content n' = node_content n"
proof -
  have "map_option node_content (h' a) = Some (node_content n)"
    using assms below_self by (simp add: same_below_def)
  then show ?thesis by auto
qed

lemma same_below_links:
  assumes f: "forest h" and "same_below h a h'" "h a = Some n" "c \<in> set (links n)"
  shows "same_below h c h'"
proof -
  have "below h c \<subseteq> below h a" using below_linked [OF f assms(3)] assms(4) by auto
  then show ?thesis using assms(2) by (auto simp: same_below_def)
qed

lemma denotes_frame:
  assumes f: "forest h"
  shows "denotes h a j \<Longrightarrow> same_below h a h' \<Longrightarrow> denotes h' a j"
proof (induction rule: denotes.induct)
  case (denotes_arr a n arr js)
  have "list_all2 (denotes h') (array_items arr) js"
    using denotes_arr.IH same_below_links [OF f denotes_arr.prems denotes_arr.hyps(1)] denotes_arr.hyps(2)
    by (auto simp: list_all2_conv_all_nth)
  then show ?case
    using same_belowD [OF denotes_arr.prems denotes_arr.hyps(1)] denotes_arr.hyps(2) denotes.denotes_arr by metis
next
  case (denotes_obj a n obj js)
  have "list_all2 (denotes h') (obj_values obj) js"
    using denotes_obj.IH same_below_links [OF f denotes_obj.prems denotes_obj.hyps(1)] denotes_obj.hyps(2)
    by (auto simp: list_all2_conv_all_nth)
  then show ?case
    using same_belowD [OF denotes_obj.prems denotes_obj.hyps(1)] denotes_obj.hyps(2) denotes.denotes_obj by metis
qed (metis denotes.intros same_belowD)+

lemma denotes_frame_list:
  assumes "forest h" "list_all2 (denotes h) vs js" "\<forall>v \<in> set vs. same_below h v h'"
  shows "list_all2 (denotes h') vs js"
  using assms(2,3) denotes_frame [OF assms(1)] by (auto simp: list_all2_conv_all_nth)

section \<open>Copying\<close>

lemma copy_members_simps:
  "copy_members mem r [] st = Some (True, st)"
  "copy_members mem r ((key, None) # rest) st = Some (False, st)"
  "copy_members mem r ((key, Some v) # rest) st = do {
     (copy, st1) \<leftarrow> json_value_deep_copy_h mem (Some v) st;
     case copy of
       None \<Rightarrow> Some (False, st1)
     | Some c \<Rightarrow> do {
         (ok, st2) \<leftarrow> add_copy mem r key c st1;
         if \<not> ok then do {
           st3 \<leftarrow> json_value_free (Some c) st2;
           Some (False, st3)
         } else copy_members mem r rest st2
       }
   }"
proof -
  show "copy_members mem r ((key, Some v) # rest) st = do {
     (copy, st1) \<leftarrow> json_value_deep_copy_h mem (Some v) st;
     case copy of
       None \<Rightarrow> Some (False, st1)
     | Some c \<Rightarrow> do {
         (ok, st2) \<leftarrow> add_copy mem r key c st1;
         if \<not> ok then do {
           st3 \<leftarrow> json_value_free (Some c) st2;
           Some (False, st3)
         } else copy_members mem r rest st2
       }
   }"
  proof (cases "nodes st v")
    case None
    then show ?thesis by (subst copy_members.simps) (simp add: json_value_deep_copy_h_def)
  next
    case (Some n)
    obtain c st1 where c: "new_copy mem (node_content n) st = (c, st1)" by fastforce
    show ?thesis
    proof (cases c)
      case None
      then show ?thesis by (subst copy_members.simps) (simp add: json_value_deep_copy_h_def Some c)
    next
      case (Some a)
      show ?thesis
      proof (cases "copy_members mem a (members_of (node_content n)) st1")
        case None
        then show ?thesis
          by (subst copy_members.simps) (simp add: json_value_deep_copy_h_def \<open>nodes st v = Some n\<close> c Some)
      next
        case fin: (Some result)
        obtain ok st2 where "result = (ok, st2)" by fastforce
        then show ?thesis
          by (subst copy_members.simps)
            (cases "json_value_free (Some a) st2"; simp add: json_value_deep_copy_h_def \<open>nodes st v = Some n\<close> c Some fin)
      qed
    qed
  qed
qed (subst copy_members.simps, simp)+

text \<open>\<open>c\<close> is the root of blocks that are not in \<open>st\<close>; nothing else has changed.\<close>

definition copied :: "json_mem \<Rightarrow> nat \<Rightarrow> json_mem \<Rightarrow> bool" where
  "copied st c st' \<longleftrightarrow>
     is_root (nodes st') c \<and> c \<notin> dom (nodes st) \<and> nodes st \<subseteq>\<^sub>m nodes st' \<and>
     dom (nodes st') \<subseteq> dom (nodes st) \<union> below (nodes st') c"

lemma map_leD: "h \<subseteq>\<^sub>m h' \<Longrightarrow> h x = Some n \<Longrightarrow> h' x = Some n"
  unfolding map_le_def by (metis domI)

lemma map_le_child: "h \<subseteq>\<^sub>m h' \<Longrightarrow> child h \<subseteq> child h'"
  by (auto simp: child_def dest: map_leD)

lemma map_le_below:
  assumes f: "forest h" and le: "h \<subseteq>\<^sub>m h'" and a: "x \<in> dom h" "x \<in> below h' a"
  shows "x \<in> below h a"
proof -
  have "(x, a) \<in> (child h')\<^sup>*" using a(2) by (simp add: below_def)
  then show ?thesis using a(1)
  proof (induction rule: converse_rtrancl_induct)
    case (step x y)
    obtain n where n: "h x = Some n" using step.prems by auto
    then have xy: "(x, y) \<in> child h" using step.hyps(1) map_leD [OF le n] by (auto simp: child_def)
    then have "y \<in> dom h" using forestD(4) [OF f xy] by auto
    then show ?case using step.IH below_child [OF xy] by blast
  qed simp
qed

lemma map_le_root: "h \<subseteq>\<^sub>m h' \<Longrightarrow> is_root h a \<Longrightarrow> is_root h' a"
  by (auto simp: is_root_def dest: map_leD)

lemma map_le_same_below:
  assumes "forest h" "h \<subseteq>\<^sub>m h'" "a \<in> dom h"
  shows "same_below h a h'"
  using below_dom [OF assms(1,3)] map_leD [OF assms(2)] by (fastforce simp: same_below_def)

lemma below_top:
  assumes f: "forest h" and x: "x \<in> below h a" "x \<in> dom h"
  shows "a \<in> dom h"
proof -
  have "(x, a) \<in> (child h)\<^sup>*" using x(1) by (simp add: below_def)
  then show ?thesis
  proof (cases rule: rtranclE)
    case (step y)
    then show ?thesis using forestD(4) [OF f step(2)] by auto
  qed (use x(2) in simp)
qed

lemma copied_apart:
  assumes "mem_ok st" "copied st c st'"
  shows "below (nodes st') c \<inter> dom (nodes st) = {}"
proof -
  have f: "forest (nodes st)" by (rule mem_okD [OF assms(1)])
  have "c \<in> dom (nodes st)" if "x \<in> below (nodes st') c" "x \<in> dom (nodes st)" for x
    using map_le_below [OF f _ that(2,1)] below_top [OF f _ that(2)] assms(2) by (simp add: copied_def)
  then show ?thesis using assms(2) by (auto simp: copied_def)
qed

lemma copied_free:
  assumes ok: "mem_ok st" "mem_ok st'" and c: "copied st c st'"
  shows "\<exists>st2. json_value_free (Some c) st' = Some st2 \<and> mem_ok st2 \<and> nodes st2 = nodes st"
proof -
  have "is_root (nodes st') c" using c by (simp add: copied_def)
  from json_value_free_root [OF ok(2) this] obtain st2 where
    2: "json_value_free (Some c) st' = Some st2" "mem_ok st2" "nodes st2 = without (nodes st') (below (nodes st') c)"
    by blast
  have "nodes st2 x = nodes st x" for x
  proof (cases "x \<in> dom (nodes st)")
    case True
    then have "x \<notin> below (nodes st') c" using copied_apart [OF ok(1) c] by blast
    then show ?thesis using True c 2(3) by (auto simp: copied_def map_le_def)
  next
    case False
    then have "nodes st2 x = None" using c 2(3) unfolding copied_def without_def by (cases "nodes st' x") auto
    then show ?thesis using False by (simp add: domIff)
  qed
  then show ?thesis using 2 by blast
qed

text \<open>The copy of one value, as the loop over the members needs it.\<close>

definition copies :: "grants \<Rightarrow> json_nodes \<Rightarrow> nat \<Rightarrow> json \<Rightarrow> bool" where
  "copies mem h v j \<longleftrightarrow>
     (\<forall>st. mem_ok st \<longrightarrow> h \<subseteq>\<^sub>m nodes st \<longrightarrow>
        (\<exists>copy st'. json_value_deep_copy_h mem (Some v) st = Some (copy, st') \<and> mem_ok st' \<and>
           (all_granted mem \<longrightarrow> copy \<noteq> None) \<and>
           (case copy of
              None \<Rightarrow> nodes st' = nodes st
            | Some c \<Rightarrow> copied st c st' \<and> denotes (nodes st') c j)))"

text \<open>The container at \<open>r\<close> has gained \<open>c\<close>.\<close>

lemma copied_gain:
  assumes ok: "mem_ok st" and r: "copied st0 r st" and c: "copied st c st1"
    and nodes': "nodes st2 = (nodes st1)(r \<mapsto> n\<lparr>node_content := x\<rparr>, c \<mapsto> m\<lparr>node_parent := Some r\<rparr>)"
    and n: "nodes st1 r = Some n" and m: "nodes st1 c = Some m" "node_parent m = None"
  shows "copied st0 r st2"
proof -
  have rc: "r \<noteq> c" using r c by (auto simp: copied_def is_root_def)
  have r1: "is_root (nodes st1) r" using r c map_le_root by (auto simp: copied_def)
  have ch: "child (nodes st2) = insert (c, r) (child (nodes st1))"
    using nodes' n m rc by (auto simp: child_iff split: if_splits)
  have sub: "below (nodes st1) y \<subseteq> below (nodes st2) y" for y
    by (rule child_mono_below) (auto simp: ch)
  have cr: "c \<in> below (nodes st2) r" using ch by (auto simp: below_def)
  have "x \<in> dom (nodes st0) \<union> below (nodes st2) r" if x: "x \<in> dom (nodes st2)" for x
  proof -
    have "x \<in> dom (nodes st1)" using x nodes' n m by (auto split: if_splits)
    then consider "x \<in> dom (nodes st0)" | "x \<in> below (nodes st) r" | "x \<in> below (nodes st1) c"
      using r c unfolding copied_def by blast
    then show ?thesis
    proof cases
      case 2
      then have "x \<in> below (nodes st1) r"
        using map_le_child child_mono_below c unfolding copied_def by blast
      then show ?thesis using sub by blast
    next
      case 3
      then show ?thesis using sub cr below_trans by blast
    qed simp
  qed
  moreover have "nodes st0 \<subseteq>\<^sub>m nodes st2"
  proof -
    have "nodes st0 \<subseteq>\<^sub>m nodes st1" using r c map_le_trans unfolding copied_def by blast
    moreover have "r \<notin> dom (nodes st0)" "c \<notin> dom (nodes st0)"
      using r c map_le_implies_dom_le unfolding copied_def by blast+
    ultimately show ?thesis using nodes' by (auto simp: map_le_def)
  qed
  moreover have "is_root (nodes st2) r" using nodes' n rc r1 by (auto simp: is_root_def)
  ultimately show ?thesis using r by (auto simp: copied_def)
qed

text \<open>
  The keys of a container's members, with \<open>None\<close> for an item of an array; a member with the key fits
  the container.
\<close>

fun keys_of :: "json_content \<Rightarrow> string option list" where
  "keys_of (CArray arr) = map (\<lambda>_. None) (array_items arr)"
| "keys_of (CObject obj) = map Some (names obj)"
| "keys_of _ = []"

fun fits :: "json_content \<Rightarrow> string option \<Rightarrow> bool" where
  "fits (CArray _) None = True"
| "fits (CObject _) (Some name) = is_cstring name"
| "fits _ _ = False"

definition gained :: "json_content \<Rightarrow> string option \<Rightarrow> nat \<Rightarrow> json_content \<Rightarrow> bool" where
  "gained x key c x' \<longleftrightarrow> links_of x' = links_of x @ [c] \<and> keys_of x' = keys_of x @ [key] \<and> fits x' = fits x"

lemma add_copy_ok:
  assumes ok: "mem_ok st" and r: "nodes st r = Some n" "fits (node_content n) key"
    and c: "nodes st c = Some m" "node_parent m = None" "r \<notin> below (nodes st) c"
  shows "\<exists>done st'. add_copy mem r key c st = Some (done, st') \<and> mem_ok st' \<and>
    (all_granted mem \<and> (key \<noteq> None \<longrightarrow> key \<notin> set (keys_of (node_content n))) \<longrightarrow> done) \<and>
    (if done then \<exists>x. gained (node_content n) key c x \<and>
        nodes st' = (nodes st)(r \<mapsto> n\<lparr>node_content := x\<rparr>, c \<mapsto> m\<lparr>node_parent := Some r\<rparr>)
     else nodes st' = nodes st)"
proof (cases key)
  case None
  then obtain arr where arr: "node_content n = CArray arr" using r(2) by (cases "node_content n") auto
  obtain fin st' where s: "json_array_add_h mem r c st = Some (fin, st')" "mem_ok st'" "all_granted mem \<longrightarrow> fin"
    "if fin then \<exists>arr'. array_items arr' = array_items arr @ [c] \<and> nodes st' = (nodes st)
         (r \<mapsto> n\<lparr>node_content := CArray arr'\<rparr>, c \<mapsto> m\<lparr>node_parent := Some r\<rparr>)
     else nodes st' = nodes st"
    using json_array_add_ok [OF ok r(1) arr c, of mem] by blast
  have "gained (node_content n) key c (CArray arr')" if "array_items arr' = array_items arr @ [c]" for arr'
  proof -
    have "fits (CArray arr') k = fits (CArray arr) k" for k by (cases k) auto
    then show ?thesis using that arr None by (auto simp: gained_def)
  qed
  then have "if fin then \<exists>x. gained (node_content n) key c x \<and>
        nodes st' = (nodes st)(r \<mapsto> n\<lparr>node_content := x\<rparr>, c \<mapsto> m\<lparr>node_parent := Some r\<rparr>)
     else nodes st' = nodes st"
    using s(4) by (cases fin) auto
  then show ?thesis using s None by (intro exI [of _ fin] exI [of _ st']) (simp add: add_copy_def)
next
  case (Some name)
  then obtain obj where obj: "node_content n = CObject obj" and name: "is_cstring name"
    using r(2) by (cases "node_content n") auto
  have t: "table_ok obj" using forestD(5) [OF mem_okD [OF ok] r(1)] obj by simp
  let ?st = "st\<lparr>requests := Suc (requests st)\<rparr>"
  show ?thesis
  proof (cases "mem (requests st) (length name + 1)")
    case False
    then show ?thesis using Some ok
      by (intro exI [of _ False] exI [of _ ?st]) (auto simp: add_copy_def parson_malloc_def all_granted_def)
  next
    case True
    obtain fin st' where s: "json_object_add_h mem r name c ?st = Some (fin, st')" "mem_ok st'"
      "all_granted mem \<and> name \<notin> set (names obj) \<longrightarrow> fin"
      "if fin then gains_member ?st r n obj name c m st' \<and> name \<notin> set (names obj) else nodes st' = nodes ?st"
      using json_object_add_ok [of ?st r n obj name c m mem] ok r(1) obj name c by auto
    have gain: "gained (node_content n) key c (CObject obj')"
      if "table_ok obj'" "obj_items obj' = obj_items obj @ [(name, c)]" for obj'
    proof -
      have "fits (CObject obj') k = fits (CObject obj) k" for k by (cases k) auto
      then show ?thesis using table_values [OF t that] obj Some by (auto simp: gained_def)
    qed
    have "if fin then \<exists>x. gained (node_content n) key c x \<and>
        nodes st' = (nodes st)(r \<mapsto> n\<lparr>node_content := x\<rparr>, c \<mapsto> m\<lparr>node_parent := Some r\<rparr>)
      else nodes st' = nodes st"
    proof (cases fin)
      case True
      then obtain obj' where "nodes st' = (nodes st)(r \<mapsto> n\<lparr>node_content := CObject obj'\<rparr>, c \<mapsto> m\<lparr>node_parent := Some r\<rparr>)"
        "table_ok obj'" "obj_items obj' = obj_items obj @ [(name, c)]"
        using s(4) by (auto simp: gains_member_def)
      then show ?thesis using True gain by auto
    qed (use s(4) in simp)
    then show ?thesis using s Some True obj
      by (intro exI [of _ fin] exI [of _ st']) (auto simp: add_copy_def parson_malloc_def)
  qed
qed

lemma below_not_member:
  assumes "forest h" "h r = Some n" "v \<in> set (links n)"
  shows "r \<notin> below h v"
  using no_loop [OF assms(1) forestD(3) [OF assms]] .

text \<open>The loop over the members, when each of the values it copies can be copied.\<close>

lemma copy_members_ok:
  assumes "list_all2 (\<lambda>(key, w) j. \<exists>v. w = Some v \<and> copies mem h v j) items js"
    and "mem_ok st" "mem_ok st0" "copied st0 r st" "h \<subseteq>\<^sub>m nodes st0"
    and "nodes st r = Some n" "list_all2 (denotes (nodes st)) (links n) ds"
    and "\<forall>(key, w) \<in> set items. fits (node_content n) key"
    and "distinct (filter (\<lambda>k. k \<noteq> None) (keys_of (node_content n) @ map fst items))"
  shows "\<exists>done st'. copy_members mem r items st = Some (done, st') \<and> mem_ok st' \<and> copied st0 r st' \<and>
    (all_granted mem \<longrightarrow> done) \<and>
    (done \<longrightarrow> (\<exists>n'. nodes st' r = Some n' \<and> list_all2 (denotes (nodes st')) (links n') (ds @ js) \<and>
       keys_of (node_content n') = keys_of (node_content n) @ map fst items \<and>
       fits (node_content n') = fits (node_content n)))"
  using assms
proof (induction items js arbitrary: st n ds rule: list_all2_induct)
  case Nil
  then show ?case by (intro exI [of _ True] exI [of _ st]) (simp add: copy_members_simps)
next
  case (Cons item items j js)
  obtain key v where item: "item = (key, Some v)" and cp: "copies mem h v j"
    using Cons.hyps(1) by (cases item) auto
  note ok = Cons.prems(1) and r = Cons.prems(3) and n = Cons.prems(5)
  have f: "forest (nodes st)" by (rule mem_okD [OF ok])
  have "h \<subseteq>\<^sub>m nodes st" using Cons.prems(4) r map_le_trans unfolding copied_def by blast
  then obtain copy st1 where 1: "json_value_deep_copy_h mem (Some v) st = Some (copy, st1)" "mem_ok st1"
      "all_granted mem \<longrightarrow> copy \<noteq> None"
      "case copy of None \<Rightarrow> nodes st1 = nodes st | Some c \<Rightarrow> copied st c st1 \<and> denotes (nodes st1) c j"
    using cp ok unfolding copies_def by blast
  show ?case
  proof (cases copy)
    case None
    then have "copied st0 r st1" using 1(4) r by (simp add: copied_def)
    then show ?thesis using 1 None by (intro exI [of _ False] exI [of _ st1]) (simp add: item copy_members_simps)
  next
    case (Some c)
    then have c: "copied st c st1" "denotes (nodes st1) c j" using 1(4) by simp_all
    have f1: "forest (nodes st1)" by (rule mem_okD [OF 1(2)])
    have le: "nodes st \<subseteq>\<^sub>m nodes st1" and cn: "c \<notin> dom (nodes st)" using c(1) by (auto simp: copied_def)
    have n1: "nodes st1 r = Some n" by (rule map_leD [OF le n])
    obtain m where m: "nodes st1 c = Some m" "node_parent m = None" using c(1) by (auto simp: copied_def is_root_def)
    have rc: "r \<noteq> c" using n cn by auto
    have r1: "r \<notin> below (nodes st1) c" using copied_apart [OF ok c(1)] n by auto
    have fit: "fits (node_content n) key" using Cons.prems(7) item by auto
    obtain fin st2 where 2: "add_copy mem r key c st1 = Some (fin, st2)" "mem_ok st2"
        "all_granted mem \<and> (key \<noteq> None \<longrightarrow> key \<notin> set (keys_of (node_content n))) \<longrightarrow> fin"
        "if fin then \<exists>x. gained (node_content n) key c x \<and>
            nodes st2 = (nodes st1)(r \<mapsto> n\<lparr>node_content := x\<rparr>, c \<mapsto> m\<lparr>node_parent := Some r\<rparr>)
         else nodes st2 = nodes st1"
      using add_copy_ok [OF 1(2) n1 fit m r1, of mem] by blast
    show ?thesis
    proof (cases fin)
      case False
      then have "copied st c st2" using c(1) 2(4) by (simp add: copied_def)
      from copied_free [OF ok 2(2) this] obtain st3 where
        3: "json_value_free (Some c) st2 = Some st3" "mem_ok st3" "nodes st3 = nodes st" by blast
      have "copied st0 r st3" using 3(3) r by (simp add: copied_def)
      moreover have "\<not> all_granted mem"
        using 2(3) False Cons.prems(8) item by auto
      ultimately show ?thesis using 1(1) 2(1) 3 False Some
        by (intro exI [of _ False] exI [of _ st3]) (simp add: item copy_members_simps)
    next
      case True
      then obtain x where x: "gained (node_content n) key c x"
        "nodes st2 = (nodes st1)(r \<mapsto> n\<lparr>node_content := x\<rparr>, c \<mapsto> m\<lparr>node_parent := Some r\<rparr>)"
        using 2(4) by auto
      let ?n = "n\<lparr>node_content := x\<rparr>"
      have n2: "nodes st2 r = Some ?n" using x(2) rc by simp
      have same: "same_below (nodes st1) w (nodes st2)" if "r \<notin> below (nodes st1) w" for w
        using that x(2) m(1) by (auto simp: same_below_def)
      have "same_below (nodes st) w (nodes st2)" if "w \<in> set (links n)" for w
      proof -
        have w: "w \<in> dom (nodes st)" using forestD(3) [OF f n that] child_dom by blast
        have "same_below (nodes st) w (nodes st1)" by (rule map_le_same_below [OF f le w])
        moreover have "below (nodes st) w \<subseteq> below (nodes st1) w"
          by (rule child_mono_below [OF map_le_child [OF le]])
        ultimately show ?thesis
          using same [OF below_not_member [OF f1 n1 that]] by (auto simp: same_below_def)
      qed
      then have "list_all2 (denotes (nodes st2)) (links n) ds" using denotes_frame_list [OF f Cons.prems(6)] by blast
      moreover have "denotes (nodes st2) c j" by (rule denotes_frame [OF f1 c(2) same [OF r1]])
      ultimately have ds: "list_all2 (denotes (nodes st2)) (links ?n) (ds @ [j])"
        using x(1) by (simp add: gained_def list_all2_appendI)
      have cop: "copied st0 r st2" by (rule copied_gain [OF ok r c(1) x(2) n1 m])
      have "\<forall>(key, w) \<in> set items. fits (node_content ?n) key"
        using Cons.prems(7) x(1) by (auto simp: gained_def)
      moreover have "distinct (filter (\<lambda>k. k \<noteq> None) (keys_of (node_content ?n) @ map fst items))"
        using Cons.prems(8) x(1) by (simp add: gained_def item)
      ultimately obtain fin' st' where "copy_members mem r items st2 = Some (fin', st')" "mem_ok st'" "copied st0 r st'"
        "all_granted mem \<longrightarrow> fin'"
        "fin' \<longrightarrow> (\<exists>n'. nodes st' r = Some n' \<and> list_all2 (denotes (nodes st')) (links n') ((ds @ [j]) @ js) \<and>
          keys_of (node_content n') = keys_of (node_content ?n) @ map fst items \<and>
          fits (node_content n') = fits (node_content ?n))"
        using Cons.IH [OF 2(2) Cons.prems(2) cop Cons.prems(4) n2 ds] by blast
      then show ?thesis using 1(1) 2(1) True Some x(1)
        by (intro exI [of _ fin'] exI [of _ st']) (simp add: item copy_members_simps gained_def)
    qed
  qed
qed


text \<open>The block a copy starts from.\<close>

fun shell :: "json_content \<Rightarrow> json_content" where
  "shell (CArray _) = CArray (JSON_Array [] 0)"
| "shell (CObject _) = CObject (JSON_Object [] [] [] [] [] 0 0)"
| "shell x = x"

lemma init_granted:
  "all_granted mem \<Longrightarrow> fst (init_value mem c st) \<noteq> None"
  "all_granted mem \<Longrightarrow> fst (init_container mem k c st) \<noteq> None"
  "all_granted mem \<Longrightarrow> fst (init_string_copy mem s st) \<noteq> None"
  by (simp_all add: init_value_def init_container_def init_string_copy_def parson_malloc_def new_node_def all_granted_def)

lemma new_copy_made:
  assumes "content_ok x"
  shows "made (shell x) st (new_copy mem x st) \<and> (all_granted mem \<longrightarrow> fst (new_copy mem x st) \<noteq> None)"
  using assms
  by (cases x) (simp_all add: json_value_init_array_h_def json_value_init_object_h_def json_value_init_boolean_h_def
      json_value_init_number_h_def json_value_init_null_h_def init_value_made init_container_made
      init_string_copy_made init_granted)

lemma shell_ok: "content_ok x \<Longrightarrow> links_of (shell x) = [] \<and> content_ok (shell x) \<and> keys_of (shell x) = []"
  by (cases x) (auto simp: empty_table_ok)

lemma copied_made:
  assumes ok: "mem_ok st" and m: "made x st (Some c, st')" and x: "links_of x = []" "content_ok x"
  shows "copied st c st'" "nodes st' c = Some \<lparr>node_parent = None, node_content = x\<rparr>"
proof -
  have n: "nodes st' = (nodes st)(c \<mapsto> \<lparr>node_parent = None, node_content = x\<rparr>)" using m by (auto simp: made_def)
  then show "nodes st' c = Some \<lparr>node_parent = None, node_content = x\<rparr>" by simp
  have "is_root (nodes st') c" "c \<notin> dom (nodes st)" using made_ok(2) [OF ok m x, of c] by blast+
  then show "copied st c st'" using n by (auto simp: copied_def map_le_def)
qed

lemma deep_copy_step:
  assumes ok: "mem_ok st" and le: "h \<subseteq>\<^sub>m nodes st" and n: "h v = Some n" "content_ok (node_content n)"
    and items: "list_all2 (\<lambda>(key, w) j. \<exists>v. w = Some v \<and> copies mem h v j) (members_of (node_content n)) js"
    and keys: "\<forall>(key, w) \<in> set (members_of (node_content n)). fits (node_content n) key"
      "distinct (filter (\<lambda>k. k \<noteq> None) (map fst (members_of (node_content n))))"
  shows "\<exists>copy st'. json_value_deep_copy_h mem (Some v) st = Some (copy, st') \<and> mem_ok st' \<and>
    (all_granted mem \<longrightarrow> copy \<noteq> None) \<and>
    (case copy of
       None \<Rightarrow> nodes st' = nodes st
     | Some c \<Rightarrow> copied st c st' \<and>
         (\<exists>n'. nodes st' c = Some n' \<and> list_all2 (denotes (nodes st')) (links n') js \<and>
            keys_of (node_content n') = map fst (members_of (node_content n)) \<and>
            fits (node_content n') = fits (shell (node_content n)) \<and>
            (members_of (node_content n) = [] \<longrightarrow> node_content n' = shell (node_content n))))"
proof -
  let ?x = "node_content n"
  have v: "nodes st v = Some n" by (rule map_leD [OF le n(1)])
  obtain copy st1 where c: "new_copy mem ?x st = (copy, st1)" by fastforce
  then have m: "made (shell ?x) st (copy, st1)" "all_granted mem \<longrightarrow> copy \<noteq> None"
    using new_copy_made [OF n(2), of st mem] by auto
  have s: "links_of (shell ?x) = []" "content_ok (shell ?x)" "keys_of (shell ?x) = []" using shell_ok [OF n(2)] by auto
  have fits_shell: "fits (shell ?x) = fits ?x"
  proof
    fix k show "fits (shell ?x) k = fits ?x k" by (cases ?x; cases k) auto
  qed
  have ok1: "mem_ok st1" using made_ok(1) [OF ok m(1) s(1,2)] .
  show ?thesis
  proof (cases copy)
    case None
    then show ?thesis using v c m ok1
      by (intro exI [of _ None] exI [of _ st1]) (simp add: json_value_deep_copy_h_def made_def)
  next
    case (Some r)
    let ?r = "\<lparr>node_parent = None, node_content = shell ?x\<rparr>"
    have cop: "copied st r st1" "nodes st1 r = Some ?r" using copied_made [OF ok _ s(1,2)] m(1) Some by auto
    have "\<exists>fin st'. copy_members mem r (members_of ?x) st1 = Some (fin, st') \<and> mem_ok st' \<and> copied st r st' \<and>
        (all_granted mem \<longrightarrow> fin) \<and>
        (fin \<longrightarrow> (\<exists>n'. nodes st' r = Some n' \<and> list_all2 (denotes (nodes st')) (links n') ([] @ js) \<and>
           keys_of (node_content n') = keys_of (node_content ?r) @ map fst (members_of ?x) \<and>
           fits (node_content n') = fits (node_content ?r)))"
      using s keys fits_shell by (intro copy_members_ok [OF items ok1 ok cop(1) le cop(2)]) simp_all
    then obtain fin st2 where 2: "copy_members mem r (members_of ?x) st1 = Some (fin, st2)" "mem_ok st2" "copied st r st2"
        "all_granted mem \<longrightarrow> fin"
        "fin \<longrightarrow> (\<exists>n'. nodes st2 r = Some n' \<and> list_all2 (denotes (nodes st2)) (links n') js \<and>
           keys_of (node_content n') = map fst (members_of ?x) \<and> fits (node_content n') = fits (shell ?x))"
      using s(3) by auto
    show ?thesis
    proof (cases fin)
      case False
      from copied_free [OF ok 2(2,3)] obtain st3 where
        "json_value_free (Some r) st2 = Some st3" "mem_ok st3" "nodes st3 = nodes st" by blast
      then show ?thesis using v c Some 2 False
        by (intro exI [of _ None] exI [of _ st3]) (simp add: json_value_deep_copy_h_def)
    next
      case True
      then obtain n' where n': "nodes st2 r = Some n'" "list_all2 (denotes (nodes st2)) (links n') js"
          "keys_of (node_content n') = map fst (members_of ?x)" "fits (node_content n') = fits (shell ?x)"
        using 2(5) by auto
      moreover have "node_content n' = shell ?x" if "members_of ?x = []"
        using 2(1) that cop(2) n'(1) by (auto simp: copy_members_simps)
      ultimately have "\<exists>n'. nodes st2 r = Some n' \<and> list_all2 (denotes (nodes st2)) (links n') js \<and>
          keys_of (node_content n') = map fst (members_of ?x) \<and> fits (node_content n') = fits (shell ?x) \<and>
          (members_of ?x = [] \<longrightarrow> node_content n' = shell ?x)"
        by blast
      then show ?thesis using v c Some 2(1-3) True
        by (intro exI [of _ "Some r"] exI [of _ st2]) (simp add: json_value_deep_copy_h_def)
    qed
  qed
qed


lemma copies_step:
  assumes f: "forest h" and n: "h v = Some n"
    and items: "list_all2 (\<lambda>(key, w) j. \<exists>v. w = Some v \<and> copies mem h v j) (members_of (node_content n)) js"
    and keys: "\<forall>(key, w) \<in> set (members_of (node_content n)). fits (node_content n) key"
      "distinct (filter (\<lambda>k. k \<noteq> None) (map fst (members_of (node_content n))))"
    and j: "\<And>h' c n'. h' c = Some n' \<Longrightarrow> list_all2 (denotes h') (links n') js \<Longrightarrow>
      keys_of (node_content n') = map fst (members_of (node_content n)) \<Longrightarrow>
      fits (node_content n') = fits (shell (node_content n)) \<Longrightarrow>
      (members_of (node_content n) = [] \<Longrightarrow> node_content n' = shell (node_content n)) \<Longrightarrow> denotes h' c j"
  shows "copies mem h v j"
  unfolding copies_def
proof (intro allI impI)
  fix st
  assume ok: "mem_ok st" and le: "h \<subseteq>\<^sub>m nodes st"
  have "content_ok (node_content n)" using forestD(5) [OF f n] by simp
  from deep_copy_step [OF ok le n this items keys] obtain copy st' where
    c: "json_value_deep_copy_h mem (Some v) st = Some (copy, st')" "mem_ok st'" "all_granted mem \<longrightarrow> copy \<noteq> None"
    "case copy of
       None \<Rightarrow> nodes st' = nodes st
     | Some c \<Rightarrow> copied st c st' \<and>
         (\<exists>n'. nodes st' c = Some n' \<and> list_all2 (denotes (nodes st')) (links n') js \<and>
            keys_of (node_content n') = map fst (members_of (node_content n)) \<and>
            fits (node_content n') = fits (shell (node_content n)) \<and>
            (members_of (node_content n) = [] \<longrightarrow> node_content n' = shell (node_content n)))"
    by blast
  then have "case copy of None \<Rightarrow> nodes st' = nodes st | Some c \<Rightarrow> copied st c st' \<and> denotes (nodes st') c j"
    using j by (cases copy) auto
  then show "\<exists>copy st'. json_value_deep_copy_h mem (Some v) st = Some (copy, st') \<and> mem_ok st' \<and>
      (all_granted mem \<longrightarrow> copy \<noteq> None) \<and>
      (case copy of None \<Rightarrow> nodes st' = nodes st | Some c \<Rightarrow> copied st c st' \<and> denotes (nodes st') c j)"
    using c(1-3) by blast
qed

lemma fits_array: "fits x None \<Longrightarrow> \<exists>arr. x = CArray arr"
  by (cases x) auto

lemma fits_object: "fits x (Some name) \<Longrightarrow> \<exists>obj. x = CObject obj"
  by (cases x) auto

lemma deep_copy_copies:
  assumes f: "forest h"
  shows "denotes h v j \<Longrightarrow> copies mem h v j"
proof (induction rule: denotes.induct)
  case (denotes_arr a n arr js)
  show ?case
  proof (rule copies_step [OF f denotes_arr(1)])
    show "list_all2 (\<lambda>(key, w) j. \<exists>v. w = Some v \<and> copies mem h v j) (members_of (node_content n)) js"
      using denotes_arr by (auto simp: list_all2_conv_all_nth)
    show "denotes h' c (Arr js)" if "h' c = Some n'" "list_all2 (denotes h') (links n') js"
      "fits (node_content n') = fits (shell (node_content n))" for h' c n'
    proof -
      have "fits (node_content n') None" using that(3) denotes_arr(2) by simp
      then obtain arr' where "node_content n' = CArray arr'" using fits_array by blast
      then show ?thesis using that(1,2) by (simp add: denotes_node)
    qed
  qed (use denotes_arr(2) in \<open>auto simp: filter_map o_def\<close>)
next
  case (denotes_obj a n obj js)
  have t: "table_ok obj" using forestD(5) [OF f denotes_obj(1)] denotes_obj(2) by simp
  have lookup: "json_object_getn_value obj (names obj ! i) (length (names obj ! i)) = Some (obj_values obj ! i)"
    if "i < length (names obj)" for i
    using json_object_getn_value_eq [OF t, of "length (names obj ! i)"] obj_items_lookup [OF t that] by simp
  show ?case
  proof (rule copies_step [OF f denotes_obj(1)])
    show "list_all2 (\<lambda>(key, w) j. \<exists>v. w = Some v \<and> copies mem h v j) (members_of (node_content n)) js"
      using denotes_obj table_okD(6) [OF t] lookup by (auto simp: list_all2_conv_all_nth)
    show "denotes h' c (Obj (zip (names obj) js))" if "h' c = Some n'" "list_all2 (denotes h') (links n') js"
      "keys_of (node_content n') = map fst (members_of (node_content n))"
      "fits (node_content n') = fits (shell (node_content n))" for h' c n'
    proof -
      have "fits (node_content n') (Some [])" using that(4) denotes_obj(2) by (simp add: is_cstring_def)
      then obtain obj' where o: "node_content n' = CObject obj'" using fits_object by blast
      then have "map Some (names obj') = map Some (names obj)" using that(3) denotes_obj(2) by (simp add: o_def)
      then have "names obj' = names obj" by (simp add: inj_map_eq_map)
      then show ?thesis using that(1,2) o by (auto simp: denotes_node)
    qed
  qed (use denotes_obj(2) table_keys [OF t] in \<open>auto simp: filter_map o_def distinct_map\<close>)
qed ((rule copies_step [OF f, where js = "[]"], assumption, (simp_all add: denotes_node)[4])+)

end
