(* ===== verification/Parson_Dotset.thy ===== *)
theory Parson_Dotset
  imports Parson_Copy
begin

text \<open>
  \<open>json_object_dotset_value\<close> on parson's memory: it links the value at the end of the dotted path,
  making the objects that are missing, or fails and takes back what it made.  After some failures the value
  still points to its freed container; \<open>reset v st\<close> is the memory with that pointer cleared.
\<close>

section \<open>A value with a stale parent\<close>

abbreviation reset :: "nat \<Rightarrow> json_mem \<Rightarrow> json_mem" where
  "reset v st \<equiv> set_parent None v st"

definition reparent :: "nat \<Rightarrow> nat option \<Rightarrow> json_nodes \<Rightarrow> json_nodes" where
  "reparent v p h = h(v := map_option (\<lambda>n. n\<lparr>node_parent := p\<rparr>) (h v))"

lemma nodes_reset: "nodes (set_parent p v st) = reparent v p (nodes st)"
  by (simp add: set_parent_def reparent_def)

lemma reparent_reparent [simp]: "reparent v p (reparent v q h) = reparent v p h"
  by (cases "h v") (simp_all add: reparent_def)

lemma reparent_same: "h v = None \<or> (\<exists>n. h v = Some n \<and> node_parent n = p) \<Longrightarrow> reparent v p h = h"
  by (auto simp: reparent_def fun_upd_idem)

lemma reparent_links: "map_option links (reparent v p h x) = map_option links (h x)"
  by (cases "h v") (simp_all add: reparent_def)

lemma reparent_None: "reparent v p (h(x := None)) = (reparent v p h)(x := None)"
  by (auto simp: reparent_def fun_upd_twist)

text \<open>Freeing does not look at parent pointers.\<close>

lemma free_values_reparent:
  "free_values h vs = Some h' \<Longrightarrow> free_values (reparent v p h) vs = Some (reparent v p h')"
proof (induction h vs h' rule: free_values.raw_induct [rotated, consumes 1, case_names step])
  case (step free h vs h')
  show ?case
  proof (cases vs)
    case Nil
    then show ?thesis using step(2) by simp
  next
    case (Cons w rest)
    from step(2) Cons obtain n h1 n1 where
      s: "h w = Some n" "free h (links n) = Some h1" "h1 w = Some n1" "free (h1(w := None)) rest = Some h'"
      by (auto simp: bind_eq_Some_conv)
    have w: "\<exists>k. reparent v p h w = Some k \<and> links k = links n" "\<exists>k. reparent v p h1 w = Some k"
      using reparent_links [of v p h w] s(1) reparent_links [of v p h1 w] s(3) by auto
    show ?thesis
      using w step(1) [OF s(2)] step(1) [OF s(4)] Cons by (auto simp: reparent_None simp del: fun_upd_apply)
  qed
qed

lemma free_reset:
  assumes ok: "mem_ok st" "mem_ok (reset v st2)" and c: "copied st r (reset v st2)"
    and v: "nodes st v = Some m" "node_parent m = None"
  shows "\<exists>st3. json_value_free (Some r) st2 = Some st3 \<and> mem_ok (reset v st3) \<and> nodes (reset v st3) = nodes st \<and>
    (\<forall>k. nodes st2 v = Some k \<longrightarrow> nodes st3 = reparent v (node_parent k) (nodes st))"
proof -
  from copied_free [OF ok c] obtain s where
    s: "json_value_free (Some r) (reset v st2) = Some s" "mem_ok s" "nodes s = nodes st" by blast
  then have f: "free_values (reparent v None (nodes st2)) [r] = Some (nodes st)"
    by (auto simp: json_value_free_def free_all_def bind_eq_Some_conv nodes_reset simp del: free_values_simps)
  have brks: "brk s = brk st2"
    using s(1) by (auto simp: json_value_free_def free_all_def bind_eq_Some_conv simp del: free_values_simps)
  define q where "q = (case nodes st2 v of None \<Rightarrow> None | Some k \<Rightarrow> node_parent k)"
  have q: "reparent v q (reparent v None (nodes st2)) = nodes st2" "\<forall>k. nodes st2 v = Some k \<longrightarrow> q = node_parent k"
    by (cases "nodes st2 v"; simp add: q_def reparent_same)+
  let ?st3 = "st2\<lparr>nodes := reparent v q (nodes st)\<rparr>"
  have "free_values (nodes st2) [r] = Some (reparent v q (nodes st))"
    using free_values_reparent [OF f, of v q] q(1) by simp
  then have "json_value_free (Some r) st2 = Some ?st3"
    by (simp add: json_value_free_def free_all_def del: free_values_simps)
  moreover have n: "nodes (reset v ?st3) = nodes st" using v by (simp add: nodes_reset reparent_same)
  moreover have "mem_ok (reset v ?st3)" using s(2,3) n brks by (simp add: mem_ok_def)
  ultimately show ?thesis using q(2) by (intro exI [of _ ?st3]) auto
qed

section \<open>Paths\<close>

text \<open>The dotted name leads from the object at \<open>a\<close> to the value \<open>v\<close>.\<close>

function at_path :: "json_nodes \<Rightarrow> nat \<Rightarrow> string \<Rightarrow> nat \<Rightarrow> bool" where
  "at_path h a name v \<longleftrightarrow>
     (case map_option node_content (h a) of
        Some (CObject obj) \<Rightarrow>
          (case dot_position name of
             None \<Rightarrow> obj_map obj name = Some v
           | Some dot \<Rightarrow>
               (case obj_map obj (take dot name) of
                  None \<Rightarrow> False
                | Some t \<Rightarrow> at_path h t (drop (dot + 1) name) v))
      | _ \<Rightarrow> False)"
  by pat_completeness auto
termination
  by (relation "measure (\<lambda>(_, _, name, _). length name)") (auto dest: dot_position_less)

declare at_path.simps [simp del]

lemma at_path_object:
  "h a = Some n \<Longrightarrow> node_content n = CObject obj \<Longrightarrow>
   at_path h a name v \<longleftrightarrow>
     (case dot_position name of
        None \<Rightarrow> obj_map obj name = Some v
      | Some dot \<Rightarrow> (\<exists>t. obj_map obj (take dot name) = Some t \<and> at_path h t (drop (dot + 1) name) v))"
  by (subst at_path.simps) (auto split: option.split)

lemma at_pathE:
  assumes "at_path h a name v"
  obtains n obj where "h a = Some n" "node_content n = CObject obj"
  using assms by (subst (asm) at_path.simps) (auto split: option.splits json_content.splits)

lemma at_path_frame:
  assumes f: "forest h"
  shows "at_path h a name v \<Longrightarrow> same_below h a h' \<Longrightarrow> at_path h' a name v"
proof (induction "length name" arbitrary: a name rule: less_induct)
  case less
  obtain n obj where a: "h a = Some n" "node_content n = CObject obj" using less.prems(1) by (rule at_pathE)
  obtain n' where a': "h' a = Some n'" "node_content n' = CObject obj" using same_belowD [OF less.prems(2) a(1)] a(2) by auto
  show ?case
  proof (cases "dot_position name")
    case None
    then show ?thesis using less.prems(1) at_path_object [of h a n obj, OF a] at_path_object [of h' a n' obj, OF a'] by simp
  next
    case (Some dot)
    then obtain t where t: "obj_map obj (take dot name) = Some t" "at_path h t (drop (dot + 1) name) v"
      using less.prems(1) at_path_object [of h a n obj, OF a] by auto
    then have "t \<in> set (links n)" using obj_map_value a(2) by fastforce
    then have "same_below h t h'" using same_below_links [OF f less.prems(2) a(1)] by blast
    then have "at_path h' t (drop (dot + 1) name) v"
      using less.hyps [of "drop (dot + 1) name" t] t(2) dot_position_less [OF Some] by simp
    then show ?thesis using at_path_object [of h' a n' obj, OF a'] Some t(1) by auto
  qed
qed


section \<open>Taking a value out again\<close>

text \<open>The value \<open>v\<close> is taken out of the container at \<open>p\<close>, which keeps its other values.\<close>

definition unlinks :: "json_nodes \<Rightarrow> nat \<Rightarrow> nat \<Rightarrow> json_node \<Rightarrow> bool" where
  "unlinks h v p n' \<longleftrightarrow>
     (\<exists>n. h p = Some n \<and> v \<in> set (links n) \<and> node_parent n' = node_parent n \<and>
        set (links n') = set (links n) - {v} \<and> node_ok n')"

lemma unlinks_child:
  assumes f: "forest h" and u: "unlinks h v p n'"
  shows "child (reparent v None (h(p \<mapsto> n'))) = child h - {(v, p)}"
proof -
  obtain n where n: "h p = Some n" "v \<in> set (links n)" "node_parent n' = node_parent n"
    using u by (auto simp: unlinks_def)
  have vp: "(v, p) \<in> child h" by (rule forestD(3) [OF f n(1,2)])
  then have "v \<noteq> p" using no_loop [OF f vp] by auto
  moreover obtain m where "h v = Some m" "node_parent m = Some p" using vp by (auto simp: child_def)
  ultimately show ?thesis using n by (auto simp: child_iff reparent_def split: if_splits)
qed

lemma forest_unlink:
  assumes f: "forest h" and u: "unlinks h v p n'"
  shows "forest (reparent v None (h(p \<mapsto> n')))"
proof (rule forestI)
  let ?h = "reparent v None (h(p \<mapsto> n'))"
  obtain n where n: "h p = Some n" "v \<in> set (links n)" "node_parent n' = node_parent n"
      "set (links n') = set (links n) - {v}" "node_ok n'"
    using u by (auto simp: unlinks_def)
  have vp: "(v, p) \<in> child h" by (rule forestD(3) [OF f n(1,2)])
  note ch = unlinks_child [OF f u]
  have dom_eq: "dom ?h = dom h" using n(1) by (auto simp: reparent_def)
  have cont: "\<exists>k0. (h(p \<mapsto> n')) q = Some k0 \<and> node_content k = node_content k0" if "?h q = Some k" for q k
    using that by (auto simp: reparent_def split: if_splits)
  show "finite (dom ?h)" using forestD(1) [OF f] dom_eq by simp
  show "acyclic (child ?h)" using forestD(2) [OF f] by (rule acyclic_subset) (auto simp: ch)
  show "(c, q) \<in> child ?h" if "?h q = Some k" "c \<in> set (links k)" for q k c
  proof -
    note q = that
    obtain k0 where k0: "(h(p \<mapsto> n')) q = Some k0" "node_content k = node_content k0" using cont [OF q(1)] by blast
    show ?thesis
    proof (cases "q = p")
      case True
      then have "c \<in> set (links n')" using k0 q(2) by simp
      then have "c \<in> set (links n)" "c \<noteq> v" using n(4) by auto
      then show ?thesis using True forestD(3) [OF f n(1)] by (simp add: ch)
    next
      case False
      then have "(c, q) \<in> child h" using forestD(3) [OF f, of q k0 c] k0 q(2) by simp
      then show ?thesis using False by (auto simp: ch)
    qed
  qed
  show "\<exists>k. ?h q = Some k \<and> c \<in> set (links k)" if c: "(c, q) \<in> child ?h" for c q
  proof -
    have c: "(c, q) \<in> child h" "(c, q) \<noteq> (v, p)" using that by (auto simp: ch)
    then obtain k where k: "h q = Some k" "c \<in> set (links k)" using forestD(4) [OF f] by blast
    have "q = p \<Longrightarrow> c \<noteq> v" using c(2) by auto
    then have "\<exists>k. (h(p \<mapsto> n')) q = Some k \<and> c \<in> set (links k)" using k n(1,4) by (cases "q = p") auto
    then show ?thesis using reparent_links [of v None "h(p \<mapsto> n')" q] by fastforce
  qed
  show "node_ok k" if "?h q = Some k" for q k
  proof -
    note q = that
    obtain k0 where "(h(p \<mapsto> n')) q = Some k0" "node_content k = node_content k0" using cont [OF q] by blast
    then show ?thesis using forestD(5) [OF f, of q] n(5) by (cases "q = p") auto
  qed
qed

lemma dotremove_at_path:
  assumes ok: "mem_ok st"
  shows "at_path (nodes st) a name v \<Longrightarrow>
    \<exists>p n' st'. json_object_dotremove_internal_h a name False st = Some (True, st') \<and>
      unlinks (nodes st) v p n' \<and> nodes st' = (nodes st)(p \<mapsto> n') \<and> brk st' = brk st"
proof (induction "length name" arbitrary: a name rule: less_induct)
  case less
  obtain n obj where a: "nodes st a = Some n" "node_content n = CObject obj" using less.prems(1) by (rule at_pathE)
  have t: "table_ok obj" "distinct (obj_values obj)" using forestD(5) [OF mem_okD [OF ok] a(1)] a(2) by simp_all
  have at: "object_at st a = Some obj" using a by (simp add: object_at_iff)
  show ?case
  proof (cases "dot_position name")
    case None
    then have m: "obj_map obj name = Some v" using less.prems at_path_object [of "nodes st" a n obj, OF a] by simp
    obtain obj' where o: "json_object_remove_internal obj name = Inr obj'" "table_ok obj'"
      "distinct (obj_values obj')" "set (obj_values obj') = set (obj_values obj) - {v}"
      using remove_table [OF t m] .
    let ?n = "n\<lparr>node_content := CObject obj'\<rparr>"
    have "json_object_dotremove_internal_h a name False st = Some (True, set_content a (CObject obj') st)"
      using None at m o(1) by (subst json_object_dotremove_internal_h.simps)
        (simp add: json_object_remove_internal_h_def getn_whole [OF t(1)])
    moreover have "unlinks (nodes st) v a ?n"
      using a o obj_map_value [OF m] unfolding unlinks_def by auto
    ultimately show ?thesis using nodes_set_content [OF a(1), of "CObject obj'"] by auto
  next
    case (Some dot)
    then obtain u where u: "obj_map obj (take dot name) = Some u" "at_path (nodes st) u (drop (dot + 1) name) v"
      using less.prems at_path_object [of "nodes st" a n obj, OF a] by auto
    obtain k obj2 where k: "nodes st u = Some k" "node_content k = CObject obj2" using u(2) by (rule at_pathE)
    have "json_object_getn_value obj name dot = Some u"
      using json_object_getn_value_eq [OF t(1), of dot name] dot_position_less [OF Some] u(1) by simp
    then have "json_object_dotremove_internal_h a name False st
        = json_object_dotremove_internal_h u (drop (dot + 1) name) False st"
      using Some at k by (subst json_object_dotremove_internal_h.simps) simp
    then show ?thesis using less.hyps [of "drop (dot + 1) name" u] u(2) dot_position_less [OF Some] by simp
  qed
qed


section \<open>Making the missing objects\<close>

text \<open>
  From \<open>st0\<close>, where \<open>v\<close> is the root \<open>m\<close>, new objects have been made below a new root \<open>r\<close> that hold
  \<open>v\<close> under the name \<open>rest\<close>.
\<close>

definition built :: "json_mem \<Rightarrow> nat \<Rightarrow> json_node \<Rightarrow> nat \<Rightarrow> string \<Rightarrow> json_mem \<Rightarrow> bool" where
  "built st0 v m r rest st' \<longleftrightarrow>
     mem_ok st' \<and> is_root (nodes st') r \<and> r \<notin> dom (nodes st0) \<and>
     (\<forall>x \<in> dom (nodes st0) - {v}. nodes st' x = nodes st0 x) \<and>
     (\<exists>p. nodes st' v = Some (m\<lparr>node_parent := p\<rparr>)) \<and>
     dom (nodes st') \<subseteq> dom (nodes st0) \<union> below (nodes st') r \<and> at_path (nodes st') r rest v"

lemma builtD:
  assumes "built st0 v m r rest st'"
  shows "mem_ok st'" "is_root (nodes st') r" "r \<notin> dom (nodes st0)"
    "x \<in> dom (nodes st0) \<Longrightarrow> x \<noteq> v \<Longrightarrow> nodes st' x = nodes st0 x"
    "\<exists>p. nodes st' v = Some (m\<lparr>node_parent := p\<rparr>)"
    "dom (nodes st') \<subseteq> dom (nodes st0) \<union> below (nodes st') r" "at_path (nodes st') r rest v"
  using assms by (auto simp: built_def)

lemma built_below:
  assumes ok: "mem_ok st0" and v: "nodes st0 v = Some m" and b: "built st0 v m r rest st'"
  shows "below (nodes st') v \<subseteq> dom (nodes st0)"
proof
  fix x assume "x \<in> below (nodes st') v"
  then have "(x, v) \<in> (child (nodes st'))\<^sup>*" by (simp add: below_def)
  then show "x \<in> dom (nodes st0)"
  proof (induction rule: converse_rtrancl_induct)
    case (step x y)
    obtain k where k: "nodes st' y = Some k" "x \<in> set (links k)"
      using forestD(4) [OF mem_okD [OF builtD(1) [OF b]] step.hyps(1)] by blast
    obtain k0 where k0: "nodes st0 y = Some k0" using step.IH by auto
    have "links k = links k0"
    proof (cases "y = v")
      case True
      then show ?thesis using builtD(5) [OF b] k(1) k0 v by auto
    next
      case False
      then show ?thesis using builtD(4) [OF b step.IH False] k(1) k0 by simp
    qed
    then have "(x, y) \<in> child (nodes st0)" using forestD(3) [OF mem_okD [OF ok] k0] k(2) by simp
    then show ?case using child_dom by blast
  qed (use v in auto)
qed

lemma built_apart:
  assumes ok: "mem_ok st0" and v: "nodes st0 v = Some m" "node_parent m = None"
    and b: "built st0 v m r rest st'" and a: "a \<in> dom (nodes st0)" "a \<notin> below (nodes st0) v"
  shows "a \<notin> below (nodes st') r"
proof
  assume "a \<in> below (nodes st') r"
  then have "(a, r) \<in> (child (nodes st'))\<^sup>*" by (simp add: below_def)
  then show False using a
  proof (induction rule: converse_rtrancl_induct)
    case base
    then show ?case using builtD(3) [OF b] by simp
  next
    case (step x y)
    have "x \<noteq> v" using step.prems(2) by auto
    then have "nodes st' x = nodes st0 x" using builtD(4) [OF b step.prems(1)] by simp
    then have xy: "(x, y) \<in> child (nodes st0)" using step.hyps(1) by (simp add: child_iff)
    then have "y \<in> dom (nodes st0)" using forestD(4) [OF mem_okD [OF ok] xy] by auto
    moreover have "y \<notin> below (nodes st0) v" using below_child [OF xy] step.prems(2) by blast
    ultimately show ?case by (rule step.IH)
  qed
qed

lemma undo_built:
  assumes ok: "mem_ok st0" and v: "nodes st0 v = Some m" "node_parent m = None"
    and b: "built st0 v m r rest st'"
  shows "\<exists>st2. undo_dotset r rest st' = Some (False, st2) \<and> mem_ok (reset v st2) \<and> nodes (reset v st2) = nodes st0 \<and>
    (\<exists>p. p \<notin> dom (nodes st0) \<and> nodes st2 = reparent v (Some p) (nodes st0))"
proof -
  have f: "forest (nodes st')" by (rule mem_okD [OF builtD(1) [OF b]])
  obtain p n' st1 where 1: "json_object_dotremove_internal_h r rest False st' = Some (True, st1)"
      "unlinks (nodes st') v p n'" "nodes st1 = (nodes st')(p \<mapsto> n')" "brk st1 = brk st'"
    using dotremove_at_path [OF builtD(1,7) [OF b]] by blast
  obtain n where n: "nodes st' p = Some n" "v \<in> set (links n)" "node_parent n' = node_parent n"
    using 1(2) by (auto simp: unlinks_def)
  have nS: "nodes (reset v st1) = reparent v None ((nodes st')(p \<mapsto> n'))" by (simp add: nodes_reset 1(3))
  have ch: "child (nodes (reset v st1)) = child (nodes st') - {(v, p)}"
    using unlinks_child [OF f 1(2)] by (simp add: nS)
  have domS: "dom (nodes (reset v st1)) = dom (nodes st')" using n(1) by (auto simp: nS reparent_def)
  have okS: "mem_ok (reset v st1)"
    using forest_unlink [OF f 1(2)] builtD(1) [OF b] 1(4) domS by (simp add: mem_ok_def nS [symmetric])
  have vp: "(v, p) \<in> child (nodes st')" by (rule forestD(3) [OF f n(1,2)])
  have rv: "r \<noteq> v" using builtD(3) [OF b] v(1) by auto
  have p0: "p \<notin> dom (nodes st0)"
  proof
    assume p: "p \<in> dom (nodes st0)"
    then have "p \<noteq> v" using no_loop [OF f vp] by auto
    then have "nodes st0 p = Some n" using builtD(4) [OF b p] n(1) by simp
    then have "(v, p) \<in> child (nodes st0)" using forestD(3) [OF mem_okD [OF ok]] n(2) by blast
    then show False using v by (simp add: child_iff)
  qed
  have "is_root (nodes (reset v st1)) r"
    using builtD(2) [OF b] n(1,3) rv by (auto simp: nS is_root_def reparent_def)
  moreover have "nodes st0 \<subseteq>\<^sub>m nodes (reset v st1)"
    unfolding map_le_def
  proof
    fix x assume x: "x \<in> dom (nodes st0)"
    then have "x \<noteq> p" using p0 by auto
    then show "nodes st0 x = nodes (reset v st1) x"
      using builtD(4,5) [OF b] x v by (cases "x = v") (auto simp: nS reparent_def)
  qed
  moreover have "x \<in> dom (nodes st0) \<union> below (nodes (reset v st1)) r" if x: "x \<in> dom (nodes (reset v st1))" for x
  proof (rule ccontr)
    assume c: "x \<notin> dom (nodes st0) \<union> below (nodes (reset v st1)) r"
    then have "(x, r) \<in> (child (nodes st'))\<^sup>*" and xv: "x \<notin> below (nodes st') v"
      using x domS builtD(6) [OF b] built_below [OF ok v(1) b] by (auto simp: below_def)
    then have "(x, r) \<in> (child (nodes (reset v st1)))\<^sup>*"
    proof (induction rule: converse_rtrancl_induct)
      case (step x y)
      have "x \<noteq> v" using step.prems by auto
      then have "(x, y) \<in> child (nodes (reset v st1))" using step.hyps(1) by (simp add: ch)
      moreover have "y \<notin> below (nodes st') v" using below_child [OF step.hyps(1)] step.prems by blast
      ultimately show ?case using step.IH by (meson converse_rtrancl_into_rtrancl)
    qed simp
    then show False using c by (simp add: below_def)
  qed
  ultimately have "copied st0 r (reset v st1)" using builtD(3) [OF b] by (auto simp: copied_def)
  from free_reset [OF ok okS this v] obtain st2 where
    2: "json_value_free (Some r) st1 = Some st2" "mem_ok (reset v st2)" "nodes (reset v st2) = nodes st0"
      "\<forall>k. nodes st1 v = Some k \<longrightarrow> nodes st2 = reparent v (node_parent k) (nodes st0)" by blast
  have "v \<noteq> p" using no_loop [OF f vp] by auto
  then have "\<exists>k. nodes st1 v = Some k \<and> node_parent k = Some p" using vp 1(3) by (auto simp: child_def)
  then have "nodes st2 = reparent v (Some p) (nodes st0)" using 2(4) by auto
  then have "\<exists>p. p \<notin> dom (nodes st0) \<and> nodes st2 = reparent v (Some p) (nodes st0)" using p0 by blast
  then show ?thesis using 1(1) 2(1-3) by (simp add: undo_dotset_def)
qed


text \<open>
  The state a failed call leaves: with the parent pointer of \<open>v\<close> cleared, nothing has changed but the
  size of a table.
\<close>

definition same_node :: "json_node \<Rightarrow> json_node \<Rightarrow> bool" where
  "same_node n n' \<longleftrightarrow>
     node_parent n' = node_parent n \<and>
     (node_content n' = node_content n \<or>
      (\<exists>obj obj'. node_content n = CObject obj \<and> node_content n' = CObject obj' \<and> obj_items obj' = obj_items obj))"

definition same_values :: "json_nodes \<Rightarrow> json_nodes \<Rightarrow> bool" where
  "same_values h h' \<longleftrightarrow> (\<forall>x. rel_option same_node (h x) (h' x))"

lemma same_node_refl: "same_node n n"
  by (simp add: same_node_def)

lemma same_values_refl: "same_values h h"
  by (simp add: same_values_def same_node_refl option.rel_refl)

lemma same_members_values:
  assumes "nodes st a = Some n" "node_content n = CObject obj" "same_members st a n obj st'"
  shows "same_values (nodes st) (nodes st')"
  using assms by (auto simp: same_members_def same_values_def same_node_def option.rel_refl)

definition store_failed :: "json_mem \<Rightarrow> nat \<Rightarrow> json_mem \<Rightarrow> bool" where
  "store_failed st v st' \<longleftrightarrow> mem_ok (reset v st') \<and> same_values (nodes st) (nodes (reset v st'))"

text \<open>What the call on the new object for the rest of the path does.\<close>

definition chain_ok :: "grants \<Rightarrow> string \<Rightarrow> bool" where
  "chain_ok mem rest \<longleftrightarrow>
     (\<forall>st0 st r v m. mem_ok st0 \<longrightarrow> mem_ok st \<longrightarrow> copied st0 r st \<longrightarrow>
        nodes st r = Some \<lparr>node_parent = None, node_content = CObject (JSON_Object [] [] [] [] [] 0 0)\<rparr> \<longrightarrow>
        nodes st0 v = Some m \<longrightarrow> node_parent m = None \<longrightarrow>
        (\<exists>done st'. json_object_dotset_value_h mem (Some r) rest (Some v) st = Some (done, st') \<and>
           (all_granted mem \<longrightarrow> done) \<and>
           (if done then built st0 v m r rest st'
            else mem_ok (reset v st') \<and> copied st0 r (reset v st'))))"

text \<open>The branch for a member that is missing.\<close>

lemma dotset_missing:
  assumes ok: "mem_ok st" and a: "nodes st a = Some n" "node_content n = CObject obj"
    and v: "nodes st v = Some m" "node_parent m = None" "a \<notin> below (nodes st) v"
    and dot: "dot_position name = Some dot" "obj_map obj (take dot name) = None" "is_cstring name"
    and chain: "chain_ok mem (drop (dot + 1) name)"
  shows "\<exists>done st'. json_object_dotset_value_h mem (Some a) name (Some v) st = Some (done, st') \<and>
    (all_granted mem \<longrightarrow> done) \<and>
    (if done then mem_ok st' \<and> (\<exists>r k st2. built st v m r (drop (dot + 1) name) st2 \<and> nodes st2 a = Some n \<and>
        nodes st2 r = Some k \<and> gains_member st2 a n obj (take dot name) r k st')
     else mem_ok (reset v st') \<and> nodes (reset v st') = nodes st)"
proof -
  let ?empty = "CObject (JSON_Object [] [] [] [] [] 0 0)" and ?rest = "drop (dot + 1) name"
  have t: "table_ok obj" using forestD(5) [OF mem_okD [OF ok] a(1)] a(2) by simp
  have at: "object_at st a = Some obj" using a by (simp add: object_at_iff)
  have missing: "json_object_getn_value obj name dot = None"
    using json_object_getn_value_eq [OF t, of dot name] dot_position_less [OF dot(1)] dot(2) by simp
  have av: "a \<noteq> v" using v(3) by auto
  have same_v: "nodes (reset v s) = nodes s" if "nodes s v = Some m" for s
    using that v(2) by (simp add: nodes_reset reparent_same)
  obtain cp st1 where 1: "json_value_init_object_h mem st = (cp, st1)" by fastforce
  then have made1: "made ?empty st (cp, st1)" "all_granted mem \<longrightarrow> cp \<noteq> None"
    using init_container_made [of ?empty st mem SIZEOF_OBJECT] init_granted(2) [of mem SIZEOF_OBJECT ?empty st]
    by (auto simp: json_value_init_object_h_def)
  have ok1: "mem_ok st1" using made_ok(1) [OF ok made1(1)] by (simp add: empty_table_ok)
  note run = json_object_dotset_value_h.simps [of mem "Some a" name "Some v" st]
  show ?thesis
  proof (cases cp)
    case None
    have "nodes st1 = nodes st" using made1(1) None by (simp add: made_def)
    then have "nodes (reset v st1) = nodes st" "mem_ok (reset v st1)"
      using ok1 same_v [of st1] v(1) by (auto simp: mem_ok_def)
    then show ?thesis using run dot(1) at missing 1 None made1(2)
      by (intro exI [of _ False] exI [of _ st1]) simp
  next
    case (Some r)
    then have c1: "copied st r st1" "nodes st1 r = Some \<lparr>node_parent = None, node_content = ?empty\<rparr>"
      using copied_made [OF ok, of ?empty r st1] made1(1) by (auto simp: empty_table_ok)
    obtain fin st2 where 2: "json_object_dotset_value_h mem (Some r) ?rest (Some v) st1 = Some (fin, st2)"
        "all_granted mem \<longrightarrow> fin"
        "if fin then built st v m r ?rest st2 else mem_ok (reset v st2) \<and> copied st r (reset v st2)"
      using chain ok ok1 c1 v(1,2) unfolding chain_ok_def by blast
    show ?thesis
    proof (cases fin)
      case False
      then obtain st3 where "json_value_free (Some r) st2 = Some st3" "mem_ok (reset v st3)" "nodes (reset v st3) = nodes st"
        using free_reset [OF ok _ _ v(1,2), of st2 r] 2(3) by auto
      then show ?thesis using run dot(1) at missing 1 Some 2(1,2) False
        by (intro exI [of _ False] exI [of _ st3]) simp
    next
      case True
      then have b: "built st v m r ?rest st2" using 2(3) by simp
      let ?st3 = "st2\<lparr>requests := Suc (requests st2)\<rparr>"
      have b3: "built st v m r ?rest ?st3" using b by (simp add: built_def)
      show ?thesis
      proof (cases "mem (requests st2) (dot + 1)")
        case False
        obtain st4 where "undo_dotset r ?rest ?st3 = Some (False, st4)" "mem_ok (reset v st4)" "nodes (reset v st4) = nodes st"
          using undo_built [OF ok v(1,2) b3] by blast
        moreover have "\<not> all_granted mem" using False by (auto simp: all_granted_def)
        ultimately show ?thesis using run dot(1) at missing 1 Some 2(1) True False
          by (intro exI [of _ False] exI [of _ st4]) (simp add: parson_malloc_def)
      next
        case key: True
        have a2: "nodes ?st3 a = Some n" using builtD(4) [OF b, of a] a(1) av by auto
        obtain k where k: "nodes ?st3 r = Some k" "node_parent k = None" using builtD(2) [OF b] by (auto simp: is_root_def)
        have ra: "a \<notin> below (nodes ?st3) r"
          using built_apart [OF ok v(1,2) b, of a] a(1) v(3) by auto
        have kc: "is_cstring (take dot name)" using dot(3) by (rule is_cstring_take)
        have fresh: "take dot name \<notin> set (names obj)" using obj_map_None_iff [OF t] dot(2) by simp
        obtain add st4 where 4: "json_object_add_h mem a (take dot name) r ?st3 = Some (add, st4)" "mem_ok st4"
            "all_granted mem \<longrightarrow> add"
            "if add then gains_member ?st3 a n obj (take dot name) r k st4 else nodes st4 = nodes ?st3"
          using json_object_add_ok [OF _ a2 a(2) kc k ra, of mem] builtD(1) [OF b3] fresh by auto
        show ?thesis
        proof (cases add)
          case True
          then have "\<exists>r k st2. built st v m r ?rest st2 \<and> nodes st2 a = Some n \<and> nodes st2 r = Some k \<and>
              gains_member st2 a n obj (take dot name) r k st4"
            using b3 4(4) a2 k(1) by (intro exI [of _ r] exI [of _ k] exI [of _ ?st3]) simp
          then show ?thesis using run dot(1) at missing 1 Some 2(1) \<open>fin\<close> key 4 True
            by (intro exI [of _ True] exI [of _ st4]) (simp add: parson_malloc_def)
        next
          case False
          then have "built st v m r ?rest st4" using b 4(2,4) by (simp add: built_def)
          then obtain st5 where "undo_dotset r ?rest st4 = Some (False, st5)" "mem_ok (reset v st5)" "nodes (reset v st5) = nodes st"
            using undo_built [OF ok v(1,2)] by blast
          then show ?thesis using run dot(1) at missing 1 Some 2(1) \<open>fin\<close> key 4 False
            by (intro exI [of _ False] exI [of _ st5]) (simp add: parson_malloc_def)
        qed
      qed
    qed
  qed
qed


lemma gains_path:
  assumes ok: "mem_ok st" and v: "nodes st v = Some m" "node_parent m = None"
    and b: "built st v m r (drop (dot + 1) name) st2"
    and a: "a \<in> dom (nodes st)" "a \<notin> below (nodes st) v" "nodes st2 a = Some n" "node_content n = CObject obj"
    and dot: "dot_position name = Some dot" "obj_map obj (take dot name) = None"
    and k: "nodes st2 r = Some k" and g: "gains_member st2 a n obj (take dot name) r k st'"
  shows "at_path (nodes st') a name v"
proof -
  obtain obj' where o: "nodes st' = (nodes st2)(a \<mapsto> n\<lparr>node_content := CObject obj'\<rparr>, r \<mapsto> k\<lparr>node_parent := Some a\<rparr>)"
      "obj_items obj' = obj_items obj @ [(take dot name, r)]"
    using g by (auto simp: gains_member_def)
  have ar: "a \<noteq> r" using a(1) builtD(3) [OF b] by auto
  have m: "obj_map obj' (take dot name) = Some r"
    using o(2) dot(2) by (simp add: obj_map_def map_add_def)
  have "a \<notin> below (nodes st2) r" by (rule built_apart [OF ok v b a(1,2)])
  then have "same_below (nodes st2) r (nodes st')" using o(1) k by (auto simp: same_below_def)
  then have "at_path (nodes st') r (drop (dot + 1) name) v"
    using at_path_frame [OF mem_okD [OF builtD(1) [OF b]] builtD(7) [OF b]] by blast
  moreover have "nodes st' a = Some (n\<lparr>node_content := CObject obj'\<rparr>)" using o(1) ar by simp
  ultimately show ?thesis
    using at_path_object [of "nodes st'" a "n\<lparr>node_content := CObject obj'\<rparr>" obj'] dot(1) m by simp
qed

abbreviation empty_object :: json_node where
  "empty_object \<equiv> \<lparr>node_parent = None, node_content = CObject (JSON_Object [] [] [] [] [] 0 0)\<rparr>"

lemma chain_dot:
  assumes ok: "mem_ok st0" "mem_ok st" and c: "copied st0 r st" and r: "nodes st r = Some empty_object"
    and v: "nodes st0 v = Some m" "node_parent m = None"
    and dot: "dot_position name = Some dot" "is_cstring name" and chain: "chain_ok mem (drop (dot + 1) name)"
  shows "\<exists>done st'. json_object_dotset_value_h mem (Some r) name (Some v) st = Some (done, st') \<and>
    (all_granted mem \<longrightarrow> done) \<and>
    (if done then built st0 v m r name st' else mem_ok (reset v st') \<and> copied st0 r (reset v st'))"
proof -
  let ?obj = "JSON_Object [] [] [] [] [] 0 0 :: nat json_object"
  have f: "forest (nodes st)" by (rule mem_okD [OF ok(2)])
  have le: "nodes st0 \<subseteq>\<^sub>m nodes st" and r0: "r \<notin> dom (nodes st0)" and rr: "is_root (nodes st) r"
    and doms: "dom (nodes st) \<subseteq> dom (nodes st0) \<union> below (nodes st) r"
    using c by (auto simp: copied_def)
  have vst: "nodes st v = Some m" by (rule map_leD [OF le v(1)])
  have rv: "r \<noteq> v" using r0 v(1) by auto
  then have r_v: "r \<notin> below (nodes st) v" using below_parent root_no_parent [OF rr] by blast
  have r_only: "below (nodes st) r = {r}" using below_leaf [OF f r] by simp
  have none: "obj_map ?obj (take dot name) = None" by (simp add: obj_map_def obj_items_def)
  obtain fin st' where d: "json_object_dotset_value_h mem (Some r) name (Some v) st = Some (fin, st')"
      "all_granted mem \<longrightarrow> fin"
      "if fin then mem_ok st' \<and> (\<exists>r2 k st2. built st v m r2 (drop (dot + 1) name) st2 \<and> nodes st2 r = Some empty_object \<and>
          nodes st2 r2 = Some k \<and> gains_member st2 r empty_object ?obj (take dot name) r2 k st')
       else mem_ok (reset v st') \<and> nodes (reset v st') = nodes st"
    using dotset_missing [OF ok(2) r _ vst v(2) r_v dot(1) none dot(2) chain] by auto
  show ?thesis
  proof (cases fin)
    case False
    then show ?thesis using d c by (intro exI [of _ False] exI [of _ st']) (simp add: copied_def)
  next
    case True
    then obtain r2 k st2 where b: "built st v m r2 (drop (dot + 1) name) st2" and r2: "nodes st2 r = Some empty_object"
      "nodes st2 r2 = Some k" and g: "gains_member st2 r empty_object ?obj (take dot name) r2 k st'" and ok': "mem_ok st'"
      using d(3) by auto
    obtain obj' where o: "nodes st' = (nodes st2)(r \<mapsto> empty_object\<lparr>node_content := CObject obj'\<rparr>, r2 \<mapsto> k\<lparr>node_parent := Some r\<rparr>)"
      using g by (auto simp: gains_member_def)
    have rd: "r \<in> dom (nodes st)" using r by auto
    have r2_st: "r2 \<notin> dom (nodes st)" using builtD(3) [OF b] .
    have path: "at_path (nodes st') r name v"
      by (rule gains_path [OF ok(2) vst v(2) b rd r_v r2(1) _ dot(1) none r2(2) g]) simp
    have ne: "r \<noteq> r2" "v \<noteq> r2" using r2_st rd vst by auto
    have k: "node_parent k = None" using builtD(2) [OF b] r2(2) by (simp add: is_root_def)
    have ch: "child (nodes st') = insert (r2, r) (child (nodes st2))"
      using o r2 ne k by (auto simp: child_iff split: if_splits)
    have sub: "below (nodes st2) x \<subseteq> below (nodes st') x" for x by (rule child_mono_below) (auto simp: ch)
    have r2r: "r2 \<in> below (nodes st') r" using ch by (auto simp: below_def)
    have "x \<in> dom (nodes st0) \<union> below (nodes st') r" if "x \<in> dom (nodes st')" for x
    proof -
      have "x \<in> dom (nodes st2)" using that o r2 by (auto split: if_splits)
      then consider "x \<in> dom (nodes st0)" | "x = r" | "x \<in> below (nodes st2) r2"
        using builtD(6) [OF b] doms r_only by blast
      then show ?thesis
      proof cases
        case 3
        then show ?thesis using sub r2r below_trans by blast
      qed simp_all
    qed
    moreover have "nodes st' x = nodes st0 x" if x: "x \<in> dom (nodes st0)" "x \<noteq> v" for x
    proof -
      have "x \<in> dom (nodes st)" using x(1) map_le_implies_dom_le [OF le] by blast
      then have "nodes st2 x = nodes st x" "x \<noteq> r2" using builtD(4) [OF b _ x(2)] r2_st by auto
      moreover have "x \<noteq> r" using x(1) r0 by auto
      ultimately show ?thesis using o le x(1) by (simp add: map_le_def)
    qed
    moreover have "is_root (nodes st') r" using o ne(1) by (simp add: is_root_def)
    moreover have "\<exists>p. nodes st' v = Some (m\<lparr>node_parent := p\<rparr>)" using o builtD(5) [OF b] rv ne(2) by simp
    ultimately have "built st0 v m r name st'" using ok' r0 path by (auto simp: built_def)
    then show ?thesis using d True by (intro exI [of _ True] exI [of _ st']) simp
  qed
qed


lemma dotset_plain:
  "dot_position name = None \<Longrightarrow> json_object_dotset_value_h mem (Some a) name (Some v) st
    = json_object_set_value_h mem (Some a) (Some name) (Some v) st"
  by (subst json_object_dotset_value_h.simps) simp

lemma chain_plain:
  assumes ok: "mem_ok st0" "mem_ok st" and c: "copied st0 r st" and r: "nodes st r = Some empty_object"
    and v: "nodes st0 v = Some m" "node_parent m = None"
    and name: "dot_position name = None" "is_cstring name"
  shows "\<exists>done st'. json_object_dotset_value_h mem (Some r) name (Some v) st = Some (done, st') \<and>
    (all_granted mem \<longrightarrow> done) \<and>
    (if done then built st0 v m r name st' else mem_ok (reset v st') \<and> copied st0 r (reset v st'))"
proof -
  let ?obj = "JSON_Object [] [] [] [] [] 0 0 :: nat json_object"
  have le: "nodes st0 \<subseteq>\<^sub>m nodes st" and r0: "r \<notin> dom (nodes st0)" and rr: "is_root (nodes st) r"
    and doms: "dom (nodes st) \<subseteq> dom (nodes st0) \<union> below (nodes st) r"
    using c by (auto simp: copied_def)
  have vst: "nodes st v = Some m" by (rule map_leD [OF le v(1)])
  have rv: "r \<noteq> v" using r0 v(1) by auto
  then have r_v: "r \<notin> below (nodes st) v" using below_parent root_no_parent [OF rr] by blast
  have r_only: "below (nodes st) r = {r}" using below_leaf [OF mem_okD [OF ok(2)] r] by simp
  have rest: "nodes st x = nodes st0 x" "x \<noteq> r" if "x \<in> dom (nodes st0)" for x
    using that le r0 by (auto simp: map_le_def)
  obtain fin st' where d: "json_object_set_value_h mem (Some r) (Some name) (Some v) st = Some (fin, st')"
      "mem_ok st'" "all_granted mem \<longrightarrow> fin"
      "if fin then sets_member st r empty_object ?obj name v m st' else same_members st r empty_object ?obj st'"
    using json_object_set_value_h_ok [OF ok(2) r _ name(2) vst v(2) r_v, where mem = mem] by auto
  show ?thesis
  proof (cases fin)
    case True
    then obtain obj' where o: "nodes st' = (nodes st)(r \<mapsto> empty_object\<lparr>node_content := CObject obj'\<rparr>, v \<mapsto> m\<lparr>node_parent := Some r\<rparr>)"
      "obj_items obj' = [(name, v)]"
      using d(4) by (auto simp: sets_member_def obj_map_def obj_items_def)
    have n: "nodes st' r = Some (empty_object\<lparr>node_content := CObject obj'\<rparr>)" using o(1) rv by simp
    have path: "at_path (nodes st') r name v"
      using at_path_object [of "nodes st'" r "empty_object\<lparr>node_content := CObject obj'\<rparr>" obj'] n name(1) o(2)
      by (simp add: obj_map_def)
    have "dom (nodes st') = dom (nodes st)" using o(1) r vst by auto
    then have "dom (nodes st') \<subseteq> dom (nodes st0) \<union> below (nodes st') r" using doms r_only by auto
    moreover have "is_root (nodes st') r" using n by (simp add: is_root_def)
    ultimately have "built st0 v m r name st'"
      using d(2) r0 path o(1) rest by (auto simp: built_def)
    then show ?thesis using d True dotset_plain [OF name(1)] by (intro exI [of _ True] exI [of _ st']) simp
  next
    case False
    then obtain obj' where o: "nodes st' = (nodes st)(r \<mapsto> empty_object\<lparr>node_content := CObject obj'\<rparr>)"
      using d(4) by (auto simp: same_members_def)
    have same: "nodes (reset v st') = nodes st'" using o rv vst v(2) by (simp add: nodes_reset reparent_same)
    have "child (nodes st') = child (nodes st)" using child_update [of "nodes st" r empty_object] r o by simp
    then have "below (nodes st') r = below (nodes st) r" by (simp add: below_def)
    then have "copied st0 r (reset v st')"
      using same o r0 doms rest r by (auto simp: copied_def is_root_def map_le_def)
    moreover have "mem_ok (reset v st')" using d(2) same by (simp add: mem_ok_def)
    ultimately show ?thesis using d False dotset_plain [OF name(1)] by (intro exI [of _ False] exI [of _ st']) simp
  qed
qed

lemma is_cstring_drop: "is_cstring s \<Longrightarrow> is_cstring (drop n s)"
  using in_set_dropD by (fastforce simp: is_cstring_def)

lemma chain_all: "is_cstring name \<Longrightarrow> chain_ok mem name"
proof (induction "length name" arbitrary: name rule: less_induct)
  case less
  show ?case
  proof (cases "dot_position name")
    case None
    show ?thesis unfolding chain_ok_def
      by (intro allI impI, rule chain_plain [OF _ _ _ _ _ _ None less.prems]) assumption+
  next
    case (Some dot)
    have "chain_ok mem (drop (dot + 1) name)"
      using less.hyps [of "drop (dot + 1) name"] dot_position_less [OF Some] less.prems by (simp add: is_cstring_drop)
    from chain_dot [OF _ _ _ _ _ _ Some less.prems this] show ?thesis
      unfolding chain_ok_def [of mem name] by (intro allI impI) assumption
  qed
qed

section \<open>The whole call\<close>

text \<open>
  Success: the path leads to the value, and blocks that are neither below the object nor the value
  itself have not changed.
\<close>

definition dotset_done :: "json_mem \<Rightarrow> nat \<Rightarrow> string \<Rightarrow> nat \<Rightarrow> json_mem \<Rightarrow> bool" where
  "dotset_done st a name v st' \<longleftrightarrow>
     mem_ok st' \<and> at_path (nodes st') a name v \<and>
     (\<forall>x \<in> dom (nodes st). x \<notin> below (nodes st) a \<longrightarrow> x \<noteq> v \<longrightarrow> nodes st' x = nodes st x)"

lemma dotset_ok:
  assumes ok: "mem_ok st" and v: "nodes st v = Some m" "node_parent m = None"
  shows "nodes st a = Some n \<Longrightarrow> node_content n = CObject obj \<Longrightarrow> a \<notin> below (nodes st) v \<Longrightarrow> is_cstring name \<Longrightarrow>
    \<exists>done st'. json_object_dotset_value_h mem (Some a) name (Some v) st = Some (done, st') \<and>
      (if done then dotset_done st a name v st' else store_failed st v st')"
proof (induction "length name" arbitrary: a name n obj rule: less_induct)
  case less
  have f: "forest (nodes st)" by (rule mem_okD [OF ok])
  have t: "table_ok obj" using forestD(5) [OF f less.prems(1)] less.prems(2) by simp
  have at: "object_at st a = Some obj" using less.prems(1,2) by (simp add: object_at_iff)
  have av: "a \<noteq> v" using less.prems(3) by auto
  have same_v: "nodes (reset v s) = nodes s" if "nodes s v = Some m" for s
    using that v(2) by (simp add: nodes_reset reparent_same)
  show ?case
  proof (cases "dot_position name")
    case None
    obtain fin st' where d: "json_object_set_value_h mem (Some a) (Some name) (Some v) st = Some (fin, st')"
        "mem_ok st'" "if fin then sets_member st a n obj name v m st' else same_members st a n obj st'"
      using json_object_set_value_h_ok [OF ok less.prems(1,2,4) v less.prems(3), of mem] by blast
    show ?thesis
    proof (cases fin)
      case True
      let ?S = "case obj_map obj name of None \<Rightarrow> {} | Some old \<Rightarrow> below (nodes st) old"
      obtain obj' where o: "nodes st' = (without (nodes st) ?S)
          (a \<mapsto> n\<lparr>node_content := CObject obj'\<rparr>, v \<mapsto> m\<lparr>node_parent := Some a\<rparr>)"
          "obj_items obj' = AList.update name v (obj_items obj)"
        using d(3) True by (auto simp: sets_member_def)
      have "?S \<subseteq> below (nodes st) a"
      proof (cases "obj_map obj name")
        case (Some old)
        then have "old \<in> set (links n)" using obj_map_value less.prems(2) by fastforce
        then show ?thesis using below_linked [OF f less.prems(1)] Some by auto
      qed simp
      then have frame: "nodes st' x = nodes st x" if "x \<notin> below (nodes st) a" "x \<noteq> v" for x
      proof -
        have "x \<noteq> a" "x \<notin> ?S" using that \<open>?S \<subseteq> below (nodes st) a\<close> by auto
        then show ?thesis using o(1) that(2) by simp
      qed
      have "nodes st' a = Some (n\<lparr>node_content := CObject obj'\<rparr>)" using o(1) av by simp
      then have "at_path (nodes st') a name v"
        using at_path_object [of "nodes st'" a "n\<lparr>node_content := CObject obj'\<rparr>" obj'] None obj_map_update [OF o(2)] by simp
      then show ?thesis using d frame dotset_plain [OF None] True
        by (intro exI [of _ True] exI [of _ st']) (simp add: dotset_done_def)
    next
      case False
      then have sm: "same_members st a n obj st'" using d(3) by simp
      then have "nodes st' v = Some m" using v(1) av by (auto simp: same_members_def)
      then have "store_failed st v st'"
        using d(2) same_v [of st'] same_members_values [OF less.prems(1,2) sm] by (simp add: store_failed_def mem_ok_def)
      then show ?thesis using d dotset_plain [OF None] False by (intro exI [of _ False] exI [of _ st']) simp
    qed
  next
    case (Some dot)
    note run = json_object_dotset_value_h.simps [of mem "Some a" name "Some v" st]
    have got: "json_object_getn_value obj name dot = obj_map obj (take dot name)"
      using json_object_getn_value_eq [OF t, of dot name] dot_position_less [OF Some] by simp
    show ?thesis
    proof (cases "obj_map obj (take dot name)")
      case None
      obtain fin st' where d: "json_object_dotset_value_h mem (Some a) name (Some v) st = Some (fin, st')"
        "if fin then mem_ok st' \<and> (\<exists>r k st2. built st v m r (drop (dot + 1) name) st2 \<and> nodes st2 a = Some n \<and>
            nodes st2 r = Some k \<and> gains_member st2 a n obj (take dot name) r k st')
         else mem_ok (reset v st') \<and> nodes (reset v st') = nodes st"
        using dotset_missing [OF ok less.prems(1,2) v less.prems(3) Some None less.prems(4)
            chain_all [OF is_cstring_drop [OF less.prems(4)]], of mem] by blast
      show ?thesis
      proof (cases fin)
        case False
        then have "store_failed st v st'" using d(2) by (simp add: store_failed_def same_values_refl)
        then show ?thesis using d(1) False by (intro exI [of _ False] exI [of _ st']) simp
      next
        case True
        then obtain r k st2 where b: "built st v m r (drop (dot + 1) name) st2" "nodes st2 a = Some n"
          "nodes st2 r = Some k" "gains_member st2 a n obj (take dot name) r k st'" and ok': "mem_ok st'"
          using d(2) by auto
        have "a \<in> dom (nodes st)" using less.prems(1) by auto
        then have path: "at_path (nodes st') a name v"
          by (rule gains_path [OF ok v b(1) _ less.prems(3) b(2) less.prems(2) Some None b(3,4)])
        have "nodes st' x = nodes st x" if "x \<in> dom (nodes st)" "x \<notin> below (nodes st) a" "x \<noteq> v" for x
        proof -
          have "x \<noteq> a" "x \<noteq> r" using that builtD(3) [OF b(1)] by auto
          then show ?thesis using b(4) builtD(4) [OF b(1) that(1,3)] by (auto simp: gains_member_def)
        qed
        then show ?thesis using d(1) True ok' path
          by (intro exI [of _ True] exI [of _ st']) (simp add: dotset_done_def)
      qed
    next
      case t1: (Some t1)
      then have linked: "t1 \<in> set (links n)" using obj_map_value less.prems(2) by fastforce
      then have tp: "(t1, a) \<in> child (nodes st)" by (rule forestD(3) [OF f less.prems(1)])
      then obtain k where k: "nodes st t1 = Some k" by (auto simp: child_def)
      show ?thesis
      proof (cases "\<exists>obj2. node_content k = CObject obj2")
        case False
        then have "json_object_dotset_value_h mem (Some a) name (Some v) st = Some (False, st)"
          using run Some at got t1 k by (auto split: json_content.split)
        moreover have "store_failed st v st"
          using ok same_v [OF v(1)] by (simp add: store_failed_def same_values_refl mem_ok_def)
        ultimately show ?thesis by (intro exI [of _ False] exI [of _ st]) simp
      next
        case True
        then obtain obj2 where o2: "node_content k = CObject obj2" by blast
        then have step: "json_object_dotset_value_h mem (Some a) name (Some v) st
            = json_object_dotset_value_h mem (Some t1) (drop (dot + 1) name) (Some v) st"
          using run Some at got t1 k by simp
        have "t1 \<notin> below (nodes st) v"
        proof
          assume "t1 \<in> below (nodes st) v"
          moreover have "t1 \<noteq> v" using tp v by (auto simp: child_iff)
          ultimately have "a \<in> below (nodes st) v" using below_parent child_functional [OF tp] by blast
          then show False using less.prems(3) by simp
        qed
        moreover have "length (drop (dot + 1) name) < length name" using dot_position_less [OF Some] by simp
        ultimately obtain fin st' where d: "json_object_dotset_value_h mem (Some t1) (drop (dot + 1) name) (Some v) st = Some (fin, st')"
          "if fin then dotset_done st t1 (drop (dot + 1) name) v st' else store_failed st v st'"
          using less.hyps [of "drop (dot + 1) name" t1 k obj2] k o2 is_cstring_drop [OF less.prems(4)] by blast
        show ?thesis
        proof (cases fin)
          case False
          then show ?thesis using d step by (intro exI [of _ False] exI [of _ st']) simp
        next
          case fin: True
          then have dd: "dotset_done st t1 (drop (dot + 1) name) v st'" using d(2) by simp
          have "nodes st' a = nodes st a"
            using dd no_loop [OF f tp] av less.prems(1) by (auto simp: dotset_done_def)
          then have "at_path (nodes st') a name v"
            using at_path_object [of "nodes st'" a n obj] less.prems(1,2) Some t1 dd by (simp add: dotset_done_def)
          moreover have "below (nodes st) t1 \<subseteq> below (nodes st) a" using below_linked [OF f less.prems(1)] linked by auto
          ultimately have "dotset_done st a name v st'" using dd by (auto simp: dotset_done_def)
          then show ?thesis using d(1) step fin by (intro exI [of _ True] exI [of _ st']) simp
        qed
      qed
    qed
  qed
qed

end
