(* ===== verification/Parson_Ownership.thy ===== *)
theory Parson_Ownership
  imports Parson_Dotset Step_System
begin

text \<open>
  Programs that use parson's memory: the calls, what a caller must respect, and the properties of
  any run.  A caller passes pointers to allocated values of the right type, frees only values that
  no container holds, and does not store a value in a container below it; parson tests for a parent,
  and that test does not see the last.
\<close>

section \<open>Storing a new scalar\<close>

lemma failed_same:
  assumes "mem_ok st'" "nodes st' = nodes st" "nodes st v = Some m" "node_parent m = None"
  shows "store_failed st v st'"
proof -
  have "nodes (reset v st') = nodes st" using assms(2-4) by (simp add: nodes_reset reparent_same)
  then show ?thesis using assms(1,2) by (simp add: store_failed_def mem_ok_def same_values_refl)
qed

lemma same_values_without:
  assumes "same_values h h'" "h v = Some m"
  shows "same_values (h(v := None)) (h'(v := None))"
  using assms by (auto simp: same_values_def)

lemma init_scalar_leaf:
  assumes ok: "mem_ok st" and i: "init_scalar mem sc st = (Some v, st1)"
  obtains c where "mem_ok st1" "links_of c = []" "nodes st1 v = Some \<lparr>node_parent = None, node_content = c\<rparr>"
    "(nodes st1)(v := None) = nodes st" "v \<notin> dom (nodes st)" "\<And>a. a \<noteq> v \<Longrightarrow> a \<notin> below (nodes st1) v" "\<forall>obj. c \<noteq> CObject obj"
    "\<And>a. a \<in> dom (nodes st) \<Longrightarrow> nodes st1 a = nodes st a"
proof -
  obtain c where c: "links_of c = []" "content_ok c" "made c st (Some v, st1)" "\<forall>obj. c \<noteq> CObject obj"
    using init_scalar_made [of st mem sc] i by auto
  have ok1: "mem_ok st1" by (rule made_ok(1) [OF ok c(3,1,2)])
  have n: "nodes st1 = (nodes st)(v \<mapsto> \<lparr>node_parent = None, node_content = c\<rparr>)" using c(3) by (auto simp: made_def)
  have v: "v \<notin> dom (nodes st)" using made_ok(2) [OF ok c(3,1,2), of v] by blast
  have "nodes st v = None" using v by (simp add: domIff)
  then have undone: "(nodes st1)(v := None) = nodes st" using n by (simp add: fun_upd_idem)
  have "below (nodes st1) v = {v}" using below_leaf [OF mem_okD [OF ok1], of v] n c(1) by simp
  then have leaf: "a \<notin> below (nodes st1) v" if "a \<noteq> v" for a using that by simp
  have frame: "nodes st1 a = nodes st a" if "a \<in> dom (nodes st)" for a using that v n by auto
  show ?thesis by (rule that [OF ok1 c(1) _ undone v leaf c(4) frame]) (simp_all add: n)
qed

lemma store_scalar_ok:
  assumes ok: "mem_ok st"
    and store: "\<And>v st1 c. mem_ok st1 \<Longrightarrow> nodes st1 v = Some \<lparr>node_parent = None, node_content = c\<rparr> \<Longrightarrow>
      (\<And>a. a \<noteq> v \<Longrightarrow> a \<notin> below (nodes st1) v) \<Longrightarrow> v \<notin> dom (nodes st) \<Longrightarrow>
      (\<And>a. a \<in> dom (nodes st) \<Longrightarrow> nodes st1 a = nodes st a) \<Longrightarrow>
      \<exists>done st2. store v st1 = Some (done, st2) \<and> (if done then mem_ok st2 else store_failed st1 v st2)"
  shows "\<exists>done st'. store_scalar mem sc store st = Some (done, st') \<and> mem_ok st' \<and>
    (\<not> done \<longrightarrow> same_values (nodes st) (nodes st'))"
proof -
  obtain cp st1 where i: "init_scalar mem sc st = (cp, st1)" by fastforce
  show ?thesis
  proof (cases cp)
    case None
    obtain c where "made c st (None, st1)" using init_scalar_made [of st mem sc] i None by auto
    then have "nodes st1 = nodes st" "brk st1 = brk st" by (simp_all add: made_def)
    then show ?thesis using i None ok
      by (intro exI [of _ False] exI [of _ st1]) (simp add: store_scalar_def same_values_refl mem_ok_def)
  next
    case (Some v)
    then have i: "init_scalar mem sc st = (Some v, st1)" using i by simp
    obtain c where c: "mem_ok st1" "links_of c = []" "nodes st1 v = Some \<lparr>node_parent = None, node_content = c\<rparr>"
      "(nodes st1)(v := None) = nodes st" "v \<notin> dom (nodes st)" "\<And>a. a \<noteq> v \<Longrightarrow> a \<notin> below (nodes st1) v"
      "\<forall>obj. c \<noteq> CObject obj" "\<And>a. a \<in> dom (nodes st) \<Longrightarrow> nodes st1 a = nodes st a"
      using init_scalar_leaf [OF ok i] by metis
    obtain fin st2 where 2: "store v st1 = Some (fin, st2)" "if fin then mem_ok st2 else store_failed st1 v st2"
      using store [OF c(1,3,6,5,8)] by blast
    show ?thesis
    proof (cases fin)
      case True
      then show ?thesis using 2 i by (intro exI [of _ True] exI [of _ st2]) (simp add: store_scalar_def)
    next
      case False
      then have f: "mem_ok (reset v st2)" "same_values (nodes st1) (nodes (reset v st2))"
        using 2(2) by (simp_all add: store_failed_def)
      then have "rel_option same_node (nodes st1 v) (nodes (reset v st2) v)" by (simp add: same_values_def)
      then obtain k where k: "nodes (reset v st2) v = Some k" "node_parent k = None" "node_content k = c"
        using c(3,7) by (cases "nodes (reset v st2) v") (auto simp: same_node_def)
      obtain s where s: "json_value_free (Some v) (reset v st2) = Some s" "mem_ok s"
        "nodes s = without (nodes (reset v st2)) (below (nodes (reset v st2)) v)" "brk s = brk st2"
        using json_value_free_root [OF f(1), of v] k by (auto simp: is_root_def)
      have "below (nodes (reset v st2)) v = {v}" using below_leaf [OF mem_okD [OF f(1)] k(1)] k(3) c(2) by simp
      then have ns: "nodes s = (nodes (reset v st2))(v := None)" using s(3) by (auto simp: without_def)
      obtain k2 where k2: "nodes st2 v = Some k2" "links k2 = []"
        using k c(2) by (cases "nodes st2 v") (auto simp: nodes_reset reparent_def)
      let ?st3 = "st2\<lparr>nodes := (nodes st2)(v := None)\<rparr>"
      have n3: "nodes ?st3 = nodes s" using ns by (simp add: nodes_reset reparent_def)
      have "json_value_free (Some v) st2 = Some ?st3" using k2 by (simp add: json_value_free_def free_all_def)
      moreover have "mem_ok ?st3" using s(2,4) n3 by (simp add: mem_ok_def)
      moreover have "same_values (nodes st) (nodes ?st3)"
        using same_values_without [OF f(2) c(3)] c(4) n3 ns by simp
      ultimately show ?thesis using i 2(1) False
        by (intro exI [of _ False] exI [of _ ?st3]) (simp add: store_scalar_def)
    qed
  qed
qed

lemma json_object_set_scalar_store:
  "json_object_set_scalar mem obj name sc st
    = store_scalar mem sc (\<lambda>v. json_object_set_value_h mem obj name (Some v)) st"
proof -
  obtain cp st1 where "init_scalar mem sc st = (cp, st1)" by fastforce
  then show ?thesis
    by (cases cp) (simp_all add: json_object_set_scalar_def store_scalar_def json_object_set_value_h_def json_value_free_def
        split: option.split)
qed


section \<open>Calls\<close>

text \<open>
  \<open>Dotset\<close> is \<open>json_object_dotset_value\<close> on a value of the caller, who keeps it when the call fails;
  \<open>Dotset_Or_Free\<close> is the same call of a caller who frees the value when it fails.
\<close>

datatype heap_call =
    Make json_scalar
  | Make_Array
  | Make_Object
  | Append "nat option" "nat option"
  | Append_Scalar "nat option" json_scalar
  | Replace "nat option" nat "nat option"
  | Replace_Scalar "nat option" nat json_scalar
  | Remove_Item "nat option" nat
  | Clear_Array "nat option"
  | Set_Member "nat option" "string option" "nat option"
  | Set_Scalar "nat option" "string option" json_scalar
  | Dotset_Scalar "nat option" string json_scalar
  | Dotset "nat option" string "nat option"
  | Dotset_Or_Free "nat option" string "nat option"
  | Remove_Member nat string
  | Dotremove nat string
  | Clear_Object "nat option"
  | Deep_Copy "nat option"
  | Free "nat option"

fun run_call :: "grants \<Rightarrow> json_mem \<Rightarrow> heap_call \<Rightarrow> json_mem option" where
  "run_call mem st (Make sc) = Some (snd (init_scalar mem sc st))"
| "run_call mem st Make_Array = Some (snd (json_value_init_array_h mem st))"
| "run_call mem st Make_Object = Some (snd (json_value_init_object_h mem st))"
| "run_call mem st (Append arr v) = map_option snd (json_array_append_value_h mem arr v st)"
| "run_call mem st (Append_Scalar arr sc) = map_option snd (json_array_append_scalar mem arr sc st)"
| "run_call mem st (Replace arr ix v) = map_option snd (json_array_replace_value_h arr ix v st)"
| "run_call mem st (Replace_Scalar arr ix sc) = map_option snd (json_array_replace_scalar mem arr ix sc st)"
| "run_call mem st (Remove_Item arr ix) = map_option snd (json_array_remove_h arr ix st)"
| "run_call mem st (Clear_Array arr) = map_option snd (json_array_clear_h arr st)"
| "run_call mem st (Set_Member obj name v) = map_option snd (json_object_set_value_h mem obj name v st)"
| "run_call mem st (Set_Scalar obj name sc) = map_option snd (json_object_set_scalar mem obj name sc st)"
| "run_call mem st (Dotset_Scalar obj name sc) = map_option snd (json_object_dotset_scalar mem obj name sc st)"
| "run_call mem st (Dotset obj name v) = map_option snd (json_object_dotset_value_h mem obj name v st)"
| "run_call mem st (Dotset_Or_Free obj name v) = do {
     (ok, st1) \<leftarrow> json_object_dotset_value_h mem obj name v st;
     if ok then Some st1 else json_value_free v st1
   }"
| "run_call mem st (Remove_Member a name) = map_option snd (json_object_remove_internal_h a name True st)"
| "run_call mem st (Dotremove a name) = map_option snd (json_object_dotremove_internal_h a name True st)"
| "run_call mem st (Clear_Object obj) = map_option snd (json_object_clear_h obj st)"
| "run_call mem st (Deep_Copy v) = map_option snd (json_value_deep_copy_h mem v st)"
| "run_call mem st (Free v) = json_value_free v st"

text \<open>What the caller must respect.\<close>

definition array_ptr :: "json_mem \<Rightarrow> nat option \<Rightarrow> bool" where
  "array_ptr st arr \<longleftrightarrow> (case arr of None \<Rightarrow> True | Some a \<Rightarrow> array_at st a \<noteq> None)"

definition object_ptr :: "json_mem \<Rightarrow> nat option \<Rightarrow> bool" where
  "object_ptr st obj \<longleftrightarrow> (case obj of None \<Rightarrow> True | Some a \<Rightarrow> object_at st a \<noteq> None)"

definition storable :: "json_mem \<Rightarrow> nat option \<Rightarrow> nat option \<Rightarrow> bool" where
  "storable st container val \<longleftrightarrow>
     (case (container, val) of
        (Some a, Some v) \<Rightarrow> v \<in> dom (nodes st) \<and> (is_root (nodes st) v \<longrightarrow> a \<notin> below (nodes st) v)
      | _ \<Rightarrow> True)"

definition name_ok :: "string option \<Rightarrow> bool" where
  "name_ok name \<longleftrightarrow> (case name of None \<Rightarrow> True | Some s \<Rightarrow> is_cstring s)"

text \<open>
  A failing \<open>json_object_dotset_value\<close> can leave the parent pointer of the value on an object it has freed
  (\<open>dotset_leaves_stale_parent\<close> below); such a value can only be freed.
\<close>

definition left_stale :: "json_mem \<Rightarrow> nat option \<Rightarrow> json_mem \<Rightarrow> bool" where
  "left_stale st val st' \<longleftrightarrow>
     (case val of
        None \<Rightarrow> False
      | Some v \<Rightarrow> map_option node_parent (nodes st' v) \<noteq> map_option node_parent (nodes st v))"

definition dotset_undone :: "grants \<Rightarrow> json_mem \<Rightarrow> nat option \<Rightarrow> string \<Rightarrow> nat option \<Rightarrow> bool" where
  "dotset_undone mem st obj name val \<longleftrightarrow>
     (case json_object_dotset_value_h mem obj name val st of
        Some (False, st') \<Rightarrow> \<not> left_stale st val st'
      | _ \<Rightarrow> True)"

fun allowed :: "grants \<Rightarrow> json_mem \<Rightarrow> heap_call \<Rightarrow> bool" where
  "allowed mem st (Append arr v) \<longleftrightarrow> array_ptr st arr \<and> storable st arr v"
| "allowed mem st (Append_Scalar arr _) \<longleftrightarrow> array_ptr st arr"
| "allowed mem st (Replace arr _ v) \<longleftrightarrow> array_ptr st arr \<and> storable st arr v"
| "allowed mem st (Replace_Scalar arr _ _) \<longleftrightarrow> array_ptr st arr"
| "allowed mem st (Remove_Item arr _) \<longleftrightarrow> array_ptr st arr"
| "allowed mem st (Clear_Array arr) \<longleftrightarrow> array_ptr st arr"
| "allowed mem st (Set_Member obj name v) \<longleftrightarrow> object_ptr st obj \<and> name_ok name \<and> storable st obj v"
| "allowed mem st (Set_Scalar obj name _) \<longleftrightarrow> object_ptr st obj \<and> name_ok name"
| "allowed mem st (Dotset_Scalar obj name _) \<longleftrightarrow> object_ptr st obj \<and> is_cstring name"
| "allowed mem st (Dotset obj name v) \<longleftrightarrow>
     object_ptr st obj \<and> is_cstring name \<and> storable st obj v \<and> dotset_undone mem st obj name v"
| "allowed mem st (Dotset_Or_Free obj name v) \<longleftrightarrow>
     object_ptr st obj \<and> is_cstring name \<and> storable st obj v \<and>
     (case v of None \<Rightarrow> True | Some a \<Rightarrow> is_root (nodes st) a)"
| "allowed mem st (Remove_Member a _) \<longleftrightarrow> object_ptr st (Some a)"
| "allowed mem st (Dotremove a _) \<longleftrightarrow> object_ptr st (Some a)"
| "allowed mem st (Clear_Object obj) \<longleftrightarrow> object_ptr st obj"
| "allowed mem st (Deep_Copy v) \<longleftrightarrow> (case v of None \<Rightarrow> True | Some a \<Rightarrow> a \<in> dom (nodes st))"
| "allowed mem st (Free v) \<longleftrightarrow> (case v of None \<Rightarrow> True | Some a \<Rightarrow> is_root (nodes st) a)"
| "allowed mem st _ \<longleftrightarrow> True"

abbreviation succeeds :: "('a \<times> json_mem) option \<Rightarrow> bool" where
  "succeeds r \<equiv> \<exists>x st'. r = Some (x, st') \<and> mem_ok st'"

lemma some_bool [simp]: "\<exists>x. \<not> x" "\<exists>x. x"
  by auto

lemma array_ptrE:
  assumes "array_ptr st (Some a)"
  obtains n arr where "nodes st a = Some n" "node_content n = CArray arr"
  using assms by (auto simp: array_ptr_def array_at_iff)

lemma object_ptrE:
  assumes "object_ptr st (Some a)"
  obtains n obj where "nodes st a = Some n" "node_content n = CObject obj"
  using assms by (auto simp: object_ptr_def object_at_iff)

lemma not_root: "h v = Some m \<Longrightarrow> node_parent m \<noteq> None \<Longrightarrow> \<not> is_root h v"
  by (simp add: is_root_def)

lemma append_succeeds:
  assumes ok: "mem_ok st" and p: "array_ptr st arr" "storable st arr val"
  shows "succeeds (json_array_append_value_h mem arr val st)"
proof (cases "arr = None \<or> val = None")
  case True
  then show ?thesis using ok by (auto simp: json_array_append_value_h_def split: option.splits)
next
  case False
  then obtain a v where av: "arr = Some a" "val = Some v" by auto
  obtain n ar where a: "nodes st a = Some n" "node_content n = CArray ar" using p(1) av(1) by (auto elim: array_ptrE)
  obtain m where m: "nodes st v = Some m" using p(2) av by (auto simp: storable_def)
  show ?thesis
  proof (cases "node_parent m")
    case None
    then have "a \<notin> below (nodes st) v" using p(2) av m by (auto simp: storable_def is_root_def)
    from json_array_add_ok [OF ok a m None this, of mem] show ?thesis
      using av m None by (auto simp: json_array_append_value_h_def)
  next
    case (Some q)
    then show ?thesis using ok av m by (simp add: json_array_append_value_h_def)
  qed
qed

lemma replace_succeeds:
  assumes ok: "mem_ok st" and p: "array_ptr st arr" "storable st arr val"
  shows "succeeds (json_array_replace_value_h arr ix val st)"
proof (cases "arr = None \<or> val = None")
  case True
  then show ?thesis using ok by (auto simp: json_array_replace_value_h_def split: option.splits)
next
  case False
  then obtain a v where av: "arr = Some a" "val = Some v" by auto
  obtain n ar where a: "nodes st a = Some n" "node_content n = CArray ar" using p(1) av(1) by (auto elim: array_ptrE)
  then have at: "array_at st a = Some ar" by (simp add: array_at_iff)
  obtain m where m: "nodes st v = Some m" using p(2) av by (auto simp: storable_def)
  show ?thesis
  proof (cases "node_parent m = None \<and> ix < length (array_items ar)")
    case True
    then have "a \<notin> below (nodes st) v" using p(2) av m by (auto simp: storable_def is_root_def)
    then show ?thesis using json_array_replace_value_ok [OF ok a _ m] True av by blast
  next
    case False
    then show ?thesis using ok av m at by (auto simp: json_array_replace_value_h_def)
  qed
qed

lemma remove_item_succeeds:
  assumes ok: "mem_ok st" and p: "array_ptr st arr"
  shows "succeeds (json_array_remove_h arr ix st)"
proof (cases arr)
  case None
  then show ?thesis using ok by (simp add: json_array_remove_h_def)
next
  case (Some a)
  obtain n ar where a: "nodes st a = Some n" "node_content n = CArray ar" using p Some by (auto elim: array_ptrE)
  then have at: "array_at st a = Some ar" by (simp add: array_at_iff)
  show ?thesis
  proof (cases "ix < length (array_items ar)")
    case True
    then show ?thesis using json_array_remove_ok [OF ok a] Some by blast
  next
    case False
    then show ?thesis using ok at Some by (simp add: json_array_remove_h_def)
  qed
qed

lemma set_member_succeeds:
  assumes ok: "mem_ok st" and p: "object_ptr st obj" "name_ok name" "storable st obj val"
  shows "succeeds (json_object_set_value_h mem obj name val st)"
proof (cases "obj = None \<or> name = None \<or> val = None")
  case True
  then show ?thesis using ok by (auto simp: json_object_set_value_h_def split: option.splits)
next
  case False
  then obtain a s v where av: "obj = Some a" "name = Some s" "val = Some v" by auto
  obtain n ob where a: "nodes st a = Some n" "node_content n = CObject ob" using p(1) av(1) by (auto elim: object_ptrE)
  obtain m where m: "nodes st v = Some m" using p(3) av by (auto simp: storable_def)
  show ?thesis
  proof (cases "node_parent m")
    case None
    then have "a \<notin> below (nodes st) v" using p(3) av m by (auto simp: storable_def is_root_def)
    moreover have "is_cstring s" using p(2) av by (simp add: name_ok_def)
    ultimately show ?thesis using json_object_set_value_h_ok [OF ok a _ m None, where mem = mem] av by blast
  next
    case (Some q)
    then show ?thesis using ok av m by (simp add: json_object_set_value_h_def)
  qed
qed


lemma append_scalar_succeeds:
  assumes ok: "mem_ok st" and p: "array_ptr st arr"
  shows "\<exists>done st'. json_array_append_scalar mem arr sc st = Some (done, st') \<and> mem_ok st' \<and>
    (\<not> done \<longrightarrow> same_values (nodes st) (nodes st'))"
  unfolding json_array_append_scalar_def
proof (rule store_scalar_ok [OF ok])
  fix v st1 c
  assume 1: "mem_ok st1" "nodes st1 v = Some \<lparr>node_parent = None, node_content = c\<rparr>"
    "\<And>a. a \<noteq> v \<Longrightarrow> a \<notin> below (nodes st1) v" "v \<notin> dom (nodes st)"
    "\<And>a. a \<in> dom (nodes st) \<Longrightarrow> nodes st1 a = nodes st a"
  show "\<exists>done st2. json_array_append_value_h mem arr (Some v) st1 = Some (done, st2) \<and>
      (if done then mem_ok st2 else store_failed st1 v st2)"
  proof (cases arr)
    case None
    then show ?thesis using failed_same [OF 1(1) refl 1(2)] by (simp add: json_array_append_value_h_def)
  next
    case (Some a)
    obtain n ar where a: "nodes st a = Some n" "node_content n = CArray ar" using p Some by (auto elim: array_ptrE)
    have ad: "a \<in> dom (nodes st)" using a(1) by auto
    have a1: "nodes st1 a = Some n" "a \<noteq> v" using 1(5) [OF ad] a(1) 1(4) ad by auto
    obtain fin st2 where 2: "json_array_add_h mem a v st1 = Some (fin, st2)" "mem_ok st2" "\<not> fin \<Longrightarrow> nodes st2 = nodes st1"
      using json_array_add_ok [OF 1(1) a1(1) a(2) 1(2) _ 1(3) [OF a1(2)], of mem] by auto
    then show ?thesis using Some 1(2) failed_same [OF 2(2) _ 1(2)]
      by (intro exI [of _ fin] exI [of _ st2]) (simp add: json_array_append_value_h_def)
  qed
qed

lemma replace_scalar_succeeds:
  assumes ok: "mem_ok st" and p: "array_ptr st arr"
  shows "\<exists>done st'. json_array_replace_scalar mem arr ix sc st = Some (done, st') \<and> mem_ok st' \<and>
    (\<not> done \<longrightarrow> same_values (nodes st) (nodes st'))"
  unfolding json_array_replace_scalar_def
proof (rule store_scalar_ok [OF ok])
  fix v st1 c
  assume 1: "mem_ok st1" "nodes st1 v = Some \<lparr>node_parent = None, node_content = c\<rparr>"
    "\<And>a. a \<noteq> v \<Longrightarrow> a \<notin> below (nodes st1) v" "v \<notin> dom (nodes st)"
    "\<And>a. a \<in> dom (nodes st) \<Longrightarrow> nodes st1 a = nodes st a"
  note same = failed_same [OF 1(1) refl 1(2)]
  show "\<exists>done st2. json_array_replace_value_h arr ix (Some v) st1 = Some (done, st2) \<and>
      (if done then mem_ok st2 else store_failed st1 v st2)"
  proof (cases arr)
    case None
    then show ?thesis using same by (simp add: json_array_replace_value_h_def)
  next
    case (Some a)
    obtain n ar where a: "nodes st a = Some n" "node_content n = CArray ar" using p Some by (auto elim: array_ptrE)
    have ad: "a \<in> dom (nodes st)" using a(1) by auto
    have a1: "nodes st1 a = Some n" "a \<noteq> v" using 1(5) [OF ad] a(1) 1(4) ad by auto
    then have at: "array_at st1 a = Some ar" using a(2) by (simp add: array_at_iff)
    show ?thesis
    proof (cases "ix < length (array_items ar)")
      case True
      obtain st2 where "json_array_replace_value_h (Some a) ix (Some v) st1 = Some (True, st2)" "mem_ok st2"
        using json_array_replace_value_ok [OF 1(1) a1(1) a(2) True 1(2) _ 1(3) [OF a1(2)]] by auto
      then show ?thesis using Some by (intro exI [of _ True] exI [of _ st2]) simp
    next
      case False
      then show ?thesis using Some 1(2) at same
        by (intro exI [of _ False] exI [of _ st1]) (simp add: json_array_replace_value_h_def)
    qed
  qed
qed

lemma set_scalar_succeeds:
  assumes ok: "mem_ok st" and p: "object_ptr st obj" "name_ok name"
  shows "\<exists>done st'. json_object_set_scalar mem obj name sc st = Some (done, st') \<and> mem_ok st' \<and>
    (\<not> done \<longrightarrow> same_values (nodes st) (nodes st'))"
  unfolding json_object_set_scalar_store
proof (rule store_scalar_ok [OF ok])
  fix v st1 c
  assume 1: "mem_ok st1" "nodes st1 v = Some \<lparr>node_parent = None, node_content = c\<rparr>"
    "\<And>a. a \<noteq> v \<Longrightarrow> a \<notin> below (nodes st1) v" "v \<notin> dom (nodes st)"
    "\<And>a. a \<in> dom (nodes st) \<Longrightarrow> nodes st1 a = nodes st a"
  note same = failed_same [OF 1(1) refl 1(2)]
  show "\<exists>done st2. json_object_set_value_h mem obj name (Some v) st1 = Some (done, st2) \<and>
      (if done then mem_ok st2 else store_failed st1 v st2)"
  proof (cases "obj = None \<or> name = None")
    case True
    then show ?thesis using same
      by (intro exI [of _ False] exI [of _ st1]) (auto simp: json_object_set_value_h_def split: option.split)
  next
    case False
    then obtain a s where av: "obj = Some a" "name = Some s" by auto
    obtain n ob where a: "nodes st a = Some n" "node_content n = CObject ob" using p(1) av by (auto elim: object_ptrE)
    have ad: "a \<in> dom (nodes st)" using a(1) by auto
    have a1: "nodes st1 a = Some n" "a \<noteq> v" using 1(5) [OF ad] a(1) 1(4) ad by auto
    have s: "is_cstring s" using p(2) av by (simp add: name_ok_def)
    obtain fin st2 where 2: "json_object_set_value_h mem (Some a) (Some s) (Some v) st1 = Some (fin, st2)" "mem_ok st2"
      "\<not> fin \<Longrightarrow> same_members st1 a n ob st2"
      using json_object_set_value_h_ok [OF 1(1) a1(1) a(2) s 1(2) _ 1(3) [OF a1(2)], where mem = mem] by auto
    have "store_failed st1 v st2" if "\<not> fin"
    proof -
      have "nodes st2 v = nodes st1 v" using 2(3) [OF that] a1(2) by (auto simp: same_members_def)
      then have "nodes (reset v st2) = nodes st2" using 1(2) by (simp add: nodes_reset reparent_same)
      then show ?thesis using 2(2) same_members_values [OF a1(1) a(2) 2(3) [OF that]]
        by (simp add: store_failed_def mem_ok_def)
    qed
    then show ?thesis using av 2(1,2) by (intro exI [of _ fin] exI [of _ st2]) simp
  qed
qed

lemma dotset_scalar_succeeds:
  assumes ok: "mem_ok st" and p: "object_ptr st obj" "is_cstring name"
  shows "\<exists>done st'. json_object_dotset_scalar mem obj name sc st = Some (done, st') \<and> mem_ok st' \<and>
    (\<not> done \<longrightarrow> same_values (nodes st) (nodes st'))"
  unfolding json_object_dotset_scalar_def
proof (rule store_scalar_ok [OF ok])
  fix v st1 c
  assume 1: "mem_ok st1" "nodes st1 v = Some \<lparr>node_parent = None, node_content = c\<rparr>"
    "\<And>a. a \<noteq> v \<Longrightarrow> a \<notin> below (nodes st1) v" "v \<notin> dom (nodes st)"
    "\<And>a. a \<in> dom (nodes st) \<Longrightarrow> nodes st1 a = nodes st a"
  show "\<exists>done st2. json_object_dotset_value_h mem obj name (Some v) st1 = Some (done, st2) \<and>
      (if done then mem_ok st2 else store_failed st1 v st2)"
  proof (cases obj)
    case None
    then show ?thesis using failed_same [OF 1(1) refl 1(2)]
      by (intro exI [of _ False] exI [of _ st1]) (simp add: json_object_dotset_value_h.simps)
  next
    case (Some a)
    obtain n ob where a: "nodes st a = Some n" "node_content n = CObject ob" using p(1) Some by (auto elim: object_ptrE)
    have ad: "a \<in> dom (nodes st)" using a(1) by auto
    have a1: "nodes st1 a = Some n" "a \<noteq> v" using 1(5) [OF ad] a(1) 1(4) ad by auto
    obtain fin st2 where 2: "json_object_dotset_value_h mem (Some a) name (Some v) st1 = Some (fin, st2)"
      "if fin then dotset_done st1 a name v st2 else store_failed st1 v st2"
      using dotset_ok [OF 1(1,2) _ a1(1) a(2) 1(3) [OF a1(2)] p(2), where mem = mem] by auto
    then show ?thesis using Some by (intro exI [of _ fin] exI [of _ st2]) (cases fin; simp add: dotset_done_def)
  qed
qed

text \<open>A value that has a parent is refused, and the objects made for the path are freed again.\<close>

lemma dotset_refused:
  assumes "mem_ok st" "nodes st v = Some m" "node_parent m \<noteq> None" "object_ptr st (Some a)"
  shows "\<exists>st'. json_object_dotset_value_h mem (Some a) name (Some v) st = Some (False, st') \<and> mem_ok st' \<and> nodes st' = nodes st"
  using assms
proof (induction "length name" arbitrary: a name st rule: less_induct)
  case less
  obtain n ob where a: "nodes st a = Some n" "node_content n = CObject ob" using less.prems(4) by (rule object_ptrE)
  then have at: "object_at st a = Some ob" by (simp add: object_at_iff)
  have t: "table_ok ob" using forestD(5) [OF mem_okD [OF less.prems(1)] a(1)] a(2) by simp
  show ?case
  proof (cases "dot_position name")
    case None
    then show ?thesis using dotset_plain [OF None] less.prems(1-3) by (simp add: json_object_set_value_h_def)
  next
    case (Some dot)
    note run = json_object_dotset_value_h.simps [of mem "Some a" name "Some v" st]
    have got: "json_object_getn_value ob name dot = obj_map ob (take dot name)"
      using json_object_getn_value_eq [OF t, of dot name] dot_position_less [OF Some] by simp
    have shorter: "length (drop (dot + 1) name) < length name" using dot_position_less [OF Some] by simp
    show ?thesis
    proof (cases "obj_map ob (take dot name)")
      case (Some u)
      then have "u \<in> set (links n)" using obj_map_value a(2) by fastforce
      then obtain k where k: "nodes st u = Some k"
        using forestD(3) [OF mem_okD [OF less.prems(1)] a(1)] by (force simp: child_def)
      show ?thesis
      proof (cases "\<exists>obj2. node_content k = CObject obj2")
        case False
        then show ?thesis using run \<open>dot_position name = Some dot\<close> at got Some k less.prems(1) by (auto split: json_content.split)
      next
        case True
        then have "object_ptr st (Some u)" using k by (auto simp: object_ptr_def object_at_iff)
        from less.hyps [OF shorter less.prems(1-3) this]
        show ?thesis using run \<open>dot_position name = Some dot\<close> at got Some k True by auto
      qed
    next
      case None
      obtain cp st1 where i: "json_value_init_object_h mem st = (cp, st1)" by fastforce
      have made: "made (node_content empty_object) st (cp, st1)"
        using init_container_made [of "node_content empty_object" st mem SIZEOF_OBJECT] i
        by (simp add: json_value_init_object_h_def)
      have ok1: "mem_ok st1" using made_ok(1) [OF less.prems(1) made] by (simp add: empty_table_ok)
      show ?thesis
      proof (cases cp)
        case None
        then have "nodes st1 = nodes st" using made by (simp add: made_def)
        then show ?thesis using run \<open>dot_position name = Some dot\<close> at got \<open>obj_map ob (take dot name) = None\<close> i None ok1 by simp
      next
        case (Some r)
        then have c: "copied st r st1" "nodes st1 r = Some empty_object"
          using copied_made [OF less.prems(1), of "node_content empty_object" r st1] made by (simp_all add: empty_table_ok)
        have "nodes st \<subseteq>\<^sub>m nodes st1" using c(1) by (simp add: copied_def)
        then have "nodes st1 v = Some m" using less.prems(2) by (rule map_leD)
        moreover have "object_ptr st1 (Some r)" using c(2) by (simp add: object_ptr_def object_at_def)
        ultimately obtain st2 where 2: "json_object_dotset_value_h mem (Some r) (drop (dot + 1) name) (Some v) st1 = Some (False, st2)"
          "mem_ok st2" "nodes st2 = nodes st1"
          using less.hyps [OF shorter ok1 _ less.prems(3)] by blast
        have "copied st r st2" using c(1) 2(3) by (simp add: copied_def)
        from copied_free [OF less.prems(1) 2(2) this] obtain st3 where
          "json_value_free (Some r) st2 = Some st3" "mem_ok st3" "nodes st3 = nodes st" by blast
        then show ?thesis using run \<open>dot_position name = Some dot\<close> at got \<open>obj_map ob (take dot name) = None\<close> i Some 2(1) by simp
      qed
    qed
  qed
qed

text \<open>A value that could not be stored can be freed, whatever its parent pointer says.\<close>

lemma free_failed:
  assumes f: "store_failed st v st'" and v: "nodes st v = Some m" "node_parent m = None"
  shows "\<exists>st2. json_value_free (Some v) st' = Some st2 \<and> mem_ok st2"
proof -
  have ok: "mem_ok (reset v st')" using f by (simp add: store_failed_def)
  have "rel_option same_node (nodes st v) (nodes (reset v st') v)" using f by (simp add: store_failed_def same_values_def)
  then obtain k where k: "nodes (reset v st') v = Some k" "node_parent k = None"
    using v by (cases "nodes (reset v st') v") (auto simp: same_node_def)
  obtain s where s: "json_value_free (Some v) (reset v st') = Some s" "mem_ok s"
    "nodes s = without (nodes (reset v st')) (below (nodes (reset v st')) v)" "brk s = brk (reset v st')"
    using json_value_free_root [OF ok, of v] k by (auto simp: is_root_def)
  have gone: "nodes s v = None" using s(3) below_self by (simp add: without_def)
  have free: "free_values (reparent v None (nodes st')) [v] = Some (nodes s)"
    using s(1) by (auto simp: json_value_free_def free_all_def bind_eq_Some_conv nodes_reset simp del: free_values_simps)
  define q where "q = (case nodes st' v of None \<Rightarrow> None | Some k \<Rightarrow> node_parent k)"
  have q: "reparent v q (reparent v None (nodes st')) = nodes st'"
    by (cases "nodes st' v"; simp add: q_def reparent_same)
  have "reparent v q (nodes s) = nodes s" using gone by (simp add: reparent_same)
  then have "free_values (nodes st') [v] = Some (nodes s)" using free_values_reparent [OF free, of v q] q by simp
  then have "json_value_free (Some v) st' = Some (st'\<lparr>nodes := nodes s\<rparr>)"
    by (simp add: json_value_free_def free_all_def del: free_values_simps)
  moreover have "mem_ok (st'\<lparr>nodes := nodes s\<rparr>)" using s(2,4) by (simp add: mem_ok_def)
  ultimately show ?thesis by blast
qed

text \<open>
  The call on a value of the caller returns; memory is sound afterwards unless it failed and left the
  value's parent pointer on a freed object, and even then once that value is freed.
\<close>

lemma dotset_succeeds:
  assumes ok: "mem_ok st" and p: "object_ptr st obj" "is_cstring name" "storable st obj val"
  shows "\<exists>done st'. json_object_dotset_value_h mem obj name val st = Some (done, st') \<and>
    (done \<or> \<not> left_stale st val st' \<longrightarrow> mem_ok st') \<and>
    (\<not> done \<longrightarrow> (case val of None \<Rightarrow> True | Some v \<Rightarrow> is_root (nodes st) v) \<longrightarrow>
       (\<exists>st2. json_value_free val st' = Some st2 \<and> mem_ok st2))"
proof (cases "obj = None \<or> val = None")
  case True
  then have "json_object_dotset_value_h mem obj name val st = Some (False, st)"
    by (subst json_object_dotset_value_h.simps) (auto split: option.split)
  moreover have "\<exists>st2. json_value_free val st = Some st2 \<and> mem_ok st2"
    if "case val of None \<Rightarrow> True | Some v \<Rightarrow> is_root (nodes st) v"
    using that ok json_value_free_root [OF ok] by (cases val) (auto simp: json_value_free_def)
  ultimately show ?thesis using ok by (intro exI [of _ False] exI [of _ st]) simp
next
  case False
  then obtain a v where av: "obj = Some a" "val = Some v" by auto
  obtain n ob where a: "nodes st a = Some n" "node_content n = CObject ob" using p(1) av(1) by (auto elim: object_ptrE)
  obtain m where m: "nodes st v = Some m" using p(3) av by (auto simp: storable_def)
  show ?thesis
  proof (cases "node_parent m")
    case None
    then have "a \<notin> below (nodes st) v" using p(3) av m by (auto simp: storable_def is_root_def)
    then obtain fin st' where d: "json_object_dotset_value_h mem (Some a) name (Some v) st = Some (fin, st')"
      "if fin then dotset_done st a name v st' else store_failed st v st'"
      using dotset_ok [OF ok m None a _ p(2), of mem] by blast
    show ?thesis
    proof (cases fin)
      case True
      then show ?thesis using d av by (intro exI [of _ True] exI [of _ st']) (simp add: dotset_done_def)
    next
      case False
      then have f: "store_failed st v st'" using d(2) by simp
      have "mem_ok st'" if "\<not> left_stale st val st'"
      proof -
        have "map_option node_parent (nodes st' v) = Some None" using that m None av(2) by (simp add: left_stale_def)
        then have "nodes (reset v st') = nodes st'" by (auto simp: nodes_reset intro!: reparent_same)
        then show ?thesis using f by (simp add: store_failed_def mem_ok_def)
      qed
      then show ?thesis using d(1) av False free_failed [OF f m None]
        by (intro exI [of _ False] exI [of _ st']) simp
    qed
  next
    case (Some q)
    then obtain st' where "json_object_dotset_value_h mem (Some a) name (Some v) st = Some (False, st')" "mem_ok st'"
      using dotset_refused [OF ok m _, of a mem name] p(1) av(1) by auto
    then show ?thesis using av m Some by (intro exI [of _ False] exI [of _ st']) (simp add: is_root_def)
  qed
qed

lemma remove_member_succeeds:
  assumes ok: "mem_ok st" and p: "object_ptr st (Some a)"
  shows "succeeds (json_object_remove_internal_h a name True st)"
proof -
  obtain n ob where a: "nodes st a = Some n" "node_content n = CObject ob" using p by (rule object_ptrE)
  then show ?thesis using json_object_remove_internal_h_ok [OF ok a, of name] by blast
qed

lemma dotremove_succeeds:
  assumes ok: "mem_ok st"
  shows "object_ptr st (Some a) \<Longrightarrow> succeeds (json_object_dotremove_internal_h a name True st)"
proof (induction "length name" arbitrary: a name rule: less_induct)
  case less
  note run = json_object_dotremove_internal_h.simps [of a name True st]
  obtain n ob where a: "nodes st a = Some n" "node_content n = CObject ob" using less.prems by (rule object_ptrE)
  then have at: "object_at st a = Some ob" by (simp add: object_at_iff)
  have t: "table_ok ob" using forestD(5) [OF mem_okD [OF ok] a(1)] a(2) by simp
  show ?case
  proof (cases "dot_position name")
    case None
    then show ?thesis using run remove_member_succeeds [OF ok less.prems, of name] by simp
  next
    case (Some dot)
    have got: "json_object_getn_value ob name dot = obj_map ob (take dot name)"
      using json_object_getn_value_eq [OF t, of dot name] dot_position_less [OF Some] by simp
    show ?thesis
    proof (cases "obj_map ob (take dot name)")
      case None
      then show ?thesis using run Some at got ok by simp
    next
      case u: (Some u)
      then have "u \<in> set (links n)" using obj_map_value a(2) by fastforce
      then obtain k where k: "nodes st u = Some k" using forestD(3) [OF mem_okD [OF ok] a(1)] by (force simp: child_def)
      show ?thesis
      proof (cases "\<exists>obj2. node_content k = CObject obj2")
        case False
        then show ?thesis using run Some at got u k ok by (auto split: json_content.split)
      next
        case True
        then have p: "object_ptr st (Some u)" using k by (auto simp: object_ptr_def object_at_iff)
        have "length (drop (dot + 1) name) < length name" using dot_position_less [OF Some] by simp
        from less.hyps [OF this p] show ?thesis using run Some at got u k True by auto
      qed
    qed
  qed
qed

lemma clear_succeeds:
  assumes ok: "mem_ok st"
  shows "array_ptr st arr \<Longrightarrow> succeeds (json_array_clear_h arr st)"
    and "object_ptr st obj \<Longrightarrow> succeeds (json_object_clear_h obj st)"
proof -
  show "succeeds (json_array_clear_h arr st)" if "array_ptr st arr"
    using that json_array_clear_ok [OF ok] ok
    by (cases arr) (auto simp: json_array_clear_h_def elim!: array_ptrE, blast)
  show "succeeds (json_object_clear_h obj st)" if "object_ptr st obj"
    using that json_object_clear_h_ok [OF ok] ok
    by (cases obj) (auto simp: json_object_clear_h_def elim!: object_ptrE, blast)
qed

lemma deep_copy_succeeds:
  assumes ok: "mem_ok st" and v: "v \<in> dom (nodes st)"
  shows "\<exists>copy st'. json_value_deep_copy_h mem (Some v) st = Some (copy, st') \<and> mem_ok st' \<and>
    (all_granted mem \<longrightarrow> copy \<noteq> None) \<and>
    (case copy of
       None \<Rightarrow> nodes st' = nodes st
     | Some c \<Rightarrow> copied st c st' \<and> (\<forall>j. denotes (nodes st) v j \<longrightarrow> denotes (nodes st') c j))"
proof -
  obtain j where j: "denotes (nodes st) v j" using denotes_exists [OF mem_okD [OF ok] v] by blast
  have "copies mem (nodes st) v j" by (rule deep_copy_copies [OF mem_okD [OF ok] j])
  then obtain copy st' where c: "json_value_deep_copy_h mem (Some v) st = Some (copy, st')" "mem_ok st'"
    "all_granted mem \<longrightarrow> copy \<noteq> None"
    "case copy of None \<Rightarrow> nodes st' = nodes st | Some c \<Rightarrow> copied st c st' \<and> denotes (nodes st') c j"
    using ok map_le_refl unfolding copies_def by blast
  moreover have "case copy of None \<Rightarrow> nodes st' = nodes st
      | Some c \<Rightarrow> copied st c st' \<and> (\<forall>j. denotes (nodes st) v j \<longrightarrow> denotes (nodes st') c j)"
    using c(4) denotes_unique [OF j] by (auto split: option.splits)
  ultimately show ?thesis by blast
qed

lemma run_snd: "succeeds r \<Longrightarrow> \<exists>st'. map_option snd r = Some st' \<and> mem_ok st'"
  by auto

lemma weaken: "\<exists>x st'. r = Some (x, st') \<and> mem_ok st' \<and> Q x st' \<Longrightarrow> succeeds r"
  by blast

lemma call_succeeds:
  assumes ok: "mem_ok st" and al: "allowed mem st call"
  shows "\<exists>st'. run_call mem st call = Some st' \<and> mem_ok st'"
proof (cases call)
  case (Make sc)
  obtain cp st1 where i: "init_scalar mem sc st = (cp, st1)" by fastforce
  then show ?thesis using init_scalar_made [of st mem sc] made_ok(1) [OF ok] Make by fastforce
next
  case Make_Array
  obtain cp st1 where i: "json_value_init_array_h mem st = (cp, st1)" by fastforce
  then show ?thesis
    using made_ok(1) [OF ok, of _ cp st1] init_container_made [of "CArray (JSON_Array [] 0)" st mem SIZEOF_ARRAY] Make_Array
    by (auto simp: json_value_init_array_h_def)
next
  case Make_Object
  obtain cp st1 where i: "json_value_init_object_h mem st = (cp, st1)" by fastforce
  then show ?thesis
    using made_ok(1) [OF ok, of _ cp st1] init_container_made [of "node_content empty_object" st mem SIZEOF_OBJECT] Make_Object
    by (auto simp: json_value_init_object_h_def empty_table_ok)
next
  case (Deep_Copy v)
  show ?thesis
  proof (cases v)
    case (Some a)
    then have "a \<in> dom (nodes st)" using Deep_Copy al by simp
    from deep_copy_succeeds [OF ok this, of mem] show ?thesis using Deep_Copy Some by auto
  qed (use Deep_Copy ok in \<open>simp add: json_value_deep_copy_h_def\<close>)
next
  case (Free v)
  show ?thesis
  proof (cases v)
    case (Some a)
    then have "is_root (nodes st) a" using Free al by simp
    from json_value_free_root [OF ok this] show ?thesis using Free Some by auto
  qed (use Free ok in \<open>simp add: json_value_free_def\<close>)
next
  case (Append arr v)
  then show ?thesis using run_snd [OF append_succeeds [OF ok, of arr v mem]] al by simp
next
  case (Append_Scalar arr sc)
  then show ?thesis using run_snd [OF weaken [OF append_scalar_succeeds [OF ok, of arr mem sc]]] al by simp
next
  case (Replace arr ix v)
  then show ?thesis using run_snd [OF replace_succeeds [OF ok, of arr v ix]] al by simp
next
  case (Replace_Scalar arr ix sc)
  then show ?thesis using run_snd [OF weaken [OF replace_scalar_succeeds [OF ok, of arr mem ix sc]]] al by simp
next
  case (Remove_Item arr ix)
  then show ?thesis using run_snd [OF remove_item_succeeds [OF ok, of arr ix]] al by simp
next
  case (Clear_Array arr)
  then show ?thesis using run_snd [OF clear_succeeds(1) [OF ok, of arr]] al by simp
next
  case (Set_Member obj name v)
  then show ?thesis using run_snd [OF set_member_succeeds [OF ok, of obj name v mem]] al by simp
next
  case (Set_Scalar obj name sc)
  then show ?thesis using run_snd [OF weaken [OF set_scalar_succeeds [OF ok, of obj name mem sc]]] al by simp
next
  case (Dotset_Scalar obj name sc)
  then show ?thesis using run_snd [OF weaken [OF dotset_scalar_succeeds [OF ok, of obj name mem sc]]] al by simp
next
  case (Dotset obj name v)
  then obtain fin st' where "json_object_dotset_value_h mem obj name v st = Some (fin, st')"
    "fin \<or> \<not> left_stale st v st' \<longrightarrow> mem_ok st'"
    using dotset_succeeds [OF ok, of obj name v mem] al by auto
  then show ?thesis using al Dotset by (cases fin) (auto simp: dotset_undone_def)
next
  case (Dotset_Or_Free obj name v)
  then obtain fin st' where "json_object_dotset_value_h mem obj name v st = Some (fin, st')" "fin \<longrightarrow> mem_ok st'"
    "\<not> fin \<longrightarrow> (\<exists>st2. json_value_free v st' = Some st2 \<and> mem_ok st2)"
    using dotset_succeeds [OF ok, of obj name v mem] al by auto
  then show ?thesis using Dotset_Or_Free by (cases fin) auto
next
  case (Remove_Member a name)
  then show ?thesis using run_snd [OF remove_member_succeeds [OF ok, of a name]] al by simp
next
  case (Dotremove a name)
  then show ?thesis using run_snd [OF dotremove_succeeds [OF ok, of a name]] al by simp
next
  case (Clear_Object obj)
  then show ?thesis using run_snd [OF clear_succeeds(2) [OF ok, of obj]] al by simp
qed


section \<open>Runs\<close>

definition empty_mem :: json_mem where
  "empty_mem = \<lparr>nodes = (\<lambda>_. None), brk = 0, requests = 0\<rparr>"

inductive call_step :: "grants \<Rightarrow> json_mem \<Rightarrow> heap_call \<Rightarrow> json_mem \<Rightarrow> bool" for mem where
  call_step_intro: "allowed mem st call \<Longrightarrow> run_call mem st call = Some st' \<Longrightarrow> call_step mem st call st'"

inductive_simps call_step_simps [step_simps]: "call_step mem st call st'"

interpretation parson_calls: stable "call_step mem" mem_ok
proof unfold_locales
  fix st call st'
  assume "call_step mem st call st'" "mem_ok st"
  then show "mem_ok st'" using call_succeeds [of st mem call] by (auto simp: call_step_simps)
qed

lemma empty_mem_ok: "mem_ok empty_mem"
proof -
  have "child (\<lambda>_. None) = {}" by (auto simp: child_def)
  then show ?thesis by (auto simp: mem_ok_def empty_mem_def intro!: forestI simp: acyclic_def)
qed

lemma run_mem_ok: "run (call_step mem) empty_mem calls st \<Longrightarrow> mem_ok st"
  using parson_calls.run_inv empty_mem_ok by blast

text \<open>Freeing values one after the other is freeing the list of them.\<close>

lemma free_each: "for_each (\<lambda>st v. json_value_free (Some v) st) st vs = free_all vs st"
proof (induction vs arbitrary: st)
  case (Cons v vs)
  show ?case
  proof (cases "free_values (nodes st) [v]")
    case None
    have "free_values (nodes st) (v # vs) = None"
      using None by (auto simp: bind_eq_None_conv split: Option.bind_splits)
    then show ?thesis using None by (simp add: json_value_free_def free_all_def del: free_values_simps)
  next
    case (Some h)
    then have "free_values (nodes st) (v # vs) = free_values h vs"
      by (auto simp: bind_eq_Some_conv)
    then show ?thesis using Some Cons [of "st\<lparr>nodes := h\<rparr>"]
      by (simp add: json_value_free_def free_all_def del: free_values_simps)
  qed
qed (simp add: free_all_def)

lemma below_some_root:
  assumes f: "forest h"
  shows "x \<in> dom h \<Longrightarrow> \<exists>r. is_root h r \<and> x \<in> below h r"
proof -
  have "child h \<subseteq> dom h \<times> dom h" using forestD(4) [OF f] by (force dest: child_dom)
  then have "finite (child h)" using forestD(1) [OF f] by (meson finite_SigmaI finite_subset)
  then have "wf ((child h)\<inverse>)" using forestD(2) [OF f] by (rule finite_acyclic_wf_converse)
  then show "x \<in> dom h \<Longrightarrow> \<exists>r. is_root h r \<and> x \<in> below h r"
  proof (induction x rule: wf_induct_rule)
    case (less x)
    then obtain n where n: "h x = Some n" by auto
    show ?case
    proof (cases "node_parent n")
      case None
      then show ?thesis using n below_self by (auto simp: is_root_def)
    next
      case (Some p)
      then have xp: "(x, p) \<in> child h" using n by (auto simp: child_def)
      then have "p \<in> dom h" using forestD(4) [OF f xp] by auto
      then obtain r where "is_root h r" "p \<in> below h r" using less.IH [of p] xp by auto
      then show ?thesis using below_child [OF xp] by blast
    qed
  qed
qed

lemma free_roots_empty:
  assumes ok: "mem_ok st" and rs: "distinct rs" "set rs = {a. is_root (nodes st) a}"
  shows "free_all rs st = Some (st\<lparr>nodes := (\<lambda>_. None)\<rparr>)"
proof -
  have f: "forest (nodes st)" by (rule mem_okD [OF ok])
  have "apart (nodes st) rs"
    using rs below_parent root_no_parent by (fastforce simp: apart_def is_root_def)
  then have "free_all rs st = Some (st\<lparr>nodes := without (nodes st) (\<Union>v \<in> set rs. below (nodes st) v)\<rparr>)"
    by (rule free_all_ok [OF ok])
  moreover have "without (nodes st) (\<Union>v \<in> set rs. below (nodes st) v) = (\<lambda>_. None)"
  proof
    fix x
    show "without (nodes st) (\<Union>v \<in> set rs. below (nodes st) v) x = None"
    proof (cases "x \<in> dom (nodes st)")
      case True
      then have "x \<in> (\<Union>v \<in> set rs. below (nodes st) v)" using below_some_root [OF f] rs(2) by blast
      then show ?thesis by simp
    next
      case False
      then show ?thesis by (simp add: without_def domIff)
    qed
  qed
  ultimately show ?thesis by simp
qed

section \<open>What the operations denote\<close>

definition same_item :: "json_nodes \<Rightarrow> string \<times> nat \<Rightarrow> string \<times> json \<Rightarrow> bool" where
  "same_item h x y \<longleftrightarrow> fst x = fst y \<and> denotes h (snd x) (snd y)"

lemma denotes_object:
  assumes "h a = Some n" "node_content n = CObject obj" "table_ok obj"
  shows "denotes h a j \<longleftrightarrow> (\<exists>its. j = Obj its \<and> list_all2 (same_item h) (obj_items obj) its)"
proof
  assume "denotes h a j"
  then obtain js where js: "list_all2 (denotes h) (obj_values obj) js" "j = Obj (zip (names obj) js)"
    using assms by (auto simp: denotes_node)
  then have "list_all2 (same_item h) (obj_items obj) (zip (names obj) js)"
    using table_okD(6) [OF assms(3)] by (auto simp: list_all2_conv_all_nth obj_items_def same_item_def)
  then show "\<exists>its. j = Obj its \<and> list_all2 (same_item h) (obj_items obj) its" using js(2) by blast
next
  assume "\<exists>its. j = Obj its \<and> list_all2 (same_item h) (obj_items obj) its"
  then obtain its where its: "j = Obj its" "list_all2 (same_item h) (obj_items obj) its" by blast
  then have len: "length its = length (names obj)" using assms(3) by (auto dest: list_all2_lengthD)
  have "zip (names obj) (map snd its) = its"
    using its(2) len table_okD(6) [OF assms(3)]
    by (intro nth_equalityI) (auto simp: list_all2_conv_all_nth obj_items_def same_item_def prod_eq_iff)
  moreover have "list_all2 (denotes h) (obj_values obj) (map snd its)"
    using its(2) len table_okD(6) [OF assms(3)]
    by (auto simp: list_all2_conv_all_nth obj_items_def same_item_def)
  ultimately show "denotes h a j" using assms(1,2) its(1) by (auto simp: denotes_node)
qed

lemma list_all2_update:
  assumes "list_all2 (\<lambda>x y. fst x = fst y \<and> (fst x \<noteq> k \<longrightarrow> P (snd x) (snd y))) xs ys" "distinct (map fst xs)" "P v j"
  shows "list_all2 (\<lambda>x y. fst x = fst y \<and> P (snd x) (snd y)) (AList.update k v xs) (AList.update k j ys)"
  using assms
proof (induction rule: list_all2_induct)
  case (Cons x xs y ys)
  obtain a w b i where xy: "x = (a, w)" "y = (b, i)" by (cases x; cases y) auto
  show ?case
  proof (cases "a = k")
    case True
    then have "\<forall>x \<in> set xs. fst x \<noteq> k" using Cons.prems(1) xy(1) by auto
    then have "list_all2 (\<lambda>x y. fst x = fst y \<and> P (snd x) (snd y)) xs ys"
      using Cons.hyps(2) by (auto simp: list_all2_conv_all_nth)
    then show ?thesis using True Cons.hyps(1) Cons.prems(2) xy by simp
  next
    case False
    then show ?thesis using Cons.IH Cons.hyps(1) Cons.prems xy by simp
  qed
qed simp

lemma below_disjoint:
  assumes f: "forest h" and c: "(old, a) \<in> child h" and x: "a \<notin> below h x" "x \<notin> below h old"
  shows "below h x \<inter> below h old = {}"
proof -
  have "old \<notin> below h x"
  proof
    assume "old \<in> below h x"
    moreover have "old \<noteq> x" using x(2) by auto
    ultimately have "a \<in> below h x" using below_parent child_functional [OF c] by blast
    then show False using x(1) by simp
  qed
  then show ?thesis using below_comparable [of _ h x old] x(2) by blast
qed

lemma root_below_child: "is_root h x \<Longrightarrow> (old, a) \<in> child h \<Longrightarrow> x \<notin> below h old"
  using below_parent root_no_parent by blast

lemma set_member_frame:
  assumes f: "forest (nodes st)" and a: "nodes st a = Some n" "node_content n = CObject obj" and v: "nodes st v = Some m"
    and s: "sets_member st a n obj name v m st'"
    and x: "a \<notin> below (nodes st) x" "\<And>old. obj_map obj name = Some old \<Longrightarrow> x \<notin> below (nodes st) old"
  shows "same_below (nodes st) x (nodes st')"
proof -
  have "y \<notin> (case obj_map obj name of None \<Rightarrow> {} | Some old \<Rightarrow> below (nodes st) old)" if "y \<in> below (nodes st) x" for y
  proof (cases "obj_map obj name")
    case (Some old)
    then have "old \<in> set (links n)" using obj_map_value a(2) by fastforce
    then have "(old, a) \<in> child (nodes st)" by (rule forestD(3) [OF f a(1)])
    then show ?thesis using below_disjoint [OF f _ x(1) x(2) [OF Some]] that Some by auto
  qed simp
  then show ?thesis using s x(1) v by (auto simp: sets_member_def same_below_def)
qed

lemma set_member_denotes:
  assumes ok: "mem_ok st" and a: "nodes st a = Some n" "node_content n = CObject obj"
    and v: "is_root (nodes st) v" "nodes st v = Some m" "a \<notin> below (nodes st) v" "denotes (nodes st) v j"
    and s: "sets_member st a n obj name v m st'" and its: "denotes (nodes st) a (Obj its)"
  shows "denotes (nodes st') a (Obj (AList.update name j its))"
proof -
  have f: "forest (nodes st)" by (rule mem_okD [OF ok])
  have t: "table_ok obj" "distinct (obj_values obj)" using forestD(5) [OF f a(1)] a(2) by simp_all
  have av: "a \<noteq> v" using v(3) by auto
  obtain obj' where o: "nodes st' a = Some (n\<lparr>node_content := CObject obj'\<rparr>)" "table_ok obj'"
      "obj_items obj' = AList.update name v (obj_items obj)"
    using s av by (auto simp: sets_member_def)
  have linked: "(old, a) \<in> child (nodes st)" if "obj_map obj name = Some old" for old
    using that obj_map_value a(2) forestD(3) [OF f a(1)] by fastforce
  have vj: "denotes (nodes st') v j"
    using denotes_frame [OF f v(4)] set_member_frame [OF f a v(2) s v(3)] root_below_child [OF v(1)] linked by blast
  have items: "list_all2 (same_item (nodes st)) (obj_items obj) its"
    using its denotes_object [of "nodes st" a n obj, OF a t(1)] by auto
  have "denotes (nodes st') w i" if w: "(k, w) \<in> set (obj_items obj)" "k \<noteq> name" "denotes (nodes st) w i" for k w i
  proof -
    have wl: "w \<in> set (links n)" using w(1) a(2) t(1) by (force simp: obj_values_items)
    have "w \<notin> below (nodes st) old" if m: "obj_map obj name = Some old" for old
    proof -
      have "(name, old) \<in> set (obj_items obj)" using m by (auto simp: obj_map_def dest: map_of_SomeD)
      moreover have "inj_on snd (set (obj_items obj))"
        using t by (simp add: obj_values_items distinct_map)
      ultimately have "w \<noteq> old" using w(1,2) unfolding inj_on_def by fastforce
      moreover have "old \<in> set (links n)" using obj_map_value [OF m] a(2) by simp
      ultimately show ?thesis using apart_links [OF f a(1)] wl by (simp add: apart_def)
    qed
    then show ?thesis
      using denotes_frame [OF f w(3)] set_member_frame [OF f a v(2) s below_not_member [OF f a(1) wl]] by blast
  qed
  then have "list_all2 (\<lambda>x y. fst x = fst y \<and> (fst x \<noteq> name \<longrightarrow> denotes (nodes st') (snd x) (snd y))) (obj_items obj) its"
    using items by (auto simp: list_all2_conv_all_nth same_item_def) (metis nth_mem prod.collapse)
  then have "list_all2 (same_item (nodes st')) (obj_items obj') (AList.update name j its)"
    using list_all2_update [of name "denotes (nodes st')" "obj_items obj" its v j] vj t(1) table_okD(8) [OF t(1)] o(3)
    by (simp add: same_item_def [abs_def])
  then show ?thesis using denotes_object [of "nodes st'" a "n\<lparr>node_content := CObject obj'\<rparr>" obj'] o(1,2) by simp
qed

section \<open>A container in itself\<close>

lemma free_values_loop:
  "free_values h vs = Some h' \<Longrightarrow> h a = Some n \<Longrightarrow> a \<in> set (links n) \<Longrightarrow> a \<notin> set vs \<and> h' a = Some n"
proof (induction h vs h' rule: free_values.raw_induct [rotated, consumes 1, case_names step])
  case (step free h vs h')
  show ?case
  proof (cases vs)
    case Nil
    then show ?thesis using step(2) step.prems by simp
  next
    case (Cons w rest)
    from step(2) Cons obtain k h1 k1 where
      s: "h w = Some k" "free h (links k) = Some h1" "h1 w = Some k1" "free (h1(w := None)) rest = Some h'"
      by (auto simp: bind_eq_Some_conv)
    have 1: "a \<notin> set (links k)" "h1 a = Some n" using step(1) [OF s(2) step.prems] by auto
    then have w: "w \<noteq> a" using s(1) step.prems by auto
    then have "(h1(w := None)) a = Some n" using 1(2) by simp
    from step(1) [OF s(4) this step.prems(2)] show ?thesis using Cons w by auto
  qed
qed


section \<open>Properties\<close>

text \<open>
  C20: freeing a value that no container holds returns, whatever hangs below it; exactly the blocks
  below it are freed, each once, and the rest of the memory is as before and still a forest.
\<close>

theorem json_value_free_frees_tree:
  assumes "mem_ok st" "is_root (nodes st) v"
  shows "\<exists>st'. json_value_free (Some v) st = Some st' \<and> mem_ok st' \<and>
    (\<forall>x. nodes st' x = (if x \<in> below (nodes st) v then None else nodes st x))"
  using json_value_free_root [OF assms] by (auto simp: without_def)

text \<open>
  C2: whatever a program does with arrays and objects through the calls of \<open>heap_call\<close>, respecting what a caller must
  respect, and whatever memory is refused on the way, the blocks stay a forest with matching links
  and parent pointers and sound tables, and the next such call returns: no freed block is used, none is freed twice.
  One case is excepted: a failing \<open>json_object_dotset_value\<close> that left the value's parent pointer on a freed
  object, for a caller who keeps that value; a caller who frees it is covered.
\<close>

theorem heap_calls_safe:
  assumes "run (call_step mem) empty_mem calls st"
  shows "forest (nodes st) \<and> (\<forall>call. allowed mem st call \<longrightarrow> (\<exists>st'. run_call mem st call = Some st'))"
  using run_mem_ok [OF assms] call_succeeds [of st mem] mem_okD by blast

text \<open>
  C7: no block is lost: after any such run, freeing the values that no container holds, in any order,
  returns and leaves no block.
\<close>

theorem no_block_is_lost:
  assumes "run (call_step mem) empty_mem calls st" "distinct rs" "set rs = {a. is_root (nodes st) a}"
  shows "\<exists>st'. for_each (\<lambda>st v. json_value_free (Some v) st) st rs = Some st' \<and> nodes st' = (\<lambda>_. None)"
  using free_roots_empty [OF run_mem_ok [OF assms(1)] assms(2,3)] by (simp add: free_each)

text \<open>
  C15: a deep copy is all or nothing.  It gives a new root whose blocks are all new, which denotes what
  the original denotes, with every old block unchanged; or, only when memory is refused, it gives NULL,
  with every block it had made freed again.
\<close>

theorem json_value_deep_copy_all_or_nothing:
  assumes "mem_ok st" "v \<in> dom (nodes st)"
  shows "\<exists>copy st'. json_value_deep_copy_h mem (Some v) st = Some (copy, st') \<and> mem_ok st' \<and>
    (all_granted mem \<longrightarrow> copy \<noteq> None) \<and>
    (case copy of
       None \<Rightarrow> nodes st' = nodes st
     | Some c \<Rightarrow> is_root (nodes st') c \<and> below (nodes st') c \<inter> dom (nodes st) = {} \<and> nodes st \<subseteq>\<^sub>m nodes st' \<and>
         (\<forall>j. denotes (nodes st) v j \<longrightarrow> denotes (nodes st') c j))"
proof -
  obtain copy st' where c: "json_value_deep_copy_h mem (Some v) st = Some (copy, st')" "mem_ok st'"
    "all_granted mem \<longrightarrow> copy \<noteq> None"
    "case copy of None \<Rightarrow> nodes st' = nodes st
     | Some c \<Rightarrow> copied st c st' \<and> (\<forall>j. denotes (nodes st) v j \<longrightarrow> denotes (nodes st') c j)"
    using deep_copy_succeeds [OF assms, of mem] by blast
  then show ?thesis
    using copied_apart [OF assms(1)]
    by (intro exI [of _ copy] exI [of _ st']) (auto simp: copied_def split: option.splits)
qed

text \<open>
  C21: setting a scalar under a dotted name returns and keeps the memory a forest; when it fails, the objects
  it made for the path and the scalar are freed again, and every block holds what it held before.
\<close>

theorem json_object_dotset_scalar_undone:
  assumes "mem_ok st" "object_at st a = Some obj" "is_cstring name"
  shows "\<exists>done st'. json_object_dotset_scalar mem (Some a) name sc st = Some (done, st') \<and> mem_ok st' \<and>
    (\<not> done \<longrightarrow> same_values (nodes st) (nodes st'))"
  using dotset_scalar_succeeds [OF assms(1) _ assms(3), of "Some a" mem sc] assms(2) by (simp add: object_ptr_def)

text \<open>
  C14: \<open>json_object_set_value\<close> on memory does what an update of the member list does: the object then
  denotes the list with the value put in the place of the member with that name, or at its end, and a
  value outside denotes what it denoted.  When it fails, only because memory was refused, nothing has changed.
\<close>

theorem json_object_set_value_updates:
  assumes "mem_ok st" "object_at st a = Some obj" "is_cstring name" "is_root (nodes st) v" "a \<notin> below (nodes st) v"
    and "denotes (nodes st) a (Obj its)" "denotes (nodes st) v j"
  shows "\<exists>done st'. json_object_set_value_h mem (Some a) (Some name) (Some v) st = Some (done, st') \<and>
    (all_granted mem \<longrightarrow> done) \<and>
    denotes (nodes st') a (Obj (if done then AList.update name j its else its)) \<and>
    (\<forall>x k. is_root (nodes st) x \<and> a \<notin> below (nodes st) x \<and> denotes (nodes st) x k \<longrightarrow> denotes (nodes st') x k)"
proof -
  have f: "forest (nodes st)" by (rule mem_okD [OF assms(1)])
  obtain n where a: "nodes st a = Some n" "node_content n = CObject obj" using assms(2) by (auto simp: object_at_iff)
  obtain m where m: "nodes st v = Some m" "node_parent m = None" using assms(4) by (auto simp: is_root_def)
  obtain fin st' where d: "json_object_set_value_h mem (Some a) (Some name) (Some v) st = Some (fin, st')"
      "mem_ok st'" "all_granted mem \<longrightarrow> fin"
      "if fin then sets_member st a n obj name v m st' else same_members st a n obj st'"
    using json_object_set_value_h_ok [OF assms(1) a assms(3) m assms(5), of mem] by blast
  show ?thesis
  proof (cases fin)
    case True
    then have s: "sets_member st a n obj name v m st'" using d(4) by simp
    have "denotes (nodes st') x k" if x: "is_root (nodes st) x" "a \<notin> below (nodes st) x" "denotes (nodes st) x k" for x k
    proof -
      have "x \<notin> below (nodes st) old" if "obj_map obj name = Some old" for old
        using root_below_child [OF x(1)] forestD(3) [OF f a(1), of old] obj_map_value [OF that] a(2) by simp
      then show ?thesis using denotes_frame [OF f x(3)] set_member_frame [OF f a m(1) s x(2)] by blast
    qed
    moreover have "denotes (nodes st') a (Obj (AList.update name j its))"
      by (rule set_member_denotes [OF assms(1) a assms(4) m(1) assms(5,7) s assms(6)])
    ultimately show ?thesis using d(1,3) True by (intro exI [of _ True] exI [of _ st']) simp
  next
    case False
    then obtain obj' where o: "nodes st' = (nodes st)(a \<mapsto> n\<lparr>node_content := CObject obj'\<rparr>)" "table_ok obj'"
      "obj_items obj' = obj_items obj"
      using d(4) by (auto simp: same_members_def)
    have t: "table_ok obj" using forestD(5) [OF f a(1)] a(2) by simp
    have same: "same_below (nodes st) x (nodes st')" if "a \<notin> below (nodes st) x" for x
      using that o(1) by (auto simp: same_below_def)
    have "list_all2 (same_item (nodes st)) (obj_items obj) its"
      using assms(6) denotes_object [of "nodes st" a n obj, OF a t] by auto
    moreover have "same_item (nodes st') (k, w) y" if "(k, w) \<in> set (obj_items obj)" "same_item (nodes st) (k, w) y" for k w y
    proof -
      have "w \<in> set (links n)" using that(1) a(2) t by (force simp: obj_values_items)
      then have "same_below (nodes st) w (nodes st')" using same below_not_member [OF f a(1)] by blast
      then show ?thesis using that(2) denotes_frame [OF f] by (simp add: same_item_def)
    qed
    ultimately have "list_all2 (same_item (nodes st')) (obj_items obj') its"
      using o(3) by (auto simp: list_all2_conv_all_nth) (metis nth_mem prod.collapse)
    then have "denotes (nodes st') a (Obj its)"
      using denotes_object [of "nodes st'" a "n\<lparr>node_content := CObject obj'\<rparr>" obj'] o(1,2) by simp
    then show ?thesis using d(1,3) False denotes_frame [OF f] same
      by (intro exI [of _ False] exI [of _ st']) auto
  qed
qed

text \<open>
  C40: the test for a parent lets an array that no container holds be appended to itself, and
  \<open>json_value_free\<close> does not return for it then.
\<close>

theorem array_in_itself_never_freed:
  assumes "mem_ok st" "is_root (nodes st) a" "array_at st a = Some arr" "all_granted mem"
  shows "\<exists>st'. json_array_append_value_h mem (Some a) (Some a) st = Some (True, st') \<and> json_value_free (Some a) st' = None"
proof -
  obtain n where n: "nodes st a = Some n" "node_parent n = None" "node_content n = CArray arr"
    using assms(2,3) by (auto simp: is_root_def array_at_iff)
  obtain arr' where arr': "json_array_add (mem (requests st)) arr a = Inr arr'"
    using all_grantedD [OF assms(4)] by (cases "json_array_add (mem (requests st)) arr a") (auto simp: json_array_add_def json_array_resize_def split: if_splits)
  let ?st = "set_content a (CArray arr') (set_parent (Some a) a (st\<lparr>requests := Suc (requests st)\<rparr>))"
  have run: "json_array_append_value_h mem (Some a) (Some a) st = Some (True, ?st)"
    using n assms(3) arr' by (simp add: json_array_append_value_h_def json_array_add_h_def)
  have "nodes ?st a = Some (n\<lparr>node_parent := Some a, node_content := CArray arr'\<rparr>)"
    using n(1) by (simp add: set_content_def set_parent_def)
  then have "free_values (nodes ?st) [a] \<noteq> Some h" for h
    using free_values_loop [of "nodes ?st" "[a]" h a] json_array_add_Inr(1) [OF arr'] by auto
  then have "free_values (nodes ?st) [a] = None" by (cases "free_values (nodes ?st) [a]") auto
  then show ?thesis using run by (simp add: json_value_free_def free_all_def del: free_values_simps)
qed


section \<open>Witnesses\<close>

definition all_memory :: grants where
  "all_memory = (\<lambda>_ _. True)"

lemma example_run:
  "\<exists>st. run (call_step all_memory) empty_mem [Make_Array, Append_Scalar (Some 0) Scalar_Null] st \<and>
     nodes st = [0 \<mapsto> \<lparr>node_parent = None, node_content = CArray (JSON_Array [1] 16)\<rparr>,
       1 \<mapsto> \<lparr>node_parent = Some 0, node_content = CNull\<rparr>]"
  by (auto simp: run_simps call_step_simps json_value_init_array_h_def init_container_def parson_malloc_def
      all_memory_def new_node_def empty_mem_def array_ptr_def array_at_def json_array_append_scalar_def store_scalar_def
      json_value_init_null_h_def init_value_def json_array_append_value_h_def json_array_add_h_def json_array_add_def
      json_array_resize_def set_content_def set_parent_def)


lemma example_object:
  "\<exists>st. run (call_step all_memory) empty_mem [Make_Object, Make Scalar_Null] st \<and>
     nodes st = [0 \<mapsto> empty_object, 1 \<mapsto> \<lparr>node_parent = None, node_content = CNull\<rparr>]"
  by (auto simp: run_simps call_step_simps json_value_init_object_h_def init_container_def parson_malloc_def
      all_memory_def new_node_def empty_mem_def json_value_init_null_h_def init_value_def)

lemma all_memory_granted: "all_granted all_memory"
  by (simp add: all_granted_def all_memory_def)

theorem json_value_free_frees_tree_witness:
  "\<exists>st st'. mem_ok st \<and> nodes st 1 \<noteq> None \<and> json_value_free (Some 0) st = Some st' \<and> nodes st' 1 = None"
proof -
  obtain st where st: "run (call_step all_memory) empty_mem [Make_Array, Append_Scalar (Some 0) Scalar_Null] st"
    "nodes st = [0 \<mapsto> \<lparr>node_parent = None, node_content = CArray (JSON_Array [1] 16)\<rparr>,
       1 \<mapsto> \<lparr>node_parent = Some 0, node_content = CNull\<rparr>]"
    using example_run by blast
  have "1 \<in> below (nodes st) 0" using st(2) by (auto simp: below_def child_def)
  moreover have "is_root (nodes st) 0" using st(2) by (simp add: is_root_def)
  ultimately show ?thesis
    using json_value_free_frees_tree [OF run_mem_ok [OF st(1)], of 0] run_mem_ok [OF st(1)] st(2) by fastforce
qed

theorem heap_calls_safe_witness:
  "\<exists>st. run (call_step all_memory) empty_mem [Make_Array, Append_Scalar (Some 0) Scalar_Null] st \<and>
     forest (nodes st) \<and> (\<exists>st'. run_call all_memory st (Free (Some 0)) = Some st')"
proof -
  obtain st where st: "run (call_step all_memory) empty_mem [Make_Array, Append_Scalar (Some 0) Scalar_Null] st"
    "is_root (nodes st) 0"
    using example_run by (auto simp: is_root_def)
  then have "allowed all_memory st (Free (Some 0))" by simp
  then show ?thesis using heap_calls_safe [OF st(1)] st(1) by blast
qed

theorem no_block_is_lost_witness:
  "\<exists>st st'. run (call_step all_memory) empty_mem [Make_Array, Append_Scalar (Some 0) Scalar_Null] st \<and> nodes st 0 \<noteq> None \<and>
     for_each (\<lambda>st v. json_value_free (Some v) st) st [0] = Some st' \<and> nodes st' = (\<lambda>_. None)"
proof -
  obtain st where st: "run (call_step all_memory) empty_mem [Make_Array, Append_Scalar (Some 0) Scalar_Null] st"
    "nodes st = [0 \<mapsto> \<lparr>node_parent = None, node_content = CArray (JSON_Array [1] 16)\<rparr>,
       1 \<mapsto> \<lparr>node_parent = Some 0, node_content = CNull\<rparr>]"
    using example_run by blast
  have "set [0] = {a. is_root (nodes st) a}" using st(2) by (auto simp: is_root_def split: if_splits)
  then show ?thesis using no_block_is_lost [OF st(1), of "[0]"] st by auto
qed

theorem json_value_deep_copy_all_or_nothing_witness:
  "\<exists>st c st'. json_value_deep_copy_h all_memory (Some 0) st = Some (Some c, st') \<and> is_root (nodes st') c \<and>
     denotes (nodes st') c (Arr [Null])"
proof -
  obtain st where st: "run (call_step all_memory) empty_mem [Make_Array, Append_Scalar (Some 0) Scalar_Null] st"
    "nodes st = [0 \<mapsto> \<lparr>node_parent = None, node_content = CArray (JSON_Array [1] 16)\<rparr>,
       1 \<mapsto> \<lparr>node_parent = Some 0, node_content = CNull\<rparr>]"
    using example_run by blast
  have "denotes (nodes st) 1 Null" using st(2) by (simp add: denotes_node)
  then have "denotes (nodes st) 0 (Arr [Null])" using st(2) by (simp add: denotes_node)
  moreover have "0 \<in> dom (nodes st)" using st(2) by simp
  ultimately show ?thesis
    using json_value_deep_copy_all_or_nothing [OF run_mem_ok [OF st(1)], of 0 all_memory] all_memory_granted
    by (fastforce split: option.splits)
qed

theorem json_object_dotset_scalar_undone_witness:
  "\<exists>st done st'. json_object_dotset_scalar (\<lambda>_ k. k \<noteq> 3) (Some 0) ''ab.c'' Scalar_Null st = Some (done, st') \<and> mem_ok st' \<and>
     (\<not> done \<longrightarrow> same_values (nodes st) (nodes st'))"
proof -
  obtain st where st: "run (call_step all_memory) empty_mem [Make_Object, Make Scalar_Null] st"
    "nodes st = [0 \<mapsto> empty_object, 1 \<mapsto> \<lparr>node_parent = None, node_content = CNull\<rparr>]"
    using example_object by blast
  then have "object_at st 0 = Some (JSON_Object [] [] [] [] [] 0 0)" by (simp add: object_at_iff)
  then show ?thesis
    using json_object_dotset_scalar_undone [OF run_mem_ok [OF st(1)], of 0 _ "''ab.c''" "\<lambda>_ k. k \<noteq> 3" Scalar_Null]
    by (fastforce simp: is_cstring_def)
qed

theorem json_object_set_value_updates_witness:
  "\<exists>st st'. json_object_set_value_h all_memory (Some 0) (Some ''a'') (Some 1) st = Some (True, st') \<and>
     denotes (nodes st') 0 (Obj [(''a'', Null)])"
proof -
  obtain st where st: "run (call_step all_memory) empty_mem [Make_Object, Make Scalar_Null] st"
    "nodes st = [0 \<mapsto> empty_object, 1 \<mapsto> \<lparr>node_parent = None, node_content = CNull\<rparr>]"
    using example_object by blast
  note ok = run_mem_ok [OF st(1)]
  have o: "object_at st 0 = Some (JSON_Object [] [] [] [] [] 0 0)" using st(2) by (simp add: object_at_iff)
  have r: "is_root (nodes st) 1" using st(2) by (simp add: is_root_def)
  have leaf: "0 \<notin> below (nodes st) 1" using below_leaf [OF mem_okD [OF ok], of 1] st(2) by simp
  have d: "denotes (nodes st) 0 (Obj [])" "denotes (nodes st) 1 Null" using st(2) by (simp_all add: denotes_node)
  have "is_cstring ''a''" by (simp add: is_cstring_def)
  from json_object_set_value_updates [OF ok o this r leaf d, of all_memory] obtain st' where
    "json_object_set_value_h all_memory (Some 0) (Some ''a'') (Some 1) st = Some (True, st')"
    "denotes (nodes st') 0 (Obj [(''a'', Null)])"
    using all_memory_granted by auto
  then show ?thesis by (intro exI [of _ st] exI [of _ st']) simp
qed

theorem array_in_itself_never_freed_witness:
  "\<exists>st st'. mem_ok st \<and> json_array_append_value_h all_memory (Some 0) (Some 0) st = Some (True, st') \<and>
     json_value_free (Some 0) st' = None"
proof -
  obtain st where st: "run (call_step all_memory) empty_mem [Make_Array, Append_Scalar (Some 0) Scalar_Null] st"
    "nodes st = [0 \<mapsto> \<lparr>node_parent = None, node_content = CArray (JSON_Array [1] 16)\<rparr>,
       1 \<mapsto> \<lparr>node_parent = Some 0, node_content = CNull\<rparr>]"
    using example_run by blast
  have "is_root (nodes st) 0" "array_at st 0 = Some (JSON_Array [1] 16)" using st(2) by (simp_all add: is_root_def array_at_iff)
  from array_in_itself_never_freed [OF run_mem_ok [OF st(1)] this all_memory_granted] show ?thesis
    using run_mem_ok [OF st(1)] by blast
qed


section \<open>A stale parent pointer\<close>

text \<open>
  \<open>json_object_dotset_value\<close> for the name \<open>ab.c\<close> on an empty object, when the request for the copy of
  the first key is refused: the value is taken back, but its parent pointer still leads to the object that
  was made for it and freed.
\<close>

definition stale_mem :: json_mem where
  "stale_mem = \<lparr>nodes = [0 \<mapsto> empty_object, 1 \<mapsto> \<lparr>node_parent = None, node_content = CNull\<rparr>], brk = 2, requests = 0\<rparr>"

lemma stale_mem_ok: "mem_ok stale_mem"
proof -
  obtain st where "mem_ok st" "nodes st = nodes stale_mem"
    using example_object run_mem_ok by (auto simp: stale_mem_def)
  then show ?thesis by (auto simp: mem_ok_def stale_mem_def split: if_splits)
qed

definition made_mem :: json_mem where
  "made_mem = stale_mem\<lparr>nodes := (nodes stale_mem)(2 \<mapsto> empty_object), brk := 3, requests := 2\<rparr>"

lemma hash_c: "hash_string ''c'' (Suc 0) = 177672"
  by code_simp

lemma cells_c:
  "json_object_get_cell_ix (JSON_Object [] [] [] [] [] 0 0) k n hs = (None, False)"
  "json_object_get_cell_ix (JSON_Object (replicate 16 None) [] [] [] [] i 16) k n 177672 = (Some 8, False)"
proof -
  have "home_cell 16 177672 = 8" by (simp add: home_cell_def and_mask_nat [of _ 4, simplified])
  then show "json_object_get_cell_ix (JSON_Object (replicate 16 None) [] [] [] [] i 16) k n 177672 = (Some 8, False)"
    by (simp add: json_object_get_cell_ix_def json_object_get_cell_loop.simps and_mask_nat [of _ 4, simplified])
qed (simp add: get_cell_ix_empty)

lemma stale_set:
  "\<exists>st'. json_object_set_value_h (\<lambda>_ k. k \<noteq> 3) (Some 2) (Some ''c'') (Some 1) made_mem = Some (True, st')"
  by (simp add: made_mem_def stale_mem_def json_object_set_value_h_def object_at_def make_room_def
      json_object_grow_and_rehash_h_def json_object_grow_and_rehash_def json_object_init_def cells_c hash_c put_member_def
      json_object_put_def adopt_def parson_malloc_def set_content_def set_parent_def Let_def)

lemma dots: "dot_position ''ab.c'' = Some 2" "dot_position ''c'' = None"
  by (simp_all add: dot_position_def)

lemma dotset_leaves_stale_parent:
  "\<exists>st' k p. json_object_dotset_value_h (\<lambda>_ k. k \<noteq> 3) (Some 0) ''ab.c'' (Some 1) stale_mem = Some (False, st') \<and>
     nodes st' 1 = Some k \<and> node_parent k = Some p \<and> nodes st' p = None"
proof -
  let ?mem = "\<lambda>_ k. k \<noteq> (3 :: nat)" and ?null = "\<lparr>node_parent = None, node_content = CNull\<rparr>"
  have made: "made (node_content empty_object) stale_mem (Some 2, made_mem)"
    by (simp add: made_def made_mem_def stale_mem_def)
  have ok: "mem_ok made_mem" using made_ok(1) [OF stale_mem_ok made] by (simp add: empty_table_ok)
  have cop: "copied stale_mem 2 made_mem" "nodes made_mem 2 = Some empty_object"
    using copied_made [OF stale_mem_ok made] by (simp_all add: empty_table_ok)
  have v: "nodes stale_mem 1 = Some ?null" by (simp add: stale_mem_def)
  obtain st1 where set: "json_object_dotset_value_h ?mem (Some 2) ''c'' (Some 1) made_mem = Some (True, st1)"
    using stale_set dotset_plain [OF dots(2)] by auto
  have "chain_ok ?mem ''c''" by (rule chain_all) (simp add: is_cstring_def)
  then have b: "built stale_mem 1 ?null 2 ''c'' st1"
    using stale_mem_ok ok cop v set unfolding chain_ok_def by fastforce
  let ?st2 = "st1\<lparr>requests := Suc (requests st1)\<rparr>"
  have "built stale_mem 1 ?null 2 ''c'' ?st2" using b by (simp add: built_def)
  from undo_built [OF stale_mem_ok v _ this] obtain st3 p where
    u: "undo_dotset 2 ''c'' ?st2 = Some (False, st3)" "p \<notin> dom (nodes stale_mem)"
      "nodes st3 = reparent 1 (Some p) (nodes stale_mem)"
    by auto
  have init: "json_value_init_object_h ?mem stale_mem = (Some 2, made_mem)"
    by (simp add: json_value_init_object_h_def init_container_def parson_malloc_def new_node_def made_mem_def stale_mem_def)
  have "json_object_dotset_value_h ?mem (Some 0) ''ab.c'' (Some 1) stale_mem = Some (False, st3)"
    using init set u(1)
    by (subst json_object_dotset_value_h.simps)
      (simp add: dots object_at_def stale_mem_def [THEN arg_cong [of _ _ nodes]] json_object_getn_value_def cells_c parson_malloc_def)
  moreover have "nodes st3 1 = Some (?null\<lparr>node_parent := Some p\<rparr>)" "nodes st3 p = None"
    using u(2,3) by (auto simp: reparent_def stale_mem_def)
  ultimately show ?thesis by auto
qed

end
