(* ===== verification/Parson_Settings.thy ===== *)
theory Parson_Settings
  imports Parson_Json
begin

text \<open>
  The settings of parson.c: the allocator, the escaping of slashes and the text of numbers, which are arguments or their
  defaults in the other theories, and the case of the serializer for numbers that reads them.  A number is
  written into a buffer of \<open>PARSON_NUM_BUF_SIZE\<close> bytes before its size is known; None is a write past its end.
  What a format makes of a number, and what an application's function does, are arguments.
\<close>

section \<open>Settings\<close>

abbreviation (input) PARSON_NUM_BUF_SIZE :: nat where "PARSON_NUM_BUF_SIZE \<equiv> 64"

record 'f parson_settings =
  parson_malloc :: 'f
  parson_free :: 'f
  parson_escape_slashes :: bool
  parson_float_format :: "string option"
  parson_number_serialization_function :: "(double \<Rightarrow> int \<times> string) option"

definition default_settings :: "'f \<Rightarrow> 'f \<Rightarrow> 'f parson_settings" where
  "default_settings m f = \<lparr>parson_malloc = m, parson_free = f, parson_escape_slashes = True, parson_float_format = None,
     parson_number_serialization_function = None\<rparr>"

definition json_set_allocation_functions :: "'f \<Rightarrow> 'f \<Rightarrow> 'f parson_settings \<Rightarrow> 'f parson_settings" where
  "json_set_allocation_functions malloc_fun free_fun s = s\<lparr>parson_malloc := malloc_fun, parson_free := free_fun\<rparr>"

definition json_set_escape_slashes :: "int \<Rightarrow> 'f parson_settings \<Rightarrow> 'f parson_settings" where
  "json_set_escape_slashes escape_slashes s = s\<lparr>parson_escape_slashes := (escape_slashes \<noteq> 0)\<rparr>"

text \<open>\<open>granted\<close>: there is memory for the copy of the format.\<close>

definition json_set_float_serialization_format :: "bool \<Rightarrow> string option \<Rightarrow> 'f parson_settings \<Rightarrow> 'f parson_settings" where
  "json_set_float_serialization_format granted fmt s =
     s\<lparr>parson_float_format := (case fmt of None \<Rightarrow> None | Some f \<Rightarrow> if granted then Some f else None)\<rparr>"

definition json_set_number_serialization_function ::
  "(double \<Rightarrow> int \<times> string) option \<Rightarrow> 'f parson_settings \<Rightarrow> 'f parson_settings" where
  "json_set_number_serialization_function func s = s\<lparr>parson_number_serialization_function := func\<rparr>"

section \<open>Numbers\<close>

text \<open>
  The number of characters, or a negative number for a failure, and the text.  \<open>sprintf fmt x\<close> is what a format
  other than the default makes of a number.
\<close>

definition written_number :: "(string \<Rightarrow> double \<Rightarrow> string) \<Rightarrow> 'f parson_settings \<Rightarrow> double \<Rightarrow> int \<times> string" where
  "written_number sprintf s num =
     (case parson_number_serialization_function s of
        Some f \<Rightarrow> f num
      | None \<Rightarrow>
          let t = (case parson_float_format s of Some fmt \<Rightarrow> sprintf fmt num | None \<Rightarrow> printf_17g num)
          in (int (length t), t))"

text \<open>The size of a number, which is found by writing it into the buffer: None past its end, \<open>Some None\<close> for the failure.\<close>

definition number_size :: "(string \<Rightarrow> double \<Rightarrow> string) \<Rightarrow> 'f parson_settings \<Rightarrow> double \<Rightarrow> nat option option" where
  "number_size sprintf s num =
     (case written_number sprintf s num of
        (written, t) \<Rightarrow>
          if PARSON_NUM_BUF_SIZE < length t + 1 then None
          else Some (if written < 0 then None else Some (nat written)))"

section \<open>The default fits\<close>

lemma length_show_nat: "n < 10 ^ k \<Longrightarrow> 0 < k \<Longrightarrow> length (show_nat n) \<le> k"
proof (rule ccontr)
  assume n: "n < 10 ^ k" "0 < k" and l: "\<not> length (show_nat n) \<le> k"
  then have k: "10 ^ k \<le> (10 :: nat) ^ (length (show_nat n) - 1)" by (intro power_increasing) auto
  have "0 < n" using l n by (cases "n = 0") (auto simp: show_nat.simps [of 0])
  then have "10 ^ (length (show_nat n) - 1) \<le> n" using show_nat_bounds [of n] by blast
  then show False using k n(1) by linarith
qed

lemma strip_zeros_shorter: "length (strip_zeros s) \<le> length s"
  by (induction s) (auto simp: Let_def)

lemma length_with_fraction: "length (with_fraction ip fp) \<le> length ip + 1 + length fp"
  using strip_zeros_shorter [of fp] by (auto simp: with_fraction_def Let_def)

lemma length_show_exponent: "\<bar>x\<bar> < 1000 \<Longrightarrow> length (show_exponent x) \<le> 5"
  using length_show_nat [of "nat \<bar>x\<bar>" 3] by (auto simp: show_exponent_def Let_def)

lemma log10_of_double:
  assumes "canonical m e" "0 < m" "num_den 2 m e = (n, d)"
  shows "- 400 < log10_floor n d" "log10_floor n d < 400"
proof -
  have v: "real n / real d = real m * 2 powi e" and d: "0 < d" using num_den_value [OF assms(3)] by simp_all
  have n: "0 < n" using v assms(2) d by (auto intro: gr0I)
  note b = log10_floor_bounds [OF n d]
  have e: "- 1074 \<le> e" "e \<le> 971" and m: "m < 2 ^ 53" using assms(1) by (simp_all add: canonical_def)
  have "real m * 2 powi e \<le> 2 ^ 53 * 2 powi 971"
    using m e(2) by (intro mult_mono power_int_increasing) (simp_all add: order.strict_implies_order of_nat_less_numeral_power_cancel_iff)
  also have "\<dots> < 10 powi 400" by simp
  finally have hi: "10 powi log10_floor n d < (10 :: real) powi 400" using b(1) v by linarith
  show "log10_floor n d < 400"
  proof (rule ccontr)
    assume "\<not> log10_floor n d < 400"
    then have "(10 :: real) powi 400 \<le> 10 powi log10_floor n d" by (intro power_int_increasing) simp_all
    then show False using hi by linarith
  qed
  have "(10 :: real) powi (- 399) < 2 powi (- 1074)" by (simp add: power_int_minus field_simps)
  also have "\<dots> \<le> 2 powi e" using e(1) by (intro power_int_increasing) simp_all
  also have "\<dots> \<le> real m * 2 powi e" using assms(2) by simp
  finally have lo: "(10 :: real) powi (- 399) < 10 powi (log10_floor n d + 1)" using b(2) v by linarith
  show "- 400 < log10_floor n d"
  proof (rule ccontr)
    assume "\<not> - 400 < log10_floor n d"
    then have "(10 :: real) powi (log10_floor n d + 1) \<le> 10 powi (- 399)" by (intro power_int_increasing) simp_all
    then show False using lo by linarith
  qed
qed

lemma exponent_of_double:
  assumes "canonical m e" "num_den 2 m e = (n, d)" "sig_digits n d = (r, x)"
  shows "\<bar>x\<bar> < 1000"
proof (cases "m = 0")
  case True
  then have "n = 0" using assms(2) by (auto simp: num_den_def split: if_splits)
  then show ?thesis using assms(3) by (simp add: sig_digits_zero)
next
  case False
  then show ?thesis
    using log10_of_double [OF assms(1) _ assms(2)] assms(3) by (auto simp: sig_digits_def Let_def split: if_splits)
qed

lemma length_sign: "length (sign_text neg) \<le> 1"
  by (simp add: sign_text_def)

text \<open>The comment in the code allows 25 bytes; 24 characters and the NUL are the most there are.\<close>

theorem default_number_short:
  assumes "is_double x"
  shows "length (printf_17g x) \<le> 24"
proof (cases x)
  case (Fin neg m e)
  obtain n d where nd: "num_den 2 m e = (n, d)" by fastforce
  obtain r k where rk: "sig_digits n d = (r, k)" by fastforce
  have k: "\<bar>k\<bar> < 1000" using exponent_of_double [OF _ nd rk] assms Fin by simp
  let ?s = "digits_n 17 r"
  have s: "length ?s = 17" by (simp del: digits_n.simps)
  have "length (with_fraction (take (nat k + 1) ?s) (drop (nat k + 1) ?s)) \<le> 18"
    using length_with_fraction [of "take (nat k + 1) ?s" "drop (nat k + 1) ?s"] s by (simp add: min_def del: digits_n.simps split: if_splits)
  moreover have "length (with_fraction ''0'' (replicate (nat (- k) - 1) CHR ''0'' @ ?s)) \<le> 22" if "- 4 \<le> k"
    using length_with_fraction [of "''0''" "replicate (nat (- k) - 1) CHR ''0'' @ ?s"] s that by (simp del: digits_n.simps)
  moreover have "length (with_fraction (take 1 ?s) (drop 1 ?s)) \<le> 18"
    using length_with_fraction [of "take 1 ?s" "drop 1 ?s"] s by (simp del: digits_n.simps)
  ultimately show ?thesis
    using length_show_exponent [OF k] length_sign [of neg] unfolding Fin printf_17g.simps Let_def nd rk prod.case
    by (cases "- 4 \<le> k") (simp_all del: digits_n.simps One_nat_def)
qed (simp_all add: sign_text_def)

theorem default_number_fits:
  assumes "parson_number_serialization_function s = None" "parson_float_format s = None" "is_double x"
  shows "number_size sprintf s x = Some (Some (length (printf_17g x)))"
  using default_number_short [OF assms(3)] assms(1,2) by (simp add: number_size_def written_number_def Let_def)

text \<open>With the format \<open>%f\<close> a number of more than 56 digits before the point is written past the buffer.\<close>

lemma float_format_overflows:
  assumes "sprintf ''%f'' = printf_f"
  shows "number_size sprintf (json_set_float_serialization_format True (Some ''%f'') (default_settings m f)) (Fin False (2 ^ 52) 140) = None"
proof -
  have "(10 :: nat) ^ 57 \<le> 2 ^ 192" by simp
  then have "\<not> length (show_nat (2 ^ 192)) \<le> 57"
    using show_nat_bounds [of "2 ^ 192"] power_increasing [of "length (show_nat (2 ^ 192))" 57 "10 :: nat"] by linarith
  then have "64 \<le> length (printf_f (Fin False (2 ^ 52) 140))"
    by (simp add: num_den_def round_div_def Let_def)
  then show ?thesis using assms
    by (simp add: number_size_def written_number_def json_set_float_serialization_format_def default_settings_def Let_def)
qed

end
