(* ===== verification/Parson_Files.thy ===== *)
theory Parson_Files
  imports Dx_Json
begin

text \<open>
  The file functions of src/src/parson.c.  The files are a map from names to contents; what the C
  library answers for one stream is an argument: the size \<open>ftell\<close> gives and the number of bytes \<open>fread\<close>
  delivers at most, and for writing how many bytes at the end do not reach the file and whether \<open>fputs\<close>
  and \<open>fclose\<close> succeed.
  The lemmas show that a file that was written without error is read back as the value.
\<close>

section \<open>Files\<close>

type_synonym files = "string \<Rightarrow> char list option"

record read_answer =
  told :: int
  delivered :: nat
  read_error :: bool

record write_answer =
  opened :: bool
  lost :: nat
  puts_ok :: bool
  close_ok :: bool

text \<open>The contents, up to the size \<open>ftell\<close> gave; the NUL after them ends the string at the latest.\<close>

definition read_file :: "(nat \<Rightarrow> bool) \<Rightarrow> read_answer \<Rightarrow> files \<Rightarrow> string \<Rightarrow> string option" where
  "read_file mem ans fs filename =
     (case fs filename of
        None \<Rightarrow> None
      | Some contents \<Rightarrow>
          if told ans < 0 then None
          else let size_to_read = nat (told ans) in
            if \<not> mem (size_to_read + 1) then None
            else let read = take (min size_to_read (delivered ans)) contents in
              if read = [] \<or> read_error ans then None else Some (cstr read))"

definition json_parse_file :: "(nat \<Rightarrow> bool) \<Rightarrow> read_answer \<Rightarrow> files \<Rightarrow> string \<Rightarrow> json_value option" where
  "json_parse_file mem ans fs filename =
     (case read_file mem ans fs filename of
        None \<Rightarrow> None
      | Some file_contents \<Rightarrow> json_parse_string mem (Some file_contents))"

definition json_parse_file_with_comments :: "(nat \<Rightarrow> bool) \<Rightarrow> read_answer \<Rightarrow> files \<Rightarrow> string \<Rightarrow> json_value option" where
  "json_parse_file_with_comments mem ans fs filename =
     (case read_file mem ans fs filename of
        None \<Rightarrow> None
      | Some file_contents \<Rightarrow> json_parse_string_with_comments mem file_contents)"

text \<open>Opening the file for writing empties it, whatever happens then.\<close>

definition write_text :: "write_answer \<Rightarrow> files \<Rightarrow> string \<Rightarrow> string option \<Rightarrow> bool \<times> files" where
  "write_text ans fs filename serialized_string =
     (case serialized_string of
        None \<Rightarrow> (False, fs)
      | Some s \<Rightarrow>
          if \<not> opened ans then (False, fs)
          else (puts_ok ans \<and> close_ok ans, fs(filename \<mapsto> take (length s - lost ans) s)))"

definition json_serialize_to_file ::
  "bool \<Rightarrow> write_answer \<Rightarrow> files \<Rightarrow> json_value option \<Rightarrow> string \<Rightarrow> bool \<times> files" where
  "json_serialize_to_file esc ans fs v filename = write_text ans fs filename (json_serialize_to_string esc v)"

definition json_serialize_to_file_pretty ::
  "bool \<Rightarrow> write_answer \<Rightarrow> files \<Rightarrow> json_value option \<Rightarrow> string \<Rightarrow> bool \<times> files" where
  "json_serialize_to_file_pretty esc ans fs v filename =
     write_text ans fs filename (json_serialize_to_string_pretty esc v)"

section \<open>Writing and reading back\<close>

lemma written_whole:
  "write_text w fs name (Some s) = (True, fs') \<Longrightarrow> puts_ok w \<and> close_ok w \<longrightarrow> lost w = 0 \<Longrightarrow> fs' = fs(name \<mapsto> s)"
  by (auto simp: write_text_def split: if_splits)

lemma read_whole:
  assumes "\<forall>k. mem k" "s \<noteq> []" "is_cstring s" "told r = int (length s)" "length s \<le> delivered r" "\<not> read_error r"
  shows "read_file mem r (fs(name \<mapsto> s)) name = Some s"
  using assms by (simp add: read_file_def Let_def)

lemma file_round_trip:
  assumes "\<forall>k. mem k" "value_ok v" "json_depth v \<le> MAX_NESTING" "puts_ok w \<and> close_ok w \<longrightarrow> lost w = 0"
    and "write_text w fs name (Some (json_serialize_to_buffer_r esc pretty 0 v)) = (True, fs')"
    and "told r = int (length (the (fs' name)))" "length (the (fs' name)) \<le> delivered r" "\<not> read_error r"
  shows "\<exists>v'. json_parse_file mem r fs' name = Some v' \<and> json_abs v' = json_abs v"
proof -
  let ?s = "json_serialize_to_buffer_r esc pretty 0 v"
  have fs': "fs' = fs(name \<mapsto> ?s)" using written_whole [OF assms(5,4)] .
  obtain v' where v': "json_parse_string mem (Some ?s) = Some v'" "json_abs v' = json_abs v"
    using parse_serialized [OF assms(1-3)] by blast
  have "?s \<noteq> []" using serialize_start [OF assms(2)] by (metis list.distinct(1))
  then have "read_file mem r fs' name = Some ?s"
    using read_whole [where mem = mem and s = "?s" and r = r and fs = fs and name = name]
      assms(1,6-8) is_cstring_serialized [OF assms(2)] by (simp add: fs')
  then show ?thesis using v' by (simp add: json_parse_file_def)
qed

text \<open>
  C24: a value that \<open>json_serialize_to_file\<close> or its pretty variant reports as written is read back by
  \<open>json_parse_file\<close> as what it denotes, whatever else the files hold.  The C library must keep its word: success of
  \<open>fputs\<close> and \<open>fclose\<close> means that the whole text reached the file, and the file is read whole.
\<close>

theorem json_file_round_trip:
  assumes "\<forall>k. mem k" "value_ok v" "json_depth v \<le> MAX_NESTING" "puts_ok w \<and> close_ok w \<longrightarrow> lost w = 0"
    and "json_serialize_to_file esc w fs (Some v) name = (True, fs') \<or>
         json_serialize_to_file_pretty esc w fs (Some v) name = (True, fs')"
    and "told r = int (length (the (fs' name)))" "length (the (fs' name)) \<le> delivered r" "\<not> read_error r"
  shows "\<exists>v'. json_parse_file mem r fs' name = Some v' \<and> json_abs v' = json_abs v"
proof -
  have "json_serialize_to_string esc (Some v) = Some (json_serialize_to_buffer_r esc False 0 v)"
    "json_serialize_to_string_pretty esc (Some v) = Some (json_serialize_to_buffer_r esc True 0 v)"
    by (simp_all add: json_serialize_to_string_def json_serialize_to_buffer_def json_serialization_size_def
        json_serialize_to_string_pretty_def json_serialize_to_buffer_pretty_def json_serialization_size_pretty_def)
  then obtain pretty where "write_text w fs name (Some (json_serialize_to_buffer_r esc pretty 0 v)) = (True, fs')"
    using assms(5) by (auto simp: json_serialize_to_file_def json_serialize_to_file_pretty_def)
  from file_round_trip [OF assms(1-4) this assms(6-8)] show ?thesis .
qed

theorem json_file_round_trip_witness:
  "\<exists>fs' v'. json_serialize_to_file True \<lparr>opened = True, lost = 0, puts_ok = True, close_ok = True\<rparr> (\<lambda>_. None)
       (Some (JArray (JSON_Array [JNull] 16))) ''f'' = (True, fs') \<and>
     json_parse_file (\<lambda>_. True) \<lparr>told = int (length (the (fs' ''f''))), delivered = length (the (fs' ''f'')), read_error = False\<rparr>
       fs' ''f'' = Some v' \<and> json_abs v' = Arr [Null]"
proof -
  let ?w = "\<lparr>opened = True, lost = 0, puts_ok = True, close_ok = True\<rparr>" and ?v = "JArray (JSON_Array [JNull] 16)"
  obtain fs' where fs': "json_serialize_to_file True ?w (\<lambda>_. None) (Some ?v) ''f'' = (True, fs')"
    by (simp add: json_serialize_to_file_def write_text_def json_serialize_to_string_def json_serialize_to_buffer_def
        json_serialization_size_def)
  have "\<exists>v'. json_parse_file (\<lambda>_. True)
      \<lparr>told = int (length (the (fs' ''f''))), delivered = length (the (fs' ''f'')), read_error = False\<rparr> fs' ''f'' = Some v' \<and>
      json_abs v' = json_abs ?v"
    using fs' by (intro json_file_round_trip [of _ ?v ?w True "\<lambda>_. None" "''f''"]) simp_all
  then show ?thesis using fs' by auto
qed

end
