(* ===== verification/Dx_Time.thy ===== *)
theory Dx_Time
  imports Dx_Utilities C_Double
begin

text \<open>
  The time stamps of src/src/dx_utilities.c.  \<open>gmtime\<close> is the Gregorian calendar counted from 1970, \<open>localtime\<close> the
  same calendar moved by the offset of the time zone, which is an argument.  The lemmas compare the calendar
  that counts years and months down with closed formulas, and show that a stamp reads back as its time.
\<close>

section \<open>The calendar\<close>

record tm =
  tm_year :: int
  tm_mon :: nat
  tm_mday :: nat
  tm_hour :: nat
  tm_min :: nat
  tm_sec :: nat

definition is_leap :: "int \<Rightarrow> bool" where
  "is_leap y \<longleftrightarrow> y mod 4 = 0 \<and> (y mod 100 \<noteq> 0 \<or> y mod 400 = 0)"

definition year_days :: "int \<Rightarrow> int" where
  "year_days y = (if is_leap y then 366 else 365)"

definition month_days :: "int \<Rightarrow> nat list" where
  "month_days y = [31, if is_leap y then 29 else 28, 31, 30, 31, 30, 31, 31, 30, 31, 30, 31]"

text \<open>The year of a day that is counted from the start of year \<open>y\<close>, and the day of that year.\<close>

function year_of :: "int \<Rightarrow> int \<Rightarrow> int \<times> nat" where
  "year_of d y =
     (if d < 0 then year_of (d + year_days (y - 1)) (y - 1)
      else if year_days y \<le> d then year_of (d - year_days y) (y + 1)
      else (y, nat d))"
  by pat_completeness auto
termination
  by (relation "measure (\<lambda>(d, y). if d < 0 then nat (- d) + 400 else nat d)") (auto simp: year_days_def split: if_splits)

declare year_of.simps [simp del]

fun month_of :: "nat list \<Rightarrow> nat \<Rightarrow> nat \<times> nat" where
  "month_of [] d = (0, d)"
| "month_of (n # ns) d = (if d < n then (0, d) else case month_of ns (d - n) of (m, d') \<Rightarrow> (Suc m, d'))"

text \<open>None when the year does not fit an \<open>int\<close>.\<close>

definition gmtime :: "int \<Rightarrow> tm option" where
  "gmtime now =
     (let (y, d) = year_of (now div 86400) 1970;
          (m, md) = month_of (month_days y) d;
          s = nat (now mod 86400)
      in if - (2 ^ 31) \<le> y - 1900 \<and> y - 1900 < 2 ^ 31
         then Some \<lparr>tm_year = y - 1900, tm_mon = m, tm_mday = Suc md,
                    tm_hour = s div 3600, tm_min = s div 60 mod 60, tm_sec = s mod 60\<rparr>
         else None)"

section \<open>Time stamps\<close>

text \<open>The text for the format \<open>%Y-%m-%dT%H:%M:%SZ\<close>.\<close>

definition stamp :: "tm \<Rightarrow> string" where
  "stamp t = show_int (tm_year t + 1900) @ ''-'' @ digits_n 2 (Suc (tm_mon t)) @ ''-'' @ digits_n 2 (tm_mday t) @ ''T'' @
     digits_n 2 (tm_hour t) @ '':'' @ digits_n 2 (tm_min t) @ '':'' @ digits_n 2 (tm_sec t) @ ''Z''"

text \<open>
  The text and its NUL if they have \<open>maxsize\<close> bytes at most, or else what the C library leaves there (\<open>junk\<close>);
  None when the text is written past the end of the buffer.
\<close>

definition strftime :: "char list \<Rightarrow> char list \<Rightarrow> nat \<Rightarrow> string \<Rightarrow> char list option" where
  "strftime junk buffer maxsize text =
     (if maxsize < length text + 1
      then Some (take (length buffer) (take maxsize junk @ drop (min maxsize (length junk)) buffer))
      else if length buffer < length text + 1 then None
      else Some (text @ [NUL] @ drop (length text + 1) buffer))"

definition dx_getCurrentUtc :: "int \<Rightarrow> char list \<Rightarrow> char list \<Rightarrow> nat \<Rightarrow> char list option" where
  "dx_getCurrentUtc now junk buffer bufferSize =
     (case gmtime now of
        None \<Rightarrow> None
      | Some t \<Rightarrow> strftime junk buffer (unat (of_nat bufferSize - 1 :: 64 word)) (stamp t))"

definition dx_getLocalTime :: "(int \<Rightarrow> int) \<Rightarrow> int \<Rightarrow> char list \<Rightarrow> char list \<Rightarrow> nat \<Rightarrow> char list option" where
  "dx_getLocalTime zone now junk buffer bufferSize =
     (case gmtime (now + zone now) of
        None \<Rightarrow> None
      | Some t \<Rightarrow> strftime junk buffer (unat (of_nat bufferSize - 1 :: 64 word)) (stamp t))"

section \<open>Closed formulas\<close>

definition days_to :: "int \<Rightarrow> int" where
  "days_to y = 365 * y + (y - 1) div 4 - (y - 1) div 100 + (y - 1) div 400"

lemma div_step: "0 < k \<Longrightarrow> y div k = (y - 1) div k + of_bool (y mod k = 0)" for y k :: int
proof (cases "y mod k = 0")
  case True
  assume k: "0 < k"
  obtain q where q: "y = k * q" using True by (auto simp: mod_eq_0_iff_dvd dvd_def)
  have "(k * q - 1) div k = q - 1"
    using k by (intro div_pos_neg_trivial int_div_pos_eq [where r = "k - 1"]) (auto simp: algebra_simps)
  then show ?thesis using True k q by simp
next
  case False
  assume k: "0 < k"
  have "0 < y mod k" using False pos_mod_sign [OF k, of y] by linarith
  then have "(y - 1) div k = y div k"
    using k pos_mod_bound [OF k, of y] by (intro int_div_pos_eq [where r = "y mod k - 1"]) (auto simp: algebra_simps)
  then show ?thesis using False by simp
qed

lemma days_to_step: "days_to (y + 1) = days_to y + year_days y"
proof -
  have d: "y mod 400 = 0 \<Longrightarrow> y mod 100 = 0" "y mod 100 = 0 \<Longrightarrow> y mod 4 = 0"
    by (drule mod_0_imp_dvd, rule dvd_imp_mod_0, erule dvd_trans [rotated], simp)+
  have "days_to (y + 1) = days_to y + 365 + of_bool (y mod 4 = 0) - of_bool (y mod 100 = 0) + of_bool (y mod 400 = 0)"
  proof -
    have "y div 4 = (y - 1) div 4 + of_bool (y mod 4 = 0)" "y div 100 = (y - 1) div 100 + of_bool (y mod 100 = 0)"
      "y div 400 = (y - 1) div 400 + of_bool (y mod 400 = 0)" by (rule div_step, simp)+
    moreover have "365 * (y + 1) + (a + x) - (b + u) + (c + w) = 365 * y + a - b + c + 365 + x - u + w"
      for a b c u w x :: int by simp
    ultimately show ?thesis unfolding days_to_def add_diff_cancel_right' by metis
  qed
  moreover have "year_days y = 365 + of_bool (y mod 4 = 0) - of_bool (y mod 100 = 0) + of_bool (y mod 400 = 0)"
    using d by (cases "y mod 4 = 0"; cases "y mod 100 = 0"; cases "y mod 400 = 0") (simp_all add: year_days_def is_leap_def)
  ultimately show ?thesis by simp
qed

lemma year_of_days:
  assumes "year_of d y = (y', n)"
  shows "days_to y' + int n = days_to y + d \<and> int n < year_days y'"
  using assms
proof (induction d y rule: year_of.induct)
  case (1 d y)
  consider "d < 0" | "\<not> d < 0" "year_days y \<le> d" | "\<not> d < 0" "\<not> year_days y \<le> d" by blast
  then show ?case
  proof cases
    case 1
    then show ?thesis using "1.IH"(1) "1.prems" days_to_step [of "y - 1"] by (simp add: year_of.simps [of d])
  next
    case 2
    then show ?thesis using "1.IH"(2) "1.prems" days_to_step [of y] by (simp add: year_of.simps [of d])
  next
    case 3
    then show ?thesis using "1.prems" by (auto simp add: year_of.simps [of d])
  qed
qed

lemma year_days_pos: "0 < year_days y"
  by (simp add: year_days_def)

lemma days_to_mono:
  assumes "a \<le> b" shows "days_to a \<le> days_to b"
  using assms
proof (induction b rule: int_ge_induct)
  case (step i)
  then show ?case using days_to_step [of i] year_days_pos [of i] by simp
qed simp

lemma month_of_days:
  assumes "month_of ns d = (m, md)" "d < sum_list ns"
  shows "m < length ns" "md < ns ! m" "sum_list (take m ns) + md = d"
proof -
  have "m < length ns \<and> md < ns ! m \<and> sum_list (take m ns) + md = d"
    using assms by (induction ns d arbitrary: m rule: month_of.induct) (fastforce split: if_splits prod.splits)+
  then show "m < length ns" "md < ns ! m" "sum_list (take m ns) + md = d" by blast+
qed

lemma month_days_sum: "int (sum_list (month_days y)) = year_days y" "length (month_days y) = 12"
  by (simp_all add: month_days_def year_days_def)

lemma month_days_bound: "m < 12 \<Longrightarrow> month_days y ! m \<le> 31"
proof -
  have "\<forall>n \<in> set (month_days y). n \<le> 31" by (simp add: month_days_def)
  then show "m < 12 \<Longrightarrow> month_days y ! m \<le> 31" by (simp add: month_days_sum)
qed

section \<open>Reading a stamp\<close>

definition field :: "nat \<Rightarrow> nat \<Rightarrow> string \<Rightarrow> nat" where
  "field i k s = digits_val (take k (drop i s))"

definition stamp_time :: "string \<Rightarrow> int" where
  "stamp_time s =
     (let y = int (field 0 4 s) in
      86400 * (days_to y - days_to 1970 + int (sum_list (take (field 5 2 s - 1) (month_days y)) + field 8 2 s - 1)) +
      3600 * int (field 11 2 s) + 60 * int (field 14 2 s) + int (field 17 2 s))"

lemma show_nat_4:
  assumes "1000 \<le> n" "n < 10000"
  shows "length (show_nat n) = 4"
proof -
  have b: "n < 10 ^ length (show_nat n)" "10 ^ (length (show_nat n) - 1) \<le> n"
    using show_nat_bounds [of n] assms(1) by auto
  have "3 < length (show_nat n)"
  proof (rule ccontr)
    assume "\<not> 3 < length (show_nat n)"
    then have "(10 :: nat) ^ length (show_nat n) \<le> 10 ^ 3" by (intro power_increasing) auto
    then show False using b(1) assms(1) by simp
  qed
  moreover have "length (show_nat n) - 1 < 4"
  proof (rule ccontr)
    assume "\<not> length (show_nat n) - 1 < 4"
    then have "(10 :: nat) ^ 4 \<le> 10 ^ (length (show_nat n) - 1)" by (intro power_increasing) auto
    then show False using b(2) assms(2) by simp
  qed
  ultimately show ?thesis by simp
qed

lemma two_digits: "length (digits_n 2 n) = 2"
  by (simp add: numeral_2_eq_2)

lemma stamp_fields:
  assumes "1000 \<le> tm_year t + 1900" "tm_year t + 1900 < 10000"
    and "tm_mon t < 12" "tm_mday t < 100" "tm_hour t < 24" "tm_min t < 60" "tm_sec t < 60"
  shows "length (stamp t) = 20" "is_cstring (stamp t)"
    "int (field 0 4 (stamp t)) = tm_year t + 1900" "field 5 2 (stamp t) = Suc (tm_mon t)" "field 8 2 (stamp t) = tm_mday t"
    "field 11 2 (stamp t) = tm_hour t" "field 14 2 (stamp t) = tm_min t" "field 17 2 (stamp t) = tm_sec t"
proof -
  let ?y = "show_nat (nat (tm_year t + 1900))"
  have y: "length ?y = 4" using assms(1,2) by (intro show_nat_4) auto
  have s: "stamp t = ?y @ ''-'' @ digits_n 2 (Suc (tm_mon t)) @ ''-'' @ digits_n 2 (tm_mday t) @ ''T'' @
     digits_n 2 (tm_hour t) @ '':'' @ digits_n 2 (tm_min t) @ '':'' @ digits_n 2 (tm_sec t) @ ''Z''"
    using assms(1) by (simp add: stamp_def show_int_def)
  show "length (stamp t) = 20" using y by (simp add: s two_digits)
  have "\<forall>c \<in> set (show_nat n). c \<noteq> NUL" "\<forall>c \<in> set (digits_n 2 n). c \<noteq> NUL" for n
    using show_nat_digits [of n] digits_n_facts [of 2 n] by (auto simp: isdigit_def)
  then show "is_cstring (stamp t)" by (auto simp: s is_cstring_def)
  show "int (field 0 4 (stamp t)) = tm_year t + 1900" using y assms(1) by (simp add: field_def s)
  show "field 5 2 (stamp t) = Suc (tm_mon t)" using y assms(3) by (simp add: field_def s two_digits digits_n_val)
  show "field 8 2 (stamp t) = tm_mday t" using y assms(4) by (simp add: field_def s two_digits digits_n_val)
  show "field 11 2 (stamp t) = tm_hour t" using y assms(5) by (simp add: field_def s two_digits digits_n_val)
  show "field 14 2 (stamp t) = tm_min t" using y assms(6) by (simp add: field_def s two_digits digits_n_val)
  show "field 17 2 (stamp t) = tm_sec t" using y assms(7) by (simp add: field_def s two_digits digits_n_val)
qed

lemma gmtime_fields:
  assumes "gmtime now = Some t"
  shows "86400 * (days_to (tm_year t + 1900) - days_to 1970 +
      int (sum_list (take (tm_mon t) (month_days (tm_year t + 1900))) + tm_mday t - 1)) +
      3600 * int (tm_hour t) + 60 * int (tm_min t) + int (tm_sec t) = now"
    and "tm_mon t < 12" "tm_mday t < 100" "tm_hour t < 24" "tm_min t < 60" "tm_sec t < 60"
    and "days_to (tm_year t + 1900) \<le> days_to 1970 + now div 86400"
    "days_to 1970 + now div 86400 < days_to (tm_year t + 1900 + 1)"
proof -
  obtain y d where yd: "year_of (now div 86400) 1970 = (y, d)" by fastforce
  obtain m md where m: "month_of (month_days y) d = (m, md)" by fastforce
  define s where "s = nat (now mod 86400)"
  have t: "tm_year t = y - 1900" "tm_mon t = m" "tm_mday t = Suc md" "tm_hour t = s div 3600" "tm_min t = s div 60 mod 60"
    "tm_sec t = s mod 60"
    using assms by (auto simp: gmtime_def yd m s_def Let_def split: if_splits)
  have d: "days_to y + int d = days_to 1970 + now div 86400" "int d < year_days y" using year_of_days [OF yd] by simp_all
  then have "d < sum_list (month_days y)" using month_days_sum(1) [of y] by simp
  from month_of_days [OF m this] have md: "m < 12" "md < month_days y ! m" "sum_list (take m (month_days y)) + md = d"
    by (simp_all add: month_days_sum)
  have s: "int s = now mod 86400" "s < 86400" by (simp_all add: s_def)
  have "now = 86400 * (now div 86400) + int s" using s(1) by simp
  moreover have "int s = 3600 * int (s div 3600) + 60 * int (s div 60 mod 60) + int (s mod 60)"
  proof -
    have "s = 60 * (s div 60) + s mod 60" "s div 60 = 60 * (s div 60 div 60) + s div 60 mod 60" by simp_all
    moreover have "s div 60 div 60 = s div 3600" using div_mult2_eq [of s 60 60] by simp
    ultimately have "s = 3600 * (s div 3600) + 60 * (s div 60 mod 60) + s mod 60" by linarith
    then have "int s = int (3600 * (s div 3600) + 60 * (s div 60 mod 60) + s mod 60)" by (rule arg_cong)
    then show ?thesis by (simp only: of_nat_add of_nat_mult of_nat_numeral)
  qed
  ultimately show "86400 * (days_to (tm_year t + 1900) - days_to 1970 +
      int (sum_list (take (tm_mon t) (month_days (tm_year t + 1900))) + tm_mday t - 1)) +
      3600 * int (tm_hour t) + 60 * int (tm_min t) + int (tm_sec t) = now"
    using d(1) md(3) by (simp add: t)
  show "tm_mon t < 12" "tm_hour t < 24" "tm_min t < 60" "tm_sec t < 60" using md(1) s(2) by (simp_all add: t less_mult_imp_div_less)
  show "tm_mday t < 100" using md(2) month_days_bound [OF md(1), of y] by (simp add: t)
  show "days_to (tm_year t + 1900) \<le> days_to 1970 + now div 86400" using d(1) by (simp add: t)
  show "days_to 1970 + now div 86400 < days_to (tm_year t + 1900 + 1)" using d days_to_step [of y] by (simp add: t)
qed

lemma div_between:
  assumes "86400 * a \<le> n" "n < 86400 * b" shows "a \<le> n div 86400 \<and> n div 86400 < (b :: int)"
proof -
  define q r where "q = n div 86400" and "r = n mod 86400"
  have "n = 86400 * q + r" "0 \<le> r" "r < 86400" by (simp_all add: q_def r_def)
  then have "a \<le> q" "q < b" using assms by linarith+
  then show ?thesis by (simp add: q_def)
qed

lemma gmtime_in_range:
  assumes "86400 * (days_to a - days_to 1970) \<le> now" "now < 86400 * (days_to (b + 1) - days_to 1970)"
    and "- (2 ^ 31) + 1900 \<le> a" "b < 2 ^ 31"
  obtains t where "gmtime now = Some t" "a \<le> tm_year t + 1900" "tm_year t + 1900 \<le> b"
proof -
  obtain y d where yd: "year_of (now div 86400) 1970 = (y, d)" by fastforce
  have d: "days_to y + int d = days_to 1970 + now div 86400" "int d < year_days y" using year_of_days [OF yd] by simp_all
  have q: "days_to a - days_to 1970 \<le> now div 86400" "now div 86400 < days_to (b + 1) - days_to 1970"
    using div_between [OF assms(1,2)] by simp_all
  have "a \<le> y"
  proof (rule ccontr)
    assume "\<not> a \<le> y"
    then have "days_to (y + 1) \<le> days_to a" by (intro days_to_mono) simp
    then show False using d q(1) days_to_step [of y] by linarith
  qed
  moreover have "y \<le> b"
  proof (rule ccontr)
    assume "\<not> y \<le> b"
    then have "days_to (b + 1) \<le> days_to y" by (intro days_to_mono) simp
    then show False using d q(2) by linarith
  qed
  ultimately show ?thesis
    using assms(3,4) that by (simp add: gmtime_def yd Let_def split_beta)
qed

section \<open>Properties\<close>

lemma stamp_reads_back:
  assumes "0 \<le> now" "now < 253402300800"
  obtains t where "gmtime now = Some t" "length (stamp t) = 20" "is_cstring (stamp t)" "stamp_time (stamp t) = now"
proof -
  have "days_to 10000 - days_to 1970 = 2932897" by (simp add: days_to_def)
  then obtain t where t: "gmtime now = Some t" "1970 \<le> tm_year t + 1900" "tm_year t + 1900 \<le> 9999"
    using gmtime_in_range [of 1970 now 9999] assms by auto
  note g = gmtime_fields [OF t(1)]
  have b: "1000 \<le> tm_year t + 1900" "tm_year t + 1900 < 10000" using t by simp_all
  note f = stamp_fields [OF b g(2-6)]
  show ?thesis
    using g(1) by (intro that [OF t(1) f(1,2)]) (simp add: stamp_time_def f(3-8))
qed

lemma strftime_fits:
  assumes "length text + 2 \<le> n" "n \<le> length buffer" "n < 2 ^ 64"
  shows "strftime junk buffer (unat (of_nat n - 1 :: 64 word)) text = Some (text @ [NUL] @ drop (length text + 1) buffer)"
proof -
  have "unat (of_nat n - 1 :: 64 word) = n - 1"
    using assms by (simp add: unat_sub_if_size unat_of_nat word_size take_bit_nat_eq_self)
  moreover have "\<not> n - 1 < length text + 1" "\<not> length buffer < length text + 1" using assms by simp_all
  ultimately show ?thesis by (simp only: strftime_def if_False)
qed

text \<open>
  C40: until the year 10000 the time stamp is a text of 20 characters that fits a buffer of 22 bytes, the rest of
  the buffer is as before, and the text reads back, by the closed formulas of the Gregorian calendar, as
  the second it was made in.  The local time reads back as that second moved by the offset of the zone.
\<close>

theorem time_stamp_reads_back:
  assumes "22 \<le> bufferSize" "bufferSize \<le> length buffer" "length buffer < 2 ^ 64"
    and "0 \<le> now" "now < 253402300800" "0 \<le> now + zone now" "now + zone now < 253402300800"
  shows "\<exists>utc local. dx_getCurrentUtc now junk buffer bufferSize = Some (utc @ [NUL] @ drop 21 buffer) \<and>
    dx_getLocalTime zone now junk buffer bufferSize = Some (local @ [NUL] @ drop 21 buffer) \<and>
    length utc = 20 \<and> stamp_time utc = now \<and> length local = 20 \<and> stamp_time local = now + zone now"
proof -
  obtain t where t: "gmtime now = Some t" "length (stamp t) = 20" "stamp_time (stamp t) = now"
    using stamp_reads_back [OF assms(4,5)] by blast
  obtain u where u: "gmtime (now + zone now) = Some u" "length (stamp u) = 20" "stamp_time (stamp u) = now + zone now"
    using stamp_reads_back [OF assms(6,7)] by blast
  have "dx_getCurrentUtc now junk buffer bufferSize = Some (stamp t @ [NUL] @ drop 21 buffer)"
    "dx_getLocalTime zone now junk buffer bufferSize = Some (stamp u @ [NUL] @ drop 21 buffer)"
    using strftime_fits [of "stamp t" bufferSize buffer junk] strftime_fits [of "stamp u" bufferSize buffer junk] t u assms(1-3)
    by (simp_all add: dx_getCurrentUtc_def dx_getLocalTime_def)
  then show ?thesis using t u by blast
qed

theorem time_stamp_reads_back_witness:
  "\<exists>utc local. dx_getCurrentUtc 1709210096 [] (replicate 32 CHR ''x'') 32 = Some (utc @ [NUL] @ drop 21 (replicate 32 CHR ''x'')) \<and>
    dx_getLocalTime (\<lambda>_. 3600) 1709210096 [] (replicate 32 CHR ''x'') 32 = Some (local @ [NUL] @ drop 21 (replicate 32 CHR ''x'')) \<and>
    length utc = 20 \<and> stamp_time utc = 1709210096 \<and> length local = 20 \<and> stamp_time local = 1709213696"
  using time_stamp_reads_back [of 32 "replicate 32 CHR ''x''" 1709210096 "\<lambda>_. 3600" "[]"] by simp

text \<open>
  A buffer of 21 bytes would hold the text and its NUL, but what is left in it then is up to the C library; for a
  buffer of no bytes the limit wraps around and the text is written past its end.
\<close>

lemma time_stamp_off_by_one:
  assumes "0 \<le> now" "now < 253402300800"
  shows "length buffer = 21 \<Longrightarrow> dx_getCurrentUtc now junk buffer 21 = Some (take 21 (take 20 junk @ drop (min 20 (length junk)) buffer))"
    and "buffer = [] \<Longrightarrow> dx_getCurrentUtc now junk buffer 0 = None"
proof -
  obtain t where t: "gmtime now = Some t" "length (stamp t) = 20" using stamp_reads_back [OF assms] by blast
  show "length buffer = 21 \<Longrightarrow> dx_getCurrentUtc now junk buffer 21 = Some (take 21 (take 20 junk @ drop (min 20 (length junk)) buffer))"
    using t by (simp add: dx_getCurrentUtc_def strftime_def)
  show "buffer = [] \<Longrightarrow> dx_getCurrentUtc now junk buffer 0 = None"
    using t by (simp add: dx_getCurrentUtc_def strftime_def unsigned_minus_1_eq_mask mask_eq_exp_minus_1)
qed

end
