(* ===== verification/Sdk_Map.thy ===== *)
theory Sdk_Map
  imports Key_Store "HOL-Library.AList" "HOL-Library.Monad_Syntax"
begin

text \<open>
  The string map of the Azure SDK (src/azure-iot-sdk-c/c-utility/src/map.c), in which a message keeps its
  properties: two growing arrays of strings and a filter.  A block is None for NULL or the list of its
  entries, which are None for NULL.  \<open>mem i\<close> says whether the \<open>i\<close>-th request for memory is granted; an operation
  takes the number of requests so far and gives the new one.  A read of a NULL entry or past the end of
  a block is None.  The lemmas show that this does not happen, that a failed operation changes nothing
  a caller can see, and that the map is the list of its pairs.
\<close>

section \<open>The map\<close>

datatype map_result =
    MAP_OK | MAP_ERROR | MAP_INVALIDARG | MAP_KEYEXISTS | MAP_KEYNOTFOUND | MAP_FILTER_REJECT

type_synonym map_filter = "string \<Rightarrow> string \<Rightarrow> bool"

record map_data =
  map_keys :: "string option list option"
  map_values :: "string option list option"
  map_count :: nat
  mapFilterCallback :: "map_filter option"

definition sdk_malloc :: "(nat \<Rightarrow> bool) \<Rightarrow> nat \<Rightarrow> bool \<times> nat" where
  "sdk_malloc mem n = (mem n, Suc n)"

text \<open>\<open>realloc\<close> of a block to \<open>k\<close> entries; what is new is written before it is read.\<close>

definition resized :: "string option list option \<Rightarrow> nat \<Rightarrow> string option list" where
  "resized blk k = (let b = (case blk of None \<Rightarrow> [] | Some b \<Rightarrow> b) in take k b @ replicate (k - length b) None)"

definition Map_Create :: "(nat \<Rightarrow> bool) \<Rightarrow> map_filter option \<Rightarrow> nat \<Rightarrow> map_data option \<times> nat" where
  "Map_Create mem f n =
     (let (granted, n1) = sdk_malloc mem n in
      (if granted then Some \<lparr>map_keys = None, map_values = None, map_count = 0, mapFilterCallback = f\<rparr> else None, n1))"

definition Map_IncreaseStorageKeysValues :: "(nat \<Rightarrow> bool) \<Rightarrow> map_data \<Rightarrow> nat \<Rightarrow> bool \<times> map_data \<times> nat" where
  "Map_IncreaseStorageKeysValues mem d n =
     (let (granted, n1) = sdk_malloc mem n; c = map_count d in
      if \<not> granted then (False, d, n1)
      else
        let d1 = d\<lparr>map_keys := Some ((resized (map_keys d) (c + 1))[c := None])\<rparr>;
            (granted, n2) = sdk_malloc mem n1
        in if \<not> granted then
             (if c = 0 then (False, d1\<lparr>map_keys := None\<rparr>, n2)
              else let (granted, n3) = sdk_malloc mem n2 in
                   (False, if granted then d1\<lparr>map_keys := Some (resized (map_keys d1) c)\<rparr> else d1, n3))
           else (True, d1\<lparr>map_values := Some ((resized (map_values d) (c + 1))[c := None]), map_count := c + 1\<rparr>, n2))"

definition Map_DecreaseStorageKeysValues :: "(nat \<Rightarrow> bool) \<Rightarrow> map_data \<Rightarrow> nat \<Rightarrow> map_data \<times> nat" where
  "Map_DecreaseStorageKeysValues mem d n =
     (if map_count d = 1
      then (d\<lparr>map_keys := None, map_values := None, map_count := 0, mapFilterCallback := None\<rparr>, n)
      else
        let (granted, n1) = sdk_malloc mem n; k = map_count d - 1;
            d1 = (if granted then d\<lparr>map_keys := Some (resized (map_keys d) k)\<rparr> else d);
            (granted, n2) = sdk_malloc mem n1;
            d2 = (if granted then d1\<lparr>map_values := Some (resized (map_values d1) k)\<rparr> else d1)
        in (d2\<lparr>map_count := k\<rparr>, n2))"

text \<open>The loop of \<open>findKey\<close> and \<open>findValue\<close> over \<open>n\<close> entries.\<close>

fun find_string :: "nat \<Rightarrow> string option list \<Rightarrow> string \<Rightarrow> nat option option" where
  "find_string 0 xs s = Some None"
| "find_string (Suc n) (Some x # xs) s =
     (if x = s then Some (Some 0) else map_option (map_option Suc) (find_string n xs s))"
| "find_string (Suc n) _ s = None"

definition findKey :: "map_data \<Rightarrow> string \<Rightarrow> nat option option" where
  "findKey d key = (case map_keys d of None \<Rightarrow> Some None | Some ks \<Rightarrow> find_string (map_count d) ks key)"

definition findValue :: "map_data \<Rightarrow> string \<Rightarrow> nat option option" where
  "findValue d val = (case map_values d of None \<Rightarrow> Some None | Some vs \<Rightarrow> find_string (map_count d) vs val)"

text \<open>A write to an entry of a block; None past its end.\<close>

definition put_entry :: "nat \<Rightarrow> string \<Rightarrow> string option list option \<Rightarrow> string option list option" where
  "put_entry i s blk = (case blk of None \<Rightarrow> None | Some b \<Rightarrow> if i < length b then Some (b[i := Some s]) else None)"

definition insertNewKeyValue ::
  "(nat \<Rightarrow> bool) \<Rightarrow> map_data \<Rightarrow> string \<Rightarrow> string \<Rightarrow> nat \<Rightarrow> (bool \<times> map_data \<times> nat) option" where
  "insertNewKeyValue mem d key val n =
     (case Map_IncreaseStorageKeysValues mem d n of
        (False, d1, n1) \<Rightarrow> Some (False, d1, n1)
      | (True, d1, n1) \<Rightarrow>
          let (granted, n2) = sdk_malloc mem n1 in
          if \<not> granted then
            let (d2, n3) = Map_DecreaseStorageKeysValues mem d1 n2 in Some (False, d2, n3)
          else do {
            ks \<leftarrow> put_entry (map_count d1 - 1) key (map_keys d1);
            let d2 = d1\<lparr>map_keys := Some ks\<rparr>;
            let (granted, n3) = sdk_malloc mem n2;
            if \<not> granted then
              let (d3, n4) = Map_DecreaseStorageKeysValues mem d2 n3 in Some (False, d3, n4)
            else do {
              vs \<leftarrow> put_entry (map_count d2 - 1) val (map_values d2);
              Some (True, d2\<lparr>map_values := Some vs\<rparr>, n3)
            }
          })"

definition rejects :: "map_data \<Rightarrow> string \<Rightarrow> string \<Rightarrow> bool" where
  "rejects d key val \<longleftrightarrow> (case mapFilterCallback d of None \<Rightarrow> False | Some f \<Rightarrow> \<not> f key val)"

definition Map_Add ::
  "(nat \<Rightarrow> bool) \<Rightarrow> map_data \<Rightarrow> string option \<Rightarrow> string option \<Rightarrow> nat \<Rightarrow> (map_result \<times> map_data \<times> nat) option" where
  "Map_Add mem d key val n =
     (case (key, val) of
        (Some k, Some v) \<Rightarrow> do {
          i \<leftarrow> findKey d k;
          if i \<noteq> None then Some (MAP_KEYEXISTS, d, n)
          else if rejects d k v then Some (MAP_FILTER_REJECT, d, n)
          else do {
            (ok, d1, n1) \<leftarrow> insertNewKeyValue mem d k v n;
            Some (if ok then MAP_OK else MAP_ERROR, d1, n1)
          }
        }
      | _ \<Rightarrow> Some (MAP_INVALIDARG, d, n))"

definition Map_AddOrUpdate ::
  "(nat \<Rightarrow> bool) \<Rightarrow> map_data \<Rightarrow> string option \<Rightarrow> string option \<Rightarrow> nat \<Rightarrow> (map_result \<times> map_data \<times> nat) option" where
  "Map_AddOrUpdate mem d key val n =
     (case (key, val) of
        (Some k, Some v) \<Rightarrow>
          if rejects d k v then Some (MAP_FILTER_REJECT, d, n)
          else do {
            whereIsIt \<leftarrow> findKey d k;
            case whereIsIt of
              None \<Rightarrow> do {
                (ok, d1, n1) \<leftarrow> insertNewKeyValue mem d k v n;
                Some (if ok then MAP_OK else MAP_ERROR, d1, n1)
              }
            | Some index \<Rightarrow>
                let (granted, n1) = sdk_malloc mem n in
                if \<not> granted then Some (MAP_ERROR, d, n1)
                else do {
                  vs \<leftarrow> put_entry index v (map_values d);
                  Some (MAP_OK, d\<lparr>map_values := Some vs\<rparr>, n1)
                }
          }
      | _ \<Rightarrow> Some (MAP_INVALIDARG, d, n))"

text \<open>The \<open>memmove\<close> of the entries behind a deleted one; the last one stays in its place as well.\<close>

definition move_down :: "nat \<Rightarrow> nat \<Rightarrow> string option list \<Rightarrow> string option list" where
  "move_down count i b = take i b @ take (count - i - 1) (drop (i + 1) b) @ drop (count - 1) b"

definition Map_Delete ::
  "(nat \<Rightarrow> bool) \<Rightarrow> map_data \<Rightarrow> string option \<Rightarrow> nat \<Rightarrow> (map_result \<times> map_data \<times> nat) option" where
  "Map_Delete mem d key n =
     (case key of
        None \<Rightarrow> Some (MAP_INVALIDARG, d, n)
      | Some k \<Rightarrow> do {
          whereIsIt \<leftarrow> findKey d k;
          case whereIsIt of
            None \<Rightarrow> Some (MAP_KEYNOTFOUND, d, n)
          | Some index \<Rightarrow> do {
              ks \<leftarrow> map_keys d;
              vs \<leftarrow> map_values d;
              let c = map_count d;
              if length ks < c \<or> length vs < c then None
              else
                let (d1, n1) = Map_DecreaseStorageKeysValues mem
                      (d\<lparr>map_keys := Some (move_down c index ks), map_values := Some (move_down c index vs)\<rparr>) n
                in Some (MAP_OK, d1, n1)
            }
        })"

definition Map_ContainsKey :: "map_data \<Rightarrow> string option \<Rightarrow> (map_result \<times> bool) option" where
  "Map_ContainsKey d key =
     (case key of None \<Rightarrow> Some (MAP_INVALIDARG, False) | Some k \<Rightarrow> do { i \<leftarrow> findKey d k; Some (MAP_OK, i \<noteq> None) })"

definition Map_ContainsValue :: "map_data \<Rightarrow> string option \<Rightarrow> (map_result \<times> bool) option" where
  "Map_ContainsValue d val =
     (case val of None \<Rightarrow> Some (MAP_INVALIDARG, False) | Some v \<Rightarrow> do { i \<leftarrow> findValue d v; Some (MAP_OK, i \<noteq> None) })"

definition Map_GetValueFromKey :: "map_data \<Rightarrow> string option \<Rightarrow> string option option" where
  "Map_GetValueFromKey d key =
     (case key of
        None \<Rightarrow> Some None
      | Some k \<Rightarrow> do {
          whereIsIt \<leftarrow> findKey d k;
          case whereIsIt of
            None \<Rightarrow> Some None
          | Some index \<Rightarrow> do { vs \<leftarrow> map_values d; if index < length vs then Some (vs ! index) else None }
        })"

text \<open>The copies of \<open>k\<close> strings, one request for each and one for the block before; all or none.\<close>

fun clone_strings :: "(nat \<Rightarrow> bool) \<Rightarrow> nat \<Rightarrow> string option list \<Rightarrow> nat \<Rightarrow> (string option list option \<times> nat) option" where
  "clone_strings mem 0 xs n = Some (Some [], n)"
| "clone_strings mem (Suc k) (Some x # xs) n =
     (let (granted, n1) = sdk_malloc mem n in
      if \<not> granted then Some (None, n1)
      else do { (r, n2) \<leftarrow> clone_strings mem k xs n1; Some (map_option (Cons (Some x)) r, n2) })"
| "clone_strings mem (Suc k) _ n = None"

definition Map_CloneVector ::
  "(nat \<Rightarrow> bool) \<Rightarrow> string option list option \<Rightarrow> nat \<Rightarrow> nat \<Rightarrow> (string option list option \<times> nat) option" where
  "Map_CloneVector mem source k n =
     (let (granted, n1) = sdk_malloc mem n in
      if \<not> granted then Some (None, n1) else do { b \<leftarrow> source; clone_strings mem k b n1 })"

definition Map_Clone :: "(nat \<Rightarrow> bool) \<Rightarrow> map_data option \<Rightarrow> nat \<Rightarrow> (map_data option \<times> nat) option" where
  "Map_Clone mem handle n =
     (case handle of
        None \<Rightarrow> Some (None, n)
      | Some d \<Rightarrow>
          let (granted, n1) = sdk_malloc mem n in
          if \<not> granted then Some (None, n1)
          else if map_count d = 0 then
            Some (Some \<lparr>map_keys = None, map_values = None, map_count = 0, mapFilterCallback = None\<rparr>, n1)
          else do {
            (ks, n2) \<leftarrow> Map_CloneVector mem (map_keys d) (map_count d) n1;
            case ks of
              None \<Rightarrow> Some (None, n2)
            | Some ks \<Rightarrow> do {
                (vs, n3) \<leftarrow> Map_CloneVector mem (map_values d) (map_count d) n2;
                Some (map_option (\<lambda>vs. \<lparr>map_keys = Some ks, map_values = Some vs, map_count = map_count d,
                  mapFilterCallback = mapFilterCallback d\<rparr>) vs, n3)
              }
          })"

section \<open>What the map stands for\<close>

definition holds :: "string option list option \<Rightarrow> string list \<Rightarrow> bool" where
  "holds blk xs \<longleftrightarrow> (case blk of None \<Rightarrow> xs = [] | Some b \<Rightarrow> take (length xs) b = map Some xs)"

definition map_rep :: "map_data \<Rightarrow> (string \<times> string) list \<Rightarrow> bool" where
  "map_rep d ps \<longleftrightarrow> map_count d = length ps \<and> holds (map_keys d) (map fst ps) \<and> holds (map_values d) (map snd ps) \<and>
     distinct (map fst ps)"

text \<open>The state between the growth and the storing of the new pair.\<close>

definition has_slot :: "map_data \<Rightarrow> (string \<times> string) list \<Rightarrow> bool" where
  "has_slot d ps \<longleftrightarrow> map_count d = Suc (length ps) \<and> distinct (map fst ps) \<and>
     (\<exists>ks vs. map_keys d = Some ks \<and> length ps < length ks \<and> take (length ps) ks = map Some (map fst ps) \<and>
       map_values d = Some vs \<and> length ps < length vs \<and> take (length ps) vs = map Some (map snd ps))"

lemma resized_facts:
  "length (resized blk k) = k"
  "holds blk xs \<Longrightarrow> length xs \<le> k \<Longrightarrow> take (length xs) (resized blk k) = map Some xs"
proof -
  show "length (resized blk k) = k" by (simp add: resized_def Let_def min_def split: option.split)
  assume h: "holds blk xs" and k: "length xs \<le> k"
  show "take (length xs) (resized blk k) = map Some xs"
  proof (cases blk)
    case None
    then show ?thesis using h by (simp add: holds_def)
  next
    case (Some b)
    then have b: "take (length xs) b = map Some xs" using h by (simp add: holds_def)
    have "length xs \<le> length b" using arg_cong [OF b, of length] unfolding length_take length_map by simp
    then show ?thesis using b k Some by (simp add: resized_def min_def)
  qed
qed

lemma holds_resized: "holds blk xs \<Longrightarrow> length xs \<le> k \<Longrightarrow> holds (Some (resized blk k)) xs"
  using resized_facts(2) by (simp add: holds_def)

lemma increase_storage:
  assumes r: "map_rep d ps" and i: "Map_IncreaseStorageKeysValues mem d n = (ok, d1, n1)"
  shows "mapFilterCallback d1 = mapFilterCallback d \<and> (if ok then has_slot d1 ps else map_rep d1 ps) \<and> ((\<forall>i. mem i) \<longrightarrow> ok)"
proof -
  let ?c = "length ps"
  have c: "map_count d = ?c" "holds (map_keys d) (map fst ps)" "holds (map_values d) (map snd ps)" "distinct (map fst ps)"
    using r by (simp_all add: map_rep_def)
  have k: "take ?c ((resized (map_keys d) (?c + 1))[?c := None]) = map Some (map fst ps)"
    "take ?c ((resized (map_values d) (?c + 1))[?c := None]) = map Some (map snd ps)"
    using resized_facts(2) [OF c(2), of "?c + 1"] resized_facts(2) [OF c(3), of "?c + 1"] by simp_all
  then have h: "holds (Some ((resized (map_keys d) (?c + 1))[?c := None])) (map fst ps)" by (simp add: holds_def)
  have h2: "holds (Some (resized (Some ((resized (map_keys d) (?c + 1))[?c := None])) ?c)) (map fst ps)"
    by (rule holds_resized [OF h]) simp
  show ?thesis
    using i k c h h2 by (auto simp: Map_IncreaseStorageKeysValues_def sdk_malloc_def Let_def map_rep_def has_slot_def holds_def
        resized_facts(1) split: if_splits)
qed

lemma decrease_storage:
  assumes s: "has_slot d ps" and i: "Map_DecreaseStorageKeysValues mem d n = (d1, n1)"
  shows "map_rep d1 ps" "mapFilterCallback d1 = (if ps = [] then None else mapFilterCallback d)"
proof -
  obtain ks vs where kv: "map_keys d = Some ks" "take (length ps) ks = map Some (map fst ps)"
    "map_values d = Some vs" "take (length ps) vs = map Some (map snd ps)" and c: "map_count d = Suc (length ps)" "distinct (map fst ps)"
    using s by (auto simp: has_slot_def)
  have h: "holds (Some ks) (map fst ps)" "holds (Some vs) (map snd ps)" using kv by (simp_all add: holds_def)
  then have h2: "holds (Some (resized (Some ks) (length ps))) (map fst ps)" "holds (Some (resized (Some vs) (length ps))) (map snd ps)"
    by (simp_all add: holds_resized)
  have "map_rep d1 ps \<and> mapFilterCallback d1 = (if ps = [] then None else mapFilterCallback d)"
    using i kv(1,3) c h h2
    by (cases "ps = []") (auto simp: Map_DecreaseStorageKeysValues_def map_rep_def holds_def Let_def split: prod.splits)
  then show "map_rep d1 ps" "mapFilterCallback d1 = (if ps = [] then None else mapFilterCallback d)" by blast+
qed

fun position :: "string \<Rightarrow> string list \<Rightarrow> nat option" where
  "position s [] = None"
| "position s (x # xs) = (if x = s then Some 0 else map_option Suc (position s xs))"

lemma find_string_position: "take (length xs) b = map Some xs \<Longrightarrow> find_string (length xs) b s = Some (position s xs)"
proof (induction xs arbitrary: b)
  case (Cons x xs)
  then show ?case by (cases b) auto
qed simp

lemma findKey_position: "map_rep d ps \<Longrightarrow> findKey d k = Some (position k (map fst ps))"
  using find_string_position [of "map fst ps"] by (auto simp: findKey_def map_rep_def holds_def split: option.split)

lemma position_None: "position k xs = None \<longleftrightarrow> k \<notin> set xs"
  by (induction xs) auto

lemma position_Some: "position k xs = Some i \<Longrightarrow> i < length xs \<and> xs ! i = k"
  by (induction xs arbitrary: i) (auto split: if_splits)

lemma position_lookup:
  "map_of ps k = (case position k (map fst ps) of None \<Rightarrow> None | Some i \<Rightarrow> Some (snd (ps ! i)))"
  by (induction ps) (auto split: option.split)

lemma position_update:
  "AList.update k v ps = (case position k (map fst ps) of None \<Rightarrow> ps @ [(k, v)] | Some i \<Rightarrow> ps[i := (k, v)])"
  by (induction ps) (auto split: option.split)

lemma position_delete:
  "distinct (map fst ps) \<Longrightarrow> position k (map fst ps) = Some i \<Longrightarrow> AList.delete k ps = take i ps @ drop (Suc i) ps"
proof (induction ps arbitrary: i)
  case (Cons p ps)
  have "k \<notin> fst ` set ps \<Longrightarrow> AList.delete k ps = ps" by simp
  then show ?case using Cons by (auto split: if_splits)
qed simp

lemma insert_pair:
  assumes r: "map_rep d ps" and k: "k \<notin> set (map fst ps)"
  obtains ok d1 n1 where "insertNewKeyValue mem d k v n = Some (ok, d1, n1)" "map_rep d1 (if ok then ps @ [(k, v)] else ps)"
    "mapFilterCallback d1 = mapFilterCallback d \<or> ps = [] \<and> \<not> ok \<and> mapFilterCallback d1 = None" "(\<forall>i. mem i) \<longrightarrow> ok"
proof -
  obtain ok d1 n1 where i: "Map_IncreaseStorageKeysValues mem d n = (ok, d1, n1)" by (metis prod_cases3)
  note inc = increase_storage [OF r i]
  show thesis
  proof (cases ok)
    case False
    then show ?thesis using that [of False d1 n1] inc by (auto simp: insertNewKeyValue_def i)
  next
    case True
    then have s: "has_slot d1 ps" and f: "mapFilterCallback d1 = mapFilterCallback d" using inc by simp_all
    obtain ks vs where kv: "map_keys d1 = Some ks" "length ps < length ks" "take (length ps) ks = map Some (map fst ps)"
      "map_values d1 = Some vs" "length ps < length vs" "take (length ps) vs = map Some (map snd ps)"
      and c: "map_count d1 = Suc (length ps)" "distinct (map fst ps)"
      using s by (auto simp: has_slot_def)
    let ?d2 = "d1\<lparr>map_keys := Some (ks[length ps := Some k])\<rparr>"
    have s2: "has_slot ?d2 ps" using kv c by (simp add: has_slot_def)
    obtain da na where da: "Map_DecreaseStorageKeysValues mem d1 (Suc n1) = (da, na)" by fastforce
    obtain db nb where db: "Map_DecreaseStorageKeysValues mem ?d2 (Suc (Suc n1)) = (db, nb)" by fastforce
    have fin: "map_rep (?d2\<lparr>map_values := Some (vs[length ps := Some v])\<rparr>) (ps @ [(k, v)])"
      using kv c k by (simp add: map_rep_def holds_def take_Suc_conv_app_nth)
    show ?thesis
    proof (cases "mem n1")
      case False
      then show ?thesis
        using that [of False da na] decrease_storage [OF s da] f True da
        by (auto simp: insertNewKeyValue_def i sdk_malloc_def split: if_splits)
    next
      case g: True
      show ?thesis
      proof (cases "mem (Suc n1)")
        case False
        then show ?thesis
          using that [of False db nb] decrease_storage [OF s2 db] f True g db kv c
          by (auto simp: insertNewKeyValue_def i sdk_malloc_def put_entry_def split: if_splits)
      next
        case g2: True
        show ?thesis
          by (rule that [of True "?d2\<lparr>map_values := Some (vs[length ps := Some v])\<rparr>" "Suc (Suc n1)"])
            (use True g g2 kv c f fin in \<open>simp_all add: insertNewKeyValue_def i sdk_malloc_def put_entry_def\<close>)
      qed
    qed
  qed
qed

section \<open>The operations on what the map stands for\<close>

lemma add_or_update_rep:
  assumes r: "map_rep d ps"
  obtains res d1 n1 where "Map_AddOrUpdate mem d (Some k) (Some v) n = Some (res, d1, n1)"
    "map_rep d1 (if res = MAP_OK then AList.update k v ps else ps)" "res = MAP_FILTER_REJECT \<longleftrightarrow> rejects d k v"
    "(\<forall>i. mem i) \<longrightarrow> res \<noteq> MAP_ERROR" "res \<in> {MAP_OK, MAP_ERROR, MAP_FILTER_REJECT}"
    "mapFilterCallback d1 = mapFilterCallback d \<or> ps = [] \<and> res = MAP_ERROR \<and> mapFilterCallback d1 = None"
proof (cases "rejects d k v")
  case True
  then show ?thesis using that [of MAP_FILTER_REJECT d n] r by (simp add: Map_AddOrUpdate_def)
next
  case no: False
  have keys: "map_count d = length ps" "distinct (map fst ps)" using r by (simp_all add: map_rep_def)
  show ?thesis
  proof (cases "position k (map fst ps)")
    case None
    then have k: "k \<notin> set (map fst ps)" by (simp add: position_None)
    obtain ok d1 n1 where i: "insertNewKeyValue mem d k v n = Some (ok, d1, n1)" "map_rep d1 (if ok then ps @ [(k, v)] else ps)"
      "mapFilterCallback d1 = mapFilterCallback d \<or> ps = [] \<and> \<not> ok \<and> mapFilterCallback d1 = None" "(\<forall>i. mem i) \<longrightarrow> ok"
      using insert_pair [OF r k, of mem v n] by blast
    have u: "AList.update k v ps = ps @ [(k, v)]" using None by (simp add: position_update)
    show ?thesis
      by (rule that [of "if ok then MAP_OK else MAP_ERROR" d1 n1])
        (use i None no u in \<open>auto simp: Map_AddOrUpdate_def findKey_position [OF r]\<close>)
  next
    case (Some i)
    then have i: "i < length ps" using position_Some [OF Some] by simp
    have "holds (map_values d) (map snd ps)" using r by (simp add: map_rep_def)
    then obtain vs where vs: "map_values d = Some vs" "take (length ps) vs = map Some (map snd ps)"
      using i by (auto simp: holds_def split: option.splits)
    have len: "length ps \<le> length vs" using arg_cong [OF vs(2), of length] unfolding length_take length_map by simp
    have u: "AList.update k v ps = ps[i := (k, v)]" using Some by (simp add: position_update)
    have same: "(map fst ps)[i := k] = map fst ps" using position_Some [OF Some] by (metis list_update_id)
    have rep: "map_rep (d\<lparr>map_values := Some (vs[i := Some v])\<rparr>) (ps[i := (k, v)])"
      using r vs(2) i by (simp add: map_rep_def same holds_def take_update_swap map_update)
    show ?thesis
    proof (cases "mem n")
      case True
      then show ?thesis
        using that [of MAP_OK "d\<lparr>map_values := Some (vs[i := Some v])\<rparr>" "Suc n"] no Some vs i len u rep
        by (simp add: Map_AddOrUpdate_def findKey_position [OF r] sdk_malloc_def put_entry_def)
    next
      case False
      then show ?thesis
        using that [of MAP_ERROR d "Suc n"] no Some r
        by (auto simp add: Map_AddOrUpdate_def findKey_position [OF r] sdk_malloc_def)
    qed
  qed
qed

lemma add_rep:
  assumes r: "map_rep d ps"
  obtains res d1 n1 where "Map_Add mem d (Some k) (Some v) n = Some (res, d1, n1)"
    "map_rep d1 (if res = MAP_OK then AList.update k v ps else ps)" "res = MAP_KEYEXISTS \<longleftrightarrow> k \<in> fst ` set ps"
    "res = MAP_FILTER_REJECT \<longleftrightarrow> k \<notin> fst ` set ps \<and> rejects d k v" "(\<forall>i. mem i) \<longrightarrow> res \<noteq> MAP_ERROR"
    "mapFilterCallback d1 = mapFilterCallback d \<or> ps = [] \<and> res = MAP_ERROR \<and> mapFilterCallback d1 = None"
proof (cases "k \<in> fst ` set ps")
  case True
  then have "position k (map fst ps) \<noteq> None" by (simp add: position_None)
  then show ?thesis using that [of MAP_KEYEXISTS d n] r True by (simp add: Map_Add_def findKey_position [OF r])
next
  case False
  then have pos: "position k (map fst ps) = None" by (simp add: position_None)
  have k: "k \<notin> set (map fst ps)" using False by simp
  have u: "AList.update k v ps = ps @ [(k, v)]" using pos by (simp add: position_update)
  show ?thesis
  proof (cases "rejects d k v")
    case True
    then show ?thesis using that [of MAP_FILTER_REJECT d n] r False pos by (simp add: Map_Add_def findKey_position [OF r])
  next
    case no: False
    obtain ok d1 n1 where i: "insertNewKeyValue mem d k v n = Some (ok, d1, n1)" "map_rep d1 (if ok then ps @ [(k, v)] else ps)"
      "mapFilterCallback d1 = mapFilterCallback d \<or> ps = [] \<and> \<not> ok \<and> mapFilterCallback d1 = None" "(\<forall>i. mem i) \<longrightarrow> ok"
      using insert_pair [OF r k, of mem v n] by blast
    show ?thesis
      by (rule that [of "if ok then MAP_OK else MAP_ERROR" d1 n1])
        (use i False no u pos in \<open>auto simp: Map_Add_def findKey_position [OF r]\<close>)
  qed
qed

lemma move_down_take:
  assumes "take c b = map Some xs" "length xs = c" "i < c"
  shows "take (c - 1) (move_down c i b) = map Some (take i xs @ drop (Suc i) xs)" "length b \<le> length (move_down c i b)"
proof -
  have len: "c \<le> length b" using arg_cong [OF assms(1), of length] assms(2) unfolding length_take length_map by simp
  have "take (c - i - 1) (drop (i + 1) b) = map Some (drop (Suc i) xs)"
    using arg_cong [OF assms(1), of "drop (Suc i)"] by (simp add: drop_take drop_map)
  moreover have "take i b = map Some (take i xs)"
    using arg_cong [OF assms(1), of "take i"] assms(3) by (simp add: take_map min_def)
  moreover have "length (take i xs @ drop (Suc i) xs) = c - 1" using assms(2,3) by simp
  ultimately show "take (c - 1) (move_down c i b) = map Some (take i xs @ drop (Suc i) xs)"
    using assms(2,3) by (simp add: move_down_def)
  show "length b \<le> length (move_down c i b)" using len assms(3) by (simp add: move_down_def)
qed

lemma delete_rep:
  assumes r: "map_rep d ps"
  obtains res d1 n1 where "Map_Delete mem d (Some k) n = Some (res, d1, n1)" "map_rep d1 (AList.delete k ps)"
    "res = (if k \<in> fst ` set ps then MAP_OK else MAP_KEYNOTFOUND)"
    "mapFilterCallback d1 = (if k \<in> fst ` set ps \<and> length ps = 1 then None else mapFilterCallback d)"
proof (cases "position k (map fst ps)")
  case None
  then have "k \<notin> fst ` set ps" by (simp add: position_None)
  then show ?thesis using that [of MAP_KEYNOTFOUND d n] r None by (simp add: Map_Delete_def findKey_position [OF r])
next
  case (Some i)
  then have i: "i < length ps" "k \<in> fst ` set ps" using position_Some [OF Some] position_None [of k "map fst ps"] by auto
  have rep: "map_count d = length ps" "holds (map_keys d) (map fst ps)" "holds (map_values d) (map snd ps)" "distinct (map fst ps)"
    using r by (simp_all add: map_rep_def)
  obtain ks vs where kv: "map_keys d = Some ks" "take (length ps) ks = map Some (map fst ps)"
    "map_values d = Some vs" "take (length ps) vs = map Some (map snd ps)"
    using rep(2,3) i by (auto simp: holds_def split: option.splits)
  have len: "length ps \<le> length ks" "length ps \<le> length vs"
    using arg_cong [OF kv(2), of length] arg_cong [OF kv(4), of length] unfolding length_take length_map by simp_all
  have del: "AList.delete k ps = take i ps @ drop (Suc i) ps" by (rule position_delete [OF rep(4) Some])
  have ln: "length (AList.delete k ps) = length ps - 1" using i by (simp add: del)
  let ?d = "d\<lparr>map_keys := Some (move_down (length ps) i ks), map_values := Some (move_down (length ps) i vs)\<rparr>"
  note mk = move_down_take [OF kv(2) length_map i(1)] and mv = move_down_take [OF kv(4) length_map i(1)]
  have long: "length ps - 1 < length (move_down (length ps) i ks)" "length ps - 1 < length (move_down (length ps) i vs)"
    using mk(2) mv(2) len i(1) by linarith+
  have "distinct (map fst (AList.delete k ps))" using rep(4) by (rule distinct_delete)
  then have slot: "has_slot ?d (AList.delete k ps)"
    using mk(1) mv(1) ln rep(1) i(1) long by (simp add: has_slot_def del take_map drop_map)
  obtain d1 n1 where d1: "Map_DecreaseStorageKeysValues mem ?d n = (d1, n1)" by fastforce
  note dec = decrease_storage [OF slot d1]
  have "AList.delete k ps = [] \<longleftrightarrow> length ps = 1"
    unfolding length_0_conv [symmetric] ln using i(1) by linarith
  then show ?thesis
    using that [of MAP_OK d1 n1] dec d1 i Some kv len rep(1) by (simp add: Map_Delete_def findKey_position [OF r] Let_def)
qed

lemma get_value_rep:
  assumes r: "map_rep d ps"
  shows "Map_GetValueFromKey d (Some k) = Some (map_of ps k)"
    and "Map_ContainsKey d (Some k) = Some (MAP_OK, k \<in> fst ` set ps)"
proof -
  show "Map_ContainsKey d (Some k) = Some (MAP_OK, k \<in> fst ` set ps)"
    using position_None [of k "map fst ps"] by (auto simp: Map_ContainsKey_def findKey_position [OF r])
  show "Map_GetValueFromKey d (Some k) = Some (map_of ps k)"
  proof (cases "position k (map fst ps)")
    case None
    then show ?thesis by (simp add: Map_GetValueFromKey_def findKey_position [OF r] position_lookup)
  next
    case (Some i)
    then have i: "i < length ps" using position_Some [OF Some] by simp
    have "holds (map_values d) (map snd ps)" using r by (simp add: map_rep_def)
    then obtain vs where vs: "map_values d = Some vs" "take (length ps) vs = map Some (map snd ps)"
      using i by (auto simp: holds_def split: option.splits)
    have len: "length ps \<le> length vs" using arg_cong [OF vs(2), of length] unfolding length_take length_map by simp
    have "vs ! i = Some (snd (ps ! i))" using arg_cong [OF vs(2), of "\<lambda>l. l ! i"] i by simp
    then show ?thesis using Some vs i len by (simp add: Map_GetValueFromKey_def findKey_position [OF r] position_lookup)
  qed
qed

lemma clone_strings_all:
  assumes "take (length xs) b = map Some xs"
  shows "\<exists>r n1. clone_strings mem (length xs) b n = Some (r, n1) \<and> (r = None \<or> r = Some (map Some xs)) \<and> ((\<forall>i. mem i) \<longrightarrow> r \<noteq> None)"
  using assms
proof (induction xs arbitrary: b n)
  case (Cons x xs)
  then obtain b' where b: "b = Some x # b'" "take (length xs) b' = map Some xs" by (cases b) auto
  from Cons.IH [OF this(2), of "Suc n"] show ?case by (auto simp: b(1) sdk_malloc_def)
qed simp

lemma clone_vector_all:
  assumes "holds blk xs" "xs \<noteq> []"
  shows "\<exists>r n1. Map_CloneVector mem blk (length xs) n = Some (r, n1) \<and> (r = None \<or> r = Some (map Some xs)) \<and> ((\<forall>i. mem i) \<longrightarrow> r \<noteq> None)"
proof -
  obtain b where b: "blk = Some b" "take (length xs) b = map Some xs" using assms by (auto simp: holds_def split: option.splits)
  show ?thesis using clone_strings_all [OF b(2), of mem "Suc n"] by (auto simp: Map_CloneVector_def sdk_malloc_def b(1))
qed

lemma clone_rep:
  assumes r: "map_rep d ps"
  obtains res n1 where "Map_Clone mem (Some d) n = Some (res, n1)" "(\<forall>i. mem i) \<longrightarrow> res \<noteq> None"
    "\<forall>d1. res = Some d1 \<longrightarrow> map_rep d1 ps \<and> mapFilterCallback d1 = (if ps = [] then None else mapFilterCallback d)"
proof (cases "ps = []")
  case True
  then have "map_count d = 0" using r by (simp add: map_rep_def)
  then show ?thesis
    using that [of "if mem n then Some \<lparr>map_keys = None, map_values = None, map_count = 0, mapFilterCallback = None\<rparr> else None" "Suc n"] True
    by (auto simp: Map_Clone_def sdk_malloc_def map_rep_def holds_def)
next
  case False
  have rep: "map_count d = length ps" "holds (map_keys d) (map fst ps)" "holds (map_values d) (map snd ps)" "distinct (map fst ps)"
    using r by (simp_all add: map_rep_def)
  obtain ks n2 where ks: "Map_CloneVector mem (map_keys d) (length ps) (Suc n) = Some (ks, n2)"
    "ks = None \<or> ks = Some (map Some (map fst ps))" "(\<forall>i. mem i) \<longrightarrow> ks \<noteq> None"
    using clone_vector_all [OF rep(2), of mem "Suc n"] False by auto
  obtain vs n3 where vs: "Map_CloneVector mem (map_values d) (length ps) n2 = Some (vs, n3)"
    "vs = None \<or> vs = Some (map Some (map snd ps))" "(\<forall>i. mem i) \<longrightarrow> vs \<noteq> None"
    using clone_vector_all [OF rep(3), of mem n2] False by auto
  have "\<exists>res n1. Map_Clone mem (Some d) n = Some (res, n1) \<and> ((\<forall>i. mem i) \<longrightarrow> res \<noteq> None) \<and>
    (\<forall>d1. res = Some d1 \<longrightarrow> map_rep d1 ps \<and> mapFilterCallback d1 = mapFilterCallback d)"
    using False ks vs rep by (auto simp: Map_Clone_def sdk_malloc_def map_rep_def holds_def)
  then show ?thesis using that False by auto
qed

section \<open>Runs\<close>

datatype map_call = Add string string | Add_Or_Update string string | Delete string

fun map_do :: "(nat \<Rightarrow> bool) \<Rightarrow> map_data \<Rightarrow> map_call \<Rightarrow> nat \<Rightarrow> (map_result \<times> map_data \<times> nat) option" where
  "map_do mem d (Add k v) n = Map_Add mem d (Some k) (Some v) n"
| "map_do mem d (Add_Or_Update k v) n = Map_AddOrUpdate mem d (Some k) (Some v) n"
| "map_do mem d (Delete k) n = Map_Delete mem d (Some k) n"

fun map_run :: "(nat \<Rightarrow> bool) \<Rightarrow> map_data \<Rightarrow> map_call list \<Rightarrow> nat \<Rightarrow> (map_result list \<times> map_data \<times> nat) option" where
  "map_run mem d [] n = Some ([], d, n)"
| "map_run mem d (c # cs) n = do {
     (r, d1, n1) \<leftarrow> map_do mem d c n;
     (rs, d2, n2) \<leftarrow> map_run mem d1 cs n1;
     Some (r # rs, d2, n2)
   }"

text \<open>What a call with its result does to the list of pairs.\<close>

fun map_effect :: "(string \<times> string) list \<Rightarrow> map_call \<times> map_result \<Rightarrow> (string \<times> string) list" where
  "map_effect ps (Add k v, MAP_OK) = AList.update k v ps"
| "map_effect ps (Add_Or_Update k v, MAP_OK) = AList.update k v ps"
| "map_effect ps (Delete k, MAP_OK) = AList.delete k ps"
| "map_effect ps _ = ps"

lemma map_effect_failed [simp]: "r \<noteq> MAP_OK \<Longrightarrow> map_effect ps (c, r) = ps"
  by (cases c; cases r) simp_all

text \<open>
  The calls that can lose the filter, which goes with the storage: the deletion of the only pair, and a request for memory that
  is refused while the map is empty.
\<close>

fun loses_filter :: "(string \<times> string) list \<Rightarrow> map_call \<times> map_result \<Rightarrow> bool" where
  "loses_filter ps (c, MAP_ERROR) \<longleftrightarrow> ps = []"
| "loses_filter ps (Delete k, MAP_OK) \<longleftrightarrow> length ps = 1"
| "loses_filter ps _ \<longleftrightarrow> False"

fun keeps_filter :: "(string \<times> string) list \<Rightarrow> (map_call \<times> map_result) list \<Rightarrow> bool" where
  "keeps_filter ps [] \<longleftrightarrow> True"
| "keeps_filter ps (c # cs) \<longleftrightarrow> \<not> loses_filter ps c \<and> keeps_filter (map_effect ps c) cs"

definition filtered :: "map_filter \<Rightarrow> map_data \<Rightarrow> (string \<times> string) list \<Rightarrow> bool" where
  "filtered f d ps \<longleftrightarrow> mapFilterCallback d = None \<or> mapFilterCallback d = Some f \<and> (\<forall>(k, v) \<in> set ps. f k v)"

lemma set_update: "set (AList.update k v ps) \<subseteq> insert (k, v) (set ps)"
  by (induction ps) auto

lemma filtered_update: "filtered f d ps \<Longrightarrow> \<not> rejects d k v \<Longrightarrow> mapFilterCallback d1 = mapFilterCallback d \<Longrightarrow>
    filtered f d1 (AList.update k v ps)"
  using set_update [of k v ps] by (auto simp: filtered_def rejects_def)

lemma map_do_rep:
  assumes r: "map_rep d ps" and f: "filtered f d ps"
  shows "\<exists>res d1 n1. map_do mem d c n = Some (res, d1, n1) \<and> map_rep d1 (map_effect ps (c, res)) \<and>
    filtered f d1 (map_effect ps (c, res)) \<and> ((\<forall>i. mem i) \<longrightarrow> res \<noteq> MAP_ERROR) \<and>
    (mapFilterCallback d1 = mapFilterCallback d \<or> loses_filter ps (c, res))"
proof (cases c)
  case (Add k v)
  obtain res d1 n1 where a: "Map_Add mem d (Some k) (Some v) n = Some (res, d1, n1)"
    "map_rep d1 (if res = MAP_OK then AList.update k v ps else ps)" "res = MAP_KEYEXISTS \<longleftrightarrow> k \<in> fst ` set ps"
    "res = MAP_FILTER_REJECT \<longleftrightarrow> k \<notin> fst ` set ps \<and> rejects d k v" "(\<forall>i. mem i) \<longrightarrow> res \<noteq> MAP_ERROR"
    "mapFilterCallback d1 = mapFilterCallback d \<or> ps = [] \<and> res = MAP_ERROR \<and> mapFilterCallback d1 = None"
    by (rule add_rep [OF r])
  show ?thesis
  proof (cases "res = MAP_OK")
    case True
    then show ?thesis using a Add filtered_update [OF f, of k v d1] by auto
  next
    case False
    then show ?thesis using a Add f by (auto simp: filtered_def)
  qed
next
  case (Add_Or_Update k v)
  obtain res d1 n1 where a: "Map_AddOrUpdate mem d (Some k) (Some v) n = Some (res, d1, n1)"
    "map_rep d1 (if res = MAP_OK then AList.update k v ps else ps)" "res = MAP_FILTER_REJECT \<longleftrightarrow> rejects d k v"
    "(\<forall>i. mem i) \<longrightarrow> res \<noteq> MAP_ERROR" "res \<in> {MAP_OK, MAP_ERROR, MAP_FILTER_REJECT}"
    "mapFilterCallback d1 = mapFilterCallback d \<or> ps = [] \<and> res = MAP_ERROR \<and> mapFilterCallback d1 = None"
    by (rule add_or_update_rep [OF r])
  show ?thesis
  proof (cases "res = MAP_OK")
    case True
    then show ?thesis using a Add_Or_Update filtered_update [OF f, of k v d1] by auto
  next
    case False
    then show ?thesis using a Add_Or_Update f by (auto simp: filtered_def)
  qed
next
  case (Delete k)
  obtain res d1 n1 where a: "Map_Delete mem d (Some k) n = Some (res, d1, n1)" "map_rep d1 (AList.delete k ps)"
    "res = (if k \<in> fst ` set ps then MAP_OK else MAP_KEYNOTFOUND)"
    "mapFilterCallback d1 = (if k \<in> fst ` set ps \<and> length ps = 1 then None else mapFilterCallback d)"
    by (rule delete_rep [OF r])
  have s: "set (AList.delete k ps) \<subseteq> set ps" by (auto simp: AList.delete_eq)
  show ?thesis
  proof (cases "k \<in> fst ` set ps")
    case True
    then show ?thesis using a Delete f s by (cases "length ps = 1") (auto simp: filtered_def)
  next
    case False
    then show ?thesis using a Delete f by (auto simp: filtered_def)
  qed
qed

lemma map_run_rep:
  assumes "map_rep d ps" "filtered f d ps"
  shows "\<exists>rs d1 n1. map_run mem d cs n = Some (rs, d1, n1) \<and> length rs = length cs \<and>
    map_rep d1 (foldl map_effect ps (zip cs rs)) \<and> filtered f d1 (foldl map_effect ps (zip cs rs)) \<and>
    ((\<forall>i. mem i) \<longrightarrow> MAP_ERROR \<notin> set rs) \<and>
    (keeps_filter ps (zip cs rs) \<longrightarrow> mapFilterCallback d1 = mapFilterCallback d)"
  using assms
proof (induction cs arbitrary: d ps n)
  case (Cons c cs)
  obtain res d1 n1 where 1: "map_do mem d c n = Some (res, d1, n1)" "map_rep d1 (map_effect ps (c, res))"
    "filtered f d1 (map_effect ps (c, res))" "(\<forall>i. mem i) \<longrightarrow> res \<noteq> MAP_ERROR"
    "mapFilterCallback d1 = mapFilterCallback d \<or> loses_filter ps (c, res)"
    using map_do_rep [OF Cons.prems, of mem c n] by blast
  from Cons.IH [OF 1(2,3), of n1] obtain rs d2 n2 where 2: "map_run mem d1 cs n1 = Some (rs, d2, n2)" "length rs = length cs"
    "map_rep d2 (foldl map_effect (map_effect ps (c, res)) (zip cs rs))"
    "filtered f d2 (foldl map_effect (map_effect ps (c, res)) (zip cs rs))" "(\<forall>i. mem i) \<longrightarrow> MAP_ERROR \<notin> set rs"
    "keeps_filter (map_effect ps (c, res)) (zip cs rs) \<longrightarrow> mapFilterCallback d2 = mapFilterCallback d1"
    by blast
  show ?case
    by (rule exI [of _ "res # rs"], rule exI [of _ d2], rule exI [of _ n2]) (use 1 2 in auto)
qed simp

lemma created_rep: "Map_Create mem f n = (Some d, n1) \<Longrightarrow> map_rep d [] \<and> mapFilterCallback d = f"
  by (auto simp: Map_Create_def sdk_malloc_def map_rep_def holds_def split: if_splits)

text \<open>
  C30: whatever is added to, updated in and deleted from a new map, and whatever memory is refused on the way, no NULL
  entry is read and nothing past a block; the map stands for the list of pairs that the successful calls make, a
  call that fails changes nothing there, and a lookup finds what the list has; a call fails for memory only when memory was refused.
  As long as the only pair of the map is not deleted and no memory is refused while it is empty, the map keeps its filter,
  and every pair in it was accepted by it.
\<close>

theorem sdk_map_runs:
  assumes "Map_Create mem (Some f) n = (Some d, n1)"
  shows "\<exists>rs d' n'. map_run mem d calls n1 = Some (rs, d', n') \<and> length rs = length calls \<and>
    (let ps = foldl map_effect [] (zip calls rs) in
      map_rep d' ps \<and> (\<forall>k. Map_GetValueFromKey d' (Some k) = Some (map_of ps k)) \<and>
      (keeps_filter [] (zip calls rs) \<longrightarrow> mapFilterCallback d' = Some f) \<and>
      (mapFilterCallback d' \<noteq> None \<longrightarrow> (\<forall>(k, v) \<in> set ps. f k v))) \<and>
    ((\<forall>i. mem i) \<longrightarrow> MAP_ERROR \<notin> set rs)"
proof -
  have d: "map_rep d []" "filtered f d []" "mapFilterCallback d = Some f"
    using created_rep [OF assms] by (simp_all add: filtered_def)
  show ?thesis
    using map_run_rep [OF d(1,2), of mem calls n1] get_value_rep(1) d(3) by (fastforce simp: Let_def filtered_def)
qed

theorem sdk_map_runs_witness:
  "\<exists>rs d' n'. map_run (\<lambda>i. i \<noteq> 3) \<lparr>map_keys = None, map_values = None, map_count = 0, mapFilterCallback = Some (\<lambda>k v. k \<noteq> v)\<rparr>
      [Add ''a'' ''b'', Add_Or_Update ''a'' ''c'', Delete ''a''] 1 = Some (rs, d', n') \<and> length rs = 3"
  using sdk_map_runs [of "\<lambda>i. i \<noteq> 3" "\<lambda>k v. k \<noteq> v" 0 _ 1 "[Add ''a'' ''b'', Add_Or_Update ''a'' ''c'', Delete ''a'']"]
  by (fastforce simp: Map_Create_def sdk_malloc_def)

text \<open>A map without a filter is a store of named values, when memory is granted.\<close>

definition plain_map :: "map_data \<Rightarrow> bool" where
  "plain_map d \<longleftrightarrow> mapFilterCallback d = None \<and> (\<exists>ps. map_rep d ps)"

definition map_lookup :: "map_data \<Rightarrow> string \<Rightarrow> string option" where
  "map_lookup d k = the (Map_GetValueFromKey d (Some k))"

definition map_put :: "map_data \<Rightarrow> string \<Rightarrow> string \<Rightarrow> map_result + map_data" where
  "map_put d k v = (case Map_AddOrUpdate (\<lambda>_. True) d (Some k) (Some v) 0 of
     Some (MAP_OK, d1, n) \<Rightarrow> Inr d1 | Some (r, d1, n) \<Rightarrow> Inl r | None \<Rightarrow> Inl MAP_ERROR)"

definition map_remove :: "map_data \<Rightarrow> string \<Rightarrow> map_result + map_data" where
  "map_remove d k = (case Map_Delete (\<lambda>_. True) d (Some k) 0 of
     Some (MAP_OK, d1, n) \<Rightarrow> Inr d1 | Some (r, d1, n) \<Rightarrow> Inl r | None \<Rightarrow> Inl MAP_ERROR)"

definition map_clear :: "map_data \<Rightarrow> map_data" where
  "map_clear d = the (fst (Map_Create (\<lambda>_. True) None 0))"

lemma map_lookup_rep: "map_rep d ps \<Longrightarrow> map_lookup d = map_of ps"
  by (rule ext) (simp add: map_lookup_def get_value_rep(1))

interpretation sdk_map: key_store plain_map map_lookup map_put map_remove map_clear
proof
  fix d k v
  assume "plain_map d"
  then obtain ps where ps: "map_rep d ps" "mapFilterCallback d = None" by (auto simp: plain_map_def)
  obtain res d1 n1 where a: "Map_AddOrUpdate (\<lambda>_. True) d (Some k) (Some v) 0 = Some (res, d1, n1)"
    "map_rep d1 (if res = MAP_OK then AList.update k v ps else ps)" "res = MAP_FILTER_REJECT \<longleftrightarrow> rejects d k v"
    "(\<forall>i. (\<lambda>_. True) (i :: nat)) \<longrightarrow> res \<noteq> MAP_ERROR" "res \<in> {MAP_OK, MAP_ERROR, MAP_FILTER_REJECT}"
    "mapFilterCallback d1 = mapFilterCallback d \<or> ps = [] \<and> res = MAP_ERROR \<and> mapFilterCallback d1 = None"
    by (rule add_or_update_rep [OF ps(1)])
  have "res = MAP_OK" using a ps(2) by (auto simp: rejects_def)
  then show "\<exists>t'. map_put d k v = Inr t' \<and> plain_map t' \<and> map_lookup t' = (map_lookup d)(k \<mapsto> v)"
    using a ps by (auto simp: map_put_def plain_map_def map_lookup_rep update_conv')
next
  fix d k
  assume "plain_map d"
  then obtain ps where ps: "map_rep d ps" "mapFilterCallback d = None" by (auto simp: plain_map_def)
  obtain res d1 n1 where a: "Map_Delete (\<lambda>_. True) d (Some k) 0 = Some (res, d1, n1)" "map_rep d1 (AList.delete k ps)"
    "res = (if k \<in> fst ` set ps then MAP_OK else MAP_KEYNOTFOUND)"
    "mapFilterCallback d1 = (if k \<in> fst ` set ps \<and> length ps = 1 then None else mapFilterCallback d)"
    by (rule delete_rep [OF ps(1)])
  have l: "map_lookup d k = None \<longleftrightarrow> k \<notin> fst ` set ps" using map_lookup_rep [OF ps(1)] by (simp add: map_of_eq_None_iff)
  show "map_lookup d k \<noteq> None \<Longrightarrow> \<exists>t'. map_remove d k = Inr t' \<and> plain_map t' \<and> map_lookup t' = (map_lookup d)(k := None)"
    using a ps l by (auto simp: map_remove_def plain_map_def map_lookup_rep delete_conv')
  show "map_lookup d k = None \<Longrightarrow> \<exists>e. map_remove d k = Inl e" using a l by (auto simp: map_remove_def)
next
  fix d
  show "plain_map (map_clear d) \<and> map_lookup (map_clear d) = (\<lambda>_. None)"
    using created_rep [of "\<lambda>_. True" None 0 "map_clear d" 1]
    by (auto simp: map_clear_def Map_Create_def sdk_malloc_def plain_map_def map_lookup_rep)
qed

text \<open>The filter is gone after the last pair was deleted, after the first could not be stored, and in the copy of an empty map.\<close>

lemma filter_is_lost:
  assumes "map_rep d [(k, v)]"
  shows "\<exists>d1 n1. Map_Delete mem d (Some k) n = Some (MAP_OK, d1, n1) \<and> \<not> rejects d1 k' v'"
proof -
  obtain res d1 n1 where a: "Map_Delete mem d (Some k) n = Some (res, d1, n1)"
    "res = (if k \<in> fst ` set [(k, v)] then MAP_OK else MAP_KEYNOTFOUND)"
    "mapFilterCallback d1 = (if k \<in> fst ` set [(k, v)] \<and> length [(k, v)] = 1 then None else mapFilterCallback d)"
    by (rule delete_rep [OF assms])
  then show ?thesis by (simp add: rejects_def)
qed

end
