(* ===== verification/Sdk_Message.thy ===== *)
theory Sdk_Message
  imports Sdk_Map
begin

text \<open>
  The messages of the Azure SDK (src/azure-iot-sdk-c/iothub_client/src/iothub_message.c).  A message is a value; a handle
  that may be NULL is an option.  Memory is asked for as in the map of the properties: \<open>mem i\<close> says whether the
  \<open>i\<close>-th request is granted, and operations take and give the number of requests.  The lemmas show what the
  setters store, which properties are refused, and that a clone is the same message.
\<close>

section \<open>Messages\<close>

datatype message_result = IOTHUB_MESSAGE_OK | IOTHUB_MESSAGE_INVALID_ARG | IOTHUB_MESSAGE_INVALID_TYPE | IOTHUB_MESSAGE_ERROR

datatype content_type = IOTHUBMESSAGE_BYTEARRAY | IOTHUBMESSAGE_STRING | IOTHUBMESSAGE_UNKNOWN

datatype message_value = Byte_Array "char list" | Text string

record diagnostic_data =
  diagnosticId :: "string option"
  diagnosticCreationTimeUtc :: "string option"

record message_data =
  message_value :: message_value
  message_properties :: map_data
  messageId :: "string option"
  correlationId :: "string option"
  userDefinedContentType :: "string option"
  message_encoding :: "string option"
  outputName :: "string option"
  inputName :: "string option"
  connectionModuleId :: "string option"
  connectionDeviceId :: "string option"
  diagnosticData :: "diagnostic_data option"
  is_security_message :: bool
  creationTimeUtc :: "string option"
  userId :: "string option"
  dispositionContext :: "(nat \<times> nat) option"
  componentName :: "string option"

text \<open>The loop over the characters; the string's terminator is the end of the list.\<close>

fun ContainsValidUsAscii :: "string \<Rightarrow> bool" where
  "ContainsValidUsAscii [] = True"
| "ContainsValidUsAscii (c # s) =
     (if c = NUL then True
      else if (of_char c :: nat) < 32 \<or> 126 < (of_char c :: nat) then False
      else ContainsValidUsAscii s)"

definition ValidateAsciiCharactersFilter :: map_filter where
  "ValidateAsciiCharactersFilter mapKey mapValue \<longleftrightarrow> ContainsValidUsAscii mapKey \<and> ContainsValidUsAscii mapValue"

text \<open>The block of a buffer or string and the block of its bytes.\<close>

definition two_blocks :: "(nat \<Rightarrow> bool) \<Rightarrow> nat \<Rightarrow> bool \<times> nat" where
  "two_blocks mem n =
     (let (granted, n1) = sdk_malloc mem n in if granted then sdk_malloc mem n1 else (False, n1))"

definition new_message :: "(nat \<Rightarrow> bool) \<Rightarrow> message_value \<Rightarrow> nat \<Rightarrow> message_data option \<times> nat" where
  "new_message mem v n =
     (let (granted, n1) = sdk_malloc mem n in
      if \<not> granted then (None, n1)
      else let (granted, n2) = two_blocks mem n1 in
        if \<not> granted then (None, n2)
        else case Map_Create mem (Some ValidateAsciiCharactersFilter) n2 of
            (None, n3) \<Rightarrow> (None, n3)
          | (Some properties, n3) \<Rightarrow>
              (Some \<lparr>message_value = v, message_properties = properties, messageId = None, correlationId = None,
                 userDefinedContentType = None, message_encoding = None, outputName = None, inputName = None,
                 connectionModuleId = None, connectionDeviceId = None, diagnosticData = None, is_security_message = False,
                 creationTimeUtc = None, userId = None, dispositionContext = None, componentName = None\<rparr>, n3))"

definition IoTHubMessage_CreateFromByteArray ::
  "(nat \<Rightarrow> bool) \<Rightarrow> char list option \<Rightarrow> nat \<Rightarrow> nat \<Rightarrow> message_data option \<times> nat" where
  "IoTHubMessage_CreateFromByteArray mem byteArray len n =
     (case byteArray of
        None \<Rightarrow> if len \<noteq> 0 then (None, n) else new_message mem (Byte_Array []) n
      | Some b \<Rightarrow> new_message mem (Byte_Array (take len b)) n)"

definition IoTHubMessage_CreateFromString :: "(nat \<Rightarrow> bool) \<Rightarrow> string option \<Rightarrow> nat \<Rightarrow> message_data option \<times> nat" where
  "IoTHubMessage_CreateFromString mem source n =
     (case source of None \<Rightarrow> (None, n) | Some s \<Rightarrow> new_message mem (Text s) n)"

text \<open>The copies of strings that are not NULL, in order, up to the first that is refused.\<close>

fun copy_strings :: "(nat \<Rightarrow> bool) \<Rightarrow> string option list \<Rightarrow> nat \<Rightarrow> string option list option \<times> nat" where
  "copy_strings mem [] n = (Some [], n)"
| "copy_strings mem (None # ss) n = (case copy_strings mem ss n of (r, n1) \<Rightarrow> (map_option (Cons None) r, n1))"
| "copy_strings mem (Some s # ss) n =
     (let (granted, n1) = sdk_malloc mem n in
      if \<not> granted then (None, n1)
      else case copy_strings mem ss n1 of (r, n2) \<Rightarrow> (map_option (Cons (Some s)) r, n2))"

definition CloneDiagnosticPropertyData :: "(nat \<Rightarrow> bool) \<Rightarrow> diagnostic_data \<Rightarrow> nat \<Rightarrow> diagnostic_data option \<times> nat" where
  "CloneDiagnosticPropertyData mem source n =
     (let (granted, n1) = sdk_malloc mem n in
      if \<not> granted then (None, n1)
      else case copy_strings mem [diagnosticCreationTimeUtc source, diagnosticId source] n1 of
          (Some [time, ident], n2) \<Rightarrow> (Some \<lparr>diagnosticId = ident, diagnosticCreationTimeUtc = time\<rparr>, n2)
        | (_, n2) \<Rightarrow> (None, n2))"

definition clone_diagnostic :: "(nat \<Rightarrow> bool) \<Rightarrow> diagnostic_data option \<Rightarrow> nat \<Rightarrow> diagnostic_data option option \<times> nat" where
  "clone_diagnostic mem source n =
     (case source of
        None \<Rightarrow> (Some None, n)
      | Some data \<Rightarrow> (case CloneDiagnosticPropertyData mem data n of (r, n1) \<Rightarrow> (map_option Some r, n1)))"

definition IoTHubMessage_Clone :: "(nat \<Rightarrow> bool) \<Rightarrow> message_data option \<Rightarrow> nat \<Rightarrow> (message_data option \<times> nat) option" where
  "IoTHubMessage_Clone mem msg n =
     (case msg of
        None \<Rightarrow> Some (None, n)
      | Some m \<Rightarrow>
          let (granted, n1) = sdk_malloc mem n in
          if \<not> granted then Some (None, n1)
          else case copy_strings mem [messageId m, correlationId m, userDefinedContentType m, message_encoding m] n1 of
              (Some [mid, cid, ctype, enc], n2) \<Rightarrow>
                (case clone_diagnostic mem (diagnosticData m) n2 of
                   (None, n3) \<Rightarrow> Some (None, n3)
                 | (Some diag, n3) \<Rightarrow>
                     (case copy_strings mem [outputName m, inputName m, creationTimeUtc m, userId m, connectionModuleId m,
                          connectionDeviceId m, componentName m] n3 of
                        (Some [output, input, created, user, module_id, device, component], n4) \<Rightarrow>
                          let (granted, n5) = two_blocks mem n4 in
                          if \<not> granted then Some (None, n5)
                          else do {
                            (properties, n6) \<leftarrow> Map_Clone mem (Some (message_properties m)) n5;
                            Some (map_option (\<lambda>p. \<lparr>message_value = message_value m, message_properties = p, messageId = mid,
                              correlationId = cid, userDefinedContentType = ctype, message_encoding = enc, outputName = output,
                              inputName = input, connectionModuleId = module_id, connectionDeviceId = device, diagnosticData = diag,
                              is_security_message = is_security_message m, creationTimeUtc = created, userId = user,
                              dispositionContext = None, componentName = component\<rparr>) properties, n6)
                          }
                      | (_, n4) \<Rightarrow> Some (None, n4)))
            | (_, n2) \<Rightarrow> Some (None, n2))"

text \<open>Destroying a message runs the function that was set for its disposition context.\<close>

definition IoTHubMessage_Destroy :: "message_data option \<Rightarrow> (nat \<times> nat) list" where
  "IoTHubMessage_Destroy msg =
     (case msg of None \<Rightarrow> [] | Some m \<Rightarrow> (case dispositionContext m of None \<Rightarrow> [] | Some (ctx, destroy) \<Rightarrow> [(destroy, ctx)]))"

section \<open>Reading and setting\<close>

definition IoTHubMessage_GetByteArray :: "message_data option \<Rightarrow> message_result \<times> char list" where
  "IoTHubMessage_GetByteArray msg =
     (case msg of
        None \<Rightarrow> (IOTHUB_MESSAGE_INVALID_ARG, [])
      | Some m \<Rightarrow> (case message_value m of Byte_Array b \<Rightarrow> (IOTHUB_MESSAGE_OK, b) | _ \<Rightarrow> (IOTHUB_MESSAGE_INVALID_ARG, [])))"

definition IoTHubMessage_GetString :: "message_data option \<Rightarrow> string option" where
  "IoTHubMessage_GetString msg =
     (case msg of None \<Rightarrow> None | Some m \<Rightarrow> (case message_value m of Text s \<Rightarrow> Some s | _ \<Rightarrow> None))"

definition IoTHubMessage_GetContentType :: "message_data option \<Rightarrow> content_type" where
  "IoTHubMessage_GetContentType msg =
     (case msg of
        None \<Rightarrow> IOTHUBMESSAGE_UNKNOWN
      | Some m \<Rightarrow> (case message_value m of Byte_Array _ \<Rightarrow> IOTHUBMESSAGE_BYTEARRAY | Text _ \<Rightarrow> IOTHUBMESSAGE_STRING))"

definition IoTHubMessage_Properties :: "message_data option \<Rightarrow> map_data option" where
  "IoTHubMessage_Properties msg = map_option message_properties msg"

definition IoTHubMessage_SetProperty ::
  "(nat \<Rightarrow> bool) \<Rightarrow> message_data option \<Rightarrow> string option \<Rightarrow> string option \<Rightarrow> nat \<Rightarrow>
    (message_result \<times> message_data option \<times> nat) option" where
  "IoTHubMessage_SetProperty mem msg key val n =
     (case (msg, key, val) of
        (Some m, Some _, Some _) \<Rightarrow> do {
          (r, p, n1) \<leftarrow> Map_AddOrUpdate mem (message_properties m) key val n;
          Some (if r = MAP_FILTER_REJECT then IOTHUB_MESSAGE_INVALID_TYPE
                else if r \<noteq> MAP_OK then IOTHUB_MESSAGE_ERROR else IOTHUB_MESSAGE_OK,
                Some (m\<lparr>message_properties := p\<rparr>), n1)
        }
      | _ \<Rightarrow> Some (IOTHUB_MESSAGE_INVALID_ARG, msg, n))"

definition IoTHubMessage_GetProperty :: "message_data option \<Rightarrow> string option \<Rightarrow> string option option" where
  "IoTHubMessage_GetProperty msg key =
     (case (msg, key) of
        (Some m, Some _) \<Rightarrow> do {
          (r, key_exists) \<leftarrow> Map_ContainsKey (message_properties m) key;
          if r = MAP_OK \<and> key_exists then Map_GetValueFromKey (message_properties m) key else Some None
        }
      | _ \<Rightarrow> Some None)"

text \<open>
  The setters of strings: the old string is freed first, so that the field is NULL when the copy is refused.  Only
  the content encoding is copied before the old one is freed.
\<close>

definition set_field ::
  "(nat \<Rightarrow> bool) \<Rightarrow> (string option \<Rightarrow> message_data \<Rightarrow> message_data) \<Rightarrow> message_data option \<Rightarrow> string option \<Rightarrow> nat \<Rightarrow>
    message_result \<times> message_data option \<times> nat" where
  "set_field mem upd msg s n =
     (case (msg, s) of
        (Some m, Some str) \<Rightarrow>
          let (granted, n1) = sdk_malloc mem n in
          if granted then (IOTHUB_MESSAGE_OK, Some (upd (Some str) m), n1) else (IOTHUB_MESSAGE_ERROR, Some (upd None m), n1)
      | _ \<Rightarrow> (IOTHUB_MESSAGE_INVALID_ARG, msg, n))"

definition set_content_encoding :: "(nat \<Rightarrow> bool) \<Rightarrow> message_data \<Rightarrow> string \<Rightarrow> nat \<Rightarrow> bool \<times> message_data \<times> nat" where
  "set_content_encoding mem m enc n =
     (let (granted, n1) = sdk_malloc mem n in if granted then (True, m\<lparr>message_encoding := Some enc\<rparr>, n1) else (False, m, n1))"

definition IoTHubMessage_SetContentEncodingSystemProperty ::
  "(nat \<Rightarrow> bool) \<Rightarrow> message_data option \<Rightarrow> string option \<Rightarrow> nat \<Rightarrow> message_result \<times> message_data option \<times> nat" where
  "IoTHubMessage_SetContentEncodingSystemProperty mem msg s n =
     (case (msg, s) of
        (Some m, Some enc) \<Rightarrow>
          (case set_content_encoding mem m enc n of
             (ok, m1, n1) \<Rightarrow> (if ok then IOTHUB_MESSAGE_OK else IOTHUB_MESSAGE_ERROR, Some m1, n1))
      | _ \<Rightarrow> (IOTHUB_MESSAGE_INVALID_ARG, msg, n))"

definition IoTHubMessage_GetContentEncodingSystemProperty :: "message_data option \<Rightarrow> string option" where
  "IoTHubMessage_GetContentEncodingSystemProperty msg = Option.bind msg message_encoding"

definition IoTHubMessage_SetAsSecurityMessage ::
  "(nat \<Rightarrow> bool) \<Rightarrow> message_data option \<Rightarrow> nat \<Rightarrow> message_result \<times> message_data option \<times> nat" where
  "IoTHubMessage_SetAsSecurityMessage mem msg n =
     (case msg of
        None \<Rightarrow> (IOTHUB_MESSAGE_INVALID_ARG, None, n)
      | Some m \<Rightarrow>
          (case set_content_encoding mem m ''application/json'' n of
             (ok, m1, n1) \<Rightarrow>
               if ok then (IOTHUB_MESSAGE_OK, Some (m1\<lparr>is_security_message := True\<rparr>), n1)
               else (IOTHUB_MESSAGE_ERROR, Some m1, n1)))"

definition IoTHubMessage_IsSecurityMessage :: "message_data option \<Rightarrow> bool" where
  "IoTHubMessage_IsSecurityMessage msg = (case msg of None \<Rightarrow> False | Some m \<Rightarrow> is_security_message m)"

definition IoTHubMessage_SetCorrelationId ::
  "(nat \<Rightarrow> bool) \<Rightarrow> message_data option \<Rightarrow> string option \<Rightarrow> nat \<Rightarrow> message_result \<times> message_data option \<times> nat" where
  "IoTHubMessage_SetCorrelationId mem msg s n = set_field mem (\<lambda>v m. m\<lparr>correlationId := v\<rparr>) msg s n"

definition IoTHubMessage_GetCorrelationId :: "message_data option \<Rightarrow> string option" where
  "IoTHubMessage_GetCorrelationId msg = Option.bind msg correlationId"

definition IoTHubMessage_SetMessageId ::
  "(nat \<Rightarrow> bool) \<Rightarrow> message_data option \<Rightarrow> string option \<Rightarrow> nat \<Rightarrow> message_result \<times> message_data option \<times> nat" where
  "IoTHubMessage_SetMessageId mem msg s n = set_field mem (\<lambda>v m. m\<lparr>messageId := v\<rparr>) msg s n"

definition IoTHubMessage_GetMessageId :: "message_data option \<Rightarrow> string option" where
  "IoTHubMessage_GetMessageId msg = Option.bind msg messageId"

definition IoTHubMessage_SetContentTypeSystemProperty ::
  "(nat \<Rightarrow> bool) \<Rightarrow> message_data option \<Rightarrow> string option \<Rightarrow> nat \<Rightarrow> message_result \<times> message_data option \<times> nat" where
  "IoTHubMessage_SetContentTypeSystemProperty mem msg s n = set_field mem (\<lambda>v m. m\<lparr>userDefinedContentType := v\<rparr>) msg s n"

definition IoTHubMessage_GetContentTypeSystemProperty :: "message_data option \<Rightarrow> string option" where
  "IoTHubMessage_GetContentTypeSystemProperty msg = Option.bind msg userDefinedContentType"

definition IoTHubMessage_SetMessageCreationTimeUtcSystemProperty ::
  "(nat \<Rightarrow> bool) \<Rightarrow> message_data option \<Rightarrow> string option \<Rightarrow> nat \<Rightarrow> message_result \<times> message_data option \<times> nat" where
  "IoTHubMessage_SetMessageCreationTimeUtcSystemProperty mem msg s n = set_field mem (\<lambda>v m. m\<lparr>creationTimeUtc := v\<rparr>) msg s n"

definition IoTHubMessage_GetMessageCreationTimeUtcSystemProperty :: "message_data option \<Rightarrow> string option" where
  "IoTHubMessage_GetMessageCreationTimeUtcSystemProperty msg = Option.bind msg creationTimeUtc"

definition IoTHubMessage_SetMessageUserIdSystemProperty ::
  "(nat \<Rightarrow> bool) \<Rightarrow> message_data option \<Rightarrow> string option \<Rightarrow> nat \<Rightarrow> message_result \<times> message_data option \<times> nat" where
  "IoTHubMessage_SetMessageUserIdSystemProperty mem msg s n = set_field mem (\<lambda>v m. m\<lparr>userId := v\<rparr>) msg s n"

definition IoTHubMessage_GetMessageUserIdSystemProperty :: "message_data option \<Rightarrow> string option" where
  "IoTHubMessage_GetMessageUserIdSystemProperty msg = Option.bind msg userId"

definition IoTHubMessage_SetOutputName ::
  "(nat \<Rightarrow> bool) \<Rightarrow> message_data option \<Rightarrow> string option \<Rightarrow> nat \<Rightarrow> message_result \<times> message_data option \<times> nat" where
  "IoTHubMessage_SetOutputName mem msg s n = set_field mem (\<lambda>v m. m\<lparr>outputName := v\<rparr>) msg s n"

definition IoTHubMessage_GetOutputName :: "message_data option \<Rightarrow> string option" where
  "IoTHubMessage_GetOutputName msg = Option.bind msg outputName"

definition IoTHubMessage_SetInputName ::
  "(nat \<Rightarrow> bool) \<Rightarrow> message_data option \<Rightarrow> string option \<Rightarrow> nat \<Rightarrow> message_result \<times> message_data option \<times> nat" where
  "IoTHubMessage_SetInputName mem msg s n = set_field mem (\<lambda>v m. m\<lparr>inputName := v\<rparr>) msg s n"

definition IoTHubMessage_GetInputName :: "message_data option \<Rightarrow> string option" where
  "IoTHubMessage_GetInputName msg = Option.bind msg inputName"

definition IoTHubMessage_SetConnectionModuleId ::
  "(nat \<Rightarrow> bool) \<Rightarrow> message_data option \<Rightarrow> string option \<Rightarrow> nat \<Rightarrow> message_result \<times> message_data option \<times> nat" where
  "IoTHubMessage_SetConnectionModuleId mem msg s n = set_field mem (\<lambda>v m. m\<lparr>connectionModuleId := v\<rparr>) msg s n"

definition IoTHubMessage_GetConnectionModuleId :: "message_data option \<Rightarrow> string option" where
  "IoTHubMessage_GetConnectionModuleId msg = Option.bind msg connectionModuleId"

definition IoTHubMessage_SetConnectionDeviceId ::
  "(nat \<Rightarrow> bool) \<Rightarrow> message_data option \<Rightarrow> string option \<Rightarrow> nat \<Rightarrow> message_result \<times> message_data option \<times> nat" where
  "IoTHubMessage_SetConnectionDeviceId mem msg s n = set_field mem (\<lambda>v m. m\<lparr>connectionDeviceId := v\<rparr>) msg s n"

definition IoTHubMessage_GetConnectionDeviceId :: "message_data option \<Rightarrow> string option" where
  "IoTHubMessage_GetConnectionDeviceId msg = Option.bind msg connectionDeviceId"

definition IoTHubMessage_SetComponentName ::
  "(nat \<Rightarrow> bool) \<Rightarrow> message_data option \<Rightarrow> string option \<Rightarrow> nat \<Rightarrow> message_result \<times> message_data option \<times> nat" where
  "IoTHubMessage_SetComponentName mem msg s n = set_field mem (\<lambda>v m. m\<lparr>componentName := v\<rparr>) msg s n"

definition IoTHubMessage_GetComponentName :: "message_data option \<Rightarrow> string option" where
  "IoTHubMessage_GetComponentName msg = Option.bind msg componentName"

definition IoTHubMessage_SetDiagnosticPropertyData ::
  "(nat \<Rightarrow> bool) \<Rightarrow> message_data option \<Rightarrow> diagnostic_data option \<Rightarrow> nat \<Rightarrow> message_result \<times> message_data option \<times> nat" where
  "IoTHubMessage_SetDiagnosticPropertyData mem msg data n =
     (case (msg, data) of
        (Some m, Some d) \<Rightarrow>
          if diagnosticCreationTimeUtc d = None \<or> diagnosticId d = None then (IOTHUB_MESSAGE_INVALID_ARG, msg, n)
          else (case CloneDiagnosticPropertyData mem d n of
              (r, n1) \<Rightarrow> (if r = None then IOTHUB_MESSAGE_ERROR else IOTHUB_MESSAGE_OK, Some (m\<lparr>diagnosticData := r\<rparr>), n1))
      | _ \<Rightarrow> (IOTHUB_MESSAGE_INVALID_ARG, msg, n))"

definition IoTHubMessage_GetDiagnosticPropertyData :: "message_data option \<Rightarrow> diagnostic_data option" where
  "IoTHubMessage_GetDiagnosticPropertyData msg = Option.bind msg diagnosticData"

definition IoTHubMessage_SetDispositionContext ::
  "message_data option \<Rightarrow> nat option \<Rightarrow> nat option \<Rightarrow> message_result \<times> message_data option" where
  "IoTHubMessage_SetDispositionContext msg ctx destroy =
     (case (msg, ctx, destroy) of
        (Some m, Some c, Some f) \<Rightarrow> (IOTHUB_MESSAGE_OK, Some (m\<lparr>dispositionContext := Some (c, f)\<rparr>))
      | _ \<Rightarrow> (IOTHUB_MESSAGE_INVALID_ARG, msg))"

definition IoTHubMessage_GetDispositionContext :: "message_data option \<Rightarrow> nat option" where
  "IoTHubMessage_GetDispositionContext msg = map_option fst (Option.bind msg dispositionContext)"

section \<open>Cloning\<close>

lemma copy_strings_all: "\<exists>r n1. copy_strings mem ss n = (r, n1) \<and> (r = None \<or> r = Some ss) \<and> ((\<forall>i. mem i) \<longrightarrow> r = Some ss)"
  by (induction mem ss n rule: copy_strings.induct) (auto simp: sdk_malloc_def split: prod.splits)

lemma clone_diagnostic_all:
  "\<exists>r n1. clone_diagnostic mem d n = (r, n1) \<and> (r = None \<or> r = Some d) \<and> ((\<forall>i. mem i) \<longrightarrow> r = Some d)"
proof (cases d)
  case (Some data)
  obtain r n1 where "copy_strings mem [diagnosticCreationTimeUtc data, diagnosticId data] (Suc n) = (r, n1)"
    "r = None \<or> r = Some [diagnosticCreationTimeUtc data, diagnosticId data]"
    "(\<forall>i. mem i) \<longrightarrow> r = Some [diagnosticCreationTimeUtc data, diagnosticId data]"
    using copy_strings_all [of mem "[diagnosticCreationTimeUtc data, diagnosticId data]" "Suc n"] by metis
  then show ?thesis using Some by (auto simp: clone_diagnostic_def CloneDiagnosticPropertyData_def sdk_malloc_def)
qed (simp add: clone_diagnostic_def)

lemma message_clone_facts:
  assumes "map_rep (message_properties m) ps"
  shows "\<exists>r n1. IoTHubMessage_Clone mem (Some m) n = Some (r, n1) \<and> ((\<forall>i. mem i) \<longrightarrow> r \<noteq> None) \<and>
    (\<forall>c. r = Some c \<longrightarrow> c = m\<lparr>message_properties := message_properties c, dispositionContext := None\<rparr> \<and>
      map_rep (message_properties c) ps \<and>
      (\<forall>key. IoTHubMessage_GetProperty (Some c) key = IoTHubMessage_GetProperty (Some m) key))"
proof -
  let ?s1 = "[messageId m, correlationId m, userDefinedContentType m, message_encoding m]"
  let ?s2 = "[outputName m, inputName m, creationTimeUtc m, userId m, connectionModuleId m, connectionDeviceId m, componentName m]"
  obtain r1 n1 where 1: "copy_strings mem ?s1 (Suc n) = (r1, n1)" "r1 = None \<or> r1 = Some ?s1" "(\<forall>i. mem i) \<longrightarrow> r1 = Some ?s1"
    using copy_strings_all [of mem ?s1 "Suc n"] by metis
  obtain r2 n2 where 2: "clone_diagnostic mem (diagnosticData m) n1 = (r2, n2)" "r2 = None \<or> r2 = Some (diagnosticData m)"
    "(\<forall>i. mem i) \<longrightarrow> r2 = Some (diagnosticData m)"
    using clone_diagnostic_all [of mem "diagnosticData m" n1] by metis
  obtain r3 n3 where 3: "copy_strings mem ?s2 n2 = (r3, n3)" "r3 = None \<or> r3 = Some ?s2" "(\<forall>i. mem i) \<longrightarrow> r3 = Some ?s2"
    using copy_strings_all [of mem ?s2 n2] by metis
  obtain g n4 where 4: "two_blocks mem n3 = (g, n4)" by fastforce
  have g: "(\<forall>i. mem i) \<longrightarrow> g" using 4 by (auto simp: two_blocks_def sdk_malloc_def split: if_splits)
  obtain r5 n5 where 5: "Map_Clone mem (Some (message_properties m)) n4 = Some (r5, n5)" "(\<forall>i. mem i) \<longrightarrow> r5 \<noteq> None"
    "\<forall>d1. r5 = Some d1 \<longrightarrow> map_rep d1 ps \<and> mapFilterCallback d1 = (if ps = [] then None else mapFilterCallback (message_properties m))"
    by (rule clone_rep [OF assms])
  have readers: "IoTHubMessage_GetProperty (Some c) key = IoTHubMessage_GetProperty (Some m) key"
    if "map_rep (message_properties c) ps" for c key
    using get_value_rep [OF that] get_value_rep [OF assms] by (cases key) (simp_all add: IoTHubMessage_GetProperty_def)
  show ?thesis
  proof (cases "mem n \<and> r1 \<noteq> None \<and> r2 \<noteq> None \<and> r3 \<noteq> None \<and> g \<and> r5 \<noteq> None")
    case True
    then obtain p where p: "r5 = Some p" "map_rep p ps" using 5(3) by auto
    then show ?thesis
      using True 1(1,2) 2(1,2) 3(1,2) 4 5(1) readers
      by (auto simp: IoTHubMessage_Clone_def sdk_malloc_def)
  next
    case False
    have "\<exists>n1. IoTHubMessage_Clone mem (Some m) n = Some (None, n1)"
      using False 1(1,2) 2(1,2) 3(1,2) 4 5(1) by (auto simp: IoTHubMessage_Clone_def sdk_malloc_def)
    moreover have "\<not> (\<forall>i. mem i)" using False 1(3) 2(3) 3(3) g 5(2) by auto
    ultimately show ?thesis by auto
  qed
qed

text \<open>
  C39: a clone of a message either fails, only when memory is refused, or has every reader's answer of the original: the
  content, the properties and all system properties; it does not take over the disposition context.
\<close>

theorem message_clone_same:
  assumes "map_rep (message_properties m) ps"
  shows "\<exists>r n1. IoTHubMessage_Clone mem (Some m) n = Some (r, n1) \<and> ((\<forall>i. mem i) \<longrightarrow> r \<noteq> None) \<and>
    (\<forall>c. r = Some c \<longrightarrow> c = m\<lparr>message_properties := message_properties c, dispositionContext := None\<rparr> \<and>
      map_rep (message_properties c) ps \<and>
      (\<forall>key. IoTHubMessage_GetProperty (Some c) key = IoTHubMessage_GetProperty (Some m) key))"
  using message_clone_facts [OF assms] .

section \<open>Properties\<close>

lemma valid_ascii_iff: "is_cstring s \<Longrightarrow> ContainsValidUsAscii s \<longleftrightarrow> (\<forall>c \<in> set s. isprint c)"
  by (induction s) (auto simp: isprint_def Let_def)

lemma set_property_rep:
  assumes "map_rep (message_properties m) ps"
  obtains r p n1 where "IoTHubMessage_SetProperty mem (Some m) (Some k) (Some v) n = Some (r, Some (m\<lparr>message_properties := p\<rparr>), n1)"
    "map_rep p (if r = IOTHUB_MESSAGE_OK then AList.update k v ps else ps)"
    "r = IOTHUB_MESSAGE_INVALID_TYPE \<longleftrightarrow> rejects (message_properties m) k v"
    "(\<forall>i. mem i) \<longrightarrow> r \<noteq> IOTHUB_MESSAGE_ERROR" "r \<noteq> IOTHUB_MESSAGE_INVALID_ARG"
    "mapFilterCallback p = mapFilterCallback (message_properties m) \<or> ps = [] \<and> r = IOTHUB_MESSAGE_ERROR \<and> mapFilterCallback p = None"
proof -
  obtain res d1 n1 where a: "Map_AddOrUpdate mem (message_properties m) (Some k) (Some v) n = Some (res, d1, n1)"
    "map_rep d1 (if res = MAP_OK then AList.update k v ps else ps)" "res = MAP_FILTER_REJECT \<longleftrightarrow> rejects (message_properties m) k v"
    "(\<forall>i. mem i) \<longrightarrow> res \<noteq> MAP_ERROR" "res \<in> {MAP_OK, MAP_ERROR, MAP_FILTER_REJECT}"
    "mapFilterCallback d1 = mapFilterCallback (message_properties m) \<or> ps = [] \<and> res = MAP_ERROR \<and> mapFilterCallback d1 = None"
    by (rule add_or_update_rep [OF assms])
  show ?thesis
    by (rule that [of "if res = MAP_FILTER_REJECT then IOTHUB_MESSAGE_INVALID_TYPE
          else if res \<noteq> MAP_OK then IOTHUB_MESSAGE_ERROR else IOTHUB_MESSAGE_OK" d1 n1])
      (use a in \<open>auto simp: IoTHubMessage_SetProperty_def\<close>)
qed
theorem message_clone_same_witness:
  "\<exists>c n. IoTHubMessage_Clone (\<lambda>_. True) (fst (IoTHubMessage_CreateFromString (\<lambda>_. True) (Some ''t'') 0)) 4 = Some (Some c, n)"
proof -
  obtain m where m: "fst (IoTHubMessage_CreateFromString (\<lambda>_. True) (Some ''t'') 0) = Some m" "map_rep (message_properties m) []"
    by (simp add: IoTHubMessage_CreateFromString_def new_message_def two_blocks_def sdk_malloc_def Map_Create_def map_rep_def holds_def)
  show ?thesis using message_clone_same [OF m(2), of "\<lambda>_. True" 4] m(1) by auto
qed

text \<open>
  When the copy of the first key is refused, the map gives up its filter with its storage, and the next property is
  accepted whatever its characters are.
\<close>

lemma filter_lost_on_failure:
  assumes "map_rep (message_properties m) []" "\<not> rejects (message_properties m) k v" "mem n" "mem (Suc n)" "\<not> mem (Suc (Suc n))"
  shows "\<exists>m1 n1. IoTHubMessage_SetProperty mem (Some m) (Some k) (Some v) n = Some (IOTHUB_MESSAGE_ERROR, Some m1, n1) \<and>
    \<not> rejects (message_properties m1) k' v'"
proof -
  have "findKey (message_properties m) k = Some None" using findKey_position [OF assms(1), of k] by simp
  then show ?thesis
    using assms by (simp add: IoTHubMessage_SetProperty_def Map_AddOrUpdate_def insertNewKeyValue_def Map_IncreaseStorageKeysValues_def
        Map_DecreaseStorageKeysValues_def sdk_malloc_def map_rep_def rejects_def Let_def)
qed

end
