(* ===== verification/Dx_Message.thy ===== *)
theory Dx_Message
  imports Dx_Azure_Properties Sdk_Message
begin

text \<open>
  What \<open>dx_azurePublish\<close> hands to the hub client, with the message functions of the SDK in the place of
  their answers: the calls that the model of dx_azure_iot.c records are carried out on a message of \<open>Sdk_Message\<close>.
\<close>

section \<open>The calls carried out\<close>






section \<open>Publishing\<close>












end
