(* ===== verification/Dx_Texts.thy ===== *)
theory Dx_Texts
  imports Dx_Avnet Sdk_Message
begin

text \<open>
  The texts that the library prints: the names of codes in src/src/dx_azure_iot.c and
  src/src/dx_avnet_iot_connect.c, and the list of the children.  A function with a static variable takes
  its value and gives the new one, which it also returns.
\<close>

section \<open>Names of codes\<close>

definition GetMessageResultReasonString :: "message_result \<Rightarrow> string \<Rightarrow> string" where
  "GetMessageResultReasonString reason reasonString =
     (case reason of
        IOTHUB_MESSAGE_OK \<Rightarrow> ''IOTHUB_MESSAGE_OK''
      | IOTHUB_MESSAGE_INVALID_ARG \<Rightarrow> ''IOTHUB_MESSAGE_INVALID_ARG''
      | IOTHUB_MESSAGE_INVALID_TYPE \<Rightarrow> ''IOTHUB_MESSAGE_INVALID_TYPE''
      | IOTHUB_MESSAGE_ERROR \<Rightarrow> ''IOTHUB_MESSAGE_ERROR'')"

definition GetReasonString :: "connection_reason \<Rightarrow> string \<Rightarrow> string" where
  "GetReasonString reason reasonString =
     (case reason of
        IOTHUB_CLIENT_CONNECTION_EXPIRED_SAS_TOKEN \<Rightarrow> ''IOTHUB_CLIENT_CONNECTION_EXPIRED_SAS_TOKEN''
      | IOTHUB_CLIENT_CONNECTION_DEVICE_DISABLED \<Rightarrow> ''IOTHUB_CLIENT_CONNECTION_DEVICE_DISABLED''
      | IOTHUB_CLIENT_CONNECTION_BAD_CREDENTIAL \<Rightarrow> ''IOTHUB_CLIENT_CONNECTION_BAD_CREDENTIAL''
      | IOTHUB_CLIENT_CONNECTION_RETRY_EXPIRED \<Rightarrow> ''IOTHUB_CLIENT_CONNECTION_RETRY_EXPIRED''
      | IOTHUB_CLIENT_CONNECTION_NO_NETWORK \<Rightarrow> ''IOTHUB_CLIENT_CONNECTION_NO_NETWORK''
      | IOTHUB_CLIENT_CONNECTION_COMMUNICATION_ERROR \<Rightarrow> ''IOTHUB_CLIENT_CONNECTION_COMMUNICATION_ERROR''
      | IOTHUB_CLIENT_CONNECTION_OK \<Rightarrow> ''IOTHUB_CLIENT_CONNECTION_OK''
      | IOTHUB_CLIENT_CONNECTION_NO_PING_RESPONSE \<Rightarrow> ''IOTHUB_CLIENT_CONNECTION_NO_PING_RESPONSE''
      | IOTHUB_CLIENT_CONNECTION_QUOTA_EXCEEDED \<Rightarrow> reasonString)"

definition response221CodeToString :: "int \<Rightarrow> string" where
  "response221CodeToString iotResponseCode =
     (if iotResponseCode = 0 then ''Child device added''
      else if iotResponseCode = 1 then ''Child not added missing child tag''
      else if iotResponseCode = 2 then ''Child not added missing UID''
      else if iotResponseCode = 3 then ''Child not added missing display name''
      else if iotResponseCode = 4 then ''Child not added Gateway device not found''
      else if iotResponseCode = 5 then ''Child not added, unknown error''
      else if iotResponseCode = 6 then ''Child not added invalid child tag''
      else if iotResponseCode = 7 then ''Child not added, tag can't be the same a gateway device''
      else if iotResponseCode = 8 then ''Child not added, this child device already exists''
      else ''Unknown response code'')"

definition ErrorCodeToString :: "int \<Rightarrow> string" where
  "ErrorCodeToString iotConnectErrorCode =
     (if iotConnectErrorCode = 0 then ''OK''
      else if iotConnectErrorCode = 1 then ''device not registered''
      else if iotConnectErrorCode = 2 then ''Device auto registered''
      else if iotConnectErrorCode = 3 then ''device not Found''
      else if iotConnectErrorCode = 4 then ''Inactive device''
      else if iotConnectErrorCode = 5 then ''object moved''
      else if iotConnectErrorCode = 6 then ''CPID not found''
      else if iotConnectErrorCode = 7 then ''Company not found''
      else ''Unknown error code'')"

text \<open>An exceeded quota has no case: it is given the name of the reason before it.\<close>

lemma quota_named_as_before:
  "GetReasonString IOTHUB_CLIENT_CONNECTION_QUOTA_EXCEEDED (GetReasonString reason s) = GetReasonString reason s"
  by (simp add: GetReasonString_def)

section \<open>The children\<close>

text \<open>
  The loop of \<open>dx_avnetPrintGwChildrenList\<close>, whose counter has 8 bits.  A field without a NUL is read past its end,
  which is None.
\<close>

definition field_string :: "char list \<Rightarrow> string option" where
  "field_string f = (if NUL \<in> set f then Some (cstr f) else None)"

definition child_line :: "8 word \<Rightarrow> string \<Rightarrow> string \<Rightarrow> string" where
  "child_line k i t = ''Child node #'' @ show_nat (unat k) @ '', ID: '' @ i @ '', Tag: '' @ t @ [CHR 0x0A]"

partial_function (option) print_nodes ::
    "(nat \<Rightarrow> child_node option) \<Rightarrow> nat option \<Rightarrow> 8 word \<Rightarrow> string list option" where
  "print_nodes h p k =
     (case p of
        None \<Rightarrow> Some []
      | Some a \<Rightarrow> do {
          n \<leftarrow> h a;
          i \<leftarrow> field_string (child_id n);
          t \<leftarrow> field_string (child_tg n);
          rest \<leftarrow> print_nodes h (next_node n) (k + 1);
          Some (child_line (k + 1) i t # rest)
        })"

definition dx_avnetPrintGwChildrenList :: "'r children_scheme \<Rightarrow> string list option" where
  "dx_avnetPrintGwChildrenList st = print_nodes (gw_heap st) (gw_head st) 0"

fun child_lines :: "8 word \<Rightarrow> (string \<times> string) list \<Rightarrow> string list" where
  "child_lines k [] = []"
| "child_lines k ((i, t) # xs) = child_line (k + 1) i t # child_lines (k + 1) xs"

lemma field_string_short:
  assumes "length f = GW_FIELD_LEN" "length (cstr f) < GW_FIELD_LEN"
  shows "field_string f = Some (cstr f)"
proof -
  have "NUL \<in> set f"
  proof (rule ccontr)
    assume "NUL \<notin> set f"
    then have "cstr f = f" by (simp add: is_cstring_def)
    then show False using assms by simp
  qed
  then show ?thesis by (simp add: field_string_def)
qed

lemma print_nodes_segment:
  assumes "fields_ok h"
  shows "segment h p q ns l None \<Longrightarrow> \<forall>(i, t) \<in> set (map (entry h) ns). length i < GW_FIELD_LEN \<and> length t < GW_FIELD_LEN \<Longrightarrow>
    print_nodes h q k = Some (child_lines k (map (entry h) ns))"
proof (induction ns arbitrary: p q k)
  case Nil
  then show ?case by (simp add: print_nodes.simps [of h None])
next
  case (Cons a ns)
  then obtain n where n: "q = Some a" "h a = Some n" "segment h (Some a) (next_node n) ns l None" by auto
  have "length (child_id n) = GW_FIELD_LEN" "length (child_tg n) = GW_FIELD_LEN" using assms n(2) by (simp_all add: fields_ok_def)
  moreover have "length (cstr (child_id n)) < GW_FIELD_LEN" "length (cstr (child_tg n)) < GW_FIELD_LEN"
    using Cons.prems(2) n(2) by (simp_all add: entry_def)
  ultimately have "field_string (child_id n) = Some (cstr (child_id n))" "field_string (child_tg n) = Some (cstr (child_tg n))"
    by (simp_all add: field_string_short)
  moreover have "print_nodes h (next_node n) (k + 1) = Some (child_lines (k + 1) (map (entry h) ns))"
    using Cons.IH [OF n(3)] Cons.prems(2) by simp
  moreover have "entry h a = (cstr (child_id n), cstr (child_tg n))" using n(2) by (simp add: entry_def)
  ultimately show ?case using n(1,2) by (simp add: print_nodes.simps [of h "Some a"])
qed

text \<open>
  Printing the children returns and prints one line for each, in the order of the list, when no field
  is full; the numbers start again at 0 after 255 children.
\<close>

theorem children_printed:
  assumes "represents st xs" "\<forall>(i, t) \<in> set xs. length i < GW_FIELD_LEN \<and> length t < GW_FIELD_LEN"
  shows "dx_avnetPrintGwChildrenList st = Some (child_lines 0 xs)"
proof -
  obtain ns l where "segment (gw_heap st) None (gw_head st) ns l None" "fields_ok (gw_heap st)" "xs = map (entry (gw_heap st)) ns"
    using assms(1) by (auto simp: represents_def nodes_of_def)
  then show ?thesis using print_nodes_segment assms(2) unfolding dx_avnetPrintGwChildrenList_def by blast
qed

end
