(* ===== verification/Sdk_Dlist.thy ===== *)
theory Sdk_Dlist
  imports Prelude "HOL-Library.Monad_Syntax"
begin

text \<open>
  The intrusive lists of the Azure SDK (src/azure-iot-sdk-c/c-utility/src/doublylinkedlist.c): circular and
  doubly linked, with a head that is an entry itself.  An access to an entry that is not allocated is None.
  The lemmas relate each operation to the list of the entries behind a head.
\<close>

section \<open>Operations\<close>

record dlist_entry =
  flink :: nat
  blink :: nat

type_synonym dlist_heap = "nat \<Rightarrow> dlist_entry option"

definition set_flink :: "nat \<Rightarrow> nat \<Rightarrow> dlist_heap \<Rightarrow> dlist_heap option" where
  "set_flink a v h = do { n \<leftarrow> h a; Some (h(a \<mapsto> n\<lparr>flink := v\<rparr>)) }"

definition set_blink :: "nat \<Rightarrow> nat \<Rightarrow> dlist_heap \<Rightarrow> dlist_heap option" where
  "set_blink a v h = do { n \<leftarrow> h a; Some (h(a \<mapsto> n\<lparr>blink := v\<rparr>)) }"

definition DList_InitializeListHead :: "nat \<Rightarrow> dlist_heap \<Rightarrow> dlist_heap option" where
  "DList_InitializeListHead listHead h = do { h1 \<leftarrow> set_blink listHead listHead h; set_flink listHead listHead h1 }"

definition DList_IsListEmpty :: "nat \<Rightarrow> dlist_heap \<Rightarrow> bool option" where
  "DList_IsListEmpty listHead h = do { n \<leftarrow> h listHead; Some (flink n = listHead) }"

definition DList_RemoveEntryList :: "nat \<Rightarrow> dlist_heap \<Rightarrow> (bool \<times> dlist_heap) option" where
  "DList_RemoveEntryList entry h = do {
     n \<leftarrow> h entry;
     let f = flink n;
     let b = blink n;
     h1 \<leftarrow> set_flink b f h;
     h2 \<leftarrow> set_blink f b h1;
     Some (f = b, h2)
   }"

definition DList_RemoveHeadList :: "nat \<Rightarrow> dlist_heap \<Rightarrow> (nat \<times> dlist_heap) option" where
  "DList_RemoveHeadList listHead h = do {
     n \<leftarrow> h listHead;
     let entry = flink n;
     m \<leftarrow> h entry;
     let f = flink m;
     h1 \<leftarrow> set_flink listHead f h;
     h2 \<leftarrow> set_blink f listHead h1;
     Some (entry, h2)
   }"

definition DList_InsertTailList :: "nat \<Rightarrow> nat \<Rightarrow> dlist_heap \<Rightarrow> dlist_heap option" where
  "DList_InsertTailList listHead entry h = do {
     n \<leftarrow> h listHead;
     let b = blink n;
     h1 \<leftarrow> set_flink entry listHead h;
     h2 \<leftarrow> set_blink entry b h1;
     h3 \<leftarrow> set_flink b entry h2;
     set_blink listHead entry h3
   }"

definition DList_AppendTailList :: "nat \<Rightarrow> nat \<Rightarrow> dlist_heap \<Rightarrow> dlist_heap option" where
  "DList_AppendTailList listHead listToAppend h = do {
     n \<leftarrow> h listHead;
     let listEnd = blink n;
     h1 \<leftarrow> set_flink listEnd listToAppend h;
     m \<leftarrow> h1 listToAppend;
     h2 \<leftarrow> set_blink listHead (blink m) h1;
     k \<leftarrow> h2 listToAppend;
     h3 \<leftarrow> set_flink (blink k) listHead h2;
     set_blink listToAppend listEnd h3
   }"

definition DList_InsertHeadList :: "nat \<Rightarrow> nat \<Rightarrow> dlist_heap \<Rightarrow> dlist_heap option" where
  "DList_InsertHeadList listHead entry h = do {
     h1 \<leftarrow> set_blink entry listHead h;
     n \<leftarrow> h1 listHead;
     h2 \<leftarrow> set_flink entry (flink n) h1;
     m \<leftarrow> h2 listHead;
     h3 \<leftarrow> set_blink (flink m) entry h2;
     set_flink listHead entry h3
   }"

section \<open>The list behind a head\<close>

definition next_of :: "dlist_heap \<Rightarrow> nat \<Rightarrow> nat option" where
  "next_of h a = map_option flink (h a)"

definition prev_of :: "dlist_heap \<Rightarrow> nat \<Rightarrow> nat option" where
  "prev_of h a = map_option blink (h a)"

text \<open>Every entry of the sequence but the last is linked with the one behind it, both ways.\<close>

fun path :: "dlist_heap \<Rightarrow> nat list \<Rightarrow> bool" where
  "path h (a # b # xs) \<longleftrightarrow> next_of h a = Some b \<and> prev_of h b = Some a \<and> path h (b # xs)"
| "path h _ \<longleftrightarrow> True"

definition dlist :: "dlist_heap \<Rightarrow> nat \<Rightarrow> nat list \<Rightarrow> bool" where
  "dlist h l xs \<longleftrightarrow> distinct (l # xs) \<and> path h (l # xs @ [l])"

lemma path_append: "path h (xs @ a # ys) \<longleftrightarrow> path h (xs @ [a]) \<and> path h (a # ys)"
proof (induction xs)
  case (Cons x xs)
  then show ?case by (cases xs) auto
qed simp

lemma path_cong:
  assumes "\<forall>a \<in> set (butlast xs). next_of h' a = next_of h a" "\<forall>a \<in> set (tl xs). prev_of h' a = prev_of h a" "path h xs"
  shows "path h' xs"
  using assms by (induction h xs rule: path.induct) auto

lemma links_upd [simp]:
  "next_of (h(a \<mapsto> n)) b = (if b = a then Some (flink n) else next_of h b)"
  "prev_of (h(a \<mapsto> n)) b = (if b = a then Some (blink n) else prev_of h b)"
  by (simp_all add: next_of_def prev_of_def)

lemma next_ofD: "next_of h a = Some b \<Longrightarrow> \<exists>n. h a = Some n \<and> flink n = b"
  and prev_ofD: "prev_of h a = Some b \<Longrightarrow> \<exists>n. h a = Some n \<and> blink n = b"
  by (auto simp: next_of_def prev_of_def)

text \<open>
  The entry \<open>a\<close> is linked with \<open>b\<close>: the sequence up to \<open>a\<close> and the one from \<open>b\<close> stay paths when the first ends with, and
  the second starts with, an entry that is not on the other.
\<close>

lemma path_relink:
  assumes "path h (P @ [a])" "path h (b # S)" "a \<notin> set P" "b \<notin> set S"
    and "a \<notin> set (butlast (b # S))" "b \<notin> set (tl (P @ [a]))"
    and "\<And>c. c \<noteq> a \<Longrightarrow> next_of h' c = next_of h c" "\<And>c. c \<noteq> b \<Longrightarrow> prev_of h' c = prev_of h c"
    and "next_of h' a = Some b" "prev_of h' b = Some a"
  shows "path h' (P @ a # b # S)"
proof -
  have "\<forall>c \<in> set P. next_of h' c = next_of h c" "\<forall>c \<in> set (tl (P @ [a])). prev_of h' c = prev_of h c"
    "\<forall>c \<in> set (butlast (b # S)). next_of h' c = next_of h c" "\<forall>c \<in> set S. prev_of h' c = prev_of h c"
    using assms(3-8) by metis+
  then have "path h' (P @ [a])" "path h' (b # S)"
    using path_cong [of "P @ [a]" h' h] path_cong [of "b # S" h' h] assms(1,2) by simp_all
  then show ?thesis using assms(9,10) path_append [of h' P a "b # S"] by simp
qed

lemma dlist_frame: "dlist h l xs \<Longrightarrow> \<forall>c \<in> set (l # xs). h' c = h c \<Longrightarrow> dlist h' l xs"
proof -
  assume d: "dlist h l xs" and c: "\<forall>c \<in> set (l # xs). h' c = h c"
  have "path h' (l # xs @ [l])"
    by (rule path_cong [of _ h' h]) (use c d in \<open>auto simp: next_of_def prev_of_def dlist_def butlast_append\<close>)
  then show ?thesis using d by (simp add: dlist_def)
qed

lemma dlist_alloc: "dlist h l xs \<Longrightarrow> xs \<noteq> [] \<or> h l \<noteq> None \<Longrightarrow> a \<in> set (l # xs) \<Longrightarrow> h a \<noteq> None"
proof -
  have "path h ys \<Longrightarrow> a \<in> set (butlast ys) \<Longrightarrow> h a \<noteq> None" for ys
    by (induction h ys rule: path.induct) (auto simp: next_of_def)
  moreover assume "dlist h l xs" "a \<in> set (l # xs)"
  ultimately show ?thesis by (auto simp: dlist_def butlast_append)
qed

text \<open>The entries around an entry of the circle.\<close>

lemma around:
  assumes "dlist h l (xs @ e # ys)"
  obtains P a b S where "l # xs = P @ [a]" "ys @ [l] = b # S" "path h (P @ [a])" "path h (b # S)"
    "next_of h a = Some e" "prev_of h e = Some a" "next_of h e = Some b" "prev_of h b = Some e"
    "a \<notin> set P" "b \<notin> set S" "a \<notin> set (butlast (b # S))" "b \<notin> set (tl (P @ [a]))" "e \<notin> set (l # xs @ ys)"
proof -
  obtain P a where P: "l # xs = P @ [a]" by (metis append_butlast_last_id list.distinct(1))
  obtain b S where b: "ys @ [l] = b # S" by (cases "ys @ [l]") auto
  have d: "distinct (l # xs @ e # ys)" "path h (l # (xs @ e # ys) @ [l])" using assms by (simp_all add: dlist_def)
  have eq: "l # (xs @ e # ys) @ [l] = P @ a # e # b # S" using P b by (metis append.assoc append_Cons append_Nil)
  have "path h (P @ a # e # b # S)" using d(2) unfolding eq .
  then have p: "path h (P @ [a])" "path h (a # e # b # S)" using path_append [of h P a "e # b # S"] by blast+
  have bl: "butlast (b # S) = ys" using b by (metis butlast_snoc)
  have t: "tl (P @ [a]) = xs" using P by (metis list.sel(3))
  have "set ys \<inter> set (l # xs) = {}" using d(1) by auto
  then have "a \<notin> set ys" "b \<notin> set xs" using P b d(1) by (auto simp: Cons_eq_append_conv append_eq_Cons_conv)
  moreover have "distinct (P @ [a])" using d(1) unfolding P [symmetric] by simp
  moreover have "distinct (ys @ [l])" using d(1) by auto
  ultimately show ?thesis
    by (intro that [OF P b p(1)]) (use p(2) bl t b d(1) in \<open>auto\<close>)
qed

lemma remove_entry:
  assumes "dlist h l (xs @ e # ys)"
  obtains h' where "DList_RemoveEntryList e h = Some (xs @ ys = [], h')" "dlist h' l (xs @ ys)" "dom h' = dom h"
    "\<forall>c. c \<notin> set (l # xs @ ys) \<longrightarrow> h' c = h c"
proof -
  obtain P a b S where P: "l # xs = P @ [a]" "ys @ [l] = b # S" "path h (P @ [a])" "path h (b # S)"
    and e: "next_of h a = Some e" "prev_of h e = Some a" "next_of h e = Some b" "prev_of h b = Some e"
    and n: "a \<notin> set P" "b \<notin> set S" "a \<notin> set (butlast (b # S))" "b \<notin> set (tl (P @ [a]))" "e \<notin> set (l # xs @ ys)"
    by (rule around [OF assms])
  obtain ne na where ne: "h e = Some ne" "flink ne = b" "blink ne = a" "h a = Some na"
    using next_ofD [OF e(1)] next_ofD [OF e(3)] prev_ofD [OF e(2)] by auto
  let ?h1 = "h(a \<mapsto> na\<lparr>flink := b\<rparr>)"
  obtain nb where nb: "?h1 b = Some nb" using prev_ofD [OF e(4)] by (cases "b = a") auto
  let ?h2 = "?h1(b \<mapsto> nb\<lparr>blink := a\<rparr>)"
  have "path ?h2 (P @ a # b # S)"
    by (rule path_relink [OF P(3,4) n(1-4)]) (use nb ne in \<open>auto simp: next_of_def prev_of_def\<close>)
  moreover have "P @ a # b # S = l # (xs @ ys) @ [l]" using P(1,2) by (metis append.assoc append_Cons append_Nil)
  ultimately have "dlist ?h2 l (xs @ ys)" using assms by (simp add: dlist_def)
  moreover have "DList_RemoveEntryList e h = Some (b = a, ?h2)"
    using ne nb by (cases "b = a") (auto simp: DList_RemoveEntryList_def set_flink_def set_blink_def Let_def)
  moreover have "b = a \<longleftrightarrow> xs @ ys = []"
  proof -
    have "b = a \<Longrightarrow> ys = []" using n(3) P(2) by (cases S) auto
    moreover have "b = a \<Longrightarrow> xs = []" using n(4) P(1) by (cases P) auto
    moreover have "b = a" if e: "xs = []" "ys = []"
    proof -
      have "last (P @ [a]) = l" unfolding P(1) [symmetric] using e by simp
      moreover have "hd (b # S) = l" unfolding P(2) [symmetric] using e by simp
      ultimately show ?thesis by simp
    qed
    ultimately show ?thesis by blast
  qed
  moreover have "dom ?h2 = dom h" using ne nb by (cases "b = a") auto
  moreover have "a \<in> set (l # xs @ ys)" "b \<in> set (l # xs @ ys)"
    using arg_cong [OF P(1), of set] arg_cong [OF P(2), of set] by auto
  ultimately show ?thesis by (intro that [of ?h2]) auto
qed

lemma remove_head_entry:
  assumes "dlist h l (x # xs)" "DList_RemoveEntryList x h = Some (b, h')"
  shows "DList_RemoveHeadList l h = Some (x, h')"
proof -
  have l: "next_of h l = Some x" "prev_of h x = Some l" using assms(1) by (simp_all add: dlist_def)
  then show ?thesis
    using assms(2) next_ofD [OF l(1)] prev_ofD [OF l(2)]
    by (auto simp: DList_RemoveHeadList_def DList_RemoveEntryList_def Let_def split: option.splits bind_splits)
qed

lemma remove_head_empty:
  assumes "dlist h l []"
  obtains h' where "DList_RemoveHeadList l h = Some (l, h')" "dlist h' l []" "dom h' = dom h" "\<forall>c. c \<noteq> l \<longrightarrow> h' c = h c"
proof -
  have "next_of h l = Some l" "prev_of h l = Some l" using assms by (simp_all add: dlist_def)
  then obtain n where "h l = Some n" "flink n = l" "blink n = l" using next_ofD prev_ofD by fastforce
  then show ?thesis
    by (intro that [of "h(l \<mapsto> n)"]) (auto simp: DList_RemoveHeadList_def set_flink_def set_blink_def dlist_def next_of_def prev_of_def)
qed

text \<open>The entries on either side of the head.\<close>

lemma head_links:
  assumes "dlist h l xs"
  shows "next_of h l = Some (hd (xs @ [l]))" "prev_of h l = Some (last (l # xs))"
proof -
  have p: "path h (l # xs @ [l])" using assms by (simp add: dlist_def)
  show "next_of h l = Some (hd (xs @ [l]))" using p by (cases xs) auto
  obtain P a where P: "l # xs = P @ [a]" by (metis append_butlast_last_id list.distinct(1))
  have "path h (P @ a # [l])" using p P by (metis append.assoc append_Cons append_Nil)
  then have "prev_of h l = Some a" using path_append [of h P a "[l]"] by simp
  moreover have "last (l # xs) = a" unfolding P by simp
  ultimately show "prev_of h l = Some (last (l # xs))" by simp
qed

lemma init_list:
  assumes "h l \<noteq> None"
  obtains h' where "DList_InitializeListHead l h = Some h'" "dlist h' l []" "dom h' = dom h" "\<forall>c. c \<noteq> l \<longrightarrow> h' c = h c"
proof -
  obtain n where n: "h l = Some n" using assms by auto
  show ?thesis
    by (rule that [of "h(l \<mapsto> n\<lparr>blink := l, flink := l\<rparr>)"])
      (use n in \<open>auto simp: DList_InitializeListHead_def set_flink_def set_blink_def dlist_def\<close>)
qed

lemma is_empty: "dlist h l xs \<Longrightarrow> DList_IsListEmpty l h = Some (xs = [])"
proof -
  assume d: "dlist h l xs"
  have "hd (xs @ [l]) = l \<longleftrightarrow> xs = []" using d by (cases xs) (auto simp: dlist_def)
  then show ?thesis using head_links(1) [OF d] next_ofD [of h l] by (auto simp: DList_IsListEmpty_def)
qed

lemma insert_tail:
  assumes d: "dlist h l xs" and e: "e \<notin> set (l # xs)" "h e = Some n"
  obtains h' where "DList_InsertTailList l e h = Some h'" "dlist h' l (xs @ [e])" "dom h' = dom h"
    "\<forall>c. c \<notin> set (l # xs @ [e]) \<longrightarrow> h' c = h c"
proof -
  obtain P a where P: "l # xs = P @ [a]" by (metis append_butlast_last_id list.distinct(1))
  have la: "prev_of h l = Some a" using head_links(2) [OF d] unfolding P by simp
  have ae: "a \<noteq> e" "l \<noteq> e" "a \<in> set (l # xs)" using e(1) P by (auto simp: Cons_eq_append_conv)
  have p: "path h (P @ a # [l])" using d P by (metis append.assoc append_Cons append_Nil dlist_def)
  then have pa: "path h (P @ [a])" "next_of h a = Some l" using path_append [of h P a "[l]"] by simp_all
  obtain nl na where nl: "h l = Some nl" "blink nl = a" "h a = Some na" using prev_ofD [OF la] next_ofD [OF pa(2)] by auto
  let ?h2 = "h(e \<mapsto> \<lparr>flink = l, blink = a\<rparr>)"
  let ?h3 = "?h2(a \<mapsto> na\<lparr>flink := e\<rparr>)"
  obtain nl3 where nl3: "?h3 l = Some nl3" using nl ae by (cases "a = l") auto
  obtain h4 where h4: "h4 = ?h3(l \<mapsto> nl3\<lparr>blink := e\<rparr>)" by simp
  have dist: "distinct (P @ [a])" "e \<notin> set (P @ [a])"
    unfolding P [symmetric] using d e(1) by (simp_all add: dlist_def)
  have links: "next_of h4 c = (if c = e then Some l else if c = a then Some e else next_of h c)"
    "prev_of h4 c = (if c = l then Some e else if c = e then Some a else prev_of h c)" for c
    unfolding h4 using ae nl nl3 by (auto simp: next_of_def prev_of_def split: if_splits)
  have t: "l \<notin> set (tl (P @ [a]))" using d P by (metis dlist_def distinct.simps(2) list.sel(3))
  have "e \<notin> set (tl (P @ [a]))" using dist(2) list.set_sel(2) [of "P @ [a]" e] by blast
  then have "path h4 (P @ [a])"
    by (intro path_cong [OF _ _ pa(1)]) (use dist t in \<open>auto simp: links\<close>)
  moreover have "path h4 [a, e, l]" using ae by (simp add: links)
  ultimately have "path h4 (P @ a # [e, l])" using path_append [of h4 P a "[e, l]"] by blast
  moreover have "P @ a # [e, l] = l # (xs @ [e]) @ [l]" using P by (metis append.assoc append_Cons append_Nil)
  ultimately have "dlist h4 l (xs @ [e])" using d e(1) by (auto simp: dlist_def)
  moreover have "DList_InsertTailList l e h = Some h4"
    unfolding h4 using nl nl3 ae e(2) by (cases "a = l") (auto simp: DList_InsertTailList_def set_flink_def set_blink_def Let_def fun_upd_twist)
  moreover have "dom h4 = dom h" unfolding h4 using nl e(2) by (auto simp: dom_def)
  moreover have "\<forall>c. c \<notin> set (l # xs @ [e]) \<longrightarrow> h4 c = h c" unfolding h4 using ae(3) by auto
  ultimately show ?thesis by (intro that [of h4]) auto
qed

lemma insert_head:
  assumes d: "dlist h l xs" and e: "e \<notin> set (l # xs)" "h e = Some n"
  obtains h' where "DList_InsertHeadList l e h = Some h'" "dlist h' l (e # xs)" "dom h' = dom h"
    "\<forall>c. c \<notin> set (l # e # xs) \<longrightarrow> h' c = h c"
proof -
  obtain f S where f: "xs @ [l] = f # S" by (cases "xs @ [l]") auto
  have lf: "next_of h l = Some f" using head_links(1) [OF d] unfolding f by simp
  have p: "path h (l # f # S)" using d f by (simp add: dlist_def)
  have ae: "f \<noteq> e" "l \<noteq> e" "f \<in> set (l # xs)" using e(1) arg_cong [OF f, of set] by auto
  obtain nl nf where nl: "h l = Some nl" "flink nl = f" "h f = Some nf" using next_ofD [OF lf] p by (auto simp: prev_of_def)
  let ?h2 = "h(e \<mapsto> \<lparr>flink = f, blink = l\<rparr>)"
  let ?h3 = "?h2(f \<mapsto> nf\<lparr>blink := e\<rparr>)"
  obtain nl3 where nl3: "?h3 l = Some nl3" using nl ae by (cases "f = l") auto
  obtain h4 where h4: "h4 = ?h3(l \<mapsto> nl3\<lparr>flink := e\<rparr>)" by simp
  have links: "next_of h4 c = (if c = l then Some e else if c = e then Some f else next_of h c)"
    "prev_of h4 c = (if c = f then Some e else if c = e then Some l else prev_of h c)" for c
    unfolding h4 using ae nl nl3 by (auto simp: next_of_def prev_of_def split: if_splits)
  have "distinct (f # S)" unfolding f [symmetric] using d by (auto simp: dlist_def)
  moreover have "set (butlast (f # S)) \<inter> {l, e} = {}" unfolding f [symmetric] using d e(1) by (auto simp: dlist_def)
  moreover have "e \<notin> set (f # S)" unfolding f [symmetric] using e(1) by auto
  ultimately have "path h4 (f # S)"
    by (intro path_cong [of "f # S" h4 h]) (use p in \<open>auto simp: links split: if_splits\<close>)
  then have "path h4 (l # e # f # S)" using ae by (simp add: links)
  then have "path h4 (l # (e # xs) @ [l])" unfolding append_Cons f .
  then have "dlist h4 l (e # xs)" using d e(1) by (auto simp: dlist_def)
  moreover have "DList_InsertHeadList l e h = Some h4"
    unfolding h4 using nl nl3 ae e(2) by (cases "f = l") (auto simp: DList_InsertHeadList_def set_flink_def set_blink_def Let_def fun_upd_twist)
  moreover have "dom h4 = dom h" unfolding h4 using nl e(2) by auto
  moreover have "\<forall>c. c \<notin> set (l # e # xs) \<longrightarrow> h4 c = h c" unfolding h4 using ae(3) by auto
  ultimately show ?thesis by (intro that [of h4])
qed

text \<open>The list behind \<open>l\<close> takes up the circle of \<open>m\<close>, with the entry \<open>m\<close> itself.\<close>

lemma append_tail:
  assumes d: "dlist h l xs" "dlist h m ys" and e: "set (l # xs) \<inter> set (m # ys) = {}"
  obtains h' where "DList_AppendTailList l m h = Some h'" "dlist h' l (xs @ m # ys)" "dom h' = dom h"
    "\<forall>c. c \<notin> set (l # xs) \<union> set (m # ys) \<longrightarrow> h' c = h c"
proof -
  obtain P a where P: "l # xs = P @ [a]" by (metis append_butlast_last_id list.distinct(1))
  obtain S b where S: "m # ys = S @ [b]" by (metis append_butlast_last_id list.distinct(1))
  have links: "prev_of h l = Some a" "prev_of h m = Some b"
    using head_links(2) [OF d(1)] head_links(2) [OF d(2)] unfolding P S by simp_all
  have p: "path h (P @ a # [l])" using d(1) P by (metis append.assoc append_Cons append_Nil dlist_def)
  have s: "path h (S @ b # [m])" using d(2) S by (metis append.assoc append_Cons append_Nil dlist_def)
  have pp: "path h (P @ [a])" "next_of h a = Some l" using p path_append [of h P a "[l]"] by simp_all
  have ss: "path h (S @ [b])" "next_of h b = Some m" using s path_append [of h S b "[m]"] by simp_all
  have sets: "set (l # xs) = insert a (set P)" "set (m # ys) = insert b (set S)" unfolding P S by simp_all
  have mem: "a \<in> set (l # xs)" "b \<in> set (m # ys)" using sets by blast+
  have ne: "a \<noteq> b" "l \<noteq> m" "a \<noteq> m" "b \<noteq> l" using e mem by auto
  obtain nl nm na nb where n: "h l = Some nl" "blink nl = a" "h m = Some nm" "blink nm = b" "h a = Some na" "h b = Some nb"
    using prev_ofD [OF links(1)] prev_ofD [OF links(2)] next_ofD [OF pp(2)] next_ofD [OF ss(2)] by auto
  let ?h1 = "h(a \<mapsto> na\<lparr>flink := m\<rparr>)"
  obtain nl1 where nl1: "?h1 l = Some nl1" using n by (cases "a = l") auto
  let ?h2 = "?h1(l \<mapsto> nl1\<lparr>blink := b\<rparr>)"
  let ?h3 = "?h2(b \<mapsto> nb\<lparr>flink := l\<rparr>)"
  obtain nm3 where nm3: "?h3 m = Some nm3" using n ne by (cases "b = m") auto
  obtain h4 where h4: "h4 = ?h3(m \<mapsto> nm3\<lparr>blink := a\<rparr>)" by simp
  have new: "next_of h4 c = (if c = a then Some m else if c = b then Some l else next_of h c)"
    "prev_of h4 c = (if c = m then Some a else if c = l then Some b else prev_of h c)" for c
    unfolding h4 using ne n nl1 nm3 by (auto simp: next_of_def prev_of_def split: if_splits)
  have tl: "tl (P @ [a]) = xs" "tl (S @ [b]) = ys" unfolding P [symmetric] S [symmetric] by simp_all
  have dist: "distinct (P @ [a])" "distinct (S @ [b])" "distinct (l # xs)" "distinct (m # ys)"
    unfolding P [symmetric] S [symmetric] using d by (simp_all add: dlist_def)
  have "b \<notin> set P" "a \<notin> set S" using e sets mem by blast+
  then have "path h4 (P @ [a])" "path h4 (S @ [b])"
    by (intro path_cong [OF _ _ pp(1)] path_cong [OF _ _ ss(1)]; use dist e in \<open>auto simp: new tl\<close>)+
  have "path h4 (P @ a # (S @ b # [l]))"
  proof -
    have "path h4 (S @ b # [l])"
      using \<open>path h4 (S @ [b])\<close> ne path_append [of h4 S b "[l]"] by (simp add: new)
    moreover obtain T where T: "S @ b # [l] = m # T" using S by (cases S) auto
    ultimately have "path h4 (a # (S @ b # [l]))" unfolding T by (simp add: new)
    then show ?thesis using \<open>path h4 (P @ [a])\<close> path_append [of h4 P a "S @ b # [l]"] by blast
  qed
  moreover have "P @ a # (S @ b # [l]) = l # (xs @ m # ys) @ [l]" using P S by (metis append.assoc append_Cons append_Nil)
  ultimately have "path h4 (l # (xs @ m # ys) @ [l])" by (simp only:)
  then have "dlist h4 l (xs @ m # ys)" using d e by (auto simp: dlist_def)
  moreover have "DList_AppendTailList l m h = Some h4"
    unfolding h4 DList_AppendTailList_def set_flink_def set_blink_def using n nl1 nm3 ne by (auto simp: Let_def split: if_splits)
  moreover have "dom h4 = dom h" unfolding h4 using n by auto
  moreover have "\<forall>c. c \<notin> set (l # xs) \<union> set (m # ys) \<longrightarrow> h4 c = h c" unfolding h4 using mem by auto
  ultimately show ?thesis by (intro that [of h4])
qed

end
