(* ===== verification/Sdk_Queue.thy ===== *)
theory Sdk_Queue
  imports Sdk_Dlist Sdk_Message Step_System "HOL-Library.Multiset"
begin

text \<open>
  The queues of the Azure SDK's hub client (src/azure-iot-sdk-c/iothub_client/src/iothub_client_core_ll.c): events that wait to
  be sent, reports of the twin that wait to be sent and that wait for an answer, and the MQTT transport that takes the
  events (iothubtransport_mqtt_common.c).  An entry is an address of the heap of \<open>Sdk_Dlist\<close>; an access to an entry that is
  not allocated, and a loop that does not end, is None.  The callbacks of the application are recorded in the order
  they are run; they do not call the client back.  The lemmas show that every event that was accepted is confirmed once.
\<close>

section \<open>The client\<close>

datatype confirmation_result =
    IOTHUB_CLIENT_CONFIRMATION_OK | IOTHUB_CLIENT_CONFIRMATION_BECAUSE_DESTROY
  | IOTHUB_CLIENT_CONFIRMATION_MESSAGE_TIMEOUT | IOTHUB_CLIENT_CONFIRMATION_ERROR

datatype client_result =
    IOTHUB_CLIENT_OK | IOTHUB_CLIENT_INVALID_ARG | IOTHUB_CLIENT_ERROR | IOTHUB_CLIENT_INVALID_SIZE | IOTHUB_CLIENT_INDEFINITE_TIME

datatype process_item_result =
    IOTHUB_PROCESS_OK | IOTHUB_PROCESS_ERROR | IOTHUB_PROCESS_NOT_CONNECTED | IOTHUB_PROCESS_CONTINUE

record message_list =
  event_message :: message_data
  event_callback :: "nat option"
  event_context :: nat
  ms_timesOutAfter :: "64 word"
  message_timeout_value :: "64 word"

record device_twin =
  item_id :: "32 word"
  reported_state_callback :: "nat option"
  report_data :: "char list"
  report_context :: nat

text \<open>
  The heads of the lists have the addresses 0 to 3; the last is the one on the stack of the transport.  \<open>held\<close> are the
  events of the transport's list of messages without an acknowledgement.
\<close>

record hub_client =
  entries :: dlist_heap
  events :: "nat \<Rightarrow> message_list option"
  reports :: "nat \<Rightarrow> device_twin option"
  held :: "nat list"
  currentMessageTimeout :: "64 word"
  data_msg_id :: "32 word"
  confirmations :: "(nat \<times> nat \<times> confirmation_result) list"
  report_answers :: "(nat \<times> nat \<times> int) list"

abbreviation (input) waitingToSend :: nat where "waitingToSend \<equiv> 0"
abbreviation (input) iot_msg_queue :: nat where "iot_msg_queue \<equiv> 1"
abbreviation (input) iot_ack_queue :: nat where "iot_ack_queue \<equiv> 2"
abbreviation (input) messageCompleted :: nat where "messageCompleted \<equiv> 3"

definition new_client :: hub_client where
  "new_client = \<lparr>entries = (\<lambda>a. if a < 4 then Some \<lparr>flink = a, blink = a\<rparr> else None), events = Map.empty, reports = Map.empty,
     held = [], currentMessageTimeout = 0, data_msg_id = 1, confirmations = [], report_answers = []\<rparr>"

text \<open>The callback of an event, if it has one, and the end of its entry.\<close>

definition confirm :: "message_list \<Rightarrow> confirmation_result \<Rightarrow> hub_client \<Rightarrow> hub_client" where
  "confirm e r s =
     (case event_callback e of None \<Rightarrow> s | Some c \<Rightarrow> s\<lparr>confirmations := confirmations s @ [(c, event_context e, r)]\<rparr>)"

definition free_event :: "nat \<Rightarrow> hub_client \<Rightarrow> hub_client" where
  "free_event a s = s\<lparr>entries := (entries s)(a := None), events := (events s)(a := None)\<rparr>"

definition answer_report :: "device_twin \<Rightarrow> int \<Rightarrow> hub_client \<Rightarrow> hub_client" where
  "answer_report d status s =
     (case reported_state_callback d of
        None \<Rightarrow> s
      | Some c \<Rightarrow> s\<lparr>report_answers := report_answers s @ [(c, report_context d, status)]\<rparr>)"

definition device_twin_data_destroy :: "nat \<Rightarrow> hub_client \<Rightarrow> hub_client" where
  "device_twin_data_destroy a s = s\<lparr>entries := (entries s)(a := None), reports := (reports s)(a := None)\<rparr>"

section \<open>Sending\<close>

definition attach_ms_timesOutAfter :: "64 word option \<Rightarrow> hub_client \<Rightarrow> (64 word \<times> 64 word) option" where
  "attach_ms_timesOutAfter tick s =
     (if currentMessageTimeout s = 0 then Some (0, 0)
      else case tick of None \<Rightarrow> None | Some now \<Rightarrow> Some (now, currentMessageTimeout s))"

text \<open>
  \<open>addr\<close> is the entry when memory is granted for it, \<open>tick\<close> the tick counter, \<open>diagnostic\<close> what
  \<open>IoTHubClient_Diagnostic_AddIfNecessary\<close> makes of the message.
\<close>

definition IoTHubClientCore_LL_SendEventAsync ::
  "(nat \<Rightarrow> bool) \<Rightarrow> nat \<Rightarrow> 64 word option \<Rightarrow> (message_data \<Rightarrow> message_data option) \<Rightarrow> message_data option \<Rightarrow> nat option \<Rightarrow> nat \<Rightarrow>
    hub_client \<Rightarrow> (client_result \<times> hub_client) option" where
  "IoTHubClientCore_LL_SendEventAsync mem addr tick diagnostic msg callback ctx s =
     (if msg = None \<or> callback = None \<and> ctx \<noteq> 0 then Some (IOTHUB_CLIENT_INVALID_ARG, s)
      else
        let (granted, n) = sdk_malloc mem 0 in
        if \<not> granted then Some (IOTHUB_CLIENT_ERROR, s)
        else case attach_ms_timesOutAfter tick s of
            None \<Rightarrow> Some (IOTHUB_CLIENT_ERROR, s)
          | Some (since, timeout) \<Rightarrow> do {
              (copy, n1) \<leftarrow> IoTHubMessage_Clone mem msg n;
              case Option.bind copy diagnostic of
                None \<Rightarrow> Some (IOTHUB_CLIENT_ERROR, s)
              | Some m \<Rightarrow> do {
                  h \<leftarrow> DList_InsertTailList waitingToSend addr ((entries s)(addr \<mapsto> \<lparr>flink = 0, blink = 0\<rparr>));
                  Some (IOTHUB_CLIENT_OK, s\<lparr>entries := h,
                    events := (events s)(addr \<mapsto> \<lparr>event_message = m, event_callback = callback, event_context = ctx,
                      ms_timesOutAfter = since, message_timeout_value = timeout\<rparr>)\<rparr>)
                }
            })"

definition get_next_item_id :: "hub_client \<Rightarrow> 32 word \<times> hub_client" where
  "get_next_item_id s =
     (let n = (if data_msg_id s + 1 \<ge> - 1 then 1 else data_msg_id s + 1) in (n, s\<lparr>data_msg_id := n\<rparr>))"

definition dev_twin_data_create ::
  "(nat \<Rightarrow> bool) \<Rightarrow> 32 word \<Rightarrow> char list \<Rightarrow> nat option \<Rightarrow> nat \<Rightarrow> device_twin option" where
  "dev_twin_data_create mem ident reportedState callback ctx =
     (let (granted, n) = sdk_malloc mem 0 in
      if \<not> granted then None
      else if \<not> fst (two_blocks mem n) then None
      else Some \<lparr>item_id = ident, reported_state_callback = callback, report_data = reportedState, report_context = ctx\<rparr>)"

definition IoTHubClientCore_LL_SendReportedState ::
  "(nat \<Rightarrow> bool) \<Rightarrow> nat \<Rightarrow> bool \<Rightarrow> char list option \<Rightarrow> nat \<Rightarrow> nat option \<Rightarrow> nat \<Rightarrow> hub_client \<Rightarrow>
    (client_result \<times> hub_client) option" where
  "IoTHubClientCore_LL_SendReportedState mem addr subscribed reportedState len callback ctx s =
     (case reportedState of
        None \<Rightarrow> Some (IOTHUB_CLIENT_INVALID_ARG, s)
      | Some text_of_state \<Rightarrow>
          if len = 0 then Some (IOTHUB_CLIENT_INVALID_ARG, s)
          else
            let (ident, s1) = get_next_item_id s in
            case dev_twin_data_create mem ident (take len text_of_state) callback ctx of
              None \<Rightarrow> Some (IOTHUB_CLIENT_ERROR, s1)
            | Some d \<Rightarrow>
                if \<not> subscribed then Some (IOTHUB_CLIENT_ERROR, s1)
                else do {
                  h \<leftarrow> DList_InsertTailList iot_msg_queue addr ((entries s1)(addr \<mapsto> \<lparr>flink = 0, blink = 0\<rparr>));
                  Some (IOTHUB_CLIENT_OK, s1\<lparr>entries := h, reports := (reports s1)(addr \<mapsto> d)\<rparr>)
                })"

section \<open>Completing\<close>

partial_function (option) complete_loop :: "nat \<Rightarrow> confirmation_result \<Rightarrow> hub_client \<Rightarrow> hub_client option" where
  "complete_loop completed r s = do {
     (oldest, h) \<leftarrow> DList_RemoveHeadList completed (entries s);
     if oldest = completed then Some (s\<lparr>entries := h\<rparr>)
     else do {
       e \<leftarrow> events s oldest;
       complete_loop completed r (free_event oldest (confirm e r (s\<lparr>entries := h\<rparr>)))
     }
   }"

definition IoTHubClientCore_LL_SendComplete :: "nat \<Rightarrow> confirmation_result \<Rightarrow> hub_client \<Rightarrow> hub_client option" where
  "IoTHubClientCore_LL_SendComplete completed r s = complete_loop completed r s"

text \<open>The transport's side: an event that is on no list any more is completed.\<close>

definition notifyApplicationOfSendMessageComplete :: "nat \<Rightarrow> confirmation_result \<Rightarrow> hub_client \<Rightarrow> hub_client option" where
  "notifyApplicationOfSendMessageComplete item r s = do {
     h \<leftarrow> DList_InitializeListHead messageCompleted (entries s);
     h1 \<leftarrow> DList_InsertTailList messageCompleted item h;
     IoTHubClientCore_LL_SendComplete messageCompleted r (s\<lparr>entries := h1\<rparr>)
   }"

partial_function (option) answer_loop :: "32 word \<Rightarrow> int \<Rightarrow> nat \<Rightarrow> hub_client \<Rightarrow> hub_client option" where
  "answer_loop ident status item s =
     (if item = iot_ack_queue then Some s
      else do {
        n \<leftarrow> entries s item;
        d \<leftarrow> reports s item;
        if item_id d = ident then do {
          (b, h) \<leftarrow> DList_RemoveEntryList item (entries s);
          Some (device_twin_data_destroy item (answer_report d status s\<lparr>entries := h\<rparr>))
        } else answer_loop ident status (flink n) s
      })"

definition IoTHubClientCore_LL_ReportedStateComplete :: "32 word \<Rightarrow> int \<Rightarrow> hub_client \<Rightarrow> hub_client option" where
  "IoTHubClientCore_LL_ReportedStateComplete ident status s = do {
     n \<leftarrow> entries s iot_ack_queue;
     answer_loop ident status (flink n) s
   }"

section \<open>DoWork\<close>

definition timed_out :: "64 word \<Rightarrow> message_list \<Rightarrow> bool" where
  "timed_out now e \<longleftrightarrow> ms_timesOutAfter e \<noteq> 0 \<and> now - ms_timesOutAfter e > message_timeout_value e"

partial_function (option) timeout_loop :: "64 word \<Rightarrow> nat \<Rightarrow> hub_client \<Rightarrow> hub_client option" where
  "timeout_loop now item s =
     (if item = waitingToSend then Some s
      else do {
        n \<leftarrow> entries s item;
        e \<leftarrow> events s item;
        if timed_out now e then do {
          (b, h) \<leftarrow> DList_RemoveEntryList item (entries s);
          timeout_loop now (flink n)
            (free_event item (confirm e IOTHUB_CLIENT_CONFIRMATION_MESSAGE_TIMEOUT (s\<lparr>entries := h\<rparr>)))
        } else timeout_loop now (flink n) s
      })"

definition DoTimeouts :: "64 word option \<Rightarrow> hub_client \<Rightarrow> hub_client option" where
  "DoTimeouts tick s =
     (case tick of
        None \<Rightarrow> Some s
      | Some now \<Rightarrow> do { n \<leftarrow> entries s waitingToSend; timeout_loop now (flink n) s })"

partial_function (option) report_loop ::
    "(device_twin \<Rightarrow> process_item_result) \<Rightarrow> nat \<Rightarrow> hub_client \<Rightarrow> hub_client option" where
  "report_loop process item s =
     (if item = iot_msg_queue then Some s
      else do {
        n \<leftarrow> entries s item;
        d \<leftarrow> reports s item;
        let r = process d;
        if r = IOTHUB_PROCESS_CONTINUE \<or> r = IOTHUB_PROCESS_NOT_CONNECTED then Some s
        else do {
          (b, h) \<leftarrow> DList_RemoveEntryList item (entries s);
          if r = IOTHUB_PROCESS_OK then do {
            h1 \<leftarrow> DList_InsertTailList iot_ack_queue item h;
            report_loop process (flink n) (s\<lparr>entries := h1\<rparr>)
          } else report_loop process (flink n) (device_twin_data_destroy item (s\<lparr>entries := h\<rparr>))
        }
      })"

text \<open>What comes of an event that the transport tries to publish.\<close>

datatype publish_result = No_Payload | No_Memory | Not_Published | Published

partial_function (option) publish_loop ::
    "(nat \<Rightarrow> message_list \<Rightarrow> publish_result) \<Rightarrow> nat \<Rightarrow> hub_client \<Rightarrow> hub_client option" where
  "publish_loop publish item s =
     (if item = waitingToSend then Some s
      else do {
        e \<leftarrow> events s item;
        n \<leftarrow> entries s item;
        case publish item e of
          No_Memory \<Rightarrow> publish_loop publish (flink n) s
        | Published \<Rightarrow> do {
            (b, h) \<leftarrow> DList_RemoveEntryList item (entries s);
            publish_loop publish (flink n) (s\<lparr>entries := h, held := held s @ [item]\<rparr>)
          }
        | _ \<Rightarrow> do {
            (b, h) \<leftarrow> DList_RemoveEntryList item (entries s);
            s1 \<leftarrow> notifyApplicationOfSendMessageComplete item IOTHUB_CLIENT_CONFIRMATION_ERROR (s\<lparr>entries := h\<rparr>);
            publish_loop publish (flink n) s1
          }
      })"

definition ProcessPublishStateDoWork :: "(nat \<Rightarrow> message_list \<Rightarrow> publish_result) \<Rightarrow> hub_client \<Rightarrow> hub_client option" where
  "ProcessPublishStateDoWork publish s = do { n \<leftarrow> entries s waitingToSend; publish_loop publish (flink n) s }"

text \<open>The transport publishes when it is connected.\<close>

definition IoTHubClientCore_LL_DoWork ::
  "64 word option \<Rightarrow> (device_twin \<Rightarrow> process_item_result) \<Rightarrow> (nat \<Rightarrow> message_list \<Rightarrow> publish_result) option \<Rightarrow> hub_client \<Rightarrow>
    hub_client option" where
  "IoTHubClientCore_LL_DoWork tick process transport s = do {
     s1 \<leftarrow> DoTimeouts tick s;
     n \<leftarrow> entries s1 iot_msg_queue;
     s2 \<leftarrow> report_loop process (flink n) s1;
     case transport of None \<Rightarrow> Some s2 | Some publish \<Rightarrow> ProcessPublishStateDoWork publish s2
   }"

section \<open>Destroying\<close>

text \<open>The transport gives back what it holds, and then the lists of the client are emptied.\<close>

fun complete_held :: "nat list \<Rightarrow> hub_client \<Rightarrow> hub_client option" where
  "complete_held [] s = Some s"
| "complete_held (a # as) s = do {
     s1 \<leftarrow> notifyApplicationOfSendMessageComplete a IOTHUB_CLIENT_CONFIRMATION_BECAUSE_DESTROY (s\<lparr>held := as\<rparr>);
     complete_held as s1
   }"

partial_function (option) drain_reports :: "nat \<Rightarrow> hub_client \<Rightarrow> hub_client option" where
  "drain_reports head s = do {
     (unsend, h) \<leftarrow> DList_RemoveHeadList head (entries s);
     if unsend = head then Some (s\<lparr>entries := h\<rparr>)
     else do {
       d \<leftarrow> reports s unsend;
       drain_reports head (device_twin_data_destroy unsend (answer_report d 0 (s\<lparr>entries := h\<rparr>)))
     }
   }"

definition IoTHubClientCore_LL_Destroy :: "hub_client \<Rightarrow> hub_client option" where
  "IoTHubClientCore_LL_Destroy s = do {
     s1 \<leftarrow> complete_held (held s) s;
     s2 \<leftarrow> complete_loop waitingToSend IOTHUB_CLIENT_CONFIRMATION_BECAUSE_DESTROY s1;
     s3 \<leftarrow> drain_reports iot_msg_queue s2;
     drain_reports iot_ack_queue s3
   }"

section \<open>The lists in memory\<close>

text \<open>
  \<open>Q l\<close> are the entries behind the head \<open>l\<close>; \<open>L\<close> and \<open>R\<close> are the events and the reports that are on no list.
\<close>

definition addresses :: "(nat \<Rightarrow> nat list) \<Rightarrow> nat list \<Rightarrow> nat list \<Rightarrow> nat list" where
  "addresses Q L R = [0, 1, 2, 3] @ Q 0 @ Q 1 @ Q 2 @ Q 3 @ L @ R"

definition queue_sets :: "hub_client \<Rightarrow> (nat \<Rightarrow> nat list) \<Rightarrow> nat list \<Rightarrow> nat list \<Rightarrow> bool" where
  "queue_sets s Q L R \<longleftrightarrow> distinct (addresses Q L R) \<and> dom (entries s) = set (addresses Q L R) \<and>
     dom (events s) = set (Q 0 @ Q 3 @ L) \<and> dom (reports s) = set (Q 1 @ Q 2 @ R)"

definition queue_ok :: "hub_client \<Rightarrow> (nat \<Rightarrow> nat list) \<Rightarrow> nat list \<Rightarrow> nat list \<Rightarrow> bool" where
  "queue_ok s Q L R \<longleftrightarrow> (\<forall>l < 4. dlist (entries s) l (Q l)) \<and> queue_sets s Q L R"

lemma head_cases: "l < (4 :: nat) \<Longrightarrow> l = 0 \<or> l = 1 \<or> l = 2 \<or> l = 3"
  by auto

text \<open>Only the entries as a multiset count.\<close>

lemma queue_sets_mset:
  assumes "queue_sets s Q L R" "mset (addresses Q L R) = mset (addresses Q' L' R')"
    "set (Q 0 @ Q 3 @ L) = set (Q' 0 @ Q' 3 @ L')" "set (Q 1 @ Q 2 @ R) = set (Q' 1 @ Q' 2 @ R')"
  shows "queue_sets s Q' L' R'"
  using assms mset_eq_imp_distinct_iff [OF assms(2)] mset_eq_setD [OF assms(2)] by (simp only: queue_sets_def)

lemma queue_okD:
  assumes "queue_ok s Q L R" "l < 4"
  shows "dlist (entries s) l (Q l)" "distinct (Q l)" "set (l # Q l) \<inter> set (L @ R) = {}"
proof -
  show d: "dlist (entries s) l (Q l)" using assms by (simp add: queue_ok_def)
  then show "distinct (Q l)" by (simp add: dlist_def)
  have "distinct (addresses Q L R)" using assms by (simp add: queue_ok_def queue_sets_def)
  then show "set (l # Q l) \<inter> set (L @ R) = {}"
    using head_cases [OF assms(2)] unfolding addresses_def by (elim disjE) (simp_all, blast+)
qed

lemma heads_apart:
  assumes "queue_ok s Q L R" "l < 4" "m < 4" "m \<noteq> l"
  shows "set (l # Q l) \<inter> set (m # Q m) = {}"
proof -
  have "distinct (addresses Q L R)" using assms by (simp add: queue_ok_def queue_sets_def)
  then show ?thesis
    using head_cases [OF assms(2)] head_cases [OF assms(3)] assms(4) unfolding addresses_def by (elim disjE) (simp_all, blast+)
qed

text \<open>A list is linked anew, and only its entries and loose ones are written.\<close>

lemma queue_relink:
  assumes q: "queue_ok s Q L R" and l: "l < 4"
    and d: "dlist h l xs" "dom h = dom (entries s)" "\<forall>c. c \<notin> set (l # Q l) \<union> set (L @ R) \<longrightarrow> h c = entries s c"
    and s: "queue_sets s (Q(l := xs)) L' R'"
  shows "queue_ok (s\<lparr>entries := h\<rparr>) (Q(l := xs)) L' R'"
proof -
  have "dlist h m ((Q(l := xs)) m)" if m: "m < 4" for m
  proof (cases "m = l")
    case False
    have "\<forall>c \<in> set (m # Q m). h c = entries s c"
      using d(3) heads_apart [OF q l m False] queue_okD(3) [OF q m] by blast
    then show ?thesis using False dlist_frame queue_okD(1) [OF q m] by simp
  qed (use d in simp)
  moreover have "queue_sets (s\<lparr>entries := h\<rparr>) (Q(l := xs)) L' R'" using s d(2) by (simp add: queue_sets_def)
  ultimately show ?thesis by (simp add: queue_ok_def)
qed

definition event_list :: "nat \<Rightarrow> bool" where
  "event_list l \<longleftrightarrow> l = 0 \<or> l = 3"

abbreviation (input) loose_events :: "nat \<Rightarrow> nat \<Rightarrow> nat list \<Rightarrow> nat list" where
  "loose_events l a L \<equiv> if event_list l then a # L else L"

abbreviation (input) loose_reports :: "nat \<Rightarrow> nat \<Rightarrow> nat list \<Rightarrow> nat list" where
  "loose_reports l a R \<equiv> if event_list l then R else a # R"

lemma take_out:
  assumes q: "queue_ok s Q L R" and l: "l < 4" and Q: "Q l = xs @ a # ys"
  obtains h where "DList_RemoveEntryList a (entries s) = Some (xs @ ys = [], h)"
    "queue_ok (s\<lparr>entries := h\<rparr>) (Q(l := xs @ ys)) (loose_events l a L) (loose_reports l a R)"
proof -
  have d: "dlist (entries s) l (xs @ a # ys)" using queue_okD(1) [OF q l] Q by simp
  obtain h where h: "DList_RemoveEntryList a (entries s) = Some (xs @ ys = [], h)" "dlist h l (xs @ ys)" "dom h = dom (entries s)"
    "\<forall>c. c \<notin> set (l # xs @ ys) \<longrightarrow> h c = entries s c"
    by (rule remove_entry [OF d])
  have "queue_sets s Q L R" using q by (simp add: queue_ok_def)
  then have "queue_sets s (Q(l := xs @ ys)) (loose_events l a L) (loose_reports l a R)"
    by (rule queue_sets_mset) (use head_cases [OF l] Q in \<open>auto simp: addresses_def event_list_def\<close>)
  then show ?thesis
    by (intro that [OF h(1)] queue_relink [OF q l h(2,3)]) (use h(4) Q in auto)
qed

lemma put_in:
  assumes q: "queue_ok s Q (loose_events l a L) (loose_reports l a R)" and l: "l < 4"
  obtains h where "DList_InsertTailList l a (entries s) = Some h" "queue_ok (s\<lparr>entries := h\<rparr>) (Q(l := Q l @ [a])) L R"
proof -
  have s: "queue_sets s Q (loose_events l a L) (loose_reports l a R)" using q by (simp add: queue_ok_def)
  have a: "a \<notin> set (l # Q l)" using queue_okD(3) [OF q l] by (auto split: if_splits)
  have "a \<in> dom (entries s)" using s by (auto simp: queue_sets_def addresses_def)
  then obtain n where n: "entries s a = Some n" by auto
  obtain h where h: "DList_InsertTailList l a (entries s) = Some h" "dlist h l (Q l @ [a])" "dom h = dom (entries s)"
    "\<forall>c. c \<notin> set (l # Q l @ [a]) \<longrightarrow> h c = entries s c"
    by (rule insert_tail [OF queue_okD(1) [OF q l] a n])
  have "queue_sets s (Q(l := Q l @ [a])) L R"
    using s by (rule queue_sets_mset) (use head_cases [OF l] in \<open>auto simp: addresses_def event_list_def\<close>)
  then show ?thesis
    by (intro that [OF h(1)] queue_relink [OF q l h(2,3)]) (use h(4) in auto)
qed

text \<open>The first entry of a list, or the head itself when it is empty.\<close>

lemma take_head:
  assumes q: "queue_ok s Q L R" and l: "l < 4" and Q: "Q l = a # xs"
  obtains h where "DList_RemoveHeadList l (entries s) = Some (a, h)" "a \<noteq> l"
    "queue_ok (s\<lparr>entries := h\<rparr>) (Q(l := xs)) (loose_events l a L) (loose_reports l a R)"
proof -
  have d: "dlist (entries s) l (a # xs)" using queue_okD(1) [OF q l] Q by simp
  obtain h where h: "DList_RemoveEntryList a (entries s) = Some ([] @ xs = [], h)"
    "queue_ok (s\<lparr>entries := h\<rparr>) (Q(l := [] @ xs)) (loose_events l a L) (loose_reports l a R)"
    by (rule take_out [OF q l, of "[]" a xs]) (use Q in simp_all)
  have "DList_RemoveHeadList l (entries s) = Some (a, h)" by (rule remove_head_entry [OF d]) (use h in simp)
  moreover have "a \<noteq> l" using d by (auto simp: dlist_def)
  ultimately show ?thesis using h(2) by (intro that) simp_all
qed

lemma take_none:
  assumes q: "queue_ok s Q L R" and l: "l < 4" and Q: "Q l = []"
  obtains h where "DList_RemoveHeadList l (entries s) = Some (l, h)" "queue_ok (s\<lparr>entries := h\<rparr>) Q L R"
proof -
  have d: "dlist (entries s) l []" using queue_okD(1) [OF q l] Q by simp
  obtain h where h: "DList_RemoveHeadList l (entries s) = Some (l, h)" "dlist h l []" "dom h = dom (entries s)"
    "\<forall>c. c \<noteq> l \<longrightarrow> h c = entries s c"
    by (rule remove_head_empty [OF d])
  have u: "Q(l := []) = Q" using Q by auto
  have "queue_sets s (Q(l := [])) L R" using q by (simp add: u queue_ok_def)
  from queue_relink [OF q l h(2,3) _ this] show ?thesis using h(1,4) by (intro that) (auto simp: u)
qed

lemma queue_perm:
  assumes "queue_ok s Q L R" "mset L' = mset L"
  shows "queue_ok s Q L' R"
proof -
  have "queue_sets s Q L R" using assms by (simp add: queue_ok_def)
  then have "queue_sets s Q L' R"
    by (rule queue_sets_mset) (use assms(2) mset_eq_setD [OF assms(2)] in \<open>simp_all add: addresses_def\<close>)
  then show ?thesis using assms by (simp add: queue_ok_def)
qed

lemma queue_ok_simps [simp]:
  "queue_ok (confirm e r s) Q L R \<longleftrightarrow> queue_ok s Q L R"
  "queue_ok (answer_report d status s) Q L R \<longleftrightarrow> queue_ok s Q L R"
  "queue_ok (s\<lparr>held := as\<rparr>) Q L R \<longleftrightarrow> queue_ok s Q L R"
  by (simp_all add: queue_ok_def queue_sets_def confirm_def answer_report_def split: option.split)

text \<open>A loose entry is freed, and a new one is allocated.\<close>

lemma queue_free:
  assumes q: "queue_ok s Q L R" and a: "a \<in> set (L @ R)"
    and s: "queue_sets s' Q L' R'" "entries s' = (entries s)(a := None)"
  shows "queue_ok s' Q L' R'"
proof -
  have "dlist (entries s') m (Q m)" if m: "m < 4" for m
    by (rule dlist_frame [OF queue_okD(1) [OF q m]]) (use queue_okD(3) [OF q m] a s(2) in auto)
  then show ?thesis using s(1) by (simp add: queue_ok_def)
qed

lemma free_event_ok:
  assumes "queue_ok s Q (a # L) R"
  shows "queue_ok (free_event a s) Q L R"
proof (rule queue_free [OF assms])
  show "queue_sets (free_event a s) Q L R"
    using assms by (auto simp: queue_ok_def queue_sets_def addresses_def free_event_def)
qed (simp_all add: free_event_def)

lemma free_report_ok:
  assumes "queue_ok s Q L (a # R)"
  shows "queue_ok (device_twin_data_destroy a s) Q L R"
proof (rule queue_free [OF assms])
  show "queue_sets (device_twin_data_destroy a s) Q L R"
    using assms by (auto simp: queue_ok_def queue_sets_def addresses_def device_twin_data_destroy_def)
qed (simp_all add: device_twin_data_destroy_def)

lemma queue_alloc:
  assumes q: "queue_ok s Q L R" and a: "entries s a = None"
    and s: "queue_sets s' Q L' R'" "entries s' = (entries s)(a \<mapsto> n)"
  shows "queue_ok s' Q L' R'"
proof -
  have d: "dom (entries s) = set (addresses Q L R)" using q by (simp add: queue_ok_def queue_sets_def)
  then have "a \<notin> set (addresses Q L R)" using a by (metis domIff)
  then have "a \<notin> set (m # Q m)" if "m < 4" for m
    using head_cases [OF that] by (auto simp: addresses_def)
  then have "dlist (entries s') m (Q m)" if m: "m < 4" for m
    by (intro dlist_frame [OF queue_okD(1) [OF q m]]) (use s(2) m in auto)
  then show ?thesis using s(1) by (simp add: queue_ok_def)
qed

section \<open>What is owed to the application\<close>

definition owed :: "message_list option \<Rightarrow> (nat \<times> nat) multiset" where
  "owed e = (case e of None \<Rightarrow> {#} | Some e \<Rightarrow> (case event_callback e of None \<Rightarrow> {#} | Some c \<Rightarrow> {#(c, event_context e)#}))"

definition owed_report :: "device_twin option \<Rightarrow> (nat \<times> nat) multiset" where
  "owed_report d =
     (case d of None \<Rightarrow> {#} | Some d \<Rightarrow> (case reported_state_callback d of None \<Rightarrow> {#} | Some c \<Rightarrow> {#(c, report_context d)#}))"

text \<open>The callbacks that were run and those that are still to be run.\<close>

definition event_account :: "hub_client \<Rightarrow> (nat \<times> nat) multiset" where
  "event_account s = mset (map (\<lambda>(c, x, r). (c, x)) (confirmations s)) + (\<Sum>a \<in> dom (events s). owed (events s a))"

definition report_account :: "hub_client \<Rightarrow> (nat \<times> nat) multiset" where
  "report_account s = mset (map (\<lambda>(c, x, r). (c, x)) (report_answers s)) + (\<Sum>a \<in> dom (reports s). owed_report (reports s a))"

lemma finite_dom: "queue_ok s Q L R \<Longrightarrow> finite (dom (events s)) \<and> finite (dom (reports s))"
  by (simp add: queue_ok_def queue_sets_def)

lemma sum_without:
  fixes g :: "'b option \<Rightarrow> 'c multiset"
  assumes "finite (dom f)" "f a = Some e"
  shows "(\<Sum>b \<in> dom (f(a := None)). g ((f(a := None)) b)) + g (f a) = (\<Sum>b \<in> dom f. g (f b))"
proof -
  have "(\<Sum>b \<in> dom (f(a := None)). g ((f(a := None)) b)) = (\<Sum>b \<in> dom f - {a}. g (f b))"
    by (rule sum.cong) auto
  moreover have "(\<Sum>b \<in> dom f. g (f b)) = g (f a) + (\<Sum>b \<in> dom f - {a}. g (f b))"
    using assms by (intro sum.remove) auto
  ultimately show ?thesis by (simp add: add.commute)
qed

lemma sum_with:
  fixes g :: "'b option \<Rightarrow> 'c multiset"
  assumes "finite (dom f)" "f a = None"
  shows "(\<Sum>b \<in> dom (f(a \<mapsto> e)). g ((f(a \<mapsto> e)) b)) = g (Some e) + (\<Sum>b \<in> dom f. g (f b))"
proof -
  have "f = (f(a \<mapsto> e))(a := None)" using assms(2) by auto
  then show ?thesis using sum_without [of "f(a \<mapsto> e)" a e g] assms by (simp add: add.commute)
qed

lemma confirm_fields [simp]:
  "events (confirm e r s) = events s" "reports (confirm e r s) = reports s" "entries (confirm e r s) = entries s"
  "held (confirm e r s) = held s" "report_answers (confirm e r s) = report_answers s"
  "mset (map (\<lambda>(c, x, r). (c, x)) (confirmations (confirm e r s))) =
     mset (map (\<lambda>(c, x, r). (c, x)) (confirmations s)) + owed (Some e)"
  by (simp_all add: confirm_def owed_def split: option.split)

lemma answer_fields [simp]:
  "events (answer_report d i s) = events s" "reports (answer_report d i s) = reports s" "entries (answer_report d i s) = entries s"
  "held (answer_report d i s) = held s" "confirmations (answer_report d i s) = confirmations s"
  "mset (map (\<lambda>(c, x, r). (c, x)) (report_answers (answer_report d i s))) =
     mset (map (\<lambda>(c, x, r). (c, x)) (report_answers s)) + owed_report (Some d)"
  by (simp_all add: answer_report_def owed_report_def split: option.split)

lemma free_fields [simp]:
  "events (free_event a s) = (events s)(a := None)" "reports (free_event a s) = reports s" "held (free_event a s) = held s"
  "confirmations (free_event a s) = confirmations s" "report_answers (free_event a s) = report_answers s"
  "events (device_twin_data_destroy a s) = events s" "reports (device_twin_data_destroy a s) = (reports s)(a := None)"
  "held (device_twin_data_destroy a s) = held s" "confirmations (device_twin_data_destroy a s) = confirmations s"
  "report_answers (device_twin_data_destroy a s) = report_answers s"
  by (simp_all add: free_event_def device_twin_data_destroy_def)

text \<open>A state after which the same is owed or done as before, and the transport holds the same.\<close>

definition settled :: "hub_client \<Rightarrow> hub_client \<Rightarrow> bool" where
  "settled s s' \<longleftrightarrow> event_account s' = event_account s \<and> report_account s' = report_account s \<and> held s' = held s"

lemma settled_refl [simp]: "settled s s" "settled s (s\<lparr>entries := h\<rparr>)"
  by (simp_all add: settled_def event_account_def report_account_def)

lemma settled_trans: "settled s s1 \<Longrightarrow> settled s1 s2 \<Longrightarrow> settled s s2"
  by (simp add: settled_def)

lemma finish_event:
  assumes "queue_ok s Q (a # L) R"
  obtains e where "events s a = Some e" "queue_ok (free_event a (confirm e r s)) Q L R" "settled s (free_event a (confirm e r s))"
proof -
  have "a \<in> dom (events s)" using assms by (simp add: queue_ok_def queue_sets_def)
  then obtain e where e: "events s a = Some e" by auto
  have "event_account (free_event a (confirm e r s)) = event_account s"
    using sum_without [where f = "events s" and a = a and e = e and g = owed] finite_dom [OF assms] e unfolding event_account_def by (simp add: ac_simps del: mset_map)
  then show ?thesis
    using free_event_ok [of "confirm e r s" Q a L R] assms e by (intro that [of e]) (simp_all add: settled_def report_account_def)
qed

lemma finish_report:
  assumes "queue_ok s Q L (a # R)"
  obtains d where "reports s a = Some d" "queue_ok (device_twin_data_destroy a (answer_report d i s)) Q L R"
    "settled s (device_twin_data_destroy a (answer_report d i s))"
proof -
  have "a \<in> dom (reports s)" using assms by (simp add: queue_ok_def queue_sets_def)
  then obtain d where d: "reports s a = Some d" by auto
  have "report_account (device_twin_data_destroy a (answer_report d i s)) = report_account s"
    using sum_without [where f = "reports s" and a = a and e = d and g = owed_report] finite_dom [OF assms] d unfolding report_account_def by (simp add: ac_simps del: mset_map)
  then show ?thesis
    using free_report_ok [of "answer_report d i s" Q L a R] assms d by (intro that [of d]) (simp_all add: settled_def event_account_def)
qed

section \<open>The loops end\<close>

lemma next_entry:
  assumes q: "queue_ok s Q L R" and l: "l < 4" and Q: "Q l = xs @ a # ys"
  obtains n where "entries s a = Some n" "flink n = hd (ys @ [l])" "a \<noteq> l"
proof -
  have d: "dlist (entries s) l (xs @ a # ys)" using queue_okD(1) [OF q l] Q by simp
  then have "path (entries s) ((l # xs) @ a # (ys @ [l]))" by (simp add: dlist_def)
  then have p: "path (entries s) (a # (ys @ [l]))" using path_append by blast
  then have "next_of (entries s) a = Some (hd (ys @ [l]))" by (cases ys) simp_all
  moreover have "a \<noteq> l" using d by (auto simp: dlist_def)
  ultimately show ?thesis using next_ofD that by blast
qed

lemma first_entry:
  assumes q: "queue_ok s Q L R" and l: "l < 4"
  obtains n where "entries s l = Some n" "flink n = hd (Q l @ [l])"
  using head_links(1) [OF queue_okD(1) [OF q l]] next_ofD by blast

lemma complete_loop_ends:
  assumes "queue_ok s Q L R" "l < 4" "event_list l"
  shows "\<exists>s'. complete_loop l r s = Some s' \<and> queue_ok s' (Q(l := [])) L R \<and> settled s s'"
  using assms(1)
proof (induction "Q l" arbitrary: s Q)
  case Nil
  then obtain h where h: "DList_RemoveHeadList l (entries s) = Some (l, h)" "queue_ok (s\<lparr>entries := h\<rparr>) Q L R"
    using take_none [OF Nil.prems assms(2)] by metis
  have "Q(l := []) = Q" using Nil by auto
  then show ?case using h by (simp add: complete_loop.simps [of l r s])
next
  case (Cons a xs)
  obtain h where h: "DList_RemoveHeadList l (entries s) = Some (a, h)" "a \<noteq> l"
    "queue_ok (s\<lparr>entries := h\<rparr>) (Q(l := xs)) (loose_events l a L) (loose_reports l a R)"
    by (rule take_head [OF Cons.prems assms(2) Cons.hyps(2) [symmetric]])
  have q: "queue_ok (s\<lparr>entries := h\<rparr>) (Q(l := xs)) (a # L) R" using h(3) assms(3) by simp
  let ?s = "s\<lparr>entries := h\<rparr>"
  obtain e where e: "events ?s a = Some e" "queue_ok (free_event a (confirm e r ?s)) (Q(l := xs)) L R"
    "settled ?s (free_event a (confirm e r ?s))"
    by (rule finish_event [where r = r, OF q])
  from Cons.hyps(1) [OF _ e(2)] obtain s' where s': "complete_loop l r (free_event a (confirm e r ?s)) = Some s'"
    "queue_ok s' (Q(l := [])) L R" "settled (free_event a (confirm e r ?s)) s'"
    by auto
  have "complete_loop l r s = Some s'" using h(1,2) e(1) s'(1) by (simp add: complete_loop.simps [of l r s])
  then show ?case using s' e(3) settled_trans settled_refl(2) by blast
qed

lemma drain_reports_ends:
  assumes "queue_ok s Q L R" "l < 4" "\<not> event_list l"
  shows "\<exists>s'. drain_reports l s = Some s' \<and> queue_ok s' (Q(l := [])) L R \<and> settled s s'"
  using assms(1)
proof (induction "Q l" arbitrary: s Q)
  case Nil
  then obtain h where h: "DList_RemoveHeadList l (entries s) = Some (l, h)" "queue_ok (s\<lparr>entries := h\<rparr>) Q L R"
    using take_none [OF Nil.prems assms(2)] by metis
  have "Q(l := []) = Q" using Nil by auto
  then show ?case using h by (simp add: drain_reports.simps [of l s])
next
  case (Cons a xs)
  obtain h where h: "DList_RemoveHeadList l (entries s) = Some (a, h)" "a \<noteq> l"
    "queue_ok (s\<lparr>entries := h\<rparr>) (Q(l := xs)) (loose_events l a L) (loose_reports l a R)"
    by (rule take_head [OF Cons.prems assms(2) Cons.hyps(2) [symmetric]])
  have q: "queue_ok (s\<lparr>entries := h\<rparr>) (Q(l := xs)) L (a # R)" using h(3) assms(3) by simp
  let ?s = "s\<lparr>entries := h\<rparr>"
  obtain d where d: "reports ?s a = Some d" "queue_ok (device_twin_data_destroy a (answer_report d 0 ?s)) (Q(l := xs)) L R"
    "settled ?s (device_twin_data_destroy a (answer_report d 0 ?s))"
    by (rule finish_report [where i = 0, OF q])
  from Cons.hyps(1) [OF _ d(2)] obtain s' where s': "drain_reports l (device_twin_data_destroy a (answer_report d 0 ?s)) = Some s'"
    "queue_ok s' (Q(l := [])) L R" "settled (device_twin_data_destroy a (answer_report d 0 ?s)) s'"
    by auto
  have "drain_reports l s = Some s'" using h(1,2) d(1) s'(1) by (simp add: drain_reports.simps [of l s])
  then show ?case using s' d(3) settled_trans settled_refl(2) by blast
qed

text \<open>The list on the stack of the transport is empty between its calls.\<close>

lemma notify_ends:
  assumes q: "queue_ok s Q (a # L) R" and Q: "Q 3 = []"
  shows "\<exists>s'. notifyApplicationOfSendMessageComplete a r s = Some s' \<and> queue_ok s' Q L R \<and> settled s s'"
proof -
  have "3 \<in> dom (entries s)" using q by (simp add: queue_ok_def queue_sets_def addresses_def)
  then have "entries s 3 \<noteq> None" by blast
  then obtain h where h: "DList_InitializeListHead 3 (entries s) = Some h" "dlist h 3 []" "dom h = dom (entries s)"
    "\<forall>c. c \<noteq> 3 \<longrightarrow> h c = entries s c"
    using init_list by metis
  have u: "Q(3 := []) = Q" using Q by auto
  have "queue_sets s (Q(3 := [])) (a # L) R" using q by (simp add: u queue_ok_def)
  then have "queue_ok (s\<lparr>entries := h\<rparr>) (Q(3 := [])) (a # L) R"
    by (rule queue_relink [OF q _ h(2,3), rotated 2]) (use h(4) in auto)
  then have "queue_ok (s\<lparr>entries := h\<rparr>) Q (loose_events 3 a L) (loose_reports 3 a R)" by (simp add: u event_list_def)
  then obtain h1 where h1: "DList_InsertTailList 3 a (entries (s\<lparr>entries := h\<rparr>)) = Some h1"
    "queue_ok ((s\<lparr>entries := h\<rparr>)\<lparr>entries := h1\<rparr>) (Q(3 := Q 3 @ [a])) L R"
    by (rule put_in) simp
  have "queue_ok (s\<lparr>entries := h1\<rparr>) (Q(3 := [a])) L R" using h1(2) Q by simp
  from complete_loop_ends [OF this, of 3 r] obtain s' where
    "complete_loop 3 r (s\<lparr>entries := h1\<rparr>) = Some s'" "queue_ok s' Q L R" "settled (s\<lparr>entries := h1\<rparr>) s'"
    by (auto simp: event_list_def u)
  then show ?thesis
    using h(1) h1(1) settled_trans [of s "s\<lparr>entries := h1\<rparr>" s']
    by (simp add: notifyApplicationOfSendMessageComplete_def IoTHubClientCore_LL_SendComplete_def)
qed

lemma timeout_loop_ends:
  assumes "queue_ok s Q L R" "Q 0 = ws @ rest"
  shows "\<exists>s'. timeout_loop now (hd (rest @ [0])) s = Some s' \<and> settled s s' \<and>
    queue_ok s' (Q(0 := ws @ filter (\<lambda>a. \<not> timed_out now (the (events s a))) rest)) L R"
  using assms
proof (induction rest arbitrary: s Q ws)
  case Nil
  then have "Q(0 := ws) = Q" by auto
  then show ?case using Nil by (simp add: timeout_loop.simps [of now 0])
next
  case (Cons a rest)
  obtain n where n: "entries s a = Some n" "flink n = hd (rest @ [0])" "a \<noteq> 0"
    by (rule next_entry [OF Cons.prems(1) _ Cons.prems(2)]) simp
  have "a \<in> dom (events s)" using Cons.prems by (simp add: queue_ok_def queue_sets_def)
  then obtain e where e: "events s a = Some e" by auto
  have fresh: "a \<notin> set rest" using queue_okD(2) [OF Cons.prems(1), of 0] Cons.prems(2) by simp
  show ?case
  proof (cases "timed_out now e")
    case True
    obtain h where h: "DList_RemoveEntryList a (entries s) = Some (ws @ rest = [], h)"
      "queue_ok (s\<lparr>entries := h\<rparr>) (Q(0 := ws @ rest)) (loose_events 0 a L) (loose_reports 0 a R)"
      by (rule take_out [OF Cons.prems(1) _ Cons.prems(2)]) simp
    let ?s = "s\<lparr>entries := h\<rparr>" and ?r = IOTHUB_CLIENT_CONFIRMATION_MESSAGE_TIMEOUT
    have q: "queue_ok ?s (Q(0 := ws @ rest)) (a # L) R" using h(2) by (simp add: event_list_def)
    have f: "queue_ok (free_event a (confirm e ?r ?s)) (Q(0 := ws @ rest)) L R" "settled ?s (free_event a (confirm e ?r ?s))"
      using finish_event [where r = ?r, OF q] e by auto
    have ev: "events (free_event a (confirm e ?r ?s)) = (events s)(a := None)" by simp
    from Cons.IH [OF f(1) fun_upd_same, unfolded ev fun_upd_upd] obtain s' where s': "timeout_loop now (hd (rest @ [0])) (free_event a (confirm e ?r ?s)) = Some s'"
      "settled (free_event a (confirm e ?r ?s)) s'"
      "queue_ok s' (Q(0 := ws @ filter (\<lambda>b. \<not> timed_out now (the (((events s)(a := None)) b))) rest)) L R"
      by blast
    have "filter (\<lambda>b. \<not> timed_out now (the (((events s)(a := None)) b))) rest = filter (\<lambda>b. \<not> timed_out now (the (events s b))) rest"
      using fresh by (intro filter_cong) auto
    then have "queue_ok s' (Q(0 := ws @ filter (\<lambda>b. \<not> timed_out now (the (events s b))) (a # rest))) L R"
      using s'(3) e True by simp
    moreover have "timeout_loop now a s = Some s'" using n e True h(1) s'(1) by (simp add: timeout_loop.simps [of now a])
    moreover have "settled s s'" using f(2) s'(2) settled_trans settled_refl(2) by blast
    ultimately show ?thesis by (simp del: filter.simps fun_upd_apply)
  next
    case False
    have "timeout_loop now a s = timeout_loop now (hd (rest @ [0])) s"
      using n e False by (simp add: timeout_loop.simps [of now a])
    then show ?thesis using Cons.IH [OF Cons.prems(1), of "ws @ [a]"] Cons.prems(2) e False by simp
  qed
qed

text \<open>What the transport publishes is what it holds afterwards; what it cannot publish is confirmed as an error.\<close>

lemma publish_loop_ends:
  assumes "queue_ok s Q (held s) R" "Q 0 = ws @ rest" "Q 3 = []"
  shows "\<exists>s' ws'. publish_loop publish (hd (rest @ [0])) s = Some s' \<and> queue_ok s' (Q(0 := ws')) (held s') R \<and>
    event_account s' = event_account s \<and> report_account s' = report_account s"
  using assms
proof (induction rest arbitrary: s Q ws)
  case Nil
  then have "Q(0 := ws) = Q" by auto
  then show ?case using Nil
    by (intro exI [of _ s] exI [of _ ws]) (simp add: publish_loop.simps [of publish 0] del: fun_upd_apply)
next
  case (Cons a rest)
  obtain n where n: "entries s a = Some n" "flink n = hd (rest @ [0])" "a \<noteq> 0"
    by (rule next_entry [OF Cons.prems(1) _ Cons.prems(2)]) simp
  have "a \<in> dom (events s)" using Cons.prems by (simp add: queue_ok_def queue_sets_def)
  then obtain e where e: "events s a = Some e" by auto
  obtain h where h: "DList_RemoveEntryList a (entries s) = Some (ws @ rest = [], h)"
    "queue_ok (s\<lparr>entries := h\<rparr>) (Q(0 := ws @ rest)) (loose_events 0 a (held s)) (loose_reports 0 a R)"
    by (rule take_out [OF Cons.prems(1) _ Cons.prems(2)]) simp
  let ?s = "s\<lparr>entries := h\<rparr>" and ?Q = "Q(0 := ws @ rest)"
  have q: "queue_ok ?s ?Q (a # held s) R" using h(2) by (simp add: event_list_def)
  have Q: "?Q 0 = ws @ rest" "?Q 3 = []" using Cons.prems(3) by simp_all
  have failed: ?case if r: "publish a e = No_Payload \<or> publish a e = Not_Published"
  proof -
    obtain s1 where s1: "notifyApplicationOfSendMessageComplete a IOTHUB_CLIENT_CONFIRMATION_ERROR ?s = Some s1"
      "queue_ok s1 ?Q (held s) R" "settled ?s s1"
      using notify_ends [OF q Q(2)] by blast
    have "held s1 = held s" using s1(3) by (simp add: settled_def)
    then have "queue_ok s1 ?Q (held s1) R" using s1(2) by simp
    from Cons.IH [OF this Q, unfolded fun_upd_upd] obtain s' ws' where s': "publish_loop publish (hd (rest @ [0])) s1 = Some s'"
      "queue_ok s' (Q(0 := ws')) (held s') R" "event_account s' = event_account s1" "report_account s' = report_account s1"
      by blast
    have "publish_loop publish a s = Some s'"
      using r n e h(1) s1(1) s'(1) by (auto simp: publish_loop.simps [of publish a])
    moreover have "settled s s1" using s1(3) settled_trans settled_refl(2) by blast
    ultimately show ?thesis using s' by (auto simp: settled_def simp del: fun_upd_apply)
  qed
  show ?case
  proof (cases "publish a e")
    case No_Memory
    have "publish_loop publish a s = publish_loop publish (hd (rest @ [0])) s"
      using n e No_Memory by (simp add: publish_loop.simps [of publish a])
    then show ?thesis using Cons.IH [OF Cons.prems(1), of "ws @ [a]"] Cons.prems(2,3) by simp
  next
    case Published
    have "queue_ok (?s\<lparr>held := held s @ [a]\<rparr>) ?Q (held s @ [a]) R"
      using queue_perm [OF q, of "held s @ [a]"] by simp
    then have "queue_ok (?s\<lparr>held := held s @ [a]\<rparr>) ?Q (held (?s\<lparr>held := held s @ [a]\<rparr>)) R" by simp
    from Cons.IH [OF this Q, unfolded fun_upd_upd] obtain s' ws' where
      s': "publish_loop publish (hd (rest @ [0])) (?s\<lparr>held := held s @ [a]\<rparr>) = Some s'" "queue_ok s' (Q(0 := ws')) (held s') R"
      "event_account s' = event_account s" "report_account s' = report_account s"
      by (auto simp: event_account_def report_account_def simp del: fun_upd_apply)
    have "publish_loop publish a s = Some s'"
      using Published n e h(1) s'(1) by (simp add: publish_loop.simps [of publish a])
    then show ?thesis using s' by (auto simp del: fun_upd_apply)
  qed (use failed in blast)+
qed

text \<open>A report that the transport cannot process is freed without an answer.\<close>

lemma report_loop_ends:
  assumes "queue_ok s Q L R"
  shows "\<exists>s' ms as. report_loop process (hd (Q 1 @ [1])) s = Some s' \<and> queue_ok s' (Q(1 := ms, 2 := as)) L R \<and>
    event_account s' = event_account s \<and> held s' = held s \<and> report_account s' \<subseteq># report_account s \<and>
    ((\<forall>d. process d \<noteq> IOTHUB_PROCESS_ERROR) \<longrightarrow> report_account s' = report_account s)"
  using assms
proof (induction "Q 1" arbitrary: s Q)
  case Nil
  have "Q(1 := [], 2 := Q 2) = Q" using Nil by (simp add: fun_eq_iff)
  then have "queue_ok s (Q(1 := [], 2 := Q 2)) L R" using Nil(2) by (simp only:)
  moreover have "report_loop process (hd (Q 1 @ [1])) s = Some s"
    unfolding Nil(1) [symmetric] by (simp add: report_loop.simps [of process 1] del: One_nat_def)
  ultimately show ?case by blast
next
  case (Cons a rest)
  have Q: "Q 1 = [] @ a # rest" using Cons.hyps(2) by simp
  obtain n where n: "entries s a = Some n" "flink n = hd (rest @ [1])" "a \<noteq> 1"
    by (rule next_entry [OF Cons.prems _ Q]) simp
  have "a \<in> dom (reports s)" using Cons.prems Q by (simp add: queue_ok_def queue_sets_def)
  then obtain d where d: "reports s a = Some d" by auto
  obtain h where h: "DList_RemoveEntryList a (entries s) = Some ([] @ rest = [], h)"
    "queue_ok (s\<lparr>entries := h\<rparr>) (Q(1 := [] @ rest)) (loose_events 1 a L) (loose_reports 1 a R)"
    by (rule take_out [OF Cons.prems _ Q]) simp
  let ?s = "s\<lparr>entries := h\<rparr>" and ?Q = "Q(1 := rest)"
  have q: "queue_ok ?s ?Q L (a # R)" using h(2) by (simp add: event_list_def)
  have hd: "hd (Q 1 @ [1]) = a" using Q by simp
  show ?case
  proof (cases "process d")
    case IOTHUB_PROCESS_OK
    have "queue_ok ?s ?Q (loose_events 2 a L) (loose_reports 2 a R)" using q by (simp add: event_list_def)
    then obtain h1 where h1: "DList_InsertTailList 2 a (entries ?s) = Some h1"
      "queue_ok (?s\<lparr>entries := h1\<rparr>) (?Q(2 := ?Q 2 @ [a])) L R"
      by (rule put_in) simp
    let ?Q1 = "Q(1 := rest, 2 := Q 2 @ [a])"
    have q1: "queue_ok (s\<lparr>entries := h1\<rparr>) ?Q1 L R" "rest = ?Q1 1" using h1(2) by simp_all
    have u: "?Q1(1 := ms, 2 := as) = Q(1 := ms, 2 := as)" for ms as by (simp add: fun_eq_iff)
    from Cons.hyps(1) [OF q1(2,1)] obtain s' ms as where s': "report_loop process (hd (?Q1 1 @ [1])) (s\<lparr>entries := h1\<rparr>) = Some s'"
      "queue_ok s' (Q(1 := ms, 2 := as)) L R" "event_account s' = event_account (s\<lparr>entries := h1\<rparr>)"
      "held s' = held (s\<lparr>entries := h1\<rparr>)" "report_account s' \<subseteq># report_account (s\<lparr>entries := h1\<rparr>)"
      "(\<forall>d. process d \<noteq> IOTHUB_PROCESS_ERROR) \<longrightarrow> report_account s' = report_account (s\<lparr>entries := h1\<rparr>)"
      unfolding u by blast
    have "report_loop process a s = Some s'"
      using IOTHUB_PROCESS_OK n d h(1) h1(1) s'(1) by (simp add: report_loop.simps [of process a])
    moreover have "event_account (s\<lparr>entries := h1\<rparr>) = event_account s" "report_account (s\<lparr>entries := h1\<rparr>) = report_account s"
      "held (s\<lparr>entries := h1\<rparr>) = held s"
      by (simp_all add: event_account_def report_account_def)
    ultimately show ?thesis unfolding hd using s'(2-) by (simp only:) blast
  next
    case IOTHUB_PROCESS_ERROR
    let ?s1 = "device_twin_data_destroy a ?s"
    have q1: "queue_ok ?s1 ?Q L R" "rest = ?Q 1" using free_report_ok [OF q] by simp_all
    have acc: "event_account ?s1 = event_account s" "held ?s1 = held s" "report_account ?s1 \<subseteq># report_account s"
    proof -
      show "event_account ?s1 = event_account s" "held ?s1 = held s" by (simp_all add: event_account_def)
      show "report_account ?s1 \<subseteq># report_account s"
        using sum_without [where f = "reports s" and a = a and e = d and g = owed_report] finite_dom [OF Cons.prems] d
        unfolding report_account_def by (simp add: mset_subset_eq_exists_conv) (metis add.assoc)
    qed
    have u: "?Q(1 := ms, 2 := as) = Q(1 := ms, 2 := as)" for ms as by (simp add: fun_eq_iff)
    from Cons.hyps(1) [OF q1(2,1)] obtain s' ms as where s': "report_loop process (hd (?Q 1 @ [1])) ?s1 = Some s'"
      "queue_ok s' (Q(1 := ms, 2 := as)) L R" "event_account s' = event_account ?s1" "held s' = held ?s1"
      "report_account s' \<subseteq># report_account ?s1"
      unfolding u by blast
    have "report_loop process a s = Some s'"
      using IOTHUB_PROCESS_ERROR n d h(1) s'(1) by (simp add: report_loop.simps [of process a])
    moreover have "report_account s' \<subseteq># report_account s" using s'(5) acc(3) by (rule subset_mset.trans)
    ultimately show ?thesis unfolding hd using s'(2-4) acc(1,2) IOTHUB_PROCESS_ERROR by metis
  next
    case IOTHUB_PROCESS_NOT_CONNECTED
    then have "report_loop process a s = Some s" using n d by (simp add: report_loop.simps [of process a])
    moreover have "queue_ok s (Q(1 := Q 1, 2 := Q 2)) L R" using Cons.prems by simp
    ultimately show ?thesis unfolding hd by blast
  next
    case IOTHUB_PROCESS_CONTINUE
    then have "report_loop process a s = Some s" using n d by (simp add: report_loop.simps [of process a])
    moreover have "queue_ok s (Q(1 := Q 1, 2 := Q 2)) L R" using Cons.prems by simp
    ultimately show ?thesis unfolding hd by blast
  qed
qed

lemma answer_loop_ends:
  assumes "queue_ok s Q L R" "Q 2 = ws @ rest"
  shows "\<exists>s' as. answer_loop ident status (hd (rest @ [2])) s = Some s' \<and> queue_ok s' (Q(2 := as)) L R \<and> settled s s'"
  using assms
proof (induction rest arbitrary: ws)
  case Nil
  then have "Q(2 := ws) = Q" by auto
  then show ?case using Nil
    by (intro exI [of _ s] exI [of _ ws]) (simp add: answer_loop.simps [of ident status 2] del: fun_upd_apply)
next
  case (Cons a rest)
  obtain n where n: "entries s a = Some n" "flink n = hd (rest @ [2])" "a \<noteq> 2"
    by (rule next_entry [OF Cons.prems(1) _ Cons.prems(2)]) simp
  have "a \<in> dom (reports s)" using Cons.prems by (simp add: queue_ok_def queue_sets_def)
  then obtain d where d: "reports s a = Some d" by auto
  show ?case
  proof (cases "item_id d = ident")
    case True
    obtain h where h: "DList_RemoveEntryList a (entries s) = Some (ws @ rest = [], h)"
      "queue_ok (s\<lparr>entries := h\<rparr>) (Q(2 := ws @ rest)) (loose_events 2 a L) (loose_reports 2 a R)"
      by (rule take_out [OF Cons.prems(1) _ Cons.prems(2)]) simp
    let ?s = "s\<lparr>entries := h\<rparr>"
    have q: "queue_ok ?s (Q(2 := ws @ rest)) L (a # R)" using h(2) by (simp add: event_list_def)
    have f: "queue_ok (device_twin_data_destroy a (answer_report d status ?s)) (Q(2 := ws @ rest)) L R"
      "settled ?s (device_twin_data_destroy a (answer_report d status ?s))"
      using finish_report [where i = status, OF q] d by auto
    have "(answer_report d status s)\<lparr>entries := h\<rparr> = answer_report d status ?s"
      by (simp add: answer_report_def split: option.split)
    then have "answer_loop ident status a s = Some (device_twin_data_destroy a (answer_report d status ?s))"
      using n d h(1) True by (simp add: answer_loop.simps [of ident status a])
    moreover have "settled s (device_twin_data_destroy a (answer_report d status ?s))"
      using f(2) settled_trans settled_refl(2) by blast
    ultimately show ?thesis using f(1) by (auto simp del: fun_upd_apply)
  next
    case False
    have "answer_loop ident status a s = answer_loop ident status (hd (rest @ [2])) s"
      using n d False by (simp add: answer_loop.simps [of ident status a])
    then show ?thesis using Cons.IH [OF Cons.prems(1), of "ws @ [a]"] Cons.prems(2) by simp
  qed
qed

section \<open>Runs\<close>

text \<open>
  The calls of the application, and what the transport does between them: an event it holds or a report is answered.
\<close>

datatype client_op =
    Send_Event "nat \<Rightarrow> bool" nat "64 word option" "message_data \<Rightarrow> message_data option" "message_data option" "nat option" nat
  | Send_Reported_State "nat \<Rightarrow> bool" nat bool "char list option" nat "nat option" nat
  | Set_Message_Timeout "64 word"
  | Do_Work "64 word option" "device_twin \<Rightarrow> process_item_result" "(nat \<Rightarrow> message_list \<Rightarrow> publish_result) option"
  | Event_Answered nat confirmation_result
  | Report_Answered "32 word" int

text \<open>The answer tells whether a callback was taken over.\<close>

fun client_do :: "client_op \<Rightarrow> hub_client \<Rightarrow> (bool \<times> hub_client) option" where
  "client_do (Send_Event mem addr tick diagnostic msg callback ctx) s = do {
     (r, s1) \<leftarrow> IoTHubClientCore_LL_SendEventAsync mem addr tick diagnostic msg callback ctx s;
     Some (r = IOTHUB_CLIENT_OK, s1)
   }"
| "client_do (Send_Reported_State mem addr subscribed state_text len callback ctx) s = do {
     (r, s1) \<leftarrow> IoTHubClientCore_LL_SendReportedState mem addr subscribed state_text len callback ctx s;
     Some (r = IOTHUB_CLIENT_OK, s1)
   }"
| "client_do (Set_Message_Timeout timeout) s = Some (False, s\<lparr>currentMessageTimeout := timeout\<rparr>)"
| "client_do (Do_Work tick process transport) s = do {
     s1 \<leftarrow> IoTHubClientCore_LL_DoWork tick process transport s;
     Some (False, s1)
   }"
| "client_do (Event_Answered a r) s = do {
     s1 \<leftarrow> notifyApplicationOfSendMessageComplete a r (s\<lparr>held := remove1 a (held s)\<rparr>);
     Some (False, s1)
   }"
| "client_do (Report_Answered ident status) s = do {
     s1 \<leftarrow> IoTHubClientCore_LL_ReportedStateComplete ident status s;
     Some (False, s1)
   }"

text \<open>New blocks are new, messages are well formed, and the transport completes what it holds.\<close>

fun may_do :: "client_op \<Rightarrow> hub_client \<Rightarrow> bool" where
  "may_do (Send_Event mem addr tick diagnostic msg callback ctx) s \<longleftrightarrow>
     entries s addr = None \<and> (\<forall>m. msg = Some m \<longrightarrow> (\<exists>ps. map_rep (message_properties m) ps))"
| "may_do (Send_Reported_State mem addr subscribed state_text len callback ctx) s \<longleftrightarrow> entries s addr = None"
| "may_do (Event_Answered a r) s \<longleftrightarrow> a \<in> set (held s)"
| "may_do _ s \<longleftrightarrow> True"

fun new_event :: "client_op \<times> bool \<Rightarrow> (nat \<times> nat) list" where
  "new_event (Send_Event mem addr tick diagnostic msg (Some c) ctx, True) = [(c, ctx)]"
| "new_event _ = []"

fun new_report :: "client_op \<times> bool \<Rightarrow> (nat \<times> nat) list" where
  "new_report (Send_Reported_State mem addr subscribed state_text len (Some c) ctx, True) = [(c, ctx)]"
| "new_report _ = []"

fun processes_all :: "client_op \<Rightarrow> bool" where
  "processes_all (Do_Work tick process transport) \<longleftrightarrow> (\<forall>d. process d \<noteq> IOTHUB_PROCESS_ERROR)"
| "processes_all _ \<longleftrightarrow> True"

definition client_ok :: "hub_client \<Rightarrow> bool" where
  "client_ok s \<longleftrightarrow> (\<exists>Q. queue_ok s Q (held s) [] \<and> Q 3 = [])"

text \<open>What a step does to the accounts.\<close>

definition step_ok :: "hub_client \<Rightarrow> client_op \<times> bool \<Rightarrow> hub_client \<Rightarrow> bool" where
  "step_ok s l s' \<longleftrightarrow> client_ok s' \<and> event_account s' = event_account s + mset (new_event l) \<and>
     report_account s' \<subseteq># report_account s + mset (new_report l) \<and>
     (processes_all (fst l) \<longrightarrow> report_account s' = report_account s + mset (new_report l))"

lemma step_settled: "settled s s' \<Longrightarrow> client_ok s' \<Longrightarrow> new_event l = [] \<Longrightarrow> new_report l = [] \<Longrightarrow> step_ok s l s'"
  by (simp add: step_ok_def settled_def)

lemma client_ok_fields:
  "client_ok (s\<lparr>currentMessageTimeout := t\<rparr>) = client_ok s" "client_ok (s\<lparr>data_msg_id := i\<rparr>) = client_ok s"
  "settled s (s\<lparr>currentMessageTimeout := t\<rparr>)" "settled s (s\<lparr>data_msg_id := i\<rparr>)"
  by (simp_all add: client_ok_def queue_ok_def queue_sets_def settled_def event_account_def report_account_def)

lemma new_entry:
  assumes q: "queue_ok s Q L R" and new: "entries s a = None" "a \<notin> set (addresses Q L R)"
  shows "queue_ok (s\<lparr>entries := (entries s)(a \<mapsto> n), events := (events s)(a \<mapsto> e)\<rparr>) Q (a # L) R"
    and "queue_ok (s\<lparr>entries := (entries s)(a \<mapsto> n), reports := (reports s)(a \<mapsto> d)\<rparr>) Q L (a # R)"
proof -
  have s: "queue_sets s Q L R" using q by (simp add: queue_ok_def)
  show "queue_ok (s\<lparr>entries := (entries s)(a \<mapsto> n), events := (events s)(a \<mapsto> e)\<rparr>) Q (a # L) R"
    by (rule queue_alloc [OF q new(1)]) (use s new(2) in \<open>auto simp: queue_sets_def addresses_def\<close>)
  show "queue_ok (s\<lparr>entries := (entries s)(a \<mapsto> n), reports := (reports s)(a \<mapsto> d)\<rparr>) Q L (a # R)"
    by (rule queue_alloc [OF q new(1)]) (use s new(2) in \<open>auto simp: queue_sets_def addresses_def\<close>)
qed

lemma send_event_step:
  assumes "client_ok s" "may_do (Send_Event mem addr tick diagnostic msg callback ctx) s"
  shows "\<exists>acc s'. client_do (Send_Event mem addr tick diagnostic msg callback ctx) s = Some (acc, s') \<and>
    step_ok s (Send_Event mem addr tick diagnostic msg callback ctx, acc) s'"
proof -
  let ?op = "Send_Event mem addr tick diagnostic msg callback ctx"
  have refused: "step_ok s (?op, False) s" using assms(1) by (intro step_settled) simp_all
  obtain Q where q: "queue_ok s Q (held s) []" "Q 3 = []" using assms(1) by (auto simp: client_ok_def)
  have new: "entries s addr = None" "addr \<notin> set (addresses Q (held s) [])"
    using assms(2) q(1) by (auto simp: queue_ok_def queue_sets_def)
  have accepted: "\<exists>h. DList_InsertTailList 0 addr ((entries s)(addr \<mapsto> n)) = Some h \<and>
      step_ok s (?op, True) (s\<lparr>entries := h, events := (events s)(addr \<mapsto> e)\<rparr>)"
    if e: "event_callback e = callback" "event_context e = ctx" for n e
  proof -
    let ?s = "s\<lparr>entries := (entries s)(addr \<mapsto> n), events := (events s)(addr \<mapsto> e)\<rparr>"
    have "queue_ok ?s Q (loose_events 0 addr (held s)) (loose_reports 0 addr [])"
      using new_entry(1) [OF q(1) new] by (simp add: event_list_def)
    then obtain h where h: "DList_InsertTailList 0 addr (entries ?s) = Some h"
      "queue_ok (?s\<lparr>entries := h\<rparr>) (Q(0 := Q 0 @ [addr])) (held s) []"
      by (rule put_in) simp
    have eq: "?s\<lparr>entries := h\<rparr> = s\<lparr>entries := h, events := (events s)(addr \<mapsto> e)\<rparr>" by simp
    have "addr \<notin> dom (events s)" using new(2) q(1) by (auto simp: queue_ok_def queue_sets_def addresses_def)
    then have ev: "events s addr = None" by (simp add: domIff)
    have "event_account (s\<lparr>entries := h, events := (events s)(addr \<mapsto> e)\<rparr>) = event_account s + mset (new_event (?op, True))"
      using sum_with [where f = "events s" and a = addr and e = e and g = owed] finite_dom [OF q(1)] ev e
      unfolding event_account_def by (cases callback) (simp_all add: owed_def)
    moreover have "report_account (s\<lparr>entries := h, events := (events s)(addr \<mapsto> e)\<rparr>) = report_account s"
      by (simp add: report_account_def)
    moreover have "client_ok (s\<lparr>entries := h, events := (events s)(addr \<mapsto> e)\<rparr>)"
      unfolding client_ok_def by (rule exI [of _ "Q(0 := Q 0 @ [addr])"]) (use h(2) q(2) eq in simp)
    ultimately show ?thesis using h(1) by (auto simp: step_ok_def)
  qed
  show ?thesis
  proof (cases "msg = None \<or> callback = None \<and> ctx \<noteq> 0 \<or> \<not> mem 0 \<or> attach_ms_timesOutAfter tick s = None")
    case True
    then show ?thesis using refused by (auto simp: IoTHubClientCore_LL_SendEventAsync_def sdk_malloc_def)
  next
    case False
    then obtain m since timeout where m: "msg = Some m" "attach_ms_timesOutAfter tick s = Some (since, timeout)" by auto
    obtain ps where "map_rep (message_properties m) ps" using assms(2) m(1) by auto
    then obtain r n1 where r: "IoTHubMessage_Clone mem msg 1 = Some (r, n1)" using message_clone_facts m(1) by blast
    show ?thesis
    proof (cases "Option.bind r diagnostic")
      case None
      then show ?thesis using False m r refused by (auto simp: IoTHubClientCore_LL_SendEventAsync_def sdk_malloc_def)
    next
      case (Some copy)
      let ?e = "\<lparr>event_message = copy, event_callback = callback, event_context = ctx, ms_timesOutAfter = since,
        message_timeout_value = timeout\<rparr>"
      obtain h where "DList_InsertTailList 0 addr ((entries s)(addr \<mapsto> \<lparr>flink = 0, blink = 0\<rparr>)) = Some h"
        "step_ok s (?op, True) (s\<lparr>entries := h, events := (events s)(addr \<mapsto> ?e)\<rparr>)"
        using accepted [of ?e] by auto
      then show ?thesis using False m r Some by (auto simp: IoTHubClientCore_LL_SendEventAsync_def sdk_malloc_def)
    qed
  qed
qed

lemma send_report_step:
  assumes "client_ok s" "may_do (Send_Reported_State mem addr subscribed state_text len callback ctx) s"
  shows "\<exists>acc s'. client_do (Send_Reported_State mem addr subscribed state_text len callback ctx) s = Some (acc, s') \<and>
    step_ok s (Send_Reported_State mem addr subscribed state_text len callback ctx, acc) s'"
proof -
  let ?op = "Send_Reported_State mem addr subscribed state_text len callback ctx"
  obtain ident s1 where s1: "get_next_item_id s = (ident, s1)" by fastforce
  have s1': "s1 = s\<lparr>data_msg_id := ident\<rparr>" using s1 by (auto simp: get_next_item_id_def Let_def)
  have refused: "step_ok s (?op, False) s" "step_ok s (?op, False) s1"
    using assms(1) unfolding s1' by (auto intro!: step_settled simp: client_ok_fields)
  obtain Q where q: "queue_ok s1 Q (held s1) []" "Q 3 = []"
    using assms(1) client_ok_fields(2) [where s = s and i = ident] unfolding s1' by (auto simp: client_ok_def)
  have new: "entries s1 addr = None" "addr \<notin> set (addresses Q (held s1) [])"
    using assms(2) q(1) unfolding s1' by (auto simp: queue_ok_def queue_sets_def)
  have accepted: "\<exists>h. DList_InsertTailList 1 addr ((entries s1)(addr \<mapsto> n)) = Some h \<and>
      step_ok s (?op, True) (s1\<lparr>entries := h, reports := (reports s1)(addr \<mapsto> d)\<rparr>)"
    if d: "reported_state_callback d = callback" "report_context d = ctx" for n d
  proof -
    let ?s = "s1\<lparr>entries := (entries s1)(addr \<mapsto> n), reports := (reports s1)(addr \<mapsto> d)\<rparr>"
    have "queue_ok ?s Q (loose_events 1 addr (held s1)) (loose_reports 1 addr [])"
      using new_entry(2) [OF q(1) new] by (simp add: event_list_def)
    then obtain h where h: "DList_InsertTailList 1 addr (entries ?s) = Some h"
      "queue_ok (?s\<lparr>entries := h\<rparr>) (Q(1 := Q 1 @ [addr])) (held s1) []"
      by (rule put_in) simp
    have eq: "?s\<lparr>entries := h\<rparr> = s1\<lparr>entries := h, reports := (reports s1)(addr \<mapsto> d)\<rparr>" by simp
    have "addr \<notin> dom (reports s1)" using new(2) q(1) by (auto simp: queue_ok_def queue_sets_def addresses_def)
    then have ev: "reports s1 addr = None" by (simp add: domIff)
    have "report_account (s1\<lparr>entries := h, reports := (reports s1)(addr \<mapsto> d)\<rparr>) = report_account s1 + mset (new_report (?op, True))"
      using sum_with [where f = "reports s1" and a = addr and e = d and g = owed_report] finite_dom [OF q(1)] ev d
      unfolding report_account_def by (cases callback) (simp_all add: owed_report_def)
    moreover have "event_account (s1\<lparr>entries := h, reports := (reports s1)(addr \<mapsto> d)\<rparr>) = event_account s1"
      by (simp add: event_account_def)
    moreover have "client_ok (s1\<lparr>entries := h, reports := (reports s1)(addr \<mapsto> d)\<rparr>)"
      unfolding client_ok_def by (rule exI [of _ "Q(1 := Q 1 @ [addr])"]) (use h(2) q(2) eq in simp)
    moreover have "event_account s1 = event_account s" "report_account s1 = report_account s"
      using client_ok_fields(4) [where s = s and i = ident] unfolding s1' by (simp_all add: settled_def)
    ultimately show ?thesis using h(1) by (auto simp: step_ok_def)
  qed
  show ?thesis
  proof (cases state_text)
    case None
    then show ?thesis using refused by (auto simp: IoTHubClientCore_LL_SendReportedState_def)
  next
    case (Some body)
    show ?thesis
    proof (cases "len = 0 \<or> dev_twin_data_create mem ident (take len body) callback ctx = None \<or> \<not> subscribed")
      case True
      then have "client_do ?op s = Some (False, s) \<or> client_do ?op s = Some (False, s1)"
        using Some s1 by (cases "dev_twin_data_create mem ident (take len body) callback ctx"; cases "len = 0")
          (simp_all add: IoTHubClientCore_LL_SendReportedState_def)
      then show ?thesis using refused by blast
    next
      case False
      then obtain d where d: "dev_twin_data_create mem ident (take len body) callback ctx = Some d" by auto
      then have "reported_state_callback d = callback" "report_context d = ctx"
        by (auto simp: dev_twin_data_create_def Let_def split: prod.splits if_splits)
      then obtain h where "DList_InsertTailList 1 addr ((entries s1)(addr \<mapsto> \<lparr>flink = 0, blink = 0\<rparr>)) = Some h"
        "step_ok s (?op, True) (s1\<lparr>entries := h, reports := (reports s1)(addr \<mapsto> d)\<rparr>)"
        using accepted by blast
      moreover from this(1) have "client_do ?op s = Some (True, s1\<lparr>entries := h, reports := (reports s1)(addr \<mapsto> d)\<rparr>)"
        using False Some s1 d by (simp add: IoTHubClientCore_LL_SendReportedState_def)
      ultimately show ?thesis by blast
    qed
  qed
qed

lemma do_work_step:
  assumes "client_ok s"
  shows "\<exists>acc s'. client_do (Do_Work tick process transport) s = Some (acc, s') \<and> step_ok s (Do_Work tick process transport, acc) s'"
proof -
  obtain Q where q: "queue_ok s Q (held s) []" "Q 3 = []" using assms by (auto simp: client_ok_def)
  have "\<exists>s1 ws. DoTimeouts tick s = Some s1 \<and> settled s s1 \<and> queue_ok s1 (Q(0 := ws)) (held s) []"
  proof (cases tick)
    case None
    have "Q(0 := Q 0) = Q" by simp
    then show ?thesis using q None by (intro exI [of _ s] exI [of _ "Q 0"]) (simp add: DoTimeouts_def)
  next
    case (Some now)
    obtain n where n: "entries s 0 = Some n" "flink n = hd (Q 0 @ [0])" by (rule first_entry [OF q(1), of 0]) simp
    obtain s1 where "timeout_loop now (hd (Q 0 @ [0])) s = Some s1" "settled s s1"
      "queue_ok s1 (Q(0 := [] @ filter (\<lambda>a. \<not> timed_out now (the (events s a))) (Q 0))) (held s) []"
      using timeout_loop_ends [OF q(1), of "[]" "Q 0" now] by auto
    then show ?thesis using n Some unfolding DoTimeouts_def by auto
  qed
  then obtain s1 ws where s1: "DoTimeouts tick s = Some s1" "settled s s1" "queue_ok s1 (Q(0 := ws)) (held s) []" by blast
  let ?Q1 = "Q(0 := ws)"
  obtain n where n: "entries s1 1 = Some n" "flink n = hd (?Q1 1 @ [1])" by (rule first_entry [OF s1(3), of 1]) simp
  obtain s2 ms as where s2: "report_loop process (hd (?Q1 1 @ [1])) s1 = Some s2" "queue_ok s2 (?Q1(1 := ms, 2 := as)) (held s) []"
    "event_account s2 = event_account s1" "held s2 = held s1" "report_account s2 \<subseteq># report_account s1"
    "(\<forall>d. process d \<noteq> IOTHUB_PROCESS_ERROR) \<longrightarrow> report_account s2 = report_account s1"
    using report_loop_ends [OF s1(3), of process] by blast
  let ?Q2 = "?Q1(1 := ms, 2 := as)"
  have h2: "held s2 = held s" using s2(4) s1(2) by (simp add: settled_def)
  have q2: "queue_ok s2 ?Q2 (held s2) []" "?Q2 3 = []" using s2(2) q(2) h2 by simp_all
  have "\<exists>s3. (case transport of None \<Rightarrow> Some s2 | Some publish \<Rightarrow> ProcessPublishStateDoWork publish s2) = Some s3 \<and>
    client_ok s3 \<and> event_account s3 = event_account s2 \<and> report_account s3 = report_account s2"
  proof (cases transport)
    case None
    then show ?thesis using q2 unfolding client_ok_def by auto
  next
    case (Some publish)
    obtain n where n: "entries s2 0 = Some n" "flink n = hd (?Q2 0 @ [0])" by (rule first_entry [OF q2(1), of 0]) simp
    obtain s3 ws' where s3: "publish_loop publish (hd (?Q2 0 @ [0])) s2 = Some s3" "queue_ok s3 (?Q2(0 := ws')) (held s3) []"
      "event_account s3 = event_account s2" "report_account s3 = report_account s2"
      using publish_loop_ends [OF q2(1) append_Nil [symmetric] q2(2), of publish] by blast
    have "ProcessPublishStateDoWork publish s2 = Some s3" using n s3(1) by (simp add: ProcessPublishStateDoWork_def)
    moreover have "client_ok s3" unfolding client_ok_def by (rule exI, rule conjI, rule s3(2)) (use q(2) in simp)
    ultimately show ?thesis using s3(3,4) Some by simp
  qed
  then obtain s3 where s3: "(case transport of None \<Rightarrow> Some s2 | Some publish \<Rightarrow> ProcessPublishStateDoWork publish s2) = Some s3"
    "client_ok s3" "event_account s3 = event_account s2" "report_account s3 = report_account s2"
    by blast
  have "IoTHubClientCore_LL_DoWork tick process transport s = Some s3"
    using s1(1) n s2(1) s3(1) unfolding IoTHubClientCore_LL_DoWork_def by simp
  then show ?thesis using s3(2-4) s2(3,5,6) s1(2) by (auto simp: step_ok_def settled_def)
qed

lemma answered_step:
  assumes "client_ok s" "a \<in> set (held s)"
  shows "\<exists>acc s'. client_do (Event_Answered a r) s = Some (acc, s') \<and> step_ok s (Event_Answered a r, acc) s'"
proof -
  obtain Q where q: "queue_ok s Q (held s) []" "Q 3 = []" using assms(1) by (auto simp: client_ok_def)
  let ?s = "s\<lparr>held := remove1 a (held s)\<rparr>"
  have "queue_ok ?s Q (a # remove1 a (held s)) []" using queue_perm [OF q(1), of "a # remove1 a (held s)"] assms(2) by simp
  then obtain s' where s': "notifyApplicationOfSendMessageComplete a r ?s = Some s'" "queue_ok s' Q (remove1 a (held s)) []" "settled ?s s'"
    using notify_ends [where Q = Q] q(2) by blast
  have "event_account ?s = event_account s" "report_account ?s = report_account s" "held s' = remove1 a (held s)"
    using s'(3) by (simp_all add: event_account_def report_account_def settled_def)
  then show ?thesis using s' q(2) by (auto simp: step_ok_def settled_def client_ok_def)
qed

lemma report_answered_step:
  assumes "client_ok s"
  shows "\<exists>acc s'. client_do (Report_Answered ident status) s = Some (acc, s') \<and> step_ok s (Report_Answered ident status, acc) s'"
proof -
  obtain Q where q: "queue_ok s Q (held s) []" "Q 3 = []" using assms(1) by (auto simp: client_ok_def)
  obtain n where n: "entries s 2 = Some n" "flink n = hd (Q 2 @ [2])" by (rule first_entry [OF q(1), of 2]) simp
  obtain s' as where s': "answer_loop ident status (hd (Q 2 @ [2])) s = Some s'" "queue_ok s' (Q(2 := as)) (held s) []" "settled s s'"
    using answer_loop_ends [OF q(1), of "[]" "Q 2" ident status] by auto
  have "held s' = held s" using s'(3) by (simp add: settled_def)
  then have "client_ok s'" unfolding client_ok_def by (intro exI [of _ "Q(2 := as)"]) (use s'(2) q(2) in simp)
  then show ?thesis using n s'(1,3) by (auto simp: IoTHubClientCore_LL_ReportedStateComplete_def intro!: step_settled)
qed

lemma client_step_ok:
  assumes "client_ok s" "may_do op s"
  shows "\<exists>acc s'. client_do op s = Some (acc, s') \<and> step_ok s (op, acc) s'"
proof (cases op)
  case (Set_Message_Timeout t)
  then show ?thesis using assms(1) by (auto simp: client_ok_fields intro!: step_settled)
next
  case Send_Event
  then show ?thesis using send_event_step assms by blast
next
  case Send_Reported_State
  then show ?thesis using send_report_step assms by blast
next
  case Event_Answered
  then show ?thesis using answered_step assms by simp
qed (use do_work_step report_answered_step assms in blast)+

inductive client_step :: "hub_client \<Rightarrow> client_op \<times> bool \<Rightarrow> hub_client \<Rightarrow> bool" where
  client_op: "may_do op s \<Longrightarrow> client_do op s = Some (acc, s') \<Longrightarrow> client_step s (op, acc) s'"

inductive_simps client_step_simps [step_simps]: "client_step s (op, acc) s'"

lemma client_step_step_ok: "client_step s l s' \<Longrightarrow> client_ok s \<Longrightarrow> step_ok s l s'"
  using client_step_ok by (fastforce elim!: client_step.cases)

interpretation client_runs: stable client_step client_ok
  by unfold_locales (use client_step_step_ok in \<open>auto simp: step_ok_def\<close>)

lemma new_client_ok: "client_ok new_client" "event_account new_client = {#}" "report_account new_client = {#}"
proof -
  have "dlist (entries new_client) l []" if "l < 4" for l
    using that by (simp add: dlist_def new_client_def next_of_def prev_of_def)
  moreover have "dom (entries new_client) = set (addresses (\<lambda>_. []) [] [])"
    by (auto simp: new_client_def addresses_def dom_def split: if_splits)
  ultimately have "queue_ok new_client (\<lambda>_. []) (held new_client) []"
    by (simp add: queue_ok_def queue_sets_def) (simp add: new_client_def addresses_def)
  then show "client_ok new_client" by (auto simp: client_ok_def)
qed (simp_all add: event_account_def report_account_def new_client_def)

lemma run_accounts:
  assumes "run client_step s ls s'" "client_ok s"
  shows "client_ok s' \<and> event_account s' = event_account s + mset (concat (map new_event ls)) \<and>
    report_account s' \<subseteq># report_account s + mset (concat (map new_report ls)) \<and>
    ((\<forall>l \<in> set ls. processes_all (fst l)) \<longrightarrow> report_account s' = report_account s + mset (concat (map new_report ls)))"
  using assms
proof (induction rule: run.induct)
  case (run_cons s l s1 ls s2)
  have s: "step_ok s l s1" using client_step_step_ok run_cons by blast
  then have i: "client_ok s2" "event_account s2 = event_account s1 + mset (concat (map new_event ls))"
    "report_account s2 \<subseteq># report_account s1 + mset (concat (map new_report ls))"
    "(\<forall>l \<in> set ls. processes_all (fst l)) \<longrightarrow> report_account s2 = report_account s1 + mset (concat (map new_report ls))"
    using run_cons.IH by (auto simp: step_ok_def)
  have "report_account s1 + mset (concat (map new_report ls)) \<subseteq>#
      report_account s + mset (new_report l) + mset (concat (map new_report ls))"
    using s by (simp add: step_ok_def)
  then have "report_account s2 \<subseteq># report_account s + mset (new_report l) + mset (concat (map new_report ls))"
    by (rule subset_mset.order_trans [OF i(3)])
  then show ?case using i s by (simp add: step_ok_def add.assoc)
qed simp

section \<open>The end\<close>

lemma complete_held_ends:
  assumes "queue_ok s Q as []" "Q 3 = []"
  shows "\<exists>s'. complete_held as s = Some s' \<and> queue_ok s' Q [] [] \<and> event_account s' = event_account s \<and>
    report_account s' = report_account s"
  using assms(1)
proof (induction as arbitrary: s)
  case (Cons a as)
  have "queue_ok (s\<lparr>held := as\<rparr>) Q (a # as) []" using Cons.prems by simp
  then obtain s1 where s1: "notifyApplicationOfSendMessageComplete a IOTHUB_CLIENT_CONFIRMATION_BECAUSE_DESTROY (s\<lparr>held := as\<rparr>) = Some s1"
    "queue_ok s1 Q as []" "settled (s\<lparr>held := as\<rparr>) s1"
    using notify_ends [where Q = Q] assms(2) by blast
  have "event_account (s\<lparr>held := as\<rparr>) = event_account s" "report_account (s\<lparr>held := as\<rparr>) = report_account s"
    by (simp_all add: event_account_def report_account_def)
  then show ?case using s1 Cons.IH [OF s1(2)] by (auto simp: settled_def)
qed simp

lemma destroy_ends:
  assumes "client_ok s"
  shows "\<exists>s'. IoTHubClientCore_LL_Destroy s = Some s' \<and> dom (entries s') = {0, 1, 2, 3} \<and> dom (events s') = {} \<and>
    dom (reports s') = {} \<and> event_account s' = event_account s \<and> report_account s' = report_account s"
proof -
  obtain Q where q: "queue_ok s Q (held s) []" "Q 3 = []" using assms by (auto simp: client_ok_def)
  obtain s1 where s1: "complete_held (held s) s = Some s1" "queue_ok s1 Q [] []" "event_account s1 = event_account s"
    "report_account s1 = report_account s"
    using complete_held_ends [OF q] by blast
  obtain s2 where s2: "complete_loop 0 IOTHUB_CLIENT_CONFIRMATION_BECAUSE_DESTROY s1 = Some s2" "queue_ok s2 (Q(0 := [])) [] []" "settled s1 s2"
    using complete_loop_ends [OF s1(2), of 0 IOTHUB_CLIENT_CONFIRMATION_BECAUSE_DESTROY] by (auto simp: event_list_def)
  obtain s3 where s3: "drain_reports 1 s2 = Some s3" "queue_ok s3 (Q(0 := [], 1 := [])) [] []" "settled s2 s3"
    using drain_reports_ends [OF s2(2), of 1] by (auto simp: event_list_def simp del: One_nat_def)
  obtain s4 where s4: "drain_reports 2 s3 = Some s4" "queue_ok s4 (Q(0 := [], 1 := [], 2 := [])) [] []" "settled s3 s4"
    using drain_reports_ends [OF s3(2), of 2] by (auto simp: event_list_def)
  have "IoTHubClientCore_LL_Destroy s = Some s4"
    using s1(1) s2(1) s3(1) s4(1) unfolding IoTHubClientCore_LL_Destroy_def by simp
  moreover have "dom (entries s4) = {0, 1, 2, 3}" "dom (events s4) = {}" "dom (reports s4) = {}"
    using s4(2) q(2) by (simp_all add: queue_ok_def queue_sets_def addresses_def)
  ultimately show ?thesis using s1(3,4) s2(3) s3(3) s4(3) by (auto simp: settled_def)
qed

text \<open>
  C8: whatever the application sends, whatever times out, is published, answered or refused, and in whatever order, no call
  of the client uses freed memory or fails to return; and after the client is destroyed nothing of its
  lists is left and every event that was accepted with a callback has been confirmed exactly once.  So has
  every report, unless the transport answered that it cannot process one; none is answered twice in any case.
\<close>

theorem every_event_confirmed_once:
  assumes "run client_step new_client ls s"
  shows "(\<forall>op. may_do op s \<longrightarrow> client_do op s \<noteq> None) \<and>
    (\<exists>s'. IoTHubClientCore_LL_Destroy s = Some s' \<and> dom (entries s') = {0, 1, 2, 3} \<and> dom (events s') = {} \<and> dom (reports s') = {} \<and>
      mset (map (\<lambda>(c, ctx, r). (c, ctx)) (confirmations s')) = mset (concat (map new_event ls)) \<and>
      mset (map (\<lambda>(c, ctx, r). (c, ctx)) (report_answers s')) \<subseteq># mset (concat (map new_report ls)) \<and>
      ((\<forall>l \<in> set ls. processes_all (fst l)) \<longrightarrow>
        mset (map (\<lambda>(c, ctx, r). (c, ctx)) (report_answers s')) = mset (concat (map new_report ls))))"
proof -
  have r: "client_ok s" "event_account s = mset (concat (map new_event ls))"
    "report_account s \<subseteq># mset (concat (map new_report ls))"
    "(\<forall>l \<in> set ls. processes_all (fst l)) \<longrightarrow> report_account s = mset (concat (map new_report ls))"
    using run_accounts [OF assms new_client_ok(1)] unfolding new_client_ok(2,3) add_0 by blast+
  obtain s' where s': "IoTHubClientCore_LL_Destroy s = Some s'" "dom (entries s') = {0, 1, 2, 3}" "dom (events s') = {}"
    "dom (reports s') = {}" "event_account s' = event_account s" "report_account s' = report_account s"
    using destroy_ends [OF r(1)] by blast
  have "mset (map (\<lambda>(c, ctx, r). (c, ctx)) (confirmations s')) = event_account s'"
    "mset (map (\<lambda>(c, ctx, r). (c, ctx)) (report_answers s')) = report_account s'"
    using s'(3,4) by (simp_all only: event_account_def report_account_def sum.empty add_0_right)
  moreover have "may_do op s \<longrightarrow> client_do op s \<noteq> None" for op using client_step_ok [OF r(1), of op] by auto
  ultimately show ?thesis using s' r by (auto simp del: mset_map)
qed

theorem every_event_confirmed_once_witness:
  "\<exists>m s s'. run client_step new_client
      [(Send_Event (\<lambda>_. True) 4 (Some 5) Some (Some m) (Some 7) 9, True),
       (Do_Work (Some 6) (\<lambda>_. IOTHUB_PROCESS_OK) (Some (\<lambda>_ _. Published)), False)] s \<and>
     IoTHubClientCore_LL_Destroy s = Some s' \<and> mset (map (\<lambda>(c, ctx, r). (c, ctx)) (confirmations s')) = {#(7, 9)#}"
proof -
  obtain m where m: "fst (IoTHubMessage_CreateFromString (\<lambda>_. True) (Some ''t'') 0) = Some m" "map_rep (message_properties m) []"
    by (simp add: IoTHubMessage_CreateFromString_def new_message_def two_blocks_def sdk_malloc_def Map_Create_def map_rep_def holds_def)
  let ?send = "Send_Event (\<lambda>_. True) 4 (Some 5) Some (Some m) (Some 7) 9"
  let ?work = "Do_Work (Some 6) (\<lambda>_. IOTHUB_PROCESS_OK) (Some (\<lambda>_ _. Published))"
  have "may_do ?send new_client" using m(2) by (auto simp: new_client_def)
  then obtain acc s1 where s1: "client_do ?send new_client = Some (acc, s1)" "client_step new_client (?send, acc) s1"
    using client_step_ok [OF new_client_ok(1)] client_op by blast
  obtain c n where c: "IoTHubMessage_Clone (\<lambda>_. True) (Some m) 1 = Some (Some c, n)"
    using message_clone_facts [OF m(2), of "\<lambda>_. True" 1] by auto
  have acc
    using s1(1) c
    by (auto simp: IoTHubClientCore_LL_SendEventAsync_def sdk_malloc_def attach_ms_timesOutAfter_def new_client_def split: bind_splits)
  then have s1': "client_step new_client (?send, True) s1" using s1(2) by simp
  have "client_ok s1" using client_step_step_ok [OF s1' new_client_ok(1)] by (simp add: step_ok_def)
  then obtain s2 where "client_do ?work s1 = Some (False, s2)"
    using do_work_step [of s1 "Some 6" "\<lambda>_. IOTHUB_PROCESS_OK" "Some (\<lambda>_ _. Published)"] by (auto split: bind_splits)
  then have "client_step s1 (?work, False) s2" by (intro client_op) simp_all
  with s1' have r: "run client_step new_client [(?send, True), (?work, False)] s2" unfolding run_simps by blast
  have "mset (concat (map new_event [(?send, True), (?work, False)])) = {#(7, 9)#}" by simp
  then show ?thesis using every_event_confirmed_once [OF r] r by metis
qed

section \<open>Reports that are dropped, and events that do not time out\<close>

lemma report_is_dropped:
  assumes "queue_ok s Q L R" "Q 1 = [a]" "reports s a = Some d" "process d = IOTHUB_PROCESS_ERROR"
  shows "\<exists>s'. report_loop process a s = Some s' \<and> reports s' a = None \<and> report_answers s' = report_answers s"
proof -
  obtain n where n: "entries s a = Some n" "flink n = hd ([] @ [1])" "a \<noteq> 1"
    by (rule next_entry [OF assms(1), of 1 "[]" a "[]"]) (use assms(2) in simp_all)
  obtain h where "DList_RemoveEntryList a (entries s) = Some ([] @ [] = [], h)"
    by (rule take_out [OF assms(1), of 1 "[]" a "[]"]) (use assms(2) in simp_all)
  then show ?thesis
    using n assms(3,4) by (simp add: report_loop.simps [of process a] report_loop.simps [of process "Suc 0"])
qed

text \<open>The tick counter starts at 0, which is also the mark of an event without a time.\<close>

lemma first_tick_never_times_out:
  "attach_ms_timesOutAfter (Some 0) s = Some (since, timeout) \<Longrightarrow> ms_timesOutAfter e = since \<Longrightarrow> \<not> timed_out now e"
  by (auto simp: attach_ms_timesOutAfter_def timed_out_def split: if_splits)

end
