(* ===== verification/Dx_Azure_Reentry.thy ===== *)
theory Dx_Azure_Reentry
  imports Dx_Azure_Properties "HOL-Library.Multiset"
begin

text \<open>
  The connection callbacks run in the middle of \<open>ProcessConnectionStatusCallbacks\<close>, and they may call the
  functions of the file again: \<open>AvnetReconnectCallback\<close> publishes, and publishing asks for the connection and lets the
  hub client work, which may call back a new connection status.  The main model records the calls and runs no
  callback.  Here the operations that can notify are given once more, as relations, with whatever the callbacks
  do in the place where they are called: \<open>A\<close> says which operations the application's code may call, in any
  order, and each of them may notify in its turn.  A callback is counted as told when it is called.
\<close>

section \<open>Operations with callbacks that call back\<close>

text \<open>The parts of the operations before and between the points where callbacks run.\<close>

definition status_changed :: "bool \<Rightarrow> connection_reason \<Rightarrow> azure \<Rightarrow> azure" where
  "status_changed authenticated reason st =
     (if \<not> authenticated then
        st\<lparr>authenticationState :=
             (if reason = IOTHUB_CLIENT_CONNECTION_DEVICE_DISABLED \<or> reason = IOTHUB_CLIENT_CONNECTION_NO_NETWORK
              then Device_Disabled else NotAuthenticated),
           deviceConnectionState := DEVICE_NOT_CONNECTED\<rparr>
      else st\<lparr>authenticationState := Authenticated\<rparr>)"

fun handled :: "azure \<Rightarrow> hub_event \<Rightarrow> bool" where
  "handled st (Twin_Update complete payload) = (deviceTwinCallbackHandler st \<noteq> None)"
| "handled st (Method_Invoked method payload) = (directMethodCallbackHandler st \<noteq> None)"
| "handled st (Cloud_Message msg) = (messageReceivedCallback st \<noteq> None)"
| "handled st e = False"

definition client_chosen :: "azure_env \<Rightarrow> azure \<Rightarrow> bool \<times> azure" where
  "client_chosen env st =
     (let st1 = (case iothubClientHandle st of None \<Rightarrow> st | Some h \<Rightarrow> hub_destroy h st)
      in case connectionType (userConfig st1) of
           DX_CONNECTION_TYPE_HOSTNAME \<Rightarrow> (True, st1)
         | DX_CONNECTION_TYPE_DPS \<Rightarrow> SetUpAzureIoTHubClientWithDpsPnP env st1
         | DX_CONNECTION_TYPE_STRING \<Rightarrow> SetUpAzureIoTHubClientWithConnectionString env st1
         | DX_CONNECTION_TYPE_NOT_DEFINED \<Rightarrow> (False, st1))"

definition message_handed_over ::
    "azure_env \<Rightarrow> char list option \<Rightarrow> nat \<Rightarrow> (string option \<times> string option) list \<Rightarrow> message_content option \<Rightarrow> azure \<Rightarrow> azure" where
  "message_handed_over env message messageLength properties content st =
     (case set_content env content (sdk (Message_Create message messageLength) st) of
        (ok, st2) \<Rightarrow>
          (case (if ok then set_properties env properties st2 else (False, st2)) of
             (ok', st3) \<Rightarrow>
               sdk Message_Destroy
                 (if \<not> ok' then st3
                  else if \<not> event_sent env then sdk Message_Send st3
                  else (sdk Message_Send st3)
                         \<lparr>outstandingMessageCount := outstandingMessageCount st3 + 1, in_flight := in_flight st3 + 1\<rparr>)))"

definition network_checked :: "bool \<Rightarrow> azure \<Rightarrow> azure" where
  "network_checked ready st =
     (if \<not> ready \<and> authenticationState st = Authenticated
      then st\<lparr>authenticationState := NotAuthenticated, deviceConnectionState := DEVICE_NOT_CONNECTED\<rparr>
      else st)"

fun notifies :: "azure_op \<Rightarrow> bool" where
  "notifies (Connection_Timer env) = True"
| "notifies (Ask_Connected env) = True"
| "notifies (Publish env message len properties content) = True"
| "notifies op = False"

text \<open>
  In the order of the rules: \<open>ProcessConnectionStatusCallbacks\<close> and its loop; the application's code in a callback;
  \<open>dx_isAzureConnected\<close>; the hub client's callbacks and its DoWork; \<open>SetupAzureClient\<close>; the connection timer;
  \<open>dx_azurePublish\<close>; and the operations that notify nobody.
\<close>

inductive process_r :: "(azure_op \<Rightarrow> bool) \<Rightarrow> bool \<Rightarrow> azure \<Rightarrow> azure \<Rightarrow> bool"
  and loop_r :: "(azure_op \<Rightarrow> bool) \<Rightarrow> bool \<Rightarrow> nat \<Rightarrow> azure \<Rightarrow> azure \<Rightarrow> bool"
  and application_r :: "(azure_op \<Rightarrow> bool) \<Rightarrow> azure \<Rightarrow> azure \<Rightarrow> bool"
  and ask_r :: "(azure_op \<Rightarrow> bool) \<Rightarrow> azure_env \<Rightarrow> azure \<Rightarrow> bool \<Rightarrow> azure \<Rightarrow> bool"
  and events_r :: "(azure_op \<Rightarrow> bool) \<Rightarrow> azure_env \<Rightarrow> hub_event list \<Rightarrow> azure \<Rightarrow> azure \<Rightarrow> bool"
  and DoWork_r :: "(azure_op \<Rightarrow> bool) \<Rightarrow> azure_env \<Rightarrow> azure \<Rightarrow> azure \<Rightarrow> bool"
  and setup_r :: "(azure_op \<Rightarrow> bool) \<Rightarrow> azure_env \<Rightarrow> azure \<Rightarrow> azure \<Rightarrow> bool"
  and work_r :: "(azure_op \<Rightarrow> bool) \<Rightarrow> azure_env \<Rightarrow> azure \<Rightarrow> timespec \<Rightarrow> azure \<Rightarrow> bool"
  and step_r :: "(azure_op \<Rightarrow> bool) \<Rightarrow> azure \<Rightarrow> azure_op \<Rightarrow> azure \<Rightarrow> bool"
  for A
where
  process_same: "connected = previous_connection_state st \<Longrightarrow> process_r A connected st st"
| process_changed:
    "connected \<noteq> previous_connection_state st \<Longrightarrow> loop_r A connected 0 (st\<lparr>previous_connection_state := connected\<rparr>) st' \<Longrightarrow>
     process_r A connected st st'"
| loop_end: "\<not> i < MAX_CONNECTION_STATUS_CALLBACKS \<Longrightarrow> loop_r A connected i st st"
| loop_free:
    "i < MAX_CONNECTION_STATUS_CALLBACKS \<Longrightarrow> connectionStatusCallback st ! i = None \<Longrightarrow>
     loop_r A connected (Suc i) st st' \<Longrightarrow> loop_r A connected i st st'"
| loop_call:
    "i < MAX_CONNECTION_STATUS_CALLBACKS \<Longrightarrow> connectionStatusCallback st ! i = Some cb \<Longrightarrow>
     application_r A (sdk (Notify cb connected) st) st1 \<Longrightarrow>
     loop_r A connected (Suc i) st1 st' \<Longrightarrow> loop_r A connected i st st'"
| application_end: "application_r A st st"
| application_elsewhere: "net.more st1 = net.more st \<Longrightarrow> application_r A st1 st' \<Longrightarrow> application_r A st st'"
| application_call: "A op \<Longrightarrow> step_r A st op st1 \<Longrightarrow> application_r A st1 st' \<Longrightarrow> application_r A st st'"
| ask_lost:
    "isNetworkReady env st = (False, st1) \<Longrightarrow> authenticationState st1 = Authenticated \<Longrightarrow>
     process_r A False (st1\<lparr>authenticationState := NotAuthenticated, deviceConnectionState := DEVICE_NOT_CONNECTED\<rparr>) st' \<Longrightarrow>
     ask_r A env st False st'"
| ask_ready:
    "isNetworkReady env st = (ready, st1) \<Longrightarrow> ready \<or> authenticationState st1 \<noteq> Authenticated \<Longrightarrow>
     iothubClientHandle st1 \<noteq> None \<and> authenticationState st1 = Authenticated \<Longrightarrow>
     isNetworkReady env st1 = (ready', st2) \<Longrightarrow> process_r A ready' st2 st' \<Longrightarrow> ask_r A env st ready' st'"
| ask_not:
    "isNetworkReady env st = (ready, st1) \<Longrightarrow> ready \<or> authenticationState st1 \<noteq> Authenticated \<Longrightarrow>
     \<not> (iothubClientHandle st1 \<noteq> None \<and> authenticationState st1 = Authenticated) \<Longrightarrow>
     process_r A False st1 st' \<Longrightarrow> ask_r A env st False st'"
| events_end: "events_r A env [] st st"
| events_status:
    "ask_r A env (status_changed authenticated reason st) connected st1 \<Longrightarrow> events_r A env es st1 st' \<Longrightarrow>
     events_r A env (Connection_Status authenticated reason # es) st st'"
| events_confirmed:
    "events_r A env es (hub_callback env st Message_Confirmed) st' \<Longrightarrow> events_r A env (Message_Confirmed # es) st st'"
| events_handled:
    "handled st e \<Longrightarrow> application_r A (hub_callback env st e) st1 \<Longrightarrow> events_r A env es st1 st' \<Longrightarrow>
     events_r A env (e # es) st st'"
| events_ignored:
    "\<not> handled st e \<Longrightarrow> e \<noteq> Message_Confirmed \<Longrightarrow> \<forall>a r. e \<noteq> Connection_Status a r \<Longrightarrow>
     events_r A env es (hub_callback env st e) st' \<Longrightarrow> events_r A env (e # es) st st'"
| DoWork_no_client: "iothubClientHandle st = None \<Longrightarrow> DoWork_r A env st (sdk Hub_DoWork st)"
| DoWork_client:
    "iothubClientHandle st \<noteq> None \<Longrightarrow> events_r A env (hub_events env) (sdk Hub_DoWork st) st' \<Longrightarrow> DoWork_r A env st st'"
| setup_not_yet:
    "client_chosen env st = (ok, st2) \<Longrightarrow> \<not> ok \<or> deviceConnectionState st2 \<noteq> DEVICE_CONNECTED \<Longrightarrow> setup_r A env st st2"
| setup_connected:
    "client_chosen env st = (True, st2) \<Longrightarrow> deviceConnectionState st2 = DEVICE_CONNECTED \<Longrightarrow>
     DoWork_r A env (sdk Hub_Set_Callbacks (st2\<lparr>authenticationState := AuthenticationInitiated\<rparr>)) st' \<Longrightarrow> setup_r A env st st'"
| work_setup:
    "authenticationState st = NotAuthenticated \<Longrightarrow> setup_r A env st st' \<Longrightarrow> work_r A env st \<lparr>tv_sec = 1, tv_nsec = 0\<rparr> st'"
| work_initiated:
    "authenticationState st = AuthenticationInitiated \<Longrightarrow> DoWork_r A env st st' \<Longrightarrow>
     work_r A env st \<lparr>tv_sec = 1, tv_nsec = 0\<rparr> st'"
| work_authenticated:
    "authenticationState st = Authenticated \<Longrightarrow> DoWork_r A env st st' \<Longrightarrow>
     work_r A env st \<lparr>tv_sec = IOT_HUB_POLL_TIME_SECONDS, tv_nsec = IOT_HUB_POLL_TIME_NANOSECONDS\<rparr> st'"
| work_disabled:
    "authenticationState st = Device_Disabled \<Longrightarrow>
     work_r A env st \<lparr>tv_sec = 1, tv_nsec = 0\<rparr>
       (st\<lparr>authenticationState := NotAuthenticated, deviceConnectionState := DEVICE_NOT_CONNECTED\<rparr>)"
| step_timer:
    "tm_initialized (azure_timer st) \<Longrightarrow> isNetworkReady env st = (ready, st1) \<Longrightarrow>
     work_r A env (network_checked ready st1) period st3 \<Longrightarrow>
     step_r A st (Connection_Timer env) (snd (dx_timerOneShotSet (azure_timer st3) period st3))"
| step_ask: "ask_r A env st connected st' \<Longrightarrow> step_r A st (Ask_Connected env) st'"
| step_publish_empty: "step_r A st (Publish env message 0 properties content) st"
| step_publish_refused:
    "len \<noteq> 0 \<Longrightarrow> ask_r A env st connected st' \<Longrightarrow> \<not> connected \<or> \<not> message_create env \<Longrightarrow>
     step_r A st (Publish env message len properties content) st'"
| step_publish:
    "len \<noteq> 0 \<Longrightarrow> ask_r A env st True st1 \<Longrightarrow> message_create env \<Longrightarrow>
     DoWork_r A env (message_handed_over env message len properties content st1) st' \<Longrightarrow>
     step_r A st (Publish env message len properties content) st'"
| step_quiet: "\<not> notifies op \<Longrightarrow> azure_step st op st' \<Longrightarrow> step_r A st op st'"

lemmas reentrant_intros = process_r_loop_r_application_r_ask_r_events_r_DoWork_r_setup_r_work_r_step_r.intros
lemmas reentrant_inducts = process_r_loop_r_application_r_ask_r_events_r_DoWork_r_setup_r_work_r_step_r.inducts

section \<open>The quiet model is one of the runs\<close>

text \<open>When no callback calls back, the operations do what the functions of the main model say.\<close>

lemma loop_quiet:
  assumes "length (connectionStatusCallback st) = MAX_CONNECTION_STATUS_CALLBACKS"
  shows "loop_r A c i st (st\<lparr>sdk_calls := sdk_calls st @
      List.concat (List.map (\<lambda>slot. case slot of None \<Rightarrow> [] | Some cb \<Rightarrow> [Notify cb c]) (drop i (connectionStatusCallback st)))\<rparr>)"
  using assms
proof (induction "5 - i" arbitrary: i st)
  case 0
  then show ?case using loop_end [of i A c st] by simp
next
  case (Suc k)
  then have i: "i < 5" "k = 5 - Suc i" by auto
  have d: "drop i (connectionStatusCallback st) = connectionStatusCallback st ! i # drop (Suc i) (connectionStatusCallback st)"
    using i Suc.prems by (simp add: Cons_nth_drop_Suc)
  show ?case
  proof (cases "connectionStatusCallback st ! i")
    case None
    then show ?thesis using loop_free [OF i(1) None Suc.hyps(1) [OF i(2) Suc.prems]] d by simp
  next
    case (Some cb)
    have "connectionStatusCallback (sdk (Notify cb c) st) = connectionStatusCallback st" by (simp add: sdk_def)
    then show ?thesis
      using loop_call [OF i(1) Some application_end Suc.hyps(1) [OF i(2), of "sdk (Notify cb c) st"]] Suc.prems d Some
      by (simp add: sdk_def)
  qed
qed

lemma process_quiet:
  assumes "length (connectionStatusCallback st) = MAX_CONNECTION_STATUS_CALLBACKS"
  shows "process_r A c st (ProcessConnectionStatusCallbacks c st)"
proof (cases "c = previous_connection_state st")
  case True
  then show ?thesis using process_same [OF True] by (simp add: ProcessConnectionStatusCallbacks_def)
next
  case False
  from process_changed [OF False loop_quiet [of "st\<lparr>previous_connection_state := c\<rparr>"]] show ?thesis
    using False assms by (simp add: ProcessConnectionStatusCallbacks_def)
qed


abbreviation five :: "azure \<Rightarrow> bool" where
  "five st \<equiv> length (connectionStatusCallback st) = MAX_CONNECTION_STATUS_CALLBACKS"

lemma five_view: "view st' = view st \<Longrightarrow> five st' = five st"
  by (simp add: view_def)

lemma five_process: "five (ProcessConnectionStatusCallbacks c st) = five st"
  by (simp add: ProcessConnectionStatusCallbacks_def)

lemma five_ready: "isNetworkReady env st = (ready, st1) \<Longrightarrow> five st1 = five st"
  using five_view [OF view_network, of env st] by simp

lemma ask_quiet:
  assumes "five st" "dx_isAzureConnected env st = (connected, st')"
  shows "ask_r A env st connected st'" "five st'"
proof -
  obtain ready st1 where 1: "isNetworkReady env st = (ready, st1)" by fastforce
  obtain ready' st2 where 2: "isNetworkReady env st1 = (ready', st2)" by fastforce
  have f: "five st1" "five st2" using five_ready [OF 1] five_ready [OF 2] assms(1) by simp_all
  note q = process_quiet [of st1 A False] process_quiet [of st2 A ready']
    process_quiet [of "st1\<lparr>authenticationState := NotAuthenticated, deviceConnectionState := DEVICE_NOT_CONNECTED\<rparr>" A False]
  show "ask_r A env st connected st'"
  proof (cases "\<not> ready \<and> authenticationState st1 = Authenticated")
    case True
    then show ?thesis using assms(2) 1 f q ask_lost [of env st st1 A] by (auto simp: dx_isAzureConnected_def)
  next
    case False
    then show ?thesis using assms(2) 1 2 f q ask_ready [of env st ready st1 ready' st2 A] ask_not [of env st ready st1 A]
      by (auto simp: dx_isAzureConnected_def split: if_splits)
  qed
  show "five st'" using assms(2) 1 2 f by (auto simp: dx_isAzureConnected_def five_process split: if_splits)
qed

lemma hub_callback_status:
  "hub_callback env st (Connection_Status a r) = snd (dx_isAzureConnected env (status_changed a r st))"
  by (simp add: HubConnectionStatusCallback_def status_changed_def Let_def)

lemma view_event: "\<forall>a r. e \<noteq> Connection_Status a r \<Longrightarrow> view (hub_callback env st e) = view st"
  by (cases e) (auto simp: SendMessageCallback_def HubDeviceTwinCallback_def HubDirectMethodCallback_def
      HubMessageReceivedCallback_def split: option.splits)

lemma events_quiet:
  "five st \<Longrightarrow> events_r A env es st (foldl (hub_callback env) st es) \<and> five (foldl (hub_callback env) st es)"
proof (induction es arbitrary: st)
  case (Cons e es)
  show ?case
  proof (cases "\<exists>a r. e = Connection_Status a r")
    case True
    then obtain a r where e: "e = Connection_Status a r" by blast
    obtain b st1 where 1: "dx_isAzureConnected env (status_changed a r st) = (b, st1)" by fastforce
    have "five (status_changed a r st)" using Cons.prems by (simp add: status_changed_def)
    from ask_quiet [OF this 1] have q: "ask_r A env (status_changed a r st) b st1" "five st1" by auto
    have "hub_callback env st e = st1" using 1 by (simp only: e hub_callback_status snd_conv)
    then show ?thesis using events_status [OF q(1)] Cons.IH [OF q(2)] e by (simp del: hub_callback.simps)
  next
    case False
    then have "five (hub_callback env st e)" using five_view [OF view_event, of e env st] Cons.prems by simp
    then have ih: "events_r A env es (hub_callback env st e) (foldl (hub_callback env) st (e # es))"
      "five (foldl (hub_callback env) st (e # es))"
      using Cons.IH by (simp_all del: hub_callback.simps)
    consider "e = Message_Confirmed" | "handled st e" | "\<not> handled st e" "e \<noteq> Message_Confirmed" by blast
    then have "events_r A env (e # es) st (foldl (hub_callback env) st (e # es))"
    proof cases
      case 1
      then show ?thesis using events_confirmed [of A env es st] ih(1) by simp
    next
      case 2
      then show ?thesis by (rule events_handled [OF _ application_end ih(1)])
    next
      case 3
      then show ?thesis using False by (intro events_ignored [OF _ _ _ ih(1)]) auto
    qed
    then show ?thesis using ih(2) by blast
  qed
qed (simp add: events_end)

lemma DoWork_quiet: "five st \<Longrightarrow> DoWork_r A env st (hub_DoWork env st)"
  using events_quiet [of "sdk Hub_DoWork st" A env "hub_events env"] DoWork_no_client [of st A env] DoWork_client [of st A env]
  by (simp add: hub_DoWork_def sdk_def)

lemma client_chosen_view: "view (snd (client_chosen env st)) = view st"
proof -
  define st1 where "st1 = (case iothubClientHandle st of None \<Rightarrow> st | Some h \<Rightarrow> hub_destroy h st)"
  have "view st1 = view st" by (simp add: st1_def split: option.splits)
  moreover have "view (snd (client_chosen env st)) = view st1"
    unfolding client_chosen_def Let_def st1_def [symmetric] by (cases "connectionType (userConfig st1)") simp_all
  ultimately show ?thesis by simp
qed

lemma setup_quiet:
  assumes "five st"
  shows "setup_r A env st (snd (SetupAzureClient env st))"
proof -
  obtain ok st2 where 2: "client_chosen env st = (ok, st2)" by fastforce
  have f: "five st2" using five_view [OF client_chosen_view, of env st] assms 2 by simp
  have e: "SetupAzureClient env st = (if \<not> ok \<or> deviceConnectionState st2 \<noteq> DEVICE_CONNECTED then (False, st2)
      else (True, hub_DoWork env (sdk Hub_Set_Callbacks (st2\<lparr>authenticationState := AuthenticationInitiated\<rparr>))))"
    unfolding SetupAzureClient_def Let_def client_chosen_def [unfolded Let_def, symmetric] 2 by simp
  show ?thesis
  proof (cases "\<not> ok \<or> deviceConnectionState st2 \<noteq> DEVICE_CONNECTED")
    case True
    then show ?thesis using setup_not_yet [OF 2 True] e by simp
  next
    case False
    then have 2: "client_chosen env st = (True, st2)" and c: "deviceConnectionState st2 = DEVICE_CONNECTED" using 2 by auto
    have "five (sdk Hub_Set_Callbacks (st2\<lparr>authenticationState := AuthenticationInitiated\<rparr>))" using f by (simp add: sdk_def)
    from setup_connected [OF 2 c DoWork_quiet [OF this]] show ?thesis using e False by simp
  qed
qed

lemma work_quiet: "five st \<Longrightarrow> azure_work env st = (period, st') \<Longrightarrow> work_r A env st period st'"
  using setup_quiet [of st A env] DoWork_quiet [of st A env] work_setup [of st A env] work_initiated [of st A env]
    work_authenticated [of st A env] work_disabled [of st A env]
  by (cases "authenticationState st") (auto simp: azure_work_def)

lemma publish_quiet:
  assumes "five st"
  shows "step_r A st (Publish env message len properties content) (snd (dx_azurePublish env message len properties content st))"
proof (cases "len = 0")
  case True
  then show ?thesis using step_publish_empty by (simp add: dx_azurePublish_def)
next
  case False
  obtain connected st1 where 1: "dx_isAzureConnected env st = (connected, st1)" by fastforce
  note a = ask_quiet [OF assms 1]
  show ?thesis
  proof (cases "connected \<and> message_create env")
    case no: False
    then have "snd (dx_azurePublish env message len properties content st) = st1"
      using False 1 by (auto simp: dx_azurePublish_def)
    then show ?thesis using step_publish_refused [OF _ a(1)] False no by auto
  next
    case True
    then have ask: "ask_r A env st True st1" using a(1) by simp
    have "snd (dx_azurePublish env message len properties content st)
        = hub_DoWork env (message_handed_over env message len properties content st1)"
      using False 1 True by (auto simp: dx_azurePublish_def message_handed_over_def Let_def split: prod.splits)
    moreover have "five (message_handed_over env message len properties content st1)"
    proof -
      obtain ok st2 where 2: "set_content env content (sdk (Message_Create message len) st1) = (ok, st2)" by fastforce
      obtain ok' st3 where 3: "(if ok then set_properties env properties st2 else (False, st2)) = (ok', st3)" by fastforce
      have "view st2 = view st1" using view_set(2) [of env content "sdk (Message_Create message len) st1"] 2 by simp
      moreover have "view st3 = view st2"
        using arg_cong [OF 3, of snd] view_set(1) [of env properties st2] by (cases ok) auto
      ultimately have "five st3" using five_view a(2) by metis
      then show ?thesis unfolding message_handed_over_def 2 prod.case 3 by (simp add: sdk_def)
    qed
    ultimately show ?thesis
      using step_publish [OF _ ask _ DoWork_quiet] False True by simp
  qed
qed

text \<open>Every step of the main model is a step here, whatever the callbacks are allowed to call.\<close>

lemma azure_step_reentrant: "azure_step st op st' \<Longrightarrow> five st \<Longrightarrow> step_r A st op st'"
proof (induction rule: azure_step.induct)
  case (timer st env)
  obtain ready st1 where 1: "isNetworkReady env st = (ready, st1)" by fastforce
  obtain period st3 where 3: "azure_work env (network_checked ready st1) = (period, st3)" by fastforce
  have "five (network_checked ready st1)" using five_ready [OF 1] timer.prems by (simp add: network_checked_def)
  from step_timer [OF timer.hyps 1 work_quiet [OF this 3]]
  show ?case using 1 3 by (simp add: AzureConnectionHandler_def network_checked_def [symmetric] Let_def)
next
  case (ask st env)
  obtain c st1 where 1: "dx_isAzureConnected env st = (c, st1)" by fastforce
  from step_ask [OF ask_quiet(1) [OF ask.prems 1]] show ?case using 1 by simp
next
  case (publish st env message len properties content)
  then show ?case by (rule publish_quiet)
qed (auto intro!: step_quiet azure_step.intros)

section \<open>What the callbacks are told\<close>

text \<open>\<open>place\<close> gives the callbacks that are watched the one slot each of them is registered in.\<close>

definition placed :: "(nat \<rightharpoonup> nat) \<Rightarrow> azure \<Rightarrow> bool" where
  "placed place st \<longleftrightarrow> length (connectionStatusCallback st) = MAX_CONNECTION_STATUS_CALLBACKS \<and>
     (\<forall>cb k. place cb = Some k \<longrightarrow> k < MAX_CONNECTION_STATUS_CALLBACKS \<and>
        (\<forall>i < MAX_CONNECTION_STATUS_CALLBACKS. connectionStatusCallback st ! i = Some cb \<longleftrightarrow> i = k))"

text \<open>An operation that does not register or unregister a callback that is watched.\<close>

fun leaves :: "(nat \<rightharpoonup> nat) \<Rightarrow> azure_op \<Rightarrow> bool" where
  "leaves place (Register_Status cb) = (place cb = None)"
| "leaves place (Unregister_Status cb) = (place cb = None)"
| "leaves place op = True"

text \<open>
  Callback \<open>first\<close> hears alternating states, the last of which is the one that is kept, and every watched
  callback hears the same states as often.
\<close>

definition consistent :: "(nat \<rightharpoonup> nat) \<Rightarrow> nat \<Rightarrow> azure \<Rightarrow> azure \<Rightarrow> bool" where
  "consistent place first st st' \<longleftrightarrow>
     (\<exists>bs. heard first st' = heard first st @ bs \<and> alternates (previous_connection_state st) bs \<and>
        previous_connection_state st' = (if bs = [] then previous_connection_state st else last bs) \<and>
        (\<forall>cb. place cb \<noteq> None \<longrightarrow> mset (heard cb st') = mset (heard cb st) + mset bs))"

definition tells :: "(nat \<rightharpoonup> nat) \<Rightarrow> nat \<Rightarrow> azure \<Rightarrow> azure \<Rightarrow> bool" where
  "tells place first st st' \<longleftrightarrow> (placed place st \<longrightarrow> placed place st' \<and> consistent place first st st')"

text \<open>From slot \<open>i\<close> on, the callbacks in the slots that are still to come hear the state once more.\<close>

definition tells_from :: "(nat \<rightharpoonup> nat) \<Rightarrow> nat \<Rightarrow> bool \<Rightarrow> nat \<Rightarrow> azure \<Rightarrow> azure \<Rightarrow> bool" where
  "tells_from place first c i st st' \<longleftrightarrow> (placed place st \<longrightarrow> (i = 0 \<longrightarrow> previous_connection_state st = c) \<longrightarrow>
     placed place st' \<and>
     (\<exists>bs. heard first st' = heard first st @ (if i = 0 then [c] else []) @ bs \<and>
        alternates (previous_connection_state st) bs \<and>
        previous_connection_state st' = (if bs = [] then previous_connection_state st else last bs) \<and>
        (\<forall>cb k. place cb = Some k \<longrightarrow>
           mset (heard cb st') = mset (heard cb st) + (if i \<le> k then {#c#} else {#}) + mset bs)))"

lemma placed_view: "view st' = view st \<Longrightarrow> placed place st' = placed place st"
  by (simp add: view_def placed_def)

lemma consistent_view:
  assumes v: "view st' = view st"
  shows "consistent place first st st'"
proof -
  have h: "heard cb st' = heard cb st" for cb by (simp add: heard_view v)
  have p: "previous_connection_state st' = previous_connection_state st" using v by (simp add: view_def)
  show ?thesis unfolding consistent_def by (rule exI [of _ "[]"]) (simp add: h p)
qed

lemma tells_view: "view st' = view st \<Longrightarrow> tells place first st st'"
  unfolding tells_def using placed_view [of st' st place] consistent_view [of st' st place first] by blast

lemma consistent_trans:
  assumes "consistent place first st st1" "consistent place first st1 st2"
  shows "consistent place first st st2"
proof -
  obtain bs where bs: "heard first st1 = heard first st @ bs" "alternates (previous_connection_state st) bs"
    "previous_connection_state st1 = (if bs = [] then previous_connection_state st else last bs)"
    "\<And>cb. place cb \<noteq> None \<Longrightarrow> mset (heard cb st1) = mset (heard cb st) + mset bs"
    using assms(1) unfolding consistent_def by blast
  obtain bs' where bs': "heard first st2 = heard first st1 @ bs'" "alternates (previous_connection_state st1) bs'"
    "previous_connection_state st2 = (if bs' = [] then previous_connection_state st1 else last bs')"
    "\<And>cb. place cb \<noteq> None \<Longrightarrow> mset (heard cb st2) = mset (heard cb st1) + mset bs'"
    using assms(2) unfolding consistent_def by blast
  show ?thesis unfolding consistent_def
    by (rule exI [of _ "bs @ bs'"]) (use bs bs' in \<open>simp add: alternates_append\<close>)
qed

lemma tells_trans: "tells place first st st1 \<Longrightarrow> tells place first st1 st2 \<Longrightarrow> tells place first st st2"
  using consistent_trans unfolding tells_def by blast

lemma tells_before: "view st1 = view st \<Longrightarrow> tells place first st1 st2 \<Longrightarrow> tells place first st st2"
  using tells_trans tells_view by blast

lemma tells_after: "tells place first st st1 \<Longrightarrow> view st2 = view st1 \<Longrightarrow> tells place first st st2"
  using tells_trans tells_view by blast

lemma heard_notify: "heard cb (sdk (Notify k c) st) = heard cb st @ (if k = cb then [c] else [])"
  by (simp add: heard_def sdk_def)

lemma tells_changed:
  assumes c: "c \<noteq> previous_connection_state st"
    and l: "tells_from place first c 0 (st\<lparr>previous_connection_state := c\<rparr>) st'"
  shows "tells place first st st'"
  unfolding tells_def
proof
  assume p: "placed place st"
  then have p': "placed place (st\<lparr>previous_connection_state := c\<rparr>)" by (simp add: placed_def)
  have h: "heard cb (st\<lparr>previous_connection_state := c\<rparr>) = heard cb st" for cb by (simp add: heard_def)
  have pr: "previous_connection_state (st\<lparr>previous_connection_state := c\<rparr>) = c" by simp
  have l': "placed place st' \<and>
     (\<exists>bs. heard first st' = heard first st @ [c] @ bs \<and> alternates c bs \<and>
        previous_connection_state st' = (if bs = [] then c else last bs) \<and>
        (\<forall>cb k. place cb = Some k \<longrightarrow> mset (heard cb st') = mset (heard cb st) + {#c#} + mset bs))"
    using l p' unfolding tells_from_def h pr by simp
  then obtain bs where bs: "heard first st' = heard first st @ c # bs" "alternates c bs"
    "previous_connection_state st' = (if bs = [] then c else last bs)"
    "\<And>cb k. place cb = Some k \<Longrightarrow> mset (heard cb st') = mset (heard cb st) + {#c#} + mset bs"
    by auto
  have "consistent place first st st'"
    unfolding consistent_def by (rule exI [of _ "c # bs"]) (use bs c in auto)
  then show "placed place st' \<and> consistent place first st st'" using l' by blast
qed

lemma tells_from_end:
  assumes "\<not> i < MAX_CONNECTION_STATUS_CALLBACKS"
  shows "tells_from place first c i st st"
  unfolding tells_from_def
proof (intro impI conjI)
  assume p: "placed place st"
  have "\<not> i \<le> k" if "place cb = Some k" for cb k using p that assms unfolding placed_def by fastforce
  then show "\<exists>bs. heard first st = heard first st @ (if i = 0 then [c] else []) @ bs \<and> alternates (previous_connection_state st) bs \<and>
      previous_connection_state st = (if bs = [] then previous_connection_state st else last bs) \<and>
      (\<forall>cb k. place cb = Some k \<longrightarrow> mset (heard cb st) = mset (heard cb st) + (if i \<le> k then {#c#} else {#}) + mset bs)"
    using assms by (intro exI [of _ "[]"]) simp
qed

lemma tells_from_free:
  assumes i: "i < MAX_CONNECTION_STATUS_CALLBACKS" "connectionStatusCallback st ! i = None"
    and l: "tells_from place first c (Suc i) st st'" and f: "place first = Some 0"
  shows "tells_from place first c i st st'"
proof (cases "placed place st")
  case True
  have ik: "i \<noteq> k" if "place cb = Some k" for cb k using True that i unfolding placed_def by fastforce
  then have "i \<le> k \<longleftrightarrow> Suc i \<le> k" if "place cb = Some k" for cb k using that by (meson le_neq_implies_less Suc_leD Suc_leI)
  moreover have "i \<noteq> 0" using ik [OF f] .
  ultimately show ?thesis using l unfolding tells_from_def by simp
qed (simp add: tells_from_def)

lemma tells_from_call:
  assumes i: "i < MAX_CONNECTION_STATUS_CALLBACKS" "connectionStatusCallback st ! i = Some k0"
    and app: "tells place first (sdk (Notify k0 c) st) st1"
    and l: "tells_from place first c (Suc i) st1 st'" and f: "place first = Some 0"
  shows "tells_from place first c i st st'"
  unfolding tells_from_def
proof (intro impI)
  assume p: "placed place st"
  have p1: "placed place (sdk (Notify k0 c) st)" using p by (simp add: placed_def sdk_def)
  have pr: "previous_connection_state (sdk (Notify k0 c) st) = previous_connection_state st" by (simp add: sdk_def)
  have at: "cb = k0 \<longleftrightarrow> i = k" if "place cb = Some k" for cb k
    using p i that unfolding placed_def by fastforce
  obtain bs where bs: "heard first st1 = heard first (sdk (Notify k0 c) st) @ bs" "alternates (previous_connection_state st) bs"
    "previous_connection_state st1 = (if bs = [] then previous_connection_state st else last bs)"
    "\<And>cb. place cb \<noteq> None \<Longrightarrow> mset (heard cb st1) = mset (heard cb (sdk (Notify k0 c) st)) + mset bs"
    and p2: "placed place st1"
    using app p1 unfolding tells_def consistent_def pr by blast
  have l': "placed place st' \<and>
     (\<exists>bs. heard first st' = heard first st1 @ bs \<and> alternates (previous_connection_state st1) bs \<and>
        previous_connection_state st' = (if bs = [] then previous_connection_state st1 else last bs) \<and>
        (\<forall>cb k. place cb = Some k \<longrightarrow>
           mset (heard cb st') = mset (heard cb st1) + (if Suc i \<le> k then {#c#} else {#}) + mset bs))"
    using l p2 unfolding tells_from_def by simp
  then obtain bs' where bs': "heard first st' = heard first st1 @ bs'" "alternates (previous_connection_state st1) bs'"
    "previous_connection_state st' = (if bs' = [] then previous_connection_state st1 else last bs')"
    "\<And>cb k. place cb = Some k \<Longrightarrow>
       mset (heard cb st') = mset (heard cb st1) + (if Suc i \<le> k then {#c#} else {#}) + mset bs'"
    by blast
  have "heard first st' = heard first st @ (if i = 0 then [c] else []) @ (bs @ bs')"
    using bs(1) bs'(1) at [OF f] by (auto simp: heard_notify)
  moreover have "alternates (previous_connection_state st) (bs @ bs')" using bs(2,3) bs'(2) by (simp add: alternates_append)
  moreover have "previous_connection_state st' = (if bs @ bs' = [] then previous_connection_state st else last (bs @ bs'))"
    using bs(3) bs'(3) by simp
  moreover have "mset (heard cb st') = mset (heard cb st) + (if i \<le> k then {#c#} else {#}) + mset (bs @ bs')"
    if k: "place cb = Some k" for cb k
    using bs(4) [of cb] bs'(4) [OF k] k at [OF k] by (auto simp: heard_notify)
  ultimately show "placed place st' \<and>
     (\<exists>bs. heard first st' = heard first st @ (if i = 0 then [c] else []) @ bs \<and>
        alternates (previous_connection_state st) bs \<and>
        previous_connection_state st' = (if bs = [] then previous_connection_state st else last bs) \<and>
        (\<forall>cb k. place cb = Some k \<longrightarrow>
           mset (heard cb st') = mset (heard cb st) + (if i \<le> k then {#c#} else {#}) + mset bs))"
    using l' by blast
qed

lemma register_slot_keeps:
  "i < length slots \<Longrightarrow> cb \<noteq> k0 \<Longrightarrow> snd (register_slot k0 slots) ! i = Some cb \<longleftrightarrow> slots ! i = Some cb"
proof (induction k0 slots arbitrary: i rule: register_slot.induct)
  case (3 k0 c slots)
  then show ?case by (cases i) (auto split: prod.splits)
qed (auto simp: nth_Cons split: nat.split)

lemma register_slot_length: "length (snd (register_slot k0 slots)) = length slots"
  by (induction k0 slots rule: register_slot.induct) (auto split: prod.splits)

lemma tells_register:
  assumes "place k0 = None"
  shows "tells place first st (snd (dx_azureRegisterConnectionChangedNotification k0 st))"
    and "tells place first st (dx_azureUnregisterConnectionChangedNotification k0 st)"
proof -
  have "tells place first st (st\<lparr>connectionStatusCallback := slots\<rparr>)"
    if s: "length slots = length (connectionStatusCallback st)"
      "\<And>i cb. i < length slots \<Longrightarrow> cb \<noteq> k0 \<Longrightarrow> slots ! i = Some cb \<longleftrightarrow> connectionStatusCallback st ! i = Some cb" for slots
    unfolding tells_def
  proof (intro impI conjI)
    assume p: "placed place st"
    have "cb \<noteq> k0" if "place cb = Some k" for cb k using that assms by auto
    then show "placed place (st\<lparr>connectionStatusCallback := slots\<rparr>)" using p s unfolding placed_def by simp
    show "consistent place first st (st\<lparr>connectionStatusCallback := slots\<rparr>)"
      unfolding consistent_def by (rule exI [of _ "[]"]) (simp add: heard_def)
  qed
  note upd = this
  show "tells place first st (snd (dx_azureRegisterConnectionChangedNotification k0 st))"
    using upd [of "snd (register_slot k0 (connectionStatusCallback st))"] register_slot_keeps register_slot_length
    by (simp add: dx_azureRegisterConnectionChangedNotification_def split_beta)
  show "tells place first st (dx_azureUnregisterConnectionChangedNotification k0 st)"
    unfolding dx_azureUnregisterConnectionChangedNotification_def by (rule upd) auto
qed

lemma tells_quiet:
  assumes "azure_step st op st'" "\<not> notifies op" "leaves place op"
  shows "tells place first st st'"
  using assms
proof (induction rule: azure_step.induct)
  case (network_connected_expired st)
  have "net.more (network_connected_expired_handler st) = net.more st" by (simp add: network_connected_expired_handler_def)
  from view_more [OF this] show ?case by (rule tells_view)
next
  case (connect st env config interface modelId)
  show ?case by (rule tells_view) (simp add: dx_azureConnect_def createPnpModelIdJson_def Let_def split_beta)
qed (auto simp: dx_azureRegisterDeviceTwinCallback_def dx_azureRegisterDirectMethodCallback_def
    dx_azureRegisterMessageReceivedNotification_def network_ready_expired_handler_def
    intro: tells_view tells_register)

lemma view_ready: "isNetworkReady env st = (ready, st1) \<Longrightarrow> view st1 = view st"
  using view_network [of env st] by simp

lemma view_status_changed: "view (status_changed a r st) = view st"
  by (simp add: status_changed_def)

lemma view_network_checked: "view (network_checked ready st) = view st"
  by (simp add: network_checked_def)

lemma view_handed_over: "view (message_handed_over env message len properties content st) = view st"
proof -
  obtain ok st2 where 2: "set_content env content (sdk (Message_Create message len) st) = (ok, st2)" by fastforce
  obtain ok' st3 where 3: "(if ok then set_properties env properties st2 else (False, st2)) = (ok', st3)" by fastforce
  have "view st2 = view st" using view_set(2) [of env content "sdk (Message_Create message len) st"] 2 by simp
  moreover have "view st3 = view st2" using arg_cong [OF 3, of snd] view_set(1) [of env properties st2] by (cases ok) auto
  ultimately show ?thesis unfolding message_handed_over_def 2 prod.case 3 by simp
qed

lemma handled_view: "handled st e \<Longrightarrow> view (hub_callback env st e) = view st"
  by (rule view_event) auto

lemma reentrant_tells:
  assumes f: "place first = Some 0"
  shows "process_r (leaves place) c st st' \<Longrightarrow> tells place first st st'"
    and "loop_r (leaves place) c i st st' \<Longrightarrow> tells_from place first c i st st'"
    and "application_r (leaves place) st st' \<Longrightarrow> tells place first st st'"
    and "ask_r (leaves place) env st connected st' \<Longrightarrow> tells place first st st'"
    and "events_r (leaves place) env es st st' \<Longrightarrow> tells place first st st'"
    and "DoWork_r (leaves place) env st st' \<Longrightarrow> tells place first st st'"
    and "setup_r (leaves place) env st st' \<Longrightarrow> tells place first st st'"
    and "work_r (leaves place) env st period st' \<Longrightarrow> tells place first st st'"
    and "step_r (leaves place) st op st' \<Longrightarrow> leaves place op \<Longrightarrow> tells place first st st'"
proof (induction rule: reentrant_inducts)
  case (process_changed connected st st')
  then show ?case by (blast intro: tells_changed)
next
  case (loop_free i st connected st')
  show ?case by (rule tells_from_free [OF loop_free(1,2,4) f])
next
  case (loop_call i st cb connected st1 st')
  show ?case by (rule tells_from_call [OF loop_call(1,2,4,6) f])
next
  case (application_elsewhere st1 st st')
  then show ?case by (blast intro: tells_before view_more)
next
  case (application_call op st st1 st')
  then show ?case by (blast intro: tells_trans)
next
  case (ask_lost env st st1 st')
  have "view (st1\<lparr>authenticationState := NotAuthenticated, deviceConnectionState := DEVICE_NOT_CONNECTED\<rparr>) = view st"
    by (simp only: view_updates view_ready [OF ask_lost(1)])
  then show ?case by (rule tells_before [OF _ ask_lost(4)])
next
  case (ask_ready env st ready st1 ready' st2 st')
  have "view st2 = view st" by (simp only: view_ready [OF ask_ready(4)] view_ready [OF ask_ready(1)])
  then show ?case by (rule tells_before [OF _ ask_ready(6)])
next
  case (ask_not env st ready st1 st')
  show ?case by (rule tells_before [OF view_ready [OF ask_not(1)] ask_not(5)])
next
  case (events_status env a r st connected st1 es st')
  then show ?case using tells_before [OF view_status_changed] by (blast intro: tells_trans)
next
  case (events_confirmed env es st st')
  then show ?case by (blast intro: tells_before [OF view_event])
next
  case (events_handled st e env st1 es st')
  then show ?case using tells_before [OF handled_view] by (blast intro: tells_trans)
next
  case (events_ignored st e env es st')
  then show ?case by (blast intro: tells_before [OF view_event])
next
  case (DoWork_client st env st')
  then show ?case by (simp add: tells_before [of "sdk Hub_DoWork st"])
next
  case (setup_not_yet env st ok st2)
  then show ?case using client_chosen_view [of env st] by (simp add: tells_view)
next
  case (setup_connected env st st2 st')
  then show ?case using client_chosen_view [of env st]
    by (intro tells_before [of "sdk Hub_Set_Callbacks (st2\<lparr>authenticationState := AuthenticationInitiated\<rparr>)" st]) simp_all
next
  case (step_timer st env ready st1 period st3)
  have "view (network_checked ready st1) = view st" by (simp only: view_network_checked view_ready [OF step_timer(2)])
  from tells_before [OF this step_timer(4)] show ?case by (rule tells_after) simp
next
  case (step_publish len env st st1 message properties content st')
  then show ?case using tells_before [OF view_handed_over] by (blast intro: tells_trans)
next
  case (step_quiet op st st')
  then show ?case by (blast intro: tells_quiet)
qed (simp_all add: tells_view tells_from_end)

interpretation reentrant_steps: stable_rel "step_r (leaves place)" "\<lambda>st. place first = Some 0" "leaves place" "tells place first"
  for place first
  by unfold_locales (auto intro: tells_view tells_trans reentrant_tells(9))

section \<open>Properties\<close>

text \<open>
  C9: whatever the connection callbacks call in their turn, and however deep: the callback in the first slot
  hears alternating connection states, beginning with the opposite of the one that is kept, and the one that is kept
  is the last it heard; every other callback that is registered once hears the same states as often, though not always in
  the same order.  This holds over any operations that return and leave these registrations alone.
\<close>

theorem azure_notifications_consistent:
  assumes "run (step_r (leaves place)) st ops st'" "\<forall>op \<in> set ops. leaves place op"
    and "placed place st" "place first = Some 0"
  shows "\<exists>bs. heard first st' = heard first st @ bs \<and> alternates (previous_connection_state st) bs \<and>
    previous_connection_state st' = (if bs = [] then previous_connection_state st else last bs) \<and>
    (\<forall>cb k. place cb = Some k \<longrightarrow>
       mset (heard cb st') = mset (heard cb st) + mset bs \<and> connectionStatusCallback st' ! k = Some cb)"
proof -
  have t: "placed place st'" "consistent place first st st'"
    using reentrant_steps.run_rel [OF assms(1,4,2)] assms(3) by (simp_all add: tells_def)
  have "connectionStatusCallback st' ! k = Some cb" if "place cb = Some k" for cb k
    using t(1) that by (auto simp: placed_def)
  then show ?thesis using t(2) unfolding consistent_def by (elim exE conjE, intro exI) auto
qed

text \<open>
  The callback in slot 0 publishes, as \<open>AvnetReconnectCallback\<close> does, and the hub client reports a lost connection
  from the DoWork in that call.  The callback in slot 1 then hears first that the connection is lost and then, when the
  outer loop goes on, that there is one.
\<close>

definition two_callbacks :: azure where
  "two_callbacks = azure_boot
     \<lparr>connectionStatusCallback := [Some 2, Some 4, None, None, None], azure_timer := (azure_timer azure_boot)\<lparr>tm_initialized := True\<rparr>,
      network_ready_cached := True, network_connection_state := True, iothubClientHandle := Some 7,
      authenticationState := AuthenticationInitiated\<rparr>"

definition hello :: azure_op where
  "hello = Publish (granting_env\<lparr>hub_events := [Connection_Status False IOTHUB_CLIENT_CONNECTION_NO_NETWORK]\<rparr>) (Some ''{}'') 2 [] None"

lemma two_slots:
  assumes "connectionStatusCallback st = [Some a, Some b, None, None, None]" "application_r A (sdk (Notify a c) st) st1"
    and "connectionStatusCallback st1 = connectionStatusCallback st"
  shows "loop_r A c 0 st (sdk (Notify b c) st1)"
proof -
  have e: "connectionStatusCallback st1 = [Some a, Some b, None, None, None]" using assms(1,3) by simp
  have "loop_r A c 2 (sdk (Notify b c) st1) (sdk (Notify b c) st1)"
    by (rule loop_free, simp, simp add: e sdk_def numeral_eq_Suc)+ (rule loop_end, simp)
  then have "loop_r A c 1 st1 (sdk (Notify b c) st1)"
    using assms(1,3) by (intro loop_call [of 1 st1 b A c, OF _ _ application_end]) (simp_all add: numeral_2_eq_2)
  then show ?thesis using assms(1) by (intro loop_call [of 0 st a A c, OF _ _ assms(2)]) simp_all
qed

abbreviation example_place :: "nat \<rightharpoonup> nat" where
  "example_place \<equiv> [2 \<mapsto> 0, 4 \<mapsto> 1]"

definition usable :: "azure \<Rightarrow> authentication_state \<Rightarrow> bool \<Rightarrow> bool" where
  "usable st auth kept \<longleftrightarrow> connectionStatusCallback st = [Some 2, Some 4, None, None, None] \<and> iothubClientHandle st = Some 7 \<and>
     network_ready_cached st \<and> network_connection_state st \<and> authenticationState st = auth \<and> previous_connection_state st = kept"

lemma usableD:
  assumes "usable st auth kept"
  shows "connectionStatusCallback st = [Some 2, Some 4, None, None, None]" "iothubClientHandle st = Some 7"
    "isNetworkReady env st = (True, st)" "authenticationState st = auth" "previous_connection_state st = kept"
  using assms by (simp_all add: usable_def isNetworkReady_def)

lemma azure_reentry_reverses_order:
  "\<exists>st'. step_r (leaves example_place) two_callbacks
       (Connection_Timer (granting_env\<lparr>hub_events := [Connection_Status True IOTHUB_CLIENT_CONNECTION_OK]\<rparr>)) st' \<and>
     heard 2 st' = [True, False] \<and> heard 4 st' = [False, True] \<and> \<not> previous_connection_state st'"
proof -
  let ?A = "leaves example_place"
  let ?on = "granting_env\<lparr>hub_events := [Connection_Status True IOTHUB_CLIENT_CONNECTION_OK]\<rparr>"
  let ?off = "granting_env\<lparr>hub_events := [Connection_Status False IOTHUB_CLIENT_CONNECTION_NO_NETWORK]\<rparr>"
  define s1 where "s1 = status_changed True IOTHUB_CLIENT_CONNECTION_OK (sdk Hub_DoWork two_callbacks)"
  define s2 where "s2 = sdk (Notify 2 True) (s1\<lparr>previous_connection_state := True\<rparr>)"
  define s3 where "s3 = status_changed False IOTHUB_CLIENT_CONNECTION_NO_NETWORK
    (sdk Hub_DoWork (message_handed_over ?off (Some ''{}'') 2 [] None s2))"
  define s4 where "s4 = sdk (Notify 2 False) (s3\<lparr>previous_connection_state := False\<rparr>)"
  define s5 where "s5 = sdk (Notify 4 False) s4"
  define s6 where "s6 = sdk (Notify 4 True) s5"
  have f0: "usable two_callbacks AuthenticationInitiated False" by (simp add: usable_def two_callbacks_def azure_boot_def)
  have f1: "usable s1 Authenticated False" using f0 by (simp add: s1_def usable_def status_changed_def sdk_def)
  have f2: "usable s2 Authenticated True" using f1 by (simp add: s2_def usable_def sdk_def)
  let ?sent = "message_handed_over ?off (Some ''{}'') 2 [] None s2"
  have fs: "usable ?sent Authenticated True"
    using f2 by (simp add: usable_def sdk_def message_handed_over_def set_content_def granting_env_def)
  have f3: "usable s3 Device_Disabled True" using fs by (simp add: s3_def usable_def sdk_def status_changed_def)
  have f4: "usable s4 Device_Disabled False" using f3 by (simp add: s4_def usable_def sdk_def)
  have f5: "usable s5 Device_Disabled False" using f4 by (simp add: s5_def usable_def sdk_def)
  have f6: "usable s6 Device_Disabled False" using f5 by (simp add: s6_def usable_def sdk_def)
  have "ask_r ?A ?off s4 False s4"
    by (rule ask_not [OF usableD(3) [OF f4]]) (simp_all add: usableD [OF f4] process_same)
  then have refused: "application_r ?A s4 s4"
    by (intro application_call [of ?A hello s4 s4, OF _ _ application_end]) (auto simp: hello_def intro: step_publish_refused)
  have "loop_r ?A False 0 (s3\<lparr>previous_connection_state := False\<rparr>) s5"
    unfolding s5_def
    by (rule two_slots [of _ 2 4 ?A False s4]) (use refused usableD(1) [OF f3] in \<open>simp_all add: s4_def sdk_def\<close>)
  then have "process_r ?A False s3 s5" by (intro process_changed) (simp_all add: usableD [OF f3])
  then have "ask_r ?A ?off s3 False s5" by (intro ask_not [OF usableD(3) [OF f3]]) (simp_all add: usableD [OF f3])
  then have "events_r ?A ?off (hub_events ?off) (sdk Hub_DoWork ?sent) s5"
    by (simp add: s3_def events_status [OF _ events_end])
  then have "DoWork_r ?A ?off ?sent s5" by (intro DoWork_client) (simp_all add: usableD [OF fs])
  moreover have "ask_r ?A ?off s2 True s2"
    by (rule ask_ready [OF usableD(3) [OF f2] _ _ usableD(3) [OF f2]]) (simp_all add: usableD [OF f2] process_same)
  ultimately have "step_r ?A s2 hello s5" unfolding hello_def by (intro step_publish) (simp_all add: granting_env_def)
  then have hello: "application_r ?A s2 s5"
    by (intro application_call [of ?A hello s2 s5, OF _ _ application_end]) (simp_all add: hello_def)
  have "loop_r ?A True 0 (s1\<lparr>previous_connection_state := True\<rparr>) s6"
    unfolding s6_def
    by (rule two_slots [of _ 2 4 ?A True s5]) (use hello usableD(1) [OF f1] usableD(1) [OF f5] in \<open>simp_all add: s2_def\<close>)
  then have "process_r ?A True s1 s6" by (intro process_changed) (simp_all add: usableD [OF f1])
  then have "ask_r ?A ?on s1 True s6"
    by (intro ask_ready [OF usableD(3) [OF f1] _ _ usableD(3) [OF f1]]) (simp_all add: usableD [OF f1])
  then have "events_r ?A ?on (hub_events ?on) (sdk Hub_DoWork two_callbacks) s6"
    by (simp add: s1_def events_status [OF _ events_end])
  then have "DoWork_r ?A ?on two_callbacks s6" by (intro DoWork_client) (simp_all add: two_callbacks_def)
  then have "work_r ?A ?on (network_checked True two_callbacks) \<lparr>tv_sec = 1, tv_nsec = 0\<rparr> s6"
    by (intro work_initiated) (simp_all add: network_checked_def two_callbacks_def)
  then have step: "step_r ?A two_callbacks (Connection_Timer ?on)
      (snd (dx_timerOneShotSet (azure_timer s6) \<lparr>tv_sec = 1, tv_nsec = 0\<rparr> s6))"
    by (intro step_timer [OF _ usableD(3) [OF f0]]) (simp_all add: two_callbacks_def)
  have v: "view (snd (dx_timerOneShotSet t p s6)) = view s6" for t p by simp
  have h: "heard cb s1 = []" "heard cb s3 = heard cb s2" for cb
  proof -
    have "heard cb s1 = heard cb two_callbacks" using heard_view view_sdk view_status_changed by (simp add: s1_def)
    then show "heard cb s1 = []" by (simp add: heard_def two_callbacks_def azure_boot_def)
    show "heard cb s3 = heard cb s2" using heard_view view_sdk view_status_changed view_handed_over by (simp add: s3_def)
  qed
  have up: "heard cb (st\<lparr>previous_connection_state := b\<rparr>) = heard cb st" for cb st b by (simp add: heard_def)
  have "heard 2 s6 = [True, False]" "heard 4 s6 = [False, True]"
    by (simp_all add: s6_def s5_def s4_def s2_def heard_notify up h)
  moreover have "\<not> previous_connection_state (snd (dx_timerOneShotSet t p s6))" for t p
    using v [of t p] usableD(5) [OF f6] by (simp add: view_def)
  moreover have "heard cb (snd (dx_timerOneShotSet t p s6)) = heard cb s6" for cb t p by (simp only: heard_view v)
  ultimately show ?thesis
    using step by (intro exI [of _ "snd (dx_timerOneShotSet (azure_timer s6) \<lparr>tv_sec = 1, tv_nsec = 0\<rparr> s6)"]) simp
qed

theorem azure_notifications_consistent_witness:
  "\<exists>ops st'. run (step_r (leaves example_place)) two_callbacks ops st' \<and>
     heard 2 st' = [True, False] \<and> heard 4 st' = [False, True] \<and>
     (\<exists>bs. heard 2 st' = heard 2 two_callbacks @ bs \<and> mset (heard 4 st') = mset (heard 4 two_callbacks) + mset bs)"
proof -
  obtain env st' where st': "step_r (leaves example_place) two_callbacks (Connection_Timer env) st'"
    "heard 2 st' = [True, False]" "heard 4 st' = [False, True]"
    using azure_reentry_reverses_order by blast
  have r: "run (step_r (leaves example_place)) two_callbacks [Connection_Timer env] st'" using st'(1) by (rule run_one)
  have p: "placed example_place two_callbacks" by (auto simp: placed_def two_callbacks_def less_Suc_eq numeral_eq_Suc)
  from azure_notifications_consistent [OF r _ p, of 2] obtain bs where
    "heard 2 st' = heard 2 two_callbacks @ bs" "mset (heard 4 st') = mset (heard 4 two_callbacks) + mset bs"
    by auto
  with r st'(2,3) show ?thesis by blast
qed

end
