(* ===== verification/Spec2Isabelle.thy ===== *)
theory Spec2Isabelle
  imports Parson_Properties Dx_Peripherals Dx_Config Dx_DirectMethods Dx_Avnet_Properties Dx_Twin_Properties Dx_OpenAI
    Parson_Ownership Parson_Settings Parson_Files Dx_Time Dx_Message Dx_Texts Sdk_Queue Dx_Azure_Reentry
begin

text \<open>
  The EdgeDevX library (src/src and src/include): the runtime, peripherals and cloud connections of a device
  application, on the JSON library parson.

  \<^bold>\<open>The program.\<close>  An application registers timers and bindings and runs an event loop.  \<^verbatim>\<open>dx_azure_iot.c\<close> owns
  the connection to Azure IoT Hub: a timer handler walks through two state machines until the hub client has
  authenticated, and tells registered callbacks when the connection comes and goes.  Device twins, direct methods and the Avnet IoTConnect
  layer register their callbacks there; what they receive is JSON text that parson parses, what they send is JSON text
  that they print by hand or let parson write.  The peripherals (GPIO, I2C, PWM) are sets of bindings that are opened and closed together.

  \<^bold>\<open>Conventions.\<close>  A static variable is a field of the record of its file, and an operation takes and returns the record; records
  extend one another as the files use one another.  A C string is the list of its characters without the NUL, a pointer that may be NULL
  an option, a buffer the list of its bytes.  A status is a sum, \<open>Inl\<close> for a failure.  Where the code can crash (a NULL pointer, freed memory,
  a read past a block) the result is an option and None is the crash.  What the code asks of the system or of a
  library that is not modelled (malloc, the clients of the Azure SDK, libuv, libgpiod, curl, getopt) is an argument: a record of answers that every
  property quantifies over, with the calls kept as a list in the state.  Words are kept at their width where they wrap.  A
  definition for a loop of a C function has a name of its own and stands before the function's.

  \<^bold>\<open>parson\<close> (\<^verbatim>\<open>parson.c\<close>).
  \<^item> \<open>Parson_Object\<close>: the open-addressing table of an object, its growth, and the deletion that shifts cells back.  \<open>table_ok\<close> is the
    invariant of the arrays; \<open>object_store\<close> interprets the contract \<open>key_store\<close> of \<open>Key_Store\<close> on the table, so that any sequence of operations
    is a finite map.
  \<^item> \<open>Parson_Text\<close>: UTF-8, escapes, quoted strings, comments.  \<open>C_Double\<close>: the binary64 numbers, rounding, strtod, and the printf formats.
  \<^item> \<open>Parson_Value\<close>, \<open>Parson_Json\<close>: the value functions, parser, serializer, copy, comparison, validation, dotted names.  The parser is bounded
    by its own limit of 2048 nested values, which is also the measure of its termination.
  \<^item> \<open>Parson_RoundTrip\<close>, \<open>Parson_Api\<close>, \<open>Parson_Properties\<close>: reading back what was serialized in either layout, and the API's properties.
  \<^item> \<open>Parson_Heap\<close>: the same operations on memory: the blocks of the values with their links and parent pointers, with every request
    for memory granted or refused by an argument, and the use of freed memory, a second free and a call that does not return as None.
    \<open>Parson_Forest\<close> has the invariant, that links and parent pointers agree and lead to roots; \<open>Parson_Memory\<close> and \<open>Parson_Dotset\<close> show that the
    operations keep it and undo what they made when they fail; \<open>Parson_Copy\<close> relates blocks to the values they denote; \<open>Parson_Ownership\<close> has
    runs of any calls of \<open>heap_call\<close> that a caller may make: all functions that change a value.  One case is excepted: a caller who keeps
    a value after \<open>json_object_dotset_value\<close> has failed and left the value's parent pointer on a freed object.
  \<^item> \<open>Parson_Settings\<close>: the static settings and the text of a number, which by default fits the buffer it is written into.
  \<^item> \<open>Parson_Files\<close>: the functions that read and write files, after \<open>Dx_Json\<close>.
  \<^item> \<open>Json_Text\<close>: what the parser makes of texts that the program prints with formats.

  \<^bold>\<open>Runtime and peripherals.\<close>
  \<^item> \<open>Dx_Runtime\<close> (\<^verbatim>\<open>dx_timer.c\<close>, \<^verbatim>\<open>dx_terminate.c\<close>, \<^verbatim>\<open>dx_async.c\<close>); its locales \<open>binding_set\<close> and \<open>reporting_set\<close> are the contract of all sets of
    bindings and are interpreted for timers, GPIO lines, I2C masters and PWM channels.
  \<^item> \<open>Dx_Gpio\<close> (\<^verbatim>\<open>dx_gpio.c\<close>), \<open>Dx_Peripherals\<close> (\<^verbatim>\<open>rx_gpio.c\<close>, \<^verbatim>\<open>dx_i2c.c\<close>, \<^verbatim>\<open>dx_pwm.c\<close>), \<open>Dx_Utilities\<close> (\<^verbatim>\<open>dx_utilities.c\<close>), \<open>Dx_Config\<close>
    (\<^verbatim>\<open>dx_config.c\<close>), \<open>Dx_Json\<close> (\<^verbatim>\<open>dx_json_serializer.c\<close>).
  \<^item> \<open>Dx_Time\<close>: the time stamps of \<^verbatim>\<open>dx_utilities.c\<close>, with the calendar that counts years and months down, compared with closed
    formulas.  \<open>Dx_Texts\<close>: the names of codes and the printed list of children (\<^verbatim>\<open>dx_azure_iot.c\<close>, \<^verbatim>\<open>dx_avnet_iot_connect.c\<close>).

  \<^bold>\<open>Azure IoT\<close> (\<^verbatim>\<open>dx_azure_iot.c\<close>).  \<open>Dx_AzureIot\<close> has the operations and the step relation \<open>azure_step\<close>: the application's calls and the ticks of the three
  timers, each with its own record of the SDK's answers and the events it delivers.  \<open>Step_System\<close> has runs and the locale \<open>stable\<close>.  \<open>Dx_Azure_Invariant\<close>
  shows the invariant of the clients, \<open>Dx_Azure_Status\<close> who is told what, \<open>Dx_Azure_Timer\<close> and \<open>Dx_Azure_Clock\<close> the timers,
  \<open>Dx_Azure_Provisioning\<close> what the ticks do, \<open>Dx_Azure_Properties\<close> the properties.  In these theories the application's callbacks call no function
  of the file in their turn.  \<open>Dx_Azure_Reentry\<close> has the operations that notify once more, as relations in which each callback may call
  any operation, nested to any depth; it shows that the first theories describe one of these runs, and what callbacks are told in all of them.

  \<^bold>\<open>Messages and queues of the SDK\<close> (under \<^verbatim>\<open>azure-iot-sdk-c\<close>).  \<open>Sdk_Map\<close> (\<^verbatim>\<open>c-utility/src/map.c\<close>) has the string map on its two growing arrays, with every
  request for memory granted or refused, and shows that it is a list of pairs; it is another interpretation of \<open>key_store\<close>.  \<open>Sdk_Message\<close>
  (\<^verbatim>\<open>iothub_client/src/iothub_message.c\<close>) has the messages that keep their properties in such a map.  \<open>Dx_Message\<close> puts them in the place of
  the SDK's answers to \<open>dx_azurePublish\<close>, and so shows what a published message holds.
  \<open>Sdk_Dlist\<close> (\<^verbatim>\<open>c-utility/src/doublylinkedlist.c\<close>) has the circular lists on a heap, and \<open>Sdk_Queue\<close> (\<^verbatim>\<open>iothub_client/src/iothub_client_core_ll.c\<close> and the part
  of \<^verbatim>\<open>iothubtransport_mqtt_common.c\<close> that takes events from the client) the lists of events and reports with everything that is done to them
  until they are confirmed.  Its loops are partial functions whose result None is also not returning; the lemmas show that they return, that the
  lists stay circles of allocated entries, and that a multiset of the callbacks run and still to be run only grows by what is accepted.

  \<^bold>\<open>On top of the connection.\<close>
  \<^item> \<open>Dx_DeviceTwins\<close>, \<open>Dx_Twin_Properties\<close> (\<^verbatim>\<open>dx_device_twins.c\<close>): the pointers of the application are numbers of bindings, a handler
    a function on the state.  The update that a hub delivers inside \<open>IoTHubDeviceClient_LL_DoWork\<close> is recorded there and is a step of its own here.
    The uses of a binding include the end of the subscriptions, after which the pointers of the open bindings are NULL.
  \<^item> \<open>Dx_DirectMethods\<close> (\<^verbatim>\<open>dx_direct_methods.c\<close>).
  \<^item> \<open>Dx_ChildList\<close>, \<open>Dx_Avnet\<close>, \<open>Dx_Avnet_Properties\<close> (\<^verbatim>\<open>dx_avnet_iot_connect.c\<close>): the doubly linked list on a heap refines a list of pairs
    (locale \<open>keyed_list\<close>); its loops are partial functions whose result None is also not returning, and the refinement shows
    that they return.  The callback for a new connection is a step of its own, after the operation that makes it.
  \<^item> \<open>Dx_OpenAI\<close> (\<^verbatim>\<open>dx_openai_functions.c\<close>).

  This theory adds what spans the components.

  \<^bold>\<open>Not modelled.\<close>  The rest of the Azure IoT C SDK (\<^verbatim>\<open>azure-iot-sdk-c\<close>), a vendored library of transports, protocols and TLS, of which the
  program relies on answers and callbacks only: these are arguments, also where the functions above ask a transport or the
  diagnostics; of the map and the messages, the functions that only free or only list what is there; a callback of the application that calls
  the hub client back while it works on its lists; a callback that calls \<^verbatim>\<open>dx_azure_iot.c\<close> back, but for what is said of it in
  \<open>Dx_Azure_Reentry\<close>.  Logging (\<^verbatim>\<open>log.c\<close> and the texts of Log_Debug); what another allocator, number
  format or number function of parson's settings does to whole documents, as these are arguments or their defaults everywhere but in
  \<open>Parson_Settings\<close>; the clock, the time zone and sleeping, whose answers are arguments.
  In the theories of parson before \<open>Parson_Heap\<close> a value is what it denotes, and the parent pointer that parson tests before it
  links a value is an argument \<open>has_parent\<close>, and the length that \<open>json_serialize_to_buffer_r\<close> counts in an int is a number without a bound.
\<close>

section \<open>From a measurement to the platform\<close>


text \<open>
  C6: a measurement makes its way to the platform: what an application gives to dx_jsonSerialize and then to
  dx_avnetJsonSerializePayload, in any state that a run of the connection can reach, is read back from the final
  buffer as the object of its pairs inside the envelope with the identifiers of the hello response.  Before the first
  hello response the identifiers are empty, and the call succeeds then too: the header of the function says that it returns
  false, but nothing in the code checks for a response.
\<close>

theorem telemetry_reaches_platform:
  assumes "\<forall>k. json_mem env k" "run avnet_step avnet_boot ops st" "plain (cstr (sidString st))" "plain (cstr (dtgGUID st))"
    "list_all pair_ok pairs" "size1 \<le> length buf1" "dx_jsonSerialize (json_mem env) True True esc buf1 size1 pairs = Some (True, body)"
    "size1 + IOT_CONNECT_METADATA \<le> size2"
  shows "\<exists>buf2 v. dx_avnetJsonSerializePayload env (Some (cstr body)) buf size2 None st = Some (True, buf2) \<and>
    json_parse_string (json_mem env) (Some (cstr buf2)) = Some v \<and>
    json_abs v = Obj [(''sid'', Str (cstr (sidString st))), (''dtg'', Str (cstr (dtgGUID st))), (''mt'', Num (double_of_int 0)),
      (''d'', Arr [Obj [(''d'', Obj (foldl add_pair [] pairs))]])]"
proof (rule dx_jsonSerialize_object [OF assms(1,5,6), of esc])
  fix obj json
  assume o: "value_ok (JObject obj)" "json_depth (JObject obj) \<le> 1" "json_abs (JObject obj) = Obj (foldl add_pair [] pairs)"
    "json_serialize_to_string esc (Some (JObject obj)) = Some json"
    and r: "dx_jsonSerialize (json_mem env) True True esc buf1 size1 pairs =
       Some (length json < size1, if length json < size1 then safe_string_copy buf1 json size1 else buf1)"
    and c: "length json < size1 \<Longrightarrow> cstr (safe_string_copy buf1 json size1) = json \<and>
       length (safe_string_copy buf1 json size1) = length buf1"
  have body: "cstr body = json" "length json < size1" using r c assms(7) by (auto split: if_splits)
  have "rest_ok st" using avnet_runs.run_inv [OF assms(2) avnet_ok_boot] by (simp add: avnet_ok_def)
  moreover have "length json + IOT_CONNECT_METADATA \<le> size2" using body(2) assms(8) by simp
  moreover have "json_depth (JObject obj) + 3 \<le> MAX_NESTING" using o(2) by simp
  ultimately show ?thesis
    using payload_reads_back [OF assms(1) o(1) _ _ assms(3,4) o(4), of size2 buf] body(1) o(3) by simp
qed

lemma telemetry_reaches_platform_witness:
  "\<exists>buf2 v. dx_avnetJsonSerializePayload plain_env
       (Some (cstr (snd (the (dx_jsonSerialize (\<lambda>_. True) True True True (replicate 64 NUL) 64 [(Some ''on'', DX_JSON_BOOL 1)])))))
       (replicate 400 NUL) 400 None (dx_avnetConnect plain_env dps_config None avnet_boot) = Some (True, buf2) \<and>
     json_parse_string (\<lambda>_. True) (Some (cstr buf2)) = Some v \<and>
     json_abs v = Obj [(''sid'', Str []), (''dtg'', Str []), (''mt'', Num (double_of_int 0)),
       (''d'', Arr [Obj [(''d'', Obj [(''on'', Bool True)])]])]"
proof -
  let ?st = "dx_avnetConnect plain_env dps_config None avnet_boot"
  let ?r = "dx_jsonSerialize (\<lambda>_. True) True True True (replicate 64 NUL) 64 [(Some ''on'', DX_JSON_BOOL 1)]"
  have "run avnet_step avnet_boot [Avnet_Connect plain_env dps_config None] ?st" by (intro run_one avnet_step.start)
  moreover have "cstr (sidString ?st) = []" "cstr (dtgGUID ?st) = []"
    by (simp_all add: dx_avnetConnect_def avnet_boot_def cstr_def Let_def split_beta)
  moreover obtain body where "?r = Some (True, body)"
  proof -
    have "table_ok (json_object_make :: json_obj)" by (rule table_ok_make(1))
    then obtain obj where obj: "json_object_set_value (\<lambda>_. True) (json_object_make :: json_obj) ''on'' (JBoolean True) False = Inr obj"
      "obj_items obj = [(''on'', JBoolean True)]"
      using json_object_set_value_ok [of json_object_make "''on''" "\<lambda>_. True" "JBoolean True"] grow_granted_all [of "\<lambda>_. True"]
      by (auto simp: obj_items_def)
    have "json_set_pair (\<lambda>_. True) json_object_make (Some ''on'', DX_JSON_BOOL 1) = obj"
      using obj(1) by (simp add: json_set_pair_alt object_set_value_def)
    moreover have "json_serialize_to_string True (Some (JObject obj)) = Some (CHR ''{'' # json_serialize_string True ''on'' @ '':true}'')"
      using obj(2) by (simp add: json_serialize_to_string_def json_serialize_to_buffer_def json_serialization_size_def
          json_container_def obj_items_def)
    ultimately show thesis
      using that plain_quoted [of "''on''"] by (simp add: dx_jsonSerialize_def json_serialize_string_def escape_char_def)
  qed
  ultimately show ?thesis
    using telemetry_reaches_platform [of plain_env "[Avnet_Connect plain_env dps_config None]" ?st "[(Some ''on'', DX_JSON_BOOL 1)]"
        64 "replicate 64 NUL" True body 400 "replicate 400 NUL"]
    by (simp add: plain_env_def pair_ok_def add_pair_def)
qed

end
